(* ===== verification/Prelude.thy ===== *)
theory Prelude
  imports Main "HOL-Library.Multiset" "HOL-Library.Monad_Syntax" "HOL-Library.Word"
begin

text \<open>
  Shared material of the development: the collections of rewrite rules the component
  theories add to, the C integer conversions of the 64-bit targets the code is built for,
  and generic lemmas on lists, options and multisets.
\<close>

section \<open>Collections\<close>

text \<open>
  \<open>model_defs\<close> collects the non-recursive definitions of the components (the methods that
  only forward to another one, the constructors, the getters), so that a proof over a whole
  operation is \<open>simp add: model_defs\<close>.
\<close>

named_theorems model_defs

section \<open>C integers\<close>

text \<open>
  Signed arithmetic is written over \<open>int\<close>: where it overflows, the C program has no
  defined behaviour, and theorems that depend on the range say so with \<open>fits_long\<close>.
  Conversions to an unsigned type, and unsigned arithmetic, wrap around and are written out.
\<close>

definition fits_long :: "int \<Rightarrow> bool" where
  "fits_long x \<longleftrightarrow> - (2 ^ 63) \<le> x \<and> x < 2 ^ 63"

definition to_ulong :: "int \<Rightarrow> int" where
  "to_ulong x = x mod 2 ^ 64"

definition to_long :: "int \<Rightarrow> int" where
  "to_long x = (x + 2 ^ 63) mod 2 ^ 64 - 2 ^ 63"

text \<open>C's integer division truncates towards zero.\<close>

definition c_div :: "int \<Rightarrow> int \<Rightarrow> int" where
  "c_div a b = sgn a * sgn b * (\<bar>a\<bar> div \<bar>b\<bar>)"

lemma to_ulong_id [simp]: "0 \<le> x \<Longrightarrow> x < 2 ^ 64 \<Longrightarrow> to_ulong x = x"
  by (simp add: to_ulong_def)

lemma to_ulong_range: "0 \<le> to_ulong x" "to_ulong x < 2 ^ 64"
  by (simp_all add: to_ulong_def)

lemma to_long_id [simp]: "fits_long x \<Longrightarrow> to_long x = x"
  by (simp add: to_long_def fits_long_def)

lemma to_long_to_ulong [simp]: "to_long (to_ulong x) = to_long x"
  by (simp add: to_long_def to_ulong_def mod_simps)

lemma to_long_fits [simp]: "fits_long (to_long x)"
  by (simp add: to_long_def fits_long_def)

text \<open>\<open>unsigned char\<close> and \<open>uint8_t\<close>.\<close>

type_synonym byte = "8 word"

section \<open>Lists and options\<close>

lemma sorted_append_iff:
  "sorted (xs @ ys) \<longleftrightarrow> sorted xs \<and> sorted ys \<and> (\<forall>x \<in> set xs. \<forall>y \<in> set ys. x \<le> y)"
  by (rule sorted_append)

lemma bind_Some_iff: "Option.bind m f = Some y \<longleftrightarrow> (\<exists>x. m = Some x \<and> f x = Some y)"
  by (cases m) auto

lemma ex_Some_iff: "(\<exists>x. m = Some x) \<longleftrightarrow> m \<noteq> None"
  by auto

end
