(* ===== verification/Pair_Container.thy ===== *)
theory Pair_Container
  imports Prelude
begin

text \<open>
  The interface between the containers of dlib that are built on one another: a table of
  (key, value) pairs that may hold equal keys, as \<open>binary_search_tree/*_abstract.h\<close> and
  \<open>hash_table/*_abstract.h\<close> require it of the class passed as the template argument
  \<open>bst_base\<close> or \<open>hash_table\<close>. The record holds the operations a client may call, the locale
  what they promise; the ordered containers add that \<open>remove_any\<close> takes the least key and that
  the enumeration is in key order.
\<close>

section \<open>The enumeration loop of a client\<close>

text \<open>\<open>while (c.move_next()) use(c.element())\<close>, for at most \<open>n\<close> rounds.\<close>

fun enumerate_loop ::
  "('s \<Rightarrow> ('s \<times> bool) option) \<Rightarrow> ('s \<Rightarrow> 'e option) \<Rightarrow> nat \<Rightarrow> 's \<Rightarrow> ('e list \<times> 's) option" where
  "enumerate_loop move_next element 0 s = Some ([], s)"
| "enumerate_loop move_next element (Suc n) s = do {
     (s, more) \<leftarrow> move_next s;
     (if more
      then do { p \<leftarrow> element s;
                (ps, s) \<leftarrow> enumerate_loop move_next element n s;
                Some (p # ps, s) }
      else Some ([], s)) }"

section \<open>The operations of a pair container\<close>

record ('s, 'd, 'r) container_ops =
  c_clear :: "'s \<Rightarrow> 's option"
  c_count :: "'s \<Rightarrow> 'd \<Rightarrow> nat"
  c_add :: "'s \<Rightarrow> 'd \<Rightarrow> 'r \<Rightarrow> 's option"
  c_remove :: "'s \<Rightarrow> 'd \<Rightarrow> ('s \<times> 'd \<times> 'r) option"
  c_destroy :: "'s \<Rightarrow> 'd \<Rightarrow> 's option"
  c_remove_any :: "'s \<Rightarrow> ('s \<times> 'd \<times> 'r) option"
  c_index :: "'s \<Rightarrow> 'd \<Rightarrow> 'r option"
  c_size :: "'s \<Rightarrow> nat"
  c_at_start :: "'s \<Rightarrow> bool"
  c_reset :: "'s \<Rightarrow> 's"
  c_current_element_valid :: "'s \<Rightarrow> bool"
  c_element :: "'s \<Rightarrow> ('d \<times> 'r) option"
  c_move_next :: "'s \<Rightarrow> ('s \<times> bool) option"

abbreviation keys_of :: "('d \<times> 'r) multiset \<Rightarrow> 'd set" where
  "keys_of m \<equiv> fst ` set_mset m"

section \<open>What the operations promise\<close>

text \<open>
  \<open>inv\<close> is the invariant of the container's state, \<open>contents\<close> the pairs it holds and
  \<open>capacity\<close> the states small enough to be enumerated.
\<close>

locale pair_container =
  fixes ops :: "('s, 'd, 'r) container_ops"
    and inv :: "'s \<Rightarrow> bool"
    and contents :: "'s \<Rightarrow> ('d \<times> 'r) multiset"
    and capacity :: "'s \<Rightarrow> bool"
  assumes clear_spec: "inv s \<Longrightarrow> \<exists>s'. c_clear ops s = Some s' \<and> inv s' \<and> contents s' = {#}"
    and count_spec: "inv s \<Longrightarrow> c_count ops s d = count (image_mset fst (contents s)) d"
    and add_spec: "inv s \<Longrightarrow> \<exists>s'. c_add ops s d r = Some s' \<and> inv s' \<and>
      contents s' = add_mset (d, r) (contents s)"
    and remove_spec: "inv s \<Longrightarrow> d \<in> keys_of (contents s) \<Longrightarrow>
      \<exists>s' r. c_remove ops s d = Some (s', d, r) \<and> inv s' \<and>
        contents s = add_mset (d, r) (contents s')"
    and destroy_spec: "inv s \<Longrightarrow> d \<in> keys_of (contents s) \<Longrightarrow>
      \<exists>s' r. c_destroy ops s d = Some s' \<and> inv s' \<and> contents s = add_mset (d, r) (contents s')"
    and remove_any_spec: "inv s \<Longrightarrow> contents s \<noteq> {#} \<Longrightarrow>
      \<exists>s' d r. c_remove_any ops s = Some (s', d, r) \<and> inv s' \<and>
        contents s = add_mset (d, r) (contents s')"
    and index_None: "inv s \<Longrightarrow> c_index ops s d = None \<longleftrightarrow> d \<notin> keys_of (contents s)"
    and index_Some: "inv s \<Longrightarrow> c_index ops s d = Some r \<Longrightarrow> (d, r) \<in># contents s"
    and size_spec: "inv s \<Longrightarrow> c_size ops s = size (contents s)"
    and enumerate_spec: "inv s \<Longrightarrow> capacity s \<Longrightarrow>
      \<exists>ps s'. enumerate_loop (c_move_next ops) (c_element ops) (Suc (size (contents s)))
          (c_reset ops s) = Some (ps, s') \<and>
        inv s' \<and> contents s' = contents s \<and> mset ps = contents s \<and>
        \<not> c_current_element_valid ops s'"
    and reset_spec: "inv s \<Longrightarrow> inv (c_reset ops s) \<and> contents (c_reset ops s) = contents s"
    and move_next_spec: "inv s \<Longrightarrow> capacity s \<Longrightarrow>
      \<exists>s' more. c_move_next ops s = Some (s', more) \<and> inv s' \<and> contents s' = contents s \<and>
        c_current_element_valid ops s' = more"
    and element_spec: "inv s \<Longrightarrow> c_current_element_valid ops s \<Longrightarrow>
      \<exists>p. c_element ops s = Some p \<and> p \<in># contents s"
    and element_None: "inv s \<Longrightarrow> \<not> c_current_element_valid ops s \<Longrightarrow> c_element ops s = None"
    and reset_reset: "c_reset ops (c_reset ops s) = c_reset ops s"
    and capacity_contents: "inv s \<Longrightarrow> inv s' \<Longrightarrow> contents s' = contents s \<Longrightarrow>
      capacity s' = capacity s"

text \<open>The ordered containers: \<open>asc_pair_remover\<close> and enumeration in key order.\<close>

locale asc_pair_container = pair_container ops inv contents capacity
  for ops :: "('s, 'd::linorder, 'r) container_ops"
    and inv :: "'s \<Rightarrow> bool"
    and contents :: "'s \<Rightarrow> ('d \<times> 'r) multiset"
    and capacity :: "'s \<Rightarrow> bool" +
  assumes remove_any_least: "inv s \<Longrightarrow> c_remove_any ops s = Some (s', d, r) \<Longrightarrow>
      \<forall>k \<in> keys_of (contents s'). d \<le> k"
    and enumerate_sorted: "inv s \<Longrightarrow> capacity s \<Longrightarrow>
      enumerate_loop (c_move_next ops) (c_element ops) (Suc (size (contents s))) (c_reset ops s)
        = Some (ps, s') \<Longrightarrow> sorted (map fst ps)"

section \<open>Containers without equal keys\<close>

definition distinct_keys :: "('d \<times> 'r) multiset \<Rightarrow> bool" where
  "distinct_keys m \<longleftrightarrow> (\<forall>d. count (image_mset fst m) d \<le> 1)"

lemma distinct_keys_empty [simp]: "distinct_keys {#}"
  by (simp add: distinct_keys_def)

lemma distinct_keys_add:
  "distinct_keys (add_mset (d, r) m) \<longleftrightarrow> d \<notin> keys_of m \<and> distinct_keys m"
proof -
  have "count (image_mset fst m) d = 0 \<longleftrightarrow> d \<notin> keys_of m"
    by (metis count_eq_zero_iff set_image_mset)
  then show ?thesis
    by (auto simp: distinct_keys_def le_Suc_eq split: if_splits)
qed

text \<open>The map a container with distinct keys represents.\<close>

definition map_of_contents :: "('d \<times> 'r) multiset \<Rightarrow> 'd \<rightharpoonup> 'r" where
  "map_of_contents m d =
     (if d \<in> keys_of m then Some (THE r. (d, r) \<in># m) else None)"

lemma distinct_keysD:
  assumes "distinct_keys m" "(d, r) \<in># m" "(d, r') \<in># m"
  shows "r = r'"
proof -
  from assms(2) obtain m' where m: "m = add_mset (d, r) m'" by (metis mset_add)
  with assms(1) have "d \<notin> keys_of m'" by (simp add: distinct_keys_add)
  with assms(3) m show ?thesis by force
qed

lemma map_of_contents_eq:
  "distinct_keys m \<Longrightarrow> (d, r) \<in># m \<Longrightarrow> map_of_contents m d = Some r"
  unfolding map_of_contents_def by (force dest: distinct_keysD intro!: the_equality)

lemma map_of_contents_None: "d \<notin> keys_of m \<Longrightarrow> map_of_contents m d = None"
  by (simp add: map_of_contents_def)

lemma map_of_contents_empty [simp]: "map_of_contents {#} = Map.empty"
  by (auto simp: map_of_contents_def)

lemma map_of_contents_add:
  assumes "distinct_keys (add_mset (d, r) m)"
  shows "map_of_contents (add_mset (d, r) m) = (map_of_contents m)(d \<mapsto> r)"
proof
  fix k
  from assms have d: "d \<notin> keys_of m" "distinct_keys m" by (simp_all add: distinct_keys_add)
  show "map_of_contents (add_mset (d, r) m) k = ((map_of_contents m)(d \<mapsto> r)) k"
  proof (cases "k \<in> keys_of (add_mset (d, r) m)")
    case True
    then obtain v where v: "(k, v) \<in># add_mset (d, r) m" by force
    with assms have "map_of_contents (add_mset (d, r) m) k = Some v" by (rule map_of_contents_eq)
    moreover have "k \<noteq> d \<Longrightarrow> map_of_contents m k = Some v"
      using v d(2) by (intro map_of_contents_eq) auto
    moreover have "k = d \<Longrightarrow> v = r" using v d(1) by force
    ultimately show ?thesis by auto
  next
    case False
    then show ?thesis by (auto simp: map_of_contents_def)
  qed
qed

lemma keys_removed:
  assumes "distinct_keys m" "m = add_mset (d, r) m'"
  shows "distinct_keys m'" "keys_of m' = keys_of m - {d}"
proof -
  from assms have "d \<notin> keys_of m'" "distinct_keys m'" by (simp_all add: distinct_keys_add)
  then show "distinct_keys m'" "keys_of m' = keys_of m - {d}" using assms(2) by auto
qed

lemma distinct_keys_card: "distinct_keys m \<Longrightarrow> card (keys_of m) = size m"
proof (induction m)
  case (add p m)
  then show ?case by (cases p) (simp add: distinct_keys_add)
qed simp

lemma distinct_enumeration:
  "distinct_keys (mset ps) \<Longrightarrow> distinct (map fst ps)"
  by (induction ps) (auto simp: distinct_keys_add split_paired_all)

lemma map_of_mset: "distinct_keys (mset ps) \<Longrightarrow> map_of ps = map_of_contents (mset ps)"
proof (induction ps)
  case (Cons p ps)
  obtain d r where p: "p = (d, r)" by (cases p)
  with Cons.prems have "distinct_keys (add_mset (d, r) (mset ps))" by simp
  from map_of_contents_add [OF this] Cons p show ?case by (simp add: distinct_keys_add)
qed simp

end
