(* ===== verification/Checked_Assert.thy ===== *)
theory Checked_Assert
  imports Prelude
begin

text \<open>
  \<open>assert.h\<close>: the macro \<open>DLIB_CASSERT\<close>, with which the checked classes \<open>*_kernel_c.h\<close> guard
  every operation, and the outcomes a guarded call can have.
\<close>

section \<open>Outcomes\<close>

text \<open>
  A call throws \<open>fatal_error\<close> with a code of \<open>error.h\<close>, returns, or has no defined behaviour
  (a null pointer was dereferenced), which the unchecked operations report as \<open>None\<close>.
\<close>

datatype error_type = EBROKEN_ASSERT

datatype 'a outcome = Throws error_type | Undefined | Returns 'a

definition run_unchecked :: "'a option \<Rightarrow> 'a outcome" where
  "run_unchecked m = (case m of None \<Rightarrow> Undefined | Some x \<Rightarrow> Returns x)"

definition dlib_cassert :: "bool \<Rightarrow> 'a outcome \<Rightarrow> 'a outcome" where
  "dlib_cassert e rest = (if \<not> e then Throws EBROKEN_ASSERT else rest)"

definition defined :: "'a outcome \<Rightarrow> bool" where
  "defined r \<longleftrightarrow> r \<noteq> Undefined"

lemma defined_simps [simp]:
  "defined (Throws e)" "defined (Returns x)" "\<not> defined Undefined"
  by (simp_all add: defined_def)

lemma defined_cassert [simp]: "defined (dlib_cassert e m) \<longleftrightarrow> (e \<longrightarrow> defined m)"
  by (simp add: dlib_cassert_def)

lemma defined_unchecked [simp]: "defined (run_unchecked m) \<longleftrightarrow> m \<noteq> None"
  by (simp add: run_unchecked_def split: option.splits)

lemma dlib_cassert_Throws [simp]:
  "dlib_cassert e (run_unchecked m) = Throws x \<longleftrightarrow> \<not> e \<and> x = EBROKEN_ASSERT"
  by (cases x) (auto simp: dlib_cassert_def run_unchecked_def split: option.splits)

lemma dlib_cassert_Returns [simp]:
  "dlib_cassert e (run_unchecked m) = Returns x \<longleftrightarrow> e \<and> m = Some x"
  by (auto simp: dlib_cassert_def run_unchecked_def split: option.splits)

end
