(* ===== verification/Hash_Table_Kernel_1.thy ===== *)
theory Hash_Table_Kernel_1
  imports Pair_Container Checked_Assert
begin

unbundle bit_operations_syntax

text \<open>
  \<open>hash_table/hash_table_kernel_1.h\<close>: a table of buckets, each a linked list of pairs, and
  \<open>hash_table_kernel_c.h\<close>, its checked version. A pointer into a linked list is modelled as the
  list from the node it points to, the null pointer as the empty list; every operation that
  changes a list resets the enumerator, so no pointer into an old list survives. The hash
  function \<open>general_hash<domain>\<close> is the parameter \<open>hash\<close>.
\<close>

section \<open>Data members and constructor\<close>

record ('d, 'r) hash_table =
  hash_size :: nat
  table :: "('d \<times> 'r) list list"
  num_of_buckets :: "64 word"
  ht_mask :: "64 word"
  current_bucket :: nat
  current_node :: "('d \<times> 'r) list"
  ht_at_start :: bool

fun buckets_for :: "nat \<Rightarrow> 64 word \<Rightarrow> 64 word" where
  "buckets_for 0 n = n"
| "buckets_for (Suc expnum) n = buckets_for expnum (push_bit 1 n)"

definition hash_table_kernel_1 :: "nat \<Rightarrow> ('d, 'r) hash_table" where
  "hash_table_kernel_1 expnum =
     (let n = buckets_for expnum 1
      in \<lparr>hash_size = 0, table = replicate (unat n) [], num_of_buckets = n, ht_mask = n - 1,
          current_bucket = 0, current_node = [], ht_at_start = True\<rparr>)"

section \<open>Operations\<close>

definition ht_reset :: "('d, 'r) hash_table \<Rightarrow> ('d, 'r) hash_table" where
  "ht_reset s = s\<lparr>ht_at_start := True, current_node := []\<rparr>"

definition ht_clear :: "('d, 'r) hash_table \<Rightarrow> ('d, 'r) hash_table option" where
  "ht_clear s = Some (ht_reset
     (if hash_size s > 0
      then s\<lparr>table := replicate (unat (num_of_buckets s)) [], hash_size := 0\<rparr>
      else s))"

definition hash_value :: "('d \<Rightarrow> 64 word) \<Rightarrow> ('d, 'r) hash_table \<Rightarrow> 'd \<Rightarrow> nat" where
  "hash_value hash s d = unat (hash d AND ht_mask s)"

definition bucket :: "('d \<Rightarrow> 64 word) \<Rightarrow> ('d, 'r) hash_table \<Rightarrow> 'd \<Rightarrow> ('d \<times> 'r) list" where
  "bucket hash s d = table s ! hash_value hash s d"

definition equivalent :: "'d::linorder \<Rightarrow> 'd \<Rightarrow> bool" where
  "equivalent x d \<longleftrightarrow> \<not> (x < d \<or> d < x)"

fun count_loop :: "'d::linorder \<Rightarrow> ('d \<times> 'r) list \<Rightarrow> nat \<Rightarrow> nat" where
  "count_loop d [] items_found = items_found"
| "count_loop d (temp # next) items_found =
     count_loop d next (if equivalent (fst temp) d then Suc items_found else items_found)"

definition ht_count :: "('d::linorder \<Rightarrow> 64 word) \<Rightarrow> ('d, 'r) hash_table \<Rightarrow> 'd \<Rightarrow> nat" where
  "ht_count hash s d = count_loop d (bucket hash s d) 0"

definition ht_add ::
  "('d::linorder \<Rightarrow> 64 word) \<Rightarrow> ('d, 'r) hash_table \<Rightarrow> 'd \<Rightarrow> 'r \<Rightarrow> ('d, 'r) hash_table option" where
  "ht_add hash s d r =
     (let v = hash_value hash s d
      in Some (ht_reset (s\<lparr>table := (table s)[v := (d, r) # (table s ! v)],
                           hash_size := hash_size s + 1\<rparr>)))"

text \<open>
  The search of \<open>destroy\<close> and \<open>remove\<close>: it starts at the second node of the bucket, and falls
  back to the first node when no other one has the key.
\<close>

fun unlink_after :: "'d::linorder \<Rightarrow> ('d \<times> 'r) list \<Rightarrow> (('d \<times> 'r) \<times> ('d \<times> 'r) list) option" where
  "unlink_after d [] = None"
| "unlink_after d (temp # next) =
     (if equivalent (fst temp) d then Some (temp, next)
      else case unlink_after d next of None \<Rightarrow> None | Some (p, next') \<Rightarrow> Some (p, temp # next'))"

definition unlink :: "'d::linorder \<Rightarrow> ('d \<times> 'r) list \<Rightarrow> (('d \<times> 'r) \<times> ('d \<times> 'r) list) option" where
  "unlink d b = (case b of
       [] \<Rightarrow> None
     | temp # next \<Rightarrow>
         (if next \<noteq> [] then
            (case unlink_after d next of
               None \<Rightarrow> Some (temp, next)
             | Some (p, next') \<Rightarrow> Some (p, temp # next'))
          else Some (temp, [])))"

definition ht_remove ::
  "('d::linorder \<Rightarrow> 64 word) \<Rightarrow> ('d, 'r) hash_table \<Rightarrow> 'd \<Rightarrow> (('d, 'r) hash_table \<times> 'd \<times> 'r) option" where
  "ht_remove hash s d = do {
     let v = hash_value hash s d;
     (p, rest) \<leftarrow> unlink d (table s ! v);
     Some (ht_reset (s\<lparr>table := (table s)[v := rest], hash_size := hash_size s - 1\<rparr>), p) }"

definition ht_destroy ::
  "('d::linorder \<Rightarrow> 64 word) \<Rightarrow> ('d, 'r) hash_table \<Rightarrow> 'd \<Rightarrow> ('d, 'r) hash_table option" where
  "ht_destroy hash s d = do {
     let v = hash_value hash s d;
     (p, rest) \<leftarrow> unlink d (table s ! v);
     Some (ht_reset (s\<lparr>table := (table s)[v := rest], hash_size := hash_size s - 1\<rparr>)) }"

text \<open>The search for a bucket that is not empty; reading past the array is \<open>None\<close>.\<close>

function first_bucket :: "'b list list \<Rightarrow> nat \<Rightarrow> nat option" where
  "first_bucket t i = (if i < length t then (if t ! i = [] then first_bucket t (Suc i) else Some i) else None)"
  by pat_completeness auto
termination
  by (relation "measure (\<lambda>(t, i). length t - i)") auto

declare first_bucket.simps [simp del]

definition ht_remove_any :: "('d, 'r) hash_table \<Rightarrow> (('d, 'r) hash_table \<times> 'd \<times> 'r) option" where
  "ht_remove_any s = do {
     i \<leftarrow> first_bucket (table s) 0;
     let p = hd (table s ! i);
     Some (ht_reset (s\<lparr>table := (table s)[i := tl (table s ! i)], hash_size := hash_size s - 1\<rparr>), p) }"

fun find_in :: "'d::linorder \<Rightarrow> ('d \<times> 'r) list \<Rightarrow> 'r option" where
  "find_in d [] = None"
| "find_in d (temp # next) = (if equivalent (fst temp) d then Some (snd temp) else find_in d next)"

definition ht_index :: "('d::linorder \<Rightarrow> 64 word) \<Rightarrow> ('d, 'r) hash_table \<Rightarrow> 'd \<Rightarrow> 'r option" where
  "ht_index hash s d = find_in d (bucket hash s d)"

definition ht_swap :: "('d, 'r) hash_table \<Rightarrow> ('d, 'r) hash_table \<Rightarrow> ('d, 'r) hash_table \<times> ('d, 'r) hash_table" where
  "ht_swap s item = (item, s)"

section \<open>The enumerator\<close>

definition ht_current_element_valid :: "('d, 'r) hash_table \<Rightarrow> bool" where
  "ht_current_element_valid s \<longleftrightarrow> current_node s \<noteq> []"

definition ht_element :: "('d, 'r) hash_table \<Rightarrow> ('d \<times> 'r) option" where
  "ht_element s = (case current_node s of [] \<Rightarrow> None | p # next \<Rightarrow> Some p)"

definition ht_move_next :: "('d, 'r) hash_table \<Rightarrow> (('d, 'r) hash_table \<times> bool) option" where
  "ht_move_next s =
     (if ht_at_start s then
        (let s = s\<lparr>ht_at_start := False\<rparr>
         in if hash_size s = 0 then Some (s, False)
            else do {
              i \<leftarrow> first_bucket (table s) 0;
              Some (s\<lparr>current_bucket := i, current_node := table s ! i\<rparr>, True) })
      else case current_node s of
        [] \<Rightarrow> Some (s, False)
      | p # next \<Rightarrow>
          (if next \<noteq> [] then Some (s\<lparr>current_node := next\<rparr>, True)
           else case first_bucket (take (unat (num_of_buckets s)) (table s)) (current_bucket s + 1) of
             None \<Rightarrow> Some (s\<lparr>current_bucket := max (current_bucket s + 1) (unat (num_of_buckets s)),
                              current_node := []\<rparr>, False)
           | Some i \<Rightarrow> Some (s\<lparr>current_bucket := i, current_node := table s ! i\<rparr>, True)))"

definition hash_table_ops ::
  "('d::linorder \<Rightarrow> 64 word) \<Rightarrow> (('d, 'r) hash_table, 'd, 'r) container_ops" where
  "hash_table_ops hash = \<lparr>c_clear = ht_clear, c_count = ht_count hash, c_add = ht_add hash,
     c_remove = ht_remove hash, c_destroy = ht_destroy hash, c_remove_any = ht_remove_any,
     c_index = ht_index hash, c_size = hash_size, c_at_start = ht_at_start, c_reset = ht_reset,
     c_current_element_valid = ht_current_element_valid, c_element = ht_element,
     c_move_next = ht_move_next\<rparr>"

lemma hash_table_ops_simps [simp]:
  "c_clear (hash_table_ops hash) = ht_clear" "c_count (hash_table_ops hash) = ht_count hash"
  "c_add (hash_table_ops hash) = ht_add hash" "c_remove (hash_table_ops hash) = ht_remove hash"
  "c_destroy (hash_table_ops hash) = ht_destroy hash"
  "c_remove_any (hash_table_ops hash) = ht_remove_any"
  "c_index (hash_table_ops hash) = ht_index hash" "c_size (hash_table_ops hash) = hash_size"
  "c_at_start (hash_table_ops hash) = ht_at_start" "c_reset (hash_table_ops hash) = ht_reset"
  "c_current_element_valid (hash_table_ops hash) = ht_current_element_valid"
  "c_element (hash_table_ops hash) = ht_element" "c_move_next (hash_table_ops hash) = ht_move_next"
  by (simp_all add: hash_table_ops_def)

section \<open>The convention of the class\<close>

text \<open>
  Every pair is in the bucket its key hashes to. The enumerator points into the bucket
  \<open>current_bucket\<close>.
\<close>

definition ht_inv :: "('d \<Rightarrow> 64 word) \<Rightarrow> ('d, 'r) hash_table \<Rightarrow> bool" where
  "ht_inv hash s \<longleftrightarrow>
     (\<exists>e < 32. num_of_buckets s = 2 ^ e \<and> ht_mask s = num_of_buckets s - 1) \<and>
     length (table s) = unat (num_of_buckets s) \<and>
     hash_size s = length (concat (table s)) \<and>
     (\<forall>i < length (table s). \<forall>p \<in> set (table s ! i). hash_value hash s (fst p) = i) \<and>
     (current_node s \<noteq> [] \<longrightarrow> \<not> ht_at_start s \<and> current_bucket s < length (table s) \<and>
        (\<exists>before. table s ! current_bucket s = before @ current_node s))"

definition ht_contents :: "('d, 'r) hash_table \<Rightarrow> ('d \<times> 'r) multiset" where
  "ht_contents s = mset (concat (table s))"

lemma unat_two_power: "e < 64 \<Longrightarrow> unat (2 ^ e :: 64 word) = 2 ^ e"
proof -
  assume "e < 64"
  then have "(2 :: nat) ^ e < 2 ^ 64" by (intro power_strict_increasing) simp_all
  then have "unat (of_nat (2 ^ e) :: 64 word) = 2 ^ e" by (simp add: unat_of_nat del: of_nat_power)
  then show ?thesis by simp
qed

lemma hash_value_less:
  assumes "ht_inv hash s"
  shows "hash_value hash s d < length (table s)"
proof -
  from assms have "\<exists>e < 32. num_of_buckets s = 2 ^ e \<and> ht_mask s = num_of_buckets s - 1"
    and len: "length (table s) = unat (num_of_buckets s)" by (simp_all add: ht_inv_def)
  then obtain e where "e < 32" "num_of_buckets s = 2 ^ e" "ht_mask s = num_of_buckets s - 1" by blast
  with len have e: "e < 32" "num_of_buckets s = 2 ^ e" "ht_mask s = 2 ^ e - 1"
    "length (table s) = unat (num_of_buckets s)" by simp_all
  have "hash d AND (2 ^ e - 1) = take_bit e (hash d)"
    by (simp add: take_bit_eq_mask mask_eq_exp_minus_1)
  then have "unat (hash d AND (2 ^ e - 1)) < 2 ^ e"
    by (simp add: unsigned_take_bit_eq)
  moreover have "unat (2 ^ e :: 64 word) = 2 ^ e" using e(1) by (intro unat_two_power) simp
  ultimately show ?thesis using e by (simp add: hash_value_def)
qed

lemma buckets_for: "buckets_for e n = push_bit e n"
  by (induction e n rule: buckets_for.induct) (simp_all add: push_bit_push_bit)

lemma ht_inv_init:
  assumes "expnum < 32"
  shows "ht_inv hash (hash_table_kernel_1 expnum)" "ht_contents (hash_table_kernel_1 expnum) = {#}"
proof -
  have "buckets_for expnum 1 = (2 ^ expnum :: 64 word)" by (simp add: buckets_for push_bit_of_1)
  with assms show "ht_inv hash (hash_table_kernel_1 expnum)"
    by (auto simp: ht_inv_def hash_table_kernel_1_def Let_def)
  show "ht_contents (hash_table_kernel_1 expnum) = {#}"
    by (simp add: ht_contents_def hash_table_kernel_1_def Let_def)
qed

section \<open>Changing one bucket\<close>

lemma mset_concat_update:
  "i < length t \<Longrightarrow> mset (t ! i) + mset (concat (t[i := b])) = mset b + mset (concat t)"
proof (induction t arbitrary: i)
  case (Cons x t)
  then show ?case
    by (cases i) (auto simp: ac_simps simp del: mset_concat)
qed simp

lemma bucket_changed:
  assumes "ht_inv hash s" "v < length (table s)" "\<forall>p \<in> set b. hash_value hash s (fst p) = v"
    and "n + length (table s ! v) = hash_size s + length b"
  shows "ht_inv hash (ht_reset (s\<lparr>table := (table s)[v := b], hash_size := n\<rparr>))"
proof -
  have "length (table s ! v) + length (concat ((table s)[v := b])) = length b + length (concat (table s))"
    using arg_cong [OF mset_concat_update [OF assms(2), of b], of size] by (simp del: mset_concat)
  with assms(4) assms(1) have "n = length (concat ((table s)[v := b]))"
    unfolding ht_inv_def by linarith
  with assms show ?thesis
    by (auto simp: ht_inv_def ht_reset_def hash_value_def nth_list_update)
qed

lemma equivalent_iff [simp]: "equivalent x d \<longleftrightarrow> x = d"
  by (auto simp: equivalent_def)

lemma unlink_after_Some:
  "unlink_after d b = Some (p, b') \<Longrightarrow> fst p = d \<and> mset b = add_mset p (mset b')"
  by (induction b arbitrary: p b') (auto split: if_splits option.splits)

lemma unlink_after_None: "unlink_after d b = None \<longleftrightarrow> d \<notin> fst ` set b"
  by (induction b) (auto split: option.splits)

lemma unlink_ok:
  assumes "d \<in> fst ` set b"
  shows "\<exists>r b'. unlink d b = Some ((d, r), b') \<and> mset b = add_mset (d, r) (mset b')"
proof (cases b)
  case (Cons q nxt)
  show ?thesis
  proof (cases "unlink_after d nxt")
    case None
    then have "d \<notin> fst ` set nxt" by (simp add: unlink_after_None)
    with None Cons assms show ?thesis by (cases q) (auto simp: unlink_def)
  next
    case (Some pb)
    then obtain p b' where pb: "pb = (p, b')" by (cases pb)
    from unlink_after_Some [OF Some [unfolded pb]] Some pb Cons show ?thesis
      by (cases p; cases "nxt = []") (auto simp: unlink_def)
  qed
qed (use assms in simp)

lemma find_in_None: "find_in d b = None \<longleftrightarrow> d \<notin> fst ` set b"
  by (induction b) auto

lemma find_in_Some: "find_in d b = Some r \<Longrightarrow> (d, r) \<in> set b"
  by (induction b) (auto split: if_splits)

lemma count_loop_eq: "count_loop d b n = n + count (image_mset fst (mset b)) d"
  by (induction d b n rule: count_loop.induct) auto

lemma first_bucket_Some:
  "first_bucket t i = Some j \<Longrightarrow> i \<le> j \<and> j < length t \<and> t ! j \<noteq> [] \<and> concat (take (j - i) (drop i t)) = []"
proof (induction t i rule: first_bucket.induct)
  case (1 t i)
  show ?case
  proof (cases "i < length t \<and> t ! i = []")
    case True
    with 1 have IH: "Suc i \<le> j" "j < length t" "t ! j \<noteq> []"
      "concat (take (j - Suc i) (drop (Suc i) t)) = []"
      by (simp_all add: first_bucket.simps [of t i])
    moreover have "drop i t = [] # drop (Suc i) t" using True by (metis Cons_nth_drop_Suc)
    moreover have "j - i = Suc (j - Suc i)" using IH(1) by simp
    ultimately show ?thesis by simp
  next
    case False
    with "1.prems" show ?thesis by (auto simp: first_bucket.simps [of t i] split: if_splits)
  qed
qed

lemma first_bucket_None: "first_bucket t i = None \<longleftrightarrow> concat (drop i t) = []"
proof (induction t i rule: first_bucket.induct)
  case (1 t i)
  show ?case
  proof (cases "i < length t")
    case True
    then have "drop i t = t ! i # drop (Suc i) t" by (simp add: Cons_nth_drop_Suc)
    with 1 True show ?thesis by (simp add: first_bucket.simps [of t i])
  qed (simp add: first_bucket.simps)
qed

lemma first_bucket_drop:
  assumes "first_bucket t i = Some j"
  shows "concat (drop i t) = t ! j @ concat (drop (Suc j) t)"
proof -
  from first_bucket_Some [OF assms] have j: "i \<le> j" "j < length t"
    "concat (take (j - i) (drop i t)) = []" by auto
  have "drop i t = take (j - i) (drop i t) @ drop j t"
    using j(1) by (metis append_take_drop_id drop_drop le_add_diff_inverse2)
  then have "concat (drop i t) = concat (take (j - i) (drop i t)) @ concat (drop j t)"
    by (metis concat_append)
  moreover have "drop j t = t ! j # drop (Suc j) t" using j(2) by (simp add: Cons_nth_drop_Suc)
  ultimately show ?thesis using j(3) by simp
qed

section \<open>The operations\<close>

lemma contents_bucket:
  assumes "ht_inv hash s"
  shows "d \<in> keys_of (ht_contents s) \<longleftrightarrow> d \<in> fst ` set (bucket hash s d)"
    and "count (image_mset fst (ht_contents s)) d = count (image_mset fst (mset (bucket hash s d))) d"
    and "set (bucket hash s d) \<subseteq> set_mset (ht_contents s)"
proof -
  note less = hash_value_less [OF assms, of d]
  from less show sub: "set (bucket hash s d) \<subseteq> set_mset (ht_contents s)"
    using nth_mem by (fastforce simp: bucket_def ht_contents_def simp del: mset_concat)
  show in_bucket: "d \<in> keys_of (ht_contents s) \<longleftrightarrow> d \<in> fst ` set (bucket hash s d)"
  proof
    assume "d \<in> keys_of (ht_contents s)"
    then obtain r b where "b \<in> set (table s)" "(d, r) \<in> set b"
      by (auto simp: ht_contents_def simp del: mset_concat)
    then obtain i where "i < length (table s)" "(d, r) \<in> set (table s ! i)"
      by (metis in_set_conv_nth)
    moreover from this assms have "hash_value hash s d = i" by (fastforce simp: ht_inv_def)
    ultimately show "d \<in> fst ` set (bucket hash s d)" by (force simp: bucket_def)
  qed (use sub in auto)
  have "mset (concat (table s)) =
      mset (bucket hash s d) + mset (concat ((table s)[hash_value hash s d := []]))"
    using mset_concat_update [OF less, of "[]"] by (simp add: bucket_def del: mset_concat)
  moreover have "d \<notin> fst ` set (concat ((table s)[hash_value hash s d := []]))"
  proof
    assume "d \<in> fst ` set (concat ((table s)[hash_value hash s d := []]))"
    then obtain r b where b: "b \<in> set ((table s)[hash_value hash s d := []])" "(d, r) \<in> set b" by auto
    then obtain i where "i < length (table s)" "(table s)[hash_value hash s d := []] ! i = b"
      by (metis in_set_conv_nth length_list_update)
    with b(2) have "i < length (table s)" "i \<noteq> hash_value hash s d" "(d, r) \<in> set (table s ! i)"
      by (cases "i = hash_value hash s d"; auto)+
    with assms show False by (fastforce simp: ht_inv_def)
  qed
  then have "count (image_mset fst (mset (concat ((table s)[hash_value hash s d := []])))) d = 0"
    unfolding count_eq_zero_iff by (simp del: mset_concat)
  ultimately show "count (image_mset fst (ht_contents s)) d = count (image_mset fst (mset (bucket hash s d))) d"
    by (simp add: ht_contents_def del: mset_concat)
qed

lemma ht_contents_reset [simp]: "ht_contents (ht_reset s) = ht_contents s"
  by (simp add: ht_contents_def ht_reset_def)

lemma ht_add_ok:
  assumes "ht_inv hash s"
  shows "\<exists>s'. ht_add hash s d r = Some s' \<and> ht_inv hash s' \<and>
    ht_contents s' = add_mset (d, r) (ht_contents s)"
proof -
  let ?v = "hash_value hash s d"
  note less = hash_value_less [OF assms, of d]
  have "ht_inv hash (ht_reset (s\<lparr>table := (table s)[?v := (d, r) # (table s ! ?v)],
      hash_size := hash_size s + 1\<rparr>))"
    using assms less by (intro bucket_changed) (auto simp: ht_inv_def)
  moreover have "mset (concat ((table s)[?v := (d, r) # (table s ! ?v)]))
      = add_mset (d, r) (mset (concat (table s)))"
    using mset_concat_update [OF less, of "(d, r) # (table s ! ?v)"] by (simp del: mset_concat)
  ultimately show ?thesis
    by (simp add: ht_add_def Let_def ht_contents_def ht_reset_def del: mset_concat)
qed

lemma unlinked:
  assumes "ht_inv hash s" "v < length (table s)" "mset (table s ! v) = add_mset p (mset rest)"
  shows "ht_inv hash (ht_reset (s\<lparr>table := (table s)[v := rest], hash_size := hash_size s - 1\<rparr>))"
    "ht_contents s = add_mset p
       (ht_contents (ht_reset (s\<lparr>table := (table s)[v := rest], hash_size := hash_size s - 1\<rparr>)))"
proof -
  have len: "length (table s ! v) = Suc (length rest)"
    using arg_cong [OF assms(3), of size] by simp
  have sub: "set rest \<subseteq> set (table s ! v)"
    using arg_cong [OF assms(3), of set_mset] by auto
  have eq: "mset (concat (table s)) = add_mset p (mset (concat ((table s)[v := rest])))"
    using mset_concat_update [OF assms(2), of rest] assms(3) by (simp del: mset_concat)
  then have "length (concat (table s)) = Suc (length (concat ((table s)[v := rest])))"
    using arg_cong [OF eq, of size] unfolding size_mset size_add_mset by simp
  then have "0 < hash_size s" using assms(1) unfolding ht_inv_def by linarith
  moreover have "\<forall>q \<in> set rest. hash_value hash s (fst q) = v"
    using assms(1,2) sub unfolding ht_inv_def by blast
  ultimately show "ht_inv hash (ht_reset (s\<lparr>table := (table s)[v := rest], hash_size := hash_size s - 1\<rparr>))"
    using assms(1,2) len by (intro bucket_changed) auto
  from eq show "ht_contents s = add_mset p
       (ht_contents (ht_reset (s\<lparr>table := (table s)[v := rest], hash_size := hash_size s - 1\<rparr>)))"
    by (simp add: ht_contents_def ht_reset_def del: mset_concat)
qed

lemma ht_remove_ok:
  assumes "ht_inv hash s" "d \<in> keys_of (ht_contents s)"
  shows "\<exists>s' r. ht_remove hash s d = Some (s', d, r) \<and> ht_inv hash s' \<and>
    ht_contents s = add_mset (d, r) (ht_contents s')"
proof -
  from assms have "d \<in> fst ` set (table s ! hash_value hash s d)"
    by (simp add: contents_bucket bucket_def)
  from unlink_ok [OF this] obtain r rest where
    "unlink d (table s ! hash_value hash s d) = Some ((d, r), rest)"
    "mset (table s ! hash_value hash s d) = add_mset (d, r) (mset rest)" by blast
  with unlinked [OF assms(1) hash_value_less [OF assms(1)] this(2)] show ?thesis
    by (simp add: ht_remove_def)
qed

lemma ht_destroy_eq: "ht_destroy hash s d = map_option fst (ht_remove hash s d)"
  by (auto simp: ht_destroy_def ht_remove_def Let_def split: bind_splits)

lemma ht_remove_any_ok:
  assumes "ht_inv hash s" "ht_contents s \<noteq> {#}"
  shows "\<exists>s' d r. ht_remove_any s = Some (s', d, r) \<and> ht_inv hash s' \<and>
    ht_contents s = add_mset (d, r) (ht_contents s')"
proof -
  from assms(2) have "first_bucket (table s) 0 \<noteq> None"
    by (simp add: first_bucket_None ht_contents_def)
  then obtain i where i: "first_bucket (table s) 0 = Some i" by blast
  from first_bucket_Some [OF this] obtain d r rest where
    b: "i < length (table s)" "table s ! i = (d, r) # rest" by (metis list.exhaust surj_pair)
  with unlinked [OF assms(1) b(1), of "(d, r)" rest] i show ?thesis
    by (simp add: ht_remove_any_def)
qed

section \<open>Enumeration\<close>

text \<open>What the enumerator has still to deliver.\<close>

definition ht_to_visit :: "('d, 'r) hash_table \<Rightarrow> ('d \<times> 'r) list" where
  "ht_to_visit s =
     (if ht_at_start s then concat (table s)
      else case current_node s of [] \<Rightarrow> []
        | p # nxt \<Rightarrow> nxt @ concat (drop (Suc (current_bucket s)) (table s)))"

lemma ht_move_next_ok:
  assumes "ht_inv hash s"
  shows "\<exists>s'. ht_move_next s = Some (s', ht_to_visit s \<noteq> []) \<and> ht_inv hash s' \<and>
    table s' = table s \<and> (ht_to_visit s \<noteq> [] \<longleftrightarrow> current_node s' \<noteq> []) \<and> \<not> ht_at_start s' \<and>
    (ht_to_visit s \<noteq> [] \<longrightarrow> ht_element s' = Some (hd (ht_to_visit s)) \<and> ht_to_visit s' = tl (ht_to_visit s))"
proof -
  have at: "ht_inv hash (s\<lparr>ht_at_start := False, current_bucket := i, current_node := table s ! i\<rparr>)"
    if "i < length (table s)" for i
    using that assms by (auto simp: ht_inv_def hash_value_def)
  have past: "ht_inv hash (s\<lparr>current_bucket := i, current_node := []\<rparr>)" for i
    using assms by (auto simp: ht_inv_def hash_value_def)
  have at': "ht_inv hash (s\<lparr>current_bucket := i, current_node := table s ! i\<rparr>)"
    if "i < length (table s)" "\<not> ht_at_start s" for i
    using that assms by (auto simp: ht_inv_def hash_value_def)
  consider "ht_at_start s" | "\<not> ht_at_start s" "current_node s = []"
    | p nxt where "\<not> ht_at_start s" "current_node s = p # nxt" by (cases "current_node s") auto
  then show ?thesis
  proof cases
    case 1
    with assms have cur: "current_node s = []" by (auto simp: ht_inv_def)
    show ?thesis
    proof (cases "first_bucket (table s) 0")
      case None
      then have "concat (table s) = []" unfolding first_bucket_None by simp
      moreover from this assms have "hash_size s = 0" by (simp add: ht_inv_def del: concat_eq_Nil_conv)
      moreover have "ht_inv hash (s\<lparr>ht_at_start := False\<rparr>)"
        using assms cur by (auto simp: ht_inv_def hash_value_def)
      ultimately show ?thesis using 1 cur
        by (auto simp: ht_move_next_def ht_to_visit_def)
    next
      case (Some i)
      from first_bucket_drop [OF this] have cc: "concat (table s) = table s ! i @ concat (drop (Suc i) (table s))"
        by simp
      from first_bucket_Some [OF Some] obtain p nxt where p: "i < length (table s)" "table s ! i = p # nxt"
        by (metis list.exhaust)
      with cc assms have "hash_size s \<noteq> 0" by (simp add: ht_inv_def)
      with 1 Some p cc at [OF p(1)] show ?thesis
        by (simp add: ht_move_next_def ht_to_visit_def ht_element_def)
    qed
  next
    case 2
    with assms show ?thesis by (auto simp: ht_move_next_def ht_to_visit_def)
  next
    case 3
    with assms obtain before where b: "current_bucket s < length (table s)"
      "table s ! current_bucket s = before @ p # nxt" "length (table s) = unat (num_of_buckets s)"
      by (auto simp: ht_inv_def)
    show ?thesis
    proof (cases nxt)
      case (Cons q qs)
      with b have "table s ! current_bucket s = (before @ [p]) @ nxt" by simp
      with b(1) assms 3 have "ht_inv hash (s\<lparr>current_node := nxt\<rparr>)"
        unfolding ht_inv_def hash_value_def by auto
      with 3 Cons show ?thesis
        by (auto simp: ht_move_next_def ht_to_visit_def ht_element_def)
    next
      case Nil
      let ?i = "first_bucket (table s) (current_bucket s + 1)"
      have tk: "take (unat (num_of_buckets s)) (table s) = table s" using b(3) by simp
      show ?thesis
      proof (cases ?i)
        case None
        then have "concat (drop (Suc (current_bucket s)) (table s)) = []"
          unfolding first_bucket_None by simp
        with 3 None Nil past tk show ?thesis
          by (simp add: ht_move_next_def ht_to_visit_def del: concat_eq_Nil_conv)
      next
        case (Some i)
        from first_bucket_drop [OF this]
        have cc: "concat (drop (Suc (current_bucket s)) (table s)) = table s ! i @ concat (drop (Suc i) (table s))"
          by simp
        from first_bucket_Some [OF Some] obtain q qs where q: "i < length (table s)" "table s ! i = q # qs"
          by (metis list.exhaust)
        with 3 Some Nil cc tk at' [OF q(1)] show ?thesis
          by (simp add: ht_move_next_def ht_to_visit_def ht_element_def)
      qed
    qed
  qed
qed

abbreviation ht_enumerate ::
  "nat \<Rightarrow> ('d, 'r) hash_table \<Rightarrow> (('d \<times> 'r) list \<times> ('d, 'r) hash_table) option" where
  "ht_enumerate \<equiv> enumerate_loop ht_move_next ht_element"

lemma ht_enumerate_ok:
  "ht_inv hash s \<Longrightarrow> length (ht_to_visit s) < n \<Longrightarrow>
     \<exists>s'. ht_enumerate n s = Some (ht_to_visit s, s') \<and> ht_inv hash s' \<and> table s' = table s \<and>
       current_node s' = []"
proof (induction n arbitrary: s)
  case (Suc n)
  from ht_move_next_ok [OF Suc.prems(1)] obtain s1 where s1:
    "ht_move_next s = Some (s1, ht_to_visit s \<noteq> [])" "ht_inv hash s1" "table s1 = table s"
    "ht_to_visit s \<noteq> [] \<longleftrightarrow> current_node s1 \<noteq> []"
    "ht_to_visit s \<noteq> [] \<longrightarrow> ht_element s1 = Some (hd (ht_to_visit s)) \<and> ht_to_visit s1 = tl (ht_to_visit s)"
    by blast
  show ?case
  proof (cases "ht_to_visit s")
    case Nil
    with s1 show ?thesis by auto
  next
    case (Cons p ps)
    with s1 Suc.prems(2) have "length (ht_to_visit s1) < n" by simp
    from Suc.IH [OF s1(2) this] s1 Cons show ?thesis by auto
  qed
qed simp

lemma ht_inv_reset [simp]: "ht_inv hash s \<Longrightarrow> ht_inv hash (ht_reset s)"
  by (auto simp: ht_inv_def ht_reset_def hash_value_def)

lemma ht_enumerate_all:
  assumes "ht_inv hash s"
  shows "\<exists>s'. ht_enumerate (Suc (size (ht_contents s))) (ht_reset s) = Some (concat (table s), s') \<and>
    ht_inv hash s' \<and> ht_contents s' = ht_contents s \<and> current_node s' = []"
proof -
  have v: "ht_to_visit (ht_reset s) = concat (table s)" "table (ht_reset s) = table s"
    by (simp_all add: ht_to_visit_def ht_reset_def)
  then have "length (ht_to_visit (ht_reset s)) < Suc (size (ht_contents s))"
    by (simp add: ht_contents_def del: mset_concat)
  from ht_enumerate_ok [OF ht_inv_reset [OF assms] this] v show ?thesis
    by (simp add: ht_contents_def del: mset_concat enumerate_loop.simps) metis
qed

section \<open>The interface\<close>

interpretation ht: pair_container "hash_table_ops hash" "ht_inv hash" ht_contents "\<lambda>s. True"
  for hash :: "'d::linorder \<Rightarrow> 64 word"
proof
  fix s s' :: "('d::linorder, 'r) hash_table" and d r
  assume inv: "ht_inv hash s"
  show "\<exists>s'. c_clear (hash_table_ops hash) s = Some s' \<and> ht_inv hash s' \<and> ht_contents s' = {#}"
  proof (cases "hash_size s > 0")
    case True
    with inv show ?thesis
      by (auto simp: ht_clear_def ht_inv_def ht_reset_def ht_contents_def hash_value_def)
  next
    case False
    with inv have "concat (table s) = []" unfolding ht_inv_def by (metis gr0I length_0_conv)
    with ht_inv_reset [OF inv] False show ?thesis by (simp add: ht_clear_def ht_contents_def ht_reset_def)
  qed
  show "c_count (hash_table_ops hash) s d = count (image_mset fst (ht_contents s)) d"
    using contents_bucket(2) [OF inv, of d] by (simp add: ht_count_def count_loop_eq)
  show "\<exists>s'. c_add (hash_table_ops hash) s d r = Some s' \<and> ht_inv hash s' \<and>
      ht_contents s' = add_mset (d, r) (ht_contents s)"
    using ht_add_ok [OF inv, of d r] by simp
  show "\<exists>s' r. c_remove (hash_table_ops hash) s d = Some (s', d, r) \<and> ht_inv hash s' \<and>
      ht_contents s = add_mset (d, r) (ht_contents s')" if "d \<in> keys_of (ht_contents s)"
    using ht_remove_ok [OF inv that] by simp
  show "\<exists>s' r. c_destroy (hash_table_ops hash) s d = Some s' \<and> ht_inv hash s' \<and>
      ht_contents s = add_mset (d, r) (ht_contents s')" if "d \<in> keys_of (ht_contents s)"
    using ht_remove_ok [OF inv that] by (auto simp: ht_destroy_eq)
  show "\<exists>s' d r. c_remove_any (hash_table_ops hash) s = Some (s', d, r) \<and> ht_inv hash s' \<and>
      ht_contents s = add_mset (d, r) (ht_contents s')" if "ht_contents s \<noteq> {#}"
    using ht_remove_any_ok [OF inv that] by simp
  show "c_index (hash_table_ops hash) s d = None \<longleftrightarrow> d \<notin> keys_of (ht_contents s)"
    using contents_bucket(1) [OF inv, of d] by (simp add: ht_index_def find_in_None)
  show "(d, r) \<in># ht_contents s" if "c_index (hash_table_ops hash) s d = Some r"
    using that find_in_Some contents_bucket(3) [OF inv, of d] by (fastforce simp: ht_index_def)
  show "c_size (hash_table_ops hash) s = size (ht_contents s)"
    using inv by (simp add: ht_inv_def ht_contents_def del: mset_concat)
  show "\<exists>ps s'. enumerate_loop (c_move_next (hash_table_ops hash)) (c_element (hash_table_ops hash))
        (Suc (size (ht_contents s))) (c_reset (hash_table_ops hash) s) = Some (ps, s') \<and>
      ht_inv hash s' \<and> ht_contents s' = ht_contents s \<and> mset ps = ht_contents s \<and>
      \<not> c_current_element_valid (hash_table_ops hash) s'"
    using ht_enumerate_all [OF inv]
    by (auto simp: ht_current_element_valid_def ht_contents_def simp del: enumerate_loop.simps mset_concat)
  show "ht_inv hash (c_reset (hash_table_ops hash) s) \<and>
      ht_contents (c_reset (hash_table_ops hash) s) = ht_contents s"
    using inv by simp
  show "\<exists>s' more. c_move_next (hash_table_ops hash) s = Some (s', more) \<and> ht_inv hash s' \<and>
      ht_contents s' = ht_contents s \<and> c_current_element_valid (hash_table_ops hash) s' = more"
    using ht_move_next_ok [OF inv] by (auto simp: ht_current_element_valid_def ht_contents_def)
  show "\<exists>p. c_element (hash_table_ops hash) s = Some p \<and> p \<in># ht_contents s"
    if "c_current_element_valid (hash_table_ops hash) s"
  proof -
    from that obtain p nxt where p: "current_node s = p # nxt"
      by (auto simp: ht_current_element_valid_def neq_Nil_conv)
    with inv obtain before where "current_bucket s < length (table s)"
      "table s ! current_bucket s = before @ p # nxt" by (auto simp: ht_inv_def)
    then have "p \<in> set (concat (table s))" by (metis UN_iff in_set_conv_decomp nth_mem set_concat)
    with p show ?thesis by (simp add: ht_element_def ht_contents_def del: mset_concat)
  qed
  show "c_element (hash_table_ops hash) s = None"
    if "\<not> c_current_element_valid (hash_table_ops hash) s"
    using that by (simp add: ht_current_element_valid_def ht_element_def)
next
  show "c_reset (hash_table_ops hash) (c_reset (hash_table_ops hash) s) = c_reset (hash_table_ops hash) s"
    for s :: "('d::linorder, 'r) hash_table"
    by (simp add: ht_reset_def)
qed simp_all

section \<open>Properties of the hash table\<close>

text \<open>A table of four buckets with the keys 1, 5 and 2, the first two in one bucket.\<close>

definition sample_hash :: "nat \<Rightarrow> 64 word" where
  "sample_hash d = of_nat d"

definition sample_table :: "(nat, nat) hash_table" where
  "sample_table = \<lparr>hash_size = 3, table = [[], [(5, 50), (1, 10)], [(2, 20)], []],
     num_of_buckets = 4, ht_mask = 3, current_bucket = 0, current_node = [], ht_at_start = True\<rparr>"

lemma sample_table_inv: "ht_inv sample_hash sample_table"
proof -
  have n: "\<exists>e < 32. num_of_buckets sample_table = 2 ^ e \<and> ht_mask sample_table = num_of_buckets sample_table - 1"
    by (rule exI [of _ 2]) (simp add: sample_table_def)
  have all4: "(\<forall>i < 4. Q i) \<longleftrightarrow> Q 3 \<and> Q 2 \<and> Q 1 \<and> Q (0::nat)" for Q
    by (simp add: numeral_eq_Suc All_less_Suc)
  have "length (table sample_table) = 4" by (simp add: sample_table_def)
  then have "\<forall>i < length (table sample_table). \<forall>p \<in> set (table sample_table ! i).
      hash_value sample_hash sample_table (fst p) = i"
    by (simp only: all4) (simp add: sample_table_def hash_value_def sample_hash_def)
  with n show ?thesis unfolding ht_inv_def by (simp add: sample_table_def)
qed

lemma sample_table_contents: "ht_contents sample_table = {#(5, 50), (1, 10), (2, 20)#}"
  by (simp add: ht_contents_def sample_table_def)

text \<open>
  C11. \<open>add\<close> puts a pair into the table and \<open>remove\<close> of a key that the table holds takes one of its
  pairs out, whatever the hash function; both keep every pair in the bucket of its hash value and the
  cached size, and \<open>destroy\<close> leaves the same table as \<open>remove\<close>.
\<close>

theorem hash_table_updates:
  assumes "ht_inv hash s"
  shows "(\<exists>s'. ht_add hash s d r = Some s' \<and> ht_inv hash s' \<and>
      ht_contents s' = add_mset (d, r) (ht_contents s)) \<and>
    (d \<in> keys_of (ht_contents s) \<longrightarrow> (\<exists>s' v. ht_remove hash s d = Some (s', d, v) \<and>
      ht_destroy hash s d = Some s' \<and> ht_inv hash s' \<and>
      ht_contents s = add_mset (d, v) (ht_contents s')))"
  using ht_add_ok [OF assms, of d r] ht_remove_ok [OF assms, of d] by (auto simp: ht_destroy_eq)

theorem hash_table_updates_witness:
  "\<exists>s' v. ht_remove sample_hash sample_table 1 = Some (s', 1, v) \<and> ht_inv sample_hash s' \<and>
     ht_contents sample_table = add_mset (1, v) (ht_contents s')"
  using hash_table_updates [OF sample_table_inv, of 1 0] by (auto simp: sample_table_contents)

text \<open>
  A complete enumeration of the hash table delivers every pair once, bucket by bucket, and
  leaves the table unchanged.
\<close>

theorem hash_table_enumerates:
  assumes "ht_inv hash s"
  shows "\<exists>ps s'. ht_enumerate (Suc (hash_size s)) (ht_reset s) = Some (ps, s') \<and>
    mset ps = ht_contents s \<and> ht_inv hash s' \<and> ht_contents s' = ht_contents s \<and>
    \<not> ht_current_element_valid s'"
proof -
  have "hash_size s = size (ht_contents s)"
    using assms by (simp add: ht_inv_def ht_contents_def del: mset_concat)
  with ht_enumerate_all [OF assms] show ?thesis
    by (auto simp: ht_contents_def ht_current_element_valid_def simp del: mset_concat)
qed

theorem hash_table_enumerates_witness:
  "\<exists>ps s'. ht_enumerate (Suc (hash_size sample_table)) (ht_reset sample_table) = Some (ps, s') \<and>
    mset ps = ht_contents sample_table \<and> ht_inv sample_hash s' \<and>
    ht_contents s' = ht_contents sample_table \<and> \<not> ht_current_element_valid s'"
  by (rule hash_table_enumerates [OF sample_table_inv])

end
