(* ===== verification/Set_Container.thy ===== *)
theory Set_Container
  imports Pair_Container Checked_Assert
begin

text \<open>
  The interface of the sets of dlib (\<open>set/set_kernel_abstract.h\<close>, \<open>hash_set_kernel_abstract.h\<close>)
  and the two classes that are written against it: the checked set \<open>set/set_kernel_c.h\<close>
  and the comparable set \<open>set/set_compare_1.h\<close>. A comparison works on the enumerators of
  its two arguments, which are the same object when a set is compared with itself.
\<close>

section \<open>The operations of a set\<close>

record ('s, 't) set_ops =
  s_clear :: "'s \<Rightarrow> 's option"
  s_add :: "'s \<Rightarrow> 't \<Rightarrow> 's option"
  s_is_member :: "'s \<Rightarrow> 't \<Rightarrow> bool"
  s_remove :: "'s \<Rightarrow> 't \<Rightarrow> ('s \<times> 't) option"
  s_destroy :: "'s \<Rightarrow> 't \<Rightarrow> 's option"
  s_remove_any :: "'s \<Rightarrow> ('s \<times> 't) option"
  s_size :: "'s \<Rightarrow> nat"
  s_at_start :: "'s \<Rightarrow> bool"
  s_reset :: "'s \<Rightarrow> 's"
  s_current_element_valid :: "'s \<Rightarrow> bool"
  s_element :: "'s \<Rightarrow> 't option"
  s_move_next :: "'s \<Rightarrow> ('s \<times> bool) option"

abbreviation s_enumerate where
  "s_enumerate ops n s \<equiv> enumerate_loop (s_move_next ops) (s_element ops) n (s_reset ops s)"

section \<open>The checked set\<close>

text \<open>\<open>differ\<close> tells whether the argument and the object the result is moved to are distinct.\<close>

definition set_c_add :: "('s, 't) set_ops \<Rightarrow> 's \<Rightarrow> 't \<Rightarrow> 's outcome" where
  "set_c_add base s item =
     dlib_cassert (\<not> s_is_member base s item) (run_unchecked (s_add base s item))"

definition set_c_remove :: "('s, 't) set_ops \<Rightarrow> 's \<Rightarrow> 't \<Rightarrow> bool \<Rightarrow> ('s \<times> 't) outcome" where
  "set_c_remove base s item differ =
     dlib_cassert (s_is_member base s item \<and> differ) (run_unchecked (s_remove base s item))"

definition set_c_destroy :: "('s, 't) set_ops \<Rightarrow> 's \<Rightarrow> 't \<Rightarrow> 's outcome" where
  "set_c_destroy base s item =
     dlib_cassert (s_is_member base s item) (run_unchecked (s_destroy base s item))"

definition set_c_remove_any :: "('s, 't) set_ops \<Rightarrow> 's \<Rightarrow> ('s \<times> 't) outcome" where
  "set_c_remove_any base s = dlib_cassert (s_size base s \<noteq> 0) (run_unchecked (s_remove_any base s))"

definition set_c_element :: "('s, 't) set_ops \<Rightarrow> 's \<Rightarrow> 't outcome" where
  "set_c_element base s =
     dlib_cassert (s_current_element_valid base s = True) (run_unchecked (s_element base s))"

section \<open>Comparing two sets\<close>

text \<open>
  The loops of \<open>operator<\<close> and \<open>operator==\<close> move two enumerators that live in a state \<open>'w\<close>:
  a pair of sets, or one set when both operands are the same object. \<open>view\<close> reads and writes
  the operand within that state.
\<close>

record ('w, 's) operand =
  get :: "'w \<Rightarrow> 's"
  put :: "'s \<Rightarrow> 'w \<Rightarrow> 'w"

definition this_of_pair :: "('s \<times> 's, 's) operand" where
  "this_of_pair = \<lparr>get = fst, put = (\<lambda>s w. (s, snd w))\<rparr>"

definition rhs_of_pair :: "('s \<times> 's, 's) operand" where
  "rhs_of_pair = \<lparr>get = snd, put = (\<lambda>s w. (fst w, s))\<rparr>"

definition same_object :: "('s, 's) operand" where
  "same_object = \<lparr>get = (\<lambda>w. w), put = (\<lambda>s w. s)\<rparr>"

lemma operand_simps [simp]:
  "get this_of_pair w = fst w" "put this_of_pair s w = (s, snd w)"
  "get rhs_of_pair w = snd w" "put rhs_of_pair s w = (fst w, s)"
  "get same_object v = v" "put same_object v v' = v"
  by (simp_all add: this_of_pair_def rhs_of_pair_def same_object_def)

definition op_reset :: "('s, 't) set_ops \<Rightarrow> ('w, 's) operand \<Rightarrow> 'w \<Rightarrow> 'w" where
  "op_reset base x w = put x (s_reset base (get x w)) w"

definition op_move_next :: "('s, 't) set_ops \<Rightarrow> ('w, 's) operand \<Rightarrow> 'w \<Rightarrow> ('w \<times> bool) option" where
  "op_move_next base x w = do { (s, more) \<leftarrow> s_move_next base (get x w); Some (put x s w, more) }"

fun less_loop ::
  "('s, 't::linorder) set_ops \<Rightarrow> ('w, 's) operand \<Rightarrow> ('w, 's) operand \<Rightarrow> nat \<Rightarrow> 'w \<Rightarrow> ('w \<times> bool) option" where
  "less_loop base this rhs 0 w = Some (w, False)"
| "less_loop base this rhs (Suc n) w = do {
     (w, more) \<leftarrow> op_move_next base rhs w;
     (if more then do {
        (w, _) \<leftarrow> op_move_next base this w;
        a \<leftarrow> s_element base (get this w);
        b \<leftarrow> s_element base (get rhs w);
        (if a < b then Some (w, True)
         else if b < a then Some (w, False)
         else less_loop base this rhs n w) }
      else Some (w, False)) }"

definition set_less ::
  "('s, 't::linorder) set_ops \<Rightarrow> ('w, 's) operand \<Rightarrow> ('w, 's) operand \<Rightarrow> 'w \<Rightarrow> ('w \<times> bool) option" where
  "set_less base this rhs w = do {
     let result = (s_size base (get this w) < s_size base (get rhs w));
     (w, result) \<leftarrow>
       (if s_size base (get this w) = s_size base (get rhs w) then
          (let w = op_reset base this (op_reset base rhs w)
           in less_loop base this rhs (Suc (s_size base (get rhs w))) w)
        else Some (w, result));
     Some (op_reset base rhs (op_reset base this w), result) }"

fun eq_loop ::
  "('s, 't) set_ops \<Rightarrow> ('w, 's) operand \<Rightarrow> ('w, 's) operand \<Rightarrow> nat \<Rightarrow> 'w \<Rightarrow> bool \<Rightarrow> ('w \<times> bool) option" where
  "eq_loop base this rhs 0 w result = Some (w, result)"
| "eq_loop base this rhs (Suc n) w result = do {
     (w, more) \<leftarrow> op_move_next base rhs w;
     (w, both) \<leftarrow> (if more then op_move_next base this w else Some (w, False));
     (if both then do {
        b \<leftarrow> s_element base (get rhs w);
        a \<leftarrow> s_element base (get this w);
        (if b \<noteq> a then Some (w, False) else eq_loop base this rhs n w result) }
      else Some (w, result)) }"

definition set_equal ::
  "('s, 't) set_ops \<Rightarrow> ('w, 's) operand \<Rightarrow> ('w, 's) operand \<Rightarrow> 'w \<Rightarrow> ('w \<times> bool) option" where
  "set_equal base this rhs w = do {
     let result = (s_size base (get this w) = s_size base (get rhs w));
     let w = op_reset base this (op_reset base rhs w);
     (w, result) \<leftarrow> eq_loop base this rhs (Suc (s_size base (get rhs w))) w result;
     Some (op_reset base rhs (op_reset base this w), result) }"

section \<open>What the operations promise\<close>

locale set_container =
  fixes ops :: "('s, 't::linorder) set_ops"
    and inv :: "'s \<Rightarrow> bool"
    and elems :: "'s \<Rightarrow> 't set"
    and capacity :: "'s \<Rightarrow> bool"
  assumes finite_elems: "inv s \<Longrightarrow> finite (elems s)"
    and clear_spec: "inv s \<Longrightarrow> \<exists>s'. s_clear ops s = Some s' \<and> inv s' \<and> elems s' = {}"
    and add_spec: "inv s \<Longrightarrow> x \<notin> elems s \<Longrightarrow>
      \<exists>s'. s_add ops s x = Some s' \<and> inv s' \<and> elems s' = insert x (elems s)"
    and is_member_spec: "inv s \<Longrightarrow> s_is_member ops s x \<longleftrightarrow> x \<in> elems s"
    and remove_spec: "inv s \<Longrightarrow> x \<in> elems s \<Longrightarrow>
      \<exists>s'. s_remove ops s x = Some (s', x) \<and> inv s' \<and> elems s' = elems s - {x}"
    and destroy_spec: "inv s \<Longrightarrow> x \<in> elems s \<Longrightarrow>
      \<exists>s'. s_destroy ops s x = Some s' \<and> inv s' \<and> elems s' = elems s - {x}"
    and remove_any_spec: "inv s \<Longrightarrow> elems s \<noteq> {} \<Longrightarrow>
      \<exists>s' x. s_remove_any ops s = Some (s', x) \<and> inv s' \<and> x \<in> elems s \<and> elems s' = elems s - {x}"
    and size_spec: "inv s \<Longrightarrow> s_size ops s = card (elems s)"
    and reset_spec: "inv s \<Longrightarrow> inv (s_reset ops s) \<and> elems (s_reset ops s) = elems s"
    and reset_reset: "s_reset ops (s_reset ops s) = s_reset ops s"
    and element_spec: "inv s \<Longrightarrow> s_current_element_valid ops s \<Longrightarrow>
      \<exists>x. s_element ops s = Some x \<and> x \<in> elems s"
    and element_None: "inv s \<Longrightarrow> \<not> s_current_element_valid ops s \<Longrightarrow> s_element ops s = None"
    and move_next_spec: "inv s \<Longrightarrow> capacity s \<Longrightarrow>
      \<exists>s' more. s_move_next ops s = Some (s', more) \<and> inv s' \<and> elems s' = elems s \<and>
        s_current_element_valid ops s' = more"
    and capacity_elems: "inv s \<Longrightarrow> inv s' \<Longrightarrow> elems s' = elems s \<Longrightarrow> capacity s' = capacity s"
    and enumerate_spec: "inv s \<Longrightarrow> capacity s \<Longrightarrow>
      \<exists>xs s'. s_enumerate ops (Suc (card (elems s))) s = Some (xs, s') \<and>
        inv s' \<and> elems s' = elems s \<and> set xs = elems s \<and> distinct xs"
begin

text \<open>What each guarded call does.\<close>

lemma checked_add:
  assumes "inv s"
  shows "case set_c_add ops s x of
      Undefined \<Rightarrow> False
    | Throws e \<Rightarrow> e = EBROKEN_ASSERT \<and> x \<in> elems s
    | Returns s' \<Rightarrow> x \<notin> elems s \<and> inv s' \<and> elems s' = insert x (elems s)"
proof (cases "x \<in> elems s")
  case False
  with add_spec [OF assms] obtain s' where "s_add ops s x = Some s'" "inv s'" "elems s' = insert x (elems s)" by blast
  with False show ?thesis
    by (simp add: set_c_add_def dlib_cassert_def run_unchecked_def is_member_spec [OF assms])
qed (simp add: set_c_add_def dlib_cassert_def is_member_spec [OF assms])

lemma checked_remove:
  assumes "inv s"
  shows "case set_c_remove ops s x differ of
      Undefined \<Rightarrow> False
    | Throws e \<Rightarrow> e = EBROKEN_ASSERT \<and> (x \<notin> elems s \<or> \<not> differ)
    | Returns (s', y) \<Rightarrow> y = x \<and> x \<in> elems s \<and> differ \<and> inv s' \<and> elems s' = elems s - {x}"
proof (cases "x \<in> elems s \<and> differ")
  case True
  with remove_spec [OF assms] obtain s' where "s_remove ops s x = Some (s', x)" "inv s'" "elems s' = elems s - {x}"
    by blast
  with True show ?thesis
    by (simp add: set_c_remove_def dlib_cassert_def run_unchecked_def is_member_spec [OF assms])
next
  case False
  then show ?thesis by (simp add: set_c_remove_def dlib_cassert_def is_member_spec [OF assms])
qed

lemma checked_destroy:
  assumes "inv s"
  shows "case set_c_destroy ops s x of
      Undefined \<Rightarrow> False
    | Throws e \<Rightarrow> e = EBROKEN_ASSERT \<and> x \<notin> elems s
    | Returns s' \<Rightarrow> x \<in> elems s \<and> inv s' \<and> elems s' = elems s - {x}"
proof (cases "x \<in> elems s")
  case True
  with destroy_spec [OF assms] obtain s' where "s_destroy ops s x = Some s'" "inv s'" "elems s' = elems s - {x}"
    by blast
  with True show ?thesis
    by (simp add: set_c_destroy_def dlib_cassert_def run_unchecked_def is_member_spec [OF assms])
qed (simp add: set_c_destroy_def dlib_cassert_def is_member_spec [OF assms])

lemma checked_remove_any:
  assumes "inv s"
  shows "case set_c_remove_any ops s of
      Undefined \<Rightarrow> False
    | Throws e \<Rightarrow> e = EBROKEN_ASSERT \<and> elems s = {}
    | Returns (s', y) \<Rightarrow> y \<in> elems s \<and> inv s' \<and> elems s' = elems s - {y}"
proof (cases "elems s = {}")
  case False
  with remove_any_spec [OF assms] obtain s' y where
    "s_remove_any ops s = Some (s', y)" "inv s'" "y \<in> elems s" "elems s' = elems s - {y}" by blast
  with False show ?thesis
    by (simp add: set_c_remove_any_def dlib_cassert_def run_unchecked_def size_spec [OF assms] finite_elems [OF assms])
qed (simp add: set_c_remove_any_def dlib_cassert_def size_spec [OF assms])

lemma checked_element:
  assumes "inv s"
  shows "case set_c_element ops s of
      Undefined \<Rightarrow> False
    | Throws e \<Rightarrow> e = EBROKEN_ASSERT \<and> \<not> s_current_element_valid ops s
    | Returns y \<Rightarrow> s_current_element_valid ops s \<and> s_element ops s = Some y \<and> y \<in> elems s"
proof (cases "s_current_element_valid ops s")
  case True
  with element_spec [OF assms] obtain y where "s_element ops s = Some y" "y \<in> elems s" by blast
  with True show ?thesis by (simp add: set_c_element_def dlib_cassert_def run_unchecked_def)
qed (simp add: set_c_element_def dlib_cassert_def)

end

text \<open>A set over an ordered container: \<open>asc_remover\<close> and enumeration in order.\<close>

locale asc_set_container = set_container ops inv elems capacity
  for ops :: "('s, 't::linorder) set_ops"
    and inv :: "'s \<Rightarrow> bool"
    and elems :: "'s \<Rightarrow> 't set"
    and capacity :: "'s \<Rightarrow> bool" +
  assumes remove_any_least: "inv s \<Longrightarrow> s_remove_any ops s = Some (s', x) \<Longrightarrow>
      \<forall>y \<in> elems s'. x \<le> y"
    and enumerate_sorted: "inv s \<Longrightarrow> capacity s \<Longrightarrow>
      s_enumerate ops (Suc (card (elems s))) s = Some (xs, s') \<Longrightarrow> sorted xs"

section \<open>What a comparison computes\<close>

text \<open>
  The two enumerators of a comparison advance together: \<open>runs\<close> says what one of them still
  delivers.
\<close>

definition runs :: "('s, 't) set_ops \<Rightarrow> 's \<Rightarrow> 't list \<Rightarrow> bool" where
  "runs ops s xs \<longleftrightarrow> (\<exists>s'. enumerate_loop (s_move_next ops) (s_element ops) (Suc (length xs)) s = Some (xs, s'))"

lemma enumerate_loop_Cons:
  "enumerate_loop mv el (Suc n) s = Some (p # ps, s') \<longleftrightarrow>
     (\<exists>s1. mv s = Some (s1, True) \<and> el s1 = Some p \<and> enumerate_loop mv el n s1 = Some (ps, s'))"
  by (auto split: bind_splits)

lemma enumerate_loop_Nil:
  "enumerate_loop mv el (Suc n) s = Some ([], s') \<longleftrightarrow> mv s = Some (s', False)"
  by (auto split: bind_splits)

lemma runs_Cons:
  "runs ops s (x # xs) \<longleftrightarrow>
     (\<exists>s1. s_move_next ops s = Some (s1, True) \<and> s_element ops s1 = Some x \<and> runs ops s1 xs)"
  unfolding runs_def list.size add_Suc_right add_0_right enumerate_loop_Cons by blast

lemma runs_Nil: "runs ops s [] \<longleftrightarrow> (\<exists>s'. s_move_next ops s = Some (s', False))"
  unfolding runs_def list.size enumerate_loop_Nil by blast

lemma less_loop_runs:
  "runs ops (fst w) xs \<Longrightarrow> runs ops (snd w) ys \<Longrightarrow> length xs = length ys \<Longrightarrow> length ys < n \<Longrightarrow>
     \<exists>w'. less_loop ops this_of_pair rhs_of_pair n w = Some (w', ord_class.lexordp xs ys)"
proof (induction n arbitrary: w xs ys)
  case (Suc n)
  show ?case
  proof (cases ys)
    case Nil
    with Suc.prems show ?thesis by (auto simp: runs_Nil op_move_next_def)
  next
    case (Cons y ys')
    with Suc.prems obtain x xs' where x: "xs = x # xs'" by (cases xs) auto
    with Suc.prems Cons obtain s t where
      "s_move_next ops (fst w) = Some (s, True)" "s_element ops s = Some x" "runs ops s xs'"
      "s_move_next ops (snd w) = Some (t, True)" "s_element ops t = Some y" "runs ops t ys'"
      by (auto simp: runs_Cons)
    with Suc.IH [of "(s, t)" xs' ys'] Suc.prems x Cons show ?thesis
      by (auto simp: op_move_next_def)
  qed
qed simp

lemma eq_loop_runs:
  "runs ops (fst w) xs \<Longrightarrow> runs ops (snd w) ys \<Longrightarrow> length ys < n \<Longrightarrow>
     \<exists>w'. eq_loop ops this_of_pair rhs_of_pair n w result = Some
       (w', result \<and> take (length ys) xs = take (length xs) ys)"
proof (induction n arbitrary: w xs ys)
  case (Suc n)
  consider "ys = []" | y ys' where "ys = y # ys'" "xs = []" | x xs' y ys' where "ys = y # ys'" "xs = x # xs'"
    by (cases xs; cases ys) auto
  then show ?case
  proof cases
    case 1
    with Suc.prems show ?thesis by (auto simp: runs_Nil op_move_next_def)
  next
    case 2
    with Suc.prems show ?thesis by (auto simp: runs_Nil runs_Cons op_move_next_def)
  next
    case 3
    with Suc.prems obtain s t where
      "s_move_next ops (fst w) = Some (s, True)" "s_element ops s = Some x" "runs ops s xs'"
      "s_move_next ops (snd w) = Some (t, True)" "s_element ops t = Some y" "runs ops t ys'"
      by (auto simp: runs_Cons)
    with Suc.IH [of "(s, t)" xs' ys'] Suc.prems 3 show ?thesis
      by (auto simp: op_move_next_def)
  qed
qed simp

declare less_loop.simps [simp del] eq_loop.simps [simp del]

context set_container begin

text \<open>
  A set compared with itself: \<open>rhs\<close> and \<open>this\<close> move the same enumerator, so one round of the
  loop consumes two elements, and the last round of a set of odd size reads the element of an
  enumerator that has run past the end.
\<close>

lemma size_reset: "inv s \<Longrightarrow> s_size ops (s_reset ops s) = card (elems s)"
  using reset_spec [of s] size_spec [of "s_reset ops s"] by simp

lemma less_loop_self:
  "inv w \<Longrightarrow> capacity w \<Longrightarrow> runs ops w xs \<Longrightarrow> length xs < n \<Longrightarrow>
     (if even (length xs)
      then \<exists>w'. less_loop ops same_object same_object n w = Some (w', False)
      else less_loop ops same_object same_object n w = None)"
proof (induction n arbitrary: w xs)
  case (Suc n)
  consider "xs = []" | x where "xs = [x]" | x y ys where "xs = x # y # ys"
    by (metis list.exhaust)
  then show ?case
  proof cases
    case 1
    with Suc.prems show ?thesis by (auto simp: runs_Nil op_move_next_def less_loop.simps)
  next
    case 2
    with Suc.prems obtain s1 s2 where s: "s_move_next ops w = Some (s1, True)"
      "s_move_next ops s1 = Some (s2, False)" by (auto simp: runs_Nil runs_Cons)
    with move_next_spec [OF Suc.prems(1,2)] have s1: "inv s1" "elems s1 = elems w" by auto
    with capacity_elems Suc.prems(1,2) have "capacity s1" by blast
    from move_next_spec [OF s1(1) this] s(2) have "s_element ops s2 = None"
      by (auto intro: element_None)
    with 2 s show ?thesis by (auto simp: op_move_next_def less_loop.simps)
  next
    case 3
    with Suc.prems obtain s1 s2 where s: "s_move_next ops w = Some (s1, True)"
      "s_move_next ops s1 = Some (s2, True)" "s_element ops s2 = Some y" "runs ops s2 ys"
      by (auto simp: runs_Cons)
    from move_next_spec [OF Suc.prems(1,2)] s(1) have s1: "inv s1" "elems s1 = elems w" by auto
    with capacity_elems Suc.prems(1,2) have c1: "capacity s1" by blast
    from move_next_spec [OF s1(1) c1] s(2) have s2: "inv s2" "elems s2 = elems s1" by auto
    with capacity_elems s1(1) c1 have "capacity s2" by blast
    from Suc.IH [OF s2(1) this s(4)] 3 s(1-3) Suc.prems(4) show ?thesis
      by (auto simp: op_move_next_def less_loop.simps)
  qed
qed simp

lemma less_self:
  assumes "inv s" "capacity s"
  shows "if even (card (elems s))
    then \<exists>s'. set_less ops same_object same_object s = Some (s', False)
    else set_less ops same_object same_object s = None"
proof -
  from enumerate_spec [OF assms] obtain xs s' where xs:
    "s_enumerate ops (Suc (card (elems s))) s = Some (xs, s')" "set xs = elems s" "distinct xs" by blast
  then have len: "length xs = card (elems s)" by (metis distinct_card)
  with xs(1) have r: "runs ops (s_reset ops s) xs" by (auto simp: runs_def)
  from reset_spec [OF assms(1)] have inv: "inv (s_reset ops s)" "elems (s_reset ops s) = elems s"
    by simp_all
  with capacity_elems assms have "capacity (s_reset ops s)" by blast
  show ?thesis
    using less_loop_self [OF inv(1) \<open>capacity (s_reset ops s)\<close> r, of "Suc (card (elems s))"]
    by (auto simp: set_less_def op_reset_def size_reset assms len reset_reset)
qed

end

context asc_set_container begin

lemma runs_reset:
  assumes "inv s" "capacity s"
  shows "runs ops (s_reset ops s) (sorted_list_of_set (elems s))"
proof -
  from enumerate_spec [OF assms] obtain xs s' where xs:
    "s_enumerate ops (Suc (card (elems s))) s = Some (xs, s')" "set xs = elems s" "distinct xs" by blast
  with enumerate_sorted [OF assms xs(1)] have "xs = sorted_list_of_set (elems s)"
    by (metis sorted_list_of_set.idem_if_sorted_distinct)
  with xs show ?thesis by (auto simp: runs_def distinct_card [symmetric])
qed

lemma less_spec:
  assumes "inv s" "capacity s" "inv t" "capacity t"
  shows "\<exists>w'. set_less ops this_of_pair rhs_of_pair (s, t) = Some (w',
      card (elems s) < card (elems t) \<or> card (elems s) = card (elems t) \<and>
        ord_class.lexordp (sorted_list_of_set (elems s)) (sorted_list_of_set (elems t)))"
proof (cases "card (elems s) = card (elems t)")
  case True
  then have "length (sorted_list_of_set (elems s)) = length (sorted_list_of_set (elems t))"
    "length (sorted_list_of_set (elems t)) < Suc (card (elems t))" by simp_all
  with less_loop_runs [of ops "(s_reset ops s, s_reset ops t)"] runs_reset assms obtain w' where
    "less_loop ops this_of_pair rhs_of_pair (Suc (card (elems t))) (s_reset ops s, s_reset ops t)
      = Some (w', ord_class.lexordp (sorted_list_of_set (elems s)) (sorted_list_of_set (elems t)))"
    by fastforce
  with True assms show ?thesis
    by (simp add: set_less_def op_reset_def size_spec size_reset)
next
  case False
  with assms size_spec show ?thesis by (auto simp: set_less_def)
qed

lemma equal_spec:
  assumes "inv s" "capacity s" "inv t" "capacity t"
  shows "\<exists>w'. set_equal ops this_of_pair rhs_of_pair (s, t) = Some (w', elems s = elems t)"
proof -
  let ?xs = "sorted_list_of_set (elems s)" and ?ys = "sorted_list_of_set (elems t)"
  have len: "length ?xs = card (elems s)" "length ?ys = card (elems t)" by simp_all
  have "length ?ys < Suc (s_size ops t)" using assms by (simp add: size_spec)
  from eq_loop_runs [of ops "(s_reset ops s, s_reset ops t)" ?xs ?ys _ "card (elems s) = card (elems t)",
      OF _ _ this] runs_reset assms
  obtain w' where w': "eq_loop ops this_of_pair rhs_of_pair (Suc (s_size ops t))
      (s_reset ops s, s_reset ops t) (card (elems s) = card (elems t))
      = Some (w', card (elems s) = card (elems t) \<and> take (length ?ys) ?xs = take (length ?xs) ?ys)"
    by auto
  have "card (elems s) = card (elems t) \<and> take (length ?ys) ?xs = take (length ?xs) ?ys \<longleftrightarrow>
      elems s = elems t"
    using assms finite_elems len by (metis order_refl set_sorted_list_of_set take_all)
  with w' have "eq_loop ops this_of_pair rhs_of_pair (Suc (s_size ops t))
      (s_reset ops s, s_reset ops t) (card (elems s) = card (elems t)) = Some (w', elems s = elems t)"
    by simp
  with assms show ?thesis
    by (simp add: set_equal_def op_reset_def size_spec size_reset)
qed

end

end
