(* ===== verification/Bst_Kernel_1.thy ===== *)
theory Bst_Kernel_1
  imports Prelude
begin

text \<open>
  The balanced tree of \<open>dlib/binary_search_tree/binary_search_tree_kernel_1.h\<close>: the node
  type, the rotations and the recursive routines that add to, remove from and search the
  tree. A node pointer is its address, a \<open>nat\<close>; a subtree is the value of the memory
  reachable from its root pointer, so \<open>Null\<close> is the null pointer and a routine that takes
  \<open>node*& t\<close> returns the tree that \<open>t\<close> points to afterwards. A routine that would
  dereference a null pointer returns \<open>None\<close>.
\<close>

section \<open>Nodes\<close>

text \<open>
  The fields of \<open>node\<close>, in the order address, \<open>left\<close>, \<open>d\<close>, \<open>r\<close>,
  \<open>balance\<close>, \<open>right\<close>. \<open>balance\<close> is a \<open>signed char\<close>: its values stay in -2..2.
\<close>

datatype ('d, 'r) node =
    Null
  | Node (addr: nat) (left: "('d, 'r) node") (node_d: 'd) (node_r: 'r) (balance: int)
      (right: "('d, 'r) node")

text \<open>\<open>compare = std::less<domain>\<close>, the default comparison of the template.\<close>

definition comp :: "'d::linorder \<Rightarrow> 'd \<Rightarrow> bool" where
  "comp x y \<longleftrightarrow> x < y"

section \<open>Rotations\<close>

text \<open>\<open>rotate_left\<close>: the new balance numbers are set, then the right child comes up.\<close>

fun rotate_left :: "('d, 'r) node \<Rightarrow> ('d, 'r) node option" where
  "rotate_left (Node a l d r b (Node ra rl rd rr rb rt)) =
     (let (b', rb') = (if rb = 1 then (0, 0) else (1, -1))
      in Some (Node ra (Node a l d r b' rl) rd rr rb' rt))"
| "rotate_left _ = None"

fun rotate_right :: "('d, 'r) node \<Rightarrow> ('d, 'r) node option" where
  "rotate_right (Node a (Node la ll ld lr lb lt) d r b rt) =
     (let (b', lb') = (if lb = -1 then (0, 0) else (-1, 1))
      in Some (Node la ll ld lr lb' (Node a lt d r b' rt)))"
| "rotate_right _ = None"

text \<open>
  The double rotations move the grandchild \<open>m\<close> up and set the balance of its two new
  children from its own old balance.
\<close>

definition double_rotate_balances :: "int \<Rightarrow> int \<times> int" where
  "double_rotate_balances mb = (if mb < 0 then (0, 1) else if mb > 0 then (-1, 0) else (0, 0))"

fun double_rotate_right :: "('d, 'r) node \<Rightarrow> ('d, 'r) node option" where
  "double_rotate_right (Node a (Node la ll ld lr lb (Node ma ml md mr mb mt)) d r b rt) =
     (let (lb', rb') = double_rotate_balances mb
      in Some (Node ma (Node la ll ld lr lb' ml) md mr 0 (Node a mt d r rb' rt)))"
| "double_rotate_right _ = None"

fun double_rotate_left :: "('d, 'r) node \<Rightarrow> ('d, 'r) node option" where
  "double_rotate_left (Node a lt d r b (Node ra (Node ma ml md mr mb mt) rd rr rb rt)) =
     (let (lb', rb') = double_rotate_balances mb
      in Some (Node ma (Node a lt d r lb' ml) md mr 0 (Node ra mt rd rr rb' rt)))"
| "double_rotate_left _ = None"

text \<open>
  \<open>keep_node_balanced\<close> returns the tree and whether it became one level shorter; it reads
  the balance of a child only where the balance of the root asks for a rotation.
\<close>

fun keep_node_balanced :: "('d, 'r) node \<Rightarrow> (('d, 'r) node \<times> bool) option" where
  "keep_node_balanced Null = None"
| "keep_node_balanced (Node a l d r b rt) =
     (if b = 0 then Some (Node a l d r b rt, False)
      else do {
        t \<leftarrow> (if b = 2 then
                (case rt of Null \<Rightarrow> None
                 | Node _ _ _ _ rb _ \<Rightarrow>
                     if rb \<ge> 0 then rotate_left (Node a l d r b rt)
                     else double_rotate_left (Node a l d r b rt))
              else if b = -2 then
                (case l of Null \<Rightarrow> None
                 | Node _ _ _ _ lb _ \<Rightarrow>
                     if lb \<le> 0 then rotate_right (Node a l d r b rt)
                     else double_rotate_right (Node a l d r b rt))
              else Some (Node a l d r b rt));
        Some (t, balance t = 0) })"

section \<open>Adding\<close>

text \<open>
  What \<open>add_to_tree\<close> does after the recursive call has adjusted the balance of the node \<open>t\<close>,
  whose balance was \<open>old_balance\<close> before.
\<close>

definition add_fixup :: "int \<Rightarrow> ('d, 'r) node \<Rightarrow> (('d, 'r) node \<times> bool) option" where
  "add_fixup old_balance t =
     (if old_balance = 0 then Some (t, balance t \<noteq> 0)
      else if balance t = 0 then Some (t, False)
      else if balance t \<noteq> old_balance
      then do { (t', shrunk) \<leftarrow> keep_node_balanced t; Some (t', \<not> shrunk) }
      else Some (t, False))"

text \<open>
  \<open>add_to_tree\<close>: \<open>new\<close> is the address \<open>pool.allocate()\<close> returns. The result is the
  tree and whether its height has grown.
\<close>

fun add_to_tree ::
  "nat \<Rightarrow> ('d::linorder, 'r) node \<Rightarrow> 'd \<Rightarrow> 'r \<Rightarrow> (('d, 'r) node \<times> bool) option" where
  "add_to_tree new Null d r = Some (Node new Null d r 0 Null, True)"
| "add_to_tree new (Node a l td tr old_balance rt) d r =
     (if comp d td
      then do { (l', grew) \<leftarrow> add_to_tree new l d r;
                add_fixup old_balance (Node a l' td tr (old_balance - of_bool grew) rt) }
      else do { (rt', grew) \<leftarrow> add_to_tree new rt d r;
                add_fixup old_balance (Node a l td tr (old_balance + of_bool grew) rt') })"

section \<open>Removing\<close>

text \<open>
  The removals return the tree, the pair taken out (\<open>exchange\<close>d into the caller's \<open>d\<close>
  and \<open>r\<close>) and whether the tree became one level shorter.
\<close>

fun remove_biggest_element_in_tree ::
  "('d, 'r) node \<Rightarrow> (('d, 'r) node \<times> ('d \<times> 'r) \<times> bool) option" where
  "remove_biggest_element_in_tree Null = None"
| "remove_biggest_element_in_tree (Node a l d r b rt) =
     (if rt = Null then Some (l, (d, r), True)
      else do {
        (rt', p, shrunk) \<leftarrow> remove_biggest_element_in_tree rt;
        (if shrunk then
           (if b = 1 then Some (Node a l d r (b - 1) rt', p, True)
            else do { (t', s) \<leftarrow> keep_node_balanced (Node a l d r (b - 1) rt');
                      Some (t', p, s) })
         else Some (Node a l d r b rt', p, False)) })"

fun remove_least_element_in_tree ::
  "('d, 'r) node \<Rightarrow> (('d, 'r) node \<times> ('d \<times> 'r) \<times> bool) option" where
  "remove_least_element_in_tree Null = None"
| "remove_least_element_in_tree (Node a l d r b rt) =
     (if l = Null then Some (rt, (d, r), True)
      else do {
        (l', p, shrunk) \<leftarrow> remove_least_element_in_tree l;
        (if shrunk then
           (if b = -1 then Some (Node a l' d r (b + 1) rt, p, True)
            else do { (t', s) \<leftarrow> keep_node_balanced (Node a l' d r (b + 1) rt);
                      Some (t', p, s) })
         else Some (Node a l' d r b rt, p, False)) })"

text \<open>
  What the code does at the node to remove, in \<open>remove_from_tree\<close> and in
  \<open>remove_current_element_from_tree\<close>: plug the hole with the only child, or move the least
  element of the right subtree into the node.
\<close>

definition remove_root :: "('d, 'r) node \<Rightarrow> (('d, 'r) node \<times> bool) option" where
  "remove_root t = (case t of Null \<Rightarrow> None
   | Node a l d r b rt \<Rightarrow>
      (if l = Null then Some (rt, True)
       else if rt = Null then Some (l, True)
       else do {
         (rt', (d', r'), shrunk) \<leftarrow> remove_least_element_in_tree rt;
         (if shrunk then
            (if b - 1 = 0 then Some (Node a l d' r' (b - 1) rt', True)
             else keep_node_balanced (Node a l d' r' (b - 1) rt'))
          else Some (Node a l d' r' b rt', False)) }))"

text \<open>
  What the code does on the way back up: where the subtree the removal went into was the higher
  one (\<open>taller\<close>), no rotation can be needed.
\<close>

definition remove_fixup :: "bool \<Rightarrow> ('d, 'r) node \<Rightarrow> (('d, 'r) node \<times> bool) option" where
  "remove_fixup taller t = (if taller then Some (t, balance t = 0) else keep_node_balanced t)"

fun remove_from_tree ::
  "('d::linorder, 'r) node \<Rightarrow> 'd \<Rightarrow> (('d, 'r) node \<times> ('d \<times> 'r) \<times> bool) option" where
  "remove_from_tree Null d = None"
| "remove_from_tree (Node a l td tr b rt) d =
     (if comp d td then do {
        (l', p, shrunk) \<leftarrow> remove_from_tree l d;
        (t', s) \<leftarrow> remove_fixup (b = -1) (Node a l' td tr (b + of_bool shrunk) rt);
        Some (t', p, s) }
      else if comp td d then do {
        (rt', p, shrunk) \<leftarrow> remove_from_tree rt d;
        (t', s) \<leftarrow> remove_fixup (b = 1) (Node a l td tr (b - of_bool shrunk) rt');
        Some (t', p, s) }
      else do {
        (t', s) \<leftarrow> remove_root (Node a l td tr b rt);
        Some (t', (td, tr), s) })"

text \<open>The overload \<open>destroy\<close> calls: the same walk, with nothing copied out.\<close>

fun remove_from_tree_item ::
  "('d::linorder, 'r) node \<Rightarrow> 'd \<Rightarrow> (('d, 'r) node \<times> bool) option" where
  "remove_from_tree_item Null d = None"
| "remove_from_tree_item (Node a l td tr b rt) d =
     (if comp d td then do {
        (l', shrunk) \<leftarrow> remove_from_tree_item l d;
        remove_fixup (b = -1) (Node a l' td tr (b + of_bool shrunk) rt) }
      else if comp td d then do {
        (rt', shrunk) \<leftarrow> remove_from_tree_item rt d;
        remove_fixup (b = 1) (Node a l td tr (b - of_bool shrunk) rt') }
      else remove_root (Node a l td tr b rt))"

section \<open>Searching\<close>

fun return_reference :: "('d::linorder, 'r) node \<Rightarrow> 'd \<Rightarrow> 'r option" where
  "return_reference Null d = None"
| "return_reference (Node a l td tr b rt) d =
     (if comp d td then return_reference l d
      else if comp td d then return_reference rt d
      else Some tr)"

fun get_count :: "'d::linorder \<Rightarrow> ('d, 'r) node \<Rightarrow> nat" where
  "get_count d Null = 0"
| "get_count d (Node a l td tr b rt) =
     (if comp d td then get_count d l
      else if comp td d then get_count d rt
      else get_count d l + get_count d rt + 1)"

section \<open>The contents of a tree and its invariant\<close>

text \<open>
  The convention of the class: \<open>balance\<close> is the height of the right subtree minus that
  of the left one and lies in -1..1 (\<open>balanced\<close>), and the in-order sequence of the domain
  elements is sorted, with equal elements allowed (\<open>ordered\<close>).
\<close>

fun tree_height_of :: "('d, 'r) node \<Rightarrow> nat" where
  "tree_height_of Null = 0"
| "tree_height_of (Node a l d r b rt) = 1 + max (tree_height_of l) (tree_height_of rt)"

fun inorder :: "('d, 'r) node \<Rightarrow> ('d \<times> 'r) list" where
  "inorder Null = []"
| "inorder (Node a l d r b rt) = inorder l @ (d, r) # inorder rt"

fun addrs :: "('d, 'r) node \<Rightarrow> nat list" where
  "addrs Null = []"
| "addrs (Node a l d r b rt) = addrs l @ a # addrs rt"

definition height_diff :: "('d, 'r) node \<Rightarrow> ('d, 'r) node \<Rightarrow> int" where
  "height_diff l rt = int (tree_height_of rt) - int (tree_height_of l)"

fun balanced :: "('d, 'r) node \<Rightarrow> bool" where
  "balanced Null \<longleftrightarrow> True"
| "balanced (Node a l d r b rt) \<longleftrightarrow>
     b = height_diff l rt \<and> -1 \<le> b \<and> b \<le> 1 \<and> balanced l \<and> balanced rt"

definition ordered :: "('d::linorder, 'r) node \<Rightarrow> bool" where
  "ordered t \<longleftrightarrow> sorted (map fst (inorder t))"

text \<open>A node whose subtrees are balanced and which may be off by two, as the callers of
  \<open>keep_node_balanced\<close> leave it.\<close>

fun nearly_balanced :: "('d, 'r) node \<Rightarrow> bool" where
  "nearly_balanced Null \<longleftrightarrow> False"
| "nearly_balanced (Node a l d r b rt) \<longleftrightarrow>
     b = height_diff l rt \<and> -2 \<le> b \<and> b \<le> 2 \<and> balanced l \<and> balanced rt"

lemma tree_height_of_0 [simp]: "tree_height_of t = 0 \<longleftrightarrow> t = Null"
  by (cases t) auto

lemma inorder_Nil [simp]: "inorder t = [] \<longleftrightarrow> t = Null"
  by (cases t) auto

lemma addrs_length: "length (addrs t) = length (inorder t)"
  by (induction t) auto

lemma keep_node_balanced_left:
  assumes "nearly_balanced (Node a l d r 2 rt)"
  shows "\<exists>t' s. keep_node_balanced (Node a l d r 2 rt) = Some (t', s) \<and> balanced t' \<and>
    inorder t' = inorder (Node a l d r 2 rt) \<and> addrs t' = addrs (Node a l d r 2 rt) \<and>
    tree_height_of (Node a l d r 2 rt) = tree_height_of t' + of_bool s"
proof -
  from assms obtain ra rl rd rr rb rr' where rt: "rt = Node ra rl rd rr rb rr'"
    by (cases rt) (auto simp: height_diff_def)
  show ?thesis
  proof (cases "rb \<ge> 0")
    case True
    with assms rt show ?thesis by (auto simp: height_diff_def max_def)
  next
    case False
    with assms rt obtain ma ml md mr mb mt where m: "rl = Node ma ml md mr mb mt"
      by (cases rl) (auto simp: height_diff_def)
    from False assms rt m show ?thesis
      by (auto simp: height_diff_def max_def double_rotate_balances_def split: if_splits)
  qed
qed

lemma keep_node_balanced_right:
  assumes "nearly_balanced (Node a l d r (-2) rt)"
  shows "\<exists>t' s. keep_node_balanced (Node a l d r (-2) rt) = Some (t', s) \<and> balanced t' \<and>
    inorder t' = inorder (Node a l d r (-2) rt) \<and> addrs t' = addrs (Node a l d r (-2) rt) \<and>
    tree_height_of (Node a l d r (-2) rt) = tree_height_of t' + of_bool s"
proof -
  from assms obtain la ll ld lr lb lt where l: "l = Node la ll ld lr lb lt"
    by (cases l) (auto simp: height_diff_def)
  show ?thesis
  proof (cases "lb \<le> 0")
    case True
    with assms l show ?thesis by (auto simp: height_diff_def max_def)
  next
    case False
    with assms l obtain ma ml md mr mb mt where m: "lt = Node ma ml md mr mb mt"
      by (cases lt) (auto simp: height_diff_def)
    from False assms l m show ?thesis
      by (auto simp: height_diff_def max_def double_rotate_balances_def split: if_splits)
  qed
qed

lemma keep_node_balanced_ok:
  assumes "nearly_balanced t"
  obtains t' s where "keep_node_balanced t = Some (t', s)" "balanced t'"
    "inorder t' = inorder t" "addrs t' = addrs t"
    "tree_height_of t = tree_height_of t' + of_bool s"
    "s \<Longrightarrow> balance t = 2 \<or> balance t = -2"
proof -
  from assms obtain a l d r b rt where t: "t = Node a l d r b rt" by (cases t) auto
  from assms t have "b = 2 \<or> b = -2 \<or> b = 0 \<or> b = 1 \<or> b = -1" by auto
  then show ?thesis
  proof (elim disjE)
    assume "b = 2"
    with assms t keep_node_balanced_left [of a l d r rt] show ?thesis
      by (auto intro: that)
  next
    assume "b = -2"
    with assms t keep_node_balanced_right [of a l d r rt] show ?thesis
      by (auto intro: that)
  qed (use assms t in \<open>auto intro!: that [of t False]\<close>)
qed

text \<open>The rotations keep the in-order sequences whatever the balances are.\<close>

lemma rotate_left_seq:
  "rotate_left t = Some t' \<Longrightarrow> inorder t' = inorder t \<and> addrs t' = addrs t"
  by (cases t rule: rotate_left.cases) (auto split: prod.splits)

lemma rotate_right_seq:
  "rotate_right t = Some t' \<Longrightarrow> inorder t' = inorder t \<and> addrs t' = addrs t"
  by (cases t rule: rotate_right.cases) (auto split: prod.splits)

lemma double_rotate_left_seq:
  "double_rotate_left t = Some t' \<Longrightarrow> inorder t' = inorder t \<and> addrs t' = addrs t"
  by (cases t rule: double_rotate_left.cases) (auto split: prod.splits)

lemma double_rotate_right_seq:
  "double_rotate_right t = Some t' \<Longrightarrow> inorder t' = inorder t \<and> addrs t' = addrs t"
  by (cases t rule: double_rotate_right.cases) (auto split: prod.splits)

lemmas rotate_seqs =
  rotate_left_seq rotate_right_seq double_rotate_left_seq double_rotate_right_seq

lemma keep_node_balanced_seq:
  "keep_node_balanced t = Some (t', s) \<Longrightarrow> inorder t' = inorder t \<and> addrs t' = addrs t"
  by (cases t)
    (auto simp: bind_Some_iff simp del: rotate_left.simps rotate_right.simps
      double_rotate_left.simps double_rotate_right.simps
      split: if_splits node.splits dest!: rotate_seqs)

text \<open>
  From here on the rebalancing is used through \<open>keep_node_balanced_ok\<close> and
  \<open>keep_node_balanced_seq\<close> only.
\<close>

declare keep_node_balanced.simps [simp del]

section \<open>Adding keeps the invariant\<close>

lemma nearly_balanced_balanced:
  "nearly_balanced t \<Longrightarrow> -1 \<le> balance t \<Longrightarrow> balance t \<le> 1 \<Longrightarrow> balanced t"
  by (cases t) auto

lemma add_fixup_ok:
  assumes "nearly_balanced t" "-1 \<le> b" "b \<le> 1" "\<bar>balance t - b\<bar> \<le> 1"
    and "tree_height_of t = h + of_bool (balance t \<noteq> b \<and> balance t \<noteq> 0)"
  shows "\<exists>t' grew. add_fixup b t = Some (t', grew) \<and> balanced t' \<and>
    tree_height_of t' = h + of_bool grew"
proof (cases "b = 0 \<or> balance t = 0 \<or> balance t = b")
  case True
  have "add_fixup b t = Some (t, b = 0 \<and> balance t \<noteq> 0)"
    using True by (auto simp: add_fixup_def)
  moreover have "balanced t"
    using assms(1) by (rule nearly_balanced_balanced) (use True assms(2-4) in arith)+
  moreover have "tree_height_of t = h + of_bool (b = 0 \<and> balance t \<noteq> 0)"
    using True assms(5) by (simp only:) auto
  ultimately show ?thesis by blast
next
  case False
  from keep_node_balanced_ok [OF assms(1)] obtain t' s where k: "keep_node_balanced t = Some (t', s)"
    "balanced t'" "tree_height_of t = tree_height_of t' + of_bool s" by metis
  have "add_fixup b t = Some (t', \<not> s)"
    using False k(1) by (simp add: add_fixup_def)
  moreover have "tree_height_of t' = h + of_bool (\<not> s)"
    using False k(3) assms(5) by (cases s) simp_all
  ultimately show ?thesis using k(2) by blast
qed

lemma add_fixup_seq:
  "add_fixup b t = Some (t', g) \<Longrightarrow> inorder t' = inorder t \<and> addrs t' = addrs t"
  by (auto simp: add_fixup_def bind_Some_iff split: if_splits dest: keep_node_balanced_seq)

lemma add_to_tree_balanced:
  "balanced t \<Longrightarrow> \<exists>t' grew. add_to_tree new t d r = Some (t', grew) \<and> balanced t' \<and>
     tree_height_of t' = tree_height_of t + of_bool grew"
proof (induction new t d r rule: add_to_tree.induct)
  case (1 new d r)
  then show ?case by (auto simp: height_diff_def)
next
  case (2 new a l td tr b rt d r)
  show ?case
  proof (cases "comp d td")
    case True
    with 2 obtain l' g where l': "add_to_tree new l d r = Some (l', g)" "balanced l'"
      "tree_height_of l' = tree_height_of l + of_bool g" by auto
    have "\<exists>t' grew. add_fixup b (Node a l' td tr (b - of_bool g) rt) = Some (t', grew) \<and>
      balanced t' \<and> tree_height_of t' = tree_height_of (Node a l td tr b rt) + of_bool grew"
      by (rule add_fixup_ok) (cases g; use l' "2.prems" in \<open>auto simp: height_diff_def\<close>)+
    with l' True show ?thesis by simp
  next
    case False
    with 2 obtain rt' g where r': "add_to_tree new rt d r = Some (rt', g)" "balanced rt'"
      "tree_height_of rt' = tree_height_of rt + of_bool g" by auto
    have "\<exists>t' grew. add_fixup b (Node a l td tr (b + of_bool g) rt') = Some (t', grew) \<and>
      balanced t' \<and> tree_height_of t' = tree_height_of (Node a l td tr b rt) + of_bool grew"
      by (rule add_fixup_ok) (cases g; use r' "2.prems" in \<open>auto simp: height_diff_def\<close>)+
    with r' False show ?thesis by simp
  qed
qed

text \<open>The new pair goes after every pair whose key is not greater.\<close>

definition ins_pair :: "'d::linorder \<Rightarrow> 'r \<Rightarrow> ('d \<times> 'r) list \<Rightarrow> ('d \<times> 'r) list" where
  "ins_pair d r xs = takeWhile (\<lambda>p. fst p \<le> d) xs @ (d, r) # dropWhile (\<lambda>p. fst p \<le> d) xs"

lemma ins_pair_left:
  "d < k \<Longrightarrow> ins_pair d r (xs @ (k, v) # ys) = ins_pair d r xs @ (k, v) # ys"
  by (induction xs) (auto simp: ins_pair_def)

lemma ins_pair_right:
  "\<forall>p \<in> set xs. fst p \<le> d \<Longrightarrow> k \<le> d \<Longrightarrow>
     ins_pair d r (xs @ (k, v) # ys) = xs @ (k, v) # ins_pair d r ys"
  by (induction xs) (auto simp: ins_pair_def)

lemma mset_ins_pair [simp]: "mset (ins_pair d r xs) = add_mset (d, r) (mset xs)"
proof -
  have "mset (takeWhile P xs) + mset (dropWhile P xs) = mset xs" for P :: "'a \<times> 'b \<Rightarrow> bool"
    by (metis mset_append takeWhile_dropWhile_id)
  then show ?thesis by (simp add: ins_pair_def)
qed

lemma set_ins_pair [simp]: "set (ins_pair d r xs) = insert (d, r) (set xs)"
  by (metis mset_ins_pair set_mset_add_mset_insert set_mset_mset)

lemma length_ins_pair [simp]: "length (ins_pair d r xs) = Suc (length xs)"
  by (metis mset_ins_pair size_add_mset size_mset)

lemma sorted_ins_pair: "sorted (map fst xs) \<Longrightarrow> sorted (map fst (ins_pair d r xs))"
proof (induction xs)
  case Nil
  then show ?case by (simp add: ins_pair_def)
next
  case (Cons x xs)
  show ?case
  proof (cases "fst x \<le> d")
    case True
    then have "ins_pair d r (x # xs) = x # ins_pair d r xs" by (simp add: ins_pair_def)
    with Cons True show ?thesis by auto
  next
    case False
    then have "ins_pair d r (x # xs) = (d, r) # x # xs" by (simp add: ins_pair_def)
    with Cons.prems False show ?thesis by auto
  qed
qed

lemma orderedD:
  assumes "ordered (Node a l d r b rt)"
  shows "ordered l" "ordered rt" "p \<in> set (inorder l) \<Longrightarrow> fst p \<le> d"
    "p \<in> set (inorder rt) \<Longrightarrow> d \<le> fst p"
  using assms by (auto simp: ordered_def sorted_append)

lemma add_to_tree_inorder:
  "add_to_tree new t d r = Some (t', grew) \<Longrightarrow> ordered t \<Longrightarrow>
     inorder t' = ins_pair d r (inorder t)"
proof (induction new t d r arbitrary: t' grew rule: add_to_tree.induct)
  case (1 new d r)
  then show ?case by (auto simp: ins_pair_def)
next
  case (2 new a l td tr b rt d r)
  note ord = orderedD [OF "2.prems"(2)]
  show ?case
  proof (cases "comp d td")
    case True
    with "2.prems" obtain l' g where l': "add_to_tree new l d r = Some (l', g)"
      and t': "inorder t' = inorder l' @ (td, tr) # inorder rt"
      by (auto simp: bind_Some_iff dest: add_fixup_seq)
    from True l' ord(1) have "inorder l' = ins_pair d r (inorder l)" by (rule "2.IH"(1))
    with t' True show ?thesis by (simp add: ins_pair_left comp_def)
  next
    case False
    with "2.prems" obtain rt' g where r': "add_to_tree new rt d r = Some (rt', g)"
      and t': "inorder t' = inorder l @ (td, tr) # inorder rt'"
      by (auto simp: bind_Some_iff dest: add_fixup_seq)
    from False r' ord(2) have "inorder rt' = ins_pair d r (inorder rt)" by (rule "2.IH"(2))
    moreover from False have "td \<le> d" by (simp add: comp_def)
    moreover from this ord(3) have "\<forall>p \<in> set (inorder l). fst p \<le> d" by force
    ultimately show ?thesis using t' by (simp add: ins_pair_right)
  qed
qed

lemma add_to_tree_addrs:
  "add_to_tree new t d r = Some (t', grew) \<Longrightarrow> mset (addrs t') = add_mset new (mset (addrs t))"
  by (induction new t d r arbitrary: t' grew rule: add_to_tree.induct)
    (auto simp: bind_Some_iff split: if_splits dest!: add_fixup_seq)

section \<open>Removing keeps the invariant\<close>

lemma remove_fixup_ok:
  assumes "nearly_balanced t" "taller \<Longrightarrow> \<bar>balance t\<bar> \<le> 1"
    and "h = tree_height_of t + of_bool (taller \<and> balance t = 0)"
  shows "\<exists>t' s. remove_fixup taller t = Some (t', s) \<and> balanced t' \<and>
    inorder t' = inorder t \<and> addrs t' = addrs t \<and> h = tree_height_of t' + of_bool s"
proof (cases taller)
  case True
  with assms(2) have "balanced t" by (intro nearly_balanced_balanced assms(1)) auto
  with True assms(3) show ?thesis by (auto simp: remove_fixup_def)
next
  case False
  from keep_node_balanced_ok [OF assms(1)] obtain t' s where "keep_node_balanced t = Some (t', s)"
    "balanced t'" "inorder t' = inorder t" "addrs t' = addrs t"
    "tree_height_of t = tree_height_of t' + of_bool s" by metis
  with False assms(3) show ?thesis by (auto simp: remove_fixup_def)
qed

text \<open>Where the subtree became shorter, the two branches of the code are \<open>remove_fixup\<close>.\<close>

lemma remove_biggest_step:
  "rt \<noteq> Null \<Longrightarrow> remove_biggest_element_in_tree rt = Some (rt', p, True) \<Longrightarrow>
     remove_fixup (b = 1) (Node a l d r (b - 1) rt') = Some (t', s) \<Longrightarrow>
     remove_biggest_element_in_tree (Node a l d r b rt) = Some (t', p, s)"
  by (auto simp: remove_fixup_def split: if_splits)

lemma remove_least_step:
  "l \<noteq> Null \<Longrightarrow> remove_least_element_in_tree l = Some (l', p, True) \<Longrightarrow>
     remove_fixup (b = -1) (Node a l' d r (b + 1) rt) = Some (t', s) \<Longrightarrow>
     remove_least_element_in_tree (Node a l d r b rt) = Some (t', p, s)"
  by (auto simp: remove_fixup_def split: if_splits)

lemma remove_root_step:
  "\<not> (l = Null \<or> rt = Null) \<Longrightarrow> remove_least_element_in_tree rt = Some (rt', (d', r'), True) \<Longrightarrow>
     remove_fixup (b = 1) (Node a l d' r' (b - 1) rt') = Some (t', s) \<Longrightarrow>
     remove_root (Node a l d r b rt) = Some (t', s)"
  by (auto simp: remove_root_def remove_fixup_def split: if_splits)

lemma remove_least_node_ok:
  "balanced t \<Longrightarrow> t \<noteq> Null \<Longrightarrow> \<exists>t' p s. remove_least_element_in_tree t = Some (t', p, s) \<and>
     balanced t' \<and> inorder t = p # inorder t' \<and> addrs t' = tl (addrs t) \<and>
     tree_height_of t = tree_height_of t' + of_bool s"
proof (induction t)
  case Null
  then show ?case by simp
next
  case (Node a l d r b rt)
  show ?case
  proof (cases "l = Null")
    case True
    with Node.prems show ?thesis by (auto simp: height_diff_def)
  next
    case False
    with Node obtain l' p s where l': "remove_least_element_in_tree l = Some (l', p, s)"
      "balanced l'" "inorder l = p # inorder l'" "addrs l' = tl (addrs l)"
      "tree_height_of l = tree_height_of l' + of_bool s" by auto
    have tl: "tl (addrs l @ xs) = tl (addrs l) @ xs" for xs
      using False addrs_length [of l] by (cases "addrs l") auto
    show ?thesis
    proof (cases s)
      case False
      with l' Node.prems \<open>l \<noteq> Null\<close> tl show ?thesis by (auto simp: height_diff_def)
    next
      case True
      let ?t = "Node a l' d r (b + 1) rt"
      have "\<exists>t' s. remove_fixup (b = -1) ?t = Some (t', s) \<and> balanced t' \<and>
        inorder t' = inorder ?t \<and> addrs t' = addrs ?t \<and>
        tree_height_of (Node a l d r b rt) = tree_height_of t' + of_bool s"
        by (rule remove_fixup_ok) (use l' True Node.prems in \<open>auto simp: height_diff_def\<close>)
      then obtain t' s' where t': "remove_fixup (b = -1) ?t = Some (t', s')" "balanced t'"
        "inorder t' = inorder ?t" "addrs t' = addrs ?t"
        "tree_height_of (Node a l d r b rt) = tree_height_of t' + of_bool s'" by blast
      have "remove_least_element_in_tree (Node a l d r b rt) = Some (t', p, s')"
        using \<open>l \<noteq> Null\<close> l'(1) True t'(1) by (intro remove_least_step) simp_all
      with t' l' tl show ?thesis by auto
    qed
  qed
qed

lemma remove_biggest_node_ok:
  "balanced t \<Longrightarrow> t \<noteq> Null \<Longrightarrow> \<exists>t' p s. remove_biggest_element_in_tree t = Some (t', p, s) \<and>
     balanced t' \<and> inorder t = inorder t' @ [p] \<and> addrs t' = butlast (addrs t) \<and>
     tree_height_of t = tree_height_of t' + of_bool s"
proof (induction t)
  case Null
  then show ?case by simp
next
  case (Node a l d r b rt)
  show ?case
  proof (cases "rt = Null")
    case True
    with Node.prems show ?thesis by (auto simp: height_diff_def butlast_append)
  next
    case False
    with Node obtain rt' p s where r': "remove_biggest_element_in_tree rt = Some (rt', p, s)"
      "balanced rt'" "inorder rt = inorder rt' @ [p]" "addrs rt' = butlast (addrs rt)"
      "tree_height_of rt = tree_height_of rt' + of_bool s" by auto
    have bl: "butlast (xs @ a # addrs rt) = xs @ a # butlast (addrs rt)" for xs
      using False addrs_length [of rt] by (cases "addrs rt") (auto simp: butlast_append)
    show ?thesis
    proof (cases s)
      case False
      with r' Node.prems \<open>rt \<noteq> Null\<close> bl show ?thesis by (auto simp: height_diff_def)
    next
      case True
      let ?t = "Node a l d r (b - 1) rt'"
      have "\<exists>t' s. remove_fixup (b = 1) ?t = Some (t', s) \<and> balanced t' \<and>
        inorder t' = inorder ?t \<and> addrs t' = addrs ?t \<and>
        tree_height_of (Node a l d r b rt) = tree_height_of t' + of_bool s"
        by (rule remove_fixup_ok) (use r' True Node.prems in \<open>auto simp: height_diff_def\<close>)
      then obtain t' s' where t': "remove_fixup (b = 1) ?t = Some (t', s')" "balanced t'"
        "inorder t' = inorder ?t" "addrs t' = addrs ?t"
        "tree_height_of (Node a l d r b rt) = tree_height_of t' + of_bool s'" by blast
      have "remove_biggest_element_in_tree (Node a l d r b rt) = Some (t', p, s')"
        using \<open>rt \<noteq> Null\<close> r'(1) True t'(1) by (intro remove_biggest_step) simp_all
      with t' r' bl show ?thesis by auto
    qed
  qed
qed

text \<open>
  Removing at a node takes the node's own pair out of the sequence; one address leaves the tree,
  the node's own or that of the least node of its right subtree.
\<close>

lemma remove_root_ok:
  assumes "balanced (Node a l d r b rt)"
  shows "\<exists>t' s. remove_root (Node a l d r b rt) = Some (t', s) \<and> balanced t' \<and>
    inorder t' = inorder l @ inorder rt \<and>
    addrs t' = addrs l @ (if l = Null \<or> rt = Null then addrs rt else a # tl (addrs rt)) \<and>
    tree_height_of (Node a l d r b rt) = tree_height_of t' + of_bool s"
proof (cases "l = Null \<or> rt = Null")
  case True
  with assms show ?thesis by (auto simp: remove_root_def height_diff_def)
next
  case False
  with assms remove_least_node_ok [of rt] obtain rt' p s where r':
    "remove_least_element_in_tree rt = Some (rt', p, s)" "balanced rt'" "inorder rt = p # inorder rt'"
    "addrs rt' = tl (addrs rt)" "tree_height_of rt = tree_height_of rt' + of_bool s" by auto
  obtain d' r' where p: "p = (d', r')" by (cases p)
  show ?thesis
  proof (cases s)
    case s: False
    with r' p assms False show ?thesis
      by (auto simp: remove_root_def height_diff_def)
  next
    case True
    let ?t = "Node a l d' r' (b - 1) rt'"
    have "\<exists>t' s. remove_fixup (b = 1) ?t = Some (t', s) \<and> balanced t' \<and>
        inorder t' = inorder ?t \<and> addrs t' = addrs ?t \<and>
        tree_height_of (Node a l d r b rt) = tree_height_of t' + of_bool s"
      by (rule remove_fixup_ok) (use r' True assms in \<open>auto simp: height_diff_def\<close>)
    then obtain t' s' where t': "remove_fixup (b = 1) ?t = Some (t', s')" "balanced t'"
      "inorder t' = inorder ?t" "addrs t' = addrs ?t"
      "tree_height_of (Node a l d r b rt) = tree_height_of t' + of_bool s'" by blast
    have "remove_root (Node a l d r b rt) = Some (t', s')"
      using False t'(1) by (intro remove_root_step) (use r'(1) True p in simp_all)
    with t' r' p False show ?thesis by auto
  qed
qed

text \<open>
  \<open>removed p t t'\<close>: \<open>t'\<close> holds the sequence of \<open>t\<close> with the pair \<open>p\<close> taken out at one
  place, and one node less.
\<close>

definition removed :: "'d \<times> 'r \<Rightarrow> ('d, 'r) node \<Rightarrow> ('d, 'r) node \<Rightarrow> bool" where
  "removed p t t' \<longleftrightarrow>
     (\<exists>xs ys. inorder t = xs @ p # ys \<and> inorder t' = xs @ ys) \<and>
     (\<exists>as x bs. addrs t = as @ x # bs \<and> addrs t' = as @ bs)"

lemma removed_left:
  assumes "removed p l l'" "inorder t' = inorder l' @ q # inorder rt"
    and "addrs t' = addrs l' @ a # addrs rt"
  shows "removed p (Node a l (fst q) (snd q) b rt) t'"
proof -
  from assms(1) obtain xs ys as x bs where *: "inorder l = xs @ p # ys" "inorder l' = xs @ ys"
    "addrs l = as @ x # bs" "addrs l' = as @ bs" by (auto simp: removed_def)
  have "inorder (Node a l (fst q) (snd q) b rt) = xs @ p # (ys @ q # inorder rt)"
    "inorder t' = xs @ (ys @ q # inorder rt)"
    "addrs (Node a l (fst q) (snd q) b rt) = as @ x # (bs @ a # addrs rt)"
    "addrs t' = as @ (bs @ a # addrs rt)"
    using * assms by simp_all
  then show ?thesis unfolding removed_def by blast
qed

lemma removed_right:
  assumes "removed p rt rt'" "inorder t' = inorder l @ q # inorder rt'"
    and "addrs t' = addrs l @ a # addrs rt'"
  shows "removed p (Node a l (fst q) (snd q) b rt) t'"
proof -
  from assms(1) obtain xs ys as x bs where *: "inorder rt = xs @ p # ys" "inorder rt' = xs @ ys"
    "addrs rt = as @ x # bs" "addrs rt' = as @ bs" by (auto simp: removed_def)
  have "inorder (Node a l (fst q) (snd q) b rt) = (inorder l @ q # xs) @ p # ys"
    "inorder t' = (inorder l @ q # xs) @ ys"
    "addrs (Node a l (fst q) (snd q) b rt) = (addrs l @ a # as) @ x # bs"
    "addrs t' = (addrs l @ a # as) @ bs"
    using * assms by simp_all
  then show ?thesis unfolding removed_def by blast
qed

lemma removed_root:
  assumes "inorder t' = inorder l @ inorder rt"
    and "addrs t' = addrs l @ (if l = Null \<or> rt = Null then addrs rt else a # tl (addrs rt))"
  shows "removed (d, r) (Node a l d r b rt) t'"
proof -
  have "\<exists>as x bs. addrs (Node a l d r b rt) = as @ x # bs \<and> addrs t' = as @ bs"
  proof (cases "l = Null \<or> rt = Null")
    case False
    with assms(2) have "addrs t' = addrs l @ a # tl (addrs rt)" "rt \<noteq> Null" by simp_all
    moreover from this obtain x bs where "addrs rt = x # bs"
      using addrs_length [of rt] by (cases "addrs rt") auto
    ultimately have "addrs (Node a l d r b rt) = (addrs l @ [a]) @ x # bs"
      "addrs t' = (addrs l @ [a]) @ bs" by simp_all
    then show ?thesis by blast
  qed (use assms(2) in auto)
  with assms(1) show ?thesis by (auto simp: removed_def)
qed

lemma removedD:
  assumes "removed p t t'"
  shows "mset (inorder t) = add_mset p (mset (inorder t'))" "ordered t \<Longrightarrow> ordered t'"
    "length (inorder t) = Suc (length (inorder t'))"
    "distinct (addrs t) \<Longrightarrow> distinct (addrs t')" "set (addrs t') \<subseteq> set (addrs t)"
  using assms by (auto simp: removed_def ordered_def sorted_append)

lemma remove_from_tree_ok:
  "balanced t \<Longrightarrow> ordered t \<Longrightarrow> d \<in> fst ` set (inorder t) \<Longrightarrow>
     \<exists>t' p s. remove_from_tree t d = Some (t', p, s) \<and> balanced t' \<and> fst p = d \<and>
       removed p t t' \<and> tree_height_of t = tree_height_of t' + of_bool s"
proof (induction t d rule: remove_from_tree.induct)
  case (1 d)
  then show ?case by simp
next
  case (2 a l td tr b rt d)
  note ord = orderedD [OF "2.prems"(2)]
  consider "comp d td" | "\<not> comp d td" "comp td d" | "d = td" by (force simp: comp_def)
  then show ?case
  proof cases
    case 1
    with "2.prems"(3) ord(4) have "d \<in> fst ` set (inorder l)" by (force simp: comp_def)
    with 1 "2.IH"(1) "2.prems" ord(1) obtain l' p s where l':
      "remove_from_tree l d = Some (l', p, s)" "balanced l'" "fst p = d" "removed p l l'"
      "tree_height_of l = tree_height_of l' + of_bool s" by auto
    let ?t = "Node a l' td tr (b + of_bool s) rt"
    have "\<exists>t' s'. remove_fixup (b = -1) ?t = Some (t', s') \<and> balanced t' \<and>
      inorder t' = inorder ?t \<and> addrs t' = addrs ?t \<and>
      tree_height_of (Node a l td tr b rt) = tree_height_of t' + of_bool s'"
      by (rule remove_fixup_ok) (cases s; use l' "2.prems"(1) in \<open>auto simp: height_diff_def\<close>)+
    with 1 l' removed_left [OF l'(4), of _ "(td, tr)"] show ?thesis by fastforce
  next
    case 2
    with "2.prems"(3) ord(3) have "d \<in> fst ` set (inorder rt)" by (force simp: comp_def)
    with 2 "2.IH"(2) "2.prems" ord(2) obtain rt' p s where r':
      "remove_from_tree rt d = Some (rt', p, s)" "balanced rt'" "fst p = d" "removed p rt rt'"
      "tree_height_of rt = tree_height_of rt' + of_bool s" by auto
    let ?t = "Node a l td tr (b - of_bool s) rt'"
    have "\<exists>t' s'. remove_fixup (b = 1) ?t = Some (t', s') \<and> balanced t' \<and>
      inorder t' = inorder ?t \<and> addrs t' = addrs ?t \<and>
      tree_height_of (Node a l td tr b rt) = tree_height_of t' + of_bool s'"
      by (rule remove_fixup_ok) (cases s; use r' "2.prems"(1) in \<open>auto simp: height_diff_def\<close>)+
    with 2 r' removed_right [OF r'(4), of _ l "(td, tr)"] show ?thesis by fastforce
  next
    case 3
    from remove_root_ok [OF "2.prems"(1)] obtain t' s where
      "remove_root (Node a l td tr b rt) = Some (t', s)" "balanced t'"
      "removed (td, tr) (Node a l td tr b rt) t'"
      "tree_height_of (Node a l td tr b rt) = tree_height_of t' + of_bool s"
      by (metis removed_root)
    with 3 show ?thesis by (auto simp: comp_def)
  qed
qed

text \<open>The two overloads do the same to the tree.\<close>

lemma remove_from_tree_item_eq:
  "remove_from_tree_item t d = map_option (\<lambda>(t', p, s). (t', s)) (remove_from_tree t d)"
  by (induction t d rule: remove_from_tree_item.induct)
    (auto split: bind_splits)

section \<open>Searching an ordered tree\<close>

lemma return_reference_None:
  "ordered t \<Longrightarrow> return_reference t d = None \<longleftrightarrow> d \<notin> fst ` set (inorder t)"
  by (induction t d rule: return_reference.induct)
    (auto simp: comp_def dest: orderedD)

lemma return_reference_Some:
  "return_reference t d = Some r \<Longrightarrow> (d, r) \<in> set (inorder t)"
  by (induction t d rule: return_reference.induct) (auto simp: comp_def split: if_splits)

lemma get_count_eq:
  "ordered t \<Longrightarrow> get_count d t = count (mset (map fst (inorder t))) d"
proof (induction d t rule: get_count.induct)
  case (2 d a l td tr b rt)
  note ord = orderedD [OF "2.prems"]
  have "d < td \<Longrightarrow> count (mset (map fst (inorder rt))) d = 0"
    "td < d \<Longrightarrow> count (mset (map fst (inorder l))) d = 0"
    using ord(3,4) by (force simp: count_eq_zero_iff)+
  with 2 ord(1,2) show ?case by (auto simp: comp_def)
qed simp

section \<open>The height of a balanced tree\<close>

text \<open>The least number of nodes of a balanced tree of a given height.\<close>

fun min_nodes :: "nat \<Rightarrow> nat" where
  "min_nodes 0 = 0"
| "min_nodes (Suc 0) = 1"
| "min_nodes (Suc (Suc h)) = 1 + min_nodes (Suc h) + min_nodes h"

lemma min_nodes_mono_Suc: "min_nodes h \<le> min_nodes (Suc h)"
  by (induction h rule: min_nodes.induct) auto

lemma min_nodes_mono: "h \<le> k \<Longrightarrow> min_nodes h \<le> min_nodes k"
  by (rule lift_Suc_mono_le) (rule min_nodes_mono_Suc)

lemma min_nodes_split:
  assumes "h = Suc (max i j)" "i \<le> Suc j" "j \<le> Suc i"
  shows "min_nodes h \<le> 1 + min_nodes i + min_nodes j"
proof (cases "max i j")
  case 0
  with assms(1) show ?thesis by simp
next
  case (Suc k)
  with assms have "i = Suc k \<and> k \<le> j \<or> j = Suc k \<and> k \<le> i" by (auto simp: max_def split: if_splits)
  then have "min_nodes (Suc k) + min_nodes k \<le> min_nodes i + min_nodes j"
    using min_nodes_mono [of k j] min_nodes_mono [of k i] by (elim disjE conjE) simp_all
  with Suc assms(1) show ?thesis by simp
qed

lemma balanced_min_nodes: "balanced t \<Longrightarrow> min_nodes (tree_height_of t) \<le> length (inorder t)"
proof (induction t)
  case (Node a l d r b rt)
  from Node.prems have "min_nodes (tree_height_of (Node a l d r b rt)) \<le>
      1 + min_nodes (tree_height_of l) + min_nodes (tree_height_of rt)"
    by (intro min_nodes_split) (auto simp: height_diff_def)
  with Node show ?case by auto
qed simp

fun min_nodes_iter :: "nat \<Rightarrow> nat \<Rightarrow> nat \<Rightarrow> nat" where
  "min_nodes_iter 0 x y = x"
| "min_nodes_iter (Suc n) x y = min_nodes_iter n y (1 + y + x)"

lemma min_nodes_iter_numeral:
  "min_nodes_iter (numeral k) x y = min_nodes_iter (pred_numeral k) y (1 + y + x)"
  by (simp add: numeral_eq_Suc)

lemma min_nodes_iter_1: "min_nodes_iter 1 x y = y"
  by simp

lemma min_nodes_iter: "min_nodes_iter n (min_nodes k) (min_nodes (Suc k)) = min_nodes (n + k)"
proof (induction n arbitrary: k)
  case (Suc n)
  from Suc [of "Suc k"] show ?case by (simp add: add.commute)
qed simp

declare min_nodes.simps(3) [simp del]

lemma min_nodes_52: "2 ^ 36 \<le> min_nodes 52"
proof -
  have "min_nodes 52 = min_nodes_iter 52 0 1"
    using min_nodes_iter [of 52 0] by (simp only: min_nodes.simps(1,2) add_0_right One_nat_def)
  moreover have "(2::nat) ^ 36 \<le> min_nodes_iter 52 0 1"
    by (simp add: min_nodes_iter_numeral min_nodes_iter_1 del: One_nat_def)
  ultimately show ?thesis by (simp only:)
qed

lemma balanced_height_bound:
  assumes "balanced t" "length (inorder t) < 2 ^ 36"
  shows "tree_height_of t \<le> 51"
proof (rule ccontr)
  assume "\<not> tree_height_of t \<le> 51"
  then have "min_nodes 52 \<le> min_nodes (tree_height_of t)" by (intro min_nodes_mono) simp
  with min_nodes_52 balanced_min_nodes [OF assms(1)] assms(2) show False by linarith
qed

text \<open>One level less for the loop that also pushes a leaf.\<close>

lemma min_nodes_51: "2 ^ 35 \<le> min_nodes 51"
proof -
  have "min_nodes 51 = min_nodes_iter 51 0 1"
    using min_nodes_iter [of 51 0] by (simp only: min_nodes.simps(1,2) add_0_right One_nat_def)
  moreover have "(2::nat) ^ 35 \<le> min_nodes_iter 51 0 1"
    by (simp add: min_nodes_iter_numeral min_nodes_iter_1 del: One_nat_def)
  ultimately show ?thesis by (simp only:)
qed

lemma balanced_height_bound_50:
  assumes "balanced t" "length (inorder t) < 2 ^ 35"
  shows "tree_height_of t \<le> 50"
proof (rule ccontr)
  assume "\<not> tree_height_of t \<le> 50"
  then have "min_nodes 51 \<le> min_nodes (tree_height_of t)" by (intro min_nodes_mono) simp
  with min_nodes_51 balanced_min_nodes [OF assms(1)] assms(2) show False by linarith
qed

end
