(* ===== verification/Bst_Object.thy ===== *)
theory Bst_Object
  imports Bst_Kernel_1
begin

text \<open>
  The object of \<open>binary_search_tree_kernel_1.h\<close>: its data members, the public operations
  and the enumerator, which keeps the parents of the current node on an explicit stack of
  fifty pointers. Lemmas: the class convention holds initially and is kept by every operation,
  no operation dereferences a null pointer, and the enumerator visits the pairs in key order.
\<close>

section \<open>Data members\<close>

text \<open>
  \<open>pool\<close> is the next address \<open>pool.allocate()\<close> returns; \<open>current_element\<close> is a node pointer,
  \<open>None\<close> for null. \<open>stack\<close> is the array of 50 node pointers of the constructor.
\<close>

record ('d, 'r) bst =
  tree_size :: nat
  tree_root :: "('d, 'r) node"
  current_element :: "nat option"
  pool :: nat
  tree_height :: int
  at_start :: bool
  stack_pos :: nat
  stack :: "nat list"

definition binary_search_tree_kernel_1 :: "('d, 'r) bst" where
  "binary_search_tree_kernel_1 =
     \<lparr>tree_size = 0, tree_root = Null, current_element = None, pool = 0, tree_height = 0,
      at_start = True, stack_pos = 0, stack = replicate 50 0\<rparr>"

definition bst_reset :: "('d, 'r) bst \<Rightarrow> ('d, 'r) bst" where
  "bst_reset s = s\<lparr>at_start := True, current_element := None, stack_pos := 0\<rparr>"

text \<open>\<open>delete_tree\<close> as the list of addresses it deallocates, in its order.\<close>

fun delete_tree :: "('d, 'r) node \<Rightarrow> nat list option" where
  "delete_tree Null = None"
| "delete_tree (Node a l d r b rt) = do {
     xs \<leftarrow> (if l \<noteq> Null then delete_tree l else Some []);
     ys \<leftarrow> (if rt \<noteq> Null then delete_tree rt else Some []);
     Some (xs @ ys @ [a]) }"

definition bst_clear :: "('d, 'r) bst \<Rightarrow> ('d, 'r) bst option" where
  "bst_clear s = do {
     s \<leftarrow> (if tree_size s > 0
            then do { _ \<leftarrow> delete_tree (tree_root s);
                      Some (s\<lparr>tree_root := Null, tree_size := 0, tree_height := 0\<rparr>) }
            else Some s);
     Some (bst_reset s) }"

definition bst_count :: "('d::linorder, 'r) bst \<Rightarrow> 'd \<Rightarrow> nat" where
  "bst_count s item = get_count item (tree_root s)"

definition bst_add :: "('d::linorder, 'r) bst \<Rightarrow> 'd \<Rightarrow> 'r \<Rightarrow> ('d, 'r) bst option" where
  "bst_add s d r = do {
     (t, grew) \<leftarrow> add_to_tree (pool s) (tree_root s) d r;
     Some (bst_reset (s\<lparr>pool := Suc (pool s), tree_root := t,
       tree_height := tree_height s + of_bool grew, tree_size := tree_size s + 1\<rparr>)) }"

text \<open>The removals share what they do with the result of the recursive routine.\<close>

definition after_removal :: "('d, 'r) bst \<Rightarrow> ('d, 'r) node \<Rightarrow> bool \<Rightarrow> ('d, 'r) bst" where
  "after_removal s t shrunk =
     s\<lparr>tree_root := t, tree_height := tree_height s - of_bool shrunk, tree_size := tree_size s - 1\<rparr>"

definition bst_remove :: "('d::linorder, 'r) bst \<Rightarrow> 'd \<Rightarrow> (('d, 'r) bst \<times> 'd \<times> 'r) option" where
  "bst_remove s d = do {
     (t, p, shrunk) \<leftarrow> remove_from_tree (tree_root s) d;
     Some (bst_reset (after_removal s t shrunk), p) }"

definition bst_destroy :: "('d::linorder, 'r) bst \<Rightarrow> 'd \<Rightarrow> ('d, 'r) bst option" where
  "bst_destroy s item = do {
     (t, shrunk) \<leftarrow> remove_from_tree_item (tree_root s) item;
     Some (bst_reset (after_removal s t shrunk)) }"

definition bst_remove_any :: "('d, 'r) bst \<Rightarrow> (('d, 'r) bst \<times> 'd \<times> 'r) option" where
  "bst_remove_any s = do {
     (t, p, shrunk) \<leftarrow> remove_least_element_in_tree (tree_root s);
     Some (bst_reset (after_removal s t shrunk), p) }"

definition bst_remove_last_in_order :: "('d, 'r) bst \<Rightarrow> (('d, 'r) bst \<times> 'd \<times> 'r) option" where
  "bst_remove_last_in_order s = do {
     (t, p, shrunk) \<leftarrow> remove_biggest_element_in_tree (tree_root s);
     Some (bst_reset (after_removal s t shrunk), p) }"

definition bst_index :: "('d::linorder, 'r) bst \<Rightarrow> 'd \<Rightarrow> 'r option" where
  "bst_index s item = return_reference (tree_root s) item"

definition bst_swap :: "('d, 'r) bst \<Rightarrow> ('d, 'r) bst \<Rightarrow> ('d, 'r) bst \<times> ('d, 'r) bst" where
  "bst_swap s item = (item, s)"

section \<open>The enumerator\<close>

text \<open>Reading through a node pointer, and the pointer to a subtree.\<close>

fun deref :: "nat \<Rightarrow> ('d, 'r) node \<Rightarrow> ('d, 'r) node option" where
  "deref a Null = None"
| "deref a (Node b l d r bal rt) =
     (if a = b then Some (Node b l d r bal rt)
      else case deref a l of Some n \<Rightarrow> Some n | None \<Rightarrow> deref a rt)"

definition node_ptr :: "('d, 'r) node \<Rightarrow> nat option" where
  "node_ptr t = (case t of Null \<Rightarrow> None | Node a l d r b rt \<Rightarrow> Some a)"

text \<open>\<open>bst_push\<close> and \<open>bst_pop\<close>; an access outside the array is \<open>None\<close>.\<close>

definition bst_push :: "nat \<Rightarrow> ('d, 'r) bst \<Rightarrow> ('d, 'r) bst option" where
  "bst_push n s = (if stack_pos s < length (stack s)
     then Some (s\<lparr>stack := (stack s)[stack_pos s := n], stack_pos := stack_pos s + 1\<rparr>)
     else None)"

definition bst_pop :: "('d, 'r) bst \<Rightarrow> (nat \<times> ('d, 'r) bst) option" where
  "bst_pop s = (if 0 < stack_pos s \<and> stack_pos s \<le> length (stack s)
     then Some (stack s ! (stack_pos s - 1), s\<lparr>stack_pos := stack_pos s - 1\<rparr>)
     else None)"

definition bst_current_element_valid :: "('d, 'r) bst \<Rightarrow> bool" where
  "bst_current_element_valid s \<longleftrightarrow> current_element s \<noteq> None"

definition bst_element :: "('d, 'r) bst \<Rightarrow> ('d \<times> 'r) option" where
  "bst_element s = do {
     a \<leftarrow> current_element s;
     n \<leftarrow> deref a (tree_root s);
     Some (node_d n, node_r n) }"

text \<open>
  The loops of \<open>bst_move_next\<close>. \<open>descend_left\<close> goes from a node to the leftmost node below it,
  pushing every node it leaves; \<open>climb\<close> goes up until it comes from a left child or leaves
  the root, and returns whether it found a node.
\<close>

fun descend_left :: "('d, 'r) node \<Rightarrow> ('d, 'r) bst \<Rightarrow> ('d, 'r) bst option" where
  "descend_left Null s = None"
| "descend_left (Node a l d r b rt) s =
     (if l = Null then Some (s\<lparr>current_element := Some a\<rparr>)
      else do { s \<leftarrow> bst_push a s; descend_left l s })"

function climb :: "bool \<Rightarrow> ('d, 'r) bst \<Rightarrow> (('d, 'r) bst \<times> bool) option" where
  "climb from_left s =
     (if from_left then Some (s, True)
      else if current_element s = node_ptr (tree_root s)
      then Some (s\<lparr>current_element := None\<rparr>, False)
      else case bst_pop s of None \<Rightarrow> None
        | Some (parent, s1) \<Rightarrow>
            (case deref parent (tree_root s) of None \<Rightarrow> None
             | Some n \<Rightarrow> climb (node_ptr (left n) = current_element s)
                           (s1\<lparr>current_element := Some parent\<rparr>)))"
  by pat_completeness auto
termination
  by (relation "measure (\<lambda>(_, s). stack_pos s)") (auto simp: bst_pop_def split: if_splits)

declare climb.simps [simp del]

definition bst_move_next :: "('d, 'r) bst \<Rightarrow> (('d, 'r) bst \<times> bool) option" where
  "bst_move_next s =
     (if at_start s then
        (let s = s\<lparr>at_start := False\<rparr>
         in if tree_size s = 0 then Some (s, False)
            else do { s \<leftarrow> descend_left (tree_root s) s; Some (s, True) })
      else case current_element s of
        None \<Rightarrow> Some (s, False)
      | Some a \<Rightarrow> do {
          n \<leftarrow> deref a (tree_root s);
          (if right n \<noteq> Null
           then do { s \<leftarrow> bst_push a s; s \<leftarrow> descend_left (right n) s; Some (s, True) }
           else climb False s) })"

text \<open>
  \<open>bst_position_enumerator\<close>: the search loop, which stops at a node with the key or falls off
  the tree, then the step back to the node after the place where it fell off.
\<close>

fun search_push ::
  "('d::linorder, 'r) node \<Rightarrow> 'd \<Rightarrow> bool \<Rightarrow> ('d, 'r) bst \<Rightarrow> (('d, 'r) bst \<times> bool \<times> bool) option" where
  "search_push Null d went_left s = Some (s, False, went_left)"
| "search_push (Node a l td tr b rt) d went_left s =
     (if comp d td then do { s \<leftarrow> bst_push a s; search_push l d True s }
      else if comp td d then do { s \<leftarrow> bst_push a s; search_push rt d False s }
      else Some (s\<lparr>current_element := Some a\<rparr>, True, went_left))"

definition bst_position_enumerator :: "('d::linorder, 'r) bst \<Rightarrow> 'd \<Rightarrow> ('d, 'r) bst option" where
  "bst_position_enumerator s d = do {
     let s = (bst_reset s)\<lparr>at_start := False\<rparr>;
     (s, found, went_left) \<leftarrow> search_push (tree_root s) d False s;
     (if found then Some s
      else if stack_pos s > 0 then do {
        (a, s) \<leftarrow> bst_pop s;
        let s = s\<lparr>current_element := Some a\<rparr>;
        (if went_left then Some s
         else do { (s, _) \<leftarrow> bst_move_next s; Some s }) }
      else Some s) }"

section \<open>Removing the element the enumerator is at\<close>

text \<open>
  \<open>remove_current_element_from_tree\<close> finds its way down by the parents on the stack, takes the
  node out and moves the enumerator on; the tree the enumerator walks is still the old one.
\<close>

definition on_path :: "('d, 'r) bst \<Rightarrow> nat \<Rightarrow> ('d, 'r) node \<Rightarrow> bool" where
  "on_path s cur_stack_pos t \<longleftrightarrow>
     cur_stack_pos < stack_pos s \<and> Some (stack s ! cur_stack_pos) = node_ptr t \<or>
     node_ptr t = current_element s"

fun remove_current_element_from_tree ::
  "('d, 'r) node \<Rightarrow> nat \<Rightarrow> ('d, 'r) bst \<Rightarrow> (('d, 'r) node \<times> ('d \<times> 'r) \<times> bool \<times> ('d, 'r) bst) option" where
  "remove_current_element_from_tree Null pos s = None"
| "remove_current_element_from_tree (Node a l d r b rt) pos s =
     (if current_element s = Some a then do {
        s \<leftarrow> (if l = Null \<or> rt = Null
               then do { (s, _) \<leftarrow> bst_move_next s; Some s }
               else Some (s\<lparr>current_element := Some a\<rparr>));
        (t', shrunk) \<leftarrow> remove_root (Node a l d r b rt);
        Some (t', (d, r), shrunk, s) }
      else if on_path s pos l then do {
        (l', p, shrunk, s) \<leftarrow> remove_current_element_from_tree l (pos + 1) s;
        (t', shrunk) \<leftarrow> remove_fixup (b = -1) (Node a l' d r (b + of_bool shrunk) rt);
        Some (t', p, shrunk, s) }
      else if on_path s pos rt then do {
        (rt', p, shrunk, s) \<leftarrow> remove_current_element_from_tree rt (pos + 1) s;
        (t', shrunk) \<leftarrow> remove_fixup (b = 1) (Node a l d r (b - of_bool shrunk) rt');
        Some (t', p, shrunk, s) }
      else Some (Node a l d r b rt, (d, r), False, s))"

definition set_stack :: "nat \<Rightarrow> nat \<Rightarrow> ('d, 'r) bst \<Rightarrow> ('d, 'r) bst option" where
  "set_stack depth a s =
     (if depth < length (stack s) then Some (s\<lparr>stack := (stack s)[depth := a]\<rparr>) else None)"

fun fix_stack ::
  "('d::linorder, 'r) node \<Rightarrow> nat \<Rightarrow> ('d, 'r) bst \<Rightarrow> (('d, 'r) bst \<times> bool) option" where
  "fix_stack Null depth s =
     (if current_element s = None then Some (s\<lparr>stack_pos := depth\<rparr>, True) else Some (s, False))"
| "fix_stack (Node a l d r b rt) depth s =
     (if current_element s = Some a then Some (s\<lparr>stack_pos := depth\<rparr>, True)
      else do {
        c \<leftarrow> current_element s;
        n \<leftarrow> deref c (tree_root s);
        (s, found) \<leftarrow> (if \<not> comp d (node_d n) then fix_stack l (depth + 1) s else Some (s, False));
        (if found then do { s \<leftarrow> set_stack depth a s; Some (s, True) }
         else do {
           (s, found) \<leftarrow> (if \<not> comp (node_d n) d then fix_stack rt (depth + 1) s else Some (s, False));
           (if found then do { s \<leftarrow> set_stack depth a s; Some (s, True) } else Some (s, False)) }) })"

definition bst_remove_current_element :: "('d::linorder, 'r) bst \<Rightarrow> (('d, 'r) bst \<times> 'd \<times> 'r) option" where
  "bst_remove_current_element s = do {
     (t, p, shrunk, s) \<leftarrow> remove_current_element_from_tree (tree_root s) 1 s;
     let s = after_removal s t shrunk;
     s \<leftarrow> (if current_element s \<noteq> None
           then do { (s, _) \<leftarrow> fix_stack (tree_root s) 0 s; Some s }
           else Some s);
     Some (s, p) }"

end
