(* ===== verification/Bst_Enum.thy ===== *)
theory Bst_Enum
  imports Bst_Object Pair_Container
begin

text \<open>
  The enumerator of the balanced tree. Where the current node is in the tree is a zipper: the
  subtree at the current node and the frames above it, whose addresses are what the explicit
  stack must hold. The loops of \<open>bst_move_next\<close> are shown to move it to the next node in order.
\<close>

section \<open>Frames\<close>

text \<open>One frame: the parent's fields and, for \<open>InLeft\<close>, its right subtree, for
  \<open>InRight\<close>, its left subtree.\<close>

datatype ('d, 'r) frame =
    InLeft (frame_addr: nat) 'd 'r int "('d, 'r) node"
  | InRight (frame_addr: nat) "('d, 'r) node" 'd 'r int

fun plug1 :: "('d, 'r) frame \<Rightarrow> ('d, 'r) node \<Rightarrow> ('d, 'r) node" where
  "plug1 (InLeft a d r b rt) t = Node a t d r b rt"
| "plug1 (InRight a l d r b) t = Node a l d r b t"

fun plug :: "('d, 'r) frame list \<Rightarrow> ('d, 'r) node \<Rightarrow> ('d, 'r) node" where
  "plug [] t = t"
| "plug (f # fs) t = plug fs (plug1 f t)"

fun lefts :: "('d, 'r) frame list \<Rightarrow> nat list" where
  "lefts [] = []"
| "lefts (InLeft a d r b rt # fs) = lefts fs"
| "lefts (InRight a l d r b # fs) = lefts fs @ addrs l @ [a]"

fun rights :: "('d, 'r) frame list \<Rightarrow> nat list" where
  "rights [] = []"
| "rights (InLeft a d r b rt # fs) = a # addrs rt @ rights fs"
| "rights (InRight a l d r b # fs) = rights fs"

lemma addrs_plug: "addrs (plug fs t) = lefts fs @ addrs t @ rights fs"
proof (induction fs arbitrary: t)
  case (Cons f fs)
  then show ?case by (cases f) simp_all
qed simp

lemma tree_height_plug: "length fs + tree_height_of t \<le> tree_height_of (plug fs t)"
proof (induction fs arbitrary: t)
  case (Cons f fs)
  have "length fs + tree_height_of (plug1 f t) \<le> tree_height_of (plug fs (plug1 f t))"
    by (rule Cons.IH)
  then show ?case by (cases f) auto
qed simp

lemma deref_None: "deref a t = None \<longleftrightarrow> a \<notin> set (addrs t)"
  by (induction t) (auto split: option.splits)

lemma deref_Some: "deref a t = Some n \<Longrightarrow> \<exists>l d r b rt. n = Node a l d r b rt"
  by (induction t) (auto split: if_splits option.splits)

lemma deref_in: "deref a t = Some n \<Longrightarrow> a \<in> set (addrs t)"
  using deref_None [of a t] by auto

lemma deref_root [simp]: "deref a (Node a l d r b rt) = Some (Node a l d r b rt)"
  by simp

lemma deref_plug:
  "distinct (addrs (plug fs t)) \<Longrightarrow> a \<in> set (addrs t) \<Longrightarrow> deref a (plug fs t) = deref a t"
proof (induction fs arbitrary: t)
  case (Cons f fs)
  from Cons.prems(1) have dist: "distinct (addrs (plug1 f t))"
    by (simp add: addrs_plug)
  have "deref a (plug fs (plug1 f t)) = deref a (plug1 f t)"
    using Cons by (cases f) auto
  moreover have "deref a (plug1 f t) = deref a t"
    using dist Cons.prems(2)
    by (cases f) (auto simp: deref_None disjoint_iff split: option.splits dest: deref_None [THEN iffD1]
      deref_in)
  ultimately show ?case by simp
qed simp

text \<open>The address of the root of a plugged tree belongs to the outermost frame.\<close>

lemma node_ptr_plug_neq:
  assumes "distinct (addrs (plug (f # fs) t))" "a \<in> set (addrs t)"
  shows "node_ptr (plug (f # fs) t) \<noteq> Some a"
proof -
  have "\<exists>b. node_ptr (plug (f # fs) t) = Some b \<and> b \<in> frame_addr ` set (f # fs)"
    for f :: "('d, 'r) frame" and fs t
  proof (induction fs arbitrary: f t)
    case Nil
    show ?case by (cases f) (auto simp: node_ptr_def)
  next
    case (Cons g fs)
    from Cons [of g "plug1 f t"] show ?case by auto
  qed
  then obtain b where b: "node_ptr (plug (f # fs) t) = Some b" "b \<in> frame_addr ` set (f # fs)"
    by blast
  have "frame_addr ` set fs \<subseteq> set (lefts fs @ rights fs)" for fs :: "('d, 'r) frame list"
  proof (induction fs)
    case (Cons g fs)
    then show ?case by (cases g) auto
  qed simp
  with b(2) have "b \<in> set (lefts (f # fs) @ rights (f # fs))" by blast
  moreover from assms(1) have "distinct (lefts (f # fs) @ addrs t @ rights (f # fs))"
    by (simp only: addrs_plug)
  ultimately have "b \<noteq> a" using assms(2)
    by (simp only: distinct_append set_append) blast
  with b(1) show ?thesis by simp
qed

lemma plug_ex:
  "a \<in> set (addrs t) \<Longrightarrow> \<exists>fs l d r b rt. t = plug fs (Node a l d r b rt)"
proof -
  have "a \<in> set (addrs t) \<Longrightarrow> \<exists>fs' l d r b rt. plug fs t = plug fs' (Node a l d r b rt)" for fs
  proof (induction t arbitrary: fs)
    case (Node c l d r b rt)
    consider "a = c" | "a \<in> set (addrs l)" | "a \<in> set (addrs rt)" using Node.prems by auto
    then show ?case
    proof cases
      case 2
      from Node.IH(1) [OF 2, of "InLeft c d r b rt # fs"] show ?thesis by simp
    next
      case 3
      from Node.IH(2) [OF 3, of "InRight c l d r b # fs"] show ?thesis by simp
    qed blast
  qed simp
  from this [of "[]"] show "a \<in> set (addrs t) \<Longrightarrow> ?thesis" by simp
qed

section \<open>The enumerator and the zipper\<close>

text \<open>
  \<open>stacked s fs t\<close>: the tree of \<open>s\<close> is \<open>t\<close> inside the frames \<open>fs\<close>, and the stack holds
  the frames' addresses, the root's at the bottom. \<open>at_node\<close> adds that \<open>t\<close> is the current
  node.
\<close>

definition stacked :: "('d, 'r) bst \<Rightarrow> ('d, 'r) frame list \<Rightarrow> ('d, 'r) node \<Rightarrow> bool" where
  "stacked s fs t \<longleftrightarrow> tree_root s = plug fs t \<and> stack_pos s = length fs \<and>
     take (length fs) (stack s) = rev (map frame_addr fs) \<and>
     length (stack s) = 50 \<and> distinct (addrs (tree_root s)) \<and>
     tree_height_of (tree_root s) \<le> 51"

definition at_node :: "('d, 'r) bst \<Rightarrow> ('d, 'r) frame list \<Rightarrow> ('d, 'r) node \<Rightarrow> bool" where
  "at_node s fs t \<longleftrightarrow> stacked s fs t \<and> current_element s = node_ptr t \<and> t \<noteq> Null \<and> \<not> at_start s"

lemma push_stacked:
  assumes "stacked s fs t" "t = plug1 f t'" "t' \<noteq> Null"
  shows "\<exists>s'. bst_push (frame_addr f) s = Some s' \<and> stacked s' (f # fs) t' \<and>
    at_start s' = at_start s \<and> tree_root s' = tree_root s \<and> tree_size s' = tree_size s"
proof -
  have "Suc (length fs) + tree_height_of t' \<le> tree_height_of (tree_root s)"
    using assms tree_height_plug [of "f # fs" t'] by (auto simp: stacked_def)
  moreover have "tree_height_of t' > 0" using assms(3) by (cases t') auto
  ultimately have "length fs < 50" using assms(1) unfolding stacked_def by linarith
  with assms show ?thesis by (auto simp: stacked_def bst_push_def take_Suc_conv_app_nth)
qed

lemma pop_stacked:
  assumes "stacked s (f # fs) t"
  shows "bst_pop s = Some (frame_addr f, s\<lparr>stack_pos := length fs\<rparr>)"
    "stacked (s\<lparr>stack_pos := length fs\<rparr>) fs (plug1 f t)"
proof -
  from assms have st: "take (Suc (length fs)) (stack s) = rev (map frame_addr fs) @ [frame_addr f]"
    "stack_pos s = Suc (length fs)" "length (stack s) = 50" by (simp_all add: stacked_def)
  then have len: "Suc (length fs) \<le> 50"
    by (metis length_append_singleton length_map length_rev length_take min.absorb_iff2 min.commute)
  then have "stack s ! length fs = take (Suc (length fs)) (stack s) ! length fs" by simp
  also have "\<dots> = frame_addr f" using st(1) by (simp add: nth_append)
  finally show "bst_pop s = Some (frame_addr f, s\<lparr>stack_pos := length fs\<rparr>)"
    using st len by (simp add: bst_pop_def)
  have "take (length fs) (stack s) = take (length fs) (take (Suc (length fs)) (stack s))"
    by (simp add: min_def)
  also have "\<dots> = rev (map frame_addr fs)" using st(1) by simp
  finally show "stacked (s\<lparr>stack_pos := length fs\<rparr>) fs (plug1 f t)"
    using assms by (auto simp: stacked_def)
qed

section \<open>The loops of bst_move_next\<close>

text \<open>\<open>same_tree\<close>: nothing but the enumerator has changed.\<close>

definition same_tree :: "('d, 'r) bst \<Rightarrow> ('d, 'r) bst \<Rightarrow> bool" where
  "same_tree s s' \<longleftrightarrow> tree_root s' = tree_root s \<and> tree_size s' = tree_size s \<and>
     tree_height s' = tree_height s \<and> pool s' = pool s \<and> length (stack s') = length (stack s)"

lemma same_tree_refl [simp]: "same_tree s s"
  by (simp add: same_tree_def)

lemma same_tree_trans: "same_tree s s' \<Longrightarrow> same_tree s' s'' \<Longrightarrow> same_tree s s''"
  by (simp add: same_tree_def)

lemma push_same: "bst_push n s = Some s' \<Longrightarrow> same_tree s s'"
  by (auto simp: bst_push_def same_tree_def split: if_splits)

lemma descend_left_ok:
  "stacked s fs t \<Longrightarrow> t \<noteq> Null \<Longrightarrow> \<not> at_start s \<Longrightarrow>
     \<exists>s' fs' t'. descend_left t s = Some s' \<and> at_node s' fs' t' \<and> left t' = Null \<and>
       lefts fs' = lefts fs \<and> addr t' # addrs (right t') @ rights fs' = addrs t @ rights fs \<and>
       same_tree s s'"
proof (induction t s arbitrary: fs rule: descend_left.induct)
  case (1 s)
  then show ?case by simp
next
  case (2 a l d r b rt s)
  show ?case
  proof (cases "l = Null")
    case True
    let ?s' = "s\<lparr>current_element := Some a\<rparr>"
    have "at_node ?s' fs (Node a l d r b rt)"
      using "2.prems" by (auto simp: at_node_def stacked_def node_ptr_def)
    moreover have "same_tree s ?s'" by (simp add: same_tree_def)
    ultimately show ?thesis using True
      by (intro exI [of _ ?s'] exI [of _ fs] exI [of _ "Node a l d r b rt"]) simp
  next
    case False
    from push_stacked [OF "2.prems"(1), of "InLeft a d r b rt" l] False
    obtain s1 where s1: "bst_push a s = Some s1" "stacked s1 (InLeft a d r b rt # fs) l"
      "at_start s1 = at_start s" by auto
    with "2.IH" [OF False s1(1) s1(2) False] "2.prems"(3) obtain s' fs' t' where
      "descend_left l s1 = Some s'" "at_node s' fs' t'" "left t' = Null" "lefts fs' = lefts fs"
      "addr t' # addrs (right t') @ rights fs' = addrs l @ a # addrs rt @ rights fs"
      "same_tree s1 s'" by auto
    with False s1(1) push_same [OF s1(1)] show ?thesis
      by (auto intro: same_tree_trans)
  qed
qed

lemma climb_ok:
  "at_node s fs t \<Longrightarrow>
     (if rights fs = [] then \<exists>s'. climb False s = Some (s', False) \<and> current_element s' = None \<and>
        \<not> at_start s' \<and> same_tree s s'
      else \<exists>s' fs' t'. climb False s = Some (s', True) \<and> at_node s' fs' t' \<and>
        lefts fs' @ addrs (left t') = lefts fs @ addrs t \<and>
        addr t' # addrs (right t') @ rights fs' = rights fs \<and> same_tree s s')"
proof (induction fs arbitrary: s t)
  case Nil
  then show ?case
    by (auto simp: at_node_def stacked_def climb.simps [of False s] same_tree_def)
next
  case (Cons f fs)
  let ?u = "plug1 f t"
  from Cons.prems obtain a where st: "stacked s (f # fs) t" and cur: "current_element s = Some a"
    "a \<in> set (addrs t)" "node_ptr t = Some a" and "\<not> at_start s"
    by (cases t) (auto simp: at_node_def node_ptr_def)
  from st have dist: "distinct (addrs (plug (f # fs) t))" "tree_root s = plug (f # fs) t"
    by (auto simp: stacked_def)
  let ?s = "s\<lparr>stack_pos := length fs, current_element := Some (frame_addr f)\<rparr>"
  have u: "?u \<noteq> Null" "node_ptr ?u = Some (frame_addr f)" "frame_addr f \<in> set (addrs ?u)"
    "deref (frame_addr f) ?u = Some ?u"
    by (cases f; simp add: node_ptr_def)+
  have deref_f: "deref (frame_addr f) (tree_root s) = Some ?u"
    using deref_plug [of fs ?u "frame_addr f"] dist u by simp
  have step: "climb False s = climb (node_ptr (left ?u) = Some a) ?s"
    using node_ptr_plug_neq [OF dist(1) cur(2)] cur(1) dist(2) pop_stacked(1) [OF st] deref_f
    by (simp add: climb.simps [of False s])
  have at: "at_node ?s fs ?u"
    using pop_stacked(2) [OF st] u \<open>\<not> at_start s\<close> by (auto simp: at_node_def stacked_def)
  have same: "same_tree s ?s" by (simp add: same_tree_def)
  show ?case
  proof (cases f)
    case (InLeft b d r bal rt)
    with cur(3) step have "climb False s = Some (?s, True)"
      by (simp add: climb.simps [of True])
    with InLeft at same show ?thesis
      by (intro if_not_P [THEN iffD2]) (auto intro!: exI [of _ ?s] exI [of _ fs] exI [of _ ?u])
  next
    case (InRight b l d r bal)
    have "node_ptr l \<noteq> Some a"
    proof
      assume "node_ptr l = Some a"
      then have "a \<in> set (addrs l)" by (cases l) (auto simp: node_ptr_def)
      with cur(2) dist(1) InRight show False by (auto simp: addrs_plug)
    qed
    with step InRight have "climb False s = climb False ?s" by simp
    moreover have "lefts fs @ addrs ?u = lefts (f # fs) @ addrs t" "rights (f # fs) = rights fs"
      using InRight by simp_all
    ultimately show ?thesis
      using Cons.IH [OF at] same by (auto split: if_splits intro: same_tree_trans)
  qed
qed

section \<open>The object invariant\<close>

text \<open>
  \<open>tree_inv\<close> is the convention of the class on the tree; \<open>enum_inv\<close> what it says of the
  enumerator: there is no current element before the start, and the stack holds the parents of
  the current one.
\<close>

definition tree_inv :: "('d::linorder, 'r) bst \<Rightarrow> bool" where
  "tree_inv s \<longleftrightarrow> balanced (tree_root s) \<and> ordered (tree_root s) \<and>
     tree_size s = length (inorder (tree_root s)) \<and>
     tree_height s = int (tree_height_of (tree_root s)) \<and>
     distinct (addrs (tree_root s)) \<and> (\<forall>a \<in> set (addrs (tree_root s)). a < pool s) \<and>
     length (stack s) = 50"

definition enum_inv :: "('d, 'r) bst \<Rightarrow> bool" where
  "enum_inv s \<longleftrightarrow> (case current_element s of
      None \<Rightarrow> at_start s \<longrightarrow> stack_pos s = 0
    | Some a \<Rightarrow> \<exists>fs t. at_node s fs t)"

text \<open>What is left to visit, as addresses: everything at the start, what follows the current
  node once it has one, nothing after the end.\<close>

definition to_visit :: "('d, 'r) bst \<Rightarrow> nat list" where
  "to_visit s = (if at_start s then addrs (tree_root s)
     else case current_element s of None \<Rightarrow> []
       | Some a \<Rightarrow> tl (dropWhile (\<lambda>b. b \<noteq> a) (addrs (tree_root s))))"

lemma dropWhile_at: "a \<notin> set xs \<Longrightarrow> dropWhile (\<lambda>b. b \<noteq> a) (xs @ a # ys) = a # ys"
  by (induction xs) auto

lemma at_node_split:
  assumes "at_node s fs t"
  shows "current_element s = Some (addr t)"
    "addrs (tree_root s) = (lefts fs @ addrs (left t)) @ addr t # addrs (right t) @ rights fs"
    "to_visit s = addrs (right t) @ rights fs"
    "deref (addr t) (tree_root s) = Some t"
proof -
  from assms obtain a l d r b rt where t: "t = Node a l d r b rt" by (cases t) (auto simp: at_node_def)
  from assms show cur: "current_element s = Some (addr t)" by (simp add: t at_node_def node_ptr_def)
  from assms have root: "tree_root s = plug fs t" "distinct (addrs (plug fs t))" "\<not> at_start s"
    by (auto simp: at_node_def stacked_def)
  show split: "addrs (tree_root s) =
      (lefts fs @ addrs (left t)) @ addr t # addrs (right t) @ rights fs"
    by (simp add: root addrs_plug t)
  have "addr t \<notin> set (lefts fs @ addrs (left t))"
    using root(2) by (auto simp: addrs_plug t)
  then show "to_visit s = addrs (right t) @ rights fs"
    using cur root(3)
    by (simp only: to_visit_def split if_False option.case dropWhile_at list.sel not_False_eq_True)
  show "deref (addr t) (tree_root s) = Some t"
    using deref_plug [OF root(2), of "addr t"] by (simp add: root t)
qed

lemma at_node_enum_inv:
  assumes "at_node s fs t"
  shows "enum_inv s \<and> \<not> at_start s"
proof
  show "enum_inv s" using at_node_split(1) [OF assms] assms by (auto simp: enum_inv_def)
  show "\<not> at_start s" using assms by (simp add: at_node_def)
qed

text \<open>
  One call of \<open>bst_move_next\<close>: it goes to the first node that is left to visit and says so, or
  there is none and it ends the enumeration.
\<close>

lemma bst_move_next_ok:
  assumes "tree_inv s" "enum_inv s" "tree_size s < 2 ^ 36"
  shows "\<exists>s' more. bst_move_next s = Some (s', more) \<and> same_tree s s' \<and> enum_inv s' \<and>
    \<not> at_start s' \<and>
    (if to_visit s = [] then \<not> more \<and> current_element s' = None
     else more \<and> current_element s' = Some (hd (to_visit s)) \<and> to_visit s' = tl (to_visit s))"
proof -
  have height: "tree_height_of (tree_root s) \<le> 51"
    using assms by (auto simp: tree_inv_def intro: balanced_height_bound)
  consider "at_start s" | "\<not> at_start s" "current_element s = None"
    | a where "\<not> at_start s" "current_element s = Some a" by (cases "current_element s") auto
  then show ?thesis
  proof cases
    case 1
    let ?s = "s\<lparr>at_start := False\<rparr>"
    show ?thesis
    proof (cases "tree_root s = Null")
      case True
      with 1 assms(1,2) show ?thesis
        by (auto simp: bst_move_next_def tree_inv_def enum_inv_def to_visit_def same_tree_def at_node_def
          split: option.splits)
    next
      case False
      from 1 assms(2) have "current_element s = None" "stack_pos s = 0"
        by (auto simp: enum_inv_def at_node_def split: option.splits)
      then have "stacked ?s [] (tree_root s)"
        using assms(1) height by (simp add: stacked_def tree_inv_def)
      from descend_left_ok [OF this False] obtain s' fs' t' where d:
        "descend_left (tree_root s) ?s = Some s'" "at_node s' fs' t'" "left t' = Null"
        "lefts fs' = []" "addr t' # addrs (right t') @ rights fs' = addrs (tree_root s)"
        "same_tree ?s s'" by auto
      have "bst_move_next s = Some (s', True)"
        using 1 d(1) False assms(1) by (simp add: bst_move_next_def tree_inv_def)
      moreover have "enum_inv s'" "\<not> at_start s'"
        using at_node_enum_inv [OF d(2)] by simp_all
      moreover have "same_tree s s'" using d(6) by (simp add: same_tree_def)
      moreover have "to_visit s = addrs (tree_root s)" using 1 by (simp add: to_visit_def)
      ultimately show ?thesis
        using at_node_split(1,3) [OF d(2)] d(5) [symmetric] by auto
    qed
  next
    case 2
    then show ?thesis by (auto simp: bst_move_next_def to_visit_def enum_inv_def)
  next
    case 3
    with assms(2) obtain fs t where at: "at_node s fs t" by (auto simp: enum_inv_def)
    note sp = at_node_split [OF at]
    obtain a' l d r b rt where t: "t = Node a' l d r b rt"
      using at by (cases t) (auto simp: at_node_def)
    show ?thesis
    proof (cases "right t = Null")
      case False
      from at have st: "stacked s fs t" by (simp add: at_node_def)
      from push_stacked [OF st, of "InRight a' l d r b" rt] False t obtain s1 where s1:
        "bst_push a' s = Some s1" "stacked s1 (InRight a' l d r b # fs) rt" "at_start s1 = at_start s"
        by auto
      from descend_left_ok [OF s1(2)] False t s1(3) 3 obtain s' fs' t' where d:
        "descend_left rt s1 = Some s'" "at_node s' fs' t'" "left t' = Null"
        "addr t' # addrs (right t') @ rights fs' = addrs rt @ rights fs" "same_tree s1 s'" by auto
      have "bst_move_next s = Some (s', True)"
        using 3 sp(1,4) t s1(1) d(1) False by (simp add: bst_move_next_def)
      moreover have "enum_inv s'" "\<not> at_start s'"
        using at_node_enum_inv [OF d(2)] by simp_all
      moreover have "same_tree s s'" using push_same [OF s1(1)] d(5) by (rule same_tree_trans)
      ultimately show ?thesis
        using at_node_split(1,3) [OF d(2)] d(4) [symmetric] sp(3) t by auto
    next
      case True
      then have mv: "bst_move_next s = climb False s" "to_visit s = rights fs"
        using 3 sp t by (simp_all add: bst_move_next_def)
      show ?thesis
      proof (cases "rights fs = []")
        case True
        with climb_ok [OF at] mv show ?thesis by (auto simp: enum_inv_def)
      next
        case False
        with climb_ok [OF at] obtain s' fs' t' where c: "climb False s = Some (s', True)"
          "at_node s' fs' t'" "addr t' # addrs (right t') @ rights fs' = rights fs" "same_tree s s'"
          by auto
        have "enum_inv s'" "\<not> at_start s'"
          using at_node_enum_inv [OF c(2)] by simp_all
        with mv c(1,4) False at_node_split(1,3) [OF c(2)] c(3) [symmetric] show ?thesis by auto
      qed
    qed
  qed
qed

section \<open>A whole enumeration\<close>

abbreviation bst_enumerate ::
  "nat \<Rightarrow> ('d, 'r) bst \<Rightarrow> (('d \<times> 'r) list \<times> ('d, 'r) bst) option" where
  "bst_enumerate \<equiv> enumerate_loop bst_move_next bst_element"

text \<open>The pair at an address is the one at the same place of the in-order sequence.\<close>

definition pair_at :: "('d, 'r) node \<Rightarrow> nat \<Rightarrow> 'd \<times> 'r" where
  "pair_at t a = (case deref a t of Some n \<Rightarrow> (node_d n, node_r n) | None \<Rightarrow> undefined)"

lemma map_pair_at: "distinct (addrs t) \<Longrightarrow> map (pair_at t) (addrs t) = inorder t"
proof (induction t)
  case (Node a l d r b rt)
  have "pair_at (Node a l d r b rt) x = pair_at l x" if "x \<in> set (addrs l)" for x
    using that Node.prems deref_None [of x l] by (auto simp: pair_at_def split: option.splits)
  moreover have "pair_at (Node a l d r b rt) x = pair_at rt x" if "x \<in> set (addrs rt)" for x
  proof -
    have "deref x l = None" "x \<noteq> a" using that Node.prems by (auto simp: deref_None)
    then show ?thesis by (simp add: pair_at_def)
  qed
  ultimately have "map (pair_at (Node a l d r b rt)) (addrs l) = map (pair_at l) (addrs l)"
    "map (pair_at (Node a l d r b rt)) (addrs rt) = map (pair_at rt) (addrs rt)"
    by simp_all
  moreover have "pair_at (Node a l d r b rt) a = (d, r)" by (simp add: pair_at_def)
  ultimately show ?case
    using Node by (simp only: addrs.simps inorder.simps map_append list.map) simp
qed simp

lemma bst_element_at:
  assumes "current_element s = Some a" "a \<in> set (addrs (tree_root s))"
  shows "bst_element s = Some (pair_at (tree_root s) a)"
proof -
  obtain n where "deref a (tree_root s) = Some n"
    using assms(2) deref_None [of a "tree_root s"] by (cases "deref a (tree_root s)") auto
  with assms(1) show ?thesis by (simp add: bst_element_def pair_at_def)
qed

lemma tree_inv_same: "tree_inv s \<Longrightarrow> same_tree s s' \<Longrightarrow> tree_inv s'"
  by (simp add: tree_inv_def same_tree_def)

lemma set_to_visit: "set (to_visit s) \<subseteq> set (addrs (tree_root s))"
proof -
  have "set (tl xs) \<subseteq> set xs" for xs :: "nat list" by (cases xs) auto
  then show ?thesis by (auto simp: to_visit_def split: option.splits dest!: subsetD dest: set_dropWhileD)
qed

lemma bst_enumerate_ok:
  "tree_inv s \<Longrightarrow> enum_inv s \<Longrightarrow> tree_size s < 2 ^ 36 \<Longrightarrow> length (to_visit s) < n \<Longrightarrow>
     \<exists>s'. bst_enumerate n s = Some (map (pair_at (tree_root s)) (to_visit s), s') \<and>
       same_tree s s' \<and> enum_inv s' \<and> current_element s' = None \<and> \<not> at_start s'"
proof (induction n arbitrary: s)
  case (Suc n)
  from bst_move_next_ok [OF Suc.prems(1-3)] obtain s1 more where s1:
    "bst_move_next s = Some (s1, more)" "same_tree s s1" "enum_inv s1" "\<not> at_start s1"
    "if to_visit s = [] then \<not> more \<and> current_element s1 = None
     else more \<and> current_element s1 = Some (hd (to_visit s)) \<and> to_visit s1 = tl (to_visit s)"
    by blast
  show ?case
  proof (cases "to_visit s")
    case Nil
    with s1 show ?thesis by auto
  next
    case (Cons a as)
    with s1 have a: "more" "current_element s1 = Some a" "to_visit s1 = as" by auto
    have "a \<in> set (addrs (tree_root s))" using Cons set_to_visit [of s] by auto
    with s1(2) a(2) have el: "bst_element s1 = Some (pair_at (tree_root s) a)"
      using bst_element_at [of s1 a] by (simp add: same_tree_def)
    have "tree_inv s1" using Suc.prems(1) s1(2) by (rule tree_inv_same)
    moreover have "tree_size s1 < 2 ^ 36" "tree_root s1 = tree_root s"
      using s1(2) Suc.prems(3) by (simp_all add: same_tree_def)
    moreover have "length (to_visit s1) < n" using Suc.prems(4) Cons a(3) by simp
    ultimately obtain s' where s': "bst_enumerate n s1 = Some (map (pair_at (tree_root s)) as, s')"
      "same_tree s1 s'" "enum_inv s'" "current_element s' = None" "\<not> at_start s'"
      using Suc.IH [of s1] s1(3) a(3) by auto
    with s1(1) a(1) el Cons same_tree_trans [OF s1(2) s'(2)] show ?thesis by simp
  qed
qed simp

lemma enum_inv_reset [simp]: "enum_inv (bst_reset s)"
  by (simp add: enum_inv_def bst_reset_def)

lemma bst_enumerate_all:
  assumes "tree_inv s" "tree_size s < 2 ^ 36"
  shows "\<exists>s'. bst_enumerate (Suc (tree_size s)) (bst_reset s) = Some (inorder (tree_root s), s') \<and>
    same_tree s s' \<and> current_element s' = None \<and> enum_inv s'"
proof -
  let ?s = "bst_reset s"
  have inv: "tree_inv ?s" "tree_root ?s = tree_root s" "tree_size ?s = tree_size s"
    "to_visit ?s = addrs (tree_root s)"
    using assms(1) by (simp_all add: tree_inv_def bst_reset_def to_visit_def)
  have "length (to_visit ?s) < Suc (tree_size s)"
    using assms(1) inv(4) by (simp add: tree_inv_def addrs_length)
  moreover have "tree_size ?s < 2 ^ 36" using assms(2) inv(3) by (simp only:)
  ultimately obtain s' where "bst_enumerate (Suc (tree_size s)) ?s =
      Some (map (pair_at (tree_root ?s)) (to_visit ?s), s')" "same_tree ?s s'" "current_element s' = None" "enum_inv s'"
    using bst_enumerate_ok [OF inv(1) enum_inv_reset] by blast
  moreover have "map (pair_at (tree_root s)) (addrs (tree_root s)) = inorder (tree_root s)"
    using assms(1) by (simp add: tree_inv_def map_pair_at)
  moreover have "same_tree s ?s" by (simp add: same_tree_def bst_reset_def)
  ultimately show ?thesis using inv(2,4) by (metis same_tree_trans)
qed

end
