(* ===== verification/Bst_Correct.thy ===== *)
theory Bst_Correct
  imports Bst_Enum
begin

text \<open>
  The operations of the balanced tree keep the convention of the class, never dereference a
  null pointer when their requires clause holds, and meet the interface \<open>asc_pair_container\<close>.
\<close>

section \<open>The operations\<close>

definition bst_contents :: "('d, 'r) bst \<Rightarrow> ('d \<times> 'r) multiset" where
  "bst_contents s = mset (inorder (tree_root s))"

definition bst_capacity :: "('d, 'r) bst \<Rightarrow> bool" where
  "bst_capacity s \<longleftrightarrow> tree_size s < 2 ^ 36"

lemma keys_of_bst: "keys_of (bst_contents s) = fst ` set (inorder (tree_root s))"
  by (simp add: bst_contents_def)

lemma tree_inv_init: "tree_inv binary_search_tree_kernel_1"
  by (simp add: tree_inv_def binary_search_tree_kernel_1_def ordered_def)

lemma tree_inv_reset [simp]: "tree_inv (bst_reset s) = tree_inv s"
  by (simp add: tree_inv_def bst_reset_def)

lemma bst_contents_reset [simp]: "bst_contents (bst_reset s) = bst_contents s"
  by (simp add: bst_contents_def bst_reset_def)

lemma bst_add_ok:
  assumes "tree_inv s"
  shows "\<exists>s'. bst_add s d r = Some s' \<and> tree_inv s' \<and> enum_inv s' \<and>
    inorder (tree_root s') = ins_pair d r (inorder (tree_root s))"
proof -
  from assms have inv: "balanced (tree_root s)" "ordered (tree_root s)" by (simp_all add: tree_inv_def)
  from add_to_tree_balanced [OF inv(1)] obtain t g where t:
    "add_to_tree (pool s) (tree_root s) d r = Some (t, g)" "balanced t"
    "tree_height_of t = tree_height_of (tree_root s) + of_bool g" by blast
  have io: "inorder t = ins_pair d r (inorder (tree_root s))"
    using t(1) inv(2) by (rule add_to_tree_inorder)
  have ad: "mset (addrs t) = add_mset (pool s) (mset (addrs (tree_root s)))"
    using t(1) by (rule add_to_tree_addrs)
  have "distinct (addrs t)" "\<forall>a \<in> set (addrs t). a < Suc (pool s)"
  proof -
    have "pool s \<notin> set (addrs (tree_root s))" "distinct (addrs (tree_root s))"
      using assms by (auto simp: tree_inv_def)
    then have "distinct (pool s # addrs (tree_root s))" by simp
    then show "distinct (addrs t)" using ad by (metis mset.simps(2) mset_eq_imp_distinct_iff)
    have "set (addrs t) = insert (pool s) (set (addrs (tree_root s)))"
      using ad by (metis set_mset_add_mset_insert set_mset_mset)
    then show "\<forall>a \<in> set (addrs t). a < Suc (pool s)"
      using assms by (auto simp: tree_inv_def less_Suc_eq)
  qed
  moreover have "ordered t" using inv(2) io by (simp add: ordered_def sorted_ins_pair)
  ultimately show ?thesis
    using assms t io by (auto simp: bst_add_def tree_inv_def bst_reset_def enum_inv_def)
qed

lemma after_removal_inv:
  assumes "tree_inv s" "removed p (tree_root s) t" "balanced t"
    and "tree_height_of (tree_root s) = tree_height_of t + of_bool g"
  shows "tree_inv (after_removal s t g)" "tree_root (after_removal s t g) = t"
    "bst_contents s = add_mset p (bst_contents (after_removal s t g))"
  using assms removedD [OF assms(2)]
  by (auto simp: tree_inv_def after_removal_def bst_contents_def)

lemma bst_remove_seq:
  assumes "tree_inv s" "d \<in> keys_of (bst_contents s)"
  shows "\<exists>s' r xs ys. bst_remove s d = Some (s', d, r) \<and> tree_inv s' \<and> enum_inv s' \<and>
    inorder (tree_root s) = xs @ (d, r) # ys \<and> inorder (tree_root s') = xs @ ys"
proof -
  from assms have "balanced (tree_root s)" "ordered (tree_root s)"
    "d \<in> fst ` set (inorder (tree_root s))"
    by (simp_all add: tree_inv_def keys_of_bst)
  from remove_from_tree_ok [OF this] obtain t p g where t:
    "remove_from_tree (tree_root s) d = Some (t, p, g)" "balanced t" "fst p = d"
    "removed p (tree_root s) t" "tree_height_of (tree_root s) = tree_height_of t + of_bool g"
    by blast
  from t(4) obtain xs ys where seq: "inorder (tree_root s) = xs @ p # ys" "inorder t = xs @ ys"
    by (auto simp: removed_def)
  obtain r where p: "p = (d, r)" using t(3) by (cases p) simp
  let ?s = "bst_reset (after_removal s t g)"
  have "bst_remove s d = Some (?s, d, r)" using t(1) p by (simp add: bst_remove_def)
  moreover have "tree_inv ?s \<and> enum_inv ?s" using after_removal_inv [OF assms(1) t(4,2,5)] by simp
  moreover have "tree_root ?s = t" using after_removal_inv(2) [OF assms(1) t(4,2,5)] by (simp add: bst_reset_def)
  ultimately show ?thesis using seq p by metis
qed

lemma bst_remove_ok:
  assumes "tree_inv s" "d \<in> keys_of (bst_contents s)"
  shows "\<exists>s' r. bst_remove s d = Some (s', d, r) \<and> tree_inv s' \<and> enum_inv s' \<and>
    bst_contents s = add_mset (d, r) (bst_contents s')"
  using bst_remove_seq [OF assms] by (auto simp: bst_contents_def)

lemma bst_destroy_eq: "bst_destroy s d = map_option fst (bst_remove s d)"
  by (auto simp: bst_destroy_def bst_remove_def remove_from_tree_item_eq split: bind_splits)

lemma bst_destroy_ok:
  assumes "tree_inv s" "d \<in> keys_of (bst_contents s)"
  shows "\<exists>s' r. bst_destroy s d = Some s' \<and> tree_inv s' \<and> enum_inv s' \<and>
    bst_contents s = add_mset (d, r) (bst_contents s')"
  using bst_remove_ok [OF assms] by (auto simp: bst_destroy_eq)

lemma removed_first: "inorder t = p # inorder t' \<Longrightarrow> addrs t' = tl (addrs t) \<Longrightarrow> removed p t t'"
  unfolding removed_def
  by (metis addrs_length append_Nil length_0_conv list.collapse list.discI)

lemma removed_last:
  "inorder t = inorder t' @ [p] \<Longrightarrow> addrs t' = butlast (addrs t) \<Longrightarrow> removed p t t'"
  unfolding removed_def
  by (metis addrs_length append_Nil2 append_butlast_last_id length_0_conv snoc_eq_iff_butlast)

lemma bst_remove_any_ok:
  assumes "tree_inv s" "bst_contents s \<noteq> {#}"
  shows "\<exists>s' p. bst_remove_any s = Some (s', p) \<and> tree_inv s' \<and> enum_inv s' \<and>
    inorder (tree_root s) = p # inorder (tree_root s')"
proof -
  from assms have "balanced (tree_root s)" "tree_root s \<noteq> Null"
    by (auto simp: tree_inv_def bst_contents_def)
  from remove_least_node_ok [OF this] obtain t p g where t:
    "remove_least_element_in_tree (tree_root s) = Some (t, p, g)" "balanced t"
    "inorder (tree_root s) = p # inorder t" "addrs t = tl (addrs (tree_root s))"
    "tree_height_of (tree_root s) = tree_height_of t + of_bool g" by blast
  from after_removal_inv [OF assms(1) removed_first [OF t(3,4)] t(2,5)] t(1,3) show ?thesis
    by (auto simp: bst_remove_any_def bst_reset_def tree_inv_def enum_inv_def)
qed

lemma bst_remove_last_ok:
  assumes "tree_inv s" "bst_contents s \<noteq> {#}"
  shows "\<exists>s' p. bst_remove_last_in_order s = Some (s', p) \<and> tree_inv s' \<and> enum_inv s' \<and>
    inorder (tree_root s) = inorder (tree_root s') @ [p]"
proof -
  from assms have "balanced (tree_root s)" "tree_root s \<noteq> Null"
    by (auto simp: tree_inv_def bst_contents_def)
  from remove_biggest_node_ok [OF this] obtain t p g where t:
    "remove_biggest_element_in_tree (tree_root s) = Some (t, p, g)" "balanced t"
    "inorder (tree_root s) = inorder t @ [p]" "addrs t = butlast (addrs (tree_root s))"
    "tree_height_of (tree_root s) = tree_height_of t + of_bool g" by blast
  from after_removal_inv [OF assms(1) removed_last [OF t(3,4)] t(2,5)] t(1,3) show ?thesis
    by (auto simp: bst_remove_last_in_order_def bst_reset_def tree_inv_def enum_inv_def)
qed

text \<open>\<open>delete_tree\<close> deallocates every node of the tree once.\<close>

lemma delete_tree_ok:
  "t \<noteq> Null \<Longrightarrow> \<exists>as. delete_tree t = Some as \<and> mset as = mset (addrs t)"
proof (induction t)
  case (Node a l d r b rt)
  have "\<exists>as. (if x \<noteq> Null then delete_tree x else Some []) = Some as \<and> mset as = mset (addrs x)"
    if "x \<noteq> Null \<Longrightarrow> \<exists>as. delete_tree x = Some as \<and> mset as = mset (addrs x)"
    for x :: "('a, 'b) node"
    using that by (cases "x = Null") auto
  from this [of l] this [of rt] Node.IH obtain xs ys where
    "(if l \<noteq> Null then delete_tree l else Some []) = Some xs" "mset xs = mset (addrs l)"
    "(if rt \<noteq> Null then delete_tree rt else Some []) = Some ys" "mset ys = mset (addrs rt)"
    by blast
  then show ?case by (simp only: delete_tree.simps Option.bind.simps) simp
qed simp

lemma bst_clear_ok:
  assumes "tree_inv s"
  shows "\<exists>s'. bst_clear s = Some s' \<and> tree_inv s' \<and> enum_inv s' \<and> tree_root s' = Null"
proof (cases "tree_root s = Null")
  case True
  with assms show ?thesis
    by (auto simp: bst_clear_def tree_inv_def bst_reset_def enum_inv_def)
next
  case False
  with delete_tree_ok obtain as where "delete_tree (tree_root s) = Some as" by blast
  with assms False show ?thesis
    by (auto simp: bst_clear_def tree_inv_def bst_reset_def enum_inv_def ordered_def)
qed

section \<open>The interface\<close>

definition bst_ops :: "(('d::linorder, 'r) bst, 'd, 'r) container_ops" where
  "bst_ops = \<lparr>c_clear = bst_clear, c_count = bst_count, c_add = bst_add, c_remove = bst_remove,
     c_destroy = bst_destroy, c_remove_any = bst_remove_any, c_index = bst_index,
     c_size = tree_size, c_at_start = at_start, c_reset = bst_reset,
     c_current_element_valid = bst_current_element_valid, c_element = bst_element,
     c_move_next = bst_move_next\<rparr>"

lemma bst_ops_simps [simp]:
  "c_clear bst_ops = bst_clear" "c_count bst_ops = bst_count" "c_add bst_ops = bst_add"
  "c_remove bst_ops = bst_remove" "c_destroy bst_ops = bst_destroy"
  "c_remove_any bst_ops = bst_remove_any" "c_index bst_ops = bst_index"
  "c_size bst_ops = tree_size" "c_at_start bst_ops = at_start" "c_reset bst_ops = bst_reset"
  "c_current_element_valid bst_ops = bst_current_element_valid"
  "c_element bst_ops = bst_element" "c_move_next bst_ops = bst_move_next"
  by (simp_all add: bst_ops_def)

definition bst_inv :: "('d::linorder, 'r) bst \<Rightarrow> bool" where
  "bst_inv s \<longleftrightarrow> tree_inv s \<and> enum_inv s"

lemma bst_enumerate_contents:
  assumes "bst_inv s" "bst_capacity s"
  shows "\<exists>s'. bst_enumerate (Suc (size (bst_contents s))) (bst_reset s) =
      Some (inorder (tree_root s), s') \<and> bst_inv s' \<and> bst_contents s' = bst_contents s \<and>
      \<not> bst_current_element_valid s'"
proof -
  from assms have inv: "tree_inv s" "tree_size s < 2 ^ 36" "size (bst_contents s) = tree_size s"
    by (simp_all add: bst_inv_def bst_capacity_def tree_inv_def bst_contents_def)
  from bst_enumerate_all [OF inv(1,2)] obtain s' where s':
    "bst_enumerate (Suc (tree_size s)) (bst_reset s) = Some (inorder (tree_root s), s')"
    "same_tree s s'" "current_element s' = None" "enum_inv s'" by blast
  with tree_inv_same [OF inv(1) s'(2)] inv(3) show ?thesis
    by (auto simp: bst_inv_def bst_current_element_valid_def bst_contents_def same_tree_def)
qed

lemma bst_move_next_inv:
  assumes "bst_inv s" "bst_capacity s"
  shows "\<exists>s' more. bst_move_next s = Some (s', more) \<and> bst_inv s' \<and>
    bst_contents s' = bst_contents s \<and> bst_current_element_valid s' = more"
proof -
  from assms have inv: "tree_inv s" "enum_inv s" "tree_size s < 2 ^ 36"
    by (simp_all add: bst_inv_def bst_capacity_def)
  from bst_move_next_ok [OF inv] obtain s' more where s':
    "bst_move_next s = Some (s', more)" "same_tree s s'" "enum_inv s'"
    "more = (current_element s' \<noteq> None)" by (metis option.distinct(1))
  with tree_inv_same [OF inv(1) s'(2)] show ?thesis
    by (auto simp: bst_inv_def bst_contents_def bst_current_element_valid_def same_tree_def)
qed

lemma inorder_plug_mem:
  "set (inorder t) \<subseteq> set (inorder (plug fs t))"
proof (induction fs arbitrary: t)
  case (Cons f fs)
  have "set (inorder t) \<subseteq> set (inorder (plug1 f t))" by (cases f) auto
  with Cons [of "plug1 f t"] show ?case by auto
qed simp

lemma bst_element_ok:
  assumes "bst_inv s" "bst_current_element_valid s"
  shows "\<exists>p. bst_element s = Some p \<and> p \<in># bst_contents s"
proof -
  from assms obtain fs t where at: "at_node s fs t"
    by (auto simp: bst_inv_def enum_inv_def bst_current_element_valid_def)
  from at_node_split [OF at] have
    "current_element s = Some (addr t)" "deref (addr t) (tree_root s) = Some t" by blast+
  moreover from this(2) obtain a l d r b rt where "t = Node a l d r b rt"
    using deref_Some by blast
  moreover have "inorder (tree_root s) = inorder (plug fs t)"
    using at by (simp add: at_node_def stacked_def)
  ultimately show ?thesis
    using inorder_plug_mem [of t fs] by (auto simp: bst_element_def bst_contents_def)
qed

interpretation avl: asc_pair_container bst_ops bst_inv bst_contents bst_capacity
proof
  fix s :: "('d::linorder, 'r) bst" and d r s' ps
  assume inv: "bst_inv s"
  then have t: "tree_inv s" by (simp add: bst_inv_def)
  show "\<exists>s'. c_clear bst_ops s = Some s' \<and> bst_inv s' \<and> bst_contents s' = {#}"
    using bst_clear_ok [OF t] by (auto simp: bst_inv_def bst_contents_def)
  show "c_count bst_ops s d = count (image_mset fst (bst_contents s)) d"
    using t by (simp add: bst_count_def get_count_eq tree_inv_def bst_contents_def)
  show "\<exists>s'. c_add bst_ops s d r = Some s' \<and> bst_inv s' \<and>
      bst_contents s' = add_mset (d, r) (bst_contents s)"
    using bst_add_ok [OF t, of d r] by (auto simp: bst_inv_def bst_contents_def)
  show "c_index bst_ops s d = None \<longleftrightarrow> d \<notin> keys_of (bst_contents s)"
    using t by (simp add: bst_index_def return_reference_None tree_inv_def keys_of_bst)
  show "c_index bst_ops s d = Some r \<Longrightarrow> (d, r) \<in># bst_contents s"
    by (simp add: bst_index_def return_reference_Some bst_contents_def)
  show "c_size bst_ops s = size (bst_contents s)"
    using t by (simp add: tree_inv_def bst_contents_def)
  show "d \<in> keys_of (bst_contents s) \<Longrightarrow> \<exists>s' r. c_remove bst_ops s d = Some (s', d, r) \<and>
      bst_inv s' \<and> bst_contents s = add_mset (d, r) (bst_contents s')"
    using bst_remove_ok [OF t] by (auto simp: bst_inv_def)
  show "d \<in> keys_of (bst_contents s) \<Longrightarrow> \<exists>s' r. c_destroy bst_ops s d = Some s' \<and>
      bst_inv s' \<and> bst_contents s = add_mset (d, r) (bst_contents s')"
    using bst_destroy_ok [OF t] by (auto simp: bst_inv_def)
  show "bst_contents s \<noteq> {#} \<Longrightarrow> \<exists>s' d r. c_remove_any bst_ops s = Some (s', d, r) \<and>
      bst_inv s' \<and> bst_contents s = add_mset (d, r) (bst_contents s')"
    using bst_remove_any_ok [OF t] by (fastforce simp: bst_inv_def bst_contents_def)
  show "\<forall>k \<in> keys_of (bst_contents s'). d \<le> k"
    if "c_remove_any bst_ops s = Some (s', d, r)"
  proof -
    have "bst_contents s \<noteq> {#}"
      using that by (auto simp: bst_contents_def bst_remove_any_def)
    from bst_remove_any_ok [OF t this] that t show ?thesis
      by (auto simp: tree_inv_def ordered_def keys_of_bst)
  qed
  show "bst_capacity s \<Longrightarrow> \<exists>ps s'.
      enumerate_loop (c_move_next bst_ops) (c_element bst_ops) (Suc (size (bst_contents s)))
          (c_reset bst_ops s) = Some (ps, s') \<and>
        bst_inv s' \<and> bst_contents s' = bst_contents s \<and> mset ps = bst_contents s \<and>
        \<not> c_current_element_valid bst_ops s'"
    using bst_enumerate_contents [OF inv] by (auto simp: bst_contents_def)
  show "bst_capacity s \<Longrightarrow> enumerate_loop (c_move_next bst_ops) (c_element bst_ops)
      (Suc (size (bst_contents s))) (c_reset bst_ops s) = Some (ps, s') \<Longrightarrow> sorted (map fst ps)"
    using bst_enumerate_contents [OF inv] t by (auto simp: tree_inv_def ordered_def)
  show "bst_inv (c_reset bst_ops s) \<and> bst_contents (c_reset bst_ops s) = bst_contents s"
    using inv by (simp add: bst_inv_def)
  show "bst_capacity s \<Longrightarrow> \<exists>s' more. c_move_next bst_ops s = Some (s', more) \<and> bst_inv s' \<and>
      bst_contents s' = bst_contents s \<and> c_current_element_valid bst_ops s' = more"
    using bst_move_next_inv [OF inv] by simp
  show "c_current_element_valid bst_ops s \<Longrightarrow>
      \<exists>p. c_element bst_ops s = Some p \<and> p \<in># bst_contents s"
    using bst_element_ok [OF inv] by simp
  show "\<not> c_current_element_valid bst_ops s \<Longrightarrow> c_element bst_ops s = None"
    by (simp add: bst_element_def bst_current_element_valid_def)
  show "bst_capacity s' = bst_capacity s" if "bst_inv s'" "bst_contents s' = bst_contents s"
    using that t by (simp add: bst_capacity_def bst_inv_def tree_inv_def bst_contents_def)
      (metis size_mset)
next
  show "c_reset bst_ops (c_reset bst_ops s) = c_reset bst_ops s" for s :: "('d::linorder, 'r) bst"
    by (simp add: bst_reset_def)
qed

end
