(* ===== verification/Set_Kernel_1.thy ===== *)
theory Set_Kernel_1
  imports Set_Container Bst_Correct
begin

text \<open>
  \<open>set/set_kernel_1.h\<close>: a set kept as the keys of a container of pairs, which is the template
  argument \<open>bst_base\<close>. The second component of the pairs is the data member \<open>junk\<close>, a \<open>char\<close>
  no operation reads; it is modelled as \<open>unit\<close>. The last section instantiates the container
  with the balanced tree, which is \<open>set<T>::kernel_1a\<close> of \<open>set.h\<close>.
\<close>

section \<open>The operations\<close>

definition set_clear :: "('s, 't, unit) container_ops \<Rightarrow> 's \<Rightarrow> 's option" where
  "set_clear bst s = c_clear bst s"

definition set_add :: "('s, 't, unit) container_ops \<Rightarrow> 's \<Rightarrow> 't \<Rightarrow> 's option" where
  "set_add bst s item = c_add bst s item ()"

definition set_is_member :: "('s, 't, unit) container_ops \<Rightarrow> 's \<Rightarrow> 't \<Rightarrow> bool" where
  "set_is_member bst s item \<longleftrightarrow> c_index bst s item \<noteq> None"

definition set_remove_any :: "('s, 't, unit) container_ops \<Rightarrow> 's \<Rightarrow> ('s \<times> 't) option" where
  "set_remove_any bst s = do { (s, item, junk) \<leftarrow> c_remove_any bst s; Some (s, item) }"

definition set_remove :: "('s, 't, unit) container_ops \<Rightarrow> 's \<Rightarrow> 't \<Rightarrow> ('s \<times> 't) option" where
  "set_remove bst s item = do { (s, item_copy, junk) \<leftarrow> c_remove bst s item; Some (s, item_copy) }"

definition set_destroy :: "('s, 't, unit) container_ops \<Rightarrow> 's \<Rightarrow> 't \<Rightarrow> 's option" where
  "set_destroy bst s item = c_destroy bst s item"

definition set_size :: "('s, 't, unit) container_ops \<Rightarrow> 's \<Rightarrow> nat" where
  "set_size bst s = c_size bst s"

definition set_swap :: "'s \<Rightarrow> 's \<Rightarrow> 's \<times> 's" where
  "set_swap s item = (item, s)"

definition set_at_start :: "('s, 't, unit) container_ops \<Rightarrow> 's \<Rightarrow> bool" where
  "set_at_start bst s = c_at_start bst s"

definition set_reset :: "('s, 't, unit) container_ops \<Rightarrow> 's \<Rightarrow> 's" where
  "set_reset bst s = c_reset bst s"

definition set_current_element_valid :: "('s, 't, unit) container_ops \<Rightarrow> 's \<Rightarrow> bool" where
  "set_current_element_valid bst s = c_current_element_valid bst s"

definition set_element :: "('s, 't, unit) container_ops \<Rightarrow> 's \<Rightarrow> 't option" where
  "set_element bst s = map_option fst (c_element bst s)"

definition set_move_next :: "('s, 't, unit) container_ops \<Rightarrow> 's \<Rightarrow> ('s \<times> bool) option" where
  "set_move_next bst s = c_move_next bst s"

definition set_kernel_1 :: "('s, 't, unit) container_ops \<Rightarrow> ('s, 't) set_ops" where
  "set_kernel_1 bst = \<lparr>s_clear = set_clear bst, s_add = set_add bst,
     s_is_member = set_is_member bst, s_remove = set_remove bst, s_destroy = set_destroy bst,
     s_remove_any = set_remove_any bst, s_size = set_size bst, s_at_start = set_at_start bst,
     s_reset = set_reset bst, s_current_element_valid = set_current_element_valid bst,
     s_element = set_element bst, s_move_next = set_move_next bst\<rparr>"

lemmas set_kernel_1_defs [model_defs] =
  set_kernel_1_def set_clear_def set_add_def set_is_member_def set_remove_def set_destroy_def
  set_remove_any_def set_size_def set_at_start_def set_reset_def set_current_element_valid_def
  set_element_def set_move_next_def

section \<open>A set over any pair container\<close>

lemma enumerate_loop_map:
  "enumerate_loop mv (\<lambda>s. map_option f (el s)) n s =
     map_option (apfst (map f)) (enumerate_loop mv el n s)"
proof (induction n arbitrary: s)
  case (Suc n)
  then show ?case
    by (cases "mv s") (auto simp: apfst_def map_prod_def split: option.splits prod.splits bind_splits)
qed simp

lemma count_unit: "count m (a, ()) = count (image_mset fst m) a"
  by (induction m) (auto split: prod.split)

lemma unit_contents_eq:
  assumes "distinct_keys m" "distinct_keys m'" "keys_of m = keys_of (m' :: ('t \<times> unit) multiset)"
  shows "m = m'"
proof (rule multiset_eqI)
  have one: "count (image_mset fst k) a = of_bool (a \<in> keys_of k)" if "distinct_keys k"
    for k :: "('t \<times> unit) multiset" and a
  proof (cases "a \<in> keys_of k")
    case True
    then have "count (image_mset fst k) a \<noteq> 0" unfolding count_eq_zero_iff by simp
    moreover have "count (image_mset fst k) a \<le> 1" using that unfolding distinct_keys_def by blast
    ultimately have "count (image_mset fst k) a = 1" by linarith
    with True show ?thesis by simp
  next
    case False
    then have "count (image_mset fst k) a = 0" unfolding count_eq_zero_iff by simp
    with False show ?thesis by simp
  qed
  show "count m p = count m' p" for p
    using one [OF assms(1)] one [OF assms(2)] assms(3) by (cases p) (simp add: count_unit)
qed

text \<open>The invariant of the set and the elements it holds, from those of the container.\<close>

definition set_inv :: "('s \<Rightarrow> bool) \<Rightarrow> ('s \<Rightarrow> ('t \<times> unit) multiset) \<Rightarrow> 's \<Rightarrow> bool" where
  "set_inv ok contents s \<longleftrightarrow> ok s \<and> distinct_keys (contents s)"

definition set_elems :: "('s \<Rightarrow> ('t \<times> unit) multiset) \<Rightarrow> 's \<Rightarrow> 't set" where
  "set_elems contents s = keys_of (contents s)"

locale set_over_pairs = pair_container ops inv contents capacity
  for ops :: "('s, 't::linorder, unit) container_ops"
    and inv :: "'s \<Rightarrow> bool"
    and contents :: "'s \<Rightarrow> ('t \<times> unit) multiset"
    and capacity :: "'s \<Rightarrow> bool"
begin

lemma set_enumerate_eq:
  "s_enumerate (set_kernel_1 ops) n s =
     map_option (apfst (map fst)) (enumerate_loop (c_move_next ops) (c_element ops) n (c_reset ops s))"
proof -
  have "set_move_next ops = c_move_next ops" "set_element ops = (\<lambda>s. map_option fst (c_element ops s))"
    by (simp_all add: fun_eq_iff set_kernel_1_defs)
  then show ?thesis by (simp add: set_kernel_1_def set_reset_def enumerate_loop_map del: enumerate_loop.simps)
qed

lemma set_enumerate_spec:
  assumes "set_inv inv contents s" "capacity s"
  shows "\<exists>ps s'. enumerate_loop (c_move_next ops) (c_element ops) (Suc (card (set_elems contents s)))
       (c_reset ops s) = Some (ps, s') \<and>
    s_enumerate (set_kernel_1 ops) (Suc (card (set_elems contents s))) s = Some (map fst ps, s') \<and>
    set_inv inv contents s' \<and> set_elems contents s' = set_elems contents s \<and> mset ps = contents s"
proof -
  from assms have inv: "inv s" "distinct_keys (contents s)" by (simp_all add: set_inv_def)
  from enumerate_spec [OF inv(1) assms(2)] inv(2) show ?thesis
    by (auto simp: set_enumerate_eq set_inv_def set_elems_def distinct_keys_card [OF inv(2)]
      simp del: enumerate_loop.simps)
qed

lemma removed_set:
  assumes "set_inv inv contents s" "inv s'" "contents s = add_mset (d, r) (contents s')"
  shows "set_inv inv contents s' \<and> set_elems contents s' = set_elems contents s - {d} \<and> d \<in> set_elems contents s"
proof -
  from assms(1) have "distinct_keys (contents s)" by (simp add: set_inv_def)
  from keys_removed [OF this assms(3)] assms(2,3) show ?thesis
    by (auto simp: set_inv_def set_elems_def)
qed

lemma set_container_laws: "set_container (set_kernel_1 ops) (set_inv inv contents) (set_elems contents) capacity"
proof
  fix s s' :: 's and x :: 't
  assume sinv: "set_inv inv contents s"
  then have inv: "inv s" "distinct_keys (contents s)" by (simp_all add: set_inv_def)
  show "finite (set_elems contents s)" by (simp add: set_elems_def)
  show "\<exists>s'. s_clear (set_kernel_1 ops) s = Some s' \<and> set_inv inv contents s' \<and> set_elems contents s' = {}"
    using clear_spec [OF inv(1)] by (auto simp: set_kernel_1_defs set_inv_def set_elems_def)
  show "\<exists>s'. s_add (set_kernel_1 ops) s x = Some s' \<and> set_inv inv contents s' \<and> set_elems contents s' = insert x (set_elems contents s)"
    if "x \<notin> set_elems contents s"
    using that add_spec [OF inv(1), of x "()"] inv(2)
    by (auto simp: set_kernel_1_defs set_inv_def set_elems_def distinct_keys_add)
  show "s_is_member (set_kernel_1 ops) s x \<longleftrightarrow> x \<in> set_elems contents s"
    using index_None [OF inv(1), of x] by (simp add: set_kernel_1_defs set_elems_def)
  show "\<exists>s'. s_remove (set_kernel_1 ops) s x = Some (s', x) \<and> set_inv inv contents s' \<and> set_elems contents s' = set_elems contents s - {x}"
    if "x \<in> set_elems contents s"
    using that remove_spec [OF inv(1), of x] removed_set [OF sinv]
    by (fastforce simp: set_kernel_1_defs set_elems_def)
  show "\<exists>s'. s_destroy (set_kernel_1 ops) s x = Some s' \<and> set_inv inv contents s' \<and> set_elems contents s' = set_elems contents s - {x}"
    if "x \<in> set_elems contents s"
    using that destroy_spec [OF inv(1), of x] removed_set [OF sinv]
    by (fastforce simp: set_kernel_1_defs set_elems_def)
  show "\<exists>s' x. s_remove_any (set_kernel_1 ops) s = Some (s', x) \<and> set_inv inv contents s' \<and> x \<in> set_elems contents s \<and>
      set_elems contents s' = set_elems contents s - {x}" if "set_elems contents s \<noteq> {}"
  proof -
    from that have "contents s \<noteq> {#}" by (auto simp: set_elems_def)
    from remove_any_spec [OF inv(1) this] obtain s' d r where
      "c_remove_any ops s = Some (s', d, r)" "inv s'" "contents s = add_mset (d, r) (contents s')"
      by blast
    with removed_set [OF sinv this(2,3)] show ?thesis by (auto simp: set_kernel_1_defs)
  qed
  show "s_size (set_kernel_1 ops) s = card (set_elems contents s)"
    using size_spec [OF inv(1)] inv(2) by (simp add: set_kernel_1_defs set_elems_def distinct_keys_card)
  show "set_inv inv contents (s_reset (set_kernel_1 ops) s) \<and> set_elems contents (s_reset (set_kernel_1 ops) s) = set_elems contents s"
    using reset_spec [OF inv(1)] inv(2) by (simp add: set_kernel_1_defs set_inv_def set_elems_def)
  show "\<exists>x. s_element (set_kernel_1 ops) s = Some x \<and> x \<in> set_elems contents s"
    if "s_current_element_valid (set_kernel_1 ops) s"
    using that element_spec [OF inv(1)] by (force simp: set_kernel_1_defs set_elems_def)
  show "s_element (set_kernel_1 ops) s = None" if "\<not> s_current_element_valid (set_kernel_1 ops) s"
    using that element_None [OF inv(1)] by (simp add: set_kernel_1_defs)
  show "\<exists>s' more. s_move_next (set_kernel_1 ops) s = Some (s', more) \<and> set_inv inv contents s' \<and>
      set_elems contents s' = set_elems contents s \<and> s_current_element_valid (set_kernel_1 ops) s' = more"
    if "capacity s"
    using move_next_spec [OF inv(1) that] inv(2)
    by (auto simp: set_kernel_1_defs set_inv_def set_elems_def)
  show "capacity s' = capacity s" if "set_inv inv contents s'" "set_elems contents s' = set_elems contents s"
  proof -
    have same: "contents s' = contents s"
      using that inv(2) by (intro unit_contents_eq) (simp_all add: set_inv_def set_elems_def)
    from that(1) have "inv s'" by (simp add: set_inv_def)
    from capacity_contents [OF inv(1) this same] show ?thesis .
  qed
  show "\<exists>xs s'. s_enumerate (set_kernel_1 ops) (Suc (card (set_elems contents s))) s = Some (xs, s') \<and>
      set_inv inv contents s' \<and> set_elems contents s' = set_elems contents s \<and> set xs = set_elems contents s \<and> distinct xs"
    if "capacity s"
  proof -
    from set_enumerate_spec [OF sinv that] obtain ps s' where ps:
      "s_enumerate (set_kernel_1 ops) (Suc (card (set_elems contents s))) s = Some (map fst ps, s')"
      "set_inv inv contents s'" "set_elems contents s' = set_elems contents s" "mset ps = contents s" by blast
    have "set_mset (contents s) = set ps" unfolding ps(4) [symmetric] by simp
    then have "set (map fst ps) = set_elems contents s" by (simp add: set_elems_def)
    moreover have "distinct (map fst ps)"
      using inv(2) by (intro distinct_enumeration) (simp add: ps(4))
    ultimately show ?thesis using ps by blast
  qed
next
  show "s_reset (set_kernel_1 ops) (s_reset (set_kernel_1 ops) s) = s_reset (set_kernel_1 ops) s" for s
    by (simp add: set_kernel_1_defs reset_reset)
qed

end

sublocale set_over_pairs \<subseteq> sets: set_container "set_kernel_1 ops" "set_inv inv contents" "set_elems contents" capacity
  by (rule set_container_laws)

locale set_over_asc_pairs = asc_pair_container ops inv contents capacity
  for ops :: "('s, 't::linorder, unit) container_ops"
    and inv :: "'s \<Rightarrow> bool"
    and contents :: "'s \<Rightarrow> ('t \<times> unit) multiset"
    and capacity :: "'s \<Rightarrow> bool"

sublocale set_over_asc_pairs \<subseteq> set_over_pairs ops inv contents capacity ..

sublocale set_over_asc_pairs \<subseteq> asc_sets: asc_set_container "set_kernel_1 ops" "set_inv inv contents" "set_elems contents" capacity
proof
  fix s s' :: 's and x :: 't and xs :: "'t list"
  assume sinv: "set_inv inv contents s"
  then have inv: "inv s" "distinct_keys (contents s)" by (simp_all add: set_inv_def)
  show "\<forall>y \<in> set_elems contents s'. x \<le> y" if "s_remove_any (set_kernel_1 ops) s = Some (s', x)"
    using that remove_any_least [OF inv(1)] by (auto simp: set_kernel_1_defs set_elems_def split: bind_splits)
  show "sorted xs" if cap: "capacity s"
    and "s_enumerate (set_kernel_1 ops) (Suc (card (set_elems contents s))) s = Some (xs, s')"
  proof -
    from set_enumerate_spec [OF sinv cap] that(2) obtain ps where
      "enumerate_loop (c_move_next ops) (c_element ops) (Suc (card (set_elems contents s))) (c_reset ops s)
         = Some (ps, s')" "xs = map fst ps" by auto
    with enumerate_sorted [OF inv(1) cap, of ps s'] show ?thesis
      by (simp add: set_elems_def distinct_keys_card [OF inv(2)])
  qed
qed

section \<open>The set over the balanced tree\<close>

abbreviation bst_set_ops :: "(('t::linorder, unit) bst, 't) set_ops" where
  "bst_set_ops \<equiv> set_kernel_1 bst_ops"

interpretation bst_set: set_over_asc_pairs bst_ops bst_inv bst_contents bst_capacity ..

interpretation bst_set_laws: asc_set_container bst_set_ops "set_inv bst_inv bst_contents"
  "set_elems bst_contents" bst_capacity ..

section \<open>Properties of the set\<close>

text \<open>The sets {1, 2, 3} and {1, 2, 4}, for the instances below.\<close>

definition sample_set :: "nat \<Rightarrow> (nat, unit) bst" where
  "sample_set k = \<lparr>tree_size = 3, tree_root = Node 0 (Node 1 Null 1 () 0 Null) 2 () 0 (Node 2 Null k () 0 Null),
      current_element = None, pool = 3, tree_height = 2, at_start = True, stack_pos = 0,
      stack = replicate 50 0\<rparr>"

lemma sample_set_inv:
  assumes "2 < k"
  shows "set_inv bst_inv bst_contents (sample_set k)" "bst_capacity (sample_set k)"
    "set_elems bst_contents (sample_set k) = {1, 2, k}"
  using assms by (auto simp: set_inv_def bst_inv_def tree_inv_def enum_inv_def ordered_def
      height_diff_def bst_capacity_def set_elems_def bst_contents_def sample_set_def distinct_keys_add)

text \<open>
  C8. The set over the balanced tree is a finite set. \<open>is_member\<close> and \<open>size\<close> read it; \<open>add\<close>, \<open>remove\<close>, \<open>destroy\<close> and \<open>remove_any\<close>, which
  takes the least element, are defined whenever their requires clauses hold, keep the invariant and act on the elements as the
  operations of the abstract set do; \<open>clear\<close> empties it; \<open>reset\<close> and \<open>move_next\<close> keep the elements, \<open>element\<close> is one of them while the
  enumerator is valid, and a whole enumeration delivers them in ascending order; \<open>swap\<close> exchanges two sets. A tree of \<open>2 ^ 36\<close> elements is too large to be enumerated.
\<close>

theorem set_kernel_1_refines:
  assumes "set_inv bst_inv bst_contents s"
  shows "(set_is_member bst_ops s x \<longleftrightarrow> x \<in> set_elems bst_contents s) \<and>
    set_size bst_ops s = card (set_elems bst_contents s) \<and>
    (x \<notin> set_elems bst_contents s \<longrightarrow> (\<exists>s'. set_add bst_ops s x = Some s' \<and>
       set_inv bst_inv bst_contents s' \<and> set_elems bst_contents s' = insert x (set_elems bst_contents s))) \<and>
    (x \<in> set_elems bst_contents s \<longrightarrow> (\<exists>s'. set_remove bst_ops s x = Some (s', x) \<and> set_destroy bst_ops s x = Some s' \<and>
       set_inv bst_inv bst_contents s' \<and> set_elems bst_contents s' = set_elems bst_contents s - {x})) \<and>
    (set_elems bst_contents s \<noteq> {} \<longrightarrow> (\<exists>s'. set_remove_any bst_ops s = Some (s', Min (set_elems bst_contents s)) \<and>
       set_inv bst_inv bst_contents s' \<and>
       set_elems bst_contents s' = set_elems bst_contents s - {Min (set_elems bst_contents s)})) \<and>
    (\<exists>s'. set_clear bst_ops s = Some s' \<and> set_inv bst_inv bst_contents s' \<and> set_elems bst_contents s' = {}) \<and>
    set_inv bst_inv bst_contents (set_reset bst_ops s) \<and> set_elems bst_contents (set_reset bst_ops s) = set_elems bst_contents s \<and>
    (if set_current_element_valid bst_ops s then \<exists>x \<in> set_elems bst_contents s. set_element bst_ops s = Some x
     else set_element bst_ops s = None) \<and>
    (bst_capacity s \<longrightarrow> (\<exists>s' more. set_move_next bst_ops s = Some (s', more) \<and> set_current_element_valid bst_ops s' = more \<and>
       set_inv bst_inv bst_contents s' \<and> set_elems bst_contents s' = set_elems bst_contents s)) \<and>
    (bst_capacity s \<longrightarrow> (\<exists>s'. enumerate_loop (set_move_next bst_ops) (set_element bst_ops) (Suc (card (set_elems bst_contents s))) (set_reset bst_ops s) =
       Some (sorted_list_of_set (set_elems bst_contents s), s') \<and> set_inv bst_inv bst_contents s' \<and> set_elems bst_contents s' = set_elems bst_contents s)) \<and>
    set_swap s t = (t, s)"
proof -
  have any: "\<exists>s'. set_remove_any bst_ops s = Some (s', Min (set_elems bst_contents s)) \<and>
       set_inv bst_inv bst_contents s' \<and>
       set_elems bst_contents s' = set_elems bst_contents s - {Min (set_elems bst_contents s)}"
    if "set_elems bst_contents s \<noteq> {}"
  proof -
    from bst_set.sets.remove_any_spec [OF assms that] obtain s' y where
      y: "s_remove_any bst_set_ops s = Some (s', y)" "set_inv bst_inv bst_contents s'"
      "y \<in> set_elems bst_contents s" "set_elems bst_contents s' = set_elems bst_contents s - {y}" by blast
    from bst_set.asc_sets.remove_any_least [OF assms y(1)] y(3,4)
    have "Min (set_elems bst_contents s) = y"
      using bst_set.sets.finite_elems [OF assms] by (intro Min_eqI) auto
    with y show ?thesis by (auto simp: set_kernel_1_def)
  qed
  have enumerated: "\<exists>s'. enumerate_loop (set_move_next bst_ops) (set_element bst_ops) (Suc (card (set_elems bst_contents s))) (set_reset bst_ops s) =
       Some (sorted_list_of_set (set_elems bst_contents s), s') \<and> set_inv bst_inv bst_contents s' \<and> set_elems bst_contents s' = set_elems bst_contents s" if cap: "bst_capacity s"
  proof -
    from bst_set.sets.enumerate_spec [OF assms cap] obtain xs s' where xs:
      "s_enumerate bst_set_ops (Suc (card (set_elems bst_contents s))) s = Some (xs, s')" "set_inv bst_inv bst_contents s'"
      "set_elems bst_contents s' = set_elems bst_contents s" "set xs = set_elems bst_contents s" "distinct xs" by blast
    from bst_set.asc_sets.enumerate_sorted [OF assms cap xs(1)] xs(4,5)
    have "xs = sorted_list_of_set (set_elems bst_contents s)" by (metis sorted_list_of_set.idem_if_sorted_distinct)
    with xs show ?thesis by (simp add: set_kernel_1_def del: enumerate_loop.simps)
  qed
  have destroy: "set_destroy bst_ops s x = map_option fst (set_remove bst_ops s x)"
    by (cases "bst_remove s x") (simp_all add: set_destroy_def set_remove_def bst_ops_def bst_destroy_eq split: prod.split)
  note fold = set_kernel_1_def set_ops.select_convs
  note add = bst_set.sets.add_spec [OF assms, of x, unfolded fold]
  have remove: "\<exists>s'. set_remove bst_ops s x = Some (s', x) \<and> set_destroy bst_ops s x = Some s' \<and>
       set_inv bst_inv bst_contents s' \<and> set_elems bst_contents s' = set_elems bst_contents s - {x}"
    if "x \<in> set_elems bst_contents s"
  proof -
    from bst_set.sets.remove_spec [OF assms that, unfolded fold] obtain s' where
      "set_remove bst_ops s x = Some (s', x)" "set_inv bst_inv bst_contents s'"
      "set_elems bst_contents s' = set_elems bst_contents s - {x}" by blast
    with destroy show ?thesis by simp
  qed
  have element: "if set_current_element_valid bst_ops s then \<exists>x \<in> set_elems bst_contents s. set_element bst_ops s = Some x
     else set_element bst_ops s = None"
    using bst_set.sets.element_spec [OF assms, unfolded fold] bst_set.sets.element_None [OF assms, unfolded fold]
    by (simp split: if_split) blast
  have move: "\<exists>s' more. set_move_next bst_ops s = Some (s', more) \<and> set_current_element_valid bst_ops s' = more \<and>
       set_inv bst_inv bst_contents s' \<and> set_elems bst_contents s' = set_elems bst_contents s" if "bst_capacity s"
    using bst_set.sets.move_next_spec [OF assms that, unfolded fold] by blast
  show ?thesis
    by (intro conjI impI bst_set.sets.is_member_spec [OF assms, unfolded fold] bst_set.sets.size_spec [OF assms, unfolded fold]
      add remove any bst_set.sets.clear_spec [OF assms, unfolded fold] element move enumerated
      conjunct1 [OF bst_set.sets.reset_spec [OF assms, unfolded fold]] conjunct2 [OF bst_set.sets.reset_spec [OF assms, unfolded fold]]
      set_swap_def)
qed

theorem set_kernel_1_refines_witness:
  "set_is_member bst_ops (sample_set 3) 2 \<and> set_size bst_ops (sample_set 3) = 3 \<and>
   (\<exists>s'. set_add bst_ops (sample_set 3) 7 = Some s' \<and> set_elems bst_contents s' = {1, 2, 3, 7})"
proof -
  have inv: "set_inv bst_inv bst_contents (sample_set 3)" by (rule sample_set_inv) simp
  have el: "set_elems bst_contents (sample_set 3) = {1, 2, 3}" by (rule sample_set_inv) simp
  from set_kernel_1_refines [OF inv, of 7 "sample_set 3"] set_kernel_1_refines [OF inv, of 2 "sample_set 3"] show ?thesis
    by (auto simp: el)
qed

text \<open>
  C9. No call of a method that the checked set \<open>set_kernel_c\<close> over the tree guards has undefined behaviour: each of \<open>add\<close>, \<open>remove\<close>,
  \<open>destroy\<close>, \<open>remove_any\<close> and \<open>element\<close> either throws \<open>EBROKEN_ASSERT\<close>, exactly when its requires clause fails, or returns with
  the effect on the elements. \<open>differ\<close> says that the two arguments of \<open>remove\<close> are different objects, which it requires.
\<close>

theorem set_kernel_c_contract:
  assumes "set_inv bst_inv bst_contents s"
  shows "(case set_c_add bst_set_ops s x of
      Undefined \<Rightarrow> False
    | Throws e \<Rightarrow> e = EBROKEN_ASSERT \<and> x \<in> set_elems bst_contents s
    | Returns s' \<Rightarrow> x \<notin> set_elems bst_contents s \<and> set_inv bst_inv bst_contents s' \<and>
        set_elems bst_contents s' = insert x (set_elems bst_contents s)) \<and>
   (case set_c_remove bst_set_ops s x differ of
      Undefined \<Rightarrow> False
    | Throws e \<Rightarrow> e = EBROKEN_ASSERT \<and> (x \<notin> set_elems bst_contents s \<or> \<not> differ)
    | Returns (s', y) \<Rightarrow> y = x \<and> x \<in> set_elems bst_contents s \<and> differ \<and> set_inv bst_inv bst_contents s' \<and>
        set_elems bst_contents s' = set_elems bst_contents s - {x}) \<and>
   (case set_c_destroy bst_set_ops s x of
      Undefined \<Rightarrow> False
    | Throws e \<Rightarrow> e = EBROKEN_ASSERT \<and> x \<notin> set_elems bst_contents s
    | Returns s' \<Rightarrow> x \<in> set_elems bst_contents s \<and> set_inv bst_inv bst_contents s' \<and>
        set_elems bst_contents s' = set_elems bst_contents s - {x}) \<and>
   (case set_c_remove_any bst_set_ops s of
      Undefined \<Rightarrow> False
    | Throws e \<Rightarrow> e = EBROKEN_ASSERT \<and> set_elems bst_contents s = {}
    | Returns (s', y) \<Rightarrow> y \<in> set_elems bst_contents s \<and> set_inv bst_inv bst_contents s' \<and>
        set_elems bst_contents s' = set_elems bst_contents s - {y}) \<and>
   (case set_c_element bst_set_ops s of
      Undefined \<Rightarrow> False
    | Throws e \<Rightarrow> e = EBROKEN_ASSERT \<and> \<not> set_current_element_valid bst_ops s
    | Returns y \<Rightarrow> set_current_element_valid bst_ops s \<and> set_element bst_ops s = Some y \<and> y \<in> set_elems bst_contents s)"
proof -
  have fold: "s_element bst_set_ops = set_element bst_ops"
    "s_current_element_valid bst_set_ops = set_current_element_valid bst_ops" by (simp_all add: set_kernel_1_def)
  show ?thesis
    by (intro conjI bst_set.sets.checked_add [OF assms] bst_set.sets.checked_remove [OF assms]
      bst_set.sets.checked_destroy [OF assms] bst_set.sets.checked_remove_any [OF assms]
      bst_set.sets.checked_element [OF assms, unfolded fold])
qed

theorem set_kernel_c_contract_witness:
  "set_c_remove bst_set_ops (sample_set 3) 7 True = Throws EBROKEN_ASSERT"
proof -
  have inv: "set_inv bst_inv bst_contents (sample_set 3)" by (rule sample_set_inv) simp
  have el: "set_elems bst_contents (sample_set 3) = {1, 2, 3}" by (rule sample_set_inv) simp
  from set_kernel_c_contract [OF inv, of 7 True] show ?thesis
    by (auto simp: el split: outcome.splits)
qed

text \<open>
  \<open>operator<\<close> of \<open>set_compare_1\<close> on two different sets first compares the sizes and then, for
  sets of the same size, the ascending sequences of their elements lexicographically.
\<close>

theorem set_less_lexicographic:
  assumes "set_inv bst_inv bst_contents s" "bst_capacity s"
    and "set_inv bst_inv bst_contents t" "bst_capacity t"
  shows "\<exists>w'. set_less bst_set_ops this_of_pair rhs_of_pair (s, t) = Some (w',
      card (set_elems bst_contents s) < card (set_elems bst_contents t) \<or>
      card (set_elems bst_contents s) = card (set_elems bst_contents t) \<and>
        ord_class.lexordp (sorted_list_of_set (set_elems bst_contents s))
          (sorted_list_of_set (set_elems bst_contents t)))"
  using assms by (rule bst_set.asc_sets.less_spec)

theorem set_less_lexicographic_witness:
  "\<exists>w'. set_less bst_set_ops this_of_pair rhs_of_pair (sample_set 3, sample_set 4) = Some (w', True)"
proof -
  have el: "set_elems bst_contents (sample_set 3) = {1, 2, 3}"
    "set_elems bst_contents (sample_set 4) = {1, 2, 4}" by (rule sample_set_inv, simp)+
  have "sorted_list_of_set {1, 2, 3::nat} = [1, 2, 3]" "sorted_list_of_set {1, 2, 4::nat} = [1, 2, 4]"
    by (simp_all add: sorted_list_of_set_insert)
  moreover have "ord_class.lexordp [1, 2, 3::nat] [1, 2, 4]" by simp
  ultimately show ?thesis
    using set_less_lexicographic [of "sample_set 3" "sample_set 4"] sample_set_inv [of 3] sample_set_inv [of 4]
    by (simp add: el)
qed

text \<open>
  A set with an odd number of elements compared by \<open>operator<\<close> with itself has no defined
  behaviour: both sides move the same enumerator, and the loop reads an element past its end. With an
  even number the result is false, as it should be.
\<close>

theorem set_less_self:
  assumes "set_inv bst_inv bst_contents s" "bst_capacity s"
  shows "if even (card (set_elems bst_contents s))
    then \<exists>s'. set_less bst_set_ops same_object same_object s = Some (s', False)
    else set_less bst_set_ops same_object same_object s = None"
  using assms by (rule bst_set.sets.less_self)

theorem set_less_self_witness:
  "set_less bst_set_ops same_object same_object (sample_set 3) = None"
  using set_less_self [of "sample_set 3"] sample_set_inv [of 3] by simp

text \<open>\<open>operator==\<close> of \<open>set_compare_1\<close> on two different sets decides equality of the elements.\<close>

theorem set_equal_decides:
  assumes "set_inv bst_inv bst_contents s" "bst_capacity s"
    and "set_inv bst_inv bst_contents t" "bst_capacity t"
  shows "\<exists>w'. set_equal bst_set_ops this_of_pair rhs_of_pair (s, t) =
    Some (w', set_elems bst_contents s = set_elems bst_contents t)"
  using assms by (rule bst_set.asc_sets.equal_spec)

theorem set_equal_decides_witness:
  "\<exists>w'. set_equal bst_set_ops this_of_pair rhs_of_pair (sample_set 3, sample_set 4) = Some (w', False)"
proof -
  have "set_elems bst_contents (sample_set 3) \<noteq> set_elems bst_contents (sample_set 4)"
    using sample_set_inv(3) [of 3] sample_set_inv(3) [of 4] by auto
  with set_equal_decides [of "sample_set 3" "sample_set 4"] sample_set_inv [of 3] sample_set_inv [of 4]
  show ?thesis by simp
qed

end
