(* ===== verification/Map_Container.thy ===== *)
theory Map_Container
  imports Pair_Container Checked_Assert
begin

text \<open>
  The interface of the maps of dlib (\<open>map/map_kernel_abstract.h\<close>, \<open>hash_map_kernel_abstract.h\<close>)
  and the checked map \<open>map/map_kernel_c.h\<close>, which is written against it. References that
  \<open>operator[]\<close> and \<open>element\<close> return are modelled as the values they refer to.
\<close>

section \<open>The operations of a map\<close>

record ('s, 'd, 'r) map_ops =
  m_clear :: "'s \<Rightarrow> 's option"
  m_add :: "'s \<Rightarrow> 'd \<Rightarrow> 'r \<Rightarrow> 's option"
  m_is_in_domain :: "'s \<Rightarrow> 'd \<Rightarrow> bool"
  m_remove_any :: "'s \<Rightarrow> ('s \<times> 'd \<times> 'r) option"
  m_remove :: "'s \<Rightarrow> 'd \<Rightarrow> ('s \<times> 'd \<times> 'r) option"
  m_destroy :: "'s \<Rightarrow> 'd \<Rightarrow> 's option"
  m_index :: "'s \<Rightarrow> 'd \<Rightarrow> 'r option"
  m_size :: "'s \<Rightarrow> nat"
  m_at_start :: "'s \<Rightarrow> bool"
  m_reset :: "'s \<Rightarrow> 's"
  m_current_element_valid :: "'s \<Rightarrow> bool"
  m_element :: "'s \<Rightarrow> ('d \<times> 'r) option"
  m_move_next :: "'s \<Rightarrow> ('s \<times> bool) option"

abbreviation m_enumerate where
  "m_enumerate ops n s \<equiv> enumerate_loop (m_move_next ops) (m_element ops) n (m_reset ops s)"

section \<open>The checked map\<close>

text \<open>\<open>differ\<close> tells whether the arguments the assertion compares are different objects.\<close>

definition map_c_add :: "('s, 'd, 'r) map_ops \<Rightarrow> 's \<Rightarrow> 'd \<Rightarrow> 'r \<Rightarrow> bool \<Rightarrow> 's outcome" where
  "map_c_add base s d r differ =
     dlib_cassert (\<not> m_is_in_domain base s d \<and> differ) (run_unchecked (m_add base s d r))"

definition map_c_remove_any :: "('s, 'd, 'r) map_ops \<Rightarrow> 's \<Rightarrow> bool \<Rightarrow> ('s \<times> 'd \<times> 'r) outcome" where
  "map_c_remove_any base s differ =
     dlib_cassert (m_size base s > 0 \<and> differ) (run_unchecked (m_remove_any base s))"

definition map_c_remove :: "('s, 'd, 'r) map_ops \<Rightarrow> 's \<Rightarrow> 'd \<Rightarrow> bool \<Rightarrow> ('s \<times> 'd \<times> 'r) outcome" where
  "map_c_remove base s d differ =
     dlib_cassert (m_is_in_domain base s d \<and> differ) (run_unchecked (m_remove base s d))"

definition map_c_destroy :: "('s, 'd, 'r) map_ops \<Rightarrow> 's \<Rightarrow> 'd \<Rightarrow> 's outcome" where
  "map_c_destroy base s d =
     dlib_cassert (m_is_in_domain base s d) (run_unchecked (m_destroy base s d))"

definition map_c_index :: "('s, 'd, 'r) map_ops \<Rightarrow> 's \<Rightarrow> 'd \<Rightarrow> 'r outcome" where
  "map_c_index base s d =
     dlib_cassert (m_is_in_domain base s d) (run_unchecked (m_index base s d))"

definition map_c_element :: "('s, 'd, 'r) map_ops \<Rightarrow> 's \<Rightarrow> ('d \<times> 'r) outcome" where
  "map_c_element base s =
     dlib_cassert (m_current_element_valid base s = True) (run_unchecked (m_element base s))"

section \<open>What the operations promise\<close>

locale map_container =
  fixes ops :: "('s, 'd, 'r) map_ops"
    and inv :: "'s \<Rightarrow> bool"
    and lookup :: "'s \<Rightarrow> 'd \<rightharpoonup> 'r"
    and capacity :: "'s \<Rightarrow> bool"
  assumes finite_dom: "inv s \<Longrightarrow> finite (dom (lookup s))"
    and clear_spec: "inv s \<Longrightarrow> \<exists>s'. m_clear ops s = Some s' \<and> inv s' \<and> lookup s' = Map.empty"
    and add_spec: "inv s \<Longrightarrow> d \<notin> dom (lookup s) \<Longrightarrow>
      \<exists>s'. m_add ops s d r = Some s' \<and> inv s' \<and> lookup s' = (lookup s)(d \<mapsto> r)"
    and is_in_domain_spec: "inv s \<Longrightarrow> m_is_in_domain ops s d \<longleftrightarrow> d \<in> dom (lookup s)"
    and index_spec: "inv s \<Longrightarrow> m_index ops s d = lookup s d"
    and remove_spec: "inv s \<Longrightarrow> lookup s d = Some r \<Longrightarrow>
      \<exists>s'. m_remove ops s d = Some (s', d, r) \<and> inv s' \<and> lookup s' = (lookup s)(d := None)"
    and destroy_spec: "inv s \<Longrightarrow> d \<in> dom (lookup s) \<Longrightarrow>
      \<exists>s'. m_destroy ops s d = Some s' \<and> inv s' \<and> lookup s' = (lookup s)(d := None)"
    and remove_any_spec: "inv s \<Longrightarrow> lookup s \<noteq> Map.empty \<Longrightarrow>
      \<exists>s' d r. m_remove_any ops s = Some (s', d, r) \<and> inv s' \<and> lookup s d = Some r \<and>
        lookup s' = (lookup s)(d := None)"
    and size_spec: "inv s \<Longrightarrow> m_size ops s = card (dom (lookup s))"
    and reset_spec: "inv s \<Longrightarrow> inv (m_reset ops s) \<and> lookup (m_reset ops s) = lookup s"
    and element_spec: "inv s \<Longrightarrow> m_current_element_valid ops s \<Longrightarrow>
      \<exists>d r. m_element ops s = Some (d, r) \<and> lookup s d = Some r"
    and element_None: "inv s \<Longrightarrow> \<not> m_current_element_valid ops s \<Longrightarrow> m_element ops s = None"
    and move_next_spec: "inv s \<Longrightarrow> capacity s \<Longrightarrow>
      \<exists>s' more. m_move_next ops s = Some (s', more) \<and> inv s' \<and> lookup s' = lookup s \<and>
        m_current_element_valid ops s' = more"
    and enumerate_spec: "inv s \<Longrightarrow> capacity s \<Longrightarrow>
      \<exists>ps s'. m_enumerate ops (Suc (card (dom (lookup s)))) s = Some (ps, s') \<and>
        inv s' \<and> lookup s' = lookup s \<and> map_of ps = lookup s \<and> distinct (map fst ps)"
begin

lemma in_dom: "d \<in> dom (lookup s) \<longleftrightarrow> (\<exists>r. lookup s d = Some r)"
  by blast

lemma size_zero: "inv s \<Longrightarrow> 0 < m_size ops s \<longleftrightarrow> lookup s \<noteq> Map.empty"
  using finite_dom [of s] by (simp add: size_spec card_gt_0_iff)

lemma checked_defined:
  assumes "inv s"
  shows "defined (map_c_add ops s d r differ)" "defined (map_c_remove ops s d differ)"
    "defined (map_c_destroy ops s d)" "defined (map_c_remove_any ops s differ)"
    "defined (map_c_index ops s d)" "defined (map_c_element ops s)"
proof -
  show "defined (map_c_add ops s d r differ)"
    using assms add_spec [of s d r] is_in_domain_spec [of s d] by (auto simp: map_c_add_def)
  show "defined (map_c_remove ops s d differ)"
    using assms remove_spec [of s d] is_in_domain_spec [of s d] by (auto simp: map_c_remove_def)
  show "defined (map_c_destroy ops s d)"
    using assms destroy_spec [of s d] is_in_domain_spec [of s d] by (auto simp: map_c_destroy_def)
  show "defined (map_c_remove_any ops s differ)"
    using assms remove_any_spec [of s] size_zero [of s] by (auto simp: map_c_remove_any_def)
  show "defined (map_c_index ops s d)"
    using assms index_spec [of s d] is_in_domain_spec [of s d] by (auto simp: map_c_index_def)
  show "defined (map_c_element ops s)"
    using assms element_spec [of s] by (auto simp: map_c_element_def)
qed

lemma checked_inv:
  assumes "inv s"
  shows "map_c_add ops s d r differ = Returns s' \<Longrightarrow>
      inv s' \<and> lookup s d = None \<and> lookup s' = (lookup s)(d \<mapsto> r)"
    "map_c_remove ops s d differ = Returns (s', k, v) \<Longrightarrow>
       inv s' \<and> k = d \<and> lookup s d = Some v \<and> lookup s' = (lookup s)(d := None)"
    "map_c_destroy ops s d = Returns s' \<Longrightarrow>
       inv s' \<and> d \<in> dom (lookup s) \<and> lookup s' = (lookup s)(d := None)"
    "map_c_remove_any ops s differ = Returns (s', k, v) \<Longrightarrow>
       inv s' \<and> lookup s k = Some v \<and> lookup s' = (lookup s)(k := None)"
    "map_c_index ops s d = Returns v \<Longrightarrow> lookup s d = Some v"
proof -
  show "map_c_add ops s d r differ = Returns s' \<Longrightarrow>
      inv s' \<and> lookup s d = None \<and> lookup s' = (lookup s)(d \<mapsto> r)"
    using assms add_spec [of s d r] is_in_domain_spec [of s d] by (auto simp: map_c_add_def)
  show "map_c_remove ops s d differ = Returns (s', k, v) \<Longrightarrow>
       inv s' \<and> k = d \<and> lookup s d = Some v \<and> lookup s' = (lookup s)(d := None)"
    using assms remove_spec [of s d] is_in_domain_spec [of s d] by (auto simp: map_c_remove_def)
  show "map_c_destroy ops s d = Returns s' \<Longrightarrow>
       inv s' \<and> d \<in> dom (lookup s) \<and> lookup s' = (lookup s)(d := None)"
    using assms destroy_spec [of s d] is_in_domain_spec [of s d] by (auto simp: map_c_destroy_def)
  show "map_c_remove_any ops s differ = Returns (s', k, v) \<Longrightarrow>
       inv s' \<and> lookup s k = Some v \<and> lookup s' = (lookup s)(k := None)"
    using assms remove_any_spec [of s] size_zero [of s] by (auto simp: map_c_remove_any_def)
  show "map_c_index ops s d = Returns v \<Longrightarrow> lookup s d = Some v"
    using assms index_spec [of s d] by (simp add: map_c_index_def)
qed

end

locale asc_map_container = map_container ops inv lookup capacity
  for ops :: "('s, 'd::linorder, 'r) map_ops"
    and inv :: "'s \<Rightarrow> bool"
    and lookup :: "'s \<Rightarrow> 'd \<rightharpoonup> 'r"
    and capacity :: "'s \<Rightarrow> bool" +
  assumes remove_any_least: "inv s \<Longrightarrow> m_remove_any ops s = Some (s', d, r) \<Longrightarrow>
      \<forall>k \<in> dom (lookup s'). d \<le> k"
    and enumerate_sorted: "inv s \<Longrightarrow> capacity s \<Longrightarrow>
      m_enumerate ops (Suc (card (dom (lookup s)))) s = Some (ps, s') \<Longrightarrow> sorted (map fst ps)"

end
