(* ===== verification/Map_Kernel_1.thy ===== *)
theory Map_Kernel_1
  imports Map_Container Bst_Correct
begin

text \<open>
  \<open>map/map_kernel_1.h\<close>: a map kept as the pairs of a container, the template argument
  \<open>bst_base\<close>, which holds at most one pair per key. The last section instantiates the container
  with the balanced tree, which is \<open>map<domain,range>::kernel_1a\<close> of \<open>map.h\<close>.
\<close>

section \<open>The operations\<close>

definition map_clear :: "('s, 'd, 'r) container_ops \<Rightarrow> 's \<Rightarrow> 's option" where
  "map_clear bst s = c_clear bst s"

definition map_add_pair :: "('s, 'd, 'r) container_ops \<Rightarrow> 's \<Rightarrow> 'd \<Rightarrow> 'r \<Rightarrow> 's option" where
  "map_add_pair bst s d r = c_add bst s d r"

definition map_is_in_domain :: "('s, 'd, 'r) container_ops \<Rightarrow> 's \<Rightarrow> 'd \<Rightarrow> bool" where
  "map_is_in_domain bst s d \<longleftrightarrow> c_index bst s d \<noteq> None"

definition map_remove_any :: "('s, 'd, 'r) container_ops \<Rightarrow> 's \<Rightarrow> ('s \<times> 'd \<times> 'r) option" where
  "map_remove_any bst s = c_remove_any bst s"

definition map_remove :: "('s, 'd, 'r) container_ops \<Rightarrow> 's \<Rightarrow> 'd \<Rightarrow> ('s \<times> 'd \<times> 'r) option" where
  "map_remove bst s d = c_remove bst s d"

definition map_destroy :: "('s, 'd, 'r) container_ops \<Rightarrow> 's \<Rightarrow> 'd \<Rightarrow> 's option" where
  "map_destroy bst s d = c_destroy bst s d"

definition map_index :: "('s, 'd, 'r) container_ops \<Rightarrow> 's \<Rightarrow> 'd \<Rightarrow> 'r option" where
  "map_index bst s d = c_index bst s d"

definition map_size :: "('s, 'd, 'r) container_ops \<Rightarrow> 's \<Rightarrow> nat" where
  "map_size bst s = c_size bst s"

definition map_swap :: "'s \<Rightarrow> 's \<Rightarrow> 's \<times> 's" where
  "map_swap s item = (item, s)"

definition map_at_start :: "('s, 'd, 'r) container_ops \<Rightarrow> 's \<Rightarrow> bool" where
  "map_at_start bst s = c_at_start bst s"

definition map_reset :: "('s, 'd, 'r) container_ops \<Rightarrow> 's \<Rightarrow> 's" where
  "map_reset bst s = c_reset bst s"

definition map_current_element_valid :: "('s, 'd, 'r) container_ops \<Rightarrow> 's \<Rightarrow> bool" where
  "map_current_element_valid bst s = c_current_element_valid bst s"

definition map_element :: "('s, 'd, 'r) container_ops \<Rightarrow> 's \<Rightarrow> ('d \<times> 'r) option" where
  "map_element bst s = c_element bst s"

definition map_move_next :: "('s, 'd, 'r) container_ops \<Rightarrow> 's \<Rightarrow> ('s \<times> bool) option" where
  "map_move_next bst s = c_move_next bst s"

definition map_kernel_1 :: "('s, 'd, 'r) container_ops \<Rightarrow> ('s, 'd, 'r) map_ops" where
  "map_kernel_1 bst = \<lparr>m_clear = map_clear bst, m_add = map_add_pair bst,
     m_is_in_domain = map_is_in_domain bst, m_remove_any = map_remove_any bst,
     m_remove = map_remove bst, m_destroy = map_destroy bst, m_index = map_index bst,
     m_size = map_size bst, m_at_start = map_at_start bst, m_reset = map_reset bst,
     m_current_element_valid = map_current_element_valid bst, m_element = map_element bst,
     m_move_next = map_move_next bst\<rparr>"

lemmas map_kernel_1_defs [model_defs] =
  map_kernel_1_def map_clear_def map_add_pair_def map_is_in_domain_def map_remove_any_def
  map_remove_def map_destroy_def map_index_def map_size_def map_at_start_def map_reset_def
  map_current_element_valid_def map_element_def map_move_next_def

section \<open>A map over any pair container\<close>

definition map_inv :: "('s \<Rightarrow> bool) \<Rightarrow> ('s \<Rightarrow> ('d \<times> 'r) multiset) \<Rightarrow> 's \<Rightarrow> bool" where
  "map_inv ok contents s \<longleftrightarrow> ok s \<and> distinct_keys (contents s)"

definition map_lookup :: "('s \<Rightarrow> ('d \<times> 'r) multiset) \<Rightarrow> 's \<Rightarrow> 'd \<rightharpoonup> 'r" where
  "map_lookup contents s = map_of_contents (contents s)"

locale map_over_pairs = pair_container ops inv contents capacity
  for ops :: "('s, 'd, 'r) container_ops"
    and inv :: "'s \<Rightarrow> bool"
    and contents :: "'s \<Rightarrow> ('d \<times> 'r) multiset"
    and capacity :: "'s \<Rightarrow> bool"
begin

lemma removed_map:
  assumes "map_inv inv contents s" "inv s'" "contents s = add_mset (d, r) (contents s')"
  shows "map_inv inv contents s' \<and> map_lookup contents s d = Some r \<and>
    map_lookup contents s' = (map_lookup contents s)(d := None)"
proof -
  from assms have d: "distinct_keys (add_mset (d, r) (contents s'))" by (simp add: map_inv_def)
  then have "distinct_keys (contents s')" "d \<notin> keys_of (contents s')"
    by (simp_all add: distinct_keys_add)
  with assms map_of_contents_add [OF d] show ?thesis
    by (auto simp: map_inv_def map_lookup_def map_of_contents_None fun_upd_idem_iff)
qed

lemma index_lookup:
  assumes "map_inv inv contents s"
  shows "c_index ops s d = map_lookup contents s d"
proof (cases "c_index ops s d")
  case None
  with assms show ?thesis
    by (simp add: map_inv_def index_None map_lookup_def map_of_contents_None)
next
  case (Some r)
  with assms have "(d, r) \<in># contents s" "distinct_keys (contents s)"
    by (auto simp: map_inv_def intro: index_Some)
  with Some show ?thesis by (simp add: map_lookup_def map_of_contents_eq)
qed

lemma map_container_laws:
  "map_container (map_kernel_1 ops) (map_inv inv contents) (map_lookup contents) capacity"
proof
  fix s :: 's and d :: 'd and r :: 'r
  assume minv: "map_inv inv contents s"
  then have inv: "inv s" "distinct_keys (contents s)" by (simp_all add: map_inv_def)
  have dom: "dom (map_lookup contents s) = keys_of (contents s)"
    using index_None [OF inv(1)] index_lookup [OF minv] by (auto simp: dom_def)
  show "finite (dom (map_lookup contents s))" by (simp add: dom)
  show "\<exists>s'. m_clear (map_kernel_1 ops) s = Some s' \<and> map_inv inv contents s' \<and>
      map_lookup contents s' = Map.empty"
    using clear_spec [OF inv(1)] by (auto simp: map_kernel_1_defs map_inv_def map_lookup_def)
  show "\<exists>s'. m_add (map_kernel_1 ops) s d r = Some s' \<and> map_inv inv contents s' \<and>
      map_lookup contents s' = (map_lookup contents s)(d \<mapsto> r)"
    if "d \<notin> dom (map_lookup contents s)"
  proof -
    from that inv(2) have "distinct_keys (add_mset (d, r) (contents s))"
      by (simp add: dom distinct_keys_add)
    with add_spec [OF inv(1), of d r] map_of_contents_add [OF this] show ?thesis
      by (auto simp: map_kernel_1_defs map_inv_def map_lookup_def)
  qed
  show "m_is_in_domain (map_kernel_1 ops) s d \<longleftrightarrow> d \<in> dom (map_lookup contents s)"
    using index_None [OF inv(1), of d] by (simp add: map_kernel_1_defs dom)
  show "m_index (map_kernel_1 ops) s d = map_lookup contents s d"
    using index_lookup [OF minv] by (simp add: map_kernel_1_defs)
  show "\<exists>s'. m_remove (map_kernel_1 ops) s d = Some (s', d, r) \<and> map_inv inv contents s' \<and>
      map_lookup contents s' = (map_lookup contents s)(d := None)"
    if "map_lookup contents s d = Some r"
  proof -
    from that have "d \<in> keys_of (contents s)" using dom by auto
    from remove_spec [OF inv(1) this] obtain s' v where
      "c_remove ops s d = Some (s', d, v)" "inv s'" "contents s = add_mset (d, v) (contents s')"
      by blast
    with removed_map [OF minv this(2,3)] that show ?thesis by (auto simp: map_kernel_1_defs)
  qed
  show "\<exists>s'. m_destroy (map_kernel_1 ops) s d = Some s' \<and> map_inv inv contents s' \<and>
      map_lookup contents s' = (map_lookup contents s)(d := None)"
    if "d \<in> dom (map_lookup contents s)"
    using destroy_spec [OF inv(1)] that [unfolded dom] removed_map [OF minv]
    by (simp add: map_kernel_1_defs) blast
  show "\<exists>s' d r. m_remove_any (map_kernel_1 ops) s = Some (s', d, r) \<and> map_inv inv contents s' \<and>
      map_lookup contents s d = Some r \<and> map_lookup contents s' = (map_lookup contents s)(d := None)"
    if "map_lookup contents s \<noteq> Map.empty"
  proof -
    from that have "contents s \<noteq> {#}" by (auto simp: map_lookup_def)
    from remove_any_spec [OF inv(1) this] obtain s' k v where
      "c_remove_any ops s = Some (s', k, v)" "inv s'" "contents s = add_mset (k, v) (contents s')"
      by blast
    with removed_map [OF minv this(2,3)] show ?thesis by (auto simp: map_kernel_1_defs)
  qed
  show "m_size (map_kernel_1 ops) s = card (dom (map_lookup contents s))"
    using size_spec [OF inv(1)] inv(2) by (simp add: map_kernel_1_defs dom distinct_keys_card)
  show "map_inv inv contents (m_reset (map_kernel_1 ops) s) \<and>
      map_lookup contents (m_reset (map_kernel_1 ops) s) = map_lookup contents s"
    using reset_spec [OF inv(1)] inv(2) by (simp add: map_kernel_1_defs map_inv_def map_lookup_def)
  show "\<exists>d r. m_element (map_kernel_1 ops) s = Some (d, r) \<and> map_lookup contents s d = Some r"
    if "m_current_element_valid (map_kernel_1 ops) s"
    using that element_spec [OF inv(1)] inv(2)
    by (force simp: map_kernel_1_defs map_lookup_def map_of_contents_eq)
  show "m_element (map_kernel_1 ops) s = None" if "\<not> m_current_element_valid (map_kernel_1 ops) s"
    using that element_None [OF inv(1)] by (simp add: map_kernel_1_defs)
  show "\<exists>s' more. m_move_next (map_kernel_1 ops) s = Some (s', more) \<and> map_inv inv contents s' \<and>
      map_lookup contents s' = map_lookup contents s \<and> m_current_element_valid (map_kernel_1 ops) s' = more"
    if "capacity s"
    using move_next_spec [OF inv(1) that] inv(2)
    by (auto simp: map_kernel_1_defs map_inv_def map_lookup_def)
  show "\<exists>ps s'. m_enumerate (map_kernel_1 ops) (Suc (card (dom (map_lookup contents s)))) s = Some (ps, s') \<and>
      map_inv inv contents s' \<and> map_lookup contents s' = map_lookup contents s \<and>
      map_of ps = map_lookup contents s \<and> distinct (map fst ps)"
    if "capacity s"
  proof -
    from enumerate_spec [OF inv(1) that] obtain ps s' where ps:
      "enumerate_loop (c_move_next ops) (c_element ops) (Suc (size (contents s))) (c_reset ops s)
        = Some (ps, s')" "inv s'" "contents s' = contents s" "mset ps = contents s" by blast
    from inv(2) have "map_of ps = map_lookup contents s" "distinct (map fst ps)"
      unfolding map_lookup_def ps(4) [symmetric] by (simp_all add: map_of_mset distinct_enumeration)
    moreover have "m_enumerate (map_kernel_1 ops) n s =
        enumerate_loop (c_move_next ops) (c_element ops) n (c_reset ops s)" for n
    proof -
      have "map_move_next ops = c_move_next ops" "map_element ops = c_element ops"
        by (simp_all add: fun_eq_iff map_kernel_1_defs)
      then show ?thesis by (simp add: map_kernel_1_def map_reset_def del: enumerate_loop.simps)
    qed
    moreover have "card (dom (map_lookup contents s)) = size (contents s)"
      using inv(2) by (simp add: dom distinct_keys_card)
    moreover have "map_inv inv contents s'" "map_lookup contents s' = map_lookup contents s"
      using ps inv(2) by (simp_all add: map_inv_def map_lookup_def)
    ultimately show ?thesis using ps(1) by (simp del: enumerate_loop.simps)
  qed
qed

end

sublocale map_over_pairs \<subseteq> maps: map_container "map_kernel_1 ops" "map_inv inv contents"
  "map_lookup contents" capacity
  by (rule map_container_laws)

locale map_over_asc_pairs = asc_pair_container ops inv contents capacity
  for ops :: "('s, 'd::linorder, 'r) container_ops"
    and inv :: "'s \<Rightarrow> bool"
    and contents :: "'s \<Rightarrow> ('d \<times> 'r) multiset"
    and capacity :: "'s \<Rightarrow> bool"

sublocale map_over_asc_pairs \<subseteq> map_over_pairs ops inv contents capacity ..

sublocale map_over_asc_pairs \<subseteq> asc_maps: asc_map_container "map_kernel_1 ops" "map_inv inv contents"
  "map_lookup contents" capacity
proof
  fix s s' :: 's and d :: 'd and r :: 'r and ps :: "('d \<times> 'r) list"
  assume minv: "map_inv inv contents s"
  then have inv: "inv s" "distinct_keys (contents s)" by (simp_all add: map_inv_def)
  have dom: "dom (map_lookup contents t) \<subseteq> keys_of (contents t)" for t
    by (auto simp: map_lookup_def map_of_contents_def split: if_splits)
  show "\<forall>k \<in> dom (map_lookup contents s'). d \<le> k"
    if "m_remove_any (map_kernel_1 ops) s = Some (s', d, r)"
    using that remove_any_least [OF inv(1)] dom [of s'] by (auto simp: map_kernel_1_defs)
  have "dom (map_lookup contents s) = keys_of (contents s)"
    using index_None [OF inv(1)] index_lookup [OF minv] by (auto simp: dom_def)
  then have card: "card (dom (map_lookup contents s)) = size (contents s)"
    using inv(2) by (simp add: distinct_keys_card)
  show "sorted (map fst ps)" if "capacity s"
    "m_enumerate (map_kernel_1 ops) (Suc (card (dom (map_lookup contents s)))) s = Some (ps, s')"
  proof -
    have "map_move_next ops = c_move_next ops" "map_element ops = c_element ops"
      by (simp_all add: fun_eq_iff map_kernel_1_defs)
    with that(2) enumerate_sorted [OF inv(1) that(1)] show ?thesis
      by (simp add: map_kernel_1_def map_reset_def card del: enumerate_loop.simps)
  qed
qed

section \<open>The map over the balanced tree\<close>

abbreviation bst_map_ops :: "(('d::linorder, 'r) bst, 'd, 'r) map_ops" where
  "bst_map_ops \<equiv> map_kernel_1 bst_ops"

interpretation bst_map: map_over_asc_pairs bst_ops bst_inv bst_contents bst_capacity ..

interpretation bst_map_laws: asc_map_container bst_map_ops "map_inv bst_inv bst_contents"
  "map_lookup bst_contents" bst_capacity ..

section \<open>Property\<close>

text \<open>The map 1 to 10, 2 to 20, 3 to 30, for the instance below.\<close>

definition sample_map :: "(nat, nat) bst" where
  "sample_map = \<lparr>tree_size = 3, tree_root = Node 0 (Node 1 Null 1 10 0 Null) 2 20 0 (Node 2 Null 3 30 0 Null),
      current_element = None, pool = 3, tree_height = 2, at_start = True, stack_pos = 0,
      stack = replicate 50 0\<rparr>"

lemma sample_map_inv:
  "map_inv bst_inv bst_contents sample_map"
  "map_lookup bst_contents sample_map = [1 \<mapsto> 10, 2 \<mapsto> 20, 3 \<mapsto> 30]"
proof -
  have c: "bst_contents sample_map = mset [(3, 30), (2, 20), (1, 10)]"
    by (simp add: bst_contents_def sample_map_def)
  have d: "distinct_keys (bst_contents sample_map)" by (simp add: c distinct_keys_add)
  then show "map_inv bst_inv bst_contents sample_map"
    by (simp add: map_inv_def bst_inv_def tree_inv_def enum_inv_def ordered_def height_diff_def sample_map_def)
  have "map_lookup bst_contents sample_map = map_of [(3, 30), (2, 20), (1, 10)]"
    unfolding map_lookup_def c using map_of_mset [OF d [unfolded c]] by simp
  then show "map_lookup bst_contents sample_map = [1 \<mapsto> 10, 2 \<mapsto> 20, 3 \<mapsto> 30]"
    by (auto simp: fun_eq_iff)
qed

text \<open>
  C10. The map over the balanced tree is a finite map. \<open>operator[]\<close>, \<open>is_in_domain\<close> and \<open>size\<close> read it; \<open>add\<close> of a
  new key, \<open>remove\<close> or \<open>destroy\<close> of a stored one, \<open>remove_any\<close> of a map that is not empty, which takes the pair with the
  least key, and \<open>clear\<close> are defined, keep the invariant and update it; \<open>reset\<close> and \<open>move_next\<close> keep invariant and map, \<open>element\<close> is a pair
  of the map while the enumerator is valid, and a whole enumeration delivers every pair once in the order of
  the keys; \<open>swap\<close> exchanges two maps. A tree of \<open>2 ^ 36\<close> pairs is too large to be enumerated.
\<close>

theorem map_kernel_1_refines:
  assumes "map_inv bst_inv bst_contents s"
  shows "map_index bst_ops s d = map_lookup bst_contents s d \<and>
    (map_is_in_domain bst_ops s d \<longleftrightarrow> d \<in> dom (map_lookup bst_contents s)) \<and>
    map_size bst_ops s = card (dom (map_lookup bst_contents s)) \<and>
    (map_lookup bst_contents s d = None \<longrightarrow> (\<exists>s'. map_add_pair bst_ops s d r = Some s' \<and>
       map_inv bst_inv bst_contents s' \<and> map_lookup bst_contents s' = (map_lookup bst_contents s)(d \<mapsto> r))) \<and>
    (map_lookup bst_contents s d = Some v \<longrightarrow>
       (\<exists>s'. map_remove bst_ops s d = Some (s', d, v) \<and> map_destroy bst_ops s d = Some s' \<and>
       map_inv bst_inv bst_contents s' \<and> map_lookup bst_contents s' = (map_lookup bst_contents s)(d := None))) \<and>
    (map_lookup bst_contents s \<noteq> Map.empty \<longrightarrow>
       (\<exists>s' k w. map_remove_any bst_ops s = Some (s', k, w) \<and> map_lookup bst_contents s k = Some w \<and>
       (\<forall>j \<in> dom (map_lookup bst_contents s). k \<le> j) \<and>
       map_inv bst_inv bst_contents s' \<and> map_lookup bst_contents s' = (map_lookup bst_contents s)(k := None))) \<and>
    (\<exists>s'. map_clear bst_ops s = Some s' \<and> map_inv bst_inv bst_contents s' \<and> map_lookup bst_contents s' = Map.empty) \<and>
    map_inv bst_inv bst_contents (map_reset bst_ops s) \<and> map_lookup bst_contents (map_reset bst_ops s) = map_lookup bst_contents s \<and>
    (if map_current_element_valid bst_ops s
     then \<exists>k w. map_element bst_ops s = Some (k, w) \<and> map_lookup bst_contents s k = Some w
     else map_element bst_ops s = None) \<and>
    (bst_capacity s \<longrightarrow> (\<exists>s' more. map_move_next bst_ops s = Some (s', more) \<and> map_current_element_valid bst_ops s' = more \<and>
       map_inv bst_inv bst_contents s' \<and> map_lookup bst_contents s' = map_lookup bst_contents s)) \<and>
    (bst_capacity s \<longrightarrow> (\<exists>ps s'. enumerate_loop (map_move_next bst_ops) (map_element bst_ops)
         (Suc (card (dom (map_lookup bst_contents s)))) (map_reset bst_ops s) = Some (ps, s') \<and>
       map_of ps = map_lookup bst_contents s \<and> distinct (map fst ps) \<and> sorted (map fst ps) \<and>
       map_inv bst_inv bst_contents s' \<and> map_lookup bst_contents s' = map_lookup bst_contents s)) \<and>
    map_swap s t = (t, s)"
proof -
  note fold = map_kernel_1_def map_ops.select_convs
  have remove: "\<exists>s'. map_remove bst_ops s d = Some (s', d, v) \<and> map_destroy bst_ops s d = Some s' \<and>
       map_inv bst_inv bst_contents s' \<and> map_lookup bst_contents s' = (map_lookup bst_contents s)(d := None)"
    if "map_lookup bst_contents s d = Some v"
  proof -
    from bst_map.maps.remove_spec [OF assms that, unfolded fold] obtain s' where
      "map_remove bst_ops s d = Some (s', d, v)" "map_inv bst_inv bst_contents s'"
      "map_lookup bst_contents s' = (map_lookup bst_contents s)(d := None)" by blast
    moreover have "map_destroy bst_ops s d = map_option fst (map_remove bst_ops s d)"
      by (simp add: map_destroy_def map_remove_def bst_destroy_eq)
    ultimately show ?thesis by simp
  qed
  have add: "\<exists>s'. map_add_pair bst_ops s d r = Some s' \<and> map_inv bst_inv bst_contents s' \<and>
      map_lookup bst_contents s' = (map_lookup bst_contents s)(d \<mapsto> r)" if "map_lookup bst_contents s d = None"
    using bst_map.maps.add_spec [OF assms, of d r, unfolded fold] that by (simp add: domIff)
  have any: "\<exists>s' k w. map_remove_any bst_ops s = Some (s', k, w) \<and> map_lookup bst_contents s k = Some w \<and>
       (\<forall>j \<in> dom (map_lookup bst_contents s). k \<le> j) \<and>
       map_inv bst_inv bst_contents s' \<and> map_lookup bst_contents s' = (map_lookup bst_contents s)(k := None)"
    if "map_lookup bst_contents s \<noteq> Map.empty"
  proof -
    from bst_map.maps.remove_any_spec [OF assms that, unfolded fold] obtain s' k w where
      k: "map_remove_any bst_ops s = Some (s', k, w)" "map_inv bst_inv bst_contents s'" "map_lookup bst_contents s k = Some w"
      "map_lookup bst_contents s' = (map_lookup bst_contents s)(k := None)" by blast
    from bst_map.asc_maps.remove_any_least [OF assms, unfolded fold, OF k(1)] have "k \<le> j"
      if "j \<in> dom (map_lookup bst_contents s)" for j
      using that k(4) by (cases "j = k") auto
    with k show ?thesis by blast
  qed
  have element: "if map_current_element_valid bst_ops s
     then \<exists>k w. map_element bst_ops s = Some (k, w) \<and> map_lookup bst_contents s k = Some w
     else map_element bst_ops s = None"
    using bst_map.maps.element_spec [OF assms, unfolded fold] bst_map.maps.element_None [OF assms, unfolded fold]
    by simp
  have move: "\<exists>s' more. map_move_next bst_ops s = Some (s', more) \<and> map_current_element_valid bst_ops s' = more \<and>
       map_inv bst_inv bst_contents s' \<and> map_lookup bst_contents s' = map_lookup bst_contents s" if "bst_capacity s"
    using bst_map.maps.move_next_spec [OF assms that, unfolded fold] by blast
  have enum: "\<exists>ps s'. enumerate_loop (map_move_next bst_ops) (map_element bst_ops)
         (Suc (card (dom (map_lookup bst_contents s)))) (map_reset bst_ops s) = Some (ps, s') \<and>
       map_of ps = map_lookup bst_contents s \<and> distinct (map fst ps) \<and> sorted (map fst ps) \<and>
       map_inv bst_inv bst_contents s' \<and> map_lookup bst_contents s' = map_lookup bst_contents s" if "bst_capacity s"
    using bst_map.maps.enumerate_spec [OF assms that, unfolded fold] bst_map.asc_maps.enumerate_sorted [OF assms that, unfolded fold]
    by blast
  show ?thesis
    by (intro conjI impI bst_map.maps.index_spec [OF assms, unfolded fold] bst_map.maps.is_in_domain_spec [OF assms, unfolded fold]
      bst_map.maps.size_spec [OF assms, unfolded fold] add remove any bst_map.maps.clear_spec [OF assms, unfolded fold] element move enum
      conjunct1 [OF bst_map.maps.reset_spec [OF assms, unfolded fold]] conjunct2 [OF bst_map.maps.reset_spec [OF assms, unfolded fold]]
      map_swap_def)
qed

theorem map_kernel_1_refines_witness:
  "map_index bst_ops sample_map 2 = Some 20 \<and>
   (\<exists>s'. map_add_pair bst_ops sample_map 4 40 = Some s' \<and>
      map_lookup bst_contents s' = [1 \<mapsto> 10, 2 \<mapsto> 20, 3 \<mapsto> 30, 4 \<mapsto> 40])"
  using map_kernel_1_refines [OF sample_map_inv(1), of 2 0 20 sample_map]
    map_kernel_1_refines [OF sample_map_inv(1), of 4 40 0 sample_map]
  by (auto simp: sample_map_inv(2))

end
