(* ===== verification/Hash_Containers.thy ===== *)
theory Hash_Containers
  imports Hash_Table_Kernel_1 Set_Kernel_1 Map_Kernel_1
begin

text \<open>
  \<open>hash_set/hash_set_kernel_1.h\<close> and \<open>hash_map/hash_map_kernel_1.h\<close>: the set and the map kept
  in a hash table of \<open>2 ^ expnum\<close> buckets. Their methods forward to the table in the same way
  as those of \<open>set_kernel_1\<close> and \<open>map_kernel_1\<close> to the tree, so both meet the same interface.
\<close>

section \<open>The hash set\<close>

definition hash_set_kernel_1 :: "nat \<Rightarrow> ('t, unit) hash_table" where
  "hash_set_kernel_1 expnum = hash_table_kernel_1 expnum"

definition hash_set_clear :: "('s, 't, unit) container_ops \<Rightarrow> 's \<Rightarrow> 's option" where
  "hash_set_clear tab s = c_clear tab s"

definition hash_set_add :: "('s, 't, unit) container_ops \<Rightarrow> 's \<Rightarrow> 't \<Rightarrow> 's option" where
  "hash_set_add tab s item = c_add tab s item ()"

definition hash_set_is_member :: "('s, 't, unit) container_ops \<Rightarrow> 's \<Rightarrow> 't \<Rightarrow> bool" where
  "hash_set_is_member tab s item \<longleftrightarrow> c_index tab s item \<noteq> None"

definition hash_set_remove :: "('s, 't, unit) container_ops \<Rightarrow> 's \<Rightarrow> 't \<Rightarrow> ('s \<times> 't) option" where
  "hash_set_remove tab s item = do { (s, item_copy, junk) \<leftarrow> c_remove tab s item; Some (s, item_copy) }"

definition hash_set_destroy :: "('s, 't, unit) container_ops \<Rightarrow> 's \<Rightarrow> 't \<Rightarrow> 's option" where
  "hash_set_destroy tab s item = c_destroy tab s item"

definition hash_set_remove_any :: "('s, 't, unit) container_ops \<Rightarrow> 's \<Rightarrow> ('s \<times> 't) option" where
  "hash_set_remove_any tab s = do { (s, item, junk) \<leftarrow> c_remove_any tab s; Some (s, item) }"

definition hash_set_size :: "('s, 't, unit) container_ops \<Rightarrow> 's \<Rightarrow> nat" where
  "hash_set_size tab s = c_size tab s"

definition hash_set_swap :: "'s \<Rightarrow> 's \<Rightarrow> 's \<times> 's" where
  "hash_set_swap s item = (item, s)"

definition hash_set_at_start :: "('s, 't, unit) container_ops \<Rightarrow> 's \<Rightarrow> bool" where
  "hash_set_at_start tab s = c_at_start tab s"

definition hash_set_reset :: "('s, 't, unit) container_ops \<Rightarrow> 's \<Rightarrow> 's" where
  "hash_set_reset tab s = c_reset tab s"

definition hash_set_current_element_valid :: "('s, 't, unit) container_ops \<Rightarrow> 's \<Rightarrow> bool" where
  "hash_set_current_element_valid tab s = c_current_element_valid tab s"

definition hash_set_element :: "('s, 't, unit) container_ops \<Rightarrow> 's \<Rightarrow> 't option" where
  "hash_set_element tab s = map_option fst (c_element tab s)"

definition hash_set_move_next :: "('s, 't, unit) container_ops \<Rightarrow> 's \<Rightarrow> ('s \<times> bool) option" where
  "hash_set_move_next tab s = c_move_next tab s"

definition hash_set_ops :: "('s, 't, unit) container_ops \<Rightarrow> ('s, 't) set_ops" where
  "hash_set_ops tab = \<lparr>s_clear = hash_set_clear tab, s_add = hash_set_add tab,
     s_is_member = hash_set_is_member tab, s_remove = hash_set_remove tab,
     s_destroy = hash_set_destroy tab, s_remove_any = hash_set_remove_any tab,
     s_size = hash_set_size tab, s_at_start = hash_set_at_start tab,
     s_reset = hash_set_reset tab, s_current_element_valid = hash_set_current_element_valid tab,
     s_element = hash_set_element tab, s_move_next = hash_set_move_next tab\<rparr>"

lemmas hash_set_defs [model_defs] =
  hash_set_ops_def hash_set_clear_def hash_set_add_def hash_set_is_member_def hash_set_remove_def
  hash_set_destroy_def hash_set_remove_any_def hash_set_size_def hash_set_at_start_def
  hash_set_reset_def hash_set_current_element_valid_def hash_set_element_def hash_set_move_next_def

section \<open>The hash map\<close>

definition hash_map_kernel_1 :: "nat \<Rightarrow> ('d, 'r) hash_table" where
  "hash_map_kernel_1 expnum = hash_table_kernel_1 expnum"

definition hash_map_clear :: "('s, 'd, 'r) container_ops \<Rightarrow> 's \<Rightarrow> 's option" where
  "hash_map_clear tab s = c_clear tab s"

definition hash_map_add :: "('s, 'd, 'r) container_ops \<Rightarrow> 's \<Rightarrow> 'd \<Rightarrow> 'r \<Rightarrow> 's option" where
  "hash_map_add tab s d r = c_add tab s d r"

definition hash_map_is_in_domain :: "('s, 'd, 'r) container_ops \<Rightarrow> 's \<Rightarrow> 'd \<Rightarrow> bool" where
  "hash_map_is_in_domain tab s d \<longleftrightarrow> c_index tab s d \<noteq> None"

definition hash_map_remove_any :: "('s, 'd, 'r) container_ops \<Rightarrow> 's \<Rightarrow> ('s \<times> 'd \<times> 'r) option" where
  "hash_map_remove_any tab s = c_remove_any tab s"

definition hash_map_remove :: "('s, 'd, 'r) container_ops \<Rightarrow> 's \<Rightarrow> 'd \<Rightarrow> ('s \<times> 'd \<times> 'r) option" where
  "hash_map_remove tab s d = c_remove tab s d"

definition hash_map_destroy :: "('s, 'd, 'r) container_ops \<Rightarrow> 's \<Rightarrow> 'd \<Rightarrow> 's option" where
  "hash_map_destroy tab s d = c_destroy tab s d"

definition hash_map_index :: "('s, 'd, 'r) container_ops \<Rightarrow> 's \<Rightarrow> 'd \<Rightarrow> 'r option" where
  "hash_map_index tab s d = c_index tab s d"

definition hash_map_size :: "('s, 'd, 'r) container_ops \<Rightarrow> 's \<Rightarrow> nat" where
  "hash_map_size tab s = c_size tab s"

definition hash_map_swap :: "'s \<Rightarrow> 's \<Rightarrow> 's \<times> 's" where
  "hash_map_swap s item = (item, s)"

definition hash_map_at_start :: "('s, 'd, 'r) container_ops \<Rightarrow> 's \<Rightarrow> bool" where
  "hash_map_at_start tab s = c_at_start tab s"

definition hash_map_reset :: "('s, 'd, 'r) container_ops \<Rightarrow> 's \<Rightarrow> 's" where
  "hash_map_reset tab s = c_reset tab s"

definition hash_map_current_element_valid :: "('s, 'd, 'r) container_ops \<Rightarrow> 's \<Rightarrow> bool" where
  "hash_map_current_element_valid tab s = c_current_element_valid tab s"

definition hash_map_element :: "('s, 'd, 'r) container_ops \<Rightarrow> 's \<Rightarrow> ('d \<times> 'r) option" where
  "hash_map_element tab s = c_element tab s"

definition hash_map_move_next :: "('s, 'd, 'r) container_ops \<Rightarrow> 's \<Rightarrow> ('s \<times> bool) option" where
  "hash_map_move_next tab s = c_move_next tab s"

definition hash_map_ops :: "('s, 'd, 'r) container_ops \<Rightarrow> ('s, 'd, 'r) map_ops" where
  "hash_map_ops tab = \<lparr>m_clear = hash_map_clear tab, m_add = hash_map_add tab,
     m_is_in_domain = hash_map_is_in_domain tab, m_remove_any = hash_map_remove_any tab,
     m_remove = hash_map_remove tab, m_destroy = hash_map_destroy tab,
     m_index = hash_map_index tab, m_size = hash_map_size tab,
     m_at_start = hash_map_at_start tab, m_reset = hash_map_reset tab,
     m_current_element_valid = hash_map_current_element_valid tab,
     m_element = hash_map_element tab, m_move_next = hash_map_move_next tab\<rparr>"

lemmas hash_map_defs [model_defs] =
  hash_map_ops_def hash_map_clear_def hash_map_add_def hash_map_is_in_domain_def
  hash_map_remove_any_def hash_map_remove_def hash_map_destroy_def hash_map_index_def
  hash_map_size_def hash_map_at_start_def hash_map_reset_def
  hash_map_current_element_valid_def hash_map_element_def hash_map_move_next_def

section \<open>The checked hash set and hash map\<close>

text \<open>
  \<open>hash_set_kernel_c.h\<close> and \<open>hash_map_kernel_c.h\<close>. \<open>differ\<close> tells whether the objects an assertion
  compares by address are distinct.
\<close>

definition hash_set_c_add :: "('s, 't) set_ops \<Rightarrow> 's \<Rightarrow> 't \<Rightarrow> 's outcome" where
  "hash_set_c_add base s item =
     dlib_cassert (\<not> s_is_member base s item) (run_unchecked (s_add base s item))"

definition hash_set_c_remove :: "('s, 't) set_ops \<Rightarrow> 's \<Rightarrow> 't \<Rightarrow> bool \<Rightarrow> ('s \<times> 't) outcome" where
  "hash_set_c_remove base s item differ =
     dlib_cassert (s_is_member base s item \<and> differ) (run_unchecked (s_remove base s item))"

definition hash_set_c_destroy :: "('s, 't) set_ops \<Rightarrow> 's \<Rightarrow> 't \<Rightarrow> 's outcome" where
  "hash_set_c_destroy base s item =
     dlib_cassert (s_is_member base s item) (run_unchecked (s_destroy base s item))"

definition hash_set_c_remove_any :: "('s, 't) set_ops \<Rightarrow> 's \<Rightarrow> ('s \<times> 't) outcome" where
  "hash_set_c_remove_any base s =
     dlib_cassert (s_size base s \<noteq> 0) (run_unchecked (s_remove_any base s))"

definition hash_set_c_element :: "('s, 't) set_ops \<Rightarrow> 's \<Rightarrow> 't outcome" where
  "hash_set_c_element base s =
     dlib_cassert (s_current_element_valid base s = True) (run_unchecked (s_element base s))"

definition hash_map_c_add :: "('s, 'd, 'r) map_ops \<Rightarrow> 's \<Rightarrow> 'd \<Rightarrow> 'r \<Rightarrow> bool \<Rightarrow> 's outcome" where
  "hash_map_c_add base s d r differ =
     dlib_cassert (\<not> m_is_in_domain base s d \<and> differ) (run_unchecked (m_add base s d r))"

definition hash_map_c_remove_any :: "('s, 'd, 'r) map_ops \<Rightarrow> 's \<Rightarrow> bool \<Rightarrow> ('s \<times> 'd \<times> 'r) outcome" where
  "hash_map_c_remove_any base s differ =
     dlib_cassert (m_size base s > 0 \<and> differ) (run_unchecked (m_remove_any base s))"

definition hash_map_c_remove :: "('s, 'd, 'r) map_ops \<Rightarrow> 's \<Rightarrow> 'd \<Rightarrow> bool \<Rightarrow> ('s \<times> 'd \<times> 'r) outcome" where
  "hash_map_c_remove base s d differ =
     dlib_cassert (m_is_in_domain base s d \<and> differ) (run_unchecked (m_remove base s d))"

definition hash_map_c_destroy :: "('s, 'd, 'r) map_ops \<Rightarrow> 's \<Rightarrow> 'd \<Rightarrow> 's outcome" where
  "hash_map_c_destroy base s d =
     dlib_cassert (m_is_in_domain base s d) (run_unchecked (m_destroy base s d))"

definition hash_map_c_index :: "('s, 'd, 'r) map_ops \<Rightarrow> 's \<Rightarrow> 'd \<Rightarrow> 'r outcome" where
  "hash_map_c_index base s d =
     dlib_cassert (m_is_in_domain base s d) (run_unchecked (m_index base s d))"

definition hash_map_c_element :: "('s, 'd, 'r) map_ops \<Rightarrow> 's \<Rightarrow> ('d \<times> 'r) outcome" where
  "hash_map_c_element base s =
     dlib_cassert (m_current_element_valid base s = True) (run_unchecked (m_element base s))"

text \<open>The assertions are those of the ordered containers, so are the results.\<close>

lemma hash_set_c_eq:
  "hash_set_c_add = set_c_add" "hash_set_c_remove = set_c_remove" "hash_set_c_destroy = set_c_destroy"
  "hash_set_c_remove_any = set_c_remove_any" "hash_set_c_element = set_c_element"
  by (simp_all add: fun_eq_iff hash_set_c_add_def set_c_add_def hash_set_c_remove_def set_c_remove_def
      hash_set_c_destroy_def set_c_destroy_def hash_set_c_remove_any_def set_c_remove_any_def
      hash_set_c_element_def set_c_element_def)

lemma hash_map_c_eq:
  "hash_map_c_add = map_c_add" "hash_map_c_remove = map_c_remove" "hash_map_c_destroy = map_c_destroy"
  "hash_map_c_remove_any = map_c_remove_any" "hash_map_c_index = map_c_index" "hash_map_c_element = map_c_element"
  by (simp_all add: fun_eq_iff hash_map_c_add_def map_c_add_def hash_map_c_remove_def map_c_remove_def
      hash_map_c_destroy_def map_c_destroy_def hash_map_c_remove_any_def map_c_remove_any_def
      hash_map_c_index_def map_c_index_def hash_map_c_element_def map_c_element_def)

section \<open>Both meet the interfaces\<close>

lemma hash_set_ops_eq: "hash_set_ops tab = set_kernel_1 tab"
  by (simp add: hash_set_defs [abs_def] set_kernel_1_defs [abs_def])

lemma hash_map_ops_eq: "hash_map_ops tab = map_kernel_1 tab"
  by (simp add: hash_map_defs [abs_def] map_kernel_1_defs [abs_def])

interpretation ht_set: set_over_pairs "hash_table_ops hash" "ht_inv hash" ht_contents "\<lambda>s. True"
  for hash :: "'d::linorder \<Rightarrow> 64 word" ..

interpretation ht_map: map_over_pairs "hash_table_ops hash" "ht_inv hash" ht_contents "\<lambda>s. True"
  for hash :: "'d::linorder \<Rightarrow> 64 word" ..

interpretation hash_set: set_container "hash_set_ops (hash_table_ops hash)"
    "set_inv (ht_inv hash) ht_contents" "set_elems ht_contents" "\<lambda>s. True"
  for hash :: "'d::linorder \<Rightarrow> 64 word"
  unfolding hash_set_ops_eq ..

interpretation hash_map: map_container "hash_map_ops (hash_table_ops hash)"
    "map_inv (ht_inv hash) ht_contents" "map_lookup ht_contents" "\<lambda>s. True"
  for hash :: "'d::linorder \<Rightarrow> 64 word"
  unfolding hash_map_ops_eq ..

section \<open>Properties\<close>

text \<open>The set {1, 2, 5} in four buckets, for the instances below.\<close>

definition sample_hash_set :: "(nat, unit) hash_table" where
  "sample_hash_set = \<lparr>hash_size = 3, table = [[], [(5, ()), (1, ())], [(2, ())], []],
     num_of_buckets = 4, ht_mask = 3, current_bucket = 0, current_node = [], ht_at_start = True\<rparr>"

lemma sample_hash_set_inv:
  "set_inv (ht_inv sample_hash) ht_contents sample_hash_set"
  "set_elems ht_contents sample_hash_set = {1, 2, 5}"
proof -
  have n: "\<exists>e < 32. num_of_buckets sample_hash_set = 2 ^ e \<and>
      ht_mask sample_hash_set = num_of_buckets sample_hash_set - 1"
    by (rule exI [of _ 2]) (simp add: sample_hash_set_def)
  have all4: "(\<forall>i < 4. Q i) \<longleftrightarrow> Q 3 \<and> Q 2 \<and> Q 1 \<and> Q (0::nat)" for Q
    by (simp add: numeral_eq_Suc All_less_Suc)
  have "length (table sample_hash_set) = 4" by (simp add: sample_hash_set_def)
  then have "\<forall>i < length (table sample_hash_set). \<forall>p \<in> set (table sample_hash_set ! i).
      hash_value sample_hash sample_hash_set (fst p) = i"
    by (simp only: all4) (simp add: sample_hash_set_def hash_value_def sample_hash_def)
  with n have "ht_inv sample_hash sample_hash_set" unfolding ht_inv_def by (simp add: sample_hash_set_def)
  moreover have c: "ht_contents sample_hash_set = {#(5, ()), (1, ()), (2, ())#}"
    by (simp add: ht_contents_def sample_hash_set_def)
  then have "distinct_keys (ht_contents sample_hash_set)" by (simp add: distinct_keys_add)
  ultimately show "set_inv (ht_inv sample_hash) ht_contents sample_hash_set" by (simp add: set_inv_def)
  show "set_elems ht_contents sample_hash_set = {1, 2, 5}" by (auto simp: set_elems_def c)
qed

text \<open>
  C12. The hash set is a finite set for every hash function. \<open>is_member\<close> and \<open>size\<close> read it; \<open>add\<close>, \<open>remove\<close>,
  \<open>destroy\<close> and \<open>remove_any\<close>, which takes some element, are defined whenever their requires clauses hold, keep the invariant and
  act on the elements as the operations of the abstract set do; \<open>clear\<close> empties it; \<open>reset\<close> and \<open>move_next\<close> keep the
  elements, \<open>element\<close> is one of them while the enumerator is valid, and a whole enumeration delivers each of them once; \<open>swap\<close>
  exchanges two sets.
\<close>

theorem hash_set_refines:
  assumes "set_inv (ht_inv hash) ht_contents s"
  shows "(hash_set_is_member (hash_table_ops hash) s x \<longleftrightarrow> x \<in> set_elems ht_contents s) \<and>
    hash_set_size (hash_table_ops hash) s = card (set_elems ht_contents s) \<and>
    (x \<notin> set_elems ht_contents s \<longrightarrow> (\<exists>s'. hash_set_add (hash_table_ops hash) s x = Some s' \<and>
       set_inv (ht_inv hash) ht_contents s' \<and> set_elems ht_contents s' = insert x (set_elems ht_contents s))) \<and>
    (x \<in> set_elems ht_contents s \<longrightarrow> (\<exists>s'. hash_set_remove (hash_table_ops hash) s x = Some (s', x) \<and>
       set_inv (ht_inv hash) ht_contents s' \<and> set_elems ht_contents s' = set_elems ht_contents s - {x})) \<and>
    (x \<in> set_elems ht_contents s \<longrightarrow> (\<exists>s'. hash_set_destroy (hash_table_ops hash) s x = Some s' \<and>
       set_inv (ht_inv hash) ht_contents s' \<and> set_elems ht_contents s' = set_elems ht_contents s - {x})) \<and>
    (set_elems ht_contents s \<noteq> {} \<longrightarrow> (\<exists>s' y. hash_set_remove_any (hash_table_ops hash) s = Some (s', y) \<and>
       set_inv (ht_inv hash) ht_contents s' \<and> y \<in> set_elems ht_contents s \<and> set_elems ht_contents s' = set_elems ht_contents s - {y})) \<and>
    (\<exists>s'. hash_set_clear (hash_table_ops hash) s = Some s' \<and> set_inv (ht_inv hash) ht_contents s' \<and> set_elems ht_contents s' = {}) \<and>
    set_inv (ht_inv hash) ht_contents (hash_set_reset (hash_table_ops hash) s) \<and>
    set_elems ht_contents (hash_set_reset (hash_table_ops hash) s) = set_elems ht_contents s \<and>
    (if hash_set_current_element_valid (hash_table_ops hash) s
     then \<exists>y \<in> set_elems ht_contents s. hash_set_element (hash_table_ops hash) s = Some y
     else hash_set_element (hash_table_ops hash) s = None) \<and>
    (\<exists>s' more. hash_set_move_next (hash_table_ops hash) s = Some (s', more) \<and>
       hash_set_current_element_valid (hash_table_ops hash) s' = more \<and>
       set_inv (ht_inv hash) ht_contents s' \<and> set_elems ht_contents s' = set_elems ht_contents s) \<and>
    (\<exists>xs s'. enumerate_loop (hash_set_move_next (hash_table_ops hash)) (hash_set_element (hash_table_ops hash))
         (Suc (card (set_elems ht_contents s))) (hash_set_reset (hash_table_ops hash) s) = Some (xs, s') \<and>
       set xs = set_elems ht_contents s \<and> distinct xs \<and>
       set_inv (ht_inv hash) ht_contents s' \<and> set_elems ht_contents s' = set_elems ht_contents s) \<and>
    hash_set_swap s t = (t, s)"
proof -
  note fold = hash_set_ops_def set_ops.select_convs
  have element: "if hash_set_current_element_valid (hash_table_ops hash) s
     then \<exists>y \<in> set_elems ht_contents s. hash_set_element (hash_table_ops hash) s = Some y
     else hash_set_element (hash_table_ops hash) s = None"
    using hash_set.element_spec [OF assms, unfolded fold] hash_set.element_None [OF assms, unfolded fold]
    by (simp split: if_split) blast
  have move: "\<exists>s' more. hash_set_move_next (hash_table_ops hash) s = Some (s', more) \<and>
       hash_set_current_element_valid (hash_table_ops hash) s' = more \<and>
       set_inv (ht_inv hash) ht_contents s' \<and> set_elems ht_contents s' = set_elems ht_contents s"
    using hash_set.move_next_spec [OF assms TrueI, unfolded fold] by blast
  have enum: "\<exists>xs s'. enumerate_loop (hash_set_move_next (hash_table_ops hash)) (hash_set_element (hash_table_ops hash))
         (Suc (card (set_elems ht_contents s))) (hash_set_reset (hash_table_ops hash) s) = Some (xs, s') \<and>
       set xs = set_elems ht_contents s \<and> distinct xs \<and>
       set_inv (ht_inv hash) ht_contents s' \<and> set_elems ht_contents s' = set_elems ht_contents s"
    using hash_set.enumerate_spec [OF assms TrueI, unfolded fold] by blast
  show ?thesis
    by (intro conjI impI hash_set.is_member_spec [OF assms, unfolded fold] hash_set.size_spec [OF assms, unfolded fold]
      hash_set.add_spec [OF assms, unfolded fold] hash_set.remove_spec [OF assms, unfolded fold]
      hash_set.destroy_spec [OF assms, unfolded fold] hash_set.remove_any_spec [OF assms, unfolded fold]
      hash_set.clear_spec [OF assms, unfolded fold] element move enum
      conjunct1 [OF hash_set.reset_spec [OF assms, unfolded fold]] conjunct2 [OF hash_set.reset_spec [OF assms, unfolded fold]]
      hash_set_swap_def)
qed

theorem hash_set_refines_witness:
  "hash_set_is_member (hash_table_ops sample_hash) sample_hash_set 5 \<and>
   \<not> hash_set_is_member (hash_table_ops sample_hash) sample_hash_set 9"
  using hash_set_refines [OF sample_hash_set_inv(1), of 5 sample_hash_set]
    hash_set_refines [OF sample_hash_set_inv(1), of 9 sample_hash_set]
  by (simp add: sample_hash_set_inv(2))

text \<open>
  C13. The hash map is a finite map for every hash function. In particular a lookup after \<open>add\<close> finds
  the new value under the new key and the old value under every other key, although the two may
  share a bucket.
\<close>

theorem hash_map_lookup_after_add:
  assumes "map_inv (ht_inv hash) ht_contents s" "hash_map_index (hash_table_ops hash) s d = None"
  shows "\<exists>s'. hash_map_add (hash_table_ops hash) s d r = Some s' \<and> map_inv (ht_inv hash) ht_contents s' \<and>
    hash_map_size (hash_table_ops hash) s' = hash_map_size (hash_table_ops hash) s + 1 \<and>
    (\<forall>k. hash_map_index (hash_table_ops hash) s' k =
       (if k = d then Some r else hash_map_index (hash_table_ops hash) s k))"
proof -
  have idx: "hash_map_index (hash_table_ops hash) t k = map_lookup ht_contents t k"
    and sz: "hash_map_size (hash_table_ops hash) t = card (dom (map_lookup ht_contents t))"
    if "map_inv (ht_inv hash) ht_contents t" for t k
    using hash_map.index_spec [OF that, of k] hash_map.size_spec [OF that]
    by (simp_all add: hash_map_ops_def)
  from assms have d: "map_lookup ht_contents s d = None" by (simp add: idx)
  with hash_map.add_spec [OF assms(1), of d r] obtain s' where
    s': "hash_map_add (hash_table_ops hash) s d r = Some s'" "map_inv (ht_inv hash) ht_contents s'"
    "map_lookup ht_contents s' = (map_lookup ht_contents s)(d \<mapsto> r)"
    by (auto simp: hash_map_ops_def)
  moreover have "card (insert d (dom (map_lookup ht_contents s))) = card (dom (map_lookup ht_contents s)) + 1"
    using hash_map.finite_dom [OF assms(1)] d by (simp add: domIff)
  ultimately show ?thesis using assms(1) by (simp add: idx sz)
qed

theorem hash_map_lookup_after_add_witness:
  "\<exists>s'. hash_map_add (hash_table_ops sample_hash) (hash_map_kernel_1 2) (1::nat) (10::nat) = Some s' \<and>
     hash_map_index (hash_table_ops sample_hash) s' 1 = Some 10 \<and>
     hash_map_index (hash_table_ops sample_hash) s' 5 = None"
proof -
  have inv: "map_inv (ht_inv sample_hash) ht_contents (hash_map_kernel_1 2 :: (nat, nat) hash_table)"
    by (simp add: map_inv_def hash_map_kernel_1_def ht_inv_init)
  have none: "hash_map_index (hash_table_ops sample_hash) (hash_map_kernel_1 2 :: (nat, nat) hash_table) k = None" for k
    using hash_map.index_spec [OF inv, of k]
    by (simp add: hash_map_ops_def map_lookup_def hash_map_kernel_1_def ht_inv_init)
  from hash_map_lookup_after_add [OF inv none, of 1 10] show ?thesis by (auto simp: none)
qed

end
