(* ===== verification/Set_Clients.thy ===== *)
theory Set_Clients
  imports Hash_Containers
begin

text \<open>
  A client of a checked set, which catches the exceptions and goes on: the results it observes from
  any sequence of calls depend only on the elements of the set, so that a client cannot tell the set
  over the tree from the one over the hash table.
\<close>

section \<open>Observed results\<close>

datatype 't set_call = Add 't | Destroy 't | Is_Member 't | Size

text \<open>The results of a sequence of calls; a call without defined behaviour ends the observation.\<close>

fun observe :: "('s \<Rightarrow> 't \<Rightarrow> 's outcome) \<Rightarrow> ('s \<Rightarrow> 't \<Rightarrow> 's outcome) \<Rightarrow> ('s \<Rightarrow> 't \<Rightarrow> bool) \<Rightarrow> ('s \<Rightarrow> nat) \<Rightarrow>
    's \<Rightarrow> 't set_call list \<Rightarrow> nat outcome list" where
  "observe add destroy member len s [] = []"
| "observe add destroy member len s (Add x # calls) =
     (case add s x of
        Returns s' \<Rightarrow> Returns 0 # observe add destroy member len s' calls
      | Throws e \<Rightarrow> Throws e # observe add destroy member len s calls
      | Undefined \<Rightarrow> [Undefined])"
| "observe add destroy member len s (Destroy x # calls) =
     (case destroy s x of
        Returns s' \<Rightarrow> Returns 0 # observe add destroy member len s' calls
      | Throws e \<Rightarrow> Throws e # observe add destroy member len s calls
      | Undefined \<Rightarrow> [Undefined])"
| "observe add destroy member len s (Is_Member x # calls) =
     Returns (of_bool (member s x)) # observe add destroy member len s calls"
| "observe add destroy member len s (Size # calls) =
     Returns (len s) # observe add destroy member len s calls"

text \<open>The same calls on a set of values.\<close>

fun ideal :: "'t set \<Rightarrow> 't set_call list \<Rightarrow> nat outcome list" where
  "ideal A [] = []"
| "ideal A (Add x # calls) =
     (if x \<in> A then Throws EBROKEN_ASSERT # ideal A calls else Returns 0 # ideal (insert x A) calls)"
| "ideal A (Destroy x # calls) =
     (if x \<in> A then Returns 0 # ideal (A - {x}) calls else Throws EBROKEN_ASSERT # ideal A calls)"
| "ideal A (Is_Member x # calls) = Returns (of_bool (x \<in> A)) # ideal A calls"
| "ideal A (Size # calls) = Returns (card A) # ideal A calls"

context set_container begin

lemma set_c_add_result:
  assumes "inv s"
  shows "if x \<in> elems s then set_c_add ops s x = Throws EBROKEN_ASSERT
    else \<exists>s'. set_c_add ops s x = Returns s' \<and> inv s' \<and> elems s' = insert x (elems s)"
  using add_spec [OF assms, of x] is_member_spec [OF assms, of x] by (simp add: set_c_add_def)

lemma set_c_destroy_result:
  assumes "inv s"
  shows "if x \<in> elems s
    then \<exists>s'. set_c_destroy ops s x = Returns s' \<and> inv s' \<and> elems s' = elems s - {x}
    else set_c_destroy ops s x = Throws EBROKEN_ASSERT"
  using destroy_spec [OF assms, of x] is_member_spec [OF assms, of x] by (simp add: set_c_destroy_def)

lemma observe_ideal:
  "inv s \<Longrightarrow> observe (set_c_add ops) (set_c_destroy ops) (s_is_member ops) (s_size ops) s calls
     = ideal (elems s) calls"
proof (induction calls arbitrary: s)
  case (Cons c calls)
  show ?case
  proof (cases c)
    case (Add x)
    with Cons set_c_add_result [OF Cons.prems, of x] show ?thesis by (cases "x \<in> elems s") auto
  next
    case (Destroy x)
    with Cons set_c_destroy_result [OF Cons.prems, of x] show ?thesis by (cases "x \<in> elems s") auto
  next
    case (Is_Member x)
    with Cons is_member_spec [OF Cons.prems] show ?thesis by simp
  next
    case Size
    with Cons size_spec [OF Cons.prems] show ?thesis by simp
  qed
qed simp

end

section \<open>Property\<close>

lemma empty_tree_set:
  "set_inv bst_inv bst_contents binary_search_tree_kernel_1"
  "set_elems bst_contents binary_search_tree_kernel_1 = {}"
  by (simp_all add: set_inv_def set_elems_def bst_inv_def tree_inv_init bst_contents_def enum_inv_def
      binary_search_tree_kernel_1_def tree_inv_def ordered_def)

lemma empty_hash_set:
  assumes "expnum < 32"
  shows "set_inv (ht_inv hash) ht_contents (hash_set_kernel_1 expnum)"
    "set_elems ht_contents (hash_set_kernel_1 expnum) = {}"
  by (simp_all add: set_inv_def set_elems_def hash_set_kernel_1_def ht_inv_init [OF assms])

lemma ideal_defined: "Undefined \<notin> set (ideal A calls)"
  by (induction A calls rule: ideal.induct) simp_all

text \<open>
  C14. A client that calls \<open>add\<close>, \<open>destroy\<close>, \<open>is_member\<close> and \<open>size\<close> cannot tell the checked set over the tree from the
  checked set over the hash table: from their initial states, every sequence of calls of these four gives the same results and
  the same exceptions, namely those of a set of values, for every hash function and number of buckets, and none of the calls has
  undefined behaviour. (\<open>remove_any\<close> and the enumeration order do differ.)
\<close>

theorem tree_and_hash_set_agree:
  assumes "expnum < 32"
  shows "observe (set_c_add bst_set_ops) (set_c_destroy bst_set_ops) (set_is_member bst_ops) (set_size bst_ops)
      binary_search_tree_kernel_1 calls = ideal {} calls \<and>
    observe (hash_set_c_add (hash_set_ops (hash_table_ops hash))) (hash_set_c_destroy (hash_set_ops (hash_table_ops hash)))
      (hash_set_is_member (hash_table_ops hash)) (hash_set_size (hash_table_ops hash))
      (hash_set_kernel_1 expnum) calls = ideal {} calls \<and>
    Undefined \<notin> set (observe (set_c_add bst_set_ops) (set_c_destroy bst_set_ops) (set_is_member bst_ops)
      (set_size bst_ops) binary_search_tree_kernel_1 calls)"
proof -
  have ops: "s_is_member (set_kernel_1 bst_ops) = set_is_member bst_ops" "s_size (set_kernel_1 bst_ops) = set_size bst_ops"
    "s_is_member (hash_set_ops (hash_table_ops hash)) = hash_set_is_member (hash_table_ops hash)"
    "s_size (hash_set_ops (hash_table_ops hash)) = hash_set_size (hash_table_ops hash)"
    by (simp_all add: set_kernel_1_def hash_set_ops_def)
  show ?thesis
    using bst_set.sets.observe_ideal [OF empty_tree_set(1), of calls]
      hash_set.observe_ideal [OF empty_hash_set(1) [OF assms], of hash calls]
    by (simp add: empty_tree_set(2) empty_hash_set(2) [OF assms] hash_set_c_eq ops ideal_defined)
qed

theorem tree_and_hash_set_agree_witness:
  "observe (hash_set_c_add (hash_set_ops (hash_table_ops sample_hash)))
      (hash_set_c_destroy (hash_set_ops (hash_table_ops sample_hash)))
      (hash_set_is_member (hash_table_ops sample_hash)) (hash_set_size (hash_table_ops sample_hash))
      (hash_set_kernel_1 4) [Add (1::nat), Add 1, Is_Member 1, Size]
    = [Returns 0, Throws EBROKEN_ASSERT, Returns 1, Returns 1]"
  using tree_and_hash_set_agree [of 4 "[Add (1::nat), Add 1, Is_Member 1, Size]" sample_hash] by simp

end
