(* ===== verification/Bst_Current.thy ===== *)
theory Bst_Current
  imports Bst_Correct
begin

text \<open>
  Removing the element the enumerator is at: the tree loses that one pair and the enumerator
  stands on the pair that followed it, with its stack of parents repaired.
\<close>

section \<open>Taking the node out\<close>

text \<open>The pairs in front of and behind the hole of a zipper.\<close>

fun pairs_before :: "('d, 'r) frame list \<Rightarrow> ('d \<times> 'r) list" where
  "pairs_before [] = []"
| "pairs_before (InLeft a d r b rt # fs) = pairs_before fs"
| "pairs_before (InRight a l d r b # fs) = pairs_before fs @ inorder l @ [(d, r)]"

fun pairs_after :: "('d, 'r) frame list \<Rightarrow> ('d \<times> 'r) list" where
  "pairs_after [] = []"
| "pairs_after (InLeft a d r b rt # fs) = (d, r) # inorder rt @ pairs_after fs"
| "pairs_after (InRight a l d r b # fs) = pairs_after fs"

lemma inorder_plug: "inorder (plug fs t) = pairs_before fs @ inorder t @ pairs_after fs"
proof (induction fs arbitrary: t)
  case (Cons f fs)
  then show ?case by (cases f) simp_all
qed simp

lemma length_pairs_before: "length (pairs_before fs) = length (lefts fs)"
  by (induction fs rule: pairs_before.induct) (simp_all add: addrs_length)

lemma length_pairs_after: "length (pairs_after fs) = length (rights fs)"
  by (induction fs rule: pairs_after.induct) (simp_all add: addrs_length)

lemma plug_snoc: "plug (fs @ [f]) t = plug1 f (plug fs t)"
  by (induction fs arbitrary: t) simp_all

lemma pairs_snoc:
  "pairs_before (fs @ [f]) = pairs_before [f] @ pairs_before fs"
  "pairs_after (fs @ [f]) = pairs_after fs @ pairs_after [f]"
  "lefts (fs @ [f]) = lefts [f] @ lefts fs"
  "rights (fs @ [f]) = rights fs @ rights [f]"
proof -
  show "pairs_before (fs @ [f]) = pairs_before [f] @ pairs_before fs"
    by (induction fs rule: pairs_before.induct) simp_all
  show "pairs_after (fs @ [f]) = pairs_after fs @ pairs_after [f]"
    by (induction fs rule: pairs_after.induct) simp_all
  show "lefts (fs @ [f]) = lefts [f] @ lefts fs"
    by (induction fs rule: lefts.induct) simp_all
  show "rights (fs @ [f]) = rights fs @ rights [f]"
    by (induction fs rule: rights.induct) simp_all
qed

lemma node_ptr_in: "node_ptr t = Some a \<Longrightarrow> a \<in> set (addrs t)"
  by (cases t) (auto simp: node_ptr_def)

text \<open>The root of a plugged tree is the node of its outermost frame.\<close>

lemma node_ptr_plug: "node_ptr (plug (fs @ [f]) t) = Some (frame_addr f)"
  by (cases f) (simp_all add: plug_snoc node_ptr_def)

definition walk_stack :: "nat \<Rightarrow> ('d, 'r) frame list \<Rightarrow> ('d, 'r) bst \<Rightarrow> bool" where
  "walk_stack k gs s \<longleftrightarrow> stack_pos s = k + length gs \<and>
     (\<forall>i < length gs. stack s ! (k + i) = frame_addr (rev gs ! i))"

lemma walk_stack_snoc:
  assumes "walk_stack k (gs @ [f]) s"
  shows "walk_stack (Suc k) gs s" "stack s ! k = frame_addr f"
proof -
  from assms have *: "\<forall>i < Suc (length gs). stack s ! (k + i) = frame_addr (rev (gs @ [f]) ! i)"
    by (simp add: walk_stack_def)
  from spec [OF *, of 0] show "stack s ! k = frame_addr f" by simp
  have "stack s ! (Suc k + i) = frame_addr (rev gs ! i)" if "i < length gs" for i
    using spec [OF *, of "Suc i"] that by simp
  with assms show "walk_stack (Suc k) gs s" by (simp add: walk_stack_def)
qed

lemma on_path_child:
  assumes "walk_stack (Suc k) gs s" "current_element s = Some (addr t)" "t \<noteq> Null"
  shows "on_path s (Suc k) (plug gs t)"
proof (cases gs rule: rev_cases)
  case Nil
  with assms show ?thesis by (cases t) (simp_all add: on_path_def node_ptr_def)
next
  case (snoc hs g)
  with assms walk_stack_snoc(2) [of "Suc k" hs g s] show ?thesis
    by (simp add: on_path_def node_ptr_plug walk_stack_def)
qed

lemma not_on_path:
  assumes "walk_stack (Suc k) gs s" "current_element s = Some (addr t)" "t \<noteq> Null"
    and "set (addrs l) \<inter> set (addrs (plug gs t)) = {}"
  shows "\<not> on_path s (Suc k) l"
proof -
  have "addr t \<in> set (addrs (plug gs t))" using assms(3) by (cases t) (simp_all add: addrs_plug)
  with assms(2,4) have "node_ptr l \<noteq> current_element s" by (auto dest: node_ptr_in)
  moreover have "Some (stack s ! Suc k) \<noteq> node_ptr l" if "Suc k < stack_pos s"
  proof (cases gs rule: rev_cases)
    case Nil
    with assms(1) that show ?thesis by (simp add: walk_stack_def)
  next
    case (snoc hs g)
    with assms(1) walk_stack_snoc(2) [of "Suc k" hs g s]
    have "node_ptr (plug gs t) = Some (stack s ! Suc k)" by (simp add: node_ptr_plug)
    with assms(4) show ?thesis by (metis node_ptr_in disjoint_iff)
  qed
  ultimately show ?thesis by (auto simp: on_path_def)
qed

text \<open>What the code does with the enumerator when it has reached the node.\<close>

definition step_off :: "('d, 'r) node \<Rightarrow> ('d, 'r) bst \<Rightarrow> ('d, 'r) bst option" where
  "step_off t s =
     (if left t = Null \<or> right t = Null then do { (s, _) \<leftarrow> bst_move_next s; Some s }
      else Some (s\<lparr>current_element := Some (addr t)\<rparr>))"

lemma remove_current_rec:
  assumes t: "t = Node a l d r b rt" "current_element s = Some a" "step_off t s = Some s1"
  shows "balanced (plug gs t) \<Longrightarrow> distinct (addrs (plug gs t)) \<Longrightarrow> walk_stack k gs s \<Longrightarrow>
    \<exists>T' g. remove_current_element_from_tree (plug gs t) (Suc k) s = Some (T', (d, r), g, s1) \<and>
      balanced T' \<and> tree_height_of (plug gs t) = tree_height_of T' + of_bool g \<and>
      inorder T' = pairs_before gs @ inorder l @ inorder rt @ pairs_after gs \<and>
      addrs T' = lefts gs @ addrs l @
        (if l = Null \<or> rt = Null then addrs rt else a # tl (addrs rt)) @ rights gs"
proof (induction gs arbitrary: k rule: rev_induct)
  case Nil
  with t(1) have "balanced (Node a l d r b rt)" by simp
  from remove_root_ok [OF this] obtain t' g where t':
    "remove_root (Node a l d r b rt) = Some (t', g)" "balanced t'"
    "inorder t' = inorder l @ inorder rt"
    "addrs t' = addrs l @ (if l = Null \<or> rt = Null then addrs rt else a # tl (addrs rt))"
    "tree_height_of (Node a l d r b rt) = tree_height_of t' + of_bool g" by blast
  have "remove_current_element_from_tree t (Suc k) s = Some (t', (d, r), g, s1)"
    using t t'(1) by (cases "bst_move_next s") (auto simp: step_off_def split: if_splits)
  with t' t(1) show ?case by simp
next
  case (snoc f gs)
  note walk = walk_stack_snoc [OF snoc.prems(3)]
  let ?in = "plug gs t"
  have cur: "current_element s = Some (addr t)" "t \<noteq> Null" using t by simp_all
  have mem: "a \<in> set (addrs ?in)" by (simp add: addrs_plug t(1))
  show ?case
  proof (cases f)
    case (InLeft c cd cr cb crt)
    with snoc.prems have bal: "balanced ?in" "distinct (addrs ?in)" "c \<noteq> a"
      "balanced (Node c ?in cd cr cb crt)"
      using mem by (auto simp: plug_snoc)
    from snoc.IH [OF bal(1,2) walk(1)] obtain T' g where T':
      "remove_current_element_from_tree ?in (Suc (Suc k)) s = Some (T', (d, r), g, s1)" "balanced T'"
      "tree_height_of ?in = tree_height_of T' + of_bool g"
      "inorder T' = pairs_before gs @ inorder l @ inorder rt @ pairs_after gs"
      "addrs T' = lefts gs @ addrs l @
        (if l = Null \<or> rt = Null then addrs rt else a # tl (addrs rt)) @ rights gs" by blast
    let ?t = "Node c T' cd cr (cb + of_bool g) crt"
    have "\<exists>t' s'. remove_fixup (cb = -1) ?t = Some (t', s') \<and> balanced t' \<and>
      inorder t' = inorder ?t \<and> addrs t' = addrs ?t \<and>
      tree_height_of (Node c ?in cd cr cb crt) = tree_height_of t' + of_bool s'"
      by (rule remove_fixup_ok) (cases g; use T'(2,3) bal(4) in \<open>auto simp: height_diff_def\<close>)+
    then obtain t' s' where "remove_fixup (cb = -1) ?t = Some (t', s')" "balanced t'"
      "inorder t' = inorder ?t" "addrs t' = addrs ?t"
      "tree_height_of (Node c ?in cd cr cb crt) = tree_height_of t' + of_bool s'" by blast
    moreover have "on_path s (Suc k) ?in" by (rule on_path_child [OF walk(1) cur])
    moreover have "current_element s \<noteq> Some c" using t(2) bal(3) by simp
    ultimately show ?thesis using T'(1,4,5) InLeft by (simp add: plug_snoc pairs_snoc)
  next
    case (InRight c cl cd cr cb)
    with snoc.prems have bal: "balanced ?in" "distinct (addrs ?in)" "c \<noteq> a"
      "balanced (Node c cl cd cr cb ?in)" "set (addrs cl) \<inter> set (addrs ?in) = {}"
      using mem by (auto simp: plug_snoc)
    from snoc.IH [OF bal(1,2) walk(1)] obtain T' g where T':
      "remove_current_element_from_tree ?in (Suc (Suc k)) s = Some (T', (d, r), g, s1)" "balanced T'"
      "tree_height_of ?in = tree_height_of T' + of_bool g"
      "inorder T' = pairs_before gs @ inorder l @ inorder rt @ pairs_after gs"
      "addrs T' = lefts gs @ addrs l @
        (if l = Null \<or> rt = Null then addrs rt else a # tl (addrs rt)) @ rights gs" by blast
    let ?t = "Node c cl cd cr (cb - of_bool g) T'"
    have "\<exists>t' s'. remove_fixup (cb = 1) ?t = Some (t', s') \<and> balanced t' \<and>
      inorder t' = inorder ?t \<and> addrs t' = addrs ?t \<and>
      tree_height_of (Node c cl cd cr cb ?in) = tree_height_of t' + of_bool s'"
      by (rule remove_fixup_ok) (cases g; use T'(2,3) bal(4) in \<open>auto simp: height_diff_def\<close>)+
    then obtain t' s' where "remove_fixup (cb = 1) ?t = Some (t', s')" "balanced t'"
      "inorder t' = inorder ?t" "addrs t' = addrs ?t"
      "tree_height_of (Node c cl cd cr cb ?in) = tree_height_of t' + of_bool s'" by blast
    moreover have "on_path s (Suc k) ?in" by (rule on_path_child [OF walk(1) cur])
    moreover have "\<not> on_path s (Suc k) cl" by (rule not_on_path [OF walk(1) cur bal(5)])
    moreover have "current_element s \<noteq> Some c" using t(2) bal(3) by simp
    ultimately show ?thesis using T'(1,4,5) InRight by (simp add: plug_snoc pairs_snoc)
  qed
qed

section \<open>Repairing the stack\<close>

lemma deref_addr: "deref a t = Some n \<Longrightarrow> \<exists>l d r b rt. n = Node a l d r b rt"
  by (induction t) (auto split: if_splits option.splits)

lemma fix_stack_missing:
  "current_element s = Some c \<Longrightarrow> deref c (tree_root s) = Some n \<Longrightarrow> c \<notin> set (addrs u) \<Longrightarrow>
     fix_stack u k s = Some (s, False)"
  by (induction u arbitrary: k) (auto simp: node_ptr_def)

lemma walk_stack_push:
  assumes "walk_stack (Suc k) gs s" "k < length (stack s)"
  shows "walk_stack k (gs @ [f]) (s\<lparr>stack := (stack s)[k := frame_addr f]\<rparr>)"
proof -
  have "(stack s)[k := frame_addr f] ! (k + i) = frame_addr (rev (gs @ [f]) ! i)"
    if "i < Suc (length gs)" for i
    using assms that by (cases i) (simp_all add: walk_stack_def)
  with assms(1) show ?thesis by (simp add: walk_stack_def)
qed

text \<open>The search finds the node: every element of a left subtree is at most the root's, and so
  on, so the way the current element's key points to is not cut off.\<close>

lemma fix_stack_found:
  "current_element s = Some c \<Longrightarrow> deref c (tree_root s) = Some n \<Longrightarrow>
   ordered u \<Longrightarrow> distinct (addrs u) \<Longrightarrow> c \<in> set (addrs u) \<Longrightarrow> pair_at u c = (node_d n, node_r n) \<Longrightarrow>
   k + tree_height_of u \<le> 51 \<Longrightarrow> length (stack s) = 50 \<Longrightarrow>
     \<exists>st gs t. fix_stack u k s = Some (s\<lparr>stack_pos := k + length gs, stack := st\<rparr>, True) \<and>
       u = plug gs t \<and> node_ptr t = Some c \<and> length st = 50 \<and>
       walk_stack k gs (s\<lparr>stack_pos := k + length gs, stack := st\<rparr>) \<and>
       (\<forall>i < k. st ! i = stack s ! i)"
proof (induction u arbitrary: k)
  case Null
  then show ?case by simp
next
  case (Node a l d r b rt)
  note ord = orderedD [OF Node.prems(3)]
  show ?case
  proof (cases "c = a")
    case True
    have "s\<lparr>stack_pos := k + length [], stack := stack s\<rparr> = s\<lparr>stack_pos := k\<rparr>" by simp
    with True Node.prems show ?thesis
      by (intro exI [of _ "stack s"] exI [of _ "[]"] exI [of _ "Node a l d r b rt"])
        (simp add: node_ptr_def walk_stack_def)
  next
    case False
    from Node.prems(2) obtain nl nd nr nb nrt where n: "n = Node c nl nd nr nb nrt"
      using deref_addr by blast
    consider "c \<in> set (addrs l)" | "c \<in> set (addrs rt)" using Node.prems(5) False by auto
    then show ?thesis
    proof cases
      case 1
      then obtain m where m: "deref c l = Some m" using deref_None by fastforce
      then have pl: "pair_at l c = (node_d n, node_r n)"
        using Node.prems(6) False by (simp add: pair_at_def)
      have "pair_at l c \<in> set (inorder l)"
        using map_pair_at [of l] Node.prems(4) 1 by (metis addrs.simps(2) distinct_append imageI list.set_map)
      with ord(3) pl have le: "\<not> comp d (node_d n)" by (force simp: comp_def)
      have sub: "distinct (addrs l)" "Suc k + tree_height_of l \<le> 51" using Node.prems(4,7) by auto
      from Node.IH(1) [OF Node.prems(1,2) ord(1) sub(1) 1 pl sub(2) Node.prems(8)] obtain st gs t where
        IH: "fix_stack l (Suc k) s = Some (s\<lparr>stack_pos := Suc k + length gs, stack := st\<rparr>, True)"
        "l = plug gs t" "node_ptr t = Some c" "length st = 50"
        "walk_stack (Suc k) gs (s\<lparr>stack_pos := Suc k + length gs, stack := st\<rparr>)"
        "\<forall>i < Suc k. st ! i = stack s ! i" by blast
      have "k < 50" using Node.prems(7) 1 by (cases l) auto
      with walk_stack_push [OF IH(5), of "InLeft a d r b rt"] IH le Node.prems(1,2) False show ?thesis
        by (intro exI [of _ "st[k := a]"] exI [of _ "gs @ [InLeft a d r b rt]"] exI [of _ t])
          (simp add: set_stack_def plug_snoc)
    next
      case 2
      then have notl: "c \<notin> set (addrs l)" using Node.prems(4) by auto
      from 2 obtain m where m: "deref c rt = Some m" using deref_None by fastforce
      have pr: "pair_at rt c = (node_d n, node_r n)"
        using Node.prems(6) False notl by (simp add: pair_at_def deref_None [THEN iffD2])
      have "pair_at rt c \<in> set (inorder rt)"
        using map_pair_at [of rt] Node.prems(4) 2
        by (metis addrs.simps(2) distinct.simps(2) distinct_append imageI list.set_map)
      with ord(4) pr have ge: "\<not> comp (node_d n) d" by (force simp: comp_def)
      have miss: "fix_stack l (Suc k) s = Some (s, False)"
        using fix_stack_missing [OF Node.prems(1,2) notl] .
      have sub: "distinct (addrs rt)" "Suc k + tree_height_of rt \<le> 51" using Node.prems(4,7) by auto
      from Node.IH(2) [OF Node.prems(1,2) ord(2) sub(1) 2 pr sub(2) Node.prems(8)] obtain st gs t where
        IH: "fix_stack rt (Suc k) s = Some (s\<lparr>stack_pos := Suc k + length gs, stack := st\<rparr>, True)"
        "rt = plug gs t" "node_ptr t = Some c" "length st = 50"
        "walk_stack (Suc k) gs (s\<lparr>stack_pos := Suc k + length gs, stack := st\<rparr>)"
        "\<forall>i < Suc k. st ! i = stack s ! i" by blast
      have "k < 50" using Node.prems(7) 2 by (cases rt) auto
      with walk_stack_push [OF IH(5), of "InRight a l d r b"] IH ge miss Node.prems(1,2) False show ?thesis
        by (intro exI [of _ "st[k := a]"] exI [of _ "gs @ [InRight a l d r b]"] exI [of _ t])
          (simp add: set_stack_def plug_snoc)
    qed
  qed
qed

section \<open>The whole operation\<close>

lemma addrs_nth: "distinct (addrs t) \<Longrightarrow> addrs t = as @ c # bs \<Longrightarrow> pair_at t c = inorder t ! length as"
  using map_pair_at [of t] by (metis list.simps(9) map_append length_map nth_append_length)

definition enum_capacity :: "('d, 'r) bst \<Rightarrow> bool" where
  "enum_capacity s \<longleftrightarrow> length (inorder (tree_root s)) < 2 ^ 36"

lemma fix_stack_root:
  assumes "tree_inv s" "enum_capacity s" "\<not> at_start s" "current_element s = Some c"
    and "c \<in> set (addrs (tree_root s))"
  shows "\<exists>s' fs t. fix_stack (tree_root s) 0 s = Some (s', True) \<and> at_node s' fs t \<and> same_tree s s' \<and>
    current_element s' = Some c"
proof -
  from assms have inv: "ordered (tree_root s)" "distinct (addrs (tree_root s))" "length (stack s) = 50"
    and "balanced (tree_root s)" "length (inorder (tree_root s)) < 2 ^ 36"
    by (simp_all add: tree_inv_def enum_capacity_def)
  then have h: "0 + tree_height_of (tree_root s) \<le> 51" by (simp add: balanced_height_bound)
  from assms(5) obtain n where n: "deref c (tree_root s) = Some n" using deref_None by fastforce
  then have "pair_at (tree_root s) c = (node_d n, node_r n)" by (simp add: pair_at_def)
  from fix_stack_found [OF assms(4) n inv(1,2) assms(5) this h inv(3)] obtain st gs t where f:
    "fix_stack (tree_root s) 0 s = Some (s\<lparr>stack_pos := 0 + length gs, stack := st\<rparr>, True)"
    "tree_root s = plug gs t" "node_ptr t = Some c" "length st = 50"
    "walk_stack 0 gs (s\<lparr>stack_pos := 0 + length gs, stack := st\<rparr>)" by blast
  have "length gs + tree_height_of t \<le> 51" using h f(2) tree_height_plug [of gs t] by simp
  moreover have "0 < tree_height_of t" using f(3) by (cases t) (simp_all add: node_ptr_def)
  ultimately have "length gs \<le> length st" using f(4) by linarith
  with f(5) have "take (length gs) st = rev (map frame_addr gs)"
    by (intro nth_equalityI) (simp_all add: walk_stack_def rev_map)
  with f(2-4) h inv(2) assms(3,4)
  have "at_node (s\<lparr>stack_pos := 0 + length gs, stack := st\<rparr>) gs t"
    by (auto simp: at_node_def stacked_def node_ptr_def)
  with f(1,4) inv(3) assms(4) show ?thesis by (auto simp: same_tree_def)
qed

lemma bst_remove_current_ok:
  assumes "bst_inv s" "bst_capacity s" "bst_current_element_valid s"
  shows "\<exists>s' p xs ys. bst_remove_current_element s = Some (s', p) \<and> bst_inv s' \<and>
    bst_element s = Some p \<and> inorder (tree_root s) = xs @ p # ys \<and>
    inorder (tree_root s') = xs @ ys \<and>
    bst_element s' = (case ys of [] \<Rightarrow> None | q # _ \<Rightarrow> Some q)"
proof -
  from assms have inv: "tree_inv s" "enum_inv s" "tree_size s < 2 ^ 36"
    by (simp_all add: bst_inv_def bst_capacity_def)
  from assms(3) inv(2) obtain fs t where at: "at_node s fs t"
    by (auto simp: enum_inv_def bst_current_element_valid_def)
  then obtain a l d r b rt where t: "t = Node a l d r b rt" by (cases t) (auto simp: at_node_def)
  note split = at_node_split [OF at]
  have cur: "current_element s = Some a" using split(1) t by simp
  have root: "tree_root s = plug fs t" "stack_pos s = length fs"
    "take (length fs) (stack s) = rev (map frame_addr fs)" "\<not> at_start s" "length (stack s) = 50"
    using at by (simp_all add: at_node_def stacked_def)
  have bal: "balanced (plug fs t)" "distinct (addrs (plug fs t))"
    using inv(1) root(1) by (simp_all add: tree_inv_def)
  have "stack s ! i = frame_addr (rev fs ! i)" if "i < length fs" for i
  proof -
    from that have "stack s ! i = take (length fs) (stack s) ! i" by simp
    also have "\<dots> = map frame_addr (rev fs) ! i" unfolding root(3) by (simp only: rev_map)
    finally show ?thesis using that by simp
  qed
  with root(2) have walk: "walk_stack 0 fs s" by (simp add: walk_stack_def)
  let ?Y = "(if l = Null \<or> rt = Null then addrs rt else a # tl (addrs rt)) @ rights fs"
  obtain s1 where s1: "step_off t s = Some s1" "same_tree s s1" "\<not> at_start s1"
    "current_element s1 = (case ?Y of [] \<Rightarrow> None | c # _ \<Rightarrow> Some c)" "current_element s1 = None \<Longrightarrow> enum_inv s1"
  proof (cases "l = Null \<or> rt = Null")
    case True
    from bst_move_next_ok [OF inv] obtain s1 more where m: "bst_move_next s = Some (s1, more)"
      "same_tree s s1" "enum_inv s1" "\<not> at_start s1"
      "if to_visit s = [] then \<not> more \<and> current_element s1 = None
       else more \<and> current_element s1 = Some (hd (to_visit s)) \<and> to_visit s1 = tl (to_visit s)" by blast
    with split(3) True t that [of s1] show ?thesis
      by (auto simp: step_off_def split: if_splits list.splits)
  next
    case False
    with t that [of "s\<lparr>current_element := Some a\<rparr>"] root(4) show ?thesis
      by (simp add: step_off_def same_tree_def)
  qed
  from remove_current_rec [OF t cur s1(1) bal walk] obtain T' g where T':
    "remove_current_element_from_tree (plug fs t) 1 s = Some (T', (d, r), g, s1)" "balanced T'"
    "tree_height_of (plug fs t) = tree_height_of T' + of_bool g"
    "inorder T' = pairs_before fs @ inorder l @ inorder rt @ pairs_after fs"
    "addrs T' = lefts fs @ addrs l @ ?Y" by auto
  let ?xs = "pairs_before fs @ inorder l" and ?ys = "inorder rt @ pairs_after fs"
  let ?s2 = "after_removal s1 T' g"
  have io: "inorder (tree_root s) = ?xs @ (d, r) # ?ys" by (simp add: root(1) inorder_plug t)
  have "\<exists>as x bs. addrs (plug fs t) = as @ x # bs \<and> addrs T' = as @ bs"
  proof (cases "l = Null \<or> rt = Null")
    case True
    with T'(5) show ?thesis
      by (intro exI [of _ "lefts fs @ addrs l"] exI [of _ a] exI [of _ "addrs rt @ rights fs"])
        (simp add: addrs_plug t)
  next
    case False
    then obtain x bs where "addrs rt = x # bs" using addrs_length [of rt] by (cases "addrs rt") auto
    with False T'(5) show ?thesis
      by (intro exI [of _ "lefts fs @ addrs l @ [a]"] exI [of _ x] exI [of _ "bs @ rights fs"])
        (simp add: addrs_plug t)
  qed
  moreover have io': "inorder T' = ?xs @ ?ys" using T'(4) by simp
  ultimately have rem: "removed (d, r) (tree_root s) T'"
    unfolding removed_def root(1) [symmetric] using io by blast
  have inv2: "tree_inv ?s2"
    using after_removal_inv(1) [OF tree_inv_same [OF inv(1) s1(2)], of "(d, r)" T' g] rem T'(2,3) s1(2) root(1)
    by (simp add: same_tree_def)
  have sz: "length (inorder T') < 2 ^ 36"
    using io inv(1,3) T'(4) by (simp add: tree_inv_def)
  have el: "bst_element s = Some (d, r)" using split(4) cur t by (simp add: bst_element_def)
  have eq: "bst_remove_current_element s = do {
      s' \<leftarrow> (if current_element s1 \<noteq> None then do { (s, _) \<leftarrow> fix_stack T' 0 ?s2; Some s } else Some ?s2);
      Some (s', d, r) }"
    using T'(1) root(1) by (simp add: bst_remove_current_element_def after_removal_def)
  have lenxs: "length ?xs = length (lefts fs @ addrs l)" by (simp add: length_pairs_before addrs_length)
  have lenys: "length ?ys = length ?Y"
    using addrs_length [of T'] T'(4,5) lenxs by simp
  show ?thesis
  proof (cases ?Y)
    case Nil
    with s1 have "current_element s1 = None" "enum_inv s1" by simp_all
    moreover from this have "enum_inv ?s2" by (simp add: enum_inv_def after_removal_def)
    moreover have "?ys = []" using lenys Nil by (metis length_0_conv)
    ultimately have "bst_remove_current_element s = Some (?s2, d, r)" "bst_inv ?s2"
      "bst_element ?s2 = None" "inorder (tree_root ?s2) = ?xs @ ?ys"
      using inv2 eq T'(4) by (simp_all add: bst_inv_def bst_element_def after_removal_def)
    with el io \<open>?ys = []\<close> show ?thesis by (metis list.simps(4))
  next
    case (Cons c Z)
    with s1(4) have c: "current_element ?s2 = Some c" "current_element s1 = Some c"
      by (simp_all add: after_removal_def)
    have ad: "addrs (tree_root ?s2) = (lefts fs @ addrs l) @ c # Z"
      using T'(5) Cons by (simp add: after_removal_def)
    then have "c \<in> set (addrs (tree_root ?s2))" by simp
    moreover have "enum_capacity ?s2" using sz by (simp add: enum_capacity_def after_removal_def)
    moreover have "\<not> at_start ?s2" using s1(3) by (simp add: after_removal_def)
    ultimately obtain s' fs' t' where s': "fix_stack (tree_root ?s2) 0 ?s2 = Some (s', True)"
      "at_node s' fs' t'" "same_tree ?s2 s'" "current_element s' = Some c"
      using fix_stack_root [OF inv2] c(1) by blast
    have r': "tree_root s' = T'" using s'(3) by (simp add: same_tree_def after_removal_def)
    have "bst_element s' = Some (pair_at T' c)"
      using bst_element_at [OF s'(4)] \<open>c \<in> _\<close> r' by (simp add: after_removal_def)
    moreover have "pair_at T' c = inorder T' ! length ?xs"
    proof -
      have "distinct (addrs T')" using inv2 by (simp add: tree_inv_def after_removal_def)
      moreover have "addrs T' = (lefts fs @ addrs l) @ c # Z" using T'(5) Cons by simp
      ultimately show ?thesis unfolding lenxs by (rule addrs_nth)
    qed
    moreover obtain y Ys where ys: "?ys = y # Ys" using lenys Cons by (metis length_Suc_conv list.size(4))
    ultimately have "bst_element s' = Some y" using T'(4) by (simp add: nth_append)
    moreover have "bst_inv s'"
      using tree_inv_same [OF inv2 s'(3)] at_node_enum_inv [OF s'(2)] by (simp add: bst_inv_def)
    moreover have "bst_remove_current_element s = Some (s', d, r)"
      using eq c(2) s'(1) by (simp add: after_removal_def)
    ultimately show ?thesis using el io ys T'(4) r'
      by (intro exI [of _ s'] exI [of _ "(d, r)"] exI [of _ ?xs] exI [of _ ?ys]) simp
  qed
qed

section \<open>Positioning the enumerator\<close>

lemma push_any:
  assumes "stacked s fs t" "t = plug1 f t'" "tree_height_of (tree_root s) \<le> 50"
  shows "\<exists>s'. bst_push (frame_addr f) s = Some s' \<and> stacked s' (f # fs) t' \<and>
    at_start s' = at_start s \<and> same_tree s s' \<and> current_element s' = current_element s"
proof -
  have "length fs + tree_height_of t \<le> tree_height_of (tree_root s)"
    using assms(1) tree_height_plug [of fs t] by (simp add: stacked_def)
  moreover have "0 < tree_height_of t" using assms(2) by (cases f) simp_all
  ultimately have "length fs < 50" using assms(3) by linarith
  with assms(1,2) show ?thesis
    by (auto simp: stacked_def bst_push_def take_Suc_conv_app_nth same_tree_def)
qed

lemma stacked_at: "stacked s fs t \<Longrightarrow> stacked (s\<lparr>current_element := c\<rparr>) fs t"
  by (auto simp: stacked_def)

definition went_left_at :: "('d, 'r) frame list \<Rightarrow> bool \<Rightarrow> bool" where
  "went_left_at fs went_left \<longleftrightarrow>
     (case fs of [] \<Rightarrow> True | InLeft _ _ _ _ _ # _ \<Rightarrow> went_left | InRight _ _ _ _ _ # _ \<Rightarrow> \<not> went_left)"

text \<open>
  The search keeps every pair in front of the hole below the key and every pair behind it above,
  until it finds the key or reaches a null pointer.
\<close>

lemma search_push_ok:
  "stacked s fs t \<Longrightarrow> tree_height_of (tree_root s) \<le> 50 \<Longrightarrow> ordered t \<Longrightarrow> \<not> at_start s \<Longrightarrow>
   went_left_at fs wl \<Longrightarrow> current_element s = None \<Longrightarrow>
   (\<forall>p \<in> set (pairs_before fs). fst p < d) \<Longrightarrow> (\<forall>p \<in> set (pairs_after fs). d < fst p) \<Longrightarrow>
     \<exists>s' found wl' fs' t'. search_push t d wl s = Some (s', found, wl') \<and> same_tree s s' \<and>
       \<not> at_start s' \<and> stacked s' fs' t' \<and>
       (if found then current_element s' = node_ptr t' \<and> t' \<noteq> Null \<and> node_d t' = d
        else t' = Null \<and> went_left_at fs' wl' \<and> current_element s' = None \<and>
          (\<forall>p \<in> set (pairs_before fs'). fst p < d) \<and> (\<forall>p \<in> set (pairs_after fs'). d < fst p))"
proof (induction t d wl s arbitrary: fs rule: search_push.induct)
  case (1 d wl s)
  then show ?case by (intro exI [of _ s] exI [of _ False] exI [of _ wl] exI [of _ fs] exI [of _ Null]) simp
next
  case (2 a l td tr b rt d wl s)
  note ord = orderedD [OF "2.prems"(3)]
  consider "d < td" | "td < d" | "td = d" by fastforce
  then show ?case
  proof cases
    case 1
    let ?f = "InLeft a td tr b rt"
    from push_any [OF "2.prems"(1), of ?f l] "2.prems"(2) obtain s1 where s1:
      "bst_push a s = Some s1" "stacked s1 (?f # fs) l" "at_start s1 = at_start s" "same_tree s s1"
      "current_element s1 = current_element s" by auto
    have "\<forall>p \<in> set (pairs_after (?f # fs)). d < fst p"
      using 1 ord(4) "2.prems"(8) by fastforce
    moreover have "comp d td" using 1 by (simp add: comp_def)
    ultimately show ?thesis
      using "2.IH"(1) [of s1 "?f # fs"] s1 "2.prems" ord(1)
      by (fastforce simp: went_left_at_def same_tree_def intro: same_tree_trans)
  next
    case 2
    let ?f = "InRight a l td tr b"
    from push_any [OF "2.prems"(1), of ?f rt] "2.prems"(2) obtain s1 where s1:
      "bst_push a s = Some s1" "stacked s1 (?f # fs) rt" "at_start s1 = at_start s" "same_tree s s1"
      "current_element s1 = current_element s" by auto
    have "\<forall>p \<in> set (pairs_before (?f # fs)). fst p < d"
      using 2 ord(3) "2.prems"(7) by fastforce
    moreover have "\<not> comp d td" "comp td d" using 2 by (simp_all add: comp_def)
    ultimately show ?thesis
      using "2.IH"(2) [of s1 "?f # fs"] s1 "2.prems" ord(2)
      by (fastforce simp: went_left_at_def same_tree_def intro: same_tree_trans)
  next
    case 3
    let ?s = "s\<lparr>current_element := Some a\<rparr>"
    have "search_push (Node a l td tr b rt) d wl s = Some (?s, True, wl)"
      using 3 by (simp add: comp_def)
    moreover have "stacked ?s fs (Node a l td tr b rt)" "same_tree s ?s" "\<not> at_start ?s"
      using stacked_at [OF "2.prems"(1)] "2.prems"(4) by (simp_all add: same_tree_def)
    moreover have "current_element ?s = node_ptr (Node a l td tr b rt)"
      by (simp add: node_ptr_def)
    ultimately show ?thesis using 3 by (metis node.distinct(1) node.sel(3))
  qed
qed

text \<open>
  The enumerator ends on a pair with the key if the tree has one, and otherwise on the first pair
  with a greater key.
\<close>

lemma find_greater:
  fixes d :: "'d::linorder"
  assumes "\<forall>p \<in> set xs. fst p < d" "\<forall>p \<in> set ys. d < fst p"
  shows "find (\<lambda>p. \<not> fst p < d) (xs @ ys) = (case ys of [] \<Rightarrow> None | q # _ \<Rightarrow> Some q)"
  using assms by (induction xs) (auto split: list.splits simp: less_not_sym)

lemma bst_position_ok:
  assumes "bst_inv s" "tree_size s < 2 ^ 35"
  shows "\<exists>s'. bst_position_enumerator s d = Some s' \<and> bst_inv s' \<and> same_tree s s' \<and>
    (if d \<in> fst ` set (inorder (tree_root s))
     then \<exists>r. bst_element s' = Some (d, r) \<and> (d, r) \<in> set (inorder (tree_root s))
     else bst_element s' = find (\<lambda>p. \<not> fst p < d) (inorder (tree_root s)))"
proof -
  let ?s = "(bst_reset s)\<lparr>at_start := False\<rparr>"
  let ?in = "inorder (tree_root s)"
  from assms have inv: "tree_inv s" by (simp add: bst_inv_def)
  then have h: "tree_height_of (tree_root s) \<le> 50" and
    ok: "ordered (tree_root s)" "distinct (addrs (tree_root s))" "length (stack s) = 50"
    using assms(2) by (simp_all add: tree_inv_def balanced_height_bound_50)
  have "stacked ?s [] (tree_root s)" using h ok by (simp add: stacked_def bst_reset_def)
  from search_push_ok [OF this, of False d] h ok(1) obtain s1 found wl fs t where s1:
    "search_push (tree_root s) d False ?s = Some (s1, found, wl)" "same_tree ?s s1" "\<not> at_start s1"
    "stacked s1 fs t" "if found then current_element s1 = node_ptr t \<and> t \<noteq> Null \<and> node_d t = d
      else t = Null \<and> went_left_at fs wl \<and> current_element s1 = None \<and>
        (\<forall>p \<in> set (pairs_before fs). fst p < d) \<and> (\<forall>p \<in> set (pairs_after fs). d < fst p)"
    by (auto simp: bst_reset_def went_left_at_def)
  have same: "same_tree s s1" using s1(2) by (simp add: same_tree_def bst_reset_def)
  then have root: "tree_root s1 = tree_root s" "tree_root s = plug fs t"
    using s1(4) by (simp_all add: same_tree_def stacked_def)
  have pos: "bst_position_enumerator s d =
     (if found then Some s1 else if stack_pos s1 > 0 then do {
        (a, s) \<leftarrow> bst_pop s1;
        (if wl then Some (s\<lparr>current_element := Some a\<rparr>)
         else do { (s, _) \<leftarrow> bst_move_next (s\<lparr>current_element := Some a\<rparr>); Some s }) }
      else Some s1)"
    using s1(1) by (simp add: bst_position_enumerator_def bst_reset_def Let_def)
  show ?thesis
  proof (cases found)
    case True
    with s1 have at: "at_node s1 fs t" "node_d t = d" by (simp_all add: at_node_def)
    from at_node_split(1,4) [OF at(1)] have el: "bst_element s1 = Some (d, node_r t)"
      using at(2) by (simp add: bst_element_def)
    have "bst_inv s1" using tree_inv_same [OF inv same] at_node_enum_inv [OF at(1)] by (simp add: bst_inv_def)
    moreover have "(d, node_r t) \<in> set ?in"
      using at root(2) by (cases t) (auto simp: at_node_def inorder_plug)
    ultimately show ?thesis using True pos same el by (force simp: image_iff)
  next
    case False
    with s1(5) have f: "t = Null" "went_left_at fs wl" "current_element s1 = None"
      "\<forall>p \<in> set (pairs_before fs). fst p < d" "\<forall>p \<in> set (pairs_after fs). d < fst p" by simp_all
    have io: "?in = pairs_before fs @ pairs_after fs" using root(2) f(1) by (simp add: inorder_plug)
    with f(4,5) have missing: "d \<notin> fst ` set ?in" by auto
    note fg = find_greater [OF f(4,5), folded io]
    show ?thesis
    proof (cases fs)
      case Nil
      with s1(4) f io False pos have "bst_position_enumerator s d = Some s1" "?in = []" "bst_element s1 = None"
        by (simp_all add: stacked_def bst_element_def)
      moreover have "bst_inv s1"
        using tree_inv_same [OF inv same] f(3) s1(3) by (simp add: bst_inv_def enum_inv_def)
      ultimately show ?thesis using missing same by auto
    next
      case (Cons g fs')
      from pop_stacked [OF s1(4) [unfolded Cons]] obtain s2 where s2:
        "bst_pop s1 = Some (frame_addr g, s2)" "stacked s2 fs' (plug1 g t)" "s2 = s1\<lparr>stack_pos := length fs'\<rparr>"
        by blast
      let ?s3 = "s2\<lparr>current_element := Some (frame_addr g)\<rparr>"
      have at: "at_node ?s3 fs' (plug1 g t)"
        using stacked_at [OF s2(2)] s2(3) s1(3) by (cases g) (simp_all add: at_node_def node_ptr_def)
      note sp = at_node_split [OF at]
      have same3: "same_tree s ?s3" using same s2(3) by (simp add: same_tree_def)
      have inv3: "tree_inv ?s3" "enum_inv ?s3" "tree_size ?s3 < 2 ^ 36"
        using tree_inv_same [OF inv same3] at_node_enum_inv [OF at] assms(2) same3
        by (simp_all add: same_tree_def)
      have stp: "stack_pos s1 > 0" using s1(4) Cons by (simp add: stacked_def)
      show ?thesis
      proof (cases wl)
        case True
        then obtain a gd gr b rt where g: "g = InLeft a gd gr b rt"
          using f(2) Cons by (cases g) (simp_all add: went_left_at_def)
        have "bst_element ?s3 = Some (gd, gr)" using sp(1,4) g by (simp add: bst_element_def)
        moreover have "find (\<lambda>p. \<not> fst p < d) ?in = Some (gd, gr)" using fg Cons g by simp
        moreover have "bst_position_enumerator s d = Some ?s3" using pos False True stp s2(1) by simp
        ultimately show ?thesis using missing same3 inv3 by (auto simp: bst_inv_def)
      next
        case wl: False
        then obtain a l gd gr b where g: "g = InRight a l gd gr b"
          using f(2) Cons by (cases g) (simp_all add: went_left_at_def)
        have tv: "to_visit ?s3 = rights fs'" using sp(3) g f(1) by simp
        from bst_move_next_ok [OF inv3] obtain s4 more where s4:
          "bst_move_next ?s3 = Some (s4, more)" "same_tree ?s3 s4" "enum_inv s4"
          "if rights fs' = [] then \<not> more \<and> current_element s4 = None
           else more \<and> current_element s4 = Some (hd (rights fs'))" unfolding tv by metis
        have same4: "same_tree s s4" using same3 s4(2) by (rule same_tree_trans)
        have inv4: "bst_inv s4" using tree_inv_same [OF inv same4] s4(3) by (simp add: bst_inv_def)
        have pos': "bst_position_enumerator s d = Some s4" using pos False wl stp s2(1) s4(1) by simp
        have "bst_element s4 = (case pairs_after fs' of [] \<Rightarrow> None | q # _ \<Rightarrow> Some q)"
        proof (cases "rights fs'")
          case Nil
          then have "pairs_after fs' = []" using length_pairs_after [of fs'] by simp
          with Nil s4(4) show ?thesis by (simp add: bst_element_def)
        next
          case R: (Cons c cs)
          have ad: "addrs (tree_root s) = (lefts fs) @ c # cs"
            using root(2) f(1) Cons g R by (simp add: addrs_plug)
          with R s4(4) same4 have "bst_element s4 = Some (pair_at (tree_root s) c)"
            by (intro bst_element_at [THEN trans]) (simp_all add: same_tree_def)
          also have "pair_at (tree_root s) c = ?in ! length (lefts fs)"
            by (rule addrs_nth [OF ok(2) ad])
          also have "\<dots> = hd (pairs_after fs)"
          proof -
            have "pairs_after fs \<noteq> []" using length_pairs_after [of fs] R Cons g by auto
            then obtain q qs where "pairs_after fs = q # qs" by (cases "pairs_after fs") auto
            then show ?thesis unfolding io length_pairs_before [of fs, symmetric] by simp
          qed
          finally show ?thesis using length_pairs_after [of fs'] R Cons g by (cases "pairs_after fs'") simp_all
        qed
        moreover have "pairs_after fs = pairs_after fs'" using Cons g by simp
        ultimately show ?thesis using missing fg same4 inv4 pos' by simp
      qed
    qed
  qed
qed

section \<open>Properties of the tree\<close>

text \<open>
  A tree with the keys 1 to 5, as the insertions 2, 1, 4, 3, 5 leave it, and the same tree with
  the enumerator on key 3; the instances below are about them.
\<close>

definition sample_tree :: "(nat, nat) bst" where
  "sample_tree =
     \<lparr>tree_size = 5,
      tree_root = Node 0 (Node 1 Null 1 10 0 Null) 2 20 1
        (Node 2 (Node 3 Null 3 30 0 Null) 4 40 0 (Node 4 Null 5 50 0 Null)),
      current_element = None, pool = 5, tree_height = 3, at_start = True, stack_pos = 0,
      stack = replicate 50 0\<rparr>"

definition sample_at_3 :: "(nat, nat) bst" where
  "sample_at_3 = sample_tree\<lparr>current_element := Some 3, at_start := False, stack_pos := 2,
     stack := 0 # 2 # replicate 48 0\<rparr>"

lemma sample_tree_inv: "bst_inv sample_tree" "bst_capacity sample_tree"
  by (simp_all add: bst_inv_def tree_inv_def enum_inv_def ordered_def height_diff_def
      bst_capacity_def sample_tree_def)

lemma sample_contents:
  "inorder (tree_root sample_tree) = [(1, 10), (2, 20), (3, 30), (4, 40), (5, 50)]"
  "bst_contents sample_tree = {#(1, 10), (2, 20), (3, 30), (4, 40), (5, 50)#}"
  by (simp_all add: bst_contents_def sample_tree_def)

lemma sample_size [simp]: "tree_size sample_tree = 5"
  by (simp add: sample_tree_def)

lemma sample_at_3_eq: "bst_position_enumerator sample_tree 3 = Some sample_at_3"
proof -
  have st: "replicate 50 0 = 0 # 0 # replicate 48 (0::nat)" by (simp flip: replicate_Suc)
  show ?thesis
    by (simp add: bst_position_enumerator_def sample_at_3_def sample_tree_def bst_reset_def
        bst_push_def comp_def Let_def st)
qed

lemma sample_at_3_inv:
  "bst_inv sample_at_3" "bst_capacity sample_at_3" "bst_current_element_valid sample_at_3"
proof -
  have small: "tree_size sample_tree < 2 ^ 35" by simp
  from bst_position_ok [OF sample_tree_inv(1) small, of 3] show "bst_inv sample_at_3"
    by (simp add: sample_at_3_eq)
  show "bst_capacity sample_at_3" "bst_current_element_valid sample_at_3"
    by (simp_all add: bst_capacity_def bst_current_element_valid_def sample_at_3_def sample_tree_def)
qed

text \<open>
  C1. \<open>add\<close> never fails, keeps the invariant of the class (balance numbers, order, cached height and
  size, distinct nodes), puts the new pair behind the pairs whose key is not greater, and resets the
  enumerator.
\<close>

theorem bst_add_correct:
  assumes "bst_inv s"
  shows "\<exists>s'. bst_add s d r = Some s' \<and> bst_inv s' \<and> at_start s' \<and>
    inorder (tree_root s') =
      takeWhile (\<lambda>p. fst p \<le> d) (inorder (tree_root s)) @
      (d, r) # dropWhile (\<lambda>p. fst p \<le> d) (inorder (tree_root s))"
proof -
  from assms have "tree_inv s" by (simp add: bst_inv_def)
  from bst_add_ok [OF this, of d r] obtain s' where s': "bst_add s d r = Some s'" "bst_inv s'"
    "inorder (tree_root s') = ins_pair d r (inorder (tree_root s))" by (auto simp: bst_inv_def)
  moreover from s'(1) have "at_start s'" by (auto simp: bst_add_def bst_reset_def split: bind_splits)
  ultimately show ?thesis by (auto simp: ins_pair_def)
qed

theorem bst_add_correct_witness:
  "\<exists>s'. bst_add sample_tree 3 31 = Some s' \<and> bst_inv s' \<and>
    inorder (tree_root s') = [(1, 10), (2, 20), (3, 30), (3, 31), (4, 40), (5, 50)]"
  using bst_add_correct [OF sample_tree_inv(1), of 3 31] by (auto simp: sample_contents)

text \<open>
  C2. \<open>remove\<close> of a key that the tree holds takes one pair with this key out of the sequence of the pairs, returns it and
  leaves all other pairs, those with an equal key included, in their order; \<open>destroy\<close> leaves the same tree.
\<close>

theorem bst_remove_correct:
  assumes "bst_inv s" "d \<in> keys_of (bst_contents s)"
  shows "\<exists>s' r xs ys. bst_remove s d = Some (s', d, r) \<and> bst_destroy s d = Some s' \<and> bst_inv s' \<and>
    inorder (tree_root s) = xs @ (d, r) # ys \<and> inorder (tree_root s') = xs @ ys \<and>
    bst_contents s = add_mset (d, r) (bst_contents s')"
proof -
  from assms(1) have "tree_inv s" by (simp add: bst_inv_def)
  from bst_remove_seq [OF this assms(2)] obtain s' r xs ys where
    s': "bst_remove s d = Some (s', d, r)" "tree_inv s'" "enum_inv s'"
      "inorder (tree_root s) = xs @ (d, r) # ys" "inorder (tree_root s') = xs @ ys" by blast
  then show ?thesis
    by (intro exI [of _ s'] exI [of _ r] exI [of _ xs] exI [of _ ys])
      (simp add: bst_destroy_eq bst_inv_def bst_contents_def)
qed

theorem bst_remove_correct_witness:
  "\<exists>s' r xs ys. bst_remove sample_tree 2 = Some (s', 2, r) \<and> bst_destroy sample_tree 2 = Some s' \<and> bst_inv s' \<and>
    inorder (tree_root sample_tree) = xs @ (2, r) # ys \<and> inorder (tree_root s') = xs @ ys \<and>
    bst_contents sample_tree = add_mset (2, r) (bst_contents s')"
  by (rule bst_remove_correct [OF sample_tree_inv(1)]) (simp add: sample_contents)

text \<open>
  C3. \<open>remove_current_element\<close> removes the pair the enumerator is on, whatever its place in the tree,
  and leaves the enumerator on the next pair in order, with a correct stack of parents.
\<close>

theorem bst_remove_current_element_correct:
  assumes "bst_inv s" "bst_capacity s" "bst_current_element_valid s"
  shows "\<exists>s' p xs ys. bst_remove_current_element s = Some (s', p) \<and> bst_inv s' \<and>
    bst_element s = Some p \<and> inorder (tree_root s) = xs @ p # ys \<and>
    inorder (tree_root s') = xs @ ys \<and>
    bst_element s' = (case ys of [] \<Rightarrow> None | q # _ \<Rightarrow> Some q)"
  using assms by (rule bst_remove_current_ok)

theorem bst_remove_current_element_witness:
  "\<exists>s' p xs ys. bst_remove_current_element sample_at_3 = Some (s', p) \<and> bst_inv s' \<and>
    bst_element sample_at_3 = Some p \<and> inorder (tree_root sample_at_3) = xs @ p # ys \<and>
    inorder (tree_root s') = xs @ ys \<and>
    bst_element s' = (case ys of [] \<Rightarrow> None | q # _ \<Rightarrow> Some q)"
  by (rule bst_remove_current_element_correct [OF sample_at_3_inv])

text \<open>
  C5. \<open>position_enumerator\<close> puts the enumerator on a pair with the key, or, if there is none, on the
  first pair in order with a greater key; it changes nothing else.
\<close>

theorem bst_position_enumerator_correct:
  assumes "bst_inv s" "tree_size s < 2 ^ 35"
  shows "\<exists>s'. bst_position_enumerator s d = Some s' \<and> bst_inv s' \<and> tree_root s' = tree_root s \<and>
    (if d \<in> keys_of (bst_contents s)
     then \<exists>r. bst_element s' = Some (d, r) \<and> (d, r) \<in># bst_contents s
     else bst_element s' = find (\<lambda>p. \<not> fst p < d) (inorder (tree_root s)))"
proof -
  from bst_position_ok [OF assms, of d] obtain s' where s': "bst_position_enumerator s d = Some s'"
    "bst_inv s'" "same_tree s s'"
    "if d \<in> fst ` set (inorder (tree_root s))
     then \<exists>r. bst_element s' = Some (d, r) \<and> (d, r) \<in> set (inorder (tree_root s))
     else bst_element s' = find (\<lambda>p. \<not> fst p < d) (inorder (tree_root s))" by blast
  then show ?thesis by (simp add: bst_contents_def same_tree_def)
qed

theorem bst_position_enumerator_witness:
  "tree_size sample_tree < 2 ^ 35 \<and> (\<exists>s'. bst_position_enumerator sample_tree 6 = Some s' \<and>
    bst_inv s' \<and> bst_element s' = None)"
  using bst_position_enumerator_correct [OF sample_tree_inv(1), of 6]
  by (auto simp: sample_contents)

text \<open>
  C4. A complete enumeration, \<open>reset\<close> and then \<open>move_next\<close> until it returns false, delivers every pair
  of the tree once, in ascending order of the keys, without overflow of the stack of 50 pointers, and
  leaves the tree unchanged.
\<close>

theorem bst_enumerates_in_order:
  assumes "bst_inv s" "bst_capacity s"
  shows "\<exists>ps s'. bst_enumerate (Suc (tree_size s)) (bst_reset s) = Some (ps, s') \<and>
    sorted (map fst ps) \<and> mset ps = bst_contents s \<and> bst_inv s' \<and>
    bst_contents s' = bst_contents s \<and> \<not> bst_current_element_valid s'"
proof -
  have "size (bst_contents s) = tree_size s"
    using avl.size_spec [OF assms(1)] by simp
  with bst_enumerate_contents [OF assms] obtain s' where
    "bst_enumerate (Suc (tree_size s)) (bst_reset s) = Some (inorder (tree_root s), s')" "bst_inv s'"
    "bst_contents s' = bst_contents s" "\<not> bst_current_element_valid s'" by metis
  moreover have "sorted (map fst (inorder (tree_root s)))" "mset (inorder (tree_root s)) = bst_contents s"
    using assms(1) by (simp_all add: bst_inv_def tree_inv_def ordered_def bst_contents_def)
  ultimately show ?thesis by blast
qed

theorem bst_enumerates_in_order_witness:
  "\<exists>ps s'. bst_enumerate (Suc (tree_size sample_tree)) (bst_reset sample_tree) = Some (ps, s') \<and>
    sorted (map fst ps) \<and> mset ps = bst_contents sample_tree \<and> bst_inv s' \<and>
    bst_contents s' = bst_contents sample_tree \<and> \<not> bst_current_element_valid s'"
  by (rule bst_enumerates_in_order [OF sample_tree_inv])

text \<open>
  \<open>remove_any\<close> takes the first pair in order out of a tree that is not empty, and
  \<open>remove_last_in_order\<close> the last one.
\<close>

theorem bst_remove_ends:
  assumes "bst_inv s" "tree_size s \<noteq> 0"
  shows "(\<exists>s' p. bst_remove_any s = Some (s', p) \<and> bst_inv s' \<and>
      inorder (tree_root s) = p # inorder (tree_root s')) \<and>
    (\<exists>s' p. bst_remove_last_in_order s = Some (s', p) \<and> bst_inv s' \<and>
      inorder (tree_root s) = inorder (tree_root s') @ [p])"
proof -
  from assms have "tree_inv s" "bst_contents s \<noteq> {#}"
    by (auto simp: bst_inv_def tree_inv_def bst_contents_def)
  from bst_remove_any_ok [OF this] bst_remove_last_ok [OF this] show ?thesis
    by (auto simp: bst_inv_def)
qed

theorem bst_remove_ends_witness:
  "tree_size sample_tree \<noteq> 0 \<and>
   (\<exists>s' p. bst_remove_any sample_tree = Some (s', p) \<and> bst_inv s' \<and>
      inorder (tree_root sample_tree) = p # inorder (tree_root s'))"
  using bst_remove_ends [OF sample_tree_inv(1)] by simp

text \<open>Adding the pairs of a list, one after the other.\<close>

fun bst_add_all :: "('d::linorder, 'r) bst \<Rightarrow> ('d \<times> 'r) list \<Rightarrow> ('d, 'r) bst option" where
  "bst_add_all s [] = Some s"
| "bst_add_all s (p # ps) = do { s \<leftarrow> bst_add s (fst p) (snd p); bst_add_all s ps }"

lemma filter_ins_pair:
  "sorted (map fst xs) \<Longrightarrow>
     filter (\<lambda>p. k = fst p) (ins_pair d r xs) = filter (\<lambda>p. k = fst p) xs @ (if k = d then [(d, r)] else [])"
proof (induction xs)
  case (Cons p xs)
  have "filter (\<lambda>p. d = fst p) xs = []" if "\<not> fst p \<le> d"
    using that Cons.prems by (force simp: filter_empty_conv)
  with Cons show ?case by (auto simp: ins_pair_def)
qed (simp add: ins_pair_def)

lemma bst_add_all_ok:
  assumes "bst_inv s"
  shows "\<exists>s'. bst_add_all s ps = Some s' \<and> bst_inv s' \<and> bst_contents s' = bst_contents s + mset ps \<and>
    (\<forall>k. filter (\<lambda>p. k = fst p) (inorder (tree_root s')) =
      filter (\<lambda>p. k = fst p) (inorder (tree_root s)) @ filter (\<lambda>p. k = fst p) ps)"
  using assms
proof (induction ps arbitrary: s)
  case (Cons p ps)
  obtain d r where p: "p = (d, r)" by (cases p)
  from Cons.prems have t: "tree_inv s" by (simp add: bst_inv_def)
  from bst_add_ok [OF t, of d r] obtain s1 where s1: "bst_add s d r = Some s1" "bst_inv s1"
    "inorder (tree_root s1) = ins_pair d r (inorder (tree_root s))" by (auto simp: bst_inv_def)
  have "sorted (map fst (inorder (tree_root s)))" using t by (simp add: tree_inv_def ordered_def)
  note f = filter_ins_pair [OF this]
  from Cons.IH [OF s1(2)] obtain s' where "bst_add_all s1 ps = Some s'" "bst_inv s'"
    "bst_contents s' = bst_contents s1 + mset ps"
    "\<forall>k. filter (\<lambda>p. k = fst p) (inorder (tree_root s')) =
      filter (\<lambda>p. k = fst p) (inorder (tree_root s1)) @ filter (\<lambda>p. k = fst p) ps" by blast
  with s1 show ?case by (simp add: p f bst_contents_def)
qed simp

lemma bst_height_bound:
  assumes "bst_inv s" "tree_size s < 2 ^ 36"
  shows "min_nodes (nat (tree_height s)) \<le> tree_size s \<and> 0 \<le> tree_height s \<and> tree_height s \<le> 51"
  using assms balanced_min_nodes [of "tree_root s"] balanced_height_bound [of "tree_root s"]
  by (simp add: bst_inv_def tree_inv_def)

text \<open>
  C6. Adding the pairs of a list to an empty tree, one after the other, and enumerating the tree is a stable sort: it
  never fails for less than \<open>2 ^ 36\<close> pairs, and the pairs come in ascending order of the keys, those with equal keys in
  the order in which they were added. The tree stays low: its height \<open>h\<close> is at most 51, and there are at least as many pairs
  as the recurrence \<open>min_nodes\<close> of a balanced tree has at \<open>h\<close>, whatever the order of the list.
\<close>

theorem bst_sorts:
  assumes "length ps < 2 ^ 36"
  shows "\<exists>s s'. bst_add_all binary_search_tree_kernel_1 ps = Some s \<and>
    bst_enumerate (Suc (tree_size s)) (bst_reset s) = Some (sort_key fst ps, s') \<and>
    tree_size s = length ps \<and> min_nodes (nat (tree_height s)) \<le> length ps \<and> 0 \<le> tree_height s \<and> tree_height s \<le> 51"
proof -
  let ?init = "binary_search_tree_kernel_1 :: ('a, 'b) bst"
  have "enum_inv ?init" "inorder (tree_root ?init) = []"
    by (simp_all add: enum_inv_def binary_search_tree_kernel_1_def)
  then have init: "bst_inv ?init" "inorder (tree_root ?init) = []" "bst_contents ?init = {#}"
    by (simp_all add: bst_inv_def tree_inv_init bst_contents_def)
  from bst_add_all_ok [OF init(1), of ps] obtain s where s: "bst_add_all ?init ps = Some s" "bst_inv s"
    "mset (inorder (tree_root s)) = mset ps"
    "\<And>k. filter (\<lambda>p. k = fst p) (inorder (tree_root s)) = filter (\<lambda>p. k = fst p) ps"
    by (auto simp: init bst_contents_def)
  have size: "tree_size s = length ps"
    using avl.size_spec [OF s(2)] s(3) by (simp add: bst_contents_def bst_ops_def)
  have sorted: "sorted (map fst (inorder (tree_root s)))" using s(2) by (simp add: bst_inv_def tree_inv_def ordered_def)
  have "sort_key fst ps = inorder (tree_root s)" by (rule properties_for_sort_key) (use s(3,4) sorted in auto)
  moreover have "bst_capacity s" using assms size by (simp add: bst_capacity_def)
  with bst_enumerate_contents [OF s(2)] obtain s' where
    "bst_enumerate (Suc (tree_size s)) (bst_reset s) = Some (inorder (tree_root s), s')"
    using s(3) size by (auto simp: bst_contents_def)
  moreover note bst_height_bound [OF s(2)]
  ultimately show ?thesis using s(1) size assms by (intro exI [of _ s] exI [of _ s']) simp
qed

theorem bst_sorts_witness:
  "\<exists>s s'. bst_add_all binary_search_tree_kernel_1 [(3, 1), (1, 2), (3, 0 :: nat), (2 :: nat, 5)] = Some s \<and>
    bst_enumerate (Suc (tree_size s)) (bst_reset s) = Some ([(1, 2), (2, 5), (3, 1), (3, 0)], s')"
proof -
  have "sort_key fst [(3, 1), (1, 2), (3, 0 :: nat), (2 :: nat, 5)] = [(1, 2), (2, 5), (3, 1), (3, 0)]" by simp
  with bst_sorts [of "[(3, 1), (1, 2), (3, 0 :: nat), (2 :: nat, 5)]"] show ?thesis by auto
qed

text \<open>
  \<open>operator[]\<close> returns a value stored under the key, or null exactly if there is none, and
  \<open>count\<close> the number of pairs with the key.
\<close>

theorem bst_lookup_correct:
  assumes "bst_inv s"
  shows "(case bst_index s d of None \<Rightarrow> d \<notin> keys_of (bst_contents s)
      | Some r \<Rightarrow> (d, r) \<in># bst_contents s) \<and>
    bst_count s d = count (image_mset fst (bst_contents s)) d"
  using avl.index_None [OF assms, of d] avl.index_Some [OF assms, of d] avl.count_spec [OF assms, of d]
  by (auto split: option.splits)

theorem bst_lookup_correct_witness:
  "bst_index sample_tree 6 = None \<and> bst_index sample_tree 4 = Some 40 \<and> bst_count sample_tree 4 = 1"
  using bst_lookup_correct [OF sample_tree_inv(1), of 4] bst_lookup_correct [OF sample_tree_inv(1), of 6]
  by (auto simp: sample_contents split: option.splits)

text \<open>
  \<open>clear\<close> and the destructor deallocate every node of the tree, each one once, and \<open>clear\<close> leaves
  the initial state except for the contents of the stack.
\<close>

theorem bst_clear_frees_all:
  assumes "bst_inv s" "tree_size s \<noteq> 0"
  shows "(\<exists>as. delete_tree (tree_root s) = Some as \<and> distinct as \<and> set as = set (addrs (tree_root s))) \<and>
    bst_clear s = Some (binary_search_tree_kernel_1\<lparr>pool := pool s, stack := stack s\<rparr>)"
proof -
  from assms have "tree_root s \<noteq> Null" by (auto simp: bst_inv_def tree_inv_def)
  from delete_tree_ok [OF this] obtain as where
    as: "delete_tree (tree_root s) = Some as" "mset as = mset (addrs (tree_root s))" by blast
  moreover have "distinct (addrs (tree_root s))" using assms by (simp add: bst_inv_def tree_inv_def)
  with as(2) have "distinct as" "set as = set (addrs (tree_root s))"
    using mset_eq_imp_distinct_iff mset_eq_setD by blast+
  ultimately show ?thesis
    using assms(2) by (simp add: bst_clear_def bst_reset_def binary_search_tree_kernel_1_def)
qed

theorem bst_clear_frees_all_witness:
  "tree_size sample_tree \<noteq> 0 \<and> (\<exists>as. delete_tree (tree_root sample_tree) = Some as \<and> distinct as)"
  using bst_clear_frees_all [OF sample_tree_inv(1)] by auto

end
