(* ===== verification/Checked_Containers.thy ===== *)
theory Checked_Containers
  imports Bst_Current Hash_Table_Kernel_1
begin

text \<open>
  The checked containers \<open>binary_search_tree_kernel_c.h\<close> and \<open>hash_table_kernel_c.h\<close>: every
  call with a requires clause first asserts it. \<open>differ\<close> tells whether the objects the clause
  compares by address are distinct.
\<close>

section \<open>The checked tree\<close>

definition bst_c_add :: "('d::linorder, 'r) bst \<Rightarrow> 'd \<Rightarrow> 'r \<Rightarrow> bool \<Rightarrow> ('d, 'r) bst outcome" where
  "bst_c_add s d r differ = dlib_cassert differ (run_unchecked (bst_add s d r))"

definition bst_c_destroy :: "('d::linorder, 'r) bst \<Rightarrow> 'd \<Rightarrow> ('d, 'r) bst outcome" where
  "bst_c_destroy s d = dlib_cassert (bst_index s d \<noteq> None) (run_unchecked (bst_destroy s d))"

definition bst_c_remove :: "('d::linorder, 'r) bst \<Rightarrow> 'd \<Rightarrow> bool \<Rightarrow> (('d, 'r) bst \<times> 'd \<times> 'r) outcome" where
  "bst_c_remove s d differ =
     dlib_cassert (bst_index s d \<noteq> None \<and> differ) (run_unchecked (bst_remove s d))"

definition bst_c_remove_any :: "('d, 'r) bst \<Rightarrow> bool \<Rightarrow> (('d, 'r) bst \<times> 'd \<times> 'r) outcome" where
  "bst_c_remove_any s differ =
     dlib_cassert (tree_size s \<noteq> 0 \<and> differ) (run_unchecked (bst_remove_any s))"

definition bst_c_remove_last_in_order :: "('d, 'r) bst \<Rightarrow> (('d, 'r) bst \<times> 'd \<times> 'r) outcome" where
  "bst_c_remove_last_in_order s =
     dlib_cassert (tree_size s > 0) (run_unchecked (bst_remove_last_in_order s))"

definition bst_c_remove_current_element :: "('d::linorder, 'r) bst \<Rightarrow> (('d, 'r) bst \<times> 'd \<times> 'r) outcome" where
  "bst_c_remove_current_element s =
     dlib_cassert (bst_current_element_valid s = True) (run_unchecked (bst_remove_current_element s))"

definition bst_c_element :: "('d, 'r) bst \<Rightarrow> ('d \<times> 'r) outcome" where
  "bst_c_element s = dlib_cassert (bst_current_element_valid s = True) (run_unchecked (bst_element s))"

lemma bst_empty_iff: "bst_inv s \<Longrightarrow> bst_contents s = {#} \<longleftrightarrow> tree_size s = 0"
  using avl.size_spec [of s] by auto

lemma bst_c_defined:
  assumes "bst_inv s"
  shows "defined (bst_c_add s d r differ)" "defined (bst_c_destroy s d)"
    "defined (bst_c_remove s d differ)" "defined (bst_c_remove_any s differ)"
    "defined (bst_c_remove_last_in_order s)" "defined (bst_c_element s)"
    "bst_capacity s \<Longrightarrow> defined (bst_c_remove_current_element s)"
proof -
  from assms have t: "tree_inv s" by (simp add: bst_inv_def)
  show "defined (bst_c_add s d r differ)"
    using bst_add_ok [OF t, of d r] by (auto simp: bst_c_add_def)
  show "defined (bst_c_destroy s d)"
    using bst_destroy_ok [OF t, of d] avl.index_None [OF assms, of d] by (auto simp: bst_c_destroy_def)
  show "defined (bst_c_remove s d differ)"
    using bst_remove_ok [OF t, of d] avl.index_None [OF assms, of d] by (auto simp: bst_c_remove_def)
  show "defined (bst_c_remove_any s differ)"
    using bst_remove_any_ok [OF t] bst_empty_iff [OF assms] by (auto simp: bst_c_remove_any_def)
  show "defined (bst_c_remove_last_in_order s)"
    using bst_remove_last_ok [OF t] bst_empty_iff [OF assms]
    by (auto simp: bst_c_remove_last_in_order_def)
  show "defined (bst_c_element s)"
    using bst_element_ok [OF assms] by (auto simp: bst_c_element_def)
  show "defined (bst_c_remove_current_element s)" if "bst_capacity s"
    using bst_remove_current_ok [OF assms that]
    by (auto simp: bst_c_remove_current_element_def split: prod.splits)
qed

section \<open>The checked hash table\<close>

definition ht_c_init :: "nat \<Rightarrow> ('d, 'r) hash_table outcome" where
  "ht_c_init expnum = dlib_cassert (expnum < 32) (run_unchecked (Some (hash_table_kernel_1 expnum)))"

definition ht_c_remove ::
  "('d::linorder \<Rightarrow> 64 word) \<Rightarrow> ('d, 'r) hash_table \<Rightarrow> 'd \<Rightarrow> bool \<Rightarrow> (('d, 'r) hash_table \<times> 'd \<times> 'r) outcome" where
  "ht_c_remove hash s d differ =
     dlib_cassert (ht_index hash s d \<noteq> None \<and> differ) (run_unchecked (ht_remove hash s d))"

definition ht_c_add ::
  "('d::linorder \<Rightarrow> 64 word) \<Rightarrow> ('d, 'r) hash_table \<Rightarrow> 'd \<Rightarrow> 'r \<Rightarrow> bool \<Rightarrow> ('d, 'r) hash_table outcome" where
  "ht_c_add hash s d r differ = dlib_cassert differ (run_unchecked (ht_add hash s d r))"

definition ht_c_destroy ::
  "('d::linorder \<Rightarrow> 64 word) \<Rightarrow> ('d, 'r) hash_table \<Rightarrow> 'd \<Rightarrow> ('d, 'r) hash_table outcome" where
  "ht_c_destroy hash s d =
     dlib_cassert (ht_index hash s d \<noteq> None) (run_unchecked (ht_destroy hash s d))"

definition ht_c_remove_any ::
  "('d, 'r) hash_table \<Rightarrow> bool \<Rightarrow> (('d, 'r) hash_table \<times> 'd \<times> 'r) outcome" where
  "ht_c_remove_any s differ =
     dlib_cassert (hash_size s \<noteq> 0 \<and> differ) (run_unchecked (ht_remove_any s))"

definition ht_c_element :: "('d, 'r) hash_table \<Rightarrow> ('d \<times> 'r) outcome" where
  "ht_c_element s =
     dlib_cassert (ht_current_element_valid s = True) (run_unchecked (ht_element s))"

lemma ht_c_defined:
  assumes "ht_inv hash s"
  shows "defined (ht_c_init expnum)" "defined (ht_c_add hash s d r differ)"
    "defined (ht_c_remove hash s d differ)" "defined (ht_c_destroy hash s d)"
    "defined (ht_c_remove_any s differ)" "defined (ht_c_element s)"
proof -
  show "defined (ht_c_init expnum)" by (simp add: ht_c_init_def)
  show "defined (ht_c_add hash s d r differ)"
    using ht_add_ok [OF assms, of d r] by (auto simp: ht_c_add_def)
  show "defined (ht_c_remove hash s d differ)"
    using ht_remove_ok [OF assms, of d] ht.index_None [OF assms, of d] by (auto simp: ht_c_remove_def)
  show "defined (ht_c_destroy hash s d)"
    using ht_remove_ok [OF assms, of d] ht.index_None [OF assms, of d]
    by (auto simp: ht_c_destroy_def ht_destroy_eq)
  show "defined (ht_c_remove_any s differ)"
    using ht_remove_any_ok [OF assms] ht.size_spec [OF assms] by (auto simp: ht_c_remove_any_def)
  show "defined (ht_c_element s)"
    using ht.element_spec [OF assms] by (auto simp: ht_c_element_def)
qed

lemma ht_c_init_returns:
  "ht_c_init expnum = Returns s \<Longrightarrow> ht_inv hash s \<and> ht_contents s = {#}"
  by (auto simp: ht_c_init_def ht_inv_init)

section \<open>Property\<close>

text \<open>
  C7. No call of a method of the checked tree \<open>binary_search_tree_kernel_c\<close> with fewer than \<open>2 ^ 36\<close> pairs has undefined
  behaviour, whatever its arguments.
  Each of the seven methods that the class guards throws \<open>EBROKEN_ASSERT\<close> exactly when its requires clause fails, before the
  tree is touched. Of the methods it inherits, \<open>clear\<close> and \<open>move_next\<close> are defined, and \<open>position_enumerator\<close> for fewer than
  \<open>2 ^ 35\<close> pairs; the others (\<open>count\<close>, \<open>operator[]\<close>, \<open>size\<close>, \<open>reset\<close>, ...) are total functions of the model.
\<close>

theorem bst_c_never_undefined:
  assumes "bst_inv s" "bst_capacity s"
  shows "defined (bst_c_add s d r differ) \<and> (bst_c_add s d r differ = Throws EBROKEN_ASSERT \<longleftrightarrow> \<not> differ) \<and>
    defined (bst_c_destroy s d) \<and> (bst_c_destroy s d = Throws EBROKEN_ASSERT \<longleftrightarrow> d \<notin> keys_of (bst_contents s)) \<and>
    defined (bst_c_remove s d differ) \<and>
      (bst_c_remove s d differ = Throws EBROKEN_ASSERT \<longleftrightarrow> d \<notin> keys_of (bst_contents s) \<or> \<not> differ) \<and>
    defined (bst_c_remove_any s differ) \<and>
      (bst_c_remove_any s differ = Throws EBROKEN_ASSERT \<longleftrightarrow> bst_contents s = {#} \<or> \<not> differ) \<and>
    defined (bst_c_remove_last_in_order s) \<and>
      (bst_c_remove_last_in_order s = Throws EBROKEN_ASSERT \<longleftrightarrow> bst_contents s = {#}) \<and>
    defined (bst_c_element s) \<and> (bst_c_element s = Throws EBROKEN_ASSERT \<longleftrightarrow> \<not> bst_current_element_valid s) \<and>
    defined (bst_c_remove_current_element s) \<and>
      (bst_c_remove_current_element s = Throws EBROKEN_ASSERT \<longleftrightarrow> \<not> bst_current_element_valid s) \<and>
    bst_clear s \<noteq> None \<and> bst_move_next s \<noteq> None \<and>
    (tree_size s < 2 ^ 35 \<longrightarrow> bst_position_enumerator s d \<noteq> None)"
proof -
  note thrown = bst_c_add_def bst_c_destroy_def bst_c_remove_def bst_c_remove_any_def bst_c_remove_last_in_order_def
    bst_c_element_def bst_c_remove_current_element_def
  have index: "bst_index s d = None \<longleftrightarrow> d \<notin> keys_of (bst_contents s)" using avl.index_None [OF assms(1), of d] by simp
  note empty = bst_empty_iff [OF assms(1)]
  have clear: "bst_clear s \<noteq> None" using bst_clear_ok assms(1) by (auto simp: bst_inv_def)
  have step: "bst_move_next s \<noteq> None" using avl.move_next_spec [OF assms] by (auto simp: bst_ops_def)
  have position: "tree_size s < 2 ^ 35 \<longrightarrow> bst_position_enumerator s d \<noteq> None"
    using bst_position_ok [OF assms(1)] by blast
  have throws: "bst_c_add s d r differ = Throws EBROKEN_ASSERT \<longleftrightarrow> \<not> differ"
    "bst_c_destroy s d = Throws EBROKEN_ASSERT \<longleftrightarrow> d \<notin> keys_of (bst_contents s)"
    "bst_c_remove s d differ = Throws EBROKEN_ASSERT \<longleftrightarrow> d \<notin> keys_of (bst_contents s) \<or> \<not> differ"
    "bst_c_remove_any s differ = Throws EBROKEN_ASSERT \<longleftrightarrow> bst_contents s = {#} \<or> \<not> differ"
    "bst_c_remove_last_in_order s = Throws EBROKEN_ASSERT \<longleftrightarrow> bst_contents s = {#}"
    "bst_c_element s = Throws EBROKEN_ASSERT \<longleftrightarrow> \<not> bst_current_element_valid s"
    "bst_c_remove_current_element s = Throws EBROKEN_ASSERT \<longleftrightarrow> \<not> bst_current_element_valid s"
    by (simp_all add: thrown empty flip: index)
  show ?thesis
    by (intro conjI throws clear step position bst_c_defined [OF assms(1)] assms(2))
qed

theorem bst_c_never_undefined_witness:
  "bst_c_remove sample_tree 6 True = Throws EBROKEN_ASSERT \<and> bst_c_remove sample_tree 4 True \<noteq> Throws EBROKEN_ASSERT \<and>
   defined (bst_c_remove sample_tree 4 True)"
  using bst_c_never_undefined [OF sample_tree_inv, of 6 _ True] bst_c_never_undefined [OF sample_tree_inv, of 4 _ True]
  by (simp add: sample_contents)

end
