(* ===== verification/Stream_Io.thy ===== *)
theory Stream_Io
  imports Prelude
begin

text \<open>
  Streams and exceptions, as \<open>serialize.h\<close> uses them: an output stream over a buffer with room for
  a number of bytes, an input stream over the bytes that are left, and computations that return a
  value, throw a \<open>serialization_error\<close>, or have no defined behaviour. The laws a pair of functions
  \<open>serialize\<close> and \<open>deserialize\<close> of a type obeys are the locales \<open>serializer\<close> and \<open>checked_serializer\<close>.
\<close>

section \<open>Computations\<close>

text \<open>A \<open>serialization_error\<close> carries its message \<open>info\<close>; the state after a throw is kept.\<close>

datatype ('a, 's) io = Returned 'a 's | Thrown string 's | Undef

fun bind_io :: "('s \<Rightarrow> ('a, 's) io) \<Rightarrow> ('a \<Rightarrow> 's \<Rightarrow> ('b, 's) io) \<Rightarrow> 's \<Rightarrow> ('b, 's) io" where
  "bind_io m f s = (case m s of Returned x s \<Rightarrow> f x s | Thrown e s \<Rightarrow> Thrown e s | Undef \<Rightarrow> Undef)"

declare bind_io.simps [simp del]

definition throw :: "string \<Rightarrow> 's \<Rightarrow> ('a, 's) io" where
  "throw e s = Thrown e s"

text \<open>\<open>try { m } catch (serialization_error& e) { throw serialization_error(e.info + what); }\<close>\<close>

definition rethrow :: "string \<Rightarrow> ('s \<Rightarrow> ('a, 's) io) \<Rightarrow> 's \<Rightarrow> ('a, 's) io" where
  "rethrow what m s =
     (case m s of Returned x s \<Rightarrow> Returned x s
      | Thrown e s \<Rightarrow> Thrown (e @ CHR 0x0A # ''   while '' @ what) s
      | Undef \<Rightarrow> Undef)"

definition throws :: "('a, 's) io \<Rightarrow> bool" where
  "throws r \<longleftrightarrow> (\<exists>e s. r = Thrown e s)"

lemma bind_io_simps [simp]:
  "m s = Returned x s' \<Longrightarrow> bind_io m f s = f x s'"
  "m s = Thrown e s' \<Longrightarrow> bind_io m f s = Thrown e s'"
  "m s = Undef \<Longrightarrow> bind_io m f s = Undef"
  by (simp_all add: bind_io.simps)

lemma bind_io_Returned: "bind_io (Returned x) f = f x"
  by (rule ext) simp

lemma rethrow_Returned [simp]: "rethrow what m s = Returned x s' \<longleftrightarrow> m s = Returned x s'"
  by (auto simp: rethrow_def split: io.split)

lemma rethrow_Undef [simp]: "rethrow what m s = Undef \<longleftrightarrow> m s = Undef"
  by (auto simp: rethrow_def split: io.split)

lemma throws_rethrow [simp]: "throws (rethrow what m s) \<longleftrightarrow> throws (m s)"
  by (auto simp: throws_def rethrow_def split: io.split)

lemma throws_simps [simp]:
  "throws (Thrown e s)" "\<not> throws (Returned x s)" "\<not> throws Undef" "throws (throw e s)"
  by (auto simp: throws_def throw_def)

lemma throws_bind [intro]: "throws (m s) \<Longrightarrow> throws (bind_io m f s)"
  by (auto simp: throws_def)

lemma throws_bind_Returned: "m s = Returned x s' \<Longrightarrow> throws (f x s') \<Longrightarrow> throws (bind_io m f s)"
  by simp

section \<open>Streams\<close>

text \<open>
  \<open>room\<close> is the number of bytes the stream buffer still accepts; \<open>out_bad\<close> and \<open>in_bad\<close> tell
  whether one of \<open>failbit\<close> and \<open>badbit\<close> is set. \<open>sputn\<close>, \<open>sbumpc\<close> and \<open>sgetn\<close> are the
  functions of the stream buffer, which do not look at the bits; \<open>write\<close>, \<open>get\<close> and \<open>read\<close> are
  those of the stream.
\<close>

record ostream =
  sink :: "byte list"
  room :: nat
  out_bad :: bool

record istream =
  source :: "byte list"
  in_bad :: bool

definition sputn :: "byte list \<Rightarrow> ostream \<Rightarrow> ostream \<times> nat" where
  "sputn bs out =
     (let n = min (length bs) (room out)
      in (out\<lparr>sink := sink out @ take n bs, room := room out - n\<rparr>, n))"

definition ostream_write :: "byte list \<Rightarrow> ostream \<Rightarrow> ostream" where
  "ostream_write bs out =
     (if out_bad out then out
      else let (out, n) = sputn bs out
           in if n \<noteq> length bs then out\<lparr>out_bad := True\<rparr> else out)"

definition sbumpc :: "istream \<Rightarrow> istream \<times> byte option" where
  "sbumpc i = (case source i of [] \<Rightarrow> (i, None) | b # bs \<Rightarrow> (i\<lparr>source := bs\<rparr>, Some b))"

definition sgetn :: "nat \<Rightarrow> istream \<Rightarrow> istream \<times> byte list" where
  "sgetn n i = (i\<lparr>source := drop n (source i)\<rparr>, take n (source i))"

definition istream_get :: "istream \<Rightarrow> istream \<times> byte option" where
  "istream_get i =
     (if in_bad i then (i, None)
      else case sbumpc i of (i, None) \<Rightarrow> (i\<lparr>in_bad := True\<rparr>, None) | (i, Some b) \<Rightarrow> (i, Some b))"

definition istream_read :: "nat \<Rightarrow> istream \<Rightarrow> istream \<times> byte list" where
  "istream_read n i =
     (if in_bad i then (i, [])
      else let (i, bs) = sgetn n i
           in if length bs \<noteq> n then (i\<lparr>in_bad := True\<rparr>, bs) else (i, bs))"

text \<open>What has been written, and what is left to read.\<close>

definition put_bytes :: "byte list \<Rightarrow> ostream \<Rightarrow> ostream" where
  "put_bytes bs out = out\<lparr>sink := sink out @ bs, room := room out - length bs\<rparr>"

abbreviation holding :: "byte list \<Rightarrow> istream" where
  "holding bs \<equiv> \<lparr>source = bs, in_bad = False\<rparr>"

lemma put_bytes_simps [simp]:
  "put_bytes [] out = out" "room (put_bytes bs out) = room out - length bs"
  "out_bad (put_bytes bs out) = out_bad out" "sink (put_bytes bs out) = sink out @ bs"
  "put_bytes cs (put_bytes bs out) = put_bytes (bs @ cs) out"
  by (simp_all add: put_bytes_def)

lemma sputn_fits: "length bs \<le> room out \<Longrightarrow> sputn bs out = (put_bytes bs out, length bs)"
  by (simp add: sputn_def put_bytes_def Let_def)

lemma sputn_full: "room out < length bs \<Longrightarrow> snd (sputn bs out) \<noteq> length bs"
  by (simp add: sputn_def Let_def)

lemma ostream_write_fits:
  "\<not> out_bad out \<Longrightarrow> length bs \<le> room out \<Longrightarrow> ostream_write bs out = put_bytes bs out"
  by (simp add: ostream_write_def sputn_fits)

lemma ostream_write_bad [simp]:
  "out_bad (ostream_write bs out) \<longleftrightarrow> out_bad out \<or> room out < length bs"
  by (auto simp: ostream_write_def sputn_def Let_def split: prod.splits)

lemma sgetn_holding [simp]: "sgetn (length bs) (holding (bs @ rest)) = (holding rest, bs)"
  by (simp add: sgetn_def)

lemma istream_read_holding [simp]:
  "istream_read (length bs) (holding (bs @ rest)) = (holding rest, bs)"
  by (simp add: istream_read_def)

text \<open>Decimal digits, as \<open>operator<<\<close> and \<open>std::to_string\<close> print an unsigned number.\<close>

fun decimal :: "nat \<Rightarrow> string" where
  "decimal n = (if n < 10 then [] else decimal (n div 10)) @ [char_of (48 + n mod 10)]"

declare decimal.simps [simp del]

section \<open>The contract of a serializable type\<close>

text \<open>
  \<open>code x\<close> is what \<open>ser\<close> writes for a value \<open>x\<close> that satisfies \<open>valid\<close>; \<open>des\<close> reads it back and leaves
  the bytes behind it. A checked serializer also reports that the stream did not take all bytes, and that
  the stream ended inside of a value.
\<close>

locale serializer =
  fixes ser :: "'a \<Rightarrow> ostream \<Rightarrow> (unit, ostream) io"
    and des :: "istream \<Rightarrow> ('a, istream) io"
    and code :: "'a \<Rightarrow> byte list"
    and valid :: "'a \<Rightarrow> bool"
  assumes ser_writes: "valid x \<Longrightarrow> \<not> out_bad out \<Longrightarrow> length (code x) \<le> room out \<Longrightarrow>
      ser x out = Returned () (put_bytes (code x) out)"
    and des_reads: "valid x \<Longrightarrow> des (holding (code x @ rest)) = Returned x (holding rest)"
begin

lemma round_trip:
  assumes "valid x" "length (code x) \<le> n"
  shows "\<exists>out. ser x \<lparr>sink = [], room = n, out_bad = False\<rparr> = Returned () out \<and>
    des (holding (sink out @ rest)) = Returned x (holding rest)"
  using ser_writes [OF assms(1), of "\<lparr>sink = [], room = n, out_bad = False\<rparr>"] des_reads assms by simp

lemma code_inject:
  assumes "valid x" "valid y" "code x @ r = code y @ r'"
  shows "x = y \<and> r = r'"
proof -
  have "Returned x (holding r) = des (holding (code x @ r))" using des_reads [OF assms(1)] by (rule sym)
  also have "\<dots> = des (holding (code y @ r'))" by (simp only: assms(3))
  also have "\<dots> = Returned y (holding r')" using assms(2) by (rule des_reads)
  finally show ?thesis by simp
qed

end

locale checked_serializer = serializer ser des code valid
  for ser :: "'a \<Rightarrow> ostream \<Rightarrow> (unit, ostream) io"
    and des :: "istream \<Rightarrow> ('a, istream) io"
    and code :: "'a \<Rightarrow> byte list"
    and valid :: "'a \<Rightarrow> bool" +
  assumes ser_full: "valid x \<Longrightarrow> \<not> out_bad out \<Longrightarrow> room out < length (code x) \<Longrightarrow> throws (ser x out)"
    and des_truncated: "valid x \<Longrightarrow> code x = bs @ bs' \<Longrightarrow> bs' \<noteq> [] \<Longrightarrow> throws (des (holding bs))"


section \<open>Composing readers and writers\<close>

text \<open>
  \<open>writes m c\<close>: \<open>m\<close> writes the bytes \<open>c\<close>, or throws if the stream has no room for them.
  \<open>reads m c x\<close>: \<open>m\<close> reads \<open>x\<close> from the bytes \<open>c\<close>, or throws if the stream ends inside of them.
\<close>

definition writes :: "(ostream \<Rightarrow> (unit, ostream) io) \<Rightarrow> byte list \<Rightarrow> bool" where
  "writes m c \<longleftrightarrow> (\<forall>out. \<not> out_bad out \<longrightarrow>
     (if length c \<le> room out then m out = Returned () (put_bytes c out) else throws (m out)))"

definition reads :: "(istream \<Rightarrow> ('a, istream) io) \<Rightarrow> byte list \<Rightarrow> 'a \<Rightarrow> bool" where
  "reads m c x \<longleftrightarrow> (\<forall>rest. m (holding (c @ rest)) = Returned x (holding rest)) \<and>
     (\<forall>bs us. c = bs @ us \<longrightarrow> us \<noteq> [] \<longrightarrow> throws (m (holding bs)))"

lemma writesD:
  "writes m c \<Longrightarrow> \<not> out_bad out \<Longrightarrow> length c \<le> room out \<Longrightarrow> m out = Returned () (put_bytes c out)"
  "writes m c \<Longrightarrow> \<not> out_bad out \<Longrightarrow> room out < length c \<Longrightarrow> throws (m out)"
  by (simp_all add: writes_def)

lemma readsD:
  "reads m c x \<Longrightarrow> m (holding (c @ rest)) = Returned x (holding rest)"
  "reads m c x \<Longrightarrow> c = bs @ us \<Longrightarrow> us \<noteq> [] \<Longrightarrow> throws (m (holding bs))"
  by (auto simp: reads_def)

lemma writes_Returned [intro]: "writes (Returned ()) []"
  by (simp add: writes_def)

lemma reads_Returned [intro]: "reads (Returned x) [] x"
  by (simp add: reads_def)

lemma writes_bind [intro]:
  assumes "writes m c" "writes (f ()) d"
  shows "writes (bind_io m f) (c @ d)"
  unfolding writes_def
proof (intro allI impI)
  fix out :: ostream assume ok: "\<not> out_bad out"
  show "if length (c @ d) \<le> room out then bind_io m f out = Returned () (put_bytes (c @ d) out)
    else throws (bind_io m f out)"
  proof (cases "length c \<le> room out")
    case True
    with writesD(1) [OF assms(1) ok] have m: "m out = Returned () (put_bytes c out)" by simp
    have ok': "\<not> out_bad (put_bytes c out)" using ok by simp
    show ?thesis
      using writesD(1) [OF assms(2) ok'] writesD(2) [OF assms(2) ok'] m True by auto
  next
    case False
    with writesD(2) [OF assms(1) ok] show ?thesis by auto
  qed
qed

lemma reads_bind [intro]:
  assumes m: "reads m c x" and f: "reads (f x) d y"
  shows "reads (bind_io m f) (c @ d) y"
  unfolding reads_def
proof (intro conjI allI impI)
  fix rest bs us :: "byte list"
  show "bind_io m f (holding ((c @ d) @ rest)) = Returned y (holding rest)"
    using readsD(1) [OF m, of "d @ rest"] readsD(1) [OF f, of rest] by simp
  assume "c @ d = bs @ us" "us \<noteq> []"
  then obtain vs where "c = bs @ vs \<and> vs @ d = us \<or> c @ vs = bs \<and> d = vs @ us"
    unfolding append_eq_append_conv2 by blast
  then consider ds where "bs = c @ ds" "d = ds @ us" | vs where "c = bs @ vs" "vs \<noteq> []"
    by (cases "vs = []") auto
  then show "throws (bind_io m f (holding bs))"
  proof cases
    case 1
    with readsD(1) [OF m, of ds] readsD(2) [OF f, of ds us] \<open>us \<noteq> []\<close> show ?thesis by simp
  next
    case 2
    with readsD(2) [OF m, of bs vs] show ?thesis by blast
  qed
qed

lemma writes_rethrow [intro]: "writes m c \<Longrightarrow> writes (rethrow what m) c"
  by (simp add: writes_def)

lemma reads_rethrow [intro]: "reads m c x \<Longrightarrow> reads (rethrow what m) c x"
  by (simp add: reads_def)

lemma reads_map: "reads m c x \<Longrightarrow> f x = Returned y \<Longrightarrow> reads (bind_io m f) c y"
  using reads_bind [of m c x f "[]" y] by (simp add: reads_Returned)

lemma checked_serializerI:
  assumes "\<And>x. valid x \<Longrightarrow> writes (ser x) (code x)" "\<And>x. valid x \<Longrightarrow> reads des (code x) x"
  shows "checked_serializer ser des code valid"
  using assms by unfold_locales (auto simp: writes_def reads_def)

context checked_serializer begin

lemma writes_ser: "valid x \<Longrightarrow> writes (ser x) (code x)"
  using ser_writes ser_full by (simp add: writes_def)

lemma reads_des: "valid x \<Longrightarrow> reads des (code x) x"
  using des_reads des_truncated by (auto simp: reads_def)

end

text \<open>
  The same for a computation on the stream buffer that has a result: it does not look at the bits of the stream.
\<close>

definition emits :: "(ostream \<Rightarrow> ('a, ostream) io) \<Rightarrow> byte list \<Rightarrow> 'a \<Rightarrow> bool" where
  "emits m c x \<longleftrightarrow> (\<forall>out.
     if length c \<le> room out then m out = Returned x (put_bytes c out) else throws (m out))"

lemma emits_Returned: "emits (Returned x) [] x"
  by (simp add: emits_def)

lemma emitsD:
  "emits m c x \<Longrightarrow> length c \<le> room out \<Longrightarrow> m out = Returned x (put_bytes c out)"
  "emits m c x \<Longrightarrow> room out < length c \<Longrightarrow> throws (m out)"
  by (simp_all add: emits_def)

lemma emits_bind:
  assumes "emits m c x" "emits (f x) d y"
  shows "emits (bind_io m f) (c @ d) y"
  unfolding emits_def
proof
  fix out :: ostream
  show "if length (c @ d) \<le> room out then bind_io m f out = Returned y (put_bytes (c @ d) out)
    else throws (bind_io m f out)"
  proof (cases "length c \<le> room out")
    case True
    from emitsD(1) [OF assms(1) True] emitsD [OF assms(2), of "put_bytes c out"] True show ?thesis by auto
  next
    case False
    with emitsD(2) [OF assms(1)] show ?thesis by auto
  qed
qed

lemma emits_unique: "emits m c x \<Longrightarrow> emits m c y \<Longrightarrow> x = y"
  using emitsD(1) [of m c x "\<lparr>sink = [], room = length c, out_bad = False\<rparr>"]
    emitsD(1) [of m c y "\<lparr>sink = [], room = length c, out_bad = False\<rparr>"] by simp

section \<open>Computations on an object and a stream\<close>

definition on_stream :: "('i \<Rightarrow> ('a, 'i) io) \<Rightarrow> 's \<times> 'i \<Rightarrow> ('a, 's \<times> 'i) io" where
  "on_stream m w =
     (case m (snd w) of Returned x i \<Rightarrow> Returned x (fst w, i) | Thrown e i \<Rightarrow> Thrown e (fst w, i) | Undef \<Rightarrow> Undef)"

text \<open>A call on the object that may have no defined behaviour.\<close>

definition on_item :: "('s \<Rightarrow> 's option) \<Rightarrow> 's \<times> 'i \<Rightarrow> (unit, 's \<times> 'i) io" where
  "on_item f w = (case f (fst w) of None \<Rightarrow> Undef | Some s \<Rightarrow> Returned () (s, snd w))"

lemma on_stream_simps [simp]:
  "m i = Returned x i' \<Longrightarrow> on_stream m (s, i) = Returned x (s, i')"
  "m i = Thrown e i' \<Longrightarrow> on_stream m (s, i) = Thrown e (s, i')"
  "throws (on_stream m (s, i)) \<longleftrightarrow> throws (m i)"
  by (auto simp: on_stream_def throws_def split: io.splits)

lemma on_item_simps [simp]: "f s = Some s' \<Longrightarrow> on_item f (s, i) = Returned () (s', i)"
  by (simp add: on_item_def)

end
