(* ===== verification/Serialize_Int.thy ===== *)
theory Serialize_Int
  imports Stream_Io
begin

unbundle bit_operations_syntax

text \<open>
  The integers and bytes of \<open>serialize.h\<close>: \<open>ser_helper::pack_int\<close> and \<open>unpack_int\<close> for signed and
  unsigned types, \<open>pack_byte\<close> and \<open>unpack_byte\<close>, the functions the macros
  \<open>USE_DEFAULT_INT_SERIALIZATION_FOR\<close> and \<open>USE_DEFAULT_BYTE_SERIALIZATION_FOR\<close> define, and \<open>bool\<close>.
  An integral type is a word type \<open>'a word\<close>; \<open>int\<close> has 32 bits.
\<close>

section \<open>Packing\<close>

definition sizeof :: "'a::len itself \<Rightarrow> nat" where
  "sizeof t = LENGTH('a) div 8"

text \<open>
  \<open>item *= -1\<close> is computed in \<open>int\<close> if the type is narrower; otherwise it overflows for the least
  value of the type.
\<close>

definition times_minus_1 :: "'a::len word \<Rightarrow> 'a word option" where
  "times_minus_1 item =
     (if 32 \<le> LENGTH('a) \<and> sint item = - (2 ^ (LENGTH('a) - 1)) then None else Some (- item))"

text \<open>
  The loop \<open>for (i = 1; i <= sizeof(T); ++i)\<close>: the bytes it stores at \<open>buf[1]\<close> and after, up to
  \<open>buf[size]\<close>. \<open>shift\<close> is \<open>item >> 8\<close>, which keeps the sign of a signed type.
\<close>

fun pack_bytes :: "('a::len word \<Rightarrow> 'a word) \<Rightarrow> nat \<Rightarrow> 'a word \<Rightarrow> byte list" where
  "pack_bytes shift 0 item = []"
| "pack_bytes shift (Suc n) item =
     ucast (item AND 0xFF) #
       (let item = shift item in if item = 0 then [] else pack_bytes shift n item)"

definition put_packed :: "byte \<Rightarrow> byte list \<Rightarrow> ostream \<Rightarrow> (bool, ostream) io" where
  "put_packed neg bs out =
     (let sz = of_nat (length bs);
          (out, n) = sputn ((sz OR neg) # bs) out
      in if n \<noteq> length bs + 1 then Returned True (out\<lparr>out_bad := True\<rparr>) else Returned False out)"

definition pack_int_signed :: "'a::len word \<Rightarrow> ostream \<Rightarrow> (bool, ostream) io" where
  "pack_int_signed item out =
     (if sint item < 0
      then case times_minus_1 item of
             None \<Rightarrow> Undef
           | Some item \<Rightarrow> put_packed 0x80 (pack_bytes (signed_drop_bit 8) (sizeof TYPE('a)) item) out
      else put_packed 0 (pack_bytes (signed_drop_bit 8) (sizeof TYPE('a)) item) out)"

definition pack_int :: "'a::len word \<Rightarrow> ostream \<Rightarrow> (bool, ostream) io" where
  "pack_int item out = put_packed 0 (pack_bytes (drop_bit 8) (sizeof TYPE('a)) item) out"

section \<open>Unpacking\<close>

text \<open>
  The loop \<open>for (unsigned char i = size-1; true; --i)\<close>. The bytes of \<open>buf\<close> at \<open>size\<close> and after
  were not read: an access there is not defined.
\<close>

fun unpack_loop :: "byte list \<Rightarrow> nat \<Rightarrow> 'a::len word \<Rightarrow> 'a word option" where
  "unpack_loop buf i item =
     (if i < length buf
      then let item = push_bit 8 item OR ucast (buf ! i)
           in case i of 0 \<Rightarrow> Some item | Suc i \<Rightarrow> unpack_loop buf i item
      else None)"

declare unpack_loop.simps [simp del]

text \<open>Both overloads return \<open>true\<close> on an error; \<open>None\<close> is that result here.\<close>

definition get_packed :: "nat \<Rightarrow> istream \<Rightarrow> ('a::len word option, istream) io" where
  "get_packed sz i =
     (if sz > sizeof TYPE('a) then Returned None i
      else let (i, buf) = sgetn sz i
           in if length buf \<noteq> sz then Returned None (i\<lparr>in_bad := True\<rparr>)
              else case unpack_loop buf (unat (of_nat sz - 1 :: byte)) 0 of
                     None \<Rightarrow> Undef
                   | Some item \<Rightarrow> Returned (Some item) i)"

definition unpack_int_signed :: "istream \<Rightarrow> ('a::len word option, istream) io" where
  "unpack_int_signed i =
     (case sbumpc i of
        (i, None) \<Rightarrow> Returned None (i\<lparr>in_bad := True\<rparr>)
      | (i, Some sz) \<Rightarrow>
          bind_io (get_packed (unat (sz AND 0x0F))) (\<lambda>r i.
            case r of
              None \<Rightarrow> Returned None i
            | Some item \<Rightarrow>
                if sz AND 0x80 \<noteq> 0
                then case times_minus_1 item of None \<Rightarrow> Undef | Some item \<Rightarrow> Returned (Some item) i
                else Returned (Some item) i) i)"

definition unpack_int :: "istream \<Rightarrow> ('a::len word option, istream) io" where
  "unpack_int i =
     (case sbumpc i of
        (i, None) \<Rightarrow> Returned None (i\<lparr>in_bad := True\<rparr>)
      | (i, Some sz) \<Rightarrow> get_packed (unat (sz AND 0x8F)) i)"

section \<open>The functions of the macros\<close>

definition ser_error :: "string \<Rightarrow> string" where
  "ser_error t = ''Error serializing object of type '' @ t"

definition des_error :: "string \<Rightarrow> string" where
  "des_error t = ''Error deserializing object of type '' @ t"

definition or_throw :: "string \<Rightarrow> ('s \<Rightarrow> (bool, 's) io) \<Rightarrow> 's \<Rightarrow> (unit, 's) io" where
  "or_throw e m = bind_io m (\<lambda>failed. if failed then throw e else Returned ())"

definition some_or_throw :: "string \<Rightarrow> ('s \<Rightarrow> ('a option, 's) io) \<Rightarrow> 's \<Rightarrow> ('a, 's) io" where
  "some_or_throw e m = bind_io m (\<lambda>r. case r of None \<Rightarrow> throw e | Some x \<Rightarrow> Returned x)"

definition serialize_signed :: "string \<Rightarrow> 'a::len word \<Rightarrow> ostream \<Rightarrow> (unit, ostream) io" where
  "serialize_signed t item = or_throw (ser_error t) (pack_int_signed item)"

definition deserialize_signed :: "string \<Rightarrow> istream \<Rightarrow> ('a::len word, istream) io" where
  "deserialize_signed t = some_or_throw (des_error t) unpack_int_signed"

definition serialize_unsigned :: "string \<Rightarrow> 'a::len word \<Rightarrow> ostream \<Rightarrow> (unit, ostream) io" where
  "serialize_unsigned t item = or_throw (ser_error t) (pack_int item)"

definition deserialize_unsigned :: "string \<Rightarrow> istream \<Rightarrow> ('a::len word, istream) io" where
  "deserialize_unsigned t = some_or_throw (des_error t) unpack_int"

definition pack_byte :: "byte \<Rightarrow> ostream \<Rightarrow> (bool, ostream) io" where
  "pack_byte ch out = (let (out, n) = sputn [ch] out in Returned (n \<noteq> 1) out)"

definition unpack_byte :: "istream \<Rightarrow> (byte option, istream) io" where
  "unpack_byte i = (case sbumpc i of (i, temp) \<Rightarrow> Returned temp i)"

definition serialize_byte :: "string \<Rightarrow> byte \<Rightarrow> ostream \<Rightarrow> (unit, ostream) io" where
  "serialize_byte t item = or_throw (ser_error t) (pack_byte item)"

definition deserialize_byte :: "string \<Rightarrow> istream \<Rightarrow> (byte, istream) io" where
  "deserialize_byte t = some_or_throw (des_error t) unpack_byte"

text \<open>\<open>'1'\<close> is 49, \<open>'0'\<close> is 48.\<close>

definition serialize_bool :: "bool \<Rightarrow> ostream \<Rightarrow> (unit, ostream) io" where
  "serialize_bool item out =
     (let out = ostream_write [if item then 49 else 48] out
      in if out_bad out then Thrown (ser_error ''bool'') out else Returned () out)"

definition deserialize_bool :: "istream \<Rightarrow> (bool, istream) io" where
  "deserialize_bool i =
     (case istream_get i of
        (i, Some ch) \<Rightarrow>
          if ch = 49 then Returned True i
          else if ch = 48 then Returned False i
          else Thrown (des_error ''bool'') i
      | (i, None) \<Rightarrow> Thrown (des_error ''bool'') i)"

section \<open>The value of a packed integer\<close>

fun le_value :: "byte list \<Rightarrow> nat" where
  "le_value [] = 0"
| "le_value (b # bs) = unat b + 256 * le_value bs"

lemma le_value_append: "le_value (xs @ ys) = le_value xs + 256 ^ length xs * le_value ys"
  by (induction xs) (simp_all add: algebra_simps)

lemma length_pack_bytes: "n > 0 \<Longrightarrow> 0 < length (pack_bytes shift n x) \<and> length (pack_bytes shift n x) \<le> n"
proof (induction n arbitrary: x)
  case (Suc n)
  then show ?case by (cases n) (auto simp: Let_def)
qed simp

lemma le_value_pack_bytes:
  fixes x :: "'a::len word"
  assumes shift: "\<And>m y. 8 * m + 8 \<le> LENGTH('a) \<Longrightarrow> take_bit (8 * m) (shift y) = take_bit (8 * m) (drop_bit 8 y)"
    and "8 * n \<le> LENGTH('a)"
  shows "le_value (pack_bytes shift n x) = unat (take_bit (8 * n) x)"
  using assms(2)
proof (induction n arbitrary: x)
  case (Suc n)
  let ?y = "shift x"
  have le: "8 * n + 8 \<le> LENGTH('a)" using Suc.prems by simp
  have low: "unat (ucast (x AND 0xFF) :: byte) = unat x mod 256"
  proof -
    have "(0xFF :: 'a word) = mask 8" by (simp add: mask_eq_exp_minus_1)
    then have "x AND 0xFF = take_bit 8 x" by (simp add: take_bit_eq_mask)
    then have "unat (ucast (x AND 0xFF) :: byte) = take_bit 8 (unat x)"
      by (simp add: unsigned_ucast_eq unsigned_take_bit_eq)
    then show ?thesis by (simp add: take_bit_eq_mod [of 8 "unat x"])
  qed
  have "le_value (if ?y = 0 then [] else pack_bytes shift n ?y) = unat (take_bit (8 * n) ?y)"
    using Suc by simp
  also have "take_bit (8 * n) ?y = take_bit (8 * n) (drop_bit 8 x)" by (rule shift [OF le])
  also have "unat \<dots> = take_bit (8 * n) (drop_bit 8 (take_bit LENGTH('a) (unat x)))"
    by (simp add: unsigned_take_bit_eq unsigned_drop_bit_eq)
  also have "\<dots> = unat x div 256 mod 2 ^ (8 * n)"
    by (simp add: take_bit_nat_eq_self unsigned_less take_bit_eq_mod [of "8 * n"] drop_bit_eq_div)
  finally have rest: "le_value (if ?y = 0 then [] else pack_bytes shift n ?y) = unat x div 256 mod 2 ^ (8 * n)" .
  have "unat (take_bit (8 * Suc n) x) = take_bit (8 + 8 * n) (unat x)"
    by (simp add: unsigned_take_bit_eq)
  also have "\<dots> = unat x mod (256 * 2 ^ (8 * n))"
    by (simp add: take_bit_eq_mod power_add)
  also have "\<dots> = 256 * (unat x div 256 mod 2 ^ (8 * n)) + unat x mod 256"
    by (simp add: mod_mult2_eq)
  finally show ?case using low rest by (simp add: Let_def)
qed simp

lemma take_bit_signed_drop_bit:
  fixes y :: "'a::len word"
  assumes "8 * m + 8 \<le> LENGTH('a)"
  shows "take_bit (8 * m) (signed_drop_bit 8 y) = take_bit (8 * m) (drop_bit 8 y)"
proof (rule bit_word_eqI)
  fix k assume "k < LENGTH('a)"
  with assms show "bit (take_bit (8 * m) (signed_drop_bit 8 y)) k = bit (take_bit (8 * m) (drop_bit 8 y)) k"
    by (auto simp: bit_take_bit_iff bit_signed_drop_bit_iff bit_drop_bit_eq)
qed

lemma or_byte: "push_bit 8 (item :: 'a::len word) OR ucast (b :: byte) = item * 256 + of_nat (unat b)"
proof -
  have "push_bit 8 item OR ucast b = push_bit 8 item + ucast b"
    by (rule disjunctive_add [symmetric])
      (auto simp: bit_push_bit_iff bit_unsigned_iff dest: bit_imp_le_length)
  then show ?thesis by (simp add: push_bit_eq_mult mult.commute)
qed

lemma unpack_loop_value:
  "i < length buf \<Longrightarrow>
     unpack_loop buf i item = Some (item * 256 ^ (i + 1) + of_nat (le_value (take (i + 1) buf)))"
proof (induction i arbitrary: item)
  case 0
  then show ?case by (cases buf) (simp_all add: unpack_loop.simps or_byte)
next
  case (Suc i)
  then have "take (Suc i + 1) buf = take (i + 1) buf @ [buf ! Suc i]"
    by (simp add: take_Suc_conv_app_nth)
  then have "le_value (take (Suc i + 1) buf) = le_value (take (i + 1) buf) + 256 ^ (i + 1) * unat (buf ! Suc i)"
    using Suc.prems by (simp add: le_value_append)
  with Suc show ?case by (simp add: unpack_loop.simps or_byte algebra_simps)
qed

lemma get_packed_value:
  assumes "bs \<noteq> []" "length bs \<le> sizeof TYPE('a::len)" "sizeof TYPE('a) \<le> 8"
  shows "get_packed (length bs) (holding (bs @ rest)) =
    Returned (Some (of_nat (le_value bs) :: 'a word)) (holding rest)"
proof -
  obtain n where n: "length bs = Suc n" "n < 8"
    using assms by (cases bs) auto
  then have "unat (of_nat (length bs) - 1 :: byte) = n" by (simp add: unat_of_nat take_bit_eq_mod)
  moreover have "unpack_loop bs n (0 :: 'a word) = Some (of_nat (le_value bs))"
    using unpack_loop_value [of n bs 0] n by simp
  ultimately show ?thesis using assms(2) by (simp add: get_packed_def)
qed

lemma get_packed_truncated:
  assumes "length bs < n" "n \<le> sizeof TYPE('a::len)"
  shows "get_packed n (holding bs) = Returned (None :: 'a word option) \<lparr>source = [], in_bad = True\<rparr>"
  using assms by (simp add: get_packed_def sgetn_def)
section \<open>The contract of the integers\<close>

text \<open>The widths of the integral types the macros are used for.\<close>

definition int_width :: "'a::len itself \<Rightarrow> bool" where
  "int_width t \<longleftrightarrow> LENGTH('a) = 16 \<or> LENGTH('a) = 32 \<or> LENGTH('a) = 64"

definition packed :: "byte \<Rightarrow> byte list \<Rightarrow> byte list" where
  "packed neg bs = (of_nat (length bs) OR neg) # bs"

definition code_unsigned :: "'a::len word \<Rightarrow> byte list" where
  "code_unsigned x = packed 0 (pack_bytes (drop_bit 8) (sizeof TYPE('a)) x)"

definition code_signed :: "'a::len word \<Rightarrow> byte list" where
  "code_signed x =
     (if sint x < 0 then packed 0x80 (pack_bytes (signed_drop_bit 8) (sizeof TYPE('a)) (- x))
      else packed 0 (pack_bytes (signed_drop_bit 8) (sizeof TYPE('a)) x))"

lemma int_widthD:
  assumes "int_width TYPE('a::len)"
  shows "sizeof TYPE('a) \<le> 8" "0 < sizeof TYPE('a)" "8 * sizeof TYPE('a) = LENGTH('a)"
  using assms by (auto simp: int_width_def sizeof_def)

lemma length_packed [simp]: "length (packed neg bs) = Suc (length bs)"
  by (simp add: packed_def)

lemma put_packed_fits:
  "length (packed neg bs) \<le> room out \<Longrightarrow> put_packed neg bs out = Returned False (put_bytes (packed neg bs) out)"
  using sputn_fits [of "packed neg bs" out] by (simp add: put_packed_def packed_def)

lemma put_packed_full:
  "room out < length (packed neg bs) \<Longrightarrow> \<exists>out'. put_packed neg bs out = Returned True out'"
  using sputn_full [of out "packed neg bs"]
  by (auto simp: put_packed_def packed_def Let_def split: prod.splits)

text \<open>The control byte: the number of bytes, and the sign in the top bit.\<close>

lemma control_byte:
  assumes "n \<le> 8"
  shows "unat ((of_nat n OR 0x80 :: byte) AND 0x0F) = n" "(of_nat n OR 0x80 :: byte) AND 0x80 \<noteq> 0"
    "unat ((of_nat n :: byte) AND 0x0F) = n" "(of_nat n :: byte) AND 0x80 = 0"
    "unat ((of_nat n :: byte) AND 0x8F) = n"
proof -
  have "n \<in> set [0..<9]" using assms by simp
  then have "n = 0 \<or> n = 1 \<or> n = 2 \<or> n = 3 \<or> n = 4 \<or> n = 5 \<or> n = 6 \<or> n = 7 \<or> n = 8"
    by (simp add: upt_rec) linarith
  then show "unat ((of_nat n OR 0x80 :: byte) AND 0x0F) = n" "(of_nat n OR 0x80 :: byte) AND 0x80 \<noteq> 0"
    "unat ((of_nat n :: byte) AND 0x0F) = n" "(of_nat n :: byte) AND 0x80 = 0"
    "unat ((of_nat n :: byte) AND 0x8F) = n"
    by (elim disjE; simp)+
qed

lemma control_byte_eq:
  "packed 0 bs = of_nat (length bs) # bs" "packed 0x80 bs = (of_nat (length bs) OR 0x80) # bs"
  by (simp_all add: packed_def)

lemma packed_bytes:
  fixes x :: "'a::len word"
  assumes "int_width TYPE('a)"
  shows "pack_bytes shift (sizeof TYPE('a)) x \<noteq> []"
    "length (pack_bytes shift (sizeof TYPE('a)) x) \<le> sizeof TYPE('a)"
    "length (pack_bytes shift (sizeof TYPE('a)) x) \<le> 8"
  using length_pack_bytes [of "sizeof TYPE('a)" shift x] int_widthD [OF assms] by auto

lemma get_packed_bytes:
  fixes x :: "'a::len word"
  assumes "int_width TYPE('a)" and "shift = drop_bit 8 \<or> shift = signed_drop_bit 8"
  shows "get_packed (length (pack_bytes shift (sizeof TYPE('a)) x))
      (holding (pack_bytes shift (sizeof TYPE('a)) x @ rest)) = Returned (Some x) (holding rest)"
proof -
  from assms(1) have w: "8 * sizeof TYPE('a) = LENGTH('a)" by (rule int_widthD)
  have "le_value (pack_bytes shift (sizeof TYPE('a)) x) = unat (take_bit LENGTH('a) x)"
    using le_value_pack_bytes [of shift "sizeof TYPE('a)" x] assms(2) w
    by (auto simp: take_bit_signed_drop_bit)
  also have "\<dots> = unat x" by (simp add: take_bit_word_eq_self)
  finally show ?thesis
    using get_packed_value [of "pack_bytes shift (sizeof TYPE('a)) x", where 'a = 'a]
      packed_bytes [OF assms(1)] int_widthD [OF assms(1)] by simp
qed

lemma get_packed_cut:
  fixes x :: "'a::len word"
  assumes "int_width TYPE('a)" "pack_bytes shift (sizeof TYPE('a)) x = cs @ bs'" "bs' \<noteq> []"
  shows "get_packed (length (pack_bytes shift (sizeof TYPE('a)) x)) (holding cs)
    = Returned (None :: 'a word option) \<lparr>source = [], in_bad = True\<rparr>"
  using packed_bytes(2) [OF assms(1), of shift x] assms(2,3) by (intro get_packed_truncated) auto

section \<open>Unsigned integers\<close>

lemma serialize_unsigned_laws:
  assumes w: "int_width TYPE('a::len)"
  shows "checked_serializer (serialize_unsigned t :: 'a word \<Rightarrow> _) (deserialize_unsigned t) code_unsigned (\<lambda>x. True)"
proof
  fix x :: "'a word" and out :: ostream and rest bs bs' :: "byte list"
  let ?bs = "pack_bytes (drop_bit 8) (sizeof TYPE('a)) x"
  have code: "code_unsigned x = of_nat (length ?bs) # ?bs" by (simp add: code_unsigned_def packed_def)
  note size = packed_bytes [OF w, of "drop_bit 8" x]
  show "length (code_unsigned x) \<le> room out \<Longrightarrow>
      serialize_unsigned t x out = Returned () (put_bytes (code_unsigned x) out)"
    by (simp add: serialize_unsigned_def or_throw_def pack_int_def put_packed_fits code_unsigned_def bind_io.simps)
  show "deserialize_unsigned t (holding (code_unsigned x @ rest)) = Returned x (holding rest)"
    using get_packed_bytes [OF w, of "drop_bit 8" x rest] size
    by (simp add: deserialize_unsigned_def some_or_throw_def unpack_int_def sbumpc_def code control_byte)
  show "throws (serialize_unsigned t x out)" if "room out < length (code_unsigned x)"
    using put_packed_full that unfolding code_unsigned_def
    by (fastforce simp: serialize_unsigned_def or_throw_def pack_int_def)
  show "throws (deserialize_unsigned t (holding bs) :: ('a word, istream) io)"
    if "code_unsigned x = bs @ bs'" "bs' \<noteq> []"
  proof (cases bs)
    case Nil
    then show ?thesis by (simp add: deserialize_unsigned_def some_or_throw_def unpack_int_def sbumpc_def)
  next
    case (Cons b cs)
    have "b = of_nat (length ?bs)" "?bs = cs @ bs'"
      using that(1) unfolding Cons code append_Cons list.inject by blast+
    with get_packed_cut [OF w this(2) that(2)] Cons size show ?thesis
      by (simp add: deserialize_unsigned_def some_or_throw_def unpack_int_def sbumpc_def control_byte
        del: length_append)
  qed
qed

section \<open>Signed integers\<close>

text \<open>The values whose negation does not overflow.\<close>

definition negatable :: "'a::len word \<Rightarrow> bool" where
  "negatable x \<longleftrightarrow> times_minus_1 x \<noteq> None"

lemma sint_uminus_least:
  fixes x :: "'a::len word"
  assumes "sint (- x) = - (2 ^ (LENGTH('a) - 1))"
  shows "sint x = - (2 ^ (LENGTH('a) - 1))"
proof -
  let ?m = "2 ^ (LENGTH('a) - 1) :: int"
  have "- x = word_of_int (- ?m)" unfolding assms [symmetric] by simp
  then have "x = word_of_int ?m" by (simp add: minus_equation_iff [of x])
  also have "\<dots> = word_of_int (?m - 2 ^ LENGTH('a))" by (simp add: word_of_int_2p_len)
  also have "?m - 2 ^ LENGTH('a) = - ?m" using power_minus_mult [of "LENGTH('a)" "2 :: int"] by simp
  finally have "sint x = signed_take_bit (LENGTH('a) - 1) (- ?m)" by (simp only: sint_sbintrunc')
  then show ?thesis by (simp add: signed_take_bit_int_eq_self)
qed

lemma negatable_uminus:
  assumes "negatable (x :: 'a::len word)"
  shows "times_minus_1 x = Some (- x)" "times_minus_1 (- x) = Some x"
  using assms sint_uminus_least [of x] by (auto simp: negatable_def times_minus_1_def split: if_splits)


lemma code_signed_cases:
  fixes x :: "'a::len word"
  assumes "negatable x"
  obtains (nonneg) "0 \<le> sint x" "code_signed x = packed 0 (pack_bytes (signed_drop_bit 8) (sizeof TYPE('a)) x)"
      "\<And>out. pack_int_signed x out = put_packed 0 (pack_bytes (signed_drop_bit 8) (sizeof TYPE('a)) x) out"
  | (neg) "code_signed x = packed 0x80 (pack_bytes (signed_drop_bit 8) (sizeof TYPE('a)) (- x))"
      "\<And>out. pack_int_signed x out = put_packed 0x80 (pack_bytes (signed_drop_bit 8) (sizeof TYPE('a)) (- x)) out"
  using negatable_uminus [OF assms]
  by (cases "sint x < 0") (simp_all add: code_signed_def pack_int_signed_def)

lemma serialize_signed_laws:
  assumes w: "int_width TYPE('a::len)"
  shows "checked_serializer (serialize_signed t :: 'a word \<Rightarrow> _) (deserialize_signed t) code_signed negatable"
proof
  fix x :: "'a word" and out :: ostream and rest bs bs' :: "byte list"
  assume "negatable x"
  note neg = negatable_uminus [OF this]
  let ?pack = "pack_bytes (signed_drop_bit 8) (sizeof TYPE('a)) :: 'a word \<Rightarrow> _"
  have size: "length (?pack y) \<le> 8" for y by (rule packed_bytes [OF w])
  have get: "get_packed (length (?pack y)) (holding (?pack y @ rest)) = Returned (Some y) (holding rest)" for y rest
    by (rule get_packed_bytes [OF w]) simp
  show "length (code_signed x) \<le> room out \<Longrightarrow>
      serialize_signed t x out = Returned () (put_bytes (code_signed x) out)"
    using \<open>negatable x\<close>
    by (cases rule: code_signed_cases)
      (simp_all add: serialize_signed_def or_throw_def put_packed_fits bind_io.simps)
  show "throws (serialize_signed t x out)" if "room out < length (code_signed x)"
    using \<open>negatable x\<close>
  proof (cases rule: code_signed_cases)
    case nonneg
    with put_packed_full [of out 0 "?pack x"] that show ?thesis
      by (auto simp: serialize_signed_def or_throw_def bind_io.simps)
  next
    case neg
    with put_packed_full [of out "0x80" "?pack (- x)"] that show ?thesis
      by (auto simp: serialize_signed_def or_throw_def bind_io.simps)
  qed
  show "deserialize_signed t (holding (code_signed x @ rest)) = Returned x (holding rest)"
    using \<open>negatable x\<close>
  proof (cases rule: code_signed_cases)
    case nonneg
    with get [of x rest] size [of x] show ?thesis
      by (simp add: deserialize_signed_def some_or_throw_def unpack_int_signed_def sbumpc_def
        control_byte_eq control_byte)
  next
    case neg
    with get [of "- x" rest] size [of "- x"] show ?thesis
      by (simp add: deserialize_signed_def some_or_throw_def unpack_int_signed_def sbumpc_def
        control_byte_eq control_byte \<open>times_minus_1 (- x) = Some x\<close>)
  qed
  have cut: "throws (deserialize_signed t (holding bs) :: ('a word, istream) io)"
    if "code_signed x = (of_nat (length (?pack y)) OR s) # ?pack y" "s = 0 \<or> s = 0x80"
      "code_signed x = bs @ bs'" "bs' \<noteq> []" for y s
  proof (cases bs)
    case Nil
    then show ?thesis by (simp add: deserialize_signed_def some_or_throw_def unpack_int_signed_def sbumpc_def)
  next
    case (Cons b cs)
    have "b = of_nat (length (?pack y)) OR s" "?pack y = cs @ bs'"
      using that(3) unfolding Cons that(1) append_Cons list.inject by blast+
    with get_packed_cut [OF w this(2) that(4)] Cons size [of y] that(2) show ?thesis
      by (auto simp: deserialize_signed_def some_or_throw_def unpack_int_signed_def sbumpc_def control_byte
        simp del: length_append)
  qed
  show "throws (deserialize_signed t (holding bs) :: ('a word, istream) io)"
    if "code_signed x = bs @ bs'" "bs' \<noteq> []"
    using \<open>negatable x\<close>
    by (cases rule: code_signed_cases)
      (use cut [of x 0] cut [of "- x" "0x80"] that in \<open>simp_all add: packed_def\<close>)
qed

section \<open>Bytes and truth values\<close>

lemma serialize_byte_laws: "checked_serializer (serialize_byte t) (deserialize_byte t) (\<lambda>b. [b]) (\<lambda>b. True)"
proof
  fix x :: byte and out :: ostream and rest bs bs' :: "byte list"
  show "length [x] \<le> room out \<Longrightarrow> serialize_byte t x out = Returned () (put_bytes [x] out)"
    using sputn_fits [of "[x]" out]
    by (simp add: serialize_byte_def or_throw_def pack_byte_def bind_io.simps)
  show "deserialize_byte t (holding ([x] @ rest)) = Returned x (holding rest)"
    by (simp add: deserialize_byte_def some_or_throw_def unpack_byte_def sbumpc_def)
  show "throws (serialize_byte t x out)" if "room out < length [x]"
    using that by (simp add: serialize_byte_def or_throw_def pack_byte_def sputn_def bind_io.simps)
  show "throws (deserialize_byte t (holding bs))" if "[x] = bs @ bs'" "bs' \<noteq> []"
    using that by (auto simp: Cons_eq_append_conv deserialize_byte_def some_or_throw_def unpack_byte_def sbumpc_def)
qed

definition code_bool :: "bool \<Rightarrow> byte list" where
  "code_bool b = [if b then 49 else 48]"

lemma serialize_bool_laws: "checked_serializer serialize_bool deserialize_bool code_bool (\<lambda>b. True)"
proof
  fix x :: bool and out :: ostream and rest bs bs' :: "byte list"
  show "serialize_bool x out = Returned () (put_bytes (code_bool x) out)"
    if "\<not> out_bad out" "length (code_bool x) \<le> room out"
    using ostream_write_fits [OF that] that by (simp add: serialize_bool_def code_bool_def)
  show "deserialize_bool (holding (code_bool x @ rest)) = Returned x (holding rest)"
    by (simp add: deserialize_bool_def code_bool_def istream_get_def sbumpc_def)
  show "throws (serialize_bool x out)" if "room out < length (code_bool x)"
    using that by (simp add: serialize_bool_def code_bool_def Let_def)
  show "throws (deserialize_bool (holding bs))" if "code_bool x = bs @ bs'" "bs' \<noteq> []"
    using that by (auto simp: code_bool_def Cons_eq_append_conv deserialize_bool_def istream_get_def sbumpc_def)
qed


section \<open>The types of the library\<close>

text \<open>The types that the rest of the library serializes; \<open>size_t\<close> is \<open>unsigned long\<close>.\<close>

abbreviation serialize_long :: "64 word \<Rightarrow> ostream \<Rightarrow> (unit, ostream) io" where
  "serialize_long \<equiv> serialize_signed ''long''"

abbreviation deserialize_long :: "istream \<Rightarrow> (64 word, istream) io" where
  "deserialize_long \<equiv> deserialize_signed ''long''"

abbreviation serialize_int :: "32 word \<Rightarrow> ostream \<Rightarrow> (unit, ostream) io" where
  "serialize_int \<equiv> serialize_signed ''int''"

abbreviation deserialize_int :: "istream \<Rightarrow> (32 word, istream) io" where
  "deserialize_int \<equiv> deserialize_signed ''int''"

abbreviation serialize_ulong :: "64 word \<Rightarrow> ostream \<Rightarrow> (unit, ostream) io" where
  "serialize_ulong \<equiv> serialize_unsigned ''unsigned long''"

abbreviation deserialize_ulong :: "istream \<Rightarrow> (64 word, istream) io" where
  "deserialize_ulong \<equiv> deserialize_unsigned ''unsigned long''"

interpretation long: checked_serializer serialize_long deserialize_long code_signed negatable
  by (rule serialize_signed_laws) (simp add: int_width_def)

interpretation int64: checked_serializer "serialize_signed ''int64'' :: 64 word \<Rightarrow> _" "deserialize_signed ''int64''"
  code_signed negatable
  by (rule serialize_signed_laws) (simp add: int_width_def)

interpretation int32: checked_serializer serialize_int deserialize_int code_signed negatable
  by (rule serialize_signed_laws) (simp add: int_width_def)

interpretation short: checked_serializer "serialize_signed ''short'' :: 16 word \<Rightarrow> _" "deserialize_signed ''short''"
  code_signed negatable
  by (rule serialize_signed_laws) (simp add: int_width_def)

interpretation ulong: checked_serializer serialize_ulong deserialize_ulong code_unsigned "\<lambda>x. True"
  by (rule serialize_unsigned_laws) (simp add: int_width_def)

interpretation uint32: checked_serializer "serialize_unsigned ''unsigned int'' :: 32 word \<Rightarrow> _"
  "deserialize_unsigned ''unsigned int''" code_unsigned "\<lambda>x. True"
  by (rule serialize_unsigned_laws) (simp add: int_width_def)

interpretation uchar: checked_serializer "serialize_byte ''unsigned char''" "deserialize_byte ''unsigned char''"
  "\<lambda>b. [b]" "\<lambda>b. True"
  by (rule serialize_byte_laws)

interpretation bools: checked_serializer serialize_bool deserialize_bool code_bool "\<lambda>b. True"
  by (rule serialize_bool_laws)

section \<open>Properties\<close>

lemma length_code_signed:
  assumes "int_width TYPE('a::len)"
  shows "length (code_signed (x :: 'a word)) \<le> sizeof TYPE('a) + 1"
  using packed_bytes(2) [OF assms] by (simp add: code_signed_def)

text \<open>
  C35. Every signed integer whose negation does not overflow survives \<open>serialize\<close> and \<open>deserialize\<close>: with
  \<open>sizeof(T) + 1\<close> bytes of room the bytes written are at most that many, reading them returns the
  value and leaves what follows, and reading any proper part of them throws.
\<close>

theorem signed_round_trip:
  assumes "int_width TYPE('a::len)" "negatable (x :: 'a word)"
    and "\<not> out_bad out" "sizeof TYPE('a) + 1 \<le> room out"
  shows "\<exists>out' bs. serialize_signed t x out = Returned () out' \<and> sink out' = sink out @ bs \<and>
    length bs \<le> sizeof TYPE('a) + 1 \<and>
    (\<forall>rest. deserialize_signed t (holding (bs @ rest)) = Returned x (holding rest)) \<and>
    (\<forall>n. n < length bs \<longrightarrow> throws (deserialize_signed t (holding (take n bs)) :: ('a word, istream) io))"
proof -
  note laws = serialize_signed_laws [OF assms(1), of t]
  have "serialize_signed t x out = Returned () (put_bytes (code_signed x) out)"
    using checked_serializer.writes_ser [OF laws assms(2)] length_code_signed [OF assms(1), of x] assms(3,4)
    by (auto simp: writes_def)
  moreover have "deserialize_signed t (holding (code_signed x @ rest)) = Returned x (holding rest)" for rest
    using checked_serializer.reads_des [OF laws assms(2)] by (rule readsD)
  moreover have "throws (deserialize_signed t (holding (take n (code_signed x))) :: ('a word, istream) io)"
    if "n < length (code_signed x)" for n
    by (rule readsD(2) [OF checked_serializer.reads_des [OF laws assms(2)], of _ "drop n (code_signed x)"])
      (use that in simp_all)
  ultimately show ?thesis
    using length_code_signed [OF assms(1), of x] by (intro exI [of _ "put_bytes (code_signed x) out"] exI [of _ "code_signed x"]) simp
qed

theorem signed_round_trip_witness:
  "\<exists>out' bs. serialize_long (- 259) \<lparr>sink = [], room = 9, out_bad = False\<rparr> = Returned () out' \<and> sink out' = bs \<and>
    (\<forall>rest. deserialize_long (holding (bs @ rest)) = Returned (- 259) (holding rest))"
proof -
  have "int_width TYPE(64)" "negatable (- 259 :: 64 word)"
    "sizeof TYPE(64) + 1 \<le> room \<lparr>sink = [], room = 9, out_bad = False\<rparr>"
    by (simp_all add: int_width_def negatable_def times_minus_1_def sizeof_def)
  from signed_round_trip [OF this(1,2) _ this(3), of "''long''"] show ?thesis by auto
qed

lemma get_packed_undefined:
  assumes "int_width TYPE('a::len)" "n < 256"
  shows "get_packed n i = (Undef :: ('a word option, istream) io) \<longleftrightarrow> n = 0"
proof (cases n)
  case 0
  then show ?thesis by (simp add: get_packed_def sgetn_def unpack_loop.simps)
next
  case (Suc k)
  with assms(2) have "unat (of_nat n - 1 :: byte) = k" by (simp add: unat_of_nat take_bit_eq_mod)
  then have "unpack_loop (take n (source i)) (unat (of_nat n - 1 :: byte)) 0 \<noteq> (None :: 'a word option)"
    if "length (take n (source i)) = n"
    using unpack_loop_value [of k "take n (source i)" "0 :: 'a word"] that Suc by simp
  with Suc show ?thesis
    by (cases "length (take n (source i)) = n") (auto simp: get_packed_def sgetn_def)
qed

text \<open>
  Reading an unsigned integer has no defined behaviour exactly when the first byte that is left
  announces a length of zero: the loop then starts at \<open>buf[255]\<close>. On every other input it returns or throws.
\<close>

theorem deserialize_unsigned_undefined:
  assumes "int_width TYPE('a::len)"
  shows "(deserialize_unsigned t i :: ('a word, istream) io) = Undef \<longleftrightarrow>
    (\<exists>b bs. source i = b # bs \<and> b AND 0x8F = 0)"
proof (cases "source i")
  case Nil
  then show ?thesis
    by (simp add: deserialize_unsigned_def some_or_throw_def unpack_int_def sbumpc_def bind_io.simps throw_def)
next
  case (Cons b bs)
  have "unat (b AND 0x8F) < 256" using unsigned_less [of "b AND 0x8F", where 'a = nat] by simp
  note undef = get_packed_undefined [OF assms this, of "i\<lparr>source := bs\<rparr>"]
  have "(deserialize_unsigned t i :: ('a word, istream) io) = Undef \<longleftrightarrow>
      get_packed (unat (b AND 0x8F)) (i\<lparr>source := bs\<rparr>) = (Undef :: ('a word option, istream) io)"
    using Cons by (auto simp: deserialize_unsigned_def some_or_throw_def unpack_int_def sbumpc_def bind_io.simps
      throw_def split: io.split option.split)
  with undef Cons show ?thesis by (simp add: unat_eq_zero)
qed

theorem deserialize_unsigned_undefined_witness:
  "deserialize_ulong (holding [0]) = Undef \<and> deserialize_ulong (holding [1, 5]) \<noteq> Undef"
  using deserialize_unsigned_undefined [of "''unsigned long''" "holding [0]", where 'a = 64]
    deserialize_unsigned_undefined [of "''unsigned long''" "holding [1, 5]", where 'a = 64]
  by (simp add: int_width_def)

end
