(* ===== verification/Serialize_Std.thy ===== *)
theory Serialize_Std
  imports Serialize_Int
begin

unbundle bit_operations_syntax

text \<open>
  \<open>serialize.h\<close> for the types of the standard library and for arrays: pairs, maps, sets, vectors,
  deques, strings, C style arrays, and the two proxy classes that read and write a whole file. A
  \<open>std::set\<close> is its strictly ascending list of elements, a \<open>std::map\<close> that of its pairs. Memory
  that \<open>resize\<close> cannot get is not modelled.
\<close>

section \<open>Loops over elements\<close>

fun serialize_all :: "('a \<Rightarrow> ostream \<Rightarrow> (unit, ostream) io) \<Rightarrow> 'a list \<Rightarrow> ostream \<Rightarrow> (unit, ostream) io" where
  "serialize_all ser [] = Returned ()"
| "serialize_all ser (x # xs) = bind_io (ser x) (\<lambda>_. serialize_all ser xs)"

fun deserialize_n :: "('s \<Rightarrow> ('a, 's) io) \<Rightarrow> nat \<Rightarrow> 's \<Rightarrow> ('a list, 's) io" where
  "deserialize_n des 0 = Returned []"
| "deserialize_n des (Suc n) =
     bind_io des (\<lambda>x. bind_io (deserialize_n des n) (\<lambda>xs. Returned (x # xs)))"

definition serialize_size :: "nat \<Rightarrow> ostream \<Rightarrow> (unit, ostream) io" where
  "serialize_size n = serialize_ulong (of_nat n)"

definition deserialize_size :: "istream \<Rightarrow> (nat, istream) io" where
  "deserialize_size = bind_io deserialize_ulong (\<lambda>n. Returned (unat n))"

definition code_size :: "nat \<Rightarrow> byte list" where
  "code_size n = code_unsigned (of_nat n :: 64 word)"

definition code_sequence :: "('a \<Rightarrow> byte list) \<Rightarrow> 'a list \<Rightarrow> byte list" where
  "code_sequence code xs = code_size (length xs) @ concat (map code xs)"

definition valid_sequence :: "('a \<Rightarrow> bool) \<Rightarrow> 'a list \<Rightarrow> bool" where
  "valid_sequence valid xs \<longleftrightarrow> length xs < 2 ^ 64 \<and> list_all valid xs"

lemma code_size_bounds: "code_size n \<noteq> []" "length (code_size n) \<le> 9"
  using packed_bytes(2) [where shift = "drop_bit 8" and x = "of_nat n :: 64 word"]
  by (simp_all add: code_size_def code_unsigned_def packed_def int_width_def sizeof_def)

lemma writes_size [intro]: "writes (serialize_size n) (code_size n)"
  unfolding serialize_size_def code_size_def by (rule ulong.writes_ser) simp

lemma reads_size [intro]:
  assumes "n < 2 ^ 64"
  shows "reads deserialize_size (code_size n) n"
  unfolding deserialize_size_def code_size_def
  by (rule reads_map [OF ulong.reads_des]) (use assms in \<open>simp_all add: unat_of_nat take_bit_nat_eq_self\<close>)

lemma writes_all:
  "list_all (\<lambda>x. writes (ser x) (code x)) xs \<Longrightarrow> writes (serialize_all ser xs) (concat (map code xs))"
  by (induction xs) auto

lemma reads_n:
  "list_all (\<lambda>x. reads des (code x) x) xs \<Longrightarrow> reads (deserialize_n des (length xs)) (concat (map code xs)) xs"
proof (induction xs)
  case (Cons x xs)
  then have "reads (bind_io (deserialize_n des (length xs)) (\<lambda>ys. Returned (x # ys))) (concat (map code xs)) (x # xs)"
    by (intro reads_map [of _ _ xs]) auto
  with Cons.prems show ?case by auto
qed auto

section \<open>Pairs, sequences and complex numbers\<close>

definition serialize_pair ::
  "('a \<Rightarrow> ostream \<Rightarrow> (unit, ostream) io) \<Rightarrow> ('b \<Rightarrow> ostream \<Rightarrow> (unit, ostream) io) \<Rightarrow>
     'a \<times> 'b \<Rightarrow> ostream \<Rightarrow> (unit, ostream) io" where
  "serialize_pair ser1 ser2 item =
     rethrow ''serializing object of type std::pair'' (bind_io (ser1 (fst item)) (\<lambda>_. ser2 (snd item)))"

definition deserialize_pair ::
  "(istream \<Rightarrow> ('a, istream) io) \<Rightarrow> (istream \<Rightarrow> ('b, istream) io) \<Rightarrow> istream \<Rightarrow> ('a \<times> 'b, istream) io" where
  "deserialize_pair des1 des2 =
     rethrow ''deserializing object of type std::pair''
       (bind_io des1 (\<lambda>x. bind_io des2 (\<lambda>y. Returned (x, y))))"

definition serialize_sequence ::
  "string \<Rightarrow> ('a \<Rightarrow> ostream \<Rightarrow> (unit, ostream) io) \<Rightarrow> 'a list \<Rightarrow> ostream \<Rightarrow> (unit, ostream) io" where
  "serialize_sequence what ser item =
     rethrow (''serializing object of type '' @ what)
       (bind_io (serialize_size (length item)) (\<lambda>_. serialize_all ser item))"

definition deserialize_sequence ::
  "string \<Rightarrow> (istream \<Rightarrow> ('a, istream) io) \<Rightarrow> istream \<Rightarrow> ('a list, istream) io" where
  "deserialize_sequence what des =
     rethrow (''deserializing object of type '' @ what) (bind_io deserialize_size (deserialize_n des))"

definition serialize_vector :: "('a \<Rightarrow> ostream \<Rightarrow> (unit, ostream) io) \<Rightarrow> 'a list \<Rightarrow> ostream \<Rightarrow> (unit, ostream) io" where
  "serialize_vector = serialize_sequence ''std::vector''"

definition deserialize_vector :: "(istream \<Rightarrow> ('a, istream) io) \<Rightarrow> istream \<Rightarrow> ('a list, istream) io" where
  "deserialize_vector = deserialize_sequence ''std::vector''"

definition serialize_deque :: "('a \<Rightarrow> ostream \<Rightarrow> (unit, ostream) io) \<Rightarrow> 'a list \<Rightarrow> ostream \<Rightarrow> (unit, ostream) io" where
  "serialize_deque = serialize_sequence ''std::deque''"

definition deserialize_deque :: "(istream \<Rightarrow> ('a, istream) io) \<Rightarrow> istream \<Rightarrow> ('a list, istream) io" where
  "deserialize_deque = deserialize_sequence ''std::deque''"

definition serialize_complex :: "('a \<Rightarrow> ostream \<Rightarrow> (unit, ostream) io) \<Rightarrow> 'a \<times> 'a \<Rightarrow> ostream \<Rightarrow> (unit, ostream) io" where
  "serialize_complex ser item =
     rethrow ''serializing an object of type std::complex'' (bind_io (ser (fst item)) (\<lambda>_. ser (snd item)))"

definition deserialize_complex :: "(istream \<Rightarrow> ('a, istream) io) \<Rightarrow> istream \<Rightarrow> ('a \<times> 'a, istream) io" where
  "deserialize_complex des =
     rethrow ''deserializing an object of type std::complex''
       (bind_io des (\<lambda>real. bind_io des (\<lambda>imag. Returned (real, imag))))"

section \<open>Sets and maps of the standard library\<close>

text \<open>\<open>item.insert(d)\<close>, and \<open>item[d] = r\<close>, which overwrites.\<close>

definition std_insert :: "'a::linorder \<Rightarrow> 'a list \<Rightarrow> 'a list" where
  "std_insert d item = insort_insert d item"

fun std_store :: "'d::linorder \<Rightarrow> 'r \<Rightarrow> ('d \<times> 'r) list \<Rightarrow> ('d \<times> 'r) list" where
  "std_store d r [] = [(d, r)]"
| "std_store d r (p # ps) =
     (if d < fst p then (d, r) # p # ps
      else if d = fst p then (d, r) # ps
      else p # std_store d r ps)"

definition serialize_set :: "('a \<Rightarrow> ostream \<Rightarrow> (unit, ostream) io) \<Rightarrow> 'a list \<Rightarrow> ostream \<Rightarrow> (unit, ostream) io" where
  "serialize_set ser item =
     rethrow ''serializing object of type std::set''
       (bind_io (serialize_size (length item)) (\<lambda>_. serialize_all ser item))"

fun insert_n :: "(istream \<Rightarrow> ('a::linorder, istream) io) \<Rightarrow> nat \<Rightarrow> 'a list \<Rightarrow> istream \<Rightarrow> ('a list, istream) io" where
  "insert_n des 0 item = Returned item"
| "insert_n des (Suc n) item = bind_io des (\<lambda>d. insert_n des n (std_insert d item))"

definition deserialize_set :: "(istream \<Rightarrow> ('a::linorder, istream) io) \<Rightarrow> istream \<Rightarrow> ('a list, istream) io" where
  "deserialize_set des =
     rethrow ''deserializing object of type std::set'' (bind_io deserialize_size (\<lambda>n. insert_n des n []))"

definition serialize_map ::
  "('d \<Rightarrow> ostream \<Rightarrow> (unit, ostream) io) \<Rightarrow> ('r \<Rightarrow> ostream \<Rightarrow> (unit, ostream) io) \<Rightarrow>
     ('d \<times> 'r) list \<Rightarrow> ostream \<Rightarrow> (unit, ostream) io" where
  "serialize_map ser1 ser2 item =
     rethrow ''serializing object of type std::map''
       (bind_io (serialize_size (length item))
          (\<lambda>_. serialize_all (\<lambda>i. bind_io (ser1 (fst i)) (\<lambda>_. ser2 (snd i))) item))"

fun store_n ::
  "(istream \<Rightarrow> ('d::linorder, istream) io) \<Rightarrow> (istream \<Rightarrow> ('r, istream) io) \<Rightarrow> nat \<Rightarrow> ('d \<times> 'r) list \<Rightarrow>
     istream \<Rightarrow> (('d \<times> 'r) list, istream) io" where
  "store_n des1 des2 0 item = Returned item"
| "store_n des1 des2 (Suc n) item =
     bind_io des1 (\<lambda>d. bind_io des2 (\<lambda>r. store_n des1 des2 n (std_store d r item)))"

definition deserialize_map ::
  "(istream \<Rightarrow> ('d::linorder, istream) io) \<Rightarrow> (istream \<Rightarrow> ('r, istream) io) \<Rightarrow>
     istream \<Rightarrow> (('d \<times> 'r) list, istream) io" where
  "deserialize_map des1 des2 =
     rethrow ''deserializing object of type std::map'' (bind_io deserialize_size (\<lambda>n. store_n des1 des2 n []))"

lemma std_insert_last: "sorted_wrt (<) (xs @ [x]) \<Longrightarrow> std_insert x xs = xs @ [x]"
  by (induction xs) (auto simp: std_insert_def insort_insert_key_def)

lemma std_store_last:
  "sorted_wrt (<) (map fst ps @ [d]) \<Longrightarrow> std_store d r ps = ps @ [(d, r)]"
  by (induction ps) auto

lemma sorted_wrt_snoc: "sorted_wrt (<) (xs @ x # ys) \<Longrightarrow> sorted_wrt (<) (xs @ [x])"
  by (auto simp: sorted_wrt_append)

lemma reads_insert_n:
  "list_all (\<lambda>x. reads des (code x) x) xs \<Longrightarrow> sorted_wrt (<) (item @ xs) \<Longrightarrow>
     reads (insert_n des (length xs) item) (concat (map code xs)) (item @ xs)"
proof (induction xs arbitrary: item)
  case (Cons x xs)
  then have "reads (insert_n des (length xs) (std_insert x item)) (concat (map code xs)) (item @ x # xs)"
    using Cons.IH [of "item @ [x]"] std_insert_last [OF sorted_wrt_snoc [OF Cons.prems(2)]] by simp
  with Cons.prems show ?case by auto
qed auto

lemma reads_store_n:
  "list_all (\<lambda>p. reads des1 (code1 (fst p)) (fst p) \<and> reads des2 (code2 (snd p)) (snd p)) ps \<Longrightarrow>
     sorted_wrt (<) (map fst (item @ ps)) \<Longrightarrow>
     reads (store_n des1 des2 (length ps) item) (concat (map (\<lambda>p. code1 (fst p) @ code2 (snd p)) ps)) (item @ ps)"
proof (induction ps arbitrary: item)
  case (Cons p ps)
  have "sorted_wrt (<) (map fst item @ [fst p])"
    using Cons.prems(2) by (intro sorted_wrt_snoc [of _ _ "map fst ps"]) simp
  from std_store_last [OF this, of "snd p"]
  have "reads (store_n des1 des2 (length ps) (std_store (fst p) (snd p) item))
      (concat (map (\<lambda>p. code1 (fst p) @ code2 (snd p)) ps)) (item @ p # ps)"
    using Cons.IH [of "item @ [p]"] Cons.prems by simp
  with Cons.prems show ?case by auto
qed auto

section \<open>Two element types\<close>

locale two_serializers =
  A: checked_serializer ser1 des1 code1 valid1 + B: checked_serializer ser2 des2 code2 valid2
  for ser1 :: "'a \<Rightarrow> ostream \<Rightarrow> (unit, ostream) io"
    and des1 :: "istream \<Rightarrow> ('a, istream) io"
    and code1 :: "'a \<Rightarrow> byte list"
    and valid1 :: "'a \<Rightarrow> bool"
    and ser2 :: "'b \<Rightarrow> ostream \<Rightarrow> (unit, ostream) io"
    and des2 :: "istream \<Rightarrow> ('b, istream) io"
    and code2 :: "'b \<Rightarrow> byte list"
    and valid2 :: "'b \<Rightarrow> bool"

definition code_pair :: "('a \<Rightarrow> byte list) \<Rightarrow> ('b \<Rightarrow> byte list) \<Rightarrow> 'a \<times> 'b \<Rightarrow> byte list" where
  "code_pair code1 code2 p = code1 (fst p) @ code2 (snd p)"

definition valid_pair :: "('a \<Rightarrow> bool) \<Rightarrow> ('b \<Rightarrow> bool) \<Rightarrow> 'a \<times> 'b \<Rightarrow> bool" where
  "valid_pair valid1 valid2 p \<longleftrightarrow> valid1 (fst p) \<and> valid2 (snd p)"

definition valid_map :: "('d::linorder \<Rightarrow> bool) \<Rightarrow> ('r \<Rightarrow> bool) \<Rightarrow> ('d \<times> 'r) list \<Rightarrow> bool" where
  "valid_map valid1 valid2 ps \<longleftrightarrow>
     valid_sequence (valid_pair valid1 valid2) ps \<and> sorted_wrt (<) (map fst ps)"

context two_serializers begin

lemma pair_laws:
  "checked_serializer (serialize_pair ser1 ser2) (deserialize_pair des1 des2)
     (code_pair code1 code2) (valid_pair valid1 valid2)"
proof (rule checked_serializerI)
  fix p assume "valid_pair valid1 valid2 p"
  then have ok: "valid1 (fst p)" "valid2 (snd p)" by (simp_all add: valid_pair_def)
  show "writes (serialize_pair ser1 ser2 p) (code_pair code1 code2 p)"
    unfolding serialize_pair_def code_pair_def using A.writes_ser B.writes_ser ok by blast
  have "reads (bind_io des2 (\<lambda>y. Returned (fst p, y))) (code2 (snd p)) p"
    by (rule reads_map [OF B.reads_des [OF ok(2)]]) simp
  then show "reads (deserialize_pair des1 des2) (code_pair code1 code2 p) p"
    unfolding deserialize_pair_def code_pair_def using A.reads_des ok by blast
qed

end

locale keyed_serializers = two_serializers ser1 des1 code1 valid1 ser2 des2 code2 valid2
  for ser1 :: "'d::linorder \<Rightarrow> ostream \<Rightarrow> (unit, ostream) io"
    and des1 :: "istream \<Rightarrow> ('d, istream) io"
    and code1 :: "'d \<Rightarrow> byte list"
    and valid1 :: "'d \<Rightarrow> bool"
    and ser2 :: "'r \<Rightarrow> ostream \<Rightarrow> (unit, ostream) io"
    and des2 :: "istream \<Rightarrow> ('r, istream) io"
    and code2 :: "'r \<Rightarrow> byte list"
    and valid2 :: "'r \<Rightarrow> bool"
begin

lemma map_laws:
  "checked_serializer (serialize_map ser1 ser2) (deserialize_map des1 des2)
     (code_sequence (code_pair code1 code2)) (valid_map valid1 valid2)"
proof (rule checked_serializerI)
  fix ps :: "('d \<times> 'r) list" assume v: "valid_map valid1 valid2 ps"
  have ok: "list_all (\<lambda>p. valid1 (fst p) \<and> valid2 (snd p)) ps" "length ps < 2 ^ 64" "sorted_wrt (<) (map fst ps)"
    using v by (auto simp: valid_map_def valid_sequence_def valid_pair_def list_all_iff)
  have "writes (serialize_all (\<lambda>i. bind_io (ser1 (fst i)) (\<lambda>_. ser2 (snd i))) ps)
      (concat (map (code_pair code1 code2) ps))"
    using ok(1) unfolding code_pair_def
    by (intro writes_all) (auto simp: list_all_iff intro!: writes_bind A.writes_ser B.writes_ser)
  then show "writes (serialize_map ser1 ser2 ps) (code_sequence (code_pair code1 code2) ps)"
    unfolding serialize_map_def code_sequence_def by blast
  have "reads (store_n des1 des2 (length ps) []) (concat (map (code_pair code1 code2) ps)) ([] @ ps)"
    using ok unfolding code_pair_def
    by (intro reads_store_n) (auto simp: list_all_iff intro!: A.reads_des B.reads_des)
  then show "reads (deserialize_map des1 des2) (code_sequence (code_pair code1 code2) ps) ps"
    unfolding deserialize_map_def code_sequence_def using reads_size [OF ok(2)] by auto
qed

end

section \<open>One element type\<close>

context checked_serializer begin

lemma sequence_laws:
  "checked_serializer (serialize_sequence what ser) (deserialize_sequence what des)
     (code_sequence code) (valid_sequence valid)"
proof (rule checked_serializerI)
  fix xs :: "'a list" assume "valid_sequence valid xs"
  then have ok: "list_all valid xs" "length xs < 2 ^ 64" by (simp_all add: valid_sequence_def)
  have "writes (serialize_all ser xs) (concat (map code xs))"
    using ok(1) by (intro writes_all) (auto simp: list_all_iff writes_ser)
  then show "writes (serialize_sequence what ser xs) (code_sequence code xs)"
    unfolding serialize_sequence_def code_sequence_def by blast
  have "reads (deserialize_n des (length xs)) (concat (map code xs)) xs"
    using ok(1) by (intro reads_n) (auto simp: list_all_iff reads_des)
  then show "reads (deserialize_sequence what des) (code_sequence code xs) xs"
    unfolding deserialize_sequence_def code_sequence_def using reads_size [OF ok(2)] by auto
qed

lemma complex_laws:
  "checked_serializer (serialize_complex ser) (deserialize_complex des)
     (code_pair code code) (valid_pair valid valid)"
proof (rule checked_serializerI)
  fix p assume "valid_pair valid valid p"
  then have ok: "valid (fst p)" "valid (snd p)" by (simp_all add: valid_pair_def)
  show "writes (serialize_complex ser p) (code_pair code code p)"
    unfolding serialize_complex_def code_pair_def using writes_ser ok by blast
  have "reads (bind_io des (\<lambda>y. Returned (fst p, y))) (code (snd p)) p"
    by (rule reads_map [OF reads_des [OF ok(2)]]) simp
  then show "reads (deserialize_complex des) (code_pair code code p) p"
    unfolding deserialize_complex_def code_pair_def using reads_des ok by blast
qed

end

lemma set_laws:
  fixes valid :: "'a::linorder \<Rightarrow> bool"
  assumes "checked_serializer ser des code valid"
  shows "checked_serializer (serialize_set ser) (deserialize_set des) (code_sequence code)
    (\<lambda>xs. valid_sequence valid xs \<and> sorted_wrt (<) xs)"
proof (rule checked_serializerI)
  fix xs assume "valid_sequence valid xs \<and> sorted_wrt (<) xs"
  then have ok: "list_all valid xs" "length xs < 2 ^ 64" "sorted_wrt (<) xs" by (simp_all add: valid_sequence_def)
  have "writes (serialize_all ser xs) (concat (map code xs))"
    using ok(1) checked_serializer.writes_ser [OF assms] by (intro writes_all) (auto simp: list_all_iff)
  then show "writes (serialize_set ser xs) (code_sequence code xs)"
    unfolding serialize_set_def code_sequence_def by blast
  have "reads (insert_n des (length xs) []) (concat (map code xs)) ([] @ xs)"
    using ok(1,3) checked_serializer.reads_des [OF assms] by (intro reads_insert_n) (auto simp: list_all_iff)
  then show "reads (deserialize_set des) (code_sequence code xs) xs"
    unfolding deserialize_set_def code_sequence_def using reads_size [OF ok(2)] by auto
qed

section \<open>Vectors of bytes and of truth values\<close>

text \<open>
  The overloads for \<open>vector<char>\<close> and \<open>vector<unsigned char>\<close> write and read all bytes at once and
  do not look at the stream afterwards. \<open>resize\<close> fills the vector with zeros.
\<close>

definition serialize_chars :: "byte list \<Rightarrow> ostream \<Rightarrow> (unit, ostream) io" where
  "serialize_chars item =
     rethrow ''serializing object of type std::vector''
       (bind_io (serialize_size (length item))
          (\<lambda>_ out. Returned () (if length item \<noteq> 0 then ostream_write item out else out)))"

definition deserialize_chars :: "istream \<Rightarrow> (byte list, istream) io" where
  "deserialize_chars =
     rethrow ''deserializing object of type std::vector''
       (bind_io deserialize_size (\<lambda>n i.
          if n \<noteq> 0 then let (i, bs) = istream_read n i in Returned (bs @ replicate (n - length bs) 0) i
          else Returned [] i))"

definition serialize_bools :: "bool list \<Rightarrow> ostream \<Rightarrow> (unit, ostream) io" where
  "serialize_bools item = serialize_chars (map (\<lambda>b. if b then 49 else 48) item)"

definition deserialize_bools :: "istream \<Rightarrow> (bool list, istream) io" where
  "deserialize_bools = bind_io deserialize_chars (\<lambda>temp. Returned (map (\<lambda>ch. ch = 49) temp))"

lemma serialize_chars_laws:
  "serializer serialize_chars deserialize_chars (\<lambda>bs. code_size (length bs) @ bs) (\<lambda>bs. length bs < 2 ^ 64)"
proof
  fix bs :: "byte list" and out :: ostream and rest :: "byte list"
  assume len: "length bs < 2 ^ 64"
  show "serialize_chars bs out = Returned () (put_bytes (code_size (length bs) @ bs) out)"
    if "\<not> out_bad out" "length (code_size (length bs) @ bs) \<le> room out"
  proof -
    have "serialize_size (length bs) out = Returned () (put_bytes (code_size (length bs)) out)"
      using that by (intro writesD(1) [OF writes_size]) auto
    with that show ?thesis by (auto simp: serialize_chars_def ostream_write_fits)
  qed
  show "deserialize_chars (holding ((code_size (length bs) @ bs) @ rest)) = Returned bs (holding rest)"
    using readsD(1) [OF reads_size [OF len], of "bs @ rest"] by (auto simp: deserialize_chars_def)
qed

lemma serialize_bools_laws:
  "serializer serialize_bools deserialize_bools
     (\<lambda>bs. code_size (length bs) @ map (\<lambda>b. if b then 49 else 48) bs) (\<lambda>bs. length bs < 2 ^ 64)"
proof -
  note laws = serialize_chars_laws
  have inv: "map (\<lambda>ch. ch = (49 :: byte)) (map (\<lambda>b. if b then 49 else 48) bs) = bs" for bs
    by (induction bs) auto
  show ?thesis
  proof
    fix bs :: "bool list" and out :: ostream and rest :: "byte list"
    let ?cs = "map (\<lambda>b. if b then 49 else (48 :: byte)) bs"
    assume len: "length bs < 2 ^ 64"
    show "serialize_bools bs out = Returned () (put_bytes (code_size (length bs) @ ?cs) out)"
      if "\<not> out_bad out" "length (code_size (length bs) @ ?cs) \<le> room out"
      using serializer.ser_writes [OF laws, of ?cs out] len that by (simp add: serialize_bools_def)
    show "deserialize_bools (holding ((code_size (length bs) @ ?cs) @ rest)) = Returned bs (holding rest)"
      using serializer.des_reads [OF laws, of ?cs rest] len inv by (simp add: deserialize_bools_def)
  qed
qed

section \<open>Strings\<close>

definition serialize_string :: "byte list \<Rightarrow> ostream \<Rightarrow> (unit, ostream) io" where
  "serialize_string item =
     bind_io (rethrow ''serializing object of type std::string'' (serialize_size (length item)))
       (\<lambda>_ out. let out = ostream_write item out
                in if out_bad out then Thrown (ser_error ''std::string'') out else Returned () out)"

definition deserialize_string :: "istream \<Rightarrow> (byte list, istream) io" where
  "deserialize_string =
     bind_io (rethrow ''deserializing object of type std::string'' deserialize_size) (\<lambda>n i.
       if n \<noteq> 0
       then let (i, bs) = istream_read n i
            in if in_bad i then Thrown (des_error ''std::string'') i else Returned bs i
       else Returned [] i)"

text \<open>\<open>std::wstring\<close> and \<open>ustring\<close>: the elements are written one by one.\<close>

definition serialize_wide ::
  "string \<Rightarrow> ('a \<Rightarrow> ostream \<Rightarrow> (unit, ostream) io) \<Rightarrow> 'a list \<Rightarrow> ostream \<Rightarrow> (unit, ostream) io" where
  "serialize_wide what ser item =
     bind_io (rethrow (''serializing object of type '' @ what) (serialize_size (length item)))
       (\<lambda>_. bind_io (serialize_all ser item)
          (\<lambda>_ out. if out_bad out then Thrown (ser_error what) out else Returned () out))"

definition deserialize_wide :: "string \<Rightarrow> (istream \<Rightarrow> ('a, istream) io) \<Rightarrow> istream \<Rightarrow> ('a list, istream) io" where
  "deserialize_wide what des =
     bind_io (rethrow (''deserializing object of type '' @ what) deserialize_size)
       (\<lambda>n. bind_io (deserialize_n des n)
          (\<lambda>item i. if in_bad i then Thrown (des_error what) i else Returned item i))"

definition serialize_wstring :: "32 word list \<Rightarrow> ostream \<Rightarrow> (unit, ostream) io" where
  "serialize_wstring = serialize_wide ''std::wstring'' (serialize_signed ''wchar_t'')"

definition deserialize_wstring :: "istream \<Rightarrow> (32 word list, istream) io" where
  "deserialize_wstring = deserialize_wide ''std::wstring'' (deserialize_signed ''wchar_t'')"

definition serialize_ustring :: "32 word list \<Rightarrow> ostream \<Rightarrow> (unit, ostream) io" where
  "serialize_ustring = serialize_wide ''ustring'' (serialize_unsigned ''unsigned int'')"

definition deserialize_ustring :: "istream \<Rightarrow> (32 word list, istream) io" where
  "deserialize_ustring = deserialize_wide ''ustring'' (deserialize_unsigned ''unsigned int'')"

lemma writes_write:
  "writes (\<lambda>out. let out = ostream_write c out in if out_bad out then Thrown e out else Returned () out) c"
  by (auto simp: writes_def Let_def ostream_write_fits)

lemma reads_read:
  "reads (\<lambda>i. let (i, bs) = istream_read (length c) i in if in_bad i then Thrown e i else Returned bs i) c c"
  unfolding reads_def
proof (intro conjI allI impI)
  fix bs us :: "byte list"
  assume "c = bs @ us" "us \<noteq> []"
  then show "throws (let (i, bs) = istream_read (length c) (holding bs)
      in if in_bad i then Thrown e i else Returned bs i)"
    by (auto simp: istream_read_def sgetn_def)
qed (simp add: Let_def)

lemma string_laws:
  "checked_serializer serialize_string deserialize_string (\<lambda>bs. code_size (length bs) @ bs)
     (\<lambda>bs. length bs < 2 ^ 64)"
proof (rule checked_serializerI)
  fix c :: "byte list" assume len: "length c < 2 ^ 64"
  show "writes (serialize_string c) (code_size (length c) @ c)"
    unfolding serialize_string_def by (intro writes_bind writes_rethrow writes_size writes_write)
  have "reads (\<lambda>i. if length c \<noteq> 0
       then let (i, bs) = istream_read (length c) i
            in if in_bad i then Thrown (des_error ''std::string'') i else Returned bs i
       else Returned [] i) c c"
    using reads_read [of c] reads_Returned [of "[]"] by (cases "c = []") simp_all
  with reads_size [OF len] show "reads deserialize_string (code_size (length c) @ c) c"
    unfolding deserialize_string_def by blast
qed

lemma writes_bind_check:
  assumes "writes m c"
  shows "writes (bind_io m (\<lambda>_ out. if out_bad out then Thrown e out else Returned () out)) c"
proof -
  have "writes (\<lambda>out. if out_bad out then Thrown e out else Returned () out) []" by (simp add: writes_def)
  with assms have "writes (bind_io m (\<lambda>_ out. if out_bad out then Thrown e out else Returned () out)) (c @ [])"
    by (rule writes_bind)
  then show ?thesis by simp
qed

lemma reads_bind_check:
  assumes "reads m c x"
  shows "reads (bind_io m (\<lambda>x i. if in_bad i then Thrown e i else Returned x i)) c x"
proof -
  have "reads (\<lambda>i. if in_bad i then Thrown e i else Returned x i) [] x" by (simp add: reads_def)
  with assms have "reads (bind_io m (\<lambda>x i. if in_bad i then Thrown e i else Returned x i)) (c @ []) x"
    by (rule reads_bind)
  then show ?thesis by simp
qed

context checked_serializer begin

lemma wide_laws:
  "checked_serializer (serialize_wide what ser) (deserialize_wide what des)
     (code_sequence code) (valid_sequence valid)"
proof (rule checked_serializerI)
  fix xs :: "'a list" assume "valid_sequence valid xs"
  then have ok: "list_all valid xs" "length xs < 2 ^ 64" by (simp_all add: valid_sequence_def)
  have "writes (serialize_all ser xs) (concat (map code xs))"
    using ok(1) by (intro writes_all) (auto simp: list_all_iff writes_ser)
  from writes_bind_check [OF this] writes_size show "writes (serialize_wide what ser xs) (code_sequence code xs)"
    unfolding serialize_wide_def code_sequence_def by blast
  have "reads (deserialize_n des (length xs)) (concat (map code xs)) xs"
    using ok(1) by (intro reads_n) (auto simp: list_all_iff reads_des)
  from reads_bind_check [OF this] reads_size [OF ok(2)] show "reads (deserialize_wide what des) (code_sequence code xs) xs"
    unfolding deserialize_wide_def code_sequence_def by blast
qed

end

section \<open>Arrays\<close>

definition serialize_array :: "('a \<Rightarrow> ostream \<Rightarrow> (unit, ostream) io) \<Rightarrow> 'a list \<Rightarrow> ostream \<Rightarrow> (unit, ostream) io" where
  "serialize_array ser array =
     rethrow ''serializing a C style array''
       (bind_io (serialize_size (length array)) (\<lambda>_. serialize_all ser array))"

definition lengths_differ :: string where
  "lengths_differ = ''Error deserializing a C style array, lengths do not match''"

definition deserialize_array :: "nat \<Rightarrow> (istream \<Rightarrow> ('a, istream) io) \<Rightarrow> istream \<Rightarrow> ('a list, istream) io" where
  "deserialize_array len des =
     bind_io (rethrow ''deserializing a C style array''
         (bind_io deserialize_size (\<lambda>n.
            if n = len then bind_io (deserialize_n des len) (\<lambda>xs. Returned (Some xs)) else Returned None)))
       (\<lambda>r. case r of None \<Rightarrow> throw lengths_differ | Some xs \<Rightarrow> Returned xs)"

text \<open>\<open>std::array\<close>, with its overloads for an empty one.\<close>

definition serialize_std_array :: "('a \<Rightarrow> ostream \<Rightarrow> (unit, ostream) io) \<Rightarrow> 'a list \<Rightarrow> ostream \<Rightarrow> (unit, ostream) io" where
  "serialize_std_array ser array = (if length array = 0 then serialize_size 0 else serialize_array ser array)"

definition deserialize_std_array :: "nat \<Rightarrow> (istream \<Rightarrow> ('a, istream) io) \<Rightarrow> istream \<Rightarrow> ('a list, istream) io" where
  "deserialize_std_array len des =
     (if len = 0
      then bind_io deserialize_size (\<lambda>n.
        if n \<noteq> 0 then throw (''Expected std::array of size 0 but found a size of '' @ decimal n) else Returned [])
      else deserialize_array len des)"

text \<open>An array of \<open>char\<close>: the zero at the end of a C string is not written.\<close>

definition write_or_throw :: "string \<Rightarrow> byte list \<Rightarrow> ostream \<Rightarrow> (unit, ostream) io" where
  "write_or_throw e bs out =
     (let out = ostream_write bs out in if out_bad out then Thrown e out else Returned () out)"

definition read_or_throw :: "string \<Rightarrow> nat \<Rightarrow> istream \<Rightarrow> (byte list, istream) io" where
  "read_or_throw e n i =
     (let (i, bs) = istream_read n i in if in_bad i then Thrown e i else Returned bs i)"

definition serialize_char_array :: "byte list \<Rightarrow> ostream \<Rightarrow> (unit, ostream) io" where
  "serialize_char_array array =
     (if length array \<noteq> 0 \<and> array ! (length array - 1) = 0
      then bind_io (serialize_size (length array - 1))
             (\<lambda>_. write_or_throw ''Error serializing a C-style string'' (take (length array - 1) array))
      else bind_io (rethrow ''serializing a C style array'' (serialize_size (length array)))
             (\<lambda>_. write_or_throw ''Error serializing a C-style string'' array))"

definition deserialize_char_array :: "nat \<Rightarrow> istream \<Rightarrow> (byte list, istream) io" where
  "deserialize_char_array len =
     bind_io (rethrow ''deserializing a C style array'' deserialize_size) (\<lambda>n.
       if n = len then read_or_throw ''Error deserializing a C-style array'' n
       else if n + 1 = len
       then bind_io (read_or_throw ''Error deserializing a C-style string'' n) (\<lambda>bs. Returned (bs @ [0]))
       else throw lengths_differ)"

definition code_char_array :: "byte list \<Rightarrow> byte list" where
  "code_char_array array =
     (if last array = 0 then code_size (length array - 1) @ butlast array else code_size (length array) @ array)"

lemma writes_or_throw [intro]: "writes (write_or_throw e bs) bs"
  using writes_write [of bs e] by (simp add: write_or_throw_def [abs_def])

lemma reads_or_throw [intro]: "reads (read_or_throw e (length bs)) bs bs"
  using reads_read [of bs e] by (simp add: read_or_throw_def [abs_def])

context checked_serializer begin

lemma array_laws:
  "checked_serializer (serialize_array ser) (deserialize_array n des) (code_sequence code)
     (\<lambda>xs. length xs = n \<and> valid_sequence valid xs)"
proof (rule checked_serializerI)
  fix xs assume "length xs = n \<and> valid_sequence valid xs"
  then have ok: "length xs = n" "list_all valid xs" "length xs < 2 ^ 64" by (simp_all add: valid_sequence_def)
  have "writes (serialize_all ser xs) (concat (map code xs))"
    using ok(2) by (intro writes_all) (auto simp: list_all_iff writes_ser)
  then show "writes (serialize_array ser xs) (code_sequence code xs)"
    unfolding serialize_array_def code_sequence_def by blast
  have "reads (deserialize_n des n) (concat (map code xs)) xs"
    using reads_n [of des code xs] ok by (auto simp: list_all_iff reads_des)
  then have "reads (bind_io (deserialize_n des n) (\<lambda>xs. Returned (Some xs))) (concat (map code xs)) (Some xs)"
    by (rule reads_map) simp
  then have "reads (if length xs = n then bind_io (deserialize_n des n) (\<lambda>xs. Returned (Some xs)) else Returned None)
      (concat (map code xs)) (Some xs)"
    using ok(1) by simp
  with reads_size [OF ok(3)]
  have "reads (bind_io deserialize_size (\<lambda>k. if k = n then bind_io (deserialize_n des n) (\<lambda>xs. Returned (Some xs))
      else Returned None)) (code_size (length xs) @ concat (map code xs)) (Some xs)"
    by (rule reads_bind)
  from reads_rethrow [OF this] show "reads (deserialize_array n des) (code_sequence code xs) xs"
    unfolding deserialize_array_def code_sequence_def by (rule reads_map) simp
qed

end

lemma char_array_laws:
  assumes "n \<noteq> 0"
  shows "checked_serializer serialize_char_array (deserialize_char_array n) code_char_array
    (\<lambda>xs. length xs = n \<and> n < 2 ^ 64)"
proof (rule checked_serializerI)
  fix xs :: "byte list" assume "length xs = n \<and> n < 2 ^ 64"
  then have len: "length xs = n" "n < 2 ^ 64" "xs \<noteq> []" using assms by auto
  note butlast = butlast_conv_take [of xs] last_conv_nth [OF len(3)] append_butlast_last_id [OF len(3)]
  show "writes (serialize_char_array xs) (code_char_array xs)"
    using len butlast by (cases "last xs = 0") (auto simp: serialize_char_array_def code_char_array_def)
  show "reads (deserialize_char_array n) (code_char_array xs) xs"
  proof (cases "last xs = 0")
    case True
    have "reads (bind_io (read_or_throw ''Error deserializing a C-style string'' (length (butlast xs)))
        (\<lambda>bs. Returned (bs @ [0]))) (butlast xs) xs"
      using reads_or_throw by (rule reads_map) (use butlast True in simp)
    moreover have "reads deserialize_size (code_size (n - 1)) (n - 1)" using len by (intro reads_size) simp
    ultimately show ?thesis
      using True len assms unfolding deserialize_char_array_def code_char_array_def
      by (cases n) (auto intro!: reads_bind [where x = "n - 1"])
  next
    case False
    have "reads (read_or_throw ''Error deserializing a C-style array'' n) xs xs"
      using reads_or_throw [of _ xs] len by simp
    moreover have "reads deserialize_size (code_size n) n" using len by (intro reads_size) simp
    ultimately show ?thesis
      using False len unfolding deserialize_char_array_def code_char_array_def
      by (auto intro!: reads_bind [where x = n])
  qed
qed

section \<open>Files\<close>

record proxy_deserialize =
  objects_read :: nat
  filename :: string
  fin :: istream
  file_header :: "byte list"

text \<open>
  \<open>file\<close> is what the file holds, if it can be opened, \<open>device\<close> the room on the device.
\<close>

definition proxy_serialize :: "string \<Rightarrow> nat option \<Rightarrow> string + ostream" where
  "proxy_serialize name device =
     (case device of None \<Rightarrow> Inl (''Unable to open '' @ name @ '' for writing.'')
      | Some n \<Rightarrow> Inr \<lparr>sink = [], room = n, out_bad = False\<rparr>)"

definition open_deserialize :: "string \<Rightarrow> byte list option \<Rightarrow> string + proxy_deserialize" where
  "open_deserialize name file =
     (case file of None \<Rightarrow> Inl (''Unable to open '' @ name @ '' for reading.'')
      | Some bs \<Rightarrow> Inr \<lparr>objects_read = 0, filename = name, fin = holding bs,
                       file_header = take 4 bs @ replicate (4 - length bs) 0\<rparr>)"

definition looks_like_a_compressed_file :: "proxy_deserialize \<Rightarrow> bool" where
  "looks_like_a_compressed_file p \<longleftrightarrow>
     file_header p ! 0 = 66 \<and> file_header p ! 1 = 90 \<and> file_header p ! 2 = 104 \<and>
     48 \<le> file_header p ! 3 \<and> file_header p ! 3 \<le> 57"

definition proxy_error :: "proxy_deserialize \<Rightarrow> string \<Rightarrow> string" where
  "proxy_error p e =
     (let suffix = (if looks_like_a_compressed_file p
            then CHR 0x0A # '' *** THIS LOOKS LIKE A COMPRESSED FILE.  DID YOU FORGET TO DECOMPRESS IT? *** '' @ [CHR 0x0A]
            else []);
          which = (if objects_read p = 0 then ''first'' else if objects_read p = 1 then ''second''
                   else if objects_read p = 2 then ''third'' else decimal (objects_read p + 1) @ ''th'')
      in ''An error occurred while trying to read the '' @ which @ '' object from the file '' @ filename p @
         ''.'' @ CHR 0x0A # ''ERROR: '' @ e @ CHR 0x0A # suffix)"

definition proxy_read :: "(istream \<Rightarrow> ('a, istream) io) \<Rightarrow> proxy_deserialize \<Rightarrow> ('a, proxy_deserialize) io" where
  "proxy_read des p =
     (case (if in_bad (fin p) \<or> source (fin p) = []
            then Thrown ''No more objects were in the file!'' (fin p) else des (fin p)) of
        Returned x i \<Rightarrow> Returned x (p\<lparr>fin := i, objects_read := objects_read p + 1\<rparr>)
      | Thrown e i \<Rightarrow> Thrown (proxy_error p e) (p\<lparr>fin := i\<rparr>)
      | Undef \<Rightarrow> Undef)"

section \<open>The types of the library\<close>

interpretation strings: checked_serializer serialize_string deserialize_string
  "\<lambda>bs. code_size (length bs) @ bs" "\<lambda>bs. length bs < 2 ^ 64"
  by (rule string_laws)

interpretation string_vectors: checked_serializer "serialize_vector serialize_string" "deserialize_vector deserialize_string"
  "code_sequence (\<lambda>bs. code_size (length bs) @ bs)" "valid_sequence (\<lambda>bs. length bs < 2 ^ 64)"
  unfolding serialize_vector_def deserialize_vector_def by (rule strings.sequence_laws)

interpretation long_deques: checked_serializer "serialize_deque serialize_long" "deserialize_deque deserialize_long"
  "code_sequence code_signed" "valid_sequence negatable"
  unfolding serialize_deque_def deserialize_deque_def by (rule long.sequence_laws)

interpretation wstrings: checked_serializer serialize_wstring deserialize_wstring
  "code_sequence code_signed" "valid_sequence negatable"
  unfolding serialize_wstring_def deserialize_wstring_def
  by (rule checked_serializer.wide_laws [OF serialize_signed_laws]) (simp add: int_width_def)

interpretation ustrings: checked_serializer serialize_ustring deserialize_ustring
  "code_sequence code_unsigned" "valid_sequence (\<lambda>x. True)"
  unfolding serialize_ustring_def deserialize_ustring_def
  by (rule checked_serializer.wide_laws [OF serialize_unsigned_laws]) (simp add: int_width_def)

interpretation char_vectors: serializer serialize_chars deserialize_chars
  "\<lambda>bs. code_size (length bs) @ bs" "\<lambda>bs. length bs < 2 ^ 64"
  by (rule serialize_chars_laws)

interpretation bool_vectors: serializer serialize_bools deserialize_bools
  "\<lambda>bs. code_size (length bs) @ map (\<lambda>b. if b then 49 else 48) bs" "\<lambda>bs. length bs < 2 ^ 64"
  by (rule serialize_bools_laws)

interpretation string_maps: keyed_serializers serialize_ulong deserialize_ulong code_unsigned "\<lambda>x. True"
  "serialize_vector serialize_string" "deserialize_vector deserialize_string"
  "code_sequence (\<lambda>bs. code_size (length bs) @ bs)" "valid_sequence (\<lambda>bs. length bs < 2 ^ 64)" ..

section \<open>Properties\<close>

text \<open>
  A \<open>std::map<unsigned long, std::vector<std::string>>\<close> is written as a string of bytes, or the call throws if
  the stream does not take them all; reading these bytes returns the map and leaves what follows
  them, and reading a proper part of them throws.
\<close>

lemma map_round_trip:
  assumes "sorted_wrt (<) (map fst ps)" "length ps < 2 ^ 64"
    and "list_all (\<lambda>(d, ss). length ss < 2 ^ 64 \<and> list_all (\<lambda>s. length s < 2 ^ 64) ss) ps"
  shows "\<exists>bs. writes (serialize_map serialize_ulong (serialize_vector serialize_string) ps) bs \<and>
    reads (deserialize_map deserialize_ulong (deserialize_vector deserialize_string)) bs ps"
proof -
  have "valid_map (\<lambda>x. True) (valid_sequence (\<lambda>bs. length bs < 2 ^ 64)) ps"
    using assms by (auto simp: valid_map_def valid_sequence_def valid_pair_def list_all_iff)
  then show ?thesis
    using checked_serializer.writes_ser [OF string_maps.map_laws]
      checked_serializer.reads_des [OF string_maps.map_laws] by blast
qed

lemma map_round_trip_witness:
  "\<exists>bs. writes (serialize_map serialize_ulong (serialize_vector serialize_string) [(1, [[97], []]), (300, [])]) bs \<and>
    reads (deserialize_map deserialize_ulong (deserialize_vector deserialize_string)) bs [(1, [[97], []]), (300, [])]"
  by (rule map_round_trip) simp_all

text \<open>
  A \<open>std::vector<char>\<close> whose bytes are cut off in the stream is not reported: \<open>deserialize\<close> returns the
  bytes that were there, followed by zeros, and only the stream's state tells that something is wrong.
\<close>

theorem chars_truncated:
  assumes "length bs < 2 ^ 64" "n < length bs"
  shows "deserialize_chars (holding (code_size (length bs) @ take n bs)) =
    Returned (take n bs @ replicate (length bs - n) 0) \<lparr>source = [], in_bad = True\<rparr>"
proof -
  have "deserialize_size (holding (code_size (length bs) @ take n bs)) =
      Returned (length bs) (holding (take n bs))"
    using assms(1) by (intro readsD(1) reads_size)
  with assms(2) show ?thesis by (auto simp: deserialize_chars_def istream_read_def sgetn_def)
qed

theorem chars_truncated_witness:
  "deserialize_chars (holding (code_size 3 @ [7])) = Returned [7, 0, 0] \<lparr>source = [], in_bad = True\<rparr>"
proof -
  have "deserialize_chars (holding (code_size (length [7, 8, 9 :: byte]) @ take 1 [7, 8, 9])) =
      Returned (take 1 [7, 8, 9] @ replicate (length [7, 8, 9 :: byte] - 1) 0) \<lparr>source = [], in_bad = True\<rparr>"
    by (rule chars_truncated) simp_all
  moreover have "length [7, 8, 9 :: byte] = 3" by simp
  ultimately show ?thesis by (simp only:) (simp add: numeral_2_eq_2)
qed

lemma deserialize_n_proxy:
  assumes "list_all (\<lambda>x. reads des (code x) x \<and> code x \<noteq> []) xs" "fin p = holding (concat (map code xs))"
  shows "\<exists>p'. deserialize_n (proxy_read des) (length xs) p = Returned xs p' \<and> fin p' = holding [] \<and>
    objects_read p' = objects_read p + length xs"
  using assms
proof (induction xs arbitrary: p)
  case (Cons x xs)
  have "fin p = holding (code x @ concat (map code xs))" using Cons.prems(2) by simp
  with Cons.prems(1) readsD(1) [of des "code x" x "concat (map code xs)"]
  have "proxy_read des p = Returned x (p\<lparr>fin := holding (concat (map code xs)), objects_read := objects_read p + 1\<rparr>)"
    by (simp add: proxy_read_def)
  with Cons.IH [of "p\<lparr>fin := holding (concat (map code xs)), objects_read := objects_read p + 1\<rparr>"] Cons.prems(1)
  show ?case by auto
qed simp

text \<open>
  Strings written to a file one after the other with \<open>serialize(filename) << ...\<close> come back in order from
  \<open>deserialize(filename) >> ...\<close>, as many as were written; the next \<open>>>\<close> throws.
\<close>

theorem file_round_trip:
  assumes "list_all (\<lambda>s. length s < 2 ^ 64) xs"
    and "proxy_serialize name (Some n) = Inr out" "serialize_all serialize_string xs out = Returned () out'"
  shows "\<exists>p p'. open_deserialize name (Some (sink out')) = Inr p \<and>
    deserialize_n (proxy_read deserialize_string) (length xs) p = Returned xs p' \<and>
    objects_read p' = length xs \<and> throws (proxy_read deserialize_string p')"
proof -
  let ?code = "\<lambda>s. code_size (length s) @ s"
  have w: "writes (serialize_all serialize_string xs) (concat (map ?code xs))"
    using assms(1) by (intro writes_all) (auto simp: list_all_iff strings.writes_ser)
  have out: "out = \<lparr>sink = [], room = n, out_bad = False\<rparr>"
    using assms(2) by (simp add: proxy_serialize_def)
  have sink: "sink out' = concat (map ?code xs)"
    using writesD [OF w, of out] assms(3) out by (cases "length (concat (map ?code xs)) \<le> n") auto
  let ?p = "\<lparr>objects_read = 0, filename = name, fin = holding (sink out'),
    file_header = take 4 (sink out') @ replicate (4 - length (sink out')) 0\<rparr>"
  have p: "open_deserialize name (Some (sink out')) = Inr ?p" by (simp add: open_deserialize_def)
  have "list_all (\<lambda>s. reads deserialize_string (?code s) s \<and> ?code s \<noteq> []) xs"
    using assms(1) by (auto simp: list_all_iff code_size_bounds intro!: strings.reads_des)
  from deserialize_n_proxy [OF this, of ?p] sink obtain p' where
    p': "deserialize_n (proxy_read deserialize_string) (length xs) ?p = Returned xs p'" "fin p' = holding []"
      "objects_read p' = length xs" by auto
  then have "throws (proxy_read deserialize_string p')" by (simp add: proxy_read_def)
  with p p' show ?thesis by blast
qed

theorem file_round_trip_witness:
  "\<exists>out' p p'. serialize_all serialize_string [[104, 105], []] \<lparr>sink = [], room = 100, out_bad = False\<rparr> = Returned () out' \<and>
    open_deserialize ''f'' (Some (sink out')) = Inr p \<and>
    deserialize_n (proxy_read deserialize_string) 2 p = Returned [[104, 105], []] p'"
proof -
  let ?xs = "[[104, 105], []] :: byte list list"
  let ?out = "\<lparr>sink = [], room = 100, out_bad = False\<rparr> :: ostream"
  have ok: "list_all (\<lambda>s. length s < 2 ^ 64) ?xs" by simp
  have dev: "proxy_serialize ''f'' (Some 100) = Inr ?out" by (simp add: proxy_serialize_def)
  have w: "writes (serialize_all serialize_string ?xs) (concat (map (\<lambda>s. code_size (length s) @ s) ?xs))"
    by (intro writes_all, unfold list_all_iff, intro ballI strings.writes_ser) auto
  from code_size_bounds(2) [of 2] code_size_bounds(2) [of 0]
  have "length (concat (map (\<lambda>s. code_size (length s) @ s) ?xs)) \<le> room ?out" by (simp add: numeral_2_eq_2)
  with writesD(1) [OF w, of ?out] obtain out' where
    out': "serialize_all serialize_string ?xs ?out = Returned () out'" by simp
  from file_round_trip [OF ok dev out'] out' show ?thesis by (auto simp: numeral_2_eq_2)
qed

end
