(* ===== verification/Serialize_Containers.thy ===== *)
theory Serialize_Containers
  imports Serialize_Std Set_Clients
begin

text \<open>
  Saving the containers of the library: \<open>serialize\<close> of \<open>enumerable<T>\<close> and \<open>map_pair\<close> in \<open>serialize.h\<close>, which
  walks the enumerator of any container, and the functions \<open>deserialize\<close> of the six container headers. The
  state of these functions is the pair of the container and the stream.
\<close>

section \<open>Writing what an enumerator visits\<close>

text \<open>The loop \<open>while (item.move_next()) serialize(item.element(), out)\<close>, for fewer than \<open>n\<close> elements.\<close>

fun serialize_elements ::
  "('s \<Rightarrow> ('s \<times> bool) option) \<Rightarrow> ('s \<Rightarrow> 'e option) \<Rightarrow> ('e \<Rightarrow> ostream \<Rightarrow> (unit, ostream) io) \<Rightarrow> nat \<Rightarrow>
     's \<times> ostream \<Rightarrow> (unit, 's \<times> ostream) io" where
  "serialize_elements move_next element ser 0 w = Undef"
| "serialize_elements move_next element ser (Suc n) w =
     (case move_next (fst w) of
        None \<Rightarrow> Undef
      | Some (s, go) \<Rightarrow>
          if go
          then case element s of
                 None \<Rightarrow> Undef
               | Some x \<Rightarrow>
                   bind_io (on_stream (ser x)) (\<lambda>_. serialize_elements move_next element ser n) (s, snd w)
          else Returned () (s, snd w))"

definition serialize_enumerable ::
  "('s \<Rightarrow> 's) \<Rightarrow> ('s \<Rightarrow> nat) \<Rightarrow> ('s \<Rightarrow> ('s \<times> bool) option) \<Rightarrow> ('s \<Rightarrow> 'e option) \<Rightarrow>
     ('e \<Rightarrow> ostream \<Rightarrow> (unit, ostream) io) \<Rightarrow> 's \<times> ostream \<Rightarrow> (unit, 's \<times> ostream) io" where
  "serialize_enumerable reset len move_next element ser =
     rethrow ''serializing object of type enumerable''
       (\<lambda>w. bind_io (on_item (\<lambda>s. Some (reset s)))
          (\<lambda>_ w. bind_io (on_stream (serialize_size (len (fst w))))
             (\<lambda>_. bind_io (serialize_elements move_next element ser (len (fst w) + 1))
                (\<lambda>_. on_item (\<lambda>s. Some (reset s)))) w) w)"

definition serialize_map_pair ::
  "('d \<Rightarrow> ostream \<Rightarrow> (unit, ostream) io) \<Rightarrow> ('r \<Rightarrow> ostream \<Rightarrow> (unit, ostream) io) \<Rightarrow>
     'd \<times> 'r \<Rightarrow> ostream \<Rightarrow> (unit, ostream) io" where
  "serialize_map_pair ser1 ser2 item =
     rethrow ''serializing object of type map_pair'' (bind_io (ser1 (fst item)) (\<lambda>_. ser2 (snd item)))"

lemma serialize_elements_enumerated:
  assumes "enumerate_loop mv el (Suc (length xs)) s = Some (xs, s')"
    and "list_all (\<lambda>x. writes (ser x) (code x)) xs"
    and "\<not> out_bad out" "length (concat (map code xs)) \<le> room out"
  shows "serialize_elements mv el ser (Suc (length xs)) (s, out) =
    Returned () (s', put_bytes (concat (map code xs)) out)"
  using assms
proof (induction xs arbitrary: s out)
  case Nil
  then show ?case by (simp add: enumerate_loop_Nil del: enumerate_loop.simps)
next
  case (Cons x xs)
  from Cons.prems(1) obtain s1 where s1: "mv s = Some (s1, True)" "el s1 = Some x"
    "enumerate_loop mv el (Suc (length xs)) s1 = Some (xs, s')"
    by (auto simp: enumerate_loop_Cons simp del: enumerate_loop.simps)
  have "ser x out = Returned () (put_bytes (code x) out)"
    using Cons.prems by (intro writesD(1) [where c = "code x"]) auto
  with s1 Cons.IH [OF s1(3), of "put_bytes (code x) out"] Cons.prems show ?case by simp
qed

section \<open>Reading into a container\<close>

fun add_n :: "(istream \<Rightarrow> ('e, istream) io) \<Rightarrow> ('s \<Rightarrow> 'e \<Rightarrow> 's option) \<Rightarrow> nat \<Rightarrow> 's \<times> istream \<Rightarrow> (unit, 's \<times> istream) io" where
  "add_n des add 0 = Returned ()"
| "add_n des add (Suc n) =
     bind_io (on_stream des) (\<lambda>x. bind_io (on_item (\<lambda>s. add s x)) (\<lambda>_. add_n des add n))"

text \<open>The body the six functions share; \<open>what\<close> is the name of the class in the message.\<close>

definition deserialize_container ::
  "string \<Rightarrow> ('s \<Rightarrow> 's option) \<Rightarrow> ('s \<Rightarrow> 'e \<Rightarrow> 's option) \<Rightarrow> (istream \<Rightarrow> ('e, istream) io) \<Rightarrow>
     's \<times> istream \<Rightarrow> (unit, 's \<times> istream) io" where
  "deserialize_container what clear add des w =
     (case bind_io (on_item clear) (\<lambda>_. bind_io (on_stream deserialize_size) (add_n des add)) w of
        Returned x w \<Rightarrow> Returned x w
      | Undef \<Rightarrow> Undef
      | Thrown e w \<Rightarrow>
          bind_io (on_item clear)
            (\<lambda>_. throw (e @ CHR 0x0A # ''   while deserializing object of type '' @ what)) w)"

definition deserialize_key_value ::
  "(istream \<Rightarrow> ('d, istream) io) \<Rightarrow> (istream \<Rightarrow> ('r, istream) io) \<Rightarrow> istream \<Rightarrow> ('d \<times> 'r, istream) io" where
  "deserialize_key_value des1 des2 = bind_io des1 (\<lambda>d. bind_io des2 (\<lambda>r. Returned (d, r)))"

definition deserialize_bst ::
  "(istream \<Rightarrow> ('d::linorder, istream) io) \<Rightarrow> (istream \<Rightarrow> ('r, istream) io) \<Rightarrow>
     ('d, 'r) bst \<times> istream \<Rightarrow> (unit, ('d, 'r) bst \<times> istream) io" where
  "deserialize_bst des1 des2 =
     deserialize_container ''binary_search_tree_kernel_1'' bst_clear (\<lambda>s (d, r). bst_add s d r)
       (deserialize_key_value des1 des2)"

definition deserialize_hash_table ::
  "('d::linorder \<Rightarrow> 64 word) \<Rightarrow> (istream \<Rightarrow> ('d, istream) io) \<Rightarrow> (istream \<Rightarrow> ('r, istream) io) \<Rightarrow>
     ('d, 'r) hash_table \<times> istream \<Rightarrow> (unit, ('d, 'r) hash_table \<times> istream) io" where
  "deserialize_hash_table hash des1 des2 =
     deserialize_container ''hash_table_kernel_1'' ht_clear (\<lambda>s (d, r). ht_add hash s d r)
       (deserialize_key_value des1 des2)"

definition deserialize_set_kernel_1 ::
  "('s, 't, unit) container_ops \<Rightarrow> (istream \<Rightarrow> ('t, istream) io) \<Rightarrow> 's \<times> istream \<Rightarrow> (unit, 's \<times> istream) io" where
  "deserialize_set_kernel_1 bst = deserialize_container ''set_kernel_1'' (set_clear bst) (set_add bst)"

definition deserialize_hash_set_kernel_1 ::
  "('s, 't, unit) container_ops \<Rightarrow> (istream \<Rightarrow> ('t, istream) io) \<Rightarrow> 's \<times> istream \<Rightarrow> (unit, 's \<times> istream) io" where
  "deserialize_hash_set_kernel_1 tab =
     deserialize_container ''hash_set_kernel_1'' (hash_set_clear tab) (hash_set_add tab)"

definition deserialize_map_kernel_1 ::
  "('s, 'd, 'r) container_ops \<Rightarrow> (istream \<Rightarrow> ('d, istream) io) \<Rightarrow> (istream \<Rightarrow> ('r, istream) io) \<Rightarrow>
     's \<times> istream \<Rightarrow> (unit, 's \<times> istream) io" where
  "deserialize_map_kernel_1 bst des1 des2 =
     deserialize_container ''map_kernel_1'' (map_clear bst) (\<lambda>s (d, r). map_add_pair bst s d r)
       (deserialize_key_value des1 des2)"

definition deserialize_hash_map_kernel_1 ::
  "('s, 'd, 'r) container_ops \<Rightarrow> (istream \<Rightarrow> ('d, istream) io) \<Rightarrow> (istream \<Rightarrow> ('r, istream) io) \<Rightarrow>
     's \<times> istream \<Rightarrow> (unit, 's \<times> istream) io" where
  "deserialize_hash_map_kernel_1 tab des1 des2 =
     deserialize_container ''hash_map_kernel_1'' (hash_map_clear tab) (\<lambda>s (d, r). hash_map_add tab s d r)
       (deserialize_key_value des1 des2)"

section \<open>What reading gives\<close>

text \<open>
  A container that can be cleared and filled: \<open>view\<close> is its abstract value, \<open>empty\<close> the one after
  \<open>clear\<close>, \<open>step\<close> the effect of \<open>add\<close> and \<open>ready\<close> its requires clause.
\<close>

fun all_ready :: "('v \<Rightarrow> 'e \<Rightarrow> bool) \<Rightarrow> ('v \<Rightarrow> 'e \<Rightarrow> 'v) \<Rightarrow> 'v \<Rightarrow> 'e list \<Rightarrow> bool" where
  "all_ready ready step v [] \<longleftrightarrow> True"
| "all_ready ready step v (x # xs) \<longleftrightarrow> ready v x \<and> all_ready ready step (step v x) xs"

locale refill =
  fixes clear :: "'s \<Rightarrow> 's option"
    and add :: "'s \<Rightarrow> 'e \<Rightarrow> 's option"
    and inv :: "'s \<Rightarrow> bool"
    and view :: "'s \<Rightarrow> 'v"
    and empty :: 'v
    and step :: "'v \<Rightarrow> 'e \<Rightarrow> 'v"
    and ready :: "'v \<Rightarrow> 'e \<Rightarrow> bool"
  assumes clear_ok: "inv s \<Longrightarrow> \<exists>s'. clear s = Some s' \<and> inv s' \<and> view s' = empty"
    and add_ok: "inv s \<Longrightarrow> ready (view s) x \<Longrightarrow> \<exists>s'. add s x = Some s' \<and> inv s' \<and> view s' = step (view s) x"
begin

lemma add_n_reads:
  "inv s \<Longrightarrow> all_ready ready step (view s) xs \<Longrightarrow> list_all (\<lambda>x. reads des (code x) x) xs \<Longrightarrow>
     \<exists>s'. add_n des add (length xs) (s, holding (concat (map code xs) @ rest)) = Returned () (s', holding rest) \<and>
       inv s' \<and> view s' = foldl step (view s) xs"
proof (induction xs arbitrary: s)
  case (Cons x xs)
  from add_ok Cons.prems obtain s1 where s1: "add s x = Some s1" "inv s1" "view s1 = step (view s) x" by auto
  have "des (holding (code x @ concat (map code xs) @ rest)) = Returned x (holding (concat (map code xs) @ rest))"
    using Cons.prems by (intro readsD(1)) simp
  with s1 Cons.IH [of s1] Cons.prems show ?case by simp
qed simp

lemma add_n_truncated:
  "inv s \<Longrightarrow> all_ready ready step (view s) xs \<Longrightarrow> list_all (\<lambda>x. reads des (code x) x) xs \<Longrightarrow>
     concat (map code xs) = bs @ us \<Longrightarrow> us \<noteq> [] \<Longrightarrow>
     \<exists>e s' i. add_n des add (length xs) (s, holding bs) = Thrown e (s', i) \<and> inv s'"
proof (induction xs arbitrary: s bs)
  case (Cons x xs)
  from add_ok Cons.prems obtain s1 where s1: "add s x = Some s1" "inv s1" "view s1 = step (view s) x" by auto
  have r: "reads des (code x) x" using Cons.prems by simp
  have eq: "code x @ concat (map code xs) = bs @ us" using Cons.prems(4) by simp
  then obtain vs where "code x = bs @ vs \<and> vs @ concat (map code xs) = us \<or>
      code x @ vs = bs \<and> concat (map code xs) = vs @ us"
    unfolding append_eq_append_conv2 by blast
  then consider (inside) "code x = bs @ vs" "vs \<noteq> []" | (behind) vs where "bs = code x @ vs" "concat (map code xs) = vs @ us"
    using Cons.prems(5) by (cases "vs = []") auto
  then show ?case
  proof cases
    case inside
    with readsD(2) [OF r] have "throws (des (holding bs))" by blast
    then obtain e i where "des (holding bs) = Thrown e i" by (auto simp: throws_def)
    with Cons.prems(1) show ?thesis by simp
  next
    case behind
    have "des (holding bs) = Returned x (holding vs)" unfolding behind by (rule readsD(1) [OF r])
    with s1 Cons.IH [of s1 vs] Cons.prems behind show ?thesis by simp
  qed
qed simp

lemma deserialize_reads:
  assumes "inv s" "all_ready ready step empty xs" "length xs < 2 ^ 64" "list_all (\<lambda>x. reads des (code x) x) xs"
  shows "\<exists>s'. deserialize_container what clear add des (s, holding (code_sequence code xs @ rest)) =
      Returned () (s', holding rest) \<and> inv s' \<and> view s' = foldl step empty xs"
proof -
  from clear_ok [OF assms(1)] obtain s0 where s0: "clear s = Some s0" "inv s0" "view s0 = empty" by blast
  have "deserialize_size (holding (code_size (length xs) @ concat (map code xs) @ rest)) =
      Returned (length xs) (holding (concat (map code xs) @ rest))"
    by (rule readsD(1) [OF reads_size [OF assms(3)]])
  with s0 add_n_reads [OF s0(2) _ assms(4), of rest] assms(2) show ?thesis
    by (auto simp: deserialize_container_def code_sequence_def)
qed

lemma deserialize_truncated:
  assumes "inv s" "all_ready ready step empty xs" "length xs < 2 ^ 64" "list_all (\<lambda>x. reads des (code x) x) xs"
    and "code_sequence code xs = bs @ us" "us \<noteq> []"
  shows "\<exists>e s' i. deserialize_container what clear add des (s, holding bs) = Thrown e (s', i) \<and>
    inv s' \<and> view s' = empty"
proof -
  from clear_ok [OF assms(1)] obtain s0 where s0: "clear s = Some s0" "inv s0" "view s0 = empty" by blast
  note size = reads_size [OF assms(3)]
  have "\<exists>e s1 i. bind_io (on_stream deserialize_size) (add_n des add) (s0, holding bs) = Thrown e (s1, i) \<and> inv s1"
  proof -
    obtain vs where "code_size (length xs) = bs @ vs \<and> vs @ concat (map code xs) = us \<or>
        code_size (length xs) @ vs = bs \<and> concat (map code xs) = vs @ us"
      using assms(5) unfolding code_sequence_def append_eq_append_conv2 by blast
    then consider (inside) "code_size (length xs) = bs @ vs" "vs \<noteq> []"
      | (behind) vs where "bs = code_size (length xs) @ vs" "concat (map code xs) = vs @ us"
      using assms(6) by (cases "vs = []") auto
    then show ?thesis
    proof cases
      case inside
      with readsD(2) [OF size] have "throws (deserialize_size (holding bs))" by blast
      then obtain e i where "deserialize_size (holding bs) = Thrown e i" by (auto simp: throws_def)
      with s0(2) show ?thesis by simp
    next
      case behind
      have "deserialize_size (holding bs) = Returned (length xs) (holding vs)"
        unfolding behind by (rule readsD(1) [OF size])
      with add_n_truncated [OF s0(2) _ assms(4) behind(2) assms(6)] s0(3) assms(2) show ?thesis by simp
    qed
  qed
  then obtain e s1 i where e: "bind_io (on_stream deserialize_size) (add_n des add) (s0, holding bs) = Thrown e (s1, i)"
    "inv s1" by blast
  from clear_ok [OF e(2)] obtain s2 where "clear s1 = Some s2" "inv s2" "view s2 = empty" by blast
  with s0 e show ?thesis by (simp add: deserialize_container_def throw_def)
qed

end

lemma all_ready_True: "all_ready (\<lambda>v x. True) step v xs"
  by (induction xs arbitrary: v) auto

lemma all_ready_distinct: "all_ready (\<lambda>A x. x \<notin> A) (\<lambda>A x. insert x A) A xs \<longleftrightarrow> distinct xs \<and> set xs \<inter> A = {}"
  by (induction xs arbitrary: A) auto

lemma foldl_insert: "foldl (\<lambda>A x. insert x A) A xs = A \<union> set xs"
  by (induction xs arbitrary: A) auto

lemma foldl_add_mset: "foldl (\<lambda>m x. add_mset x m) m xs = m + mset xs"
  by (induction xs arbitrary: m) auto

lemma all_ready_keys:
  "all_ready (\<lambda>m p. fst p \<notin> dom m) (\<lambda>m p. m(fst p \<mapsto> snd p)) m ps \<longleftrightarrow>
     distinct (map fst ps) \<and> fst ` set ps \<inter> dom m = {}"
  by (induction ps arbitrary: m) auto

lemma foldl_upd: "distinct (map fst ps) \<Longrightarrow> foldl (\<lambda>m p. m(fst p \<mapsto> snd p)) m ps = m ++ map_of ps"
proof (induction ps arbitrary: m)
  case (Cons p ps)
  then have "fst p \<notin> dom (map_of ps)" by (simp add: dom_map_of_conv_image_fst)
  with Cons show ?case by (simp add: map_add_upd_left del: fun_upd_apply)
qed simp

sublocale pair_container \<subseteq> filled: refill "c_clear ops" "\<lambda>s (d, r). c_add ops s d r" inv contents
    "{#}" "\<lambda>m p. add_mset p m" "\<lambda>m p. True"
  using clear_spec add_spec by unfold_locales auto

sublocale set_container \<subseteq> filled: refill "s_clear ops" "s_add ops" inv elems
    "{}" "\<lambda>A x. insert x A" "\<lambda>A x. x \<notin> A"
  using clear_spec add_spec by unfold_locales auto

sublocale map_container \<subseteq> filled: refill "m_clear ops" "\<lambda>s (d, r). m_add ops s d r" inv lookup
    Map.empty "\<lambda>m p. m(fst p \<mapsto> snd p)" "\<lambda>m p. fst p \<notin> dom m"
proof
  fix s and x :: "'d \<times> 'r"
  assume "inv s"
  then show "\<exists>s'. m_clear ops s = Some s' \<and> inv s' \<and> lookup s' = Map.empty" by (rule clear_spec)
  assume "fst x \<notin> dom (lookup s)"
  from add_spec [OF \<open>inv s\<close> this, of "snd x"]
  show "\<exists>s'. (case x of (d, r) \<Rightarrow> m_add ops s d r) = Some s' \<and> inv s' \<and> lookup s' = (lookup s)(fst x \<mapsto> snd x)"
    by (simp add: case_prod_unfold)
qed

section \<open>What writing gives\<close>

context set_container begin

lemma serialize_writes:
  assumes "inv s" "capacity s" "\<forall>x \<in> elems s. writes (ser x) (code x)"
  shows "\<exists>xs s'. set xs = elems s \<and> distinct xs \<and> inv s' \<and> elems s' = elems s \<and>
    (\<forall>out. \<not> out_bad out \<longrightarrow> length (code_sequence code xs) \<le> room out \<longrightarrow>
      serialize_enumerable (s_reset ops) (s_size ops) (s_move_next ops) (s_element ops) ser (s, out) =
        Returned () (s', put_bytes (code_sequence code xs) out))"
proof -
  from enumerate_spec [OF assms(1,2)] obtain xs s1 where xs:
    "s_enumerate ops (Suc (card (elems s))) s = Some (xs, s1)" "inv s1" "elems s1 = elems s"
    "set xs = elems s" "distinct xs" by blast
  then have len: "length xs = card (elems s)" by (metis distinct_card)
  have n: "s_size ops (s_reset ops s) = length xs" using len assms(1) by (simp add: size_reset)
  have loop: "serialize_elements (s_move_next ops) (s_element ops) ser (Suc (length xs)) (s_reset ops s, out) =
      Returned () (s1, put_bytes (concat (map code xs)) out)"
    if "\<not> out_bad out" "length (concat (map code xs)) \<le> room out" for out
    using xs assms(3) len that by (intro serialize_elements_enumerated) (auto simp: list_all_iff simp del: enumerate_loop.simps)
  have "serialize_enumerable (s_reset ops) (s_size ops) (s_move_next ops) (s_element ops) ser (s, out) =
      Returned () (s_reset ops s1, put_bytes (code_sequence code xs) out)"
    if "\<not> out_bad out" "length (code_sequence code xs) \<le> room out" for out
  proof -
    have "serialize_size (length xs) out = Returned () (put_bytes (code_size (length xs)) out)"
      using that by (intro writesD(1) [OF writes_size]) (auto simp: code_sequence_def)
    with loop [of "put_bytes (code_size (length xs)) out"] that n show ?thesis
      by (simp add: serialize_enumerable_def code_sequence_def)
  qed
  with xs reset_spec [OF xs(2)] show ?thesis by blast
qed

end

section \<open>Properties\<close>

lemma length_code_ulong: "length (code_unsigned (x :: 64 word)) \<le> 9"
  using code_size_bounds(2) [of "unat x"] by (simp add: code_size_def)

lemma length_code_ulongs: "length (code_sequence code_unsigned (xs :: 64 word list)) \<le> 9 * (length xs + 1)"
proof (induction xs)
  case (Cons x xs)
  have "length (code_sequence code_unsigned (x # xs)) \<le> 9 + (9 + length (concat (map code_unsigned xs)))"
    using code_size_bounds(2) [of "length (x # xs)"] length_code_ulong [of x] by (simp add: code_sequence_def)
  moreover have "length (concat (map code_unsigned xs)) \<le> 9 * length xs"
    by (induction xs) (use length_code_ulong in \<open>auto intro: add_mono\<close>)
  ultimately show ?case by simp
qed (simp add: code_sequence_def code_size_bounds)

lemma bst_set_card:
  assumes "set_inv bst_inv bst_contents s" "bst_capacity s"
  shows "card (set_elems bst_contents s) < 2 ^ 36"
  using bst_set.sets.size_spec [OF assms(1)] assms(2)
  by (simp add: set_kernel_1_defs bst_capacity_def bst_ops_def)

text \<open>
  C32. A set of \<open>unsigned long\<close> over the balanced tree, saved to a stream and read into a hash set, whatever that
  held before and whatever its hash function is, arrives with the same elements; what follows in the
  stream is left, and the saved set keeps its elements.
\<close>

theorem set_travels:
  fixes s :: "(64 word, unit) bst"
  assumes "set_inv bst_inv bst_contents s" "bst_capacity s" "set_inv (ht_inv hash) ht_contents t"
    and "\<not> out_bad out" "9 * (set_size bst_ops s + 1) \<le> room out"
  shows "\<exists>s' out' t' bs.
    serialize_enumerable (set_reset bst_ops) (set_size bst_ops) (set_move_next bst_ops) (set_element bst_ops)
      serialize_ulong (s, out) = Returned () (s', out') \<and>
    set_inv bst_inv bst_contents s' \<and> set_elems bst_contents s' = set_elems bst_contents s \<and>
    sink out' = sink out @ bs \<and>
    (\<forall>rest. deserialize_hash_set_kernel_1 (hash_table_ops hash) deserialize_ulong (t, holding (bs @ rest)) =
      Returned () (t' rest, holding rest) \<and>
      set_inv (ht_inv hash) ht_contents (t' rest) \<and> set_elems ht_contents (t' rest) = set_elems bst_contents s)"
proof -
  have ops: "s_reset bst_set_ops = set_reset bst_ops" "s_size bst_set_ops = set_size bst_ops"
    "s_move_next bst_set_ops = set_move_next bst_ops" "s_element bst_set_ops = set_element bst_ops"
    "s_clear (hash_set_ops (hash_table_ops hash)) = hash_set_clear (hash_table_ops hash)"
    "s_add (hash_set_ops (hash_table_ops hash)) = hash_set_add (hash_table_ops hash)"
    by (simp_all add: set_kernel_1_def hash_set_ops_def)
  from bst_set.sets.serialize_writes [OF assms(1,2), of serialize_ulong code_unsigned] ulong.writes_ser
  obtain xs s' where xs: "set xs = set_elems bst_contents s" "distinct xs" "set_inv bst_inv bst_contents s'"
    "set_elems bst_contents s' = set_elems bst_contents s" and
    w: "\<And>out. \<not> out_bad out \<Longrightarrow> length (code_sequence code_unsigned xs) \<le> room out \<Longrightarrow>
      serialize_enumerable (set_reset bst_ops) (set_size bst_ops) (set_move_next bst_ops) (set_element bst_ops)
        serialize_ulong (s, out) = Returned () (s', put_bytes (code_sequence code_unsigned xs) out)"
    unfolding ops by blast
  have len: "length xs = card (set_elems bst_contents s)" using xs by (metis distinct_card)
  have "set_size bst_ops s = length xs"
    using bst_set.sets.size_spec [OF assms(1)] len by (simp add: set_kernel_1_def)
  with assms(5) length_code_ulongs [of xs] have room: "length (code_sequence code_unsigned xs) \<le> room out" by simp
  have "length xs < 2 ^ 64" using bst_set_card [OF assms(1,2)] len by simp
  moreover have "all_ready (\<lambda>A x. x \<notin> A) (\<lambda>A x. insert x A) {} xs" using xs(2) by (simp add: all_ready_distinct)
  moreover have "list_all (\<lambda>x. reads deserialize_ulong (code_unsigned x) x) xs"
    by (simp add: list_all_iff ulong.reads_des)
  ultimately have "\<exists>t'. deserialize_hash_set_kernel_1 (hash_table_ops hash) deserialize_ulong
        (t, holding (code_sequence code_unsigned xs @ rest)) = Returned () (t', holding rest) \<and>
      set_inv (ht_inv hash) ht_contents t' \<and> set_elems ht_contents t' = set_elems bst_contents s" for rest
    using hash_set.filled.deserialize_reads [OF assms(3), of xs deserialize_ulong code_unsigned _ rest] xs(1)
    unfolding ops deserialize_hash_set_kernel_1_def by (simp add: foldl_insert)
  then obtain t' where "\<forall>rest. deserialize_hash_set_kernel_1 (hash_table_ops hash) deserialize_ulong
        (t, holding (code_sequence code_unsigned xs @ rest)) = Returned () (t' rest, holding rest) \<and>
      set_inv (ht_inv hash) ht_contents (t' rest) \<and> set_elems ht_contents (t' rest) = set_elems bst_contents s"
    by metis
  with w [OF assms(4) room] xs(3,4) show ?thesis
    by (intro exI [of _ s'] exI [of _ "put_bytes (code_sequence code_unsigned xs) out"] exI [of _ t']
      exI [of _ "code_sequence code_unsigned xs"]) simp
qed

text \<open>The set {7, 300}, for the instance.\<close>

definition sample_ulongs :: "(64 word, unit) bst" where
  "sample_ulongs = \<lparr>tree_size = 2, tree_root = Node 0 Null 7 () 1 (Node 1 Null 300 () 0 Null),
     current_element = None, pool = 2, tree_height = 2, at_start = True, stack_pos = 0,
     stack = replicate 50 0\<rparr>"

lemma sample_ulongs_inv:
  "set_inv bst_inv bst_contents sample_ulongs" "bst_capacity sample_ulongs"
  "set_elems bst_contents sample_ulongs = {7, 300}" "set_size bst_ops sample_ulongs = 2"
  by (auto simp: set_inv_def bst_inv_def tree_inv_def enum_inv_def ordered_def height_diff_def bst_capacity_def
      set_elems_def bst_contents_def sample_ulongs_def distinct_keys_add set_size_def bst_ops_def)

theorem set_travels_witness:
  "\<exists>s' out' t'. serialize_enumerable (set_reset bst_ops) (set_size bst_ops) (set_move_next bst_ops)
      (set_element bst_ops) serialize_ulong (sample_ulongs, \<lparr>sink = [], room = 27, out_bad = False\<rparr>) =
        Returned () (s', out') \<and>
    deserialize_hash_set_kernel_1 (hash_table_ops (\<lambda>x. x)) deserialize_ulong
        (hash_set_kernel_1 4, holding (sink out' @ [1])) = Returned () (t', holding [1]) \<and>
    set_elems ht_contents t' = {7, 300}"
proof -
  have hash: "set_inv (ht_inv (\<lambda>x. x)) ht_contents (hash_set_kernel_1 4 :: (64 word, unit) hash_table)"
    by (rule empty_hash_set) simp
  let ?out = "\<lparr>sink = [], room = 27, out_bad = False\<rparr> :: ostream"
  from set_travels [OF sample_ulongs_inv(1,2) hash, of ?out] sample_ulongs_inv(3,4) show ?thesis
    by simp blast
qed

text \<open>
  C33. If a stream ends inside of a saved map from \<open>unsigned long\<close> to \<open>std::string\<close>, reading it throws, and the map is left empty and
  valid: no pair of the broken stream remains in it. On the whole stream the same call returns, and the map holds
  exactly the saved pairs. (A map to \<open>std::vector<char>\<close> differs: \<open>deserialize\<close> of such a vector does not report a truncation.)
\<close>

theorem broken_map_is_empty:
  fixes t :: "(64 word, byte list) bst"
  assumes "map_inv bst_inv bst_contents t" "distinct (map fst ps)" "length ps < 2 ^ 64"
    and "list_all (\<lambda>p. length (snd p) < 2 ^ 64) ps"
    and "bs = code_sequence (code_pair code_unsigned (\<lambda>s. code_size (length s) @ s)) ps"
  shows "writes (bind_io (serialize_size (length ps))
      (\<lambda>_. serialize_all (serialize_map_pair serialize_ulong serialize_string) ps)) bs \<and>
    (\<forall>n < length bs. \<exists>e t' i. deserialize_map_kernel_1 bst_ops deserialize_ulong deserialize_string
        (t, holding (take n bs)) = Thrown e (t', i) \<and>
      map_inv bst_inv bst_contents t' \<and> map_lookup bst_contents t' = Map.empty) \<and>
    (\<exists>t'. deserialize_map_kernel_1 bst_ops deserialize_ulong deserialize_string (t, holding bs) =
        Returned () (t', holding []) \<and>
      map_inv bst_inv bst_contents t' \<and> map_lookup bst_contents t' = map_of ps)"
proof -
  let ?code = "code_pair code_unsigned (\<lambda>s. code_size (length s) @ s) :: 64 word \<times> byte list \<Rightarrow> _"
  let ?des = "deserialize_key_value deserialize_ulong deserialize_string"
  have ops: "m_clear bst_map_ops = map_clear bst_ops" "m_add bst_map_ops = map_add_pair bst_ops"
    by (simp_all add: map_kernel_1_def)
  have ready: "all_ready (\<lambda>m p. fst p \<notin> dom m) (\<lambda>m p. m(fst p \<mapsto> snd p)) Map.empty ps"
    using assms(2) by (simp add: all_ready_keys)
  have "reads ?des (?code p) p" if "p \<in> set ps" for p
  proof -
    have "length (snd p) < 2 ^ 64" using assms(4) that by (auto simp: list_all_iff)
    then have "reads deserialize_string (code_size (length (snd p)) @ snd p) (snd p)" by (rule strings.reads_des)
    then have "reads (bind_io deserialize_string (\<lambda>r. Returned (fst p, r))) (code_size (length (snd p)) @ snd p) p"
      by (rule reads_map) simp
    then show ?thesis unfolding deserialize_key_value_def code_pair_def by (rule reads_bind [OF ulong.reads_des [OF TrueI]])
  qed
  then have des: "list_all (\<lambda>p. reads ?des (?code p) p) ps" by (simp add: list_all_iff)
  have "writes (serialize_map_pair serialize_ulong serialize_string p) (?code p)" if "p \<in> set ps" for p
    using assms(4) that unfolding serialize_map_pair_def list_all_iff code_pair_def
    by (intro writes_rethrow writes_bind ulong.writes_ser strings.writes_ser) auto
  then have w: "writes (bind_io (serialize_size (length ps))
      (\<lambda>_. serialize_all (serialize_map_pair serialize_ulong serialize_string) ps)) (code_sequence ?code ps)"
    unfolding code_sequence_def by (intro writes_bind writes_size writes_all) (simp add: list_all_iff)
  have broken: "\<exists>e t' i. deserialize_map_kernel_1 bst_ops deserialize_ulong deserialize_string
        (t, holding (take n (code_sequence ?code ps))) = Thrown e (t', i) \<and>
      map_inv bst_inv bst_contents t' \<and> map_lookup bst_contents t' = Map.empty"
    if "n < length (code_sequence ?code ps)" for n
    using bst_map.maps.filled.deserialize_truncated [OF assms(1) ready assms(3) des,
        of "take n (code_sequence ?code ps)" "drop n (code_sequence ?code ps)"] that
    unfolding ops deserialize_map_kernel_1_def by simp
  have "\<exists>t'. deserialize_map_kernel_1 bst_ops deserialize_ulong deserialize_string
        (t, holding (code_sequence ?code ps)) = Returned () (t', holding []) \<and>
      map_inv bst_inv bst_contents t' \<and> map_lookup bst_contents t' = map_of ps"
    using bst_map.maps.filled.deserialize_reads [OF assms(1) ready assms(3) des, of _ "[]"]
    unfolding ops deserialize_map_kernel_1_def by (simp add: foldl_upd [OF assms(2)])
  with w broken show ?thesis unfolding assms(5) by blast
qed

lemma code_unsigned_small:
  assumes "uint x < 256"
  shows "code_unsigned (x :: 64 word) = [1, ucast x]"
proof -
  have "int (unat x) < 256" using assms by simp
  then have "unat x < 256" by linarith
  then have "drop_bit 8 x = 0"
  proof -
    have "unat (drop_bit 8 x) = 0"
      using \<open>unat x < 256\<close> by (simp add: drop_bit_eq_div unat_div_distrib)
    then show ?thesis by (simp add: unat_eq_zero)
  qed
  moreover have "ucast (x AND 0xFF) = (ucast x :: byte)"
  proof -
    have "(0xFF :: 64 word) = mask 8" by (simp add: mask_eq_exp_minus_1)
    then have "x AND 0xFF = take_bit 8 x" by (simp add: take_bit_eq_mask)
    then have "ucast (x AND 0xFF) = (ucast (take_bit 8 x) :: byte)" by (rule arg_cong)
    also have "ucast (take_bit 8 x) = (ucast x :: byte)" by (rule bit_word_eqI) (simp add: bit_simps)
    finally show ?thesis .
  qed
  ultimately show ?thesis
    using pack_bytes.simps(2) [of "drop_bit 8" 7 x]
    by (simp add: code_unsigned_def packed_def sizeof_def)
qed

theorem broken_map_is_empty_witness:
  "(\<exists>e t' i. deserialize_map_kernel_1 bst_ops deserialize_ulong deserialize_string
      (binary_search_tree_kernel_1, holding [1, 2, 1]) = Thrown e (t', i) \<and> map_lookup bst_contents t' = Map.empty) \<and>
   (\<exists>t'. deserialize_map_kernel_1 bst_ops deserialize_ulong deserialize_string
      (binary_search_tree_kernel_1, holding [1, 2, 1, 5, 1, 1, 97, 1, 1, 1, 0]) = Returned () (t', holding []) \<and>
     map_lookup bst_contents t' = [5 \<mapsto> [97], 1 \<mapsto> []])"
proof -
  let ?ps = "[(5, [97]), (1, [])] :: (64 word \<times> byte list) list"
  let ?t = "binary_search_tree_kernel_1 :: (64 word, byte list) bst"
  have inv: "map_inv bst_inv bst_contents ?t"
    by (simp add: map_inv_def bst_inv_def tree_inv_init bst_contents_def enum_inv_def
      binary_search_tree_kernel_1_def tree_inv_def ordered_def)
  have ok: "distinct (map fst ?ps)" "length ?ps < 2 ^ 64" "list_all (\<lambda>p. length (snd p) < 2 ^ 64) ?ps" by simp_all
  have bytes: "[1, 2, 1, 5, 1, 1, 97, 1, 1, 1, 0] = code_sequence (code_pair code_unsigned (\<lambda>s. code_size (length s) @ s)) ?ps"
    by (simp add: code_sequence_def code_pair_def code_size_def code_unsigned_small)
  note result = broken_map_is_empty [OF inv ok bytes, THEN conjunct2]
  have "3 < length [1, 2, 1, 5, 1, 1, 97, 1, 1, 1, 0 :: byte]" by simp
  note broken = result [THEN conjunct1, rule_format, OF this] and whole = result [THEN conjunct2]
  have "take 3 [1, 2, 1, 5, 1, 1, 97, 1, 1, 1, 0] = [1, 2, 1 :: byte]" by (simp add: numeral_eq_Suc)
  with broken obtain e t' i where "deserialize_map_kernel_1 bst_ops deserialize_ulong deserialize_string
      (?t, holding [1, 2, 1]) = Thrown e (t', i)" "map_lookup bst_contents t' = Map.empty" by auto
  moreover from whole obtain t' where "deserialize_map_kernel_1 bst_ops deserialize_ulong deserialize_string
      (?t, holding [1, 2, 1, 5, 1, 1, 97, 1, 1, 1, 0]) = Returned () (t', holding [])"
    "map_lookup bst_contents t' = map_of ?ps" by blast
  moreover have "map_of ?ps = [5 \<mapsto> [97], 1 \<mapsto> []]" by (simp add: fun_upd_twist)
  ultimately show ?thesis by metis
qed

text \<open>
  What \<open>add\<close> of the unchecked set does when the element is there already: the tree below gets a second copy.
\<close>

interpretation unchecked_set: refill "set_clear bst_ops" "set_add bst_ops" bst_inv bst_contents
  "{#}" "\<lambda>m x. add_mset (x, ()) m" "\<lambda>m x. True"
  using avl.clear_spec avl.add_spec by unfold_locales (auto simp: set_clear_def set_add_def)

text \<open>
  C37. Reading does not check that the elements of a saved set differ. A stream with the same element twice is read
  without an error into a set whose size is two although it has one element, and which violates the
  invariant of the class.
\<close>

theorem repeated_element_breaks_set:
  "\<exists>s. deserialize_set_kernel_1 bst_ops deserialize_ulong
      (binary_search_tree_kernel_1, holding (code_sequence code_unsigned [x, x])) = Returned () (s, holding []) \<and>
    set_size bst_ops s = 2 \<and> set_elems bst_contents s = {x} \<and> \<not> set_inv bst_inv bst_contents s"
proof -
  have inv: "bst_inv (binary_search_tree_kernel_1 :: (64 word, unit) bst)"
    using empty_tree_set(1) [where 'a = "64 word"] by (simp add: set_inv_def)
  have "list_all (\<lambda>x. reads deserialize_ulong (code_unsigned x) x) [x, x]"
    by (simp add: ulong.reads_des)
  from unchecked_set.deserialize_reads [OF inv all_ready_True _ this, of _ "[]"] obtain s where
    s: "deserialize_set_kernel_1 bst_ops deserialize_ulong
      (binary_search_tree_kernel_1, holding (code_sequence code_unsigned [x, x])) = Returned () (s, holding [])"
    "bst_inv s" "bst_contents s = {#(x, ()), (x, ())#}"
    by (auto simp: deserialize_set_kernel_1_def)
  then have "set_size bst_ops s = 2" using avl.size_spec [OF s(2)] by (simp add: set_size_def)
  moreover have "\<not> distinct_keys (bst_contents s)" unfolding s(3) distinct_keys_add by simp
  ultimately show ?thesis using s by (auto simp: set_elems_def set_inv_def)
qed

end
