(* ===== verification/Float_Details.thy ===== *)
theory Float_Details
  imports Complex_Main Serialize_Std
begin

unbundle bit_operations_syntax

text \<open>
  \<open>float_details.h\<close> and the floating point functions of \<open>serialize.h\<close>. A floating point number is a real
  number (zero is the positive zero), the negative zero, an infinity or not a number, which is one value; \<open>is_float digits emin emax\<close> are the real numbers the format has. The
  extraction \<open>in >> item\<close> of a number, which the older ASCII format needs, is a parameter.
\<close>

section \<open>Numbers\<close>

datatype floating = Finite real | Neg_Zero | Pos_Inf | Neg_Inf | Not_A_Number

definition is_float :: "nat \<Rightarrow> int \<Rightarrow> int \<Rightarrow> real \<Rightarrow> bool" where
  "is_float digits emin emax x \<longleftrightarrow>
     (\<exists>m e. x = of_int m * 2 powi e \<and> \<bar>m\<bar> < 2 ^ digits \<and> emin \<le> e \<and> e \<le> emax)"

text \<open>\<open>double\<close>: 53 binary digits, exponents from -1074 to 971.\<close>

abbreviation is_double :: "real \<Rightarrow> bool" where
  "is_double \<equiv> is_float 53 (- 1074) 971"

record float_details =
  mantissa :: "64 word"
  exponent :: "16 word"

definition is_inf :: "16 word" where "is_inf = 32000"
definition is_ninf :: "16 word" where "is_ninf = 32001"
definition is_nan :: "16 word" where "is_nan = 32002"

text \<open>\<open>std::frexp\<close>: \<open>x = fraction * 2 ^ exp\<close> with the fraction in [1/2, 1), or 0.\<close>

definition frexp_exp :: "real \<Rightarrow> int" where
  "frexp_exp x = (if x = 0 then 0 else \<lfloor>log 2 \<bar>x\<bar>\<rfloor> + 1)"

definition frexp_fraction :: "real \<Rightarrow> real" where
  "frexp_fraction x = x / 2 powi frexp_exp x"

text \<open>Conversion to an integer truncates.\<close>

definition truncate :: "real \<Rightarrow> int" where
  "truncate x = (if 0 \<le> x then \<lfloor>x\<rfloor> else \<lceil>x\<rceil>)"

text \<open>The loop that shifts off zero bytes.\<close>

fun compact :: "nat \<Rightarrow> float_details \<Rightarrow> float_details" where
  "compact 0 f = f"
| "compact (Suc n) f =
     (if mantissa f AND 0xFF = 0
      then compact n (f\<lparr>mantissa := signed_drop_bit 8 (mantissa f), exponent := exponent f + 8\<rparr>)
      else f)"

text \<open>
  \<open>frexp\<close> of the negative zero is the negative zero with the exponent 0, and the conversion to an integer
  drops the sign.
\<close>

fun convert_from_T :: "nat \<Rightarrow> floating \<Rightarrow> float_details" where
  "convert_from_T digits Pos_Inf = \<lparr>mantissa = 0, exponent = is_inf\<rparr>"
| "convert_from_T digits Neg_Inf = \<lparr>mantissa = 0, exponent = is_ninf\<rparr>"
| "convert_from_T digits Not_A_Number = \<lparr>mantissa = 0, exponent = is_nan\<rparr>"
| "convert_from_T digits Neg_Zero = compact 8 \<lparr>mantissa = 0, exponent = of_int (0 - int digits)\<rparr>"
| "convert_from_T digits (Finite val) =
     compact 8 \<lparr>mantissa = of_int (truncate (frexp_fraction val * 2 ^ digits)),
                exponent = of_int (frexp_exp val - int digits)\<rparr>"

definition convert_to_T :: "float_details \<Rightarrow> floating" where
  "convert_to_T f =
     (if sint (exponent f) < sint is_inf then Finite (of_int (sint (mantissa f)) * 2 powi sint (exponent f))
      else if exponent f = is_inf then Pos_Inf
      else if exponent f = is_ninf then Neg_Inf
      else Not_A_Number)"

section \<open>Streams\<close>

definition serialize_float_details :: "float_details \<Rightarrow> ostream \<Rightarrow> (unit, ostream) io" where
  "serialize_float_details item =
     bind_io (serialize_signed ''int64'' (mantissa item)) (\<lambda>_. serialize_signed ''short'' (exponent item))"

definition deserialize_float_details :: "istream \<Rightarrow> (float_details, istream) io" where
  "deserialize_float_details =
     bind_io (deserialize_signed ''int64'') (\<lambda>m.
       bind_io (deserialize_signed ''short'') (\<lambda>e. Returned \<lparr>mantissa = m, exponent = e\<rparr>))"

definition serialize_floating_point :: "nat \<Rightarrow> floating \<Rightarrow> ostream \<Rightarrow> (unit, ostream) io" where
  "serialize_floating_point digits item =
     rethrow ''serializing a floating point number.'' (serialize_float_details (convert_from_T digits item))"

text \<open>
  The older format: \<open>inf \<close>, \<open>ninf \<close>, \<open>NaN \<close> or a decimal number and a blank. \<open>extract\<close> is \<open>in >> item\<close>.
\<close>

definition istream_peek :: "istream \<Rightarrow> byte option" where
  "istream_peek i = (if in_bad i \<or> source i = [] then None else Some (hd (source i)))"

fun istream_skip :: "nat \<Rightarrow> istream \<Rightarrow> istream" where
  "istream_skip 0 i = i"
| "istream_skip (Suc n) i = istream_skip n (fst (istream_get i))"

definition old_deserialize_floating_point ::
  "(istream \<Rightarrow> istream \<times> floating) \<Rightarrow> istream \<Rightarrow> (floating option, istream) io" where
  "old_deserialize_floating_point extract i =
     (let (i, item) =
            (if istream_peek i = Some 105 then (istream_skip 3 i, Pos_Inf)
             else if istream_peek i = Some 110 then (istream_skip 4 i, Neg_Inf)
             else if istream_peek i = Some 78 then (istream_skip 3 i, Not_A_Number)
             else extract i);
          (i, ch) = istream_get i
      in Returned (if ch \<noteq> Some 32 then None else Some item) i)"

text \<open>\<open>sgetc()\<close> is -1 at the end of the stream, whose bits under the mask 0x70 are set.\<close>

definition deserialize_floating_point ::
  "(istream \<Rightarrow> istream \<times> floating) \<Rightarrow> istream \<Rightarrow> (floating, istream) io" where
  "deserialize_floating_point extract i =
     (if source i \<noteq> [] \<and> hd (source i) AND 0x70 = 0
      then rethrow ''deserializing a floating point number.''
             (bind_io deserialize_float_details (\<lambda>temp. Returned (convert_to_T temp))) i
      else some_or_throw ''Error deserializing a floating point number.''
             (old_deserialize_floating_point extract) i)"

definition serialize_double :: "floating \<Rightarrow> ostream \<Rightarrow> (unit, ostream) io" where
  "serialize_double = serialize_floating_point 53"

definition deserialize_double :: "(istream \<Rightarrow> istream \<times> floating) \<Rightarrow> istream \<Rightarrow> (floating, istream) io" where
  "deserialize_double = deserialize_floating_point"

definition serialize_float :: "floating \<Rightarrow> ostream \<Rightarrow> (unit, ostream) io" where
  "serialize_float = serialize_floating_point 24"

section \<open>The representation is exact\<close>

lemma frexp_bounds:
  assumes "x \<noteq> 0"
  shows "2 powi (frexp_exp x - 1) \<le> \<bar>x\<bar>" "\<bar>x\<bar> < 2 powi frexp_exp x"
proof -
  let ?l = "log 2 \<bar>x\<bar>"
  have x: "2 powr ?l = \<bar>x\<bar>" using assms by (intro powr_log_cancel) simp_all
  have p: "(2::real) powi k = 2 powr of_int k" for k by (simp add: powr_real_of_int')
  have "2 powr of_int \<lfloor>?l\<rfloor> \<le> 2 powr ?l" by (intro powr_mono) auto
  then show "2 powi (frexp_exp x - 1) \<le> \<bar>x\<bar>" unfolding p x using assms by (simp add: frexp_exp_def)
  have "2 powr ?l < 2 powr (of_int \<lfloor>?l\<rfloor> + 1)" by (intro powr_less_mono) linarith+
  then show "\<bar>x\<bar> < 2 powi frexp_exp x" unfolding p x using assms by (simp add: frexp_exp_def)
qed

lemma two_powi_less: "(2 :: real) powi a < 2 powi b \<longleftrightarrow> a < b"
  using power_int_strict_increasing [of a b "2 :: real"] power_int_increasing [of b a "2 :: real"]
  by (cases "a < b") (simp_all add: not_less)

text \<open>A number of the format has an exponent in a small range, and its scaled fraction is an integer.\<close>

lemma scaled_fraction:
  assumes "x = of_int m * 2 powi e" "\<bar>m\<bar> < 2 ^ prec" "x \<noteq> 0"
  shows "\<exists>M :: int. frexp_fraction x * 2 ^ prec = of_int M \<and> \<bar>M\<bar> < 2 ^ prec \<and>
    x = of_int M * 2 powi (frexp_exp x - int prec)" "e < frexp_exp x" "frexp_exp x \<le> e + int prec"
proof -
  from assms(1,3) have m: "1 \<le> \<bar>m\<bar>" by auto
  have abs: "\<bar>x\<bar> = of_int \<bar>m\<bar> * 2 powi e" by (simp add: assms(1) abs_mult)
  have "2 powi (frexp_exp x - 1) < of_int (2 ^ prec) * (2::real) powi e"
    using frexp_bounds(1) [OF assms(3)] assms(2) unfolding abs
    by (smt (verit) mult_strict_right_mono of_int_less_iff zero_less_power_int)
  also have "\<dots> = 2 powi (int prec + e)" by (simp add: power_int_add)
  finally show up: "frexp_exp x \<le> e + int prec"
    by (simp add: two_powi_less)
  have "1 * 2 powi e \<le> \<bar>x\<bar>" unfolding abs using m by (intro mult_right_mono) simp_all
  with frexp_bounds(2) [OF assms(3)] have "(2::real) powi e < 2 powi frexp_exp x" by simp
  then show "e < frexp_exp x" by (simp add: two_powi_less)
  define M where "M = m * 2 ^ nat (e + int prec - frexp_exp x)"
  have M: "real_of_int M = of_int m * 2 powi (e + int prec - frexp_exp x)"
    using up by (simp add: M_def power_int_def)
  have frac: "frexp_fraction x * 2 ^ prec = of_int M"
    unfolding M frexp_fraction_def assms(1) by (simp add: power_int_diff power_int_add)
  have "\<bar>real_of_int M\<bar> < 2 ^ prec"
  proof -
    have "\<bar>frexp_fraction x\<bar> < 1"
      using frexp_bounds(2) [OF assms(3)] by (simp add: frexp_fraction_def abs_divide)
    then show ?thesis unfolding frac [symmetric] by (simp add: abs_mult)
  qed
  then have "\<bar>M\<bar> < 2 ^ prec" by (metis of_int_abs of_int_less_iff of_int_numeral of_int_power)
  moreover have "x = of_int M * 2 powi (frexp_exp x - int prec)"
    unfolding frac [symmetric] frexp_fraction_def by (simp add: power_int_diff)
  ultimately show "\<exists>M :: int. frexp_fraction x * 2 ^ prec = of_int M \<and> \<bar>M\<bar> < 2 ^ prec \<and>
    x = of_int M * 2 powi (frexp_exp x - int prec)" using frac by blast
qed

section \<open>Shifting off zero bytes\<close>

lemma low_byte_zero:
  fixes m :: "64 word"
  assumes "m AND 0xFF = 0"
  shows "sint m = 256 * sint (signed_drop_bit 8 m)"
proof -
  have "(0xFF :: 64 word) = mask 8" by (simp add: mask_eq_exp_minus_1)
  with assms have "take_bit 8 m = 0" by (simp add: take_bit_eq_mask)
  then have "take_bit 8 (uint m) = 0" by (metis unsigned_0 unsigned_take_bit_eq)
  moreover have "take_bit 8 (sint m) = take_bit 8 (uint m)"
    by (simp add: sint_uint take_bit_signed_take_bit)
  ultimately have "sint m mod 256 = 0" by (simp add: take_bit_eq_mod)
  then have "sint m = 256 * (sint m div 256)" by (simp add: minus_mod_eq_mult_div [symmetric])
  then show ?thesis by (simp add: sint_signed_drop_bit_eq drop_bit_eq_div)
qed

lemma sint_add_8:
  fixes e :: "16 word"
  assumes "sint e + 8 < 2 ^ 15"
  shows "sint (e + 8) = sint e + 8"
proof -
  have "- (2 ^ 15) \<le> sint e" using sint_greater_eq [of e] by simp
  have "e + 8 = word_of_int (sint e + 8)" by simp
  then have "sint (e + 8) = signed_take_bit 15 (sint e + 8)"
    using sint_sbintrunc' [of "sint e + 8", where 'a = 16] by simp
  then show ?thesis using assms \<open>- (2 ^ 15) \<le> sint e\<close> by (simp add: signed_take_bit_int_eq_self)
qed

lemma compact_value:
  assumes "sint (exponent f) + 8 * int n < 2 ^ 15"
  shows "sint (exponent f) \<le> sint (exponent (compact n f)) \<and>
    sint (exponent (compact n f)) \<le> sint (exponent f) + 8 * int n \<and>
    \<bar>sint (mantissa (compact n f))\<bar> \<le> \<bar>sint (mantissa f)\<bar> \<and>
    of_int (sint (mantissa (compact n f))) * (2 :: real) powi sint (exponent (compact n f)) =
      of_int (sint (mantissa f)) * 2 powi sint (exponent f)"
  using assms
proof (induction n arbitrary: f)
  case (Suc n)
  show ?case
  proof (cases "mantissa f AND 0xFF = 0")
    case True
    let ?g = "f\<lparr>mantissa := signed_drop_bit 8 (mantissa f), exponent := exponent f + 8\<rparr>"
    have e: "sint (exponent ?g) = sint (exponent f) + 8" using Suc.prems sint_add_8 [of "exponent f"] by simp
    have m: "sint (mantissa f) = 256 * sint (mantissa ?g)" using low_byte_zero [OF True] by simp
    have "of_int (sint (mantissa ?g)) * (2 :: real) powi sint (exponent ?g) =
        of_int (sint (mantissa f)) * 2 powi sint (exponent f)"
      unfolding e m by (simp add: power_int_add)
    moreover have "\<bar>sint (mantissa ?g)\<bar> \<le> \<bar>sint (mantissa f)\<bar>" unfolding m by (simp add: abs_mult)
    moreover have "compact (Suc n) f = compact n ?g" using True by simp
    ultimately show ?thesis using Suc.IH [of ?g] Suc.prems e by (smt (verit) of_nat_Suc)
  next
    case False
    then show ?thesis by simp
  qed
qed simp

section \<open>The round trip\<close>

lemma truncate_of_int [simp]: "truncate (of_int M) = M"
  by (simp add: truncate_def)

lemma sint_small:
  "- (2 ^ 63) \<le> k \<Longrightarrow> k < 2 ^ 63 \<Longrightarrow> sint (word_of_int k :: 64 word) = k"
  "- (2 ^ 15) \<le> k \<Longrightarrow> k < 2 ^ 15 \<Longrightarrow> sint (word_of_int k :: 16 word) = k"
  by (simp_all add: sint_sbintrunc' signed_take_bit_int_eq_self)

lemma scaled_fraction_all:
  assumes "is_float prec emin emax x" "prec \<le> 63" "- 1100 \<le> emin" "emax \<le> 1000"
  shows "\<exists>M :: int. frexp_fraction x * 2 ^ prec = of_int M \<and> \<bar>M\<bar> < 2 ^ 63 \<and>
    x = of_int M * 2 powi (frexp_exp x - int prec) \<and>
    - 2000 \<le> frexp_exp x - int prec \<and> frexp_exp x - int prec \<le> 1000"
proof (cases "x = 0")
  case True
  with assms(2) show ?thesis by (intro exI [of _ 0]) (simp add: frexp_fraction_def frexp_exp_def)
next
  case False
  from assms(1) obtain m e where me: "x = of_int m * 2 powi e" "\<bar>m\<bar> < 2 ^ prec" "emin \<le> e" "e \<le> emax"
    by (auto simp: is_float_def)
  have "(2 :: int) ^ prec \<le> 2 ^ 63" using assms(2) by (intro power_increasing) simp_all
  moreover from scaled_fraction(1) [OF me(1,2) False] obtain M :: int where
    "frexp_fraction x * 2 ^ prec = of_int M" "\<bar>M\<bar> < 2 ^ prec" "x = of_int M * 2 powi (frexp_exp x - int prec)"
    by blast
  moreover note scaled_fraction(2,3) [OF me(1,2) False] me(3,4) assms(2-4)
  ultimately show ?thesis by (intro exI [of _ M]) auto
qed

lemma convert_Finite:
  assumes "is_float prec emin emax x" "prec \<le> 63" "- 1100 \<le> emin" "emax \<le> 1000"
  shows "convert_to_T (convert_from_T prec (Finite x)) = Finite x"
    "negatable (mantissa (convert_from_T prec (Finite x)))"
proof -
  from scaled_fraction_all [OF assms] obtain M :: int where M:
    "frexp_fraction x * 2 ^ prec = of_int M" "\<bar>M\<bar> < 2 ^ 63" "x = of_int M * 2 powi (frexp_exp x - int prec)"
    "- 2000 \<le> frexp_exp x - int prec" "frexp_exp x - int prec \<le> 1000" by blast
  let ?f = "\<lparr>mantissa = word_of_int M, exponent = word_of_int (frexp_exp x - int prec)\<rparr>"
  have f: "convert_from_T prec (Finite x) = compact 8 ?f" by (simp add: M(1))
  have m: "sint (mantissa ?f) = M" using M(2) by (simp only: float_details.simps) (rule sint_small, auto)
  have e: "sint (exponent ?f) = frexp_exp x - int prec"
    using M(4,5) by (simp only: float_details.simps) (rule sint_small, auto)
  have "sint (exponent ?f) + 8 * int 8 < 2 ^ 15" unfolding e using M(5) by simp
  note c = compact_value [OF this, unfolded m e]
  have "sint (exponent (compact 8 ?f)) < sint is_inf" using c M(5) by (simp add: is_inf_def)
  with c M(3) show "convert_to_T (convert_from_T prec (Finite x)) = Finite x"
    unfolding f convert_to_T_def by simp
  have "sint (mantissa (compact 8 ?f)) \<noteq> - (2 ^ 63)" using c M(2) by auto
  then show "negatable (mantissa (convert_from_T prec (Finite x)))"
    unfolding f by (simp add: negatable_def times_minus_1_def)
qed

lemma short_negatable: "negatable (e :: 16 word)"
  by (simp add: negatable_def times_minus_1_def)

text \<open>
  The values a type of at most 63 binary digits has, as far as \<open>double\<close> and \<open>float\<close> need it, without the negative zero,
  which is the value that is lost.
\<close>

fun is_floating :: "nat \<Rightarrow> floating \<Rightarrow> bool" where
  "is_floating prec (Finite x) \<longleftrightarrow> is_float prec (- 1074) 971 x"
| "is_floating prec Neg_Zero \<longleftrightarrow> False"
| "is_floating prec _ \<longleftrightarrow> True"

definition code_floating :: "nat \<Rightarrow> floating \<Rightarrow> byte list" where
  "code_floating prec x =
     code_signed (mantissa (convert_from_T prec x)) @ code_signed (exponent (convert_from_T prec x))"

lemma convert_round_trip:
  assumes "is_floating prec x" "prec \<le> 63"
  shows "convert_to_T (convert_from_T prec x) = x" "negatable (mantissa (convert_from_T prec x))"
proof -
  have "convert_to_T (convert_from_T prec x) = x \<and> negatable (mantissa (convert_from_T prec x))"
  proof (cases x)
    case (Finite r)
    with assms convert_Finite [of prec "- 1074" 971 r] show ?thesis by simp
  qed (use assms in \<open>simp_all add: convert_to_T_def is_inf_def is_ninf_def is_nan_def negatable_def times_minus_1_def\<close>)
  then show "convert_to_T (convert_from_T prec x) = x" "negatable (mantissa (convert_from_T prec x))" by auto
qed

text \<open>The first byte is a control byte, whose bits under the mask 0x70 are clear.\<close>

lemma control_byte_mask:
  assumes "n \<le> 8"
  shows "(of_nat n OR 0x80 :: byte) AND 0x70 = 0" "(of_nat n :: byte) AND 0x70 = 0"
proof -
  have "n = 0 \<or> n = 1 \<or> n = 2 \<or> n = 3 \<or> n = 4 \<or> n = 5 \<or> n = 6 \<or> n = 7 \<or> n = 8" using assms by linarith
  then show "(of_nat n OR 0x80 :: byte) AND 0x70 = 0" "(of_nat n :: byte) AND 0x70 = 0"
    by (elim disjE; simp)+
qed

lemma code_signed_first:
  "\<exists>b bs. code_signed (x :: 64 word) = b # bs \<and> b AND 0x70 = 0"
  using packed_bytes(3) [where 'a = 64, of "signed_drop_bit 8"]
  by (auto simp: code_signed_def packed_def control_byte_mask int_width_def)

text \<open>An extraction only takes bytes away.\<close>

definition consumes :: "(istream \<Rightarrow> istream \<times> floating) \<Rightarrow> bool" where
  "consumes extract \<longleftrightarrow> (\<forall>i. length (source (fst (extract i))) \<le> length (source i))"

lemma old_format_at_end:
  assumes "consumes extract"
  shows "throws (some_or_throw e (old_deserialize_floating_point extract) (holding []))"
proof -
  obtain i item where x: "extract (holding []) = (i, item)" by fastforce
  with assms have "source i = []" by (fastforce simp: consumes_def dest: spec [of _ "holding []"])
  then have "snd (istream_get i) = None" by (simp add: istream_get_def sbumpc_def)
  with x show ?thesis
    by (auto simp: some_or_throw_def old_deserialize_floating_point_def istream_peek_def bind_io.simps
      split: prod.split)
qed

lemma floating_laws:
  assumes "prec \<le> 63" "consumes extract"
  shows "checked_serializer (serialize_floating_point prec) (deserialize_floating_point extract)
    (code_floating prec) (is_floating prec)"
proof (rule checked_serializerI)
  fix x assume "is_floating prec x"
  note conv = convert_round_trip [OF this assms(1)]
  let ?f = "convert_from_T prec x"
  show "writes (serialize_floating_point prec x) (code_floating prec x)"
    unfolding serialize_floating_point_def serialize_float_details_def code_floating_def
    by (intro writes_rethrow writes_bind int64.writes_ser short.writes_ser conv short_negatable)
  have "reads (bind_io (deserialize_signed ''short'') (\<lambda>e. Returned \<lparr>mantissa = mantissa ?f, exponent = e\<rparr>))
      (code_signed (exponent ?f)) ?f"
    by (rule reads_map [OF short.reads_des [OF short_negatable]]) (cases ?f, simp)
  then have "reads deserialize_float_details (code_floating prec x) ?f"
    unfolding deserialize_float_details_def code_floating_def by (rule reads_bind [OF int64.reads_des [OF conv(2)]])
  then have "reads (bind_io deserialize_float_details (\<lambda>temp. Returned (convert_to_T temp))) (code_floating prec x) x"
    by (rule reads_map) (simp add: conv)
  then have new: "reads (rethrow ''deserializing a floating point number.''
      (bind_io deserialize_float_details (\<lambda>temp. Returned (convert_to_T temp)))) (code_floating prec x) x"
    by (rule reads_rethrow)
  obtain b bs where b: "code_floating prec x = b # bs" "b AND 0x70 = 0"
    using code_signed_first [of "mantissa ?f"] by (auto simp: code_floating_def)
  show "reads (deserialize_floating_point extract) (code_floating prec x) x"
    unfolding reads_def
  proof (intro conjI allI impI)
    fix rest cs us :: "byte list"
    show "deserialize_floating_point extract (holding (code_floating prec x @ rest)) = Returned x (holding rest)"
      using readsD(1) [OF new, of rest] b by (simp add: deserialize_floating_point_def)
    assume cut: "code_floating prec x = cs @ us" "us \<noteq> []"
    show "throws (deserialize_floating_point extract (holding cs))"
    proof (cases cs)
      case Nil
      with old_format_at_end [OF assms(2)] show ?thesis by (simp add: deserialize_floating_point_def)
    next
      case (Cons c cs')
      with cut b have "c AND 0x70 = 0" by simp
      with readsD(2) [OF new cut] Cons show ?thesis by (simp add: deserialize_floating_point_def)
    qed
  qed
qed

section \<open>Property\<close>

lemma negative_zero_saved: "serialize_double Neg_Zero = serialize_double (Finite 0)"
  by (simp add: serialize_double_def serialize_floating_point_def frexp_fraction_def frexp_exp_def truncate_def)

lemma is_double_0: "is_double 0"
  unfolding is_float_def by (intro exI [of _ 0]) simp

text \<open>
  C34. Saving a \<open>double\<close> loses nothing but the sign of a negative zero: the mantissa and exponent written represent the number
  exactly, also after the zero bytes are shifted off, infinities included, and reading the bytes gives the number back, or the
  positive zero for the negative one; NaN is read as NaN, of which the model has one. Reading a proper part of the bytes throws.
\<close>

theorem double_round_trip:
  assumes "case x of Finite r \<Rightarrow> is_double r | _ \<Rightarrow> True" "consumes extract"
  shows "\<exists>bs. writes (serialize_double x) bs \<and>
    reads (deserialize_double extract) bs (if x = Neg_Zero then Finite 0 else x)"
proof -
  define y where "y = (if x = Neg_Zero then Finite 0 else x)"
  have same: "serialize_double x = serialize_double y" using negative_zero_saved by (simp add: y_def)
  have ok: "is_floating 53 y" using assms(1) is_double_0 by (cases x) (simp_all add: y_def)
  have "(53 :: nat) \<le> 63" by simp
  note laws = floating_laws [OF this assms(2)]
  show ?thesis
    unfolding same y_def [symmetric] unfolding serialize_double_def deserialize_double_def
    using checked_serializer.writes_ser [OF laws ok] checked_serializer.reads_des [OF laws ok] by blast
qed

theorem double_round_trip_witness:
  "(\<exists>bs. writes (serialize_double (Finite (3 / 4))) bs \<and>
    reads (deserialize_double (\<lambda>i. (i, Not_A_Number))) bs (Finite (3 / 4))) \<and>
   (\<exists>bs. writes (serialize_double Neg_Zero) bs \<and> reads (deserialize_double (\<lambda>i. (i, Not_A_Number))) bs (Finite 0))"
proof -
  have "(3 / 4 :: real) = of_int 3 * 2 powi (- 2)" by (simp add: power_int_def power2_eq_square)
  then have "is_double (3 / 4)" unfolding is_float_def by (intro exI [of _ 3] exI [of _ "- 2"]) simp
  moreover have "consumes (\<lambda>i. (i, Not_A_Number))" by (simp add: consumes_def)
  ultimately show ?thesis
    using double_round_trip [of "Finite (3 / 4)" "\<lambda>i. (i, Not_A_Number)"] double_round_trip [of Neg_Zero "\<lambda>i. (i, Not_A_Number)"]
    by simp
qed

end
