(* ===== verification/Rectangle.thy ===== *)
theory Rectangle
  imports Complex_Main Prelude
begin

text \<open>
  \<open>geometry/rectangle.h\<close>: rectangles with inclusive integer borders and the functions on them.
  The borders are of type \<open>long\<close>; the sizes are of type \<open>unsigned long\<close>, so they are
  reduced modulo \<open>2 ^ 64\<close>, and a border computed from a size is converted back. A \<open>point\<close>
  is the pair of its coordinates; \<open>double\<close> is modelled as \<open>real\<close>.
\<close>

section \<open>Rectangles\<close>

type_synonym point = "int \<times> int"

record rectangle =
  rleft :: int
  rtop :: int
  rright :: int
  rbottom :: int

abbreviation rect :: "int \<Rightarrow> int \<Rightarrow> int \<Rightarrow> int \<Rightarrow> rectangle" where
  "rect l t r b \<equiv> \<lparr>rleft = l, rtop = t, rright = r, rbottom = b\<rparr>"

definition rectangle_of_size :: "int \<Rightarrow> int \<Rightarrow> rectangle" where
  "rectangle_of_size w h = rect 0 0 (to_long w - 1) (to_long h - 1)"

definition rectangle_of_point :: "point \<Rightarrow> rectangle" where
  "rectangle_of_point p = rect (fst p) (snd p) (fst p) (snd p)"

definition rectangle_default :: rectangle where
  "rectangle_default = rect 0 0 (-1) (-1)"

definition tl_corner :: "rectangle \<Rightarrow> point" where "tl_corner x = (rleft x, rtop x)"
definition bl_corner :: "rectangle \<Rightarrow> point" where "bl_corner x = (rleft x, rbottom x)"
definition tr_corner :: "rectangle \<Rightarrow> point" where "tr_corner x = (rright x, rtop x)"
definition br_corner :: "rectangle \<Rightarrow> point" where "br_corner x = (rright x, rbottom x)"

definition is_empty :: "rectangle \<Rightarrow> bool" where
  "is_empty x \<longleftrightarrow> rtop x > rbottom x \<or> rleft x > rright x"

definition width :: "rectangle \<Rightarrow> int" where
  "width x = (if is_empty x then 0 else to_ulong (rright x - rleft x + 1))"

definition height :: "rectangle \<Rightarrow> int" where
  "height x = (if is_empty x then 0 else to_ulong (rbottom x - rtop x + 1))"

definition area :: "rectangle \<Rightarrow> int" where
  "area x = to_ulong (width x * height x)"

definition rect_plus :: "rectangle \<Rightarrow> rectangle \<Rightarrow> rectangle" where
  "rect_plus x rhs =
     (if is_empty rhs then x
      else if is_empty x then rhs
      else rect (min (rleft x) (rleft rhs)) (min (rtop x) (rtop rhs))
             (max (rright x) (rright rhs)) (max (rbottom x) (rbottom rhs)))"

definition rectangle_of_points :: "point \<Rightarrow> point \<Rightarrow> rectangle" where
  "rectangle_of_points p1 p2 = rect_plus (rectangle_of_point p1) (rectangle_of_point p2)"

definition intersect :: "rectangle \<Rightarrow> rectangle \<Rightarrow> rectangle" where
  "intersect x rhs =
     rect (max (rleft x) (rleft rhs)) (max (rtop x) (rtop rhs))
       (min (rright x) (rright rhs)) (min (rbottom x) (rbottom rhs))"

definition contains_xy :: "rectangle \<Rightarrow> int \<Rightarrow> int \<Rightarrow> bool" where
  "contains_xy rc x y \<longleftrightarrow>
     \<not> (x < rleft rc \<or> x > rright rc \<or> y < rtop rc \<or> y > rbottom rc)"

definition contains_point :: "rectangle \<Rightarrow> point \<Rightarrow> bool" where
  "contains_point rc p \<longleftrightarrow>
     \<not> (fst p < rleft rc \<or> fst p > rright rc \<or> snd p < rtop rc \<or> snd p > rbottom rc)"

definition contains_rect :: "rectangle \<Rightarrow> rectangle \<Rightarrow> bool" where
  "contains_rect x rc \<longleftrightarrow> rect_plus rc x = x"

definition rect_plus_point :: "rectangle \<Rightarrow> point \<Rightarrow> rectangle" where
  "rect_plus_point x p = rect_plus x (rectangle_of_point p)"

definition rect_less :: "rectangle \<Rightarrow> rectangle \<Rightarrow> bool" where
  "rect_less a b \<longleftrightarrow>
     (if rleft a < rleft b then True else if rleft a > rleft b then False
      else if rtop a < rtop b then True else if rtop a > rtop b then False
      else if rright a < rright b then True else if rright a > rright b then False
      else if rbottom a < rbottom b then True else if rbottom a > rbottom b then False
      else False)"

section \<open>Functions on rectangles\<close>

definition centered_rect :: "int \<Rightarrow> int \<Rightarrow> int \<Rightarrow> int \<Rightarrow> rectangle" where
  "centered_rect x y w h =
     (let l = x - c_div (to_long w) 2; t = y - c_div (to_long h) 2
      in rect l t (to_long (l + w - 1)) (to_long (t + h - 1)))"

definition centered_rect_at :: "rectangle \<Rightarrow> int \<Rightarrow> int \<Rightarrow> rectangle" where
  "centered_rect_at x w h =
     centered_rect (c_div (rleft x + rright x) 2) (c_div (rtop x + rbottom x) 2) w h"

definition center :: "rectangle \<Rightarrow> point" where
  "center x =
     (let tx = rleft x + rright x + 1; ty = rtop x + rbottom x + 1;
          tx = (if tx < 0 then tx - 1 else tx); ty = (if ty < 0 then ty - 1 else ty)
      in (c_div tx 2, c_div ty 2))"

definition distance_to_rect_edge :: "rectangle \<Rightarrow> point \<Rightarrow> int" where
  "distance_to_rect_edge rc p =
     (let dist_x = min \<bar>fst p - rleft rc\<bar> \<bar>fst p - rright rc\<bar>;
          dist_y = min \<bar>snd p - rtop rc\<bar> \<bar>snd p - rbottom rc\<bar>
      in if contains_point rc p then min dist_x dist_y
         else if rleft rc \<le> fst p \<and> fst p \<le> rright rc then dist_y
         else if rtop rc \<le> snd p \<and> snd p \<le> rbottom rc then dist_x
         else dist_x + dist_y)"

definition nearest_point :: "rectangle \<Rightarrow> point \<Rightarrow> point" where
  "nearest_point rc p =
     ((if fst p < rleft rc then rleft rc else if fst p > rright rc then rright rc else fst p),
      (if snd p < rtop rc then rtop rc else if snd p > rbottom rc then rbottom rc else snd p))"

text \<open>\<open>(a - b).length()\<close>.\<close>

definition point_length :: "point \<Rightarrow> point \<Rightarrow> real" where
  "point_length a b =
     sqrt (real_of_int ((fst a - fst b) * (fst a - fst b) + (snd a - snd b) * (snd a - snd b)))"

text \<open>The loop of \<open>nearest_rect\<close>; \<open>best_dist = None\<close> is infinity.\<close>

fun nearest_rect_loop :: "rectangle list \<Rightarrow> point \<Rightarrow> nat \<Rightarrow> nat \<Rightarrow> real option \<Rightarrow> nat" where
  "nearest_rect_loop [] p i idx best_dist = idx"
| "nearest_rect_loop (rc # rects) p i idx best_dist =
     (if contains_point rc p then i
      else (let dist = point_length (nearest_point rc p) p
            in if (case best_dist of None \<Rightarrow> True | Some b \<Rightarrow> dist < b)
               then nearest_rect_loop rects p (i + 1) i (Some dist)
               else nearest_rect_loop rects p (i + 1) idx best_dist))"

definition nearest_rect :: "rectangle list \<Rightarrow> point \<Rightarrow> nat" where
  "nearest_rect rects p = nearest_rect_loop rects p 0 0 None"

text \<open>Points of type \<open>vector<double,2>\<close> are rounded when they become \<open>point\<close>s.\<close>

definition to_point :: "real \<times> real \<Rightarrow> point" where
  "to_point v = (\<lfloor>fst v + 1 / 2\<rfloor>, \<lfloor>snd v + 1 / 2\<rfloor>)"

definition along :: "real \<Rightarrow> point \<Rightarrow> point \<Rightarrow> point" where
  "along alpha d p2 = to_point (alpha * real_of_int (fst d) + real_of_int (fst p2),
     alpha * real_of_int (snd d) + real_of_int (snd p2))"

definition clip_slanted :: "rectangle \<Rightarrow> point \<Rightarrow> point \<Rightarrow> point \<times> point" where
  "clip_slanted box p1 p2 =
     (let d = (fst p1 - fst p2, snd p1 - snd p2);
          alpha1 = real_of_int (rleft box - fst p2) / real_of_int (fst d);
          alpha2 = real_of_int (rright box - fst p2) / real_of_int (fst d);
          alpha3 = real_of_int (rtop box - snd p2) / real_of_int (snd d);
          alpha4 = real_of_int (rbottom box - snd p2) / real_of_int (snd d);
          c1 = along alpha1 d p2; c2 = along alpha2 d p2;
          c3 = along alpha3 d p2; c4 = along alpha4 d p2;
          p1 = (if \<not> contains_point box p1 then c1 else p1);
          p2 = (if \<not> contains_point box p2 then c2 else p2);
          (p1, p2) = (if contains_point box c3 then
                        (if \<not> contains_point box p2 then (p1, c3)
                         else if \<not> contains_point box p1 then (c3, p2) else (p1, p2))
                      else (p1, p2))
      in (if contains_point box c4 then
            (if \<not> contains_point box p2 then (p1, c4)
             else if \<not> contains_point box p1 then (c4, p2) else (p1, p2))
          else (p1, p2)))"

definition clip_line_to_rectangle :: "rectangle \<Rightarrow> point \<Rightarrow> point \<Rightarrow> point \<times> point" where
  "clip_line_to_rectangle box p1 p2 =
     (let (p1, p2) =
        (if fst p1 = fst p2 then
           ((if \<not> contains_point box p1 then (fst p1, rtop box) else p1),
            (if \<not> contains_point box p2 then (fst p2, rbottom box) else p2))
         else if snd p1 = snd p2 then
           ((if \<not> contains_point box p1 then (rleft box, snd p1) else p1),
            (if \<not> contains_point box p2 then (rright box, snd p2) else p2))
         else clip_slanted box p1 p2)
      in (nearest_point box p1, nearest_point box p2))"

definition shrink_rect_by :: "rectangle \<Rightarrow> int \<Rightarrow> rectangle" where
  "shrink_rect_by x num = rect (rleft x + num) (rtop x + num) (rright x - num) (rbottom x - num)"

definition grow_rect_by :: "rectangle \<Rightarrow> int \<Rightarrow> rectangle" where
  "grow_rect_by x num = shrink_rect_by x (- num)"

definition shrink_rect :: "rectangle \<Rightarrow> int \<Rightarrow> int \<Rightarrow> rectangle" where
  "shrink_rect x w h = rect (rleft x + w) (rtop x + h) (rright x - w) (rbottom x - h)"

definition grow_rect :: "rectangle \<Rightarrow> int \<Rightarrow> int \<Rightarrow> rectangle" where
  "grow_rect x w h = shrink_rect x (- w) (- h)"

definition translate_rect :: "rectangle \<Rightarrow> int \<Rightarrow> int \<Rightarrow> rectangle" where
  "translate_rect rc x y =
     rectangle_default\<lparr>rtop := rtop rc + y, rbottom := rbottom rc + y,
       rleft := rleft rc + x, rright := rright rc + x\<rparr>"

definition resize_rect :: "rectangle \<Rightarrow> int \<Rightarrow> int \<Rightarrow> rectangle" where
  "resize_rect x w h =
     rect (rleft x) (rtop x) (to_long (rleft x + w - 1)) (to_long (rtop x + h - 1))"

definition resize_rect_width :: "rectangle \<Rightarrow> int \<Rightarrow> rectangle" where
  "resize_rect_width x w = rect (rleft x) (rtop x) (to_long (rleft x + w - 1)) (rbottom x)"

definition resize_rect_height :: "rectangle \<Rightarrow> int \<Rightarrow> rectangle" where
  "resize_rect_height x h = rect (rleft x) (rtop x) (rright x) (to_long (rtop x + h - 1))"

definition move_rect :: "rectangle \<Rightarrow> int \<Rightarrow> int \<Rightarrow> rectangle" where
  "move_rect rc x y =
     rect x y (to_long (x + width rc - 1)) (to_long (y + height rc - 1))"

lemmas rectangle_defs [model_defs] =
  rectangle_of_size_def rectangle_of_point_def rectangle_default_def is_empty_def
  rect_plus_def rectangle_of_points_def intersect_def contains_xy_def contains_point_def
  contains_rect_def rect_plus_point_def shrink_rect_by_def grow_rect_by_def shrink_rect_def
  grow_rect_def translate_rect_def

section \<open>The points of a rectangle\<close>

definition points :: "rectangle \<Rightarrow> point set" where
  "points x = {rleft x .. rright x} \<times> {rtop x .. rbottom x}"

lemma contains_point_iff [simp]: "contains_point x p \<longleftrightarrow> p \<in> points x"
  by (cases p) (auto simp: contains_point_def points_def)

lemma contains_xy_iff [simp]: "contains_xy rc x y \<longleftrightarrow> (x, y) \<in> points rc"
  by (auto simp: contains_xy_def points_def)

lemma is_empty_iff: "is_empty x \<longleftrightarrow> points x = {}"
  by (auto simp: is_empty_def points_def)

lemma points_intersect [simp]: "points (intersect x y) = points x \<inter> points y"
  by (auto simp: points_def intersect_def)

lemma points_subset_iff:
  "\<not> is_empty x \<Longrightarrow> points x \<subseteq> points y \<longleftrightarrow>
     rleft y \<le> rleft x \<and> rtop y \<le> rtop x \<and> rright x \<le> rright y \<and> rbottom x \<le> rbottom y"
  by (auto simp: points_def is_empty_def times_subset_iff)

lemma rect_plus_subset: "points x \<subseteq> points (rect_plus x y)" "points y \<subseteq> points (rect_plus x y)"
  by (auto simp: rect_plus_def points_def is_empty_def)

lemma rect_plus_least:
  assumes "points x \<subseteq> points z" "points y \<subseteq> points z"
  shows "points (rect_plus x y) \<subseteq> points z"
proof (cases "is_empty x \<or> is_empty y")
  case True
  with assms show ?thesis by (auto simp: rect_plus_def)
next
  case False
  with assms have "points (rect_plus x y) \<subseteq> points z \<longleftrightarrow> True"
    by (subst points_subset_iff) (auto simp: rect_plus_def points_subset_iff is_empty_def)
  then show ?thesis by simp
qed

lemma contains_rect_iff:
  assumes "\<not> is_empty y"
  shows "contains_rect x y \<longleftrightarrow> points y \<subseteq> points x"
proof (cases "is_empty x")
  case True
  with assms show ?thesis
    by (auto simp: contains_rect_def rect_plus_def is_empty_iff)
next
  case False
  with assms show ?thesis
    by (cases x) (auto simp: contains_rect_def rect_plus_def points_subset_iff is_empty_def)
qed

section \<open>Sizes\<close>

text \<open>A rectangle whose sides and area fit the types that hold them.\<close>

definition small :: "rectangle \<Rightarrow> bool" where
  "small x \<longleftrightarrow> \<bar>rleft x\<bar> < 2 ^ 30 \<and> \<bar>rtop x\<bar> < 2 ^ 30 \<and> \<bar>rright x\<bar> < 2 ^ 30 \<and> \<bar>rbottom x\<bar> < 2 ^ 30"

lemma width_small: "small x \<Longrightarrow> \<not> is_empty x \<Longrightarrow> width x = rright x - rleft x + 1"
  and height_small: "small x \<Longrightarrow> \<not> is_empty x \<Longrightarrow> height x = rbottom x - rtop x + 1"
  by (auto simp: small_def width_def height_def is_empty_def)

lemma size_bounds: "small x \<Longrightarrow> 0 \<le> width x \<and> width x < 2 ^ 31 \<and> 0 \<le> height x \<and> height x < 2 ^ 31"
  by (cases "is_empty x") (auto simp: small_def width_def height_def is_empty_def)

lemma area_small: "small x \<Longrightarrow> area x = width x * height x"
proof -
  assume "small x"
  from size_bounds [OF this] have "0 \<le> width x * height x" "width x * height x < 2 ^ 31 * 2 ^ 31"
    by (simp, intro mult_strict_mono) simp_all
  then show ?thesis by (simp add: area_def)
qed

lemma area_card: "small x \<Longrightarrow> area x = int (card (points x))"
proof (cases "is_empty x")
  case True
  moreover from this have "points x = {}" by (simp add: is_empty_iff)
  ultimately show ?thesis by (simp add: area_def width_def height_def)
next
  case False
  assume "small x"
  with False show ?thesis
    by (simp add: area_small width_small height_small points_def card_cartesian_product is_empty_def)
qed

lemma area_zero: "small x \<Longrightarrow> area x = 0 \<longleftrightarrow> is_empty x"
  by (auto simp: area_card is_empty_iff points_def)

lemma area_nonneg: "0 \<le> area x"
  by (simp add: area_def to_ulong_range)

lemma small_intersect: "small x \<Longrightarrow> small y \<Longrightarrow> small (intersect x y)"
  by (simp add: small_def intersect_def min_def max_def)

lemma small_plus: "small x \<Longrightarrow> small y \<Longrightarrow> small (rect_plus x y)"
  by (simp add: small_def rect_plus_def min_def max_def)

lemma finite_points [simp]: "finite (points x)"
  by (simp add: points_def)

lemma area_mono: "small x \<Longrightarrow> small y \<Longrightarrow> points x \<subseteq> points y \<Longrightarrow> area x \<le> area y"
  by (simp only: area_card of_nat_le_iff card_mono finite_points)

section \<open>Functions on rectangles\<close>

lemma c_div_2: "0 \<le> x \<Longrightarrow> c_div x 2 = x div 2" "x < 0 \<Longrightarrow> c_div x 2 = - (- x div 2)"
  by (auto simp: c_div_def sgn_if)

lemma rect_plus_comm: "\<not> is_empty x \<or> \<not> is_empty y \<Longrightarrow> rect_plus x y = rect_plus y x"
  by (auto simp: rect_plus_def min.commute max.commute)

lemma is_empty_plus: "is_empty (rect_plus x y) \<longleftrightarrow> is_empty x \<and> is_empty y"
  by (auto simp: rect_plus_def is_empty_def)

lemma rect_plus_assoc: "rect_plus (rect_plus x y) z = rect_plus x (rect_plus y z)"
proof (cases "is_empty x \<or> is_empty y \<or> is_empty z")
  case True
  then show ?thesis
    using is_empty_plus [of x y] is_empty_plus [of y z] by (auto simp: rect_plus_def)
next
  case False
  then have "\<not> is_empty (rect_plus x y)" "\<not> is_empty (rect_plus y z)" by (simp_all add: is_empty_plus)
  with False show ?thesis by (simp add: rect_plus_def min.assoc max.assoc)
qed

lemma div_le_self_int: "0 \<le> w \<Longrightarrow> w div 2 \<le> (w :: int)"
  by simp

lemma to_long_near:
  assumes "\<bar>x\<bar> < 2 ^ 61" "0 \<le> w" "w < 2 ^ 61" "0 \<le> v" "v \<le> w"
  shows "to_long (x - v + w - 1) = x - v + w - 1"
proof (intro to_long_id)
  have "(2 :: int) ^ 61 \<le> 2 ^ 63 - 2 ^ 61" by simp
  with assms show "fits_long (x - v + w - 1)" unfolding fits_long_def by linarith
qed

lemma centered_rect_eq:
  assumes "\<bar>x\<bar> < 2 ^ 61" "\<bar>y\<bar> < 2 ^ 61" "0 \<le> w" "w < 2 ^ 61" "0 \<le> h" "h < 2 ^ 61"
  shows "centered_rect x y w h =
    rect (x - w div 2) (y - h div 2) (x - w div 2 + w - 1) (y - h div 2 + h - 1)"
proof -
  have "to_long w = w" "to_long h = h" using assms by (simp_all add: fits_long_def)
  then have "c_div (to_long w) 2 = w div 2" "c_div (to_long h) 2 = h div 2"
    using assms by (simp_all add: c_div_2)
  moreover have "to_long (x - w div 2 + w - 1) = x - w div 2 + w - 1"
    "to_long (y - h div 2 + h - 1) = y - h div 2 + h - 1"
    using assms by (simp_all only: to_long_near pos_imp_zdiv_nonneg_iff zero_less_numeral div_le_self_int)
  ultimately show ?thesis by (simp add: centered_rect_def Let_def)
qed

lemma centered_rect_ok:
  assumes "\<bar>x\<bar> < 2 ^ 61" "\<bar>y\<bar> < 2 ^ 61" "0 < w" "w < 2 ^ 61" "0 < h" "h < 2 ^ 61"
  shows "width (centered_rect x y w h) = w" "height (centered_rect x y w h) = h"
    "center (centered_rect x y w h) = (x, y)"
proof -
  have r: "centered_rect x y w h =
      rect (x - w div 2) (y - h div 2) (x - w div 2 + w - 1) (y - h div 2 + h - 1)"
    using assms by (intro centered_rect_eq) simp_all
  show "width (centered_rect x y w h) = w" "height (centered_rect x y w h) = h"
    using assms by (simp_all add: r width_def height_def is_empty_def)
  have center: "c_div (if 2 * a + e < 0 then 2 * a + e - 1 else 2 * a + e) 2 = a"
    if "e = 0 \<or> e = 1" for a e :: int
    using that by (auto simp: c_div_2)
  have "x - w div 2 + (x - w div 2 + w - 1) + 1 = 2 * x + w mod 2"
    "y - h div 2 + (y - h div 2 + h - 1) + 1 = 2 * y + h mod 2"
    by presburger+
  moreover have "w mod 2 = 0 \<or> w mod 2 = 1" "h mod 2 = 0 \<or> h mod 2 = 1" by presburger+
  ultimately show "center (centered_rect x y w h) = (x, y)"
    using center by (simp add: center_def r Let_def)
qed

lemma centered_rect_empty:
  assumes "\<bar>x\<bar> < 2 ^ 61" "\<bar>y\<bar> < 2 ^ 61" "0 \<le> w" "w < 2 ^ 61" "0 \<le> h" "h < 2 ^ 61" "w = 0 \<or> h = 0"
  shows "is_empty (centered_rect x y w h)"
  using assms(7) unfolding centered_rect_eq [OF assms(1-6)] by (auto simp: is_empty_def)

lemma translate_rect_ok:
  "points (translate_rect rc x y) = (\<lambda>p. (fst p + x, snd p + y)) ` points rc"
proof -
  have "(a, b) \<in> (\<lambda>p. (fst p + x, snd p + y)) ` points rc"
    if "rleft rc + x \<le> a" "a \<le> rright rc + x" "rtop rc + y \<le> b" "b \<le> rbottom rc + y" for a b
    using that by (intro image_eqI [of _ _ "(a - x, b - y)"]) (auto simp: points_def)
  then show ?thesis
    by (auto simp: points_def translate_rect_def rectangle_default_def)
qed

lemma move_rect_ok:
  assumes "small rc" "\<not> is_empty rc" "\<bar>x\<bar> < 2 ^ 61" "\<bar>y\<bar> < 2 ^ 61"
  shows "tl_corner (move_rect rc x y) = (x, y)" "width (move_rect rc x y) = width rc"
    "height (move_rect rc x y) = height rc"
proof -
  have w: "1 \<le> width rc" "1 \<le> height rc"
    using assms by (auto simp: width_small height_small is_empty_def)
  have m: "move_rect rc x y = rect x y (x + width rc - 1) (y + height rc - 1)"
    using assms size_bounds [OF assms(1)] to_long_near [of x "width rc" 0] to_long_near [of y "height rc" 0]
    by (simp add: move_rect_def)
  show "tl_corner (move_rect rc x y) = (x, y)" by (simp add: m tl_corner_def)
  show "width (move_rect rc x y) = width rc" "height (move_rect rc x y) = height rc"
    using w size_bounds [OF assms(1)] by (simp_all add: m width_def [of "rect _ _ _ _"]
      height_def [of "rect _ _ _ _"] is_empty_def [of "rect _ _ _ _"])
qed

lemma grow_shrink: "grow_rect (shrink_rect x w h) w h = x" "shrink_rect (grow_rect x w h) w h = x"
  by (simp_all add: rectangle_defs)

subsection \<open>Distances\<close>

lemma nearest_point_in: "\<not> is_empty rc \<Longrightarrow> nearest_point rc p \<in> points rc"
  by (auto simp: nearest_point_def points_def is_empty_def)

lemma nearest_point_id: "p \<in> points rc \<Longrightarrow> nearest_point rc p = p"
  by (auto simp: nearest_point_def points_def)

lemma nearest_coordinate:
  fixes a lo hi q :: int
  assumes "lo \<le> q" "q \<le> hi"
  shows "\<bar>(if a < lo then lo else if a > hi then hi else a) - a\<bar> \<le> \<bar>q - a\<bar>"
  using assms by auto

lemma nearest_point_least:
  assumes "q \<in> points rc"
  shows "point_length (nearest_point rc p) p \<le> point_length q p"
proof -
  have sq: "a * a \<le> b * b" if "\<bar>a\<bar> \<le> \<bar>b\<bar>" for a b :: int
    using that by (simp add: abs_le_square_iff flip: power2_eq_square)
  have "(fst (nearest_point rc p) - fst p) * (fst (nearest_point rc p) - fst p) \<le> (fst q - fst p) * (fst q - fst p)"
    using nearest_coordinate [of "rleft rc" "fst q" "rright rc" "fst p"] assms
    by (intro sq) (auto simp: nearest_point_def points_def)
  moreover have "(snd (nearest_point rc p) - snd p) * (snd (nearest_point rc p) - snd p) \<le> (snd q - snd p) * (snd q - snd p)"
    using nearest_coordinate [of "rtop rc" "snd q" "rbottom rc" "snd p"] assms
    by (intro sq) (auto simp: nearest_point_def points_def)
  ultimately show ?thesis by (simp add: point_length_def flip: of_int_add of_int_mult)
qed

text \<open>The loop of \<open>nearest_rect\<close> keeps the index of the best rectangle so far.\<close>

definition rect_dist :: "rectangle \<Rightarrow> point \<Rightarrow> real" where
  "rect_dist rc p = point_length (nearest_point rc p) p"

lemma rect_dist_nonneg: "0 \<le> rect_dist rc p"
  by (simp add: rect_dist_def point_length_def)

lemma nearest_rect_loop_ok:
  assumes "\<forall>j < length seen. b \<le> rect_dist (seen ! j) p" "idx < length seen" "rect_dist (seen ! idx) p = b"
  shows "let k = nearest_rect_loop rects p (length seen) idx (Some b)
    in k < length (seen @ rects) \<and>
       (\<forall>j < length (seen @ rects). rect_dist ((seen @ rects) ! k) p \<le> rect_dist ((seen @ rects) ! j) p)"
  using assms
proof (induction rects arbitrary: seen idx b)
  case Nil
  then show ?case by simp
next
  case (Cons rc rects)
  let ?d = "rect_dist rc p"
  show ?case
  proof (cases "p \<in> points rc")
    case True
    then have "?d = 0" by (simp add: rect_dist_def nearest_point_id point_length_def)
    with True show ?thesis using rect_dist_nonneg [of _ p] by (simp add: nth_append)
  next
    case False
    have "Suc (length seen) = length (seen @ [rc])" by simp
    show ?thesis
    proof (cases "?d < b")
      case True
      have "\<forall>j < length (seen @ [rc]). ?d \<le> rect_dist ((seen @ [rc]) ! j) p"
        using Cons.prems(1) True by (auto simp: nth_append less_Suc_eq intro: less_imp_le order.trans)
      from Cons.IH [OF this, of "length seen"] True False show ?thesis
        by (simp add: Let_def rect_dist_def)
    next
      case ge: False
      have "\<forall>j < length (seen @ [rc]). b \<le> rect_dist ((seen @ [rc]) ! j) p"
        using Cons.prems(1) ge by (auto simp: nth_append less_Suc_eq)
      from Cons.IH [OF this, of idx] ge False Cons.prems(2,3) show ?thesis
        by (simp add: Let_def rect_dist_def nth_append)
    qed
  qed
qed

lemma nearest_rect_ok:
  assumes "rects \<noteq> []"
  shows "nearest_rect rects p < length rects"
    "j < length rects \<Longrightarrow> rect_dist (rects ! nearest_rect rects p) p \<le> rect_dist (rects ! j) p"
proof -
  obtain rc rest where r: "rects = rc # rest" using assms by (cases rects) auto
  have "nearest_rect rects p < length rects \<and>
    (\<forall>j < length rects. rect_dist (rects ! nearest_rect rects p) p \<le> rect_dist (rects ! j) p)"
  proof (cases "p \<in> points rc")
    case True
    then have "rect_dist rc p = 0" by (simp add: rect_dist_def nearest_point_id point_length_def)
    with True r show ?thesis using rect_dist_nonneg by (simp add: nearest_rect_def)
  next
    case False
    then show ?thesis using nearest_rect_loop_ok [of "[rc]" "rect_dist rc p" p 0 rest]
      by (simp add: r nearest_rect_def Let_def rect_dist_def)
  qed
  then show "nearest_rect rects p < length rects"
    "j < length rects \<Longrightarrow> rect_dist (rects ! nearest_rect rects p) p \<le> rect_dist (rects ! j) p" by auto
qed

subsection \<open>Clipping\<close>

lemma clip_line_in:
  assumes "\<not> is_empty box"
  shows "fst (clip_line_to_rectangle box p1 p2) \<in> points box"
    "snd (clip_line_to_rectangle box p1 p2) \<in> points box"
  using assms nearest_point_in by (simp_all add: clip_line_to_rectangle_def split: prod.split)

section \<open>Properties\<close>

text \<open>
  As sets of pixels, \<open>intersect\<close> is the intersection and \<open>operator+\<close> the smallest rectangle that
  contains both operands; empty operands, which have many representations, included.
\<close>

theorem rectangle_lattice:
  "points (intersect x y) = points x \<inter> points y \<and>
   (\<forall>z. points (rect_plus x y) \<subseteq> points z \<longleftrightarrow> points x \<subseteq> points z \<and> points y \<subseteq> points z)"
proof -
  have "points (rect_plus x y) \<subseteq> points z \<longleftrightarrow> points x \<subseteq> points z \<and> points y \<subseteq> points z" for z
    using rect_plus_subset(1) [of x y] rect_plus_subset(2) [where x = x and y = y]
      rect_plus_least [of x z y] by blast
  then show ?thesis by simp
qed

text \<open>
  \<open>area\<close>, computed with unsigned arithmetic that wraps around, is the number of pixels for all
  rectangles with coordinates below 2^30 in absolute value.
\<close>

theorem area_counts_pixels:
  assumes "small x"
  shows "area x = int (card (points x)) \<and> (area x = 0 \<longleftrightarrow> is_empty x)"
  using area_card [OF assms] area_zero [OF assms] by simp

theorem area_counts_pixels_witness:
  "area (rect 0 0 9 4) = 50 \<and> card (points (rect 0 0 9 4)) = 50"
  using area_counts_pixels [of "rect 0 0 9 4"]
  by (simp add: small_def area_def width_def height_def is_empty_def)

text \<open>
  \<open>nearest_rect\<close> returns the index of a rectangle of the list none of the others is closer than,
  where the distance of a rectangle is that of its pixel nearest to the point.
\<close>

theorem nearest_rect_is_nearest:
  assumes "j < length rects" "\<not> is_empty (rects ! j)" "q \<in> points (rects ! j)"
  shows "nearest_rect rects p < length rects \<and>
    point_length (nearest_point (rects ! nearest_rect rects p) p) p \<le> point_length q p"
proof -
  from assms(1) have ne: "rects \<noteq> []" by auto
  have "rect_dist (rects ! nearest_rect rects p) p \<le> rect_dist (rects ! j) p"
    by (rule nearest_rect_ok(2) [OF ne assms(1)])
  also have "\<dots> \<le> point_length q p" using nearest_point_least [OF assms(3)] by (simp add: rect_dist_def)
  finally show ?thesis using nearest_rect_ok(1) [OF ne] by (simp add: rect_dist_def)
qed

theorem nearest_rect_is_nearest_witness:
  "nearest_rect [rect 0 0 1 1, rect 5 0 9 9] (7, 10) = 1 \<and>
   point_length (nearest_point (rect 5 0 9 9) (7, 10)) (7, 10) \<le> point_length (5, 0) (7, 10)"
proof -
  have "nearest_rect [rect 0 0 1 1, rect 5 0 9 9] (7, 10) = 1"
    by (simp add: nearest_rect_def points_def nearest_point_def point_length_def Let_def real_less_rsqrt)
  with nearest_rect_is_nearest [of 1 "[rect 0 0 1 1, rect 5 0 9 9]" "(5, 0)" "(7, 10)"] show ?thesis
    by (simp add: is_empty_def points_def)
qed

text \<open>
  \<open>clip_line_to_rectangle\<close> moves an end point of a horizontal line that lies to the right of the
  box to the left border: the result is then not a part of the line, which its specification asks
  for. Here \<open>p2\<close> is in the box and right of its left border, and the new first point is left of both.
\<close>

theorem clip_line_leaves_line:
  assumes "p2 \<in> points box" "snd p1 = snd p2" "rright box < fst p1" "rleft box < fst p2"
  shows "clip_line_to_rectangle box p1 p2 = ((rleft box, snd p1), p2) \<and>
    fst (fst (clip_line_to_rectangle box p1 p2)) < min (fst p1) (fst p2)"
proof -
  from assms have p1: "p1 \<notin> points box" "fst p1 \<noteq> fst p2" by (auto simp: points_def)
  have "(rleft box, snd p1) \<in> points box" using assms(1,2) by (auto simp: points_def)
  then have "clip_line_to_rectangle box p1 p2 = ((rleft box, snd p1), p2)"
    using assms(1,2) p1 by (simp add: clip_line_to_rectangle_def nearest_point_id)
  then show ?thesis using assms by (auto simp: points_def)
qed

theorem clip_line_leaves_line_witness:
  "clip_line_to_rectangle (rect 0 0 10 10) (20, 5) (5, 5) = ((0, 5), (5, 5))"
  using clip_line_leaves_line [of "(5, 5)" "rect 0 0 10 10" "(20, 5)"] by (simp add: points_def)

end
