(* ===== verification/Box_Overlap.thy ===== *)
theory Box_Overlap
  imports Rectangle
begin

text \<open>
  \<open>geometry/drectangle.h\<close>, as far as it is used here, and
  \<open>image_processing/box_overlap_testing.h\<close>: how much two boxes overlap, the test non-maximum
  suppression uses, and the search for the tightest test a set of boxes passes.
  \<open>double\<close> is modelled as \<open>real\<close>.
\<close>

section \<open>Rectangles with real borders\<close>

record drectangle =
  dleft :: real
  dtop :: real
  dright :: real
  dbottom :: real

abbreviation drect :: "real \<Rightarrow> real \<Rightarrow> real \<Rightarrow> real \<Rightarrow> drectangle" where
  "drect l t r b \<equiv> \<lparr>dleft = l, dtop = t, dright = r, dbottom = b\<rparr>"

definition drectangle_of :: "rectangle \<Rightarrow> drectangle" where
  "drectangle_of x = drect (rleft x) (rtop x) (rright x) (rbottom x)"

definition rectangle_of_drectangle :: "drectangle \<Rightarrow> rectangle" where
  "rectangle_of_drectangle x = rect \<lfloor>dleft x + 1 / 2\<rfloor> \<lfloor>dtop x + 1 / 2\<rfloor> \<lfloor>dright x + 1 / 2\<rfloor> \<lfloor>dbottom x + 1 / 2\<rfloor>"

definition dis_empty :: "drectangle \<Rightarrow> bool" where
  "dis_empty x \<longleftrightarrow> dtop x > dbottom x \<or> dleft x > dright x"

definition dwidth :: "drectangle \<Rightarrow> real" where
  "dwidth x = (if dis_empty x then 0 else dright x - dleft x + 1)"

definition dheight :: "drectangle \<Rightarrow> real" where
  "dheight x = (if dis_empty x then 0 else dbottom x - dtop x + 1)"

definition darea :: "drectangle \<Rightarrow> real" where
  "darea x = dwidth x * dheight x"

definition drect_plus :: "drectangle \<Rightarrow> drectangle \<Rightarrow> drectangle" where
  "drect_plus x rhs =
     (if dis_empty rhs then x
      else if dis_empty x then rhs
      else drect (min (dleft x) (dleft rhs)) (min (dtop x) (dtop rhs))
             (max (dright x) (dright rhs)) (max (dbottom x) (dbottom rhs)))"

definition dintersect :: "drectangle \<Rightarrow> drectangle \<Rightarrow> drectangle" where
  "dintersect x rhs =
     drect (max (dleft x) (dleft rhs)) (max (dtop x) (dtop rhs))
       (min (dright x) (dright rhs)) (min (dbottom x) (dbottom rhs))"

definition dcontains_point :: "drectangle \<Rightarrow> real \<times> real \<Rightarrow> bool" where
  "dcontains_point x p \<longleftrightarrow>
     \<not> (fst p < dleft x \<or> fst p > dright x \<or> snd p < dtop x \<or> snd p > dbottom x)"

definition dcontains :: "drectangle \<Rightarrow> drectangle \<Rightarrow> bool" where
  "dcontains x rc \<longleftrightarrow> dis_empty rc \<or>
     (dleft x \<le> dleft rc \<and> dright x \<ge> dright rc \<and> dtop x \<le> dtop rc \<and> dbottom x \<ge> dbottom rc)"

section \<open>Overlap\<close>

definition box_intersection_over_union :: "drectangle \<Rightarrow> drectangle \<Rightarrow> real" where
  "box_intersection_over_union a b =
     (let inner = darea (dintersect a b)
      in if inner = 0 then 0 else inner / darea (drect_plus a b))"

definition rect_intersection_over_union :: "rectangle \<Rightarrow> rectangle \<Rightarrow> real" where
  "rect_intersection_over_union a b =
     box_intersection_over_union (drectangle_of a) (drectangle_of b)"

definition box_percent_covered :: "drectangle \<Rightarrow> drectangle \<Rightarrow> real" where
  "box_percent_covered a b =
     (let inner = darea (dintersect a b)
      in if inner = 0 then 0 else max (inner / darea a) (inner / darea b))"

definition rect_percent_covered :: "rectangle \<Rightarrow> rectangle \<Rightarrow> real" where
  "rect_percent_covered a b = box_percent_covered (drectangle_of a) (drectangle_of b)"

record test_box_overlap =
  iou_thresh :: real
  percent_covered_thresh :: real

definition test_box_overlap_default :: test_box_overlap where
  "test_box_overlap_default = \<lparr>iou_thresh = 1 / 2, percent_covered_thresh = 1\<rparr>"

definition boxes_overlap :: "test_box_overlap \<Rightarrow> rectangle \<Rightarrow> rectangle \<Rightarrow> bool" where
  "boxes_overlap tester a b =
     (let inner = real_of_int (area (intersect a b))
      in if inner = 0 then False
         else (let outer = real_of_int (area (rect_plus a b))
               in inner / outer > iou_thresh tester \<or>
                  inner / real_of_int (area a) > percent_covered_thresh tester \<or>
                  inner / real_of_int (area b) > percent_covered_thresh tester))"

definition overlaps_any_box :: "test_box_overlap \<Rightarrow> rectangle list \<Rightarrow> rectangle \<Rightarrow> bool" where
  "overlaps_any_box tester rects rc = list_ex (\<lambda>r. boxes_overlap tester r rc) rects"

text \<open>
  \<open>find_tight_overlap_tester\<close>: the state of the loops is \<open>(max_pcov, max_iou_score)\<close>. An empty
  rectangle has area 0; the quotient is then not a number in C and 0 here, and no comparison
  with it succeeds in either case.
\<close>

definition tight_step :: "rectangle \<Rightarrow> rectangle \<Rightarrow> real \<times> real \<Rightarrow> real \<times> real" where
  "tight_step a b acc =
     (let (max_pcov, max_iou_score) = acc;
          inner = real_of_int (area (intersect a b));
          iou_score = inner / real_of_int (area (rect_plus a b));
          pcov_a = inner / real_of_int (area a);
          pcov_b = inner / real_of_int (area b);
          max_iou_score = (if iou_score > max_iou_score then iou_score else max_iou_score);
          max_pcov = (if pcov_a > max_pcov then pcov_a else max_pcov);
          max_pcov = (if pcov_b > max_pcov then pcov_b else max_pcov)
      in (max_pcov, max_iou_score))"

fun tight_pairs :: "rectangle list \<Rightarrow> real \<times> real \<Rightarrow> real \<times> real" where
  "tight_pairs [] acc = acc"
| "tight_pairs (a # rest) acc = tight_pairs rest (fold (tight_step a) rest acc)"

definition find_tight_overlap_tester :: "rectangle list list \<Rightarrow> test_box_overlap" where
  "find_tight_overlap_tester rects =
     (let (max_pcov, max_iou_score) = fold tight_pairs rects (0, 0)
      in \<lparr>iou_thresh = min (10000001 / 10000000 * max_iou_score) 1,
          percent_covered_thresh = min (10000001 / 10000000 * max_pcov) 1\<rparr>)"

section \<open>Scores\<close>

definition iou :: "rectangle \<Rightarrow> rectangle \<Rightarrow> real" where
  "iou a b = real_of_int (area (intersect a b)) / real_of_int (area (rect_plus a b))"

definition covered :: "rectangle \<Rightarrow> rectangle \<Rightarrow> real" where
  "covered a b = real_of_int (area (intersect a b)) / real_of_int (area a)"

lemma drectangle_of_simps:
  "dis_empty (drectangle_of x) = is_empty x"
  "dintersect (drectangle_of x) (drectangle_of y) = drectangle_of (intersect x y)"
  "drect_plus (drectangle_of x) (drectangle_of y) = drectangle_of (rect_plus x y)"
proof -
  show emp: "dis_empty (drectangle_of x) = is_empty x" for x
    by (simp add: dis_empty_def drectangle_of_def is_empty_def)
  show "dintersect (drectangle_of x) (drectangle_of y) = drectangle_of (intersect x y)"
    by (simp add: dintersect_def drectangle_of_def intersect_def of_int_max of_int_min)
  show "drect_plus (drectangle_of x) (drectangle_of y) = drectangle_of (rect_plus x y)"
    by (simp add: drect_plus_def rect_plus_def emp) (simp add: drectangle_of_def of_int_max of_int_min)
qed

lemma darea_of: "small x \<Longrightarrow> darea (drectangle_of x) = real_of_int (area x)"
proof (cases "is_empty x")
  case True
  then show ?thesis by (simp add: darea_def dwidth_def drectangle_of_simps area_def width_def)
next
  case False
  assume "small x"
  with False show ?thesis
    by (simp add: darea_def dwidth_def dheight_def drectangle_of_simps area_small width_small
      height_small) (simp add: drectangle_of_def)
qed

lemma rect_iou_eq:
  assumes "small a" "small b"
  shows "rect_intersection_over_union a b = iou a b"
  using assms small_intersect [OF assms] small_plus [OF assms]
  by (simp add: rect_intersection_over_union_def box_intersection_over_union_def Let_def
    drectangle_of_simps darea_of iou_def)

lemma intersect_comm: "intersect a b = intersect b a"
  by (simp add: intersect_def min.commute max.commute)

lemma area_intersect_le:
  assumes "small a" "small b"
  shows "area (intersect a b) \<le> area a" "area (intersect a b) \<le> area b"
    "area (intersect a b) \<le> area (rect_plus a b)"
  using assms small_intersect [OF assms] small_plus [OF assms] rect_plus_subset [of a b]
  by (auto intro!: area_mono)

lemma iou_bounds: "small a \<Longrightarrow> small b \<Longrightarrow> 0 \<le> iou a b \<and> iou a b \<le> 1"
  using area_intersect_le [of a b] area_nonneg [of "intersect a b"] area_nonneg [of "rect_plus a b"]
  by (auto simp: iou_def divide_le_eq_1)

lemma covered_bounds: "small a \<Longrightarrow> small b \<Longrightarrow> 0 \<le> covered a b \<and> covered a b \<le> 1"
  using area_intersect_le [of a b] area_nonneg [of "intersect a b"] area_nonneg [of a]
  by (auto simp: covered_def divide_le_eq_1)

lemma iou_comm: "iou a b = iou b a"
proof (cases "is_empty a \<and> is_empty b")
  case True
  then have "is_empty (rect_plus a b)" "is_empty (rect_plus b a)" by (simp_all add: is_empty_plus)
  then show ?thesis by (simp add: iou_def area_def width_def)
next
  case False
  then show ?thesis using rect_plus_comm [of a b] by (simp add: iou_def intersect_comm)
qed

lemma iou_one:
  assumes "small a" "small b" "iou a b = 1"
  shows "a = b"
proof -
  note sm = small_intersect [OF assms(1,2)] small_plus [OF assms(1,2)]
  from assms(3) have "area (intersect a b) = area (rect_plus a b)" "area (rect_plus a b) \<noteq> 0"
    by (auto simp: iou_def divide_eq_1_iff)
  then have card: "card (points (intersect a b)) = card (points (rect_plus a b))"
    and ne: "points (rect_plus a b) \<noteq> {}"
    using sm by (simp_all add: area_card)
  have "points (intersect a b) \<subseteq> points (rect_plus a b)" using rect_plus_subset [of a b] by auto
  from card_subset_eq [OF _ this card] have eq: "points a \<inter> points b = points (rect_plus a b)" by simp
  have "points a = points (rect_plus a b)"
    using rect_plus_subset(1) [of a b] eq by (metis Int_lower1 subset_antisym)
  moreover have "points b = points (rect_plus a b)"
    using rect_plus_subset(2) [where x = a and y = b] eq by (metis Int_lower2 subset_antisym)
  ultimately have "points a = points b" "points a \<noteq> {}" using ne by simp_all
  then have ne: "\<not> is_empty a" "\<not> is_empty b" and sub: "points a \<subseteq> points b" "points b \<subseteq> points a"
    by (simp_all add: is_empty_iff)
  from sub(1) [unfolded points_subset_iff [OF ne(1)]] sub(2) [unfolded points_subset_iff [OF ne(2)]]
  have "rleft a = rleft b" "rtop a = rtop b" "rright a = rright b" "rbottom a = rbottom b"
    by linarith+
  then show ?thesis by (intro rectangle.equality) simp_all
qed

lemma boxes_overlap_iff:
  "boxes_overlap tester a b \<longleftrightarrow> area (intersect a b) \<noteq> 0 \<and>
     (iou a b > iou_thresh tester \<or> covered a b > percent_covered_thresh tester \<or>
      covered b a > percent_covered_thresh tester)"
  by (auto simp: boxes_overlap_def Let_def iou_def covered_def intersect_comm [of b a])

lemma boxes_overlap_comm: "boxes_overlap tester a b = boxes_overlap tester b a"
  by (auto simp: boxes_overlap_iff iou_comm [of a b] intersect_comm [of a b])

section \<open>The tightest tester\<close>

lemma tight_step_eq:
  "tight_step a b (p, i) = (max (max p (covered a b)) (covered b a), max i (iou a b))"
  by (simp add: tight_step_def Let_def iou_def covered_def intersect_comm [of b a] max_def)

definition above :: "real \<times> real \<Rightarrow> rectangle \<Rightarrow> rectangle \<Rightarrow> bool" where
  "above acc a b \<longleftrightarrow> iou a b \<le> snd acc \<and> covered a b \<le> fst acc \<and> covered b a \<le> fst acc"

definition grows :: "real \<times> real \<Rightarrow> real \<times> real \<Rightarrow> bool" where
  "grows acc acc' \<longleftrightarrow> fst acc \<le> fst acc' \<and> snd acc \<le> snd acc'"

lemma grows_above: "grows acc acc' \<Longrightarrow> above acc a b \<Longrightarrow> above acc' a b"
  by (auto simp: grows_def above_def)

lemma grows_trans: "grows x y \<Longrightarrow> grows y z \<Longrightarrow> grows x z"
  by (auto simp: grows_def)

lemma grows_refl [simp]: "grows acc acc"
  by (simp add: grows_def)

lemma fold_grows:
  assumes "\<And>x acc. grows acc (f x acc)"
  shows "grows acc (fold f xs acc)"
proof (induction xs arbitrary: acc)
  case (Cons x xs)
  from assms [of acc x] Cons [of "f x acc"] show ?case by (simp add: grows_trans)
qed simp

lemma tight_step_grows: "grows acc (tight_step a b acc)"
  by (cases acc) (simp add: tight_step_eq grows_def)

lemma fold_step_grows: "grows acc (fold (tight_step a) bs acc)"
  by (rule fold_grows) (rule tight_step_grows)

lemma fold_step_above: "b \<in> set bs \<Longrightarrow> above (fold (tight_step a) bs acc) a b"
proof (induction bs arbitrary: acc)
  case (Cons c bs)
  show ?case
  proof (cases "b = c")
    case True
    have "above (tight_step a c acc) a c" by (cases acc) (simp add: tight_step_eq above_def)
    from grows_above [OF fold_step_grows this] True show ?thesis by simp
  next
    case False
    with Cons show ?thesis by simp
  qed
qed simp

lemma tight_pairs_grows: "grows acc (tight_pairs rs acc)"
proof (induction rs acc rule: tight_pairs.induct)
  case (2 a rest acc)
  with fold_step_grows [of acc a rest] show ?case by (simp add: grows_trans)
qed simp

lemma tight_pairs_above:
  "j < k \<Longrightarrow> k < length rs \<Longrightarrow> above (tight_pairs rs acc) (rs ! j) (rs ! k)"
proof (induction rs acc arbitrary: j k rule: tight_pairs.induct)
  case (2 a rest acc)
  show ?case
  proof (cases j)
    case 0
    with "2.prems" have "rest ! (k - 1) \<in> set rest" "(a # rest) ! k = rest ! (k - 1)" by auto
    with 0 grows_above [OF tight_pairs_grows fold_step_above [of "rest ! (k - 1)" rest a acc]]
    show ?thesis by simp
  next
    case (Suc i)
    with "2.prems" "2.IH" [of i "k - 1"] show ?thesis by simp
  qed
qed simp

lemma fold_pairs_above:
  "rs \<in> set rss \<Longrightarrow> j < k \<Longrightarrow> k < length rs \<Longrightarrow> above (fold tight_pairs rss acc) (rs ! j) (rs ! k)"
proof (induction rss arbitrary: acc)
  case (Cons qs rss)
  have grows: "grows acc (fold tight_pairs rss acc)" for acc
    by (rule fold_grows) (rule tight_pairs_grows)
  show ?case
  proof (cases "rs = qs")
    case True
    from grows_above [OF grows tight_pairs_above [OF Cons.prems(2,3), of acc]] True
    show ?thesis by simp
  next
    case False
    with Cons show ?thesis by simp
  qed
qed simp

lemma relaxed_ge:
  fixes m s :: real
  assumes "s \<le> m" "s \<le> 1" "0 \<le> m"
  shows "s \<le> min (10000001 / 10000000 * m) 1"
  using assms by simp

lemma find_tight_ok:
  assumes "rs \<in> set rects" "j < k" "k < length rs" "small (rs ! j)" "small (rs ! k)"
  shows "\<not> boxes_overlap (find_tight_overlap_tester rects) (rs ! j) (rs ! k)"
proof -
  obtain p i where acc: "fold tight_pairs rects (0, 0) = (p, i)" by (cases "fold tight_pairs rects (0, 0)")
  from fold_pairs_above [OF assms(1-3), of "(0, 0)"] acc
  have ab: "iou (rs ! j) (rs ! k) \<le> i" "covered (rs ! j) (rs ! k) \<le> p" "covered (rs ! k) (rs ! j) \<le> p"
    by (simp_all add: above_def)
  note b = iou_bounds [OF assms(4,5)] covered_bounds [OF assms(4,5)] covered_bounds [OF assms(5,4)]
  have "iou (rs ! j) (rs ! k) \<le> iou_thresh (find_tight_overlap_tester rects)"
    "covered (rs ! j) (rs ! k) \<le> percent_covered_thresh (find_tight_overlap_tester rects)"
    "covered (rs ! k) (rs ! j) \<le> percent_covered_thresh (find_tight_overlap_tester rects)"
    using relaxed_ge ab b by (simp_all add: find_tight_overlap_tester_def acc)
  then show ?thesis by (auto simp: boxes_overlap_iff)
qed

section \<open>Properties\<close>

text \<open>
  The intersection over union of two rectangles is symmetric, lies between 0 and 1, and is 1
  exactly for equal rectangles that are not empty.
\<close>

theorem intersection_over_union_range:
  assumes "small a" "small b"
  shows "0 \<le> rect_intersection_over_union a b \<and> rect_intersection_over_union a b \<le> 1 \<and>
    rect_intersection_over_union a b = rect_intersection_over_union b a \<and>
    (rect_intersection_over_union a b = 1 \<longleftrightarrow> a = b \<and> \<not> is_empty a)"
proof -
  note eq = rect_iou_eq [OF assms] rect_iou_eq [OF assms(2,1)]
  have "intersect a a = a" "rect_plus a a = a"
    by (intro rectangle.equality; simp add: intersect_def rect_plus_def)+
  then have "iou a a = (if is_empty a then 0 else 1)"
    using area_zero [OF assms(1)] by (simp add: iou_def)
  then show ?thesis
    using iou_bounds [OF assms] iou_comm [of a b] iou_one [OF assms] by (auto simp: eq split: if_splits)
qed

theorem intersection_over_union_range_witness:
  "rect_intersection_over_union (rect 0 0 9 9) (rect 0 0 9 9) = 1"
  using intersection_over_union_range [of "rect 0 0 9 9" "rect 0 0 9 9"]
  by (simp add: small_def is_empty_def)

text \<open>
  The tester that \<open>find_tight_overlap_tester\<close> computes does not match any two boxes of one of the
  given lists, so that no annotated pair would be suppressed.
\<close>

theorem tight_tester_separates:
  assumes "rs \<in> set rects" "j < k" "k < length rs" "small (rs ! j)" "small (rs ! k)"
  shows "\<not> boxes_overlap (find_tight_overlap_tester rects) (rs ! j) (rs ! k)"
  using assms by (rule find_tight_ok)

theorem tight_tester_separates_witness:
  "\<not> boxes_overlap (find_tight_overlap_tester [[rect 0 0 9 9, rect 5 5 14 14]])
      (rect 0 0 9 9) (rect 5 5 14 14)"
  using tight_tester_separates [of "[rect 0 0 9 9, rect 5 5 14 14]"
      "[[rect 0 0 9 9, rect 5 5 14 14]]" 0 1]
  by (simp add: small_def)

end
