(* ===== verification/Object_Detector.thy ===== *)
theory Object_Detector
  imports Box_Overlap Checked_Assert "HOL-Library.Sublist"
begin

text \<open>
  \<open>image_processing/object_detector.h\<close>: a sliding window detector runs its weight vectors over
  an image and suppresses the detections that overlap a better one. The image scanner is the
  template parameter \<open>image_scanner_type\<close>, the record \<open>scanner_ops\<close> here; a weight vector is
  its list of coefficients, the threshold last. \<open>std::sort\<close> on reverse iterators is the
  parameter \<open>sorter\<close>, of which the theorems assume what the standard promises.
\<close>

section \<open>Data\<close>

record rect_detection =
  detection_confidence :: real
  weight_index :: nat
  det_rect :: rectangle

record ('sc, 'img, 'full) scanner_ops =
  sc_default :: 'sc
  sc_load :: "'img \<Rightarrow> 'sc \<Rightarrow> 'sc"
  sc_num_dimensions :: "'sc \<Rightarrow> nat"
  sc_num_detection_templates :: "'sc \<Rightarrow> nat"
  sc_detect :: "'sc \<Rightarrow> real list \<Rightarrow> real \<Rightarrow> (real \<times> rectangle) list"
  sc_full_object_detection :: "'sc \<Rightarrow> rectangle \<Rightarrow> real list \<Rightarrow> 'full"
  sc_copy_configuration :: "'sc \<Rightarrow> 'sc \<Rightarrow> 'sc"

record 'sc object_detector =
  overlap_tester :: test_box_overlap
  weights :: "real list list"
  scanner :: 'sc

section \<open>Constructors\<close>

definition object_detector_one ::
  "('sc, 'img, 'full) scanner_ops \<Rightarrow> 'sc \<Rightarrow> test_box_overlap \<Rightarrow> real list \<Rightarrow> 'sc object_detector" where
  "object_detector_one sc scnr tester w0 =
     \<lparr>overlap_tester = tester, weights = [w0],
      scanner = sc_copy_configuration sc (sc_default sc) scnr\<rparr>"

definition object_detector_many ::
  "('sc, 'img, 'full) scanner_ops \<Rightarrow> 'sc \<Rightarrow> test_box_overlap \<Rightarrow> real list list \<Rightarrow> 'sc object_detector outcome" where
  "object_detector_many sc scnr tester ws =
     dlib_cassert (sc_num_detection_templates sc scnr > 0 \<and> length ws > 0)
       (dlib_cassert (list_all (\<lambda>w. length w = sc_num_dimensions sc scnr + 1) ws)
         (Returns \<lparr>overlap_tester = tester, weights = ws,
            scanner = sc_copy_configuration sc (sc_default sc) scnr\<rparr>))"

definition num_detectors :: "'sc object_detector \<Rightarrow> nat" where
  "num_detectors d = length (weights d)"

definition object_detector_merge ::
  "('sc, 'img, 'full) scanner_ops \<Rightarrow> 'sc object_detector list \<Rightarrow> 'sc object_detector outcome" where
  "object_detector_merge sc detectors =
     dlib_cassert (length detectors \<noteq> 0)
       (let ws = concat (map (\<lambda>d. map ((!) (weights d)) [0..<num_detectors d]) detectors)
        in object_detector_many sc (scanner (hd detectors)) (overlap_tester (hd detectors)) ws)"

definition object_detector_copy ::
  "('sc, 'img, 'full) scanner_ops \<Rightarrow> 'sc object_detector \<Rightarrow> 'sc object_detector \<Rightarrow> 'sc object_detector" where
  "object_detector_copy sc this item =
     \<lparr>overlap_tester = overlap_tester item, weights = weights item,
      scanner = sc_copy_configuration sc (scanner this) (scanner item)\<rparr>"

section \<open>Detection\<close>

definition overlaps_any :: "test_box_overlap \<Rightarrow> rect_detection list \<Rightarrow> rectangle \<Rightarrow> bool" where
  "overlaps_any tester rects rc = list_ex (\<lambda>r. boxes_overlap tester (det_rect r) rc) rects"

text \<open>The detections of all weight vectors, before suppression; \<open>i\<close> counts the vectors.\<close>

fun accumulate ::
  "('sc, 'img, 'full) scanner_ops \<Rightarrow> 'sc \<Rightarrow> real \<Rightarrow> nat \<Rightarrow> real list list \<Rightarrow> rect_detection list" where
  "accumulate sc s adjust i [] = []"
| "accumulate sc s adjust i (w # ws) =
     (let thresh = w ! sc_num_dimensions sc s;
          dets = sc_detect sc s w (thresh + adjust)
      in map (\<lambda>(score, r). \<lparr>detection_confidence = score - thresh, weight_index = i, det_rect = r\<rparr>) dets
         @ accumulate sc s adjust (i + 1) ws)"

fun suppress :: "test_box_overlap \<Rightarrow> rect_detection list \<Rightarrow> rect_detection list \<Rightarrow> rect_detection list" where
  "suppress tester final_dets [] = final_dets"
| "suppress tester final_dets (d # dets_accum) =
     (if overlaps_any tester final_dets (det_rect d)
      then suppress tester final_dets dets_accum
      else suppress tester (final_dets @ [d]) dets_accum)"

definition detect ::
  "('sc, 'img, 'full) scanner_ops \<Rightarrow> (rect_detection list \<Rightarrow> rect_detection list) \<Rightarrow>
     'sc object_detector \<Rightarrow> 'img \<Rightarrow> real \<Rightarrow> 'sc object_detector \<times> rect_detection list" where
  "detect sc sorter this img adjust_threshold =
     (let s = sc_load sc img (scanner this);
          dets_accum = accumulate sc s adjust_threshold 0 (weights this);
          dets_accum = (if length (weights this) > 1 then sorter dets_accum else dets_accum)
      in (this\<lparr>scanner := s\<rparr>, suppress (overlap_tester this) [] dets_accum))"

text \<open>The other overloads convert the result.\<close>

definition detect_full ::
  "('sc, 'img, 'full) scanner_ops \<Rightarrow> (rect_detection list \<Rightarrow> rect_detection list) \<Rightarrow>
     'sc object_detector \<Rightarrow> 'img \<Rightarrow> real \<Rightarrow> 'sc object_detector \<times> (real \<times> nat \<times> 'full) list" where
  "detect_full sc sorter this img adjust_threshold =
     (let (this, dets) = detect sc sorter this img adjust_threshold
      in (this, map (\<lambda>d. (detection_confidence d, weight_index d,
           sc_full_object_detection sc (scanner this) (det_rect d) (weights this ! weight_index d))) dets))"

definition detect_rects ::
  "('sc, 'img, 'full) scanner_ops \<Rightarrow> (rect_detection list \<Rightarrow> rect_detection list) \<Rightarrow>
     'sc object_detector \<Rightarrow> 'img \<Rightarrow> real \<Rightarrow> 'sc object_detector \<times> rectangle list" where
  "detect_rects sc sorter this img adjust_threshold =
     (let (this, dets) = detect sc sorter this img adjust_threshold in (this, map det_rect dets))"

definition detect_scored ::
  "('sc, 'img, 'full) scanner_ops \<Rightarrow> (rect_detection list \<Rightarrow> rect_detection list) \<Rightarrow>
     'sc object_detector \<Rightarrow> 'img \<Rightarrow> real \<Rightarrow> 'sc object_detector \<times> (real \<times> rectangle) list" where
  "detect_scored sc sorter this img adjust_threshold =
     (let (this, dets) = detect sc sorter this img adjust_threshold
      in (this, map (\<lambda>d. (detection_confidence d, det_rect d)) dets))"

definition detect_scored_full ::
  "('sc, 'img, 'full) scanner_ops \<Rightarrow> (rect_detection list \<Rightarrow> rect_detection list) \<Rightarrow>
     'sc object_detector \<Rightarrow> 'img \<Rightarrow> real \<Rightarrow> 'sc object_detector \<times> (real \<times> 'full) list" where
  "detect_scored_full sc sorter this img adjust_threshold =
     (let (this, dets) = detect sc sorter this img adjust_threshold
      in (this, map (\<lambda>d. (detection_confidence d,
           sc_full_object_detection sc (scanner this) (det_rect d) (weights this ! weight_index d))) dets))"

section \<open>Non-maximum suppression\<close>

lemma overlaps_any_iff:
  "overlaps_any tester rs rc \<longleftrightarrow> (\<exists>r \<in> set rs. boxes_overlap tester (det_rect r) rc)"
  by (auto simp: overlaps_any_def list_ex_iff)

abbreviation apart :: "test_box_overlap \<Rightarrow> rect_detection \<Rightarrow> rect_detection \<Rightarrow> bool" where
  "apart tester a b \<equiv> \<not> boxes_overlap tester (det_rect a) (det_rect b)"

text \<open>The suppression is a greedy choice: it keeps the detections it has and appends some of the
  new ones, in their order.\<close>

lemma suppress_split: "\<exists>kept. suppress tester acc ds = acc @ kept \<and> subseq kept ds"
proof (induction tester acc ds rule: suppress.induct)
  case (2 tester acc d ds)
  show ?case
  proof (cases "overlaps_any tester acc (det_rect d)")
    case True
    with 2 show ?thesis by (auto intro: subseq_Cons')
  next
    case False
    with 2 obtain kept where "suppress tester (acc @ [d]) ds = (acc @ [d]) @ kept" "subseq kept ds" by blast
    with False show ?thesis by (intro exI [of _ "d # kept"]) simp
  qed
qed simp

lemma suppress_apart:
  "sorted_wrt (apart tester) acc \<Longrightarrow> sorted_wrt (apart tester) (suppress tester acc ds)"
proof (induction tester acc ds rule: suppress.induct)
  case (2 tester acc d ds)
  show ?case
  proof (cases "overlaps_any tester acc (det_rect d)")
    case False
    then have "sorted_wrt (apart tester) (acc @ [d])"
      using "2.prems" by (auto simp: sorted_wrt_append overlaps_any_iff)
    with 2 False show ?thesis by simp
  qed (use 2 in simp)
qed simp

lemma subseq_snd_sorted: "subseq xs ys \<Longrightarrow> sorted_wrt P ys \<Longrightarrow> sorted_wrt P xs"
proof (induction xs ys rule: list_emb.induct)
  case (list_emb_Cons2 x y xs ys)
  then show ?case by (auto dest: list_emb_set)
qed simp_all

text \<open>Whatever is dropped overlaps a detection that was kept before it.\<close>

lemma suppress_complete:
  "ds = pre @ d # post \<Longrightarrow> d \<notin> set (suppress tester acc ds) \<Longrightarrow>
     \<exists>k \<in> set acc \<union> set pre. k \<in> set (suppress tester acc ds) \<and>
       boxes_overlap tester (det_rect k) (det_rect d)"
proof (induction pre arbitrary: acc ds)
  case Nil
  have keep: "set acc \<subseteq> set (suppress tester acc ds)" for acc ds
    using suppress_split [of tester acc ds] by auto
  show ?case
  proof (cases "overlaps_any tester acc (det_rect d)")
    case True
    then obtain k where "k \<in> set acc" "boxes_overlap tester (det_rect k) (det_rect d)"
      by (auto simp: overlaps_any_iff)
    with keep [of acc ds] show ?thesis by auto
  next
    case False
    with Nil keep [of "acc @ [d]" post] show ?thesis by auto
  qed
next
  case (Cons p pre)
  have ds: "ds = p # (pre @ d # post)" using Cons.prems(1) by simp
  show ?case
  proof (cases "overlaps_any tester acc (det_rect p)")
    case True
    then have eq: "suppress tester acc ds = suppress tester acc (pre @ d # post)" using ds by simp
    with Cons.prems(2) Cons.IH [OF refl, of acc] show ?thesis by auto
  next
    case False
    then have eq: "suppress tester acc ds = suppress tester (acc @ [p]) (pre @ d # post)" using ds by simp
    with Cons.prems(2) Cons.IH [OF refl, of "acc @ [p]"] show ?thesis by auto
  qed
qed

text \<open>What \<open>std::sort(rbegin, rend)\<close> promises: the same elements, the best first.\<close>

definition sorts_descending :: "(rect_detection list \<Rightarrow> rect_detection list) \<Rightarrow> bool" where
  "sorts_descending sorter \<longleftrightarrow> (\<forall>ds. mset (sorter ds) = mset ds \<and>
     sorted_wrt (\<lambda>a b. detection_confidence a \<ge> detection_confidence b) (sorter ds))"

definition candidates ::
  "('sc, 'img, 'full) scanner_ops \<Rightarrow> 'sc object_detector \<Rightarrow> 'img \<Rightarrow> real \<Rightarrow> rect_detection list" where
  "candidates sc this img adjust = accumulate sc (sc_load sc img (scanner this)) adjust 0 (weights this)"

lemma detect_apart:
  "sorted_wrt (apart (overlap_tester this)) (snd (detect sc sorter this img adjust))"
  by (simp add: detect_def Let_def suppress_apart)

text \<open>
  With one weight vector \<open>detect\<close> does not sort: it relies on the scanner, whose \<open>detect\<close> is documented to
  deliver its boxes in descending order (\<open>scan_fhog_pyramid_abstract.h\<close>).
\<close>

definition detects_descending :: "('sc, 'img, 'full) scanner_ops \<Rightarrow> bool" where
  "detects_descending sc \<longleftrightarrow> (\<forall>s w t. sorted_wrt (\<lambda>a b. fst a \<ge> fst b) (sc_detect sc s w t))"

lemma detect_ranked:
  assumes "sorts_descending sorter" "detects_descending sc \<or> length (weights this) \<noteq> 1"
  obtains ds where "snd (detect sc sorter this img adjust) = suppress (overlap_tester this) [] ds"
    "mset ds = mset (candidates sc this img adjust)"
    "sorted_wrt (\<lambda>a b. detection_confidence a \<ge> detection_confidence b) ds"
proof (cases "length (weights this) > 1")
  case True
  show ?thesis
  proof (rule that)
    show "snd (detect sc sorter this img adjust) = suppress (overlap_tester this) [] (sorter (candidates sc this img adjust))"
      using True by (simp add: detect_def Let_def candidates_def)
    show "mset (sorter (candidates sc this img adjust)) = mset (candidates sc this img adjust)"
      "sorted_wrt (\<lambda>a b. detection_confidence a \<ge> detection_confidence b) (sorter (candidates sc this img adjust))"
      using assms(1) by (simp_all add: sorts_descending_def)
  qed
next
  case False
  then consider "weights this = []" | w where "weights this = [w]" by (cases "weights this") auto
  then have "sorted_wrt (\<lambda>a b. detection_confidence a \<ge> detection_confidence b) (candidates sc this img adjust)"
  proof cases
    case 2
    with assms(2) have "detects_descending sc" by simp
    with 2 show ?thesis
      by (simp add: candidates_def Let_def detects_descending_def sorted_wrt_map case_prod_beta)
  qed (simp add: candidates_def)
  moreover have "snd (detect sc sorter this img adjust) = suppress (overlap_tester this) [] (candidates sc this img adjust)"
    using False by (simp add: detect_def Let_def candidates_def)
  ultimately show ?thesis using that by blast
qed

lemma detect_best_first:
  assumes "sorts_descending sorter" "detects_descending sc \<or> length (weights this) \<noteq> 1"
  shows "sorted_wrt (\<lambda>a b. detection_confidence a \<ge> detection_confidence b)
    (snd (detect sc sorter this img adjust))"
proof -
  obtain ds where ds: "snd (detect sc sorter this img adjust) = suppress (overlap_tester this) [] ds"
    "sorted_wrt (\<lambda>a b. detection_confidence a \<ge> detection_confidence b) ds"
    using detect_ranked [OF assms] by metis
  then show ?thesis using suppress_split [of "overlap_tester this" "[]" ds] subseq_snd_sorted by auto
qed

lemma detect_subset:
  assumes "sorts_descending sorter"
  shows "set (snd (detect sc sorter this img adjust)) \<subseteq> set (candidates sc this img adjust)"
proof -
  have set: "set (sorter ds) = set ds" for ds
    using assms by (metis sorts_descending_def set_mset_mset)
  have sub: "set (suppress tester [] ds) \<subseteq> set ds" for tester ds
    using suppress_split [of tester "[]" ds] by (auto dest: list_emb_set)
  show ?thesis
    using sub [of "overlap_tester this" "candidates sc this img adjust"]
      sub [of "overlap_tester this" "sorter (candidates sc this img adjust)"]
    by (simp add: detect_def Let_def candidates_def set)
qed

lemma detect_complete:
  assumes "sorts_descending sorter" "detects_descending sc \<or> length (weights this) \<noteq> 1"
    and "d \<in> set (candidates sc this img adjust)" "d \<notin> set (snd (detect sc sorter this img adjust))"
  shows "\<exists>k \<in> set (snd (detect sc sorter this img adjust)).
    boxes_overlap (overlap_tester this) (det_rect k) (det_rect d) \<and>
    detection_confidence k \<ge> detection_confidence d"
proof -
  obtain ds where out: "snd (detect sc sorter this img adjust) = suppress (overlap_tester this) [] ds"
    and ds: "mset ds = mset (candidates sc this img adjust)"
    "sorted_wrt (\<lambda>a b. detection_confidence a \<ge> detection_confidence b) ds"
    using detect_ranked [OF assms(1,2)] by metis
  have "d \<in> set ds" using ds(1) assms(3) by (metis set_mset_mset)
  then obtain pre post where split: "ds = pre @ d # post" by (meson split_list)
  from suppress_complete [OF this, of "overlap_tester this" "[]"] assms(4) out obtain k where k:
    "k \<in> set pre" "k \<in> set (suppress (overlap_tester this) [] ds)"
    "boxes_overlap (overlap_tester this) (det_rect k) (det_rect d)" by auto
  with ds(2) split have "detection_confidence k \<ge> detection_confidence d" by (auto simp: sorted_wrt_append)
  with k out show ?thesis by auto
qed

text \<open>Every candidate passes the threshold if the scanner keeps its own promise.\<close>

definition detect_respects_threshold :: "('sc, 'img, 'full) scanner_ops \<Rightarrow> bool" where
  "detect_respects_threshold sc \<longleftrightarrow> (\<forall>s w t. \<forall>(score, r) \<in> set (sc_detect sc s w t). score \<ge> t)"

lemma accumulate_threshold:
  "detect_respects_threshold sc \<Longrightarrow> d \<in> set (accumulate sc s adjust i ws) \<Longrightarrow>
     adjust \<le> detection_confidence d \<and> i \<le> weight_index d \<and> weight_index d < i + length ws"
proof (induction sc s adjust i ws rule: accumulate.induct)
  case (2 sc s adjust i w ws)
  let ?t = "w ! sc_num_dimensions sc s"
  from "2.prems"(2) consider score r where "(score, r) \<in> set (sc_detect sc s w (?t + adjust))"
      "d = \<lparr>detection_confidence = score - ?t, weight_index = i, det_rect = r\<rparr>"
    | "d \<in> set (accumulate sc s adjust (i + 1) ws)" by (auto simp: Let_def)
  then show ?case
  proof cases
    case 1
    with "2.prems"(1) show ?thesis by (fastforce simp: detect_respects_threshold_def)
  next
    case 2
    from "2.IH" [OF refl refl "2.prems"(1) this] show ?thesis by simp
  qed
qed simp

section \<open>Properties\<close>

text \<open>A scanner that finds two boxes per weight vector, for the instances below.\<close>

definition sample_scanner :: "(unit, unit, unit) scanner_ops" where
  "sample_scanner = \<lparr>sc_default = (), sc_load = (\<lambda>i s. ()), sc_num_dimensions = (\<lambda>s. 1),
     sc_num_detection_templates = (\<lambda>s. 1),
     sc_detect = (\<lambda>s w t. [(t + hd w, rect 0 0 9 9), (t, rect 50 50 59 59)]),
     sc_full_object_detection = (\<lambda>s r w. ()), sc_copy_configuration = (\<lambda>s t. ())\<rparr>"

definition sample_detector :: "unit object_detector" where
  "sample_detector = \<lparr>overlap_tester = test_box_overlap_default, weights = [[2, 0], [1, 0]], scanner = ()\<rparr>"

definition sample_sorter :: "rect_detection list \<Rightarrow> rect_detection list" where
  "sample_sorter = sort_key (\<lambda>d. - detection_confidence d)"

lemma sample_sorter_ok: "sorts_descending sample_sorter"
proof -
  have "sorted (map (\<lambda>d. - detection_confidence d) (sample_sorter ds))" for ds
    by (simp add: sample_sorter_def)
  then have "sorted_wrt (\<lambda>a b. detection_confidence a \<ge> detection_confidence b) (sample_sorter ds)" for ds
    by (simp add: sorted_map)
  then show ?thesis by (simp add: sorts_descending_def sample_sorter_def)
qed

text \<open>
  C15. Non-maximum suppression: no two detections returned match under the overlap tester, they come
  in order of decreasing confidence, every one was found by the scanner, and whatever the scanner
  found and is missing matches a returned detection of at least its confidence. A detector with one
  weight vector does not sort, so that this rests on the scanner, which has to deliver its boxes in descending order as it is
  documented to do; with more of them nothing is assumed of the scanner.
\<close>

theorem detect_suppresses:
  assumes "sorts_descending sorter" "detects_descending sc \<or> length (weights this) \<noteq> 1"
  shows "sorted_wrt (apart (overlap_tester this)) (snd (detect sc sorter this img adjust)) \<and>
    sorted_wrt (\<lambda>a b. detection_confidence a \<ge> detection_confidence b) (snd (detect sc sorter this img adjust)) \<and>
    set (snd (detect sc sorter this img adjust)) \<subseteq> set (candidates sc this img adjust) \<and>
    (\<forall>d \<in> set (candidates sc this img adjust). d \<in> set (snd (detect sc sorter this img adjust)) \<or>
       (\<exists>k \<in> set (snd (detect sc sorter this img adjust)).
          boxes_overlap (overlap_tester this) (det_rect k) (det_rect d) \<and>
          detection_confidence k \<ge> detection_confidence d))"
  using detect_apart [of this sc sorter img adjust] detect_best_first [OF assms, of img adjust]
    detect_subset [OF assms(1), of sc this img adjust] detect_complete [OF assms, of _ img adjust]
  by blast

theorem detect_suppresses_witness:
  "sorted_wrt (apart test_box_overlap_default) (snd (detect sample_scanner sample_sorter sample_detector () 0)) \<and>
   sorted_wrt (apart test_box_overlap_default)
     (snd (detect (sample_scanner\<lparr>sc_detect := \<lambda>s w t. [(t + 2, rect 0 0 9 9), (t, rect 1 1 9 9)]\<rparr>)
        sample_sorter (sample_detector\<lparr>weights := [[2, 0]]\<rparr>) () 0))"
proof
  show "sorted_wrt (apart test_box_overlap_default) (snd (detect sample_scanner sample_sorter sample_detector () 0))"
    using detect_suppresses [OF sample_sorter_ok, of sample_scanner sample_detector "()" 0]
    by (simp add: sample_detector_def)
  let ?sc = "sample_scanner\<lparr>sc_detect := \<lambda>s w t. [(t + 2, rect 0 0 9 9), (t, rect 1 1 9 9)]\<rparr>"
  have "detects_descending ?sc" by (simp add: detects_descending_def)
  with detect_suppresses [OF sample_sorter_ok, of ?sc "sample_detector\<lparr>weights := [[2, 0]]\<rparr>" "()" 0]
  show "sorted_wrt (apart test_box_overlap_default)
     (snd (detect ?sc sample_sorter (sample_detector\<lparr>weights := [[2, 0]]\<rparr>) () 0))"
    by (simp add: sample_detector_def)
qed

text \<open>
  With a scanner that returns only boxes scored at least the threshold it was given, every
  detection has a confidence of at least the adjustment, and its weight index names one of the
  detector's weight vectors.
\<close>

theorem detect_confident:
  assumes "sorts_descending sorter" "detect_respects_threshold sc"
    and "d \<in> set (snd (detect sc sorter this img adjust))"
  shows "adjust \<le> detection_confidence d \<and> weight_index d < num_detectors this"
proof -
  have "d \<in> set (candidates sc this img adjust)" using detect_subset [OF assms(1), of sc this img adjust] assms(3) by blast
  from accumulate_threshold [OF assms(2) this [unfolded candidates_def]] show ?thesis
    by (simp add: num_detectors_def)
qed

theorem detect_confident_witness:
  "\<exists>d. d \<in> set (snd (detect (sample_scanner\<lparr>sc_detect := \<lambda>s w t. [(t, rect 0 0 9 9)]\<rparr>)
      sample_sorter (sample_detector\<lparr>weights := [[2, 0]]\<rparr>) () 1)) \<and>
    1 \<le> detection_confidence d \<and> weight_index d < 1"
proof -
  let ?sc = "sample_scanner\<lparr>sc_detect := \<lambda>s w t. [(t, rect 0 0 9 9)]\<rparr>"
  let ?det = "sample_detector\<lparr>weights := [[2, 0]]\<rparr>"
  let ?d = "\<lparr>detection_confidence = 1, weight_index = 0, det_rect = rect 0 0 9 9\<rparr>"
  have t: "detect_respects_threshold ?sc" by (simp add: detect_respects_threshold_def)
  have d: "?d \<in> set (snd (detect ?sc sample_sorter ?det () 1))"
    by (simp add: detect_def sample_scanner_def sample_detector_def overlaps_any_def)
  from detect_confident [OF sample_sorter_ok t d] show ?thesis
    using d by (auto simp: num_detectors_def)
qed

end
