(* ===== verification/Serialize_Detector.thy ===== *)
theory Serialize_Detector
  imports Float_Details Object_Detector
begin

text \<open>
  Saving the face detector and what it is made of: the functions \<open>serialize\<close> and \<open>deserialize\<close> of
  \<open>geometry/rectangle.h\<close>, \<open>geometry/drectangle.h\<close>, \<open>matrix/matrix.h\<close>,
  \<open>image_processing/box_overlap_testing.h\<close> and \<open>image_processing/object_detector.h\<close>. The detector of the
  program is read from a stream by \<open>deserialize\<close>.
\<close>

section \<open>Real numbers\<close>

text \<open>
  The geometry is modelled over \<open>real\<close>: the two zeros are one number, and an infinity or NaN that is read is outside of that
  model.
\<close>

definition serialize_real :: "real \<Rightarrow> ostream \<Rightarrow> (unit, ostream) io" where
  "serialize_real r = serialize_double (Finite r)"

definition deserialize_real :: "(istream \<Rightarrow> istream \<times> floating) \<Rightarrow> istream \<Rightarrow> (real, istream) io" where
  "deserialize_real extract =
     bind_io (deserialize_double extract) (\<lambda>x i. case x of Finite r \<Rightarrow> Returned r i | Neg_Zero \<Rightarrow> Returned 0 i | _ \<Rightarrow> Undef)"

definition code_real :: "real \<Rightarrow> byte list" where
  "code_real r = code_floating 53 (Finite r)"

lemma real_laws:
  assumes "consumes extract"
  shows "checked_serializer serialize_real (deserialize_real extract) code_real is_double"
proof (rule checked_serializerI)
  fix r assume "is_double r"
  then have ok: "is_floating 53 (Finite r)" by simp
  have "(53 :: nat) \<le> 63" by simp
  note laws = floating_laws [OF this assms]
  show "writes (serialize_real r) (code_real r)"
    unfolding serialize_real_def serialize_double_def code_real_def
    by (rule checked_serializer.writes_ser [OF laws ok])
  show "reads (deserialize_real extract) (code_real r) r"
    unfolding deserialize_real_def deserialize_double_def code_real_def
    by (rule reads_map [OF checked_serializer.reads_des [OF laws ok]]) auto
qed

section \<open>Rectangles\<close>

definition serialize_rectangle :: "rectangle \<Rightarrow> ostream \<Rightarrow> (unit, ostream) io" where
  "serialize_rectangle item =
     rethrow ''serializing an object of type rectangle''
       (bind_io (serialize_long (of_int (rleft item))) (\<lambda>_.
        bind_io (serialize_long (of_int (rtop item))) (\<lambda>_.
        bind_io (serialize_long (of_int (rright item))) (\<lambda>_.
        serialize_long (of_int (rbottom item))))))"

definition deserialize_rectangle :: "istream \<Rightarrow> (rectangle, istream) io" where
  "deserialize_rectangle =
     rethrow ''deserializing an object of type rectangle''
       (bind_io deserialize_long (\<lambda>l. bind_io deserialize_long (\<lambda>t.
        bind_io deserialize_long (\<lambda>r. bind_io deserialize_long (\<lambda>b.
        Returned (rect (sint l) (sint t) (sint r) (sint b)))))))"

definition code_long :: "int \<Rightarrow> byte list" where
  "code_long k = code_signed (of_int k :: 64 word)"

definition code_rectangle :: "rectangle \<Rightarrow> byte list" where
  "code_rectangle x = code_long (rleft x) @ code_long (rtop x) @ code_long (rright x) @ code_long (rbottom x)"

text \<open>The borders whose negation is a \<open>long\<close> again.\<close>

definition negatable_long :: "int \<Rightarrow> bool" where
  "negatable_long k \<longleftrightarrow> - (2 ^ 63) < k \<and> k < 2 ^ 63"

definition saveable_rectangle :: "rectangle \<Rightarrow> bool" where
  "saveable_rectangle x \<longleftrightarrow> negatable_long (rleft x) \<and> negatable_long (rtop x) \<and>
     negatable_long (rright x) \<and> negatable_long (rbottom x)"

lemma negatable_long_word:
  assumes "negatable_long k"
  shows "negatable (of_int k :: 64 word)" "sint (of_int k :: 64 word) = k"
proof -
  show s: "sint (of_int k :: 64 word) = k" using assms by (intro sint_small) (auto simp: negatable_long_def)
  then show "negatable (of_int k :: 64 word)"
    using assms by (auto simp: negatable_def times_minus_1_def negatable_long_def)
qed

lemma writes_long [intro]: "negatable_long k \<Longrightarrow> writes (serialize_long (of_int k)) (code_long k)"
  unfolding code_long_def by (intro long.writes_ser negatable_long_word)

lemma reads_long:
  assumes "negatable_long k" "reads (f (of_int k)) d y"
  shows "reads (bind_io deserialize_long f) (code_long k @ d) y"
  unfolding code_long_def by (rule reads_bind [OF long.reads_des [OF negatable_long_word(1) [OF assms(1)]]]) (rule assms(2))

lemma reads_Returned_eq: "x = y \<Longrightarrow> reads (Returned x) [] y"
  by auto

lemma rectangle_laws:
  "checked_serializer serialize_rectangle deserialize_rectangle code_rectangle saveable_rectangle"
proof (rule checked_serializerI)
  fix x :: rectangle assume "saveable_rectangle x"
  then have ok: "negatable_long (rleft x)" "negatable_long (rtop x)" "negatable_long (rright x)"
    "negatable_long (rbottom x)" by (simp_all add: saveable_rectangle_def)
  show "writes (serialize_rectangle x) (code_rectangle x)"
    unfolding serialize_rectangle_def code_rectangle_def using ok by blast
  have "reads (bind_io deserialize_long (\<lambda>b. Returned (rect (rleft x) (rtop x) (rright x) (sint b))))
      (code_long (rbottom x) @ []) x"
    by (intro reads_long reads_Returned_eq ok) (cases x, use ok in \<open>simp add: negatable_long_word\<close>)
  then show "reads deserialize_rectangle (code_rectangle x) x"
    unfolding deserialize_rectangle_def code_rectangle_def
    by (intro reads_rethrow reads_long ok) (simp add: negatable_long_word ok)
qed

interpretation rectangles: checked_serializer serialize_rectangle deserialize_rectangle
  code_rectangle saveable_rectangle
  by (rule rectangle_laws)

definition serialize_drectangle :: "drectangle \<Rightarrow> ostream \<Rightarrow> (unit, ostream) io" where
  "serialize_drectangle item =
     rethrow ''serializing an object of type drectangle''
       (bind_io (serialize_real (dleft item)) (\<lambda>_. bind_io (serialize_real (dtop item)) (\<lambda>_.
        bind_io (serialize_real (dright item)) (\<lambda>_. serialize_real (dbottom item)))))"

definition deserialize_drectangle :: "(istream \<Rightarrow> istream \<times> floating) \<Rightarrow> istream \<Rightarrow> (drectangle, istream) io" where
  "deserialize_drectangle extract =
     rethrow ''deserializing an object of type drectangle''
       (bind_io (deserialize_real extract) (\<lambda>l. bind_io (deserialize_real extract) (\<lambda>t.
        bind_io (deserialize_real extract) (\<lambda>r. bind_io (deserialize_real extract) (\<lambda>b.
        Returned (drect l t r b))))))"

definition code_drectangle :: "drectangle \<Rightarrow> byte list" where
  "code_drectangle x = code_real (dleft x) @ code_real (dtop x) @ code_real (dright x) @ code_real (dbottom x)"

lemma drectangle_laws:
  assumes "consumes extract"
  shows "checked_serializer serialize_drectangle (deserialize_drectangle extract) code_drectangle
    (\<lambda>x. is_double (dleft x) \<and> is_double (dtop x) \<and> is_double (dright x) \<and> is_double (dbottom x))"
proof (rule checked_serializerI)
  note w = checked_serializer.writes_ser [OF real_laws [OF assms]]
    and r = reads_bind [OF checked_serializer.reads_des [OF real_laws [OF assms]]]
  fix x :: drectangle assume "is_double (dleft x) \<and> is_double (dtop x) \<and> is_double (dright x) \<and> is_double (dbottom x)"
  then have ok: "is_double (dleft x)" "is_double (dtop x)" "is_double (dright x)" "is_double (dbottom x)" by auto
  show "writes (serialize_drectangle x) (code_drectangle x)"
    unfolding serialize_drectangle_def code_drectangle_def
    by (intro writes_rethrow writes_bind w ok)
  have "reads (bind_io (deserialize_real extract) (\<lambda>b. Returned (drect (dleft x) (dtop x) (dright x) b)))
      (code_real (dbottom x) @ []) x"
    by (rule r [OF ok(4)]) (cases x, auto)
  then show "reads (deserialize_drectangle extract) (code_drectangle x) x"
    unfolding deserialize_drectangle_def code_drectangle_def by (intro reads_rethrow r ok) simp
qed

section \<open>Matrices\<close>

text \<open>
  \<open>matrix<T,NR,NC>\<close>, its elements row by row; \<open>NR\<close> and \<open>NC\<close> are 0 for a size fixed at run time. The sizes are
  written negated, which tells the format from an older one. \<open>set_size\<close> requires sizes that are not negative.
\<close>

record 'a matrix =
  m_nr :: nat
  m_nc :: nat
  m_elems :: "'a list"

definition serialize_matrix :: "('a \<Rightarrow> ostream \<Rightarrow> (unit, ostream) io) \<Rightarrow> 'a matrix \<Rightarrow> ostream \<Rightarrow> (unit, ostream) io" where
  "serialize_matrix ser item =
     rethrow ''serializing dlib::matrix''
       (bind_io (serialize_long (- of_nat (m_nr item))) (\<lambda>_.
        bind_io (serialize_long (- of_nat (m_nc item))) (\<lambda>_.
        serialize_all ser (m_elems item))))"

definition both_sizes :: "64 word \<Rightarrow> 64 word \<Rightarrow> (64 word \<times> 64 word) option" where
  "both_sizes nr nc =
     (if sint nr < 0 \<or> sint nc < 0
      then do { nr \<leftarrow> times_minus_1 nr; nc \<leftarrow> times_minus_1 nc; Some (nr, nc) }
      else Some (nr, nc))"

definition deserialize_matrix ::
  "nat \<Rightarrow> nat \<Rightarrow> (istream \<Rightarrow> ('a, istream) io) \<Rightarrow> istream \<Rightarrow> ('a matrix, istream) io" where
  "deserialize_matrix NR NC des =
     rethrow ''deserializing a dlib::matrix''
       (bind_io deserialize_long (\<lambda>nr. bind_io deserialize_long (\<lambda>nc i.
          case both_sizes nr nc of
            None \<Rightarrow> Undef
          | Some (nr, nc) \<Rightarrow>
              if NR \<noteq> 0 \<and> sint nr \<noteq> int NR
              then throw ''Error while deserializing a dlib::matrix.  Invalid rows'' i
              else if NC \<noteq> 0 \<and> sint nc \<noteq> int NC
              then throw ''Error while deserializing a dlib::matrix.  Invalid columns'' i
              else if sint nr < 0 \<or> sint nc < 0 then Undef
              else bind_io (deserialize_n des (unat nr * unat nc))
                     (\<lambda>xs. Returned \<lparr>m_nr = unat nr, m_nc = unat nc, m_elems = xs\<rparr>) i)))"

definition code_matrix :: "('a \<Rightarrow> byte list) \<Rightarrow> 'a matrix \<Rightarrow> byte list" where
  "code_matrix code m = code_long (- int (m_nr m)) @ code_long (- int (m_nc m)) @ concat (map code (m_elems m))"

definition valid_matrix :: "nat \<Rightarrow> nat \<Rightarrow> ('a \<Rightarrow> bool) \<Rightarrow> 'a matrix \<Rightarrow> bool" where
  "valid_matrix NR NC valid m \<longleftrightarrow>
     (NR = 0 \<or> m_nr m = NR) \<and> (NC = 0 \<or> m_nc m = NC) \<and> m_nr m < 2 ^ 63 \<and> m_nc m < 2 ^ 63 \<and>
     length (m_elems m) = m_nr m * m_nc m \<and> list_all valid (m_elems m)"

lemma size_word:
  assumes "n < 2 ^ 63"
  shows "sint (- of_nat n :: 64 word) = - int n" "sint (of_nat n :: 64 word) = int n"
    "unat (of_nat n :: 64 word) = n" "times_minus_1 (- of_nat n :: 64 word) = Some (of_nat n)"
proof -
  show s: "sint (- of_nat n :: 64 word) = - int n"
    using sint_small(1) [of "- int n"] assms by simp
  show "sint (of_nat n :: 64 word) = int n"
    using sint_small(1) [of "int n"] assms by simp
  show "unat (of_nat n :: 64 word) = n" using assms by (simp add: unat_of_nat take_bit_nat_eq_self)
  show "times_minus_1 (- of_nat n :: 64 word) = Some (of_nat n)"
    using s assms by (simp add: times_minus_1_def)
qed

lemma both_sizes_negated:
  assumes "r < 2 ^ 63" "c < 2 ^ 63"
  shows "both_sizes (- of_nat r) (- of_nat c) = Some (of_nat r, of_nat c)"
proof (cases "r = 0 \<and> c = 0")
  case False
  then show ?thesis using size_word [OF assms(1)] size_word [OF assms(2)] by (auto simp: both_sizes_def)
qed (simp add: both_sizes_def)

context checked_serializer begin

lemma matrix_laws:
  "checked_serializer (serialize_matrix ser) (deserialize_matrix NR NC des) (code_matrix code) (valid_matrix NR NC valid)"
proof (rule checked_serializerI)
  fix m :: "'a matrix" assume m: "valid_matrix NR NC valid m"
  then have ok: "m_nr m < 2 ^ 63" "m_nc m < 2 ^ 63" "length (m_elems m) = m_nr m * m_nc m" "list_all valid (m_elems m)"
    "NR = 0 \<or> m_nr m = NR" "NC = 0 \<or> m_nc m = NC" by (auto simp: valid_matrix_def)
  have neg: "negatable_long (- int (m_nr m))" "negatable_long (- int (m_nc m))"
    using ok(1,2) by (auto simp: negatable_long_def)
  have "writes (serialize_all ser (m_elems m)) (concat (map code (m_elems m)))"
    using ok(4) by (intro writes_all) (auto simp: list_all_iff writes_ser)
  then show "writes (serialize_matrix ser m) (code_matrix code m)"
    unfolding serialize_matrix_def code_matrix_def
    using writes_long [OF neg(1)] writes_long [OF neg(2)] by (intro writes_rethrow writes_bind) simp_all
  have "reads (deserialize_n des (m_nr m * m_nc m)) (concat (map code (m_elems m))) (m_elems m)"
    using reads_n [of des code "m_elems m"] ok(3,4) by (auto simp: list_all_iff reads_des)
  then have els: "reads (bind_io (deserialize_n des (m_nr m * m_nc m))
      (\<lambda>xs. Returned \<lparr>m_nr = m_nr m, m_nc = m_nc m, m_elems = xs\<rparr>)) (concat (map code (m_elems m))) m"
    by (rule reads_map) (cases m, simp)
  show "reads (deserialize_matrix NR NC des) (code_matrix code m) m"
    unfolding deserialize_matrix_def code_matrix_def
    by (intro reads_rethrow reads_long neg)
      (use els ok both_sizes_negated [OF ok(1,2)] size_word [OF ok(1)] size_word [OF ok(2)] in auto)
qed

end

section \<open>The overlap tester\<close>

definition serialize_test_box_overlap :: "test_box_overlap \<Rightarrow> ostream \<Rightarrow> (unit, ostream) io" where
  "serialize_test_box_overlap item =
     bind_io (serialize_real (iou_thresh item)) (\<lambda>_. serialize_real (percent_covered_thresh item))"

definition deserialize_test_box_overlap ::
  "(istream \<Rightarrow> istream \<times> floating) \<Rightarrow> istream \<Rightarrow> (test_box_overlap, istream) io" where
  "deserialize_test_box_overlap extract =
     bind_io (deserialize_real extract) (\<lambda>iou. bind_io (deserialize_real extract) (\<lambda>pct.
       Returned \<lparr>iou_thresh = iou, percent_covered_thresh = pct\<rparr>))"

definition code_test_box_overlap :: "test_box_overlap \<Rightarrow> byte list" where
  "code_test_box_overlap t = code_real (iou_thresh t) @ code_real (percent_covered_thresh t)"

definition valid_test_box_overlap :: "test_box_overlap \<Rightarrow> bool" where
  "valid_test_box_overlap t \<longleftrightarrow> is_double (iou_thresh t) \<and> is_double (percent_covered_thresh t)"

lemma test_box_overlap_laws:
  assumes "consumes extract"
  shows "checked_serializer serialize_test_box_overlap (deserialize_test_box_overlap extract)
    code_test_box_overlap valid_test_box_overlap"
proof (rule checked_serializerI)
  note w = checked_serializer.writes_ser [OF real_laws [OF assms]]
    and r = reads_bind [OF checked_serializer.reads_des [OF real_laws [OF assms]]]
    and last = reads_map [OF checked_serializer.reads_des [OF real_laws [OF assms]]]
  fix t assume "valid_test_box_overlap t"
  then have ok: "is_double (iou_thresh t)" "is_double (percent_covered_thresh t)"
    by (simp_all add: valid_test_box_overlap_def)
  show "writes (serialize_test_box_overlap t) (code_test_box_overlap t)"
    unfolding serialize_test_box_overlap_def code_test_box_overlap_def by (intro writes_bind w ok)
  have "reads (bind_io (deserialize_real extract) (\<lambda>pct. Returned \<lparr>iou_thresh = iou_thresh t, percent_covered_thresh = pct\<rparr>))
      (code_real (percent_covered_thresh t)) t"
    by (rule last [OF ok(2)]) (cases t, simp)
  then show "reads (deserialize_test_box_overlap extract) (code_test_box_overlap t) t"
    unfolding deserialize_test_box_overlap_def code_test_box_overlap_def by (rule r [OF ok(1)])
qed

section \<open>The detector\<close>

text \<open>
  A weight vector is a \<open>matrix<double,0,1>\<close>. \<open>ser_sc\<close> and \<open>des_sc\<close> are the functions of the scanner, the template
  parameter. \<open>init\<close> of a processed weight vector only caches.
\<close>

definition column :: "real list \<Rightarrow> real matrix" where
  "column w = \<lparr>m_nr = length w, m_nc = 1, m_elems = w\<rparr>"

definition serialize_object_detector ::
  "('sc, 'img, 'full) scanner_ops \<Rightarrow> ('sc \<Rightarrow> ostream \<Rightarrow> (unit, ostream) io) \<Rightarrow>
     'sc object_detector \<Rightarrow> ostream \<Rightarrow> (unit, ostream) io" where
  "serialize_object_detector sc ser_sc item =
     bind_io (serialize_int 2) (\<lambda>_.
     bind_io (ser_sc (sc_copy_configuration sc (sc_default sc) (scanner item))) (\<lambda>_.
     bind_io (serialize_test_box_overlap (overlap_tester item)) (\<lambda>_.
     bind_io (serialize_size (length (weights item))) (\<lambda>_.
     serialize_all (\<lambda>w. serialize_matrix serialize_real (column w)) (weights item)))))"

definition deserialize_object_detector ::
  "(istream \<Rightarrow> istream \<times> floating) \<Rightarrow> (istream \<Rightarrow> ('sc, istream) io) \<Rightarrow> istream \<Rightarrow> ('sc object_detector, istream) io" where
  "deserialize_object_detector extract des_sc =
     bind_io deserialize_int (\<lambda>version.
       let des_w = bind_io (deserialize_matrix 0 1 (deserialize_real extract)) (\<lambda>m. Returned (m_elems m))
       in if version = 1
          then bind_io des_sc (\<lambda>s. bind_io des_w (\<lambda>w. bind_io (deserialize_test_box_overlap extract) (\<lambda>t.
                 Returned \<lparr>overlap_tester = t, weights = [w], scanner = s\<rparr>)))
          else if version = 2
          then bind_io des_sc (\<lambda>s. bind_io (deserialize_test_box_overlap extract) (\<lambda>t.
               bind_io deserialize_size (\<lambda>num_detectors.
               bind_io (deserialize_n des_w num_detectors) (\<lambda>ws.
                 Returned \<lparr>overlap_tester = t, weights = ws, scanner = s\<rparr>))))
          else throw ''Unexpected version encountered while deserializing a dlib::object_detector object.'')"

definition saveable_detector :: "('sc \<Rightarrow> bool) \<Rightarrow> 'sc object_detector \<Rightarrow> bool" where
  "saveable_detector valid_sc d \<longleftrightarrow> valid_sc (scanner d) \<and> valid_test_box_overlap (overlap_tester d) \<and>
     length (weights d) < 2 ^ 64 \<and> list_all (\<lambda>w. length w < 2 ^ 63 \<and> list_all is_double w) (weights d)"

lemma detector_travels:
  assumes "checked_serializer ser_sc des_sc code_sc valid_sc" "consumes extract"
    and "d = this\<lparr>scanner := sc_copy_configuration sc (sc_default sc) (scanner this)\<rparr>" "saveable_detector valid_sc d"
  shows "\<exists>bs. writes (serialize_object_detector sc ser_sc this) bs \<and>
    reads (deserialize_object_detector extract des_sc) bs d"
proof -
  note real = real_laws [OF assms(2)]
  note mat = checked_serializer.matrix_laws [OF real, of 0 1]
  note tst = test_box_overlap_laws [OF assms(2)]
  let ?s = "sc_copy_configuration sc (sc_default sc) (scanner this)"
  let ?des_w = "bind_io (deserialize_matrix 0 1 (deserialize_real extract)) (\<lambda>m. Returned (m_elems m))"
  let ?code = "\<lambda>w. code_matrix code_real (column w)"
  from assms(3,4) have ok: "valid_sc ?s" "valid_test_box_overlap (overlap_tester this)" "length (weights this) < 2 ^ 64"
    "list_all (\<lambda>w. length w < 2 ^ 63 \<and> list_all is_double w) (weights this)" by (simp_all add: saveable_detector_def)
  have col: "valid_matrix 0 1 is_double (column w)" if "w \<in> set (weights this)" for w
    using ok(4) that by (simp add: valid_matrix_def column_def list_all_iff)
  have version: "negatable (2 :: 32 word)" by (simp add: negatable_def times_minus_1_def)
  have "list_all (\<lambda>w. writes (serialize_matrix serialize_real (column w)) (?code w)) (weights this)"
    using checked_serializer.writes_ser [OF mat col] by (simp add: list_all_iff)
  note ws = writes_all [OF this]
  have w: "writes (serialize_object_detector sc ser_sc this) (code_signed (2 :: 32 word) @ code_sc ?s @
      code_test_box_overlap (overlap_tester this) @ code_size (length (weights this)) @ concat (map ?code (weights this)))"
    unfolding serialize_object_detector_def
    by (intro writes_bind writes_size ws int32.writes_ser checked_serializer.writes_ser [OF assms(1)]
      checked_serializer.writes_ser [OF tst] ok version)
  have "reads ?des_w (?code w) w" if "w \<in> set (weights this)" for w
    by (rule reads_map [OF checked_serializer.reads_des [OF mat col [OF that]]]) (simp add: column_def)
  then have "list_all (\<lambda>w. reads ?des_w (?code w) w) (weights this)" by (simp add: list_all_iff)
  note rs = reads_n [OF this]
  have "reads (bind_io (deserialize_n ?des_w (length (weights this)))
      (\<lambda>ws. Returned \<lparr>overlap_tester = overlap_tester this, weights = ws, scanner = ?s\<rparr>))
      (concat (map ?code (weights this))) d"
    by (rule reads_map [OF rs]) (cases this, simp add: assms(3))
  then have "reads (bind_io des_sc (\<lambda>s. bind_io (deserialize_test_box_overlap extract) (\<lambda>t.
      bind_io deserialize_size (\<lambda>n. bind_io (deserialize_n ?des_w n) (\<lambda>ws.
        Returned \<lparr>overlap_tester = t, weights = ws, scanner = s\<rparr>)))))
      (code_sc ?s @ code_test_box_overlap (overlap_tester this) @ code_size (length (weights this)) @
        concat (map ?code (weights this))) d"
    by (intro reads_bind [OF checked_serializer.reads_des [OF assms(1) ok(1)]]
      reads_bind [OF checked_serializer.reads_des [OF tst ok(2)]] reads_bind [OF reads_size [OF ok(3)]])
  then have r: "reads (deserialize_object_detector extract des_sc) (code_signed (2 :: 32 word) @ code_sc ?s @
      code_test_box_overlap (overlap_tester this) @ code_size (length (weights this)) @ concat (map ?code (weights this))) d"
    unfolding deserialize_object_detector_def
    by (intro reads_bind [OF int32.reads_des [OF version]]) (simp add: Let_def)
  from w r show ?thesis by blast
qed

text \<open>
  C16. A detector whose numbers are \<open>double\<close>s is saved and loaded without loss, whatever scanner it uses, as long as the
  scanner itself can be saved: the bytes written by \<open>serialize\<close> are read by \<open>deserialize\<close> into a detector with the
  same weight vectors and overlap tester and the copied configuration of the scanner, and a
  file that ends early is reported.
\<close>

theorem detector_round_trip:
  assumes "checked_serializer ser_sc des_sc code_sc valid_sc" "consumes extract"
    and "d = this\<lparr>scanner := sc_copy_configuration sc (sc_default sc) (scanner this)\<rparr>" "saveable_detector valid_sc d"
  shows "\<exists>bs. writes (serialize_object_detector sc ser_sc this) bs \<and>
    reads (deserialize_object_detector extract des_sc) bs d"
  by (rule detector_travels [OF assms])

lemma is_double_powi: "\<bar>m\<bar> < 2 ^ 53 \<Longrightarrow> - 1074 \<le> e \<Longrightarrow> e \<le> 971 \<Longrightarrow> r = of_int m * 2 powi e \<Longrightarrow> is_double r"
  unfolding is_float_def by blast

lemma example_doubles: "is_double (1 / 2)" "is_double 1" "is_double (3 / 4)" "is_double (- 2)"
  by (rule is_double_powi [of 1 "- 1"] is_double_powi [of 1 0] is_double_powi [of 3 "- 2"] is_double_powi [of "- 2" 0];
      simp add: power_int_def power2_eq_square)+

definition example_scanner :: "(bool, unit, unit) scanner_ops" where
  "example_scanner = \<lparr>sc_default = False, sc_load = (\<lambda>i s. s), sc_num_dimensions = (\<lambda>s. 1),
     sc_num_detection_templates = (\<lambda>s. 1), sc_detect = (\<lambda>s w t. []), sc_full_object_detection = (\<lambda>s r w. ()),
     sc_copy_configuration = (\<lambda>to from. from)\<rparr>"

theorem detector_round_trip_witness:
  "\<exists>bs. writes (serialize_object_detector example_scanner serialize_bool
        \<lparr>overlap_tester = \<lparr>iou_thresh = 1 / 2, percent_covered_thresh = 1\<rparr>, weights = [[3 / 4, - 2], [1]], scanner = True\<rparr>) bs \<and>
     reads (deserialize_object_detector (\<lambda>i. (i, Not_A_Number)) deserialize_bool) bs
       \<lparr>overlap_tester = \<lparr>iou_thresh = 1 / 2, percent_covered_thresh = 1\<rparr>, weights = [[3 / 4, - 2], [1]], scanner = True\<rparr>"
  by (rule detector_round_trip [OF serialize_bool_laws])
    (use example_doubles in \<open>simp_all add: consumes_def saveable_detector_def valid_test_box_overlap_def example_scanner_def\<close>)

end
