(* ===== verification/Face_Net.thy ===== *)
theory Face_Net
  imports Checked_Assert
begin

text \<open>
  The type of the face network, \<open>anet_type\<close> of \<open>include/FaceDetected.h\<close>, and the tensor sizes its
  layers produce, from the \<open>setup\<close> and \<open>forward\<close> methods of \<open>dlib/dnn/layers.h\<close> and the functions on tensors of
  \<open>dlib/dnn/cpu_dlib.cpp\<close> they call, with the assertions of both. The template aliases of the header become functions
  on networks. The values of the tensors are not modelled.
\<close>

section \<open>Tensors and layers\<close>

text \<open>\<open>num_samples\<close>, \<open>k\<close>, \<open>nr\<close> and \<open>nc\<close> of a tensor.\<close>

record tensor_size =
  num_samples :: nat
  tk :: nat
  tnr :: nat
  tnc :: nat

abbreviation tsize :: "nat \<Rightarrow> nat \<Rightarrow> nat \<Rightarrow> nat \<Rightarrow> tensor_size" where
  "tsize n k r c \<equiv> \<lparr>num_samples = n, tk = k, tnr = r, tnc = c\<rparr>"

datatype net =
    Input_Rgb_Image_Sized nat nat
  | Con nat nat nat nat nat net
  | Max_Pool nat nat nat nat net
  | Avg_Pool nat nat nat nat net
  | Relu net
  | Affine net
  | Fc_No_Bias nat net
  | Tag nat net
  | Skip nat net
  | Add_Prev nat net

text \<open>The default padding of the template parameters.\<close>

definition padding :: "nat \<Rightarrow> nat \<Rightarrow> nat" where
  "padding stride window = (if stride \<noteq> 1 then 0 else window div 2)"

text \<open>The output size of a window that slides over the padded input, if the window fits.\<close>

definition slide :: "nat \<Rightarrow> nat \<Rightarrow> nat \<Rightarrow> nat \<Rightarrow> nat option" where
  "slide len window stride pad =
     (if stride > 0 \<and> pad < window \<and> window \<le> len + 2 * pad then Some (1 + (len + 2 * pad - window) div stride) else None)"

text \<open>An \<open>alias_tensor\<close> of the size \<open>a\<close> at an offset in the parameters; what \<open>cpu::add\<close> can add to a tensor.\<close>

definition tvolume :: "tensor_size \<Rightarrow> nat" where
  "tvolume t = num_samples t * tk t * tnr t * tnc t"

definition aliases :: "tensor_size \<Rightarrow> nat \<Rightarrow> nat \<Rightarrow> bool" where
  "aliases a offset len \<longleftrightarrow> offset + tvolume a \<le> len"

definition can_add :: "tensor_size \<Rightarrow> tensor_size \<Rightarrow> bool" where
  "can_add dest src \<longleftrightarrow> src = dest \<or>
     num_samples src = 1 \<and> tk src = tk dest \<and> tnr src = 1 \<and> tnc src = 1 \<or>
     num_samples src = 1 \<and> tk src = tk dest \<and> tnr src = tnr dest \<and> tnc src = tnc dest \<or>
     num_samples src = 1 \<and> tk src = 1 \<and> tnr src = tnr dest \<and> tnc src = tnc dest \<or>
     num_samples src = num_samples dest \<and> tk src = 1 \<and> tnr src = 1 \<and> tnc src = 1"

section \<open>Layers with parameters\<close>

text \<open>
  The members of the layers that hold parameters: the number of them and the sizes of the tensors they are read as. \<open>None\<close> says
  that \<open>setup\<close> was not called.
\<close>

datatype layer_mode = CONV_MODE | FC_MODE

record con_details =
  con_params :: nat
  con_filters :: tensor_size
  con_biases :: tensor_size

record affine_details =
  affine_params :: nat
  affine_gamma :: tensor_size
  affine_beta :: tensor_size

record fc_details =
  fc_params :: nat
  fc_weights :: tensor_size

datatype layer_details =
    Con_Details "con_details option"
  | Affine_Details layer_mode "affine_details option"
  | Fc_Details "fc_details option"

definition con_setup :: "nat \<Rightarrow> nat \<Rightarrow> nat \<Rightarrow> nat \<Rightarrow> con_details" where
  "con_setup num_filters r c k =
     (let num_inputs = r * c * k
      in \<lparr>con_params = num_inputs * num_filters + num_filters, con_filters = tsize num_filters k r c,
          con_biases = tsize 1 num_filters 1 1\<rparr>)"

definition con_forward :: "nat \<Rightarrow> nat \<Rightarrow> nat \<Rightarrow> nat \<Rightarrow> con_details \<Rightarrow> tensor_size \<Rightarrow> tensor_size option" where
  "con_forward sy sx py px p s =
     (let filters = con_filters p; biases = con_biases p in
      if aliases filters 0 (con_params p) \<and> tk filters = tk s then do {
        onr \<leftarrow> slide (tnr s) (tnr filters) sy py;
        onc \<leftarrow> slide (tnc s) (tnc filters) sx px;
        let output = tsize (num_samples s) (num_samples filters) onr onc;
        (if aliases biases (tvolume filters) (con_params p) \<and> can_add output biases then Some output else None) }
      else None)"

definition affine_setup :: "layer_mode \<Rightarrow> nat \<Rightarrow> nat \<Rightarrow> nat \<Rightarrow> affine_details" where
  "affine_setup mode k nr nc =
     (let gamma = (if mode = FC_MODE then tsize 1 k nr nc else tsize 1 k 1 1)
      in \<lparr>affine_params = tvolume gamma + tvolume gamma, affine_gamma = gamma, affine_beta = gamma\<rparr>)"

definition affine_forward :: "layer_mode \<Rightarrow> affine_details \<Rightarrow> tensor_size \<Rightarrow> tensor_size option" where
  "affine_forward mode p s =
     (let g = affine_gamma p; b = affine_beta p in
      if aliases g 0 (affine_params p) \<and> aliases b (tvolume g) (affine_params p) \<and>
         (if mode = FC_MODE
          then (num_samples g = 1 \<and> num_samples b = 1 \<or> num_samples g = num_samples s \<and> num_samples b = num_samples s) \<and>
            tnr g = tnr b \<and> tnr b = tnr s \<and> tnc g = tnc b \<and> tnc b = tnc s \<and> tk g = tk b \<and> tk b = tk s
          else g = b \<and> num_samples g = 1 \<and> tnr g = 1 \<and> tnc g = 1 \<and> tk g = tk s)
      then Some s else None)"

definition fc_setup :: "nat \<Rightarrow> nat \<Rightarrow> nat \<Rightarrow> nat \<Rightarrow> fc_details" where
  "fc_setup num_outputs k nr nc =
     (let num_inputs = nr * nc * k
      in \<lparr>fc_params = num_inputs * num_outputs, fc_weights = tsize num_inputs num_outputs 1 1\<rparr>)"

text \<open>
  The product of the matrices \<open>mat(sub.get_output())\<close> and \<open>mat(w)\<close>, whose rows are the samples, and its assignment to the
  output.
\<close>

definition fc_forward :: "nat \<Rightarrow> fc_details \<Rightarrow> tensor_size \<Rightarrow> tensor_size option" where
  "fc_forward num_outputs p s =
     (let w = fc_weights p; output = tsize (num_samples s) num_outputs 1 1 in
      if aliases w 0 (fc_params p) \<and> 0 < tvolume s \<and> 0 < tvolume w \<and> tk s * tnr s * tnc s = num_samples w \<and>
         tnr output * tnc output * tk output = tk w * tnr w * tnc w
      then Some output else None)"

section \<open>The other layers\<close>

definition pool_size :: "nat \<Rightarrow> nat \<Rightarrow> nat \<Rightarrow> nat \<Rightarrow> tensor_size \<Rightarrow> tensor_size option" where
  "pool_size r c sy sx s = do {
     onr \<leftarrow> slide (tnr s) (if r \<noteq> 0 then r else tnr s) sy (padding sy r);
     onc \<leftarrow> slide (tnc s) (if c \<noteq> 0 then c else tnc s) sx (padding sx c);
     Some (tsize (num_samples s) (tk s) onr onc) }"

definition add_prev_size :: "tensor_size \<Rightarrow> tensor_size \<Rightarrow> tensor_size" where
  "add_prev_size t1 t2 = tsize (max (num_samples t1) (num_samples t2)) (max (tk t1) (tk t2))
     (max (tnr t1) (tnr t2)) (max (tnc t1) (tnc t2))"

section \<open>The network\<close>

text \<open>
  \<open>forward\<close> takes the members of the layers with parameters, the outermost layer first; a layer that was not set up is set up for the
  output of the layer below. It returns the output size, for every tag met the size at the nearest layer with
  that tag, which is what \<open>layer<tag>(sub)\<close> looks up, and the members. \<open>None\<close> is a failed assertion, or a list that is not one of
  members for these layers.
\<close>

fun forward :: "nat \<Rightarrow> net \<Rightarrow> layer_details list \<Rightarrow>
    (tensor_size \<times> (nat \<times> tensor_size) list \<times> layer_details list) option" where
  "forward n (Input_Rgb_Image_Sized r c) ds = (if n > 0 then Some (tsize n 3 r c, [], ds) else None)"
| "forward n (Con f r c sy sx sub) ds =
     (case ds of Con_Details d # ds \<Rightarrow> do {
        (s, tags, ds) \<leftarrow> forward n sub ds;
        let p = (case d of None \<Rightarrow> con_setup f r c (tk s) | Some p \<Rightarrow> p);
        s \<leftarrow> con_forward sy sx (padding sy r) (padding sx c) p s;
        Some (s, tags, Con_Details (Some p) # ds) }
      | _ \<Rightarrow> None)"
| "forward n (Max_Pool r c sy sx sub) ds = do {
     (s, tags, ds) \<leftarrow> forward n sub ds; s \<leftarrow> pool_size r c sy sx s; Some (s, tags, ds) }"
| "forward n (Avg_Pool r c sy sx sub) ds = do {
     (s, tags, ds) \<leftarrow> forward n sub ds; s \<leftarrow> pool_size r c sy sx s; Some (s, tags, ds) }"
| "forward n (Relu sub) ds = forward n sub ds"
| "forward n (Affine sub) ds =
     (case ds of Affine_Details mode d # ds \<Rightarrow> do {
        (s, tags, ds) \<leftarrow> forward n sub ds;
        let p = (case d of None \<Rightarrow> affine_setup mode (tk s) (tnr s) (tnc s) | Some p \<Rightarrow> p);
        s \<leftarrow> affine_forward mode p s;
        Some (s, tags, Affine_Details mode (Some p) # ds) }
      | _ \<Rightarrow> None)"
| "forward n (Fc_No_Bias outputs sub) ds =
     (case ds of Fc_Details d # ds \<Rightarrow> do {
        (s, tags, ds) \<leftarrow> forward n sub ds;
        let p = (case d of None \<Rightarrow> fc_setup outputs (tk s) (tnr s) (tnc s) | Some p \<Rightarrow> p);
        s \<leftarrow> fc_forward outputs p s;
        Some (s, tags, Fc_Details (Some p) # ds) }
      | _ \<Rightarrow> None)"
| "forward n (Tag t sub) ds = do { (s, tags, ds) \<leftarrow> forward n sub ds; Some (s, (t, s) # tags, ds) }"
| "forward n (Skip t sub) ds = do {
     (s, tags, ds) \<leftarrow> forward n sub ds; s' \<leftarrow> map_of tags t; Some (s', tags, ds) }"
| "forward n (Add_Prev t sub) ds = do {
     (s, tags, ds) \<leftarrow> forward n sub ds; s' \<leftarrow> map_of tags t; Some (add_prev_size s s', tags, ds) }"

text \<open>The members of a network none of whose layers is set up; \<open>mode\<close> is that of its affine layers.\<close>

fun unset :: "layer_mode \<Rightarrow> net \<Rightarrow> layer_details list" where
  "unset mode (Input_Rgb_Image_Sized r c) = []"
| "unset mode (Con f r c sy sx sub) = Con_Details None # unset mode sub"
| "unset mode (Max_Pool r c sy sx sub) = unset mode sub"
| "unset mode (Avg_Pool r c sy sx sub) = unset mode sub"
| "unset mode (Relu sub) = unset mode sub"
| "unset mode (Affine sub) = Affine_Details mode None # unset mode sub"
| "unset mode (Fc_No_Bias outputs sub) = Fc_Details None # unset mode sub"
| "unset mode (Tag t sub) = unset mode sub"
| "unset mode (Skip t sub) = unset mode sub"
| "unset mode (Add_Prev t sub) = unset mode sub"

section \<open>The network of the program\<close>

type_synonym block_template = "nat \<Rightarrow> (net \<Rightarrow> net) \<Rightarrow> nat \<Rightarrow> net \<Rightarrow> net"

definition residual :: "block_template \<Rightarrow> nat \<Rightarrow> (net \<Rightarrow> net) \<Rightarrow> net \<Rightarrow> net" where
  "residual blk N BN sub = Add_Prev 1 (blk N BN 1 (Tag 1 sub))"

definition residual_down :: "block_template \<Rightarrow> nat \<Rightarrow> (net \<Rightarrow> net) \<Rightarrow> net \<Rightarrow> net" where
  "residual_down blk N BN sub =
     Add_Prev 2 (Avg_Pool 2 2 2 2 (Skip 1 (Tag 2 (blk N BN 2 (Tag 1 sub)))))"

definition block :: block_template where
  "block N BN stride sub = BN (Con N 3 3 1 1 (Relu (BN (Con N 3 3 stride stride sub))))"

definition ares :: "nat \<Rightarrow> net \<Rightarrow> net" where
  "ares N sub = Relu (residual block N Affine sub)"

definition ares_down :: "nat \<Rightarrow> net \<Rightarrow> net" where
  "ares_down N sub = Relu (residual_down block N Affine sub)"

definition alevel0 :: "net \<Rightarrow> net" where "alevel0 sub = ares_down 256 sub"
definition alevel1 :: "net \<Rightarrow> net" where "alevel1 sub = ares 256 (ares 256 (ares_down 256 sub))"
definition alevel2 :: "net \<Rightarrow> net" where "alevel2 sub = ares 128 (ares 128 (ares_down 128 sub))"
definition alevel3 :: "net \<Rightarrow> net" where
  "alevel3 sub = ares 64 (ares 64 (ares 64 (ares_down 64 sub)))"
definition alevel4 :: "net \<Rightarrow> net" where "alevel4 sub = ares 32 (ares 32 (ares 32 sub))"

definition anet_stem :: net where
  "anet_stem = Max_Pool 3 3 2 2 (Relu (Affine (Con 32 7 7 2 2 (Input_Rgb_Image_Sized 150 150))))"

definition anet_type :: net where
  "anet_type = Fc_No_Bias 128 (Avg_Pool 0 0 1 1
     (alevel0 (alevel1 (alevel2 (alevel3 (alevel4 anet_stem))))))"

text \<open>\<open>loss_metric_::to_label\<close>: one column vector of \<open>k\<close> values per sample.\<close>

definition to_label :: "tensor_size \<Rightarrow> nat list option" where
  "to_label s = (if num_samples s \<noteq> 0 \<and> tnr s = 1 \<and> tnc s = 1
     then Some (replicate (num_samples s) (tk s)) else None)"

definition net_labels :: "nat \<Rightarrow> net \<Rightarrow> layer_details list \<Rightarrow> nat list option" where
  "net_labels n net ds = do { (s, tags, ds) \<leftarrow> forward n net ds; to_label s }"

text \<open>
  The members of the network of the program, which it reads from the file of the model: the sizes are taken to be those that
  \<open>setup\<close> gives a network with affine layers made from \<open>bn_con\<close> layers.
\<close>

definition anet_details :: "layer_details list" where
  "anet_details = (case forward 1 anet_type (unset CONV_MODE anet_type) of Some (s, tags, ds) \<Rightarrow> ds | None \<Rightarrow> [])"

section \<open>The size of the output\<close>

lemma slide_same [simp]: "0 < s \<Longrightarrow> slide s 3 (Suc 0) (padding (Suc 0) 3) = Some s"
  by (simp add: slide_def padding_def)

text \<open>What \<open>setup\<close> made for an input serves every input of the same size, whatever the number of samples.\<close>

lemma con_forward_setup:
  assumes "slide a r sy py = Some onr" "slide b c sx px = Some onc"
  shows "con_forward sy sx py px (con_setup f r c k) (tsize n k a b) = Some (tsize n f onr onc)"
proof -
  have "r * c * k * f = f * k * r * c" by (simp add: ac_simps)
  then show ?thesis
    using assms by (simp add: con_forward_def con_setup_def aliases_def tvolume_def can_add_def Let_def)
qed

lemma affine_forward_setup [simp]:
  "affine_forward mode (affine_setup mode k a b) (tsize n k a b) = Some (tsize n k a b)"
  by (simp add: affine_forward_def affine_setup_def aliases_def Let_def)

lemma fc_forward_setup:
  "0 < n \<Longrightarrow> 0 < k \<Longrightarrow> 0 < a \<Longrightarrow> 0 < b \<Longrightarrow> 0 < m \<Longrightarrow>
    fc_forward m (fc_setup m k a b) (tsize n k a b) = Some (tsize n m 1 1)"
  by (simp add: fc_forward_def fc_setup_def aliases_def tvolume_def Let_def ac_simps)

text \<open>
  The network, with its layers not set up or with the members \<open>ds\<close>, makes of every batch one of this size, and leaves the
  members \<open>ds\<close>.
\<close>

definition serves :: "layer_mode \<Rightarrow> net \<Rightarrow> layer_details list \<Rightarrow> nat \<Rightarrow> nat \<Rightarrow> nat \<Rightarrow> bool" where
  "serves mode net ds k r c \<longleftrightarrow> (\<forall>n > 0. \<forall>d \<in> {unset mode net, ds}. \<exists>tags. forward n net d = Some (tsize n k r c, tags, ds))"

lemma servesI:
  assumes "\<And>n. 0 < n \<Longrightarrow> \<exists>tags. forward n net (unset mode net) = Some (tsize n k r c, tags, ds)"
    and "\<And>n. 0 < n \<Longrightarrow> \<exists>tags. forward n net ds = Some (tsize n k r c, tags, ds)"
  shows "serves mode net ds k r c"
  using assms by (simp add: serves_def)

lemma servesE:
  assumes "serves mode net ds k r c" "0 < n"
  obtains t t' where "forward n net (unset mode net) = Some (tsize n k r c, t, ds)" "forward n net ds = Some (tsize n k r c, t', ds)"
  using assms unfolding serves_def by blast

text \<open>A residual block keeps the size of the image; the one that halves it takes the larger of
  the two branches.\<close>

definition block_details :: "layer_mode \<Rightarrow> nat \<Rightarrow> nat \<Rightarrow> nat \<Rightarrow> nat \<Rightarrow> layer_details list" where
  "block_details mode N k r c =
     [Affine_Details mode (Some (affine_setup mode N r c)), Con_Details (Some (con_setup N 3 3 N)),
      Affine_Details mode (Some (affine_setup mode N r c)), Con_Details (Some (con_setup N 3 3 k))]"

lemma serves_ares:
  assumes "serves mode sub ds k r c" "0 < r" "0 < c"
  shows "serves mode (ares N sub) (block_details mode N k r c @ ds) (max N k) r c"
proof (rule servesI)
  fix n :: nat assume "0 < n"
  with assms(1) obtain t t' where "forward n sub (unset mode sub) = Some (tsize n k r c, t, ds)"
    "forward n sub ds = Some (tsize n k r c, t', ds)" by (rule servesE)
  with assms(2,3) show "\<exists>tags. forward n (ares N sub) (unset mode (ares N sub)) =
      Some (tsize n (max N k) r c, tags, block_details mode N k r c @ ds)"
    "\<exists>tags. forward n (ares N sub) (block_details mode N k r c @ ds) =
      Some (tsize n (max N k) r c, tags, block_details mode N k r c @ ds)"
    by (simp_all add: ares_def residual_def block_def block_details_def con_forward_setup add_prev_size_def)
qed

lemma serves_ares_down:
  assumes "serves mode sub ds k r c" "3 \<le> r" "3 \<le> c"
  shows "serves mode (ares_down N sub) (block_details mode N k (1 + (r - 3) div 2) (1 + (c - 3) div 2) @ ds)
    (max k N) (r div 2) (c div 2)"
proof -
  define r1 c1 where "r1 = 1 + (r - 3) div 2" and "c1 = 1 + (c - 3) div 2"
  have conv: "slide r 3 2 (padding 2 3) = Some r1" "slide c 3 2 (padding 2 3) = Some c1"
    using assms by (simp_all add: slide_def padding_def r1_def c1_def)
  have pool: "slide r 2 2 (padding 2 2) = Some (r div 2)" "slide c 2 2 (padding 2 2) = Some (c div 2)"
    using assms by (auto simp: slide_def padding_def)
  have le: "r1 \<le> r div 2" "c1 \<le> c div 2" "0 < r1" "0 < c1" unfolding r1_def c1_def using assms by linarith+
  show ?thesis unfolding r1_def [symmetric] c1_def [symmetric]
  proof (rule servesI)
    fix n :: nat assume "0 < n"
    with assms(1) obtain t t' where "forward n sub (unset mode sub) = Some (tsize n k r c, t, ds)"
      "forward n sub ds = Some (tsize n k r c, t', ds)" by (rule servesE)
    with conv pool le show "\<exists>tags. forward n (ares_down N sub) (unset mode (ares_down N sub)) =
        Some (tsize n (max k N) (r div 2) (c div 2), tags, block_details mode N k r1 c1 @ ds)"
      "\<exists>tags. forward n (ares_down N sub) (block_details mode N k r1 c1 @ ds) =
        Some (tsize n (max k N) (r div 2) (c div 2), tags, block_details mode N k r1 c1 @ ds)"
      by (simp_all add: ares_down_def residual_down_def block_def block_details_def con_forward_setup pool_size_def
        add_prev_size_def max_def)
  qed
qed

lemma serves_stem:
  "serves mode anet_stem [Affine_Details mode (Some (affine_setup mode 32 72 72)), Con_Details (Some (con_setup 32 7 7 3))] 32 35 35"
  by (rule servesI) (simp_all add: anet_stem_def con_forward_setup pool_size_def slide_def padding_def)

abbreviation serves_some :: "layer_mode \<Rightarrow> net \<Rightarrow> nat \<Rightarrow> nat \<Rightarrow> nat \<Rightarrow> bool" where
  "serves_some mode net k r c \<equiv> \<exists>ds. serves mode net ds k r c"

text \<open>One level: halve, then two or three residual blocks of the same width.\<close>

lemma serves_wide:
  assumes "serves_some mode sub N r c" "0 < r" "0 < c"
  shows "serves_some mode (ares N sub) N r c"
proof -
  from assms(1) obtain ds where "serves mode sub ds N r c" by blast
  from serves_ares [OF this assms(2,3), of N] show ?thesis by auto
qed

lemma serves_level:
  assumes "serves_some mode sub k r c" "3 \<le> r" "3 \<le> c" "k \<le> N"
  shows "serves_some mode (ares_down N sub) N (r div 2) (c div 2)"
    "serves_some mode (ares N (ares N (ares_down N sub))) N (r div 2) (c div 2)"
    "serves_some mode (ares N (ares N (ares N (ares_down N sub)))) N (r div 2) (c div 2)"
proof -
  have pos: "0 < r div 2" "0 < c div 2" using assms by simp_all
  from assms(1) obtain ds where "serves mode sub ds k r c" by blast
  from serves_ares_down [OF this assms(2,3), of N] assms(4)
  show d: "serves_some mode (ares_down N sub) N (r div 2) (c div 2)" by (auto simp: max_def)
  note two = serves_wide [OF serves_wide [OF d pos] pos]
  show "serves_some mode (ares N (ares N (ares_down N sub))) N (r div 2) (c div 2)" by (rule two)
  show "serves_some mode (ares N (ares N (ares N (ares_down N sub)))) N (r div 2) (c div 2)" by (rule serves_wide [OF two pos])
qed

lemma serves_anet: "serves_some mode anet_type 128 1 1"
proof -
  have "serves_some mode anet_stem 32 35 35" using serves_stem by blast
  then have "serves_some mode (alevel4 anet_stem) 32 35 35" unfolding alevel4_def by (intro serves_wide) simp_all
  from serves_level(3) [OF this, of 64] have "serves_some mode (alevel3 (alevel4 anet_stem)) 64 17 17"
    by (simp add: alevel3_def)
  from serves_level(2) [OF this, of 128] have "serves_some mode (alevel2 (alevel3 (alevel4 anet_stem))) 128 8 8"
    by (simp add: alevel2_def)
  from serves_level(2) [OF this, of 256] have "serves_some mode (alevel1 (alevel2 (alevel3 (alevel4 anet_stem)))) 256 4 4"
    by (simp add: alevel1_def)
  from serves_level(1) [OF this, of 256] obtain ds where
    top: "serves mode (alevel0 (alevel1 (alevel2 (alevel3 (alevel4 anet_stem))))) ds 256 2 2"
    by (auto simp: alevel0_def)
  have "serves mode anet_type (Fc_Details (Some (fc_setup 128 256 1 1)) # ds) 128 1 1"
  proof (rule servesI)
    fix n :: nat assume n: "0 < n"
    with top obtain t t' where
      "forward n (alevel0 (alevel1 (alevel2 (alevel3 (alevel4 anet_stem))))) (unset mode (alevel0 (alevel1 (alevel2 (alevel3 (alevel4 anet_stem)))))) =
        Some (tsize n 256 2 2, t, ds)"
      "forward n (alevel0 (alevel1 (alevel2 (alevel3 (alevel4 anet_stem))))) ds = Some (tsize n 256 2 2, t', ds)" by (rule servesE)
    with n show "\<exists>tags. forward n anet_type (unset mode anet_type) = Some (tsize n 128 1 1, tags, Fc_Details (Some (fc_setup 128 256 1 1)) # ds)"
      "\<exists>tags. forward n anet_type (Fc_Details (Some (fc_setup 128 256 1 1)) # ds) =
        Some (tsize n 128 1 1, tags, Fc_Details (Some (fc_setup 128 256 1 1)) # ds)"
      by (simp_all add: anet_type_def pool_size_def slide_def padding_def fc_forward_setup)
  qed
  then show ?thesis by blast
qed

lemma net_labels_anet: "0 < n \<Longrightarrow> net_labels n anet_type anet_details = Some (replicate n 128)"
proof -
  assume n: "0 < n"
  from serves_anet [of CONV_MODE] obtain ds where s: "serves CONV_MODE anet_type ds 128 1 1" by blast
  from s have "anet_details = ds" by (rule servesE [where n = 1]) (simp_all add: anet_details_def)
  with s n show ?thesis by (auto elim!: servesE simp: net_labels_def to_label_def)
qed

section \<open>Property\<close>

text \<open>
  C39. The face network accepts every non-empty batch of chips of 150 x 150 pixels. On its first call, for a batch of \<open>n\<close> chips, each layer is
  set up for the output of the layer below; on this call and on every later one, for a batch of any size \<open>m\<close>, no assertion of a layer fails:
  the filters, the affine parameters and the weights have the depth of their input, they lie within the parameters, every window fits, every
  \<open>add_prev\<close> and \<open>skip\<close> finds its tag, and the output has one vector of 128 values per chip, which is what the
  descriptors of the program are. This holds for both modes of the affine layers. The program reads the parameters from a file,
  whose sizes are those of such a set up network; that the file has them is assumed.
\<close>

theorem anet_describes_faces:
  assumes "0 < n" "0 < m"
  shows "\<exists>s tags ds. forward n anet_type (unset mode anet_type) = Some (s, tags, ds) \<and> to_label s = Some (replicate n 128) \<and>
    (\<exists>tags'. forward m anet_type ds = Some (tsize m 128 1 1, tags', ds)) \<and> net_labels m anet_type ds = Some (replicate m 128)"
proof -
  from serves_anet [of mode] obtain ds where s: "serves mode anet_type ds 128 1 1" by blast
  from s assms(1) obtain t where "forward n anet_type (unset mode anet_type) = Some (tsize n 128 1 1, t, ds)" by (rule servesE)
  moreover from s assms(2) obtain t' where "forward m anet_type ds = Some (tsize m 128 1 1, t', ds)" by (rule servesE)
  ultimately show ?thesis using assms by (auto simp: net_labels_def to_label_def)
qed

theorem anet_describes_faces_witness:
  "\<exists>s tags ds. forward 1 anet_type (unset CONV_MODE anet_type) = Some (s, tags, ds) \<and> net_labels 2 anet_type ds = Some [128, 128]"
  using anet_describes_faces [of 1 2 CONV_MODE] by (auto simp: numeral_eq_Suc)

end
