(* ===== verification/Face_Detected.thy ===== *)
theory Face_Detected
  imports Object_Detector Face_Net
begin

text \<open>
  \<open>include/FaceDetected.h\<close>, \<open>src/FaceDetected.cpp\<close> and their Python counterparts: find the
  faces of an image, cut out a chip of 150 x 150 pixels for each, and compute its descriptor.
  The detector is the object detector of \<open>Object_Detector\<close>; the landmark predictor, the chip
  extraction and the values the network computes are parameters.
\<close>

section \<open>The network as a function\<close>

text \<open>
  \<open>val_of c j\<close> is value \<open>j\<close> of the output tensor for the chip \<open>c\<close>, \<open>dims c\<close> its rows and columns.
  \<open>net_batch\<close> is one call of \<open>operator()(ibegin, iend, obegin)\<close>: the input layer asserts the sizes
  of the images, the network computes, and \<open>to_label\<close> copies \<open>k\<close> values per image. That the values for a chip do not depend
  on the other chips of the batch is an assumption on the layers' arithmetic, which is not modelled.
\<close>

definition net_batch ::
  "('chip \<Rightarrow> nat \<Rightarrow> real) \<Rightarrow> ('chip \<Rightarrow> nat \<times> nat) \<Rightarrow> 'chip list \<Rightarrow> real list list outcome" where
  "net_batch val_of dims cs =
     dlib_cassert (length cs > 0)
       (dlib_cassert (list_all (\<lambda>c. dims c = (150, 150)) cs)
         (case net_labels (length cs) anet_type anet_details of
            None \<Rightarrow> Throws EBROKEN_ASSERT
          | Some ks \<Rightarrow> Returns (map (\<lambda>(k, c). map (val_of c) [0..<k]) (zip ks cs))))"

text \<open>\<open>operator()(data, batch_size = 128)\<close> of \<open>dnn/core.h\<close>.\<close>

function net_operator ::
  "('chip \<Rightarrow> nat \<Rightarrow> real) \<Rightarrow> ('chip \<Rightarrow> nat \<times> nat) \<Rightarrow> 'chip list \<Rightarrow> real list list outcome" where
  "net_operator val_of dims data =
     (if data = [] then Returns []
      else let inc = min 128 (length data)
        in case net_batch val_of dims (take inc data) of
             Returns o1 \<Rightarrow>
               (case net_operator val_of dims (drop inc data) of
                  Returns o2 \<Rightarrow> Returns (o1 @ o2) | Throws e \<Rightarrow> Throws e | Undefined \<Rightarrow> Undefined)
           | Throws e \<Rightarrow> Throws e
           | Undefined \<Rightarrow> Undefined)"
  by pat_completeness auto
termination
  by (relation "measure (\<lambda>(_, _, data). length data)") auto

declare net_operator.simps [simp del]

section \<open>The class\<close>

record ('img, 'shape, 'chip) face_ops =
  shape_predictor :: "'img \<Rightarrow> rectangle \<Rightarrow> 'shape"
  extract_image_chip :: "'img \<Rightarrow> 'shape \<Rightarrow> 'chip"
  chip_dims :: "'chip \<Rightarrow> nat \<times> nat"
  net_value :: "'chip \<Rightarrow> nat \<Rightarrow> real"

type_synonym descriptor = "real list"

text \<open>The loop that pairs descriptor \<open>i\<close> with rectangle \<open>i\<close>; a missing rectangle is undefined.\<close>

fun pair_up :: "descriptor list \<Rightarrow> rectangle list \<Rightarrow> nat \<Rightarrow> (descriptor \<times> rectangle) list option" where
  "pair_up [] rects i = Some []"
| "pair_up (d # ds) rects i =
     (if i < length rects then do { rest \<leftarrow> pair_up ds rects (i + 1); Some ((d, rects ! i) # rest) }
      else None)"

definition face_chips :: "('img, 'shape, 'chip) face_ops \<Rightarrow> 'img \<Rightarrow> rectangle list \<Rightarrow> 'chip list" where
  "face_chips ops img rects = map (\<lambda>face. extract_image_chip ops img (shape_predictor ops img face)) rects"

definition describe_faces ::
  "('img, 'shape, 'chip) face_ops \<Rightarrow> 'img \<Rightarrow> rectangle list \<Rightarrow> (descriptor \<times> rectangle) list outcome" where
  "describe_faces ops img face_rectangle =
     (let faces = face_chips ops img face_rectangle
      in if length faces = 0 then Returns []
         else case net_operator (net_value ops) (chip_dims ops) faces of
                Returns face_descriptors \<Rightarrow> run_unchecked (pair_up face_descriptors face_rectangle 0)
              | Throws e \<Rightarrow> Throws e
              | Undefined \<Rightarrow> Undefined)"

definition detected_image ::
  "('sc, 'img, 'full) scanner_ops \<Rightarrow> (rect_detection list \<Rightarrow> rect_detection list) \<Rightarrow>
     ('img, 'shape, 'chip) face_ops \<Rightarrow> 'sc object_detector \<Rightarrow> 'img \<Rightarrow>
     'sc object_detector \<times> (descriptor \<times> rectangle) list outcome" where
  "detected_image sc sorter ops detector img =
     (let (detector, face_rectangle) = detect_rects sc sorter detector img 0
      in (detector, describe_faces ops img face_rectangle))"

text \<open>The Python class returns the borders of the rectangle in another order.\<close>

definition python_rectangle :: "rectangle \<Rightarrow> int \<times> int \<times> int \<times> int" where
  "python_rectangle r = (rtop r, rbottom r, rleft r, rright r)"

definition detected_image_python ::
  "('sc, 'img, 'full) scanner_ops \<Rightarrow> (rect_detection list \<Rightarrow> rect_detection list) \<Rightarrow>
     ('img, 'shape, 'chip) face_ops \<Rightarrow> 'sc object_detector \<Rightarrow> 'img \<Rightarrow>
     'sc object_detector \<times> (descriptor \<times> int \<times> int \<times> int \<times> int) list outcome" where
  "detected_image_python sc sorter ops detector img =
     (let (detector, res) = detected_image sc sorter ops detector img
      in (detector, case res of
            Returns fs \<Rightarrow> Returns (map (\<lambda>(d, r). (d, python_rectangle r)) fs)
          | Throws e \<Rightarrow> Throws e
          | Undefined \<Rightarrow> Undefined))"

text \<open>\<open>length(face1 - face2)\<close>; the difference is defined for vectors of the same length.\<close>

definition compare_faces :: "descriptor \<Rightarrow> descriptor \<Rightarrow> real option" where
  "compare_faces face1 face2 =
     (if length face1 = length face2
      then Some (sqrt (sum_list (map2 (\<lambda>a b. (a - b) * (a - b)) face1 face2)))
      else None)"

section \<open>The descriptors\<close>

definition describe :: "('chip \<Rightarrow> nat \<Rightarrow> real) \<Rightarrow> 'chip \<Rightarrow> descriptor" where
  "describe val_of c = map (val_of c) [0..<128]"

lemma zip_replicate_map: "map (\<lambda>(k, c). f k c) (zip (replicate (length cs) m) cs) = map (f m) cs"
  by (induction cs) simp_all

lemma net_batch_ok:
  assumes "cs \<noteq> []" "\<forall>c \<in> set cs. dims c = (150, 150)"
  shows "net_batch val_of dims cs = Returns (map (describe val_of) cs)"
proof -
  have "net_labels (length cs) anet_type anet_details = Some (replicate (length cs) 128)"
    using assms(1) by (intro net_labels_anet) simp
  with assms show ?thesis
    by (simp add: net_batch_def dlib_cassert_def list_all_iff describe_def
      zip_replicate_map [of "\<lambda>k c. map (val_of c) [0..<k]"])
qed

lemma net_operator_ok:
  "\<forall>c \<in> set cs. dims c = (150, 150) \<Longrightarrow> net_operator val_of dims cs = Returns (map (describe val_of) cs)"
proof (induction cs rule: length_induct)
  case (1 cs)
  show ?case
  proof (cases "cs = []")
    case True
    then show ?thesis by (simp add: net_operator.simps)
  next
    case False
    let ?i = "min 128 (length cs)"
    have parts: "take ?i cs \<noteq> []" "\<forall>c \<in> set (take ?i cs). dims c = (150, 150)"
      "\<forall>c \<in> set (drop ?i cs). dims c = (150, 150)" "length (drop ?i cs) < length cs"
      using False "1.prems" by (auto dest: in_set_takeD in_set_dropD)
    from "1.IH" parts(3,4) have "net_operator val_of dims (drop ?i cs) = Returns (map (describe val_of) (drop ?i cs))"
      by blast
    moreover note net_batch_ok [OF parts(1,2), of val_of]
    moreover have "map (describe val_of) (take ?i cs) @ map (describe val_of) (drop ?i cs) = map (describe val_of) cs"
      by (simp flip: map_append)
    ultimately show ?thesis using False by (simp add: net_operator.simps [of val_of dims cs] Let_def)
  qed
qed

lemma pair_up_ok: "i + length ds \<le> length rects \<Longrightarrow> pair_up ds rects i = Some (zip ds (drop i rects))"
proof (induction ds arbitrary: i)
  case (Cons d ds)
  then have "drop i rects = rects ! i # drop (Suc i) rects" by (simp add: Cons_nth_drop_Suc)
  with Cons show ?case by simp
qed simp

text \<open>\<open>extract_image_chip\<close> with the details for size 150 gives images of that size.\<close>

definition makes_chips :: "('img, 'shape, 'chip) face_ops \<Rightarrow> bool" where
  "makes_chips ops \<longleftrightarrow> (\<forall>img s. chip_dims ops (extract_image_chip ops img s) = (150, 150))"

lemma describe_faces_ok:
  assumes "makes_chips ops"
  shows "describe_faces ops img rects =
    Returns (zip (map (describe (net_value ops)) (face_chips ops img rects)) rects)"
proof (cases "rects = []")
  case True
  then show ?thesis by (simp add: describe_faces_def face_chips_def)
next
  case False
  let ?cs = "face_chips ops img rects"
  have "\<forall>c \<in> set ?cs. chip_dims ops c = (150, 150)"
    using assms by (auto simp: makes_chips_def face_chips_def)
  from net_operator_ok [OF this] False
    pair_up_ok [of 0 "map (describe (net_value ops)) ?cs" rects] show ?thesis
    by (simp add: describe_faces_def run_unchecked_def Let_def) (simp add: face_chips_def)
qed

lemma detected_image_ok:
  assumes "makes_chips ops"
  shows "\<exists>res. snd (detected_image sc sorter ops detector img) = Returns res \<and>
    map snd res = snd (detect_rects sc sorter detector img 0) \<and>
    (\<forall>(d, r) \<in> set res. length d = 128 \<and>
       d = describe (net_value ops) (extract_image_chip ops img (shape_predictor ops img r)))"
proof -
  obtain det rects where dr: "detect_rects sc sorter detector img 0 = (det, rects)"
    by (cases "detect_rects sc sorter detector img 0")
  let ?res = "zip (map (describe (net_value ops)) (face_chips ops img rects)) rects"
  have len: "length (map (describe (net_value ops)) (face_chips ops img rects)) = length rects"
    by (simp add: face_chips_def)
  then have "map snd ?res = rects" by (rule map_snd_zip)
  moreover have "\<forall>(d, r) \<in> set ?res. length d = 128 \<and>
      d = describe (net_value ops) (extract_image_chip ops img (shape_predictor ops img r))"
    by (auto simp: set_zip face_chips_def describe_def)
  ultimately show ?thesis
    using describe_faces_ok [OF assms, of img rects] dr by (simp add: detected_image_def)
qed

lemma compare_faces_sym: "compare_faces a b = compare_faces b a"
proof -
  have "length a = length b \<Longrightarrow>
      map2 (\<lambda>x y. (x - y) * (x - y)) a b = map2 (\<lambda>x y. (x - y) * (x - y)) b a" for a b :: "real list"
    by (induction a b rule: list_induct2) (simp_all add: algebra_simps)
  then show ?thesis by (simp add: compare_faces_def)
qed

lemma compare_faces_zero: "compare_faces a b = Some 0 \<longleftrightarrow> a = b"
proof -
  have nonneg: "0 \<le> sum_list (map2 (\<lambda>x y. (x - y) * (x - y)) a b)" for a b :: "real list"
    by (intro sum_list_nonneg) (auto simp: set_zip)
  have "length a = length b \<Longrightarrow> sum_list (map2 (\<lambda>x y. (x - y) * (x - y)) a b) = 0 \<longleftrightarrow> a = b"
    for a b :: "real list"
  proof (induction a b rule: list_induct2)
    case (Cons x xs y ys)
    have "(x - y) * (x - y) + sum_list (map2 (\<lambda>x y. (x - y) * (x - y)) xs ys) = 0 \<longleftrightarrow>
        (x - y) * (x - y) = 0 \<and> sum_list (map2 (\<lambda>x y. (x - y) * (x - y)) xs ys) = 0"
      by (intro add_nonneg_eq_0_iff nonneg) simp
    with Cons show ?case by simp
  qed simp
  then show ?thesis by (auto simp: compare_faces_def)
qed

section \<open>Property\<close>

text \<open>Predictor, chips and network of the instance below.\<close>

definition sample_faces :: "(unit, rectangle, rectangle) face_ops" where
  "sample_faces = \<lparr>shape_predictor = (\<lambda>img r. r), extract_image_chip = (\<lambda>img r. r),
     chip_dims = (\<lambda>c. (150, 150)), net_value = (\<lambda>c j. real_of_int (rleft c) + real j)\<rparr>"

text \<open>
  C38. \<open>detectedImage\<close> never fails for want of a rectangle or a chip: its result lists exactly the
  rectangles the detector returns, in their order, each with the descriptor of 128 values of its own
  chip, also when the faces are processed in several batches.
\<close>

theorem detected_image_pairs:
  assumes "makes_chips ops"
  shows "\<exists>res. snd (detected_image sc sorter ops detector img) = Returns res \<and>
    map snd res = snd (detect_rects sc sorter detector img 0) \<and>
    (\<forall>(d, r) \<in> set res. length d = 128 \<and>
       d = describe (net_value ops) (extract_image_chip ops img (shape_predictor ops img r)))"
  using assms by (rule detected_image_ok)

theorem detected_image_pairs_witness:
  "makes_chips sample_faces \<and>
   (\<exists>res. snd (detected_image sample_scanner sample_sorter sample_faces sample_detector ()) = Returns res \<and>
     map snd res = snd (detect_rects sample_scanner sample_sorter sample_detector () 0))"
proof -
  have "makes_chips sample_faces" by (simp add: makes_chips_def sample_faces_def)
  with detected_image_pairs [OF this, of sample_scanner sample_sorter sample_detector "()"] show ?thesis by blast
qed

end
