(* ===== verification/H264_Coding.thy ===== *)
theory H264_Coding
  imports Checked_Assert
begin

text \<open>
  The video classes of \<open>python_ffmpeg_interface\<close>: \<open>H264Encoder\<close> and \<open>H264Decoder\<close>. The FFmpeg
  calls are parameters, functions on the state of the library object they work on, which
  return the return code and what the call wrote. A call on a null object has no defined
  behaviour. The loops of the decoder run on fuel: whether they end depends on the library.
\<close>

section \<open>Opening\<close>

text \<open>The results of the calls of the constructors, in their order.\<close>

record open_results =
  codec_found :: bool
  context_allocated :: bool
  open2_ret :: int
  sws_allocated :: bool
  packet_allocated :: bool
  parser_initialised :: bool
  frame_allocated :: bool
  bgr_frame_allocated :: bool

definition encoder_opens :: "open_results \<Rightarrow> bool" where
  "encoder_opens r =
     (if \<not> codec_found r then False
      else if \<not> context_allocated r then False
      else if open2_ret r < 0 then False
      else if \<not> sws_allocated r then False
      else if \<not> packet_allocated r then False
      else if \<not> frame_allocated r then False
      else True)"

definition decoder_opens :: "open_results \<Rightarrow> bool" where
  "decoder_opens r =
     (if \<not> codec_found r then False
      else if \<not> context_allocated r then False
      else if open2_ret r < 0 then False
      else if \<not> sws_allocated r then False
      else if \<not> packet_allocated r then False
      else if \<not> parser_initialised r then False
      else if \<not> frame_allocated r then False
      else if \<not> bgr_frame_allocated r then False
      else True)"

text \<open>The parser exists only if the constructor got as far as its allocation.\<close>

definition parser_exists :: "open_results \<Rightarrow> bool" where
  "parser_exists r \<longleftrightarrow> codec_found r \<and> context_allocated r \<and> open2_ret r \<ge> 0 \<and>
     sws_allocated r \<and> packet_allocated r \<and> parser_initialised r"

section \<open>The encoder\<close>

record ('e, 'mat, 'yuv) encoder_ops =
  enc_scale :: "'mat \<Rightarrow> 'yuv"
  enc_send_frame :: "'e \<Rightarrow> 'yuv \<Rightarrow> int \<Rightarrow> 'e"
  enc_receive_packet :: "'e \<Rightarrow> 'e \<times> int \<times> byte list"

record 'e h264_encoder =
  enc_context :: 'e
  frame_id :: int
  enc_is_open :: bool

definition h264_encoder_init :: "open_results \<Rightarrow> 'e \<Rightarrow> 'e h264_encoder" where
  "h264_encoder_init r e = \<lparr>enc_context = e, frame_id = 0, enc_is_open = encoder_opens r\<rparr>"

definition encode :: "('e, 'mat, 'yuv) encoder_ops \<Rightarrow> 'e h264_encoder \<Rightarrow> 'mat \<Rightarrow> 'e h264_encoder \<times> byte list" where
  "encode ops s mat =
     (if enc_is_open s then
        (let yuv = enc_scale ops mat; pts = frame_id s;
             e1 = enc_send_frame ops (enc_context s) yuv pts;
             (e2, ret, pkt) = enc_receive_packet ops e1;
             s = s\<lparr>enc_context := e2, frame_id := frame_id s + 1\<rparr>
         in if ret < 0 \<or> length pkt \<le> 0 then (s, []) else (s, pkt))
      else (s, []))"

section \<open>The decoder\<close>

datatype pix_format = AV_PIX_FMT_BGR24 | AV_PIX_FMT_YUV420P

text \<open>\<open>dec_scale f i\<close> is byte \<open>i\<close> of the frame \<open>f\<close> converted to BGR.\<close>

record ('p, 'c, 'frame) decoder_ops =
  parse2 :: "'p \<Rightarrow> byte list \<Rightarrow> 'p \<times> int \<times> byte list"
  send_packet :: "'c \<Rightarrow> byte list \<Rightarrow> 'c \<times> int"
  receive_frame :: "'c \<Rightarrow> 'c \<times> int \<times> 'frame"
  frame_format :: "'frame \<Rightarrow> pix_format"
  dec_scale :: "'frame \<Rightarrow> nat \<Rightarrow> byte"

record ('p, 'c) h264_decoder =
  dec_parser :: "'p option"
  dec_context :: 'c
  decode_frame_buffer :: "byte list"
  brg_frame_buffer :: "byte list"
  dec_is_open :: bool

definition h264_decoder_init :: "open_results \<Rightarrow> 'p \<Rightarrow> 'c \<Rightarrow> nat \<Rightarrow> nat \<Rightarrow> ('p, 'c) h264_decoder" where
  "h264_decoder_init r p c yuv_size bgr_size =
     \<lparr>dec_parser = (if parser_exists r then Some p else None), dec_context = c,
      decode_frame_buffer = (if parser_exists r \<and> frame_allocated r then replicate yuv_size 0 else []),
      brg_frame_buffer = (if parser_exists r \<and> frame_allocated r \<and> bgr_frame_allocated r
                          then replicate bgr_size 0 else []),
      dec_is_open = decoder_opens r\<rparr>"

text \<open>
  The loop over \<open>avcodec_receive_frame\<close>. Every result below zero ends it, \<open>EAGAIN\<close> and
  \<open>EOF\<close> among them. \<open>None\<close> is out of fuel.
\<close>

fun receive_loop ::
  "('p, 'c, 'frame) decoder_ops \<Rightarrow> nat \<Rightarrow> ('p, 'c) h264_decoder \<Rightarrow> byte list list \<Rightarrow>
     (('p, 'c) h264_decoder \<times> byte list list) option" where
  "receive_loop ops 0 s frame_list = None"
| "receive_loop ops (Suc n) s frame_list =
     (let (c, ret, f) = receive_frame ops (dec_context s);
          s = s\<lparr>dec_context := c\<rparr>
      in if ret < 0 then Some (s, frame_list)
         else if frame_format ops f = AV_PIX_FMT_BGR24
         then receive_loop ops n s (frame_list @ [decode_frame_buffer s])
         else (let bgr = map (dec_scale ops f) [0..<length (brg_frame_buffer s)]
               in receive_loop ops n (s\<lparr>brg_frame_buffer := bgr\<rparr>) (frame_list @ [bgr])))"

definition decode_packet ::
  "('p, 'c, 'frame) decoder_ops \<Rightarrow> nat \<Rightarrow> ('p, 'c) h264_decoder \<Rightarrow> byte list \<Rightarrow> byte list list \<Rightarrow>
     (('p, 'c) h264_decoder \<times> byte list list) option" where
  "decode_packet ops n s pkt frame_list =
     (let (c, ret) = send_packet ops (dec_context s) pkt;
          s = s\<lparr>dec_context := c\<rparr>
      in if ret < 0 then Some (s, frame_list) else receive_loop ops n s frame_list)"

text \<open>
  The loop over the input. The outer \<open>None\<close> is out of fuel, \<open>Undefined\<close> a call of the parser
  through a null pointer; the code does not look at \<open>isOpen\<close>.
\<close>

fun decode_data ::
  "('p, 'c, 'frame) decoder_ops \<Rightarrow> nat \<Rightarrow> nat \<Rightarrow> ('p, 'c) h264_decoder \<Rightarrow> byte list \<Rightarrow> byte list list \<Rightarrow>
     (('p, 'c) h264_decoder \<times> byte list list) outcome option" where
  "decode_data ops m 0 s data frame_list = None"
| "decode_data ops m (Suc n) s data frame_list =
     (if length data > 0 then
        (case dec_parser s of
           None \<Rightarrow> Some Undefined
         | Some p \<Rightarrow>
             (let (p, ret, pkt) = parse2 ops p data;
                  s = s\<lparr>dec_parser := Some p\<rparr>
              in if ret < 0 then Some (Returns (s, frame_list))
                 else (case (if length pkt \<noteq> 0 then decode_packet ops m s pkt frame_list
                             else Some (s, frame_list)) of
                         None \<Rightarrow> None
                       | Some (s, frame_list) \<Rightarrow>
                           decode_data ops m n s (drop (nat ret) data) frame_list)))
      else Some (Returns (s, frame_list)))"

section \<open>The encoder's behaviour\<close>

lemma encode_closed: "\<not> enc_is_open s \<Longrightarrow> encode ops s mat = (s, [])"
  by (simp add: encode_def)

text \<open>Time stamps: frame number \<open>i\<close> is sent with \<open>pts = i\<close>, whether or not a packet came out.\<close>

fun encode_all ::
  "('e, 'mat, 'yuv) encoder_ops \<Rightarrow> 'e h264_encoder \<Rightarrow> 'mat list \<Rightarrow> 'e h264_encoder \<times> byte list list" where
  "encode_all ops s [] = (s, [])"
| "encode_all ops s (m # ms) =
     (let (s, p) = encode ops s m; (s, ps) = encode_all ops s ms in (s, p # ps))"

lemma encode_all_frame_id:
  "enc_is_open s \<Longrightarrow> frame_id (fst (encode_all ops s ms)) = frame_id s + int (length ms) \<and>
     enc_is_open (fst (encode_all ops s ms))"
proof (induction ms arbitrary: s)
  case (Cons m ms)
  have "enc_is_open (fst (encode ops s m)) \<and> frame_id (fst (encode ops s m)) = frame_id s + 1"
    using Cons.prems by (simp add: encode_def Let_def split: prod.split)
  with Cons.IH [of "fst (encode ops s m)"] show ?case
    by (simp split: prod.split) (metis fst_conv add.assoc add.commute)
qed simp

section \<open>The decoder's behaviour\<close>

text \<open>
  What the code relies on in FFmpeg: \<open>av_parser_parse2\<close> returns the number of bytes of the input it used, which are not more
  than there are and may be none; the loop around it, the one of FFmpeg's documentation, needs that it does not go on for ever
  without using a byte. \<open>rank\<close> bounds the calls in a row that use none. And the codec delivers finitely many frames per packet,
  counted by \<open>pending\<close>.
\<close>

definition parser_progress :: "('p, 'c, 'frame) decoder_ops \<Rightarrow> ('p \<Rightarrow> nat) \<Rightarrow> nat \<Rightarrow> bool" where
  "parser_progress ops rank idle \<longleftrightarrow> (\<forall>p. rank p \<le> idle) \<and> (\<forall>p data. data \<noteq> [] \<longrightarrow>
     (let (p', ret, pkt) = parse2 ops p data
      in ret < 0 \<or> nat ret \<le> length data \<and> (ret = 0 \<longrightarrow> rank p' < rank p)))"

definition frames_bounded :: "('p, 'c, 'frame) decoder_ops \<Rightarrow> ('c \<Rightarrow> nat) \<Rightarrow> nat \<Rightarrow> bool" where
  "frames_bounded ops pending m \<longleftrightarrow>
     (\<forall>c. pending c < m) \<and>
     (\<forall>c. 0 \<le> fst (snd (receive_frame ops c)) \<longrightarrow> pending (fst (receive_frame ops c)) < pending c)"

text \<open>The decoder's own state: nothing but the library objects and the content of the buffers
  changes.\<close>

definition same_buffers :: "('p, 'c) h264_decoder \<Rightarrow> ('p, 'c) h264_decoder \<Rightarrow> bool" where
  "same_buffers s s' \<longleftrightarrow> length (brg_frame_buffer s') = length (brg_frame_buffer s) \<and>
     decode_frame_buffer s' = decode_frame_buffer s \<and> dec_is_open s' = dec_is_open s \<and>
     (dec_parser s' = None \<longleftrightarrow> dec_parser s = None)"

lemma same_buffers_refl [simp]: "same_buffers s s"
  by (simp add: same_buffers_def)

lemma same_buffers_trans: "same_buffers a b \<Longrightarrow> same_buffers b c \<Longrightarrow> same_buffers a c"
  by (simp add: same_buffers_def)

text \<open>Frames that come out of the conversion have the size of the BGR buffer.\<close>

definition never_bgr :: "('p, 'c, 'frame) decoder_ops \<Rightarrow> bool" where
  "never_bgr ops \<longleftrightarrow> (\<forall>f. frame_format ops f \<noteq> AV_PIX_FMT_BGR24)"

lemma receive_loop_ok:
  "frames_bounded ops pending m \<Longrightarrow> never_bgr ops \<Longrightarrow> pending (dec_context s) < n \<Longrightarrow>
     \<exists>s' new. receive_loop ops n s fl = Some (s', fl @ new) \<and> same_buffers s s' \<and>
       dec_parser s' = dec_parser s \<and> (\<forall>f \<in> set new. length f = length (brg_frame_buffer s))"
proof (induction n arbitrary: s fl)
  case (Suc n)
  obtain c ret f where r: "receive_frame ops (dec_context s) = (c, ret, f)"
    by (cases "receive_frame ops (dec_context s)")
  show ?case
  proof (cases "ret < 0")
    case True
    with r show ?thesis by (simp add: same_buffers_def)
  next
    case False
    let ?bgr = "map (dec_scale ops f) [0..<length (brg_frame_buffer s)]"
    let ?s = "s\<lparr>dec_context := c, brg_frame_buffer := ?bgr\<rparr>"
    have "0 \<le> fst (snd (receive_frame ops (dec_context s))) \<longrightarrow>
        pending (fst (receive_frame ops (dec_context s))) < pending (dec_context s)"
      using Suc.prems(1) unfolding frames_bounded_def by blast
    with r False have "pending c < pending (dec_context s)" by simp
    with Suc.prems(3) have "pending (dec_context ?s) < n" by simp
    from Suc.IH [OF Suc.prems(1,2) this, of "fl @ [?bgr]"] obtain s' new where
      "receive_loop ops n ?s (fl @ [?bgr]) = Some (s', (fl @ [?bgr]) @ new)" "same_buffers ?s s'"
      "dec_parser s' = dec_parser ?s" "\<forall>f \<in> set new. length f = length (brg_frame_buffer ?s)" by blast
    moreover have "frame_format ops f \<noteq> AV_PIX_FMT_BGR24" using Suc.prems(2) by (simp add: never_bgr_def)
    ultimately show ?thesis using r False
      by (intro exI [of _ s'] exI [of _ "?bgr # new"]) (simp add: Let_def same_buffers_def)
  qed
qed simp

lemma decode_packet_ok:
  assumes "frames_bounded ops pending m" "never_bgr ops"
  shows "\<exists>s' new. decode_packet ops m s pkt fl = Some (s', fl @ new) \<and> same_buffers s s' \<and>
       dec_parser s' = dec_parser s \<and> (\<forall>f \<in> set new. length f = length (brg_frame_buffer s))"
proof -
  obtain c ret where c: "send_packet ops (dec_context s) pkt = (c, ret)"
    by (cases "send_packet ops (dec_context s) pkt")
  have "pending (dec_context (s\<lparr>dec_context := c\<rparr>)) < m"
    using assms(1) by (simp add: frames_bounded_def)
  from receive_loop_ok [OF assms this, of fl] c show ?thesis
    by (cases "ret < 0") (auto simp: decode_packet_def same_buffers_def)
qed

text \<open>The fuel of the loop: at most \<open>idle\<close> calls without progress before each byte and after the last one.\<close>

abbreviation parse_rounds :: "nat \<Rightarrow> byte list \<Rightarrow> nat" where
  "parse_rounds idle data \<equiv> length data * Suc idle"

lemma decode_data_ok:
  "parser_progress ops rank idle \<Longrightarrow> frames_bounded ops pending m \<Longrightarrow> never_bgr ops \<Longrightarrow>
   dec_parser s = Some p \<Longrightarrow> parse_rounds idle data + rank p < n \<Longrightarrow>
     \<exists>s' new. decode_data ops m n s data fl = Some (Returns (s', fl @ new)) \<and> same_buffers s s' \<and>
       (\<forall>f \<in> set new. length f = length (brg_frame_buffer s))"
proof (induction n arbitrary: s p data fl)
  case (Suc n)
  note p = Suc.prems(4)
  show ?case
  proof (cases "data = []")
    case False
    obtain p' ret pkt where r: "parse2 ops p data = (p', ret, pkt)" by (cases "parse2 ops p data")
    have "let (p', ret, pkt) = parse2 ops p data
        in ret < 0 \<or> nat ret \<le> length data \<and> (ret = 0 \<longrightarrow> rank p' < rank p)" and idle: "rank p' \<le> idle"
      using Suc.prems(1) False unfolding parser_progress_def by blast+
    with r have ret: "ret < 0 \<or> nat ret \<le> length data \<and> (ret = 0 \<longrightarrow> rank p' < rank p)" by simp
    let ?s = "s\<lparr>dec_parser := Some p'\<rparr>"
    show ?thesis
    proof (cases "ret < 0")
      case True
      with p r False show ?thesis by (simp add: same_buffers_def)
    next
      case pos: False
      obtain s1 new1 where s1: "(if length pkt \<noteq> 0 then decode_packet ops m ?s pkt fl else Some (?s, fl))
          = Some (s1, fl @ new1)" "same_buffers ?s s1" "dec_parser s1 = Some p'"
        "\<forall>f \<in> set new1. length f = length (brg_frame_buffer s)"
        using decode_packet_ok [OF Suc.prems(2,3), of ?s pkt fl] by (cases "length pkt \<noteq> 0") auto
      have "parse_rounds idle (drop (nat ret) data) + rank p' < parse_rounds idle data + rank p"
      proof (cases "ret = 0")
        case True
        with ret show ?thesis by simp
      next
        case False
        with pos ret obtain k where k: "length data = Suc k" "length (drop (nat ret) data) \<le> k" by (cases "length data") auto
        have "parse_rounds idle (drop (nat ret) data) \<le> k * Suc idle" by (rule mult_le_mono1 [OF k(2)])
        with k(1) have "parse_rounds idle (drop (nat ret) data) + Suc idle \<le> parse_rounds idle data" by simp
        with idle show ?thesis by linarith
      qed
      with Suc.prems(5) have shorter: "parse_rounds idle (drop (nat ret) data) + rank p' < n" by linarith
      from Suc.IH [OF Suc.prems(1-3) s1(3) shorter, of "fl @ new1"] obtain s' new2 where
        rest: "decode_data ops m n s1 (drop (nat ret) data) (fl @ new1) = Some (Returns (s', (fl @ new1) @ new2))"
        "same_buffers s1 s'" "\<forall>f \<in> set new2. length f = length (brg_frame_buffer s1)" by blast
      have step: "decode_data ops m (Suc n) s data fl =
          decode_data ops m n s1 (drop (nat ret) data) (fl @ new1)"
        using p r False pos s1(1) by (simp del: length_0_conv)
      have "length (brg_frame_buffer s1) = length (brg_frame_buffer s)" "same_buffers s s1"
        using s1(2) p by (simp_all add: same_buffers_def)
      then have "same_buffers s s'" "\<forall>f \<in> set (new1 @ new2). length f = length (brg_frame_buffer s)"
        using rest(2,3) s1(4) by (auto intro: same_buffers_trans)
      with rest(1) show ?thesis unfolding step by auto
    qed
  qed simp
qed simp

lemma decode_data_closed:
  assumes "dec_parser s = None" "data \<noteq> []"
  shows "decode_data ops m (Suc n) s data fl = Some Undefined"
  using assms by simp

section \<open>Properties\<close>

text \<open>
  An encoder and a decoder for the instances below: every byte of the input is one packet, the parser asks for it twice and uses
  it the second time, and a packet is one frame.
\<close>

definition sample_encoder :: "(unit, nat, nat) encoder_ops" where
  "sample_encoder = \<lparr>enc_scale = (\<lambda>m. m), enc_send_frame = (\<lambda>e y t. ()), enc_receive_packet = (\<lambda>e. (e, -1, []))\<rparr>"

definition sample_decoder :: "(nat, nat, nat) decoder_ops" where
  "sample_decoder = \<lparr>parse2 = (\<lambda>p data. if p = 0 then (1, 1, take 1 data) else (0, 0, [])), send_packet = (\<lambda>c pkt. (1, 0)),
     receive_frame = (\<lambda>c. (0, if c = 0 then -1 else 0, c)), frame_format = (\<lambda>f. AV_PIX_FMT_YUV420P),
     dec_scale = (\<lambda>f i. of_nat i)\<rparr>"

definition sample_open_decoder :: "(nat, nat) h264_decoder" where
  "sample_open_decoder = h264_decoder_init \<lparr>codec_found = True, context_allocated = True, open2_ret = 0,
     sws_allocated = True, packet_allocated = True, parser_initialised = True, frame_allocated = True,
     bgr_frame_allocated = True\<rparr> 1 0 6 12"

text \<open>
  An open encoder numbers the frames it is given without gaps: after any number of calls of
  \<open>encode\<close> the next time stamp is the first one plus that number, whether or not the codec delivered
  packets, and there is one result per call.
\<close>

theorem encoder_time_stamps:
  assumes "enc_is_open s"
  shows "frame_id (fst (encode_all ops s ms)) = frame_id s + int (length ms) \<and>
    enc_is_open (fst (encode_all ops s ms)) \<and> length (snd (encode_all ops s ms)) = length ms"
proof -
  have "length (snd (encode_all ops s ms)) = length ms" for s
    by (induction ms arbitrary: s) (auto split: prod.split, metis snd_conv)
  then show ?thesis using encode_all_frame_id [OF assms, of ops ms] by blast
qed

theorem encoder_time_stamps_witness:
  "frame_id (fst (encode_all sample_encoder \<lparr>enc_context = (), frame_id = 0, enc_is_open = True\<rparr> [7, 8, 9])) = 3"
  using encoder_time_stamps [of "\<lparr>enc_context = (), frame_id = 0, enc_is_open = True\<rparr>" sample_encoder "[7, 8, 9]"]
  by simp



end
