(* ===== verification/H264_Img_Process.thy ===== *)
theory H264_Img_Process
  imports H264_Coding
begin

text \<open>
  \<open>H264ImgProcess\<close>: an encoder, a decoder and the list of decoded images, used from several
  Python threads. First the methods as functions, then the interleavings of threads that call
  \<open>pushImageData\<close> and \<open>getImage\<close> as a step relation, one step per access to the shared state.
  The arrays of NumPy are a shape and their bytes.
\<close>

section \<open>The methods\<close>

record ('e, 'p, 'c) img_process =
  encoder :: "'e h264_encoder"
  decoder :: "('p, 'c) h264_decoder"
  img_data_list :: "byte list list"
  ip_height :: nat
  ip_width :: nat

type_synonym ndarray = "nat list \<times> byte list"

definition encode_image ::
  "('e, 'mat, 'yuv) encoder_ops \<Rightarrow> ('e, 'p, 'c) img_process \<Rightarrow> 'mat \<Rightarrow> ('e, 'p, 'c) img_process \<times> ndarray" where
  "encode_image ops s mat =
     (let (e, res) = encode ops (encoder s) mat
      in (s\<lparr>encoder := e\<rparr>, ([length res], res)))"

definition push_image_data ::
  "('p, 'c, 'frame) decoder_ops \<Rightarrow> nat \<Rightarrow> nat \<Rightarrow> ('e, 'p, 'c) img_process \<Rightarrow> byte list \<Rightarrow>
     ('e, 'p, 'c) img_process outcome option" where
  "push_image_data ops m n s data =
     (case decode_data ops m n (decoder s) data (img_data_list s) of
        None \<Rightarrow> None
      | Some (Returns (d, frames)) \<Rightarrow> Some (Returns (s\<lparr>decoder := d, img_data_list := frames\<rparr>))
      | Some (Throws e) \<Rightarrow> Some (Throws e)
      | Some Undefined \<Rightarrow> Some Undefined)"

text \<open>
  \<open>getImage\<close>: the frame is copied to the front of a zeroed array of \<open>height * width * 3\<close> bytes;
  a longer frame is written past its end.
\<close>

definition image_array :: "nat \<Rightarrow> nat \<Rightarrow> byte list \<Rightarrow> ndarray outcome" where
  "image_array h w data =
     (let size = h * w * 3
      in if length data \<le> size then Returns ([h, w, 3], data @ replicate (size - length data) 0)
         else Undefined)"

definition get_image :: "('e, 'p, 'c) img_process \<Rightarrow> ('e, 'p, 'c) img_process \<times> ndarray outcome" where
  "get_image s =
     (case img_data_list s of
        [] \<Rightarrow> (s, Returns ([0], []))
      | data # rest \<Rightarrow> (s\<lparr>img_data_list := rest\<rparr>, image_array (ip_height s) (ip_width s) data))"

definition frames_fit :: "('e, 'p, 'c) img_process \<Rightarrow> bool" where
  "frames_fit s \<longleftrightarrow> length (brg_frame_buffer (decoder s)) = ip_height s * ip_width s * 3 \<and>
     dec_parser (decoder s) \<noteq> None \<and>
     (\<forall>f \<in> set (img_data_list s). length f = ip_height s * ip_width s * 3)"

lemma push_image_ok:
  assumes "parser_progress ops rank idle" "frames_bounded ops pending m" "never_bgr ops"
    and "frames_fit s" "length data * Suc idle + idle < n"
  shows "\<exists>s' new. push_image_data ops m n s data = Some (Returns s') \<and> frames_fit s' \<and>
    img_data_list s' = img_data_list s @ new \<and> ip_height s' = ip_height s \<and> ip_width s' = ip_width s"
proof -
  from assms(4) obtain p where p: "dec_parser (decoder s) = Some p" by (auto simp: frames_fit_def)
  have "rank p \<le> idle" using assms(1) by (simp add: parser_progress_def)
  with assms(5) have "parse_rounds idle data + rank p < n" by linarith
  from decode_data_ok [OF assms(1-3) p this, of "img_data_list s"] obtain d new where
    "decode_data ops m n (decoder s) data (img_data_list s) = Some (Returns (d, img_data_list s @ new))"
    "same_buffers (decoder s) d" "\<forall>f \<in> set new. length f = length (brg_frame_buffer (decoder s))" by blast
  with assms(4) show ?thesis
    by (intro exI [of _ "s\<lparr>decoder := d, img_data_list := img_data_list s @ new\<rparr>"] exI [of _ new])
      (auto simp: push_image_data_def frames_fit_def same_buffers_def)
qed

lemma get_image_ok:
  assumes "frames_fit s"
  shows "frames_fit (fst (get_image s))"
    "snd (get_image s) = Returns (case img_data_list s of [] \<Rightarrow> ([0], [])
       | f # _ \<Rightarrow> ([ip_height s, ip_width s, 3], f))"
  using assms by (auto simp: get_image_def frames_fit_def image_array_def split: list.splits)

section \<open>Threads\<close>

text \<open>
  Where a thread is in \<open>pushImageData\<close> or \<open>getImage\<close>. \<open>Get_Check\<close> is before the first test of the
  size, which is outside the lock; \<open>Get_Copied\<close> is between the copy and \<open>pop_front\<close>.
\<close>

datatype ('a, 'f) pc =
    Idle
  | Push_Lock 'a
  | Push_Decode 'a
  | Push_Unlock
  | Get_Check
  | Get_Lock
  | Get_Recheck
  | Get_Copied 'f
  | Get_Unlock "'f option"

text \<open>
  The shared state. \<open>delivered\<close> and \<open>decoded\<close> record, in order, the frames \<open>getImage\<close> has taken
  and those the decoder has appended. \<open>dec\<close> is one call of the decoder.
\<close>

record ('d, 'a, 'f) shared =
  holder :: "nat option"
  dec_state :: 'd
  queue :: "'f list"
  decoded :: "'f list"
  delivered :: "'f list"
  pcs :: "nat \<Rightarrow> ('a, 'f) pc"

definition goto :: "nat \<Rightarrow> ('a, 'f) pc \<Rightarrow> ('d, 'a, 'f) shared \<Rightarrow> ('d, 'a, 'f) shared" where
  "goto t p s = s\<lparr>pcs := (pcs s)(t := p)\<rparr>"

inductive thread_step ::
  "('d \<Rightarrow> 'a \<Rightarrow> 'd \<times> 'f list) \<Rightarrow> nat \<Rightarrow> ('d, 'a, 'f) shared \<Rightarrow> ('d, 'a, 'f) shared \<Rightarrow> bool" for dec where
  call_push: "pcs s t = Idle \<Longrightarrow> thread_step dec t s (goto t (Push_Lock data) s)"
| push_lock: "pcs s t = Push_Lock data \<Longrightarrow> holder s = None \<Longrightarrow>
    thread_step dec t s (goto t (Push_Decode data) (s\<lparr>holder := Some t\<rparr>))"
| push_decode: "pcs s t = Push_Decode data \<Longrightarrow> dec (dec_state s) data = (d, frames) \<Longrightarrow>
    thread_step dec t s (goto t Push_Unlock
      (s\<lparr>dec_state := d, queue := queue s @ frames, decoded := decoded s @ frames\<rparr>))"
| push_unlock: "pcs s t = Push_Unlock \<Longrightarrow> thread_step dec t s (goto t Idle (s\<lparr>holder := None\<rparr>))"
| call_get: "pcs s t = Idle \<Longrightarrow> thread_step dec t s (goto t Get_Check s)"
| get_check_empty: "pcs s t = Get_Check \<Longrightarrow> queue s = [] \<Longrightarrow> thread_step dec t s (goto t Idle s)"
| get_check_some: "pcs s t = Get_Check \<Longrightarrow> queue s \<noteq> [] \<Longrightarrow> thread_step dec t s (goto t Get_Lock s)"
| get_lock: "pcs s t = Get_Lock \<Longrightarrow> holder s = None \<Longrightarrow>
    thread_step dec t s (goto t Get_Recheck (s\<lparr>holder := Some t\<rparr>))"
| get_recheck_empty: "pcs s t = Get_Recheck \<Longrightarrow> queue s = [] \<Longrightarrow>
    thread_step dec t s (goto t (Get_Unlock None) s)"
| get_recheck_some: "pcs s t = Get_Recheck \<Longrightarrow> queue s = f # rest \<Longrightarrow>
    thread_step dec t s (goto t (Get_Copied f) s)"
| get_pop: "pcs s t = Get_Copied f \<Longrightarrow> queue s = g # rest \<Longrightarrow>
    thread_step dec t s (goto t (Get_Unlock (Some f)) (s\<lparr>queue := rest, delivered := delivered s @ [f]\<rparr>))"
| get_unlock: "pcs s t = Get_Unlock r \<Longrightarrow> thread_step dec t s (goto t Idle (s\<lparr>holder := None\<rparr>))"

inductive reachable ::
  "('d \<Rightarrow> 'a \<Rightarrow> 'd \<times> 'f list) \<Rightarrow> 'd \<Rightarrow> ('d, 'a, 'f) shared \<Rightarrow> bool" for dec d0 where
  start: "reachable dec d0 \<lparr>holder = None, dec_state = d0, queue = [], decoded = [], delivered = [],
    pcs = (\<lambda>t. Idle)\<rparr>"
| step: "reachable dec d0 s \<Longrightarrow> thread_step dec t s s' \<Longrightarrow> reachable dec d0 s'"

text \<open>The places at which a thread holds \<open>decode_locker\<close>.\<close>

fun holds_lock :: "('a, 'f) pc \<Rightarrow> bool" where
  "holds_lock (Push_Decode data) = True"
| "holds_lock Push_Unlock = True"
| "holds_lock Get_Recheck = True"
| "holds_lock (Get_Copied f) = True"
| "holds_lock (Get_Unlock r) = True"
| "holds_lock _ = False"

definition shared_inv :: "('d, 'a, 'f) shared \<Rightarrow> bool" where
  "shared_inv s \<longleftrightarrow>
     (\<forall>t. holds_lock (pcs s t) \<longleftrightarrow> holder s = Some t) \<and>
     decoded s = delivered s @ queue s \<and>
     (\<forall>t f. pcs s t = Get_Copied f \<longrightarrow> queue s \<noteq> [] \<and> hd (queue s) = f)"

lemma goto_simps [simp]:
  "pcs (goto t p s) u = (if u = t then p else pcs s u)" "holder (goto t p s) = holder s"
  "queue (goto t p s) = queue s" "decoded (goto t p s) = decoded s"
  "delivered (goto t p s) = delivered s"
  by (simp_all add: goto_def)

lemma holder_cases:
  assumes "shared_inv s" "holds_lock (pcs s t)"
  shows "holder s = Some t" "u \<noteq> t \<Longrightarrow> \<not> holds_lock (pcs s u)" "u \<noteq> t \<Longrightarrow> pcs s u \<noteq> Get_Copied f"
proof -
  show "holder s = Some t" using assms by (simp add: shared_inv_def)
  then show "u \<noteq> t \<Longrightarrow> \<not> holds_lock (pcs s u)" using assms by (simp add: shared_inv_def)
  then show "u \<noteq> t \<Longrightarrow> pcs s u \<noteq> Get_Copied f" by (cases "pcs s u") auto
qed

lemma move_outside_lock:
  assumes "shared_inv s" "\<not> holds_lock (pcs s t)" "\<not> holds_lock p"
  shows "shared_inv (goto t p s)"
proof -
  from assms(1,2) have "holder s \<noteq> Some t" by (simp add: shared_inv_def)
  moreover from assms(3) have "p \<noteq> Get_Copied f" for f by auto
  ultimately show ?thesis using assms by (simp add: shared_inv_def)
qed

lemma shared_inv_step: "thread_step dec t s s' \<Longrightarrow> shared_inv s \<Longrightarrow> shared_inv s'"
proof (induction rule: thread_step.induct)
  case (push_decode s t data d frames)
  then have "holds_lock (pcs s t)" by simp
  from holder_cases [OF push_decode.prems this] push_decode show ?case
    by (auto simp: shared_inv_def)
next
  case (get_pop s t f g rest)
  then have h: "holds_lock (pcs s t)" by simp
  from get_pop have "hd (queue s) = f" by (auto simp: shared_inv_def)
  with holder_cases [OF get_pop.prems h] get_pop show ?case
    by (auto simp: shared_inv_def)
next
  case (push_unlock s t)
  then have "holds_lock (pcs s t)" by simp
  from holder_cases [OF push_unlock.prems this] push_unlock show ?case
    by (auto simp: shared_inv_def)
next
  case (get_unlock s t r)
  then have "holds_lock (pcs s t)" by simp
  from holder_cases [OF get_unlock.prems this] get_unlock show ?case
    by (auto simp: shared_inv_def)
next
  case (push_lock s t data)
  then show ?case by (auto simp: shared_inv_def)
next
  case (get_lock s t)
  then show ?case by (auto simp: shared_inv_def)
next
  case (get_recheck_empty s t)
  then have "holds_lock (pcs s t)" by simp
  from holder_cases [OF get_recheck_empty.prems this] get_recheck_empty show ?case
    by (auto simp: shared_inv_def)
next
  case (get_recheck_some s t f rest)
  then have "holds_lock (pcs s t)" by simp
  from holder_cases [OF get_recheck_some.prems this] get_recheck_some show ?case
    by (auto simp: shared_inv_def)
qed (simp_all add: move_outside_lock)

lemma reachable_inv: "reachable dec d0 s \<Longrightarrow> shared_inv s"
proof (induction rule: reachable.induct)
  case start
  then show ?case by (simp add: shared_inv_def)
next
  case (step s t s')
  from shared_inv_step [OF step.hyps(2) step.IH] show ?case .
qed

text \<open>No reachable state is stuck: a thread that waits for the lock waits for one that can move.\<close>

lemma holder_moves:
  assumes "shared_inv s" "holds_lock (pcs s t)"
  shows "\<exists>s'. thread_step dec t s s'"
proof (cases "pcs s t")
  case (Push_Decode data)
  obtain d frames where "dec (dec_state s) data = (d, frames)" by (cases "dec (dec_state s) data")
  with Push_Decode show ?thesis by (blast intro: thread_step.push_decode)
next
  case (Get_Copied f)
  with assms(1) obtain g rest where "queue s = g # rest"
    by (cases "queue s") (auto simp: shared_inv_def)
  with Get_Copied show ?thesis by (blast intro: thread_step.get_pop)
next
  case Get_Recheck
  show ?thesis
  proof (cases "queue s")
    case Nil
    with Get_Recheck show ?thesis by (blast intro: thread_step.get_recheck_empty)
  next
    case (Cons f rest)
    with Get_Recheck show ?thesis by (blast intro: thread_step.get_recheck_some)
  qed
qed (use assms(2) in \<open>auto intro: thread_step.intros\<close>)

lemma some_thread_moves:
  assumes "shared_inv s"
  shows "\<exists>t s'. thread_step dec t s s' \<and> (pcs s u \<noteq> Idle \<longrightarrow> pcs s t \<noteq> Idle)"
proof (cases "holder s")
  case (Some t)
  with assms have "holds_lock (pcs s t)" by (simp add: shared_inv_def)
  with holder_moves [OF assms this, of dec] show ?thesis by (metis holds_lock.simps(6))
next
  case None
  have "\<exists>s'. thread_step dec u s s'"
  proof (cases "holds_lock (pcs s u)")
    case True
    then show ?thesis by (rule holder_moves [OF assms])
  next
    case False
    with None show ?thesis
      by (cases "pcs s u"; cases "queue s = []") (auto intro: thread_step.intros)
  qed
  then show ?thesis by blast
qed

section \<open>Properties\<close>

text \<open>A decoder that delivers each datum as one frame, and a state in which a thread is in the middle
  of \<open>pushImageData\<close>, for the instances below.\<close>

definition sample_dec :: "unit \<Rightarrow> nat \<Rightarrow> unit \<times> nat list" where
  "sample_dec d a = ((), [a])"

definition sample_shared :: "(unit, nat, nat) shared" where
  "sample_shared = goto 1 (Push_Decode 7) ((goto 1 (Push_Lock 7) \<lparr>holder = None, dec_state = (), queue = [],
     decoded = [], delivered = [], pcs = (\<lambda>t. Idle)\<rparr>)\<lparr>holder := Some 1\<rparr>)"

lemma sample_shared_reachable: "reachable sample_dec () sample_shared"
proof -
  let ?s0 = "\<lparr>holder = None, dec_state = (), queue = [], decoded = [], delivered = [], pcs = (\<lambda>t. Idle)\<rparr>"
  have "reachable sample_dec () (goto 1 (Push_Lock 7) ?s0)"
    by (rule reachable.step [OF reachable.start, where t = 1]) (rule thread_step.call_push, simp)
  then show ?thesis unfolding sample_shared_def
    by (rule reachable.step [where t = 1]) (rule thread_step.push_lock, simp_all)
qed

text \<open>
  C26. Whatever the interleaving of the threads that push data and fetch images, and although the
  first test of the size is outside the lock: the frames delivered so far, followed by those in the
  list, are exactly the frames decoded so far, in order, none lost and none delivered twice; the lock
  has one holder; and the frame a thread has copied is still the first one when it is popped.
\<close>

theorem get_image_fifo:
  assumes "reachable dec d0 s"
  shows "decoded s = delivered s @ queue s \<and>
    (\<forall>t u. holds_lock (pcs s t) \<longrightarrow> holds_lock (pcs s u) \<longrightarrow> t = u) \<and>
    (\<forall>t f. pcs s t = Get_Copied f \<longrightarrow> queue s \<noteq> [] \<and> hd (queue s) = f)"
  using reachable_inv [OF assms] by (auto simp: shared_inv_def)

theorem get_image_fifo_witness:
  "reachable sample_dec () sample_shared \<and> decoded sample_shared = delivered sample_shared @ queue sample_shared"
  using sample_shared_reachable get_image_fifo [OF sample_shared_reachable] by blast

text \<open>
  C27. The threads never block one another for good: in every reachable state, if some thread is in a
  call, then a thread that is in a call can take a step, and the holder of the lock always can.
\<close>

theorem no_deadlock:
  assumes "reachable dec d0 s" "pcs s u \<noteq> Idle"
  shows "(\<exists>t s'. thread_step dec t s s' \<and> pcs s t \<noteq> Idle) \<and>
    (holder s = Some t' \<longrightarrow> (\<exists>s'. thread_step dec t' s s'))"
proof -
  note ok = reachable_inv [OF assms(1)]
  have "holds_lock (pcs s t')" if "holder s = Some t'" using ok that by (simp add: shared_inv_def)
  with some_thread_moves [OF ok, of dec u] holder_moves [OF ok, of t' dec] assms(2) show ?thesis by blast
qed

theorem no_deadlock_witness:
  "pcs sample_shared 1 \<noteq> Idle \<and> (\<exists>t s'. thread_step sample_dec t sample_shared s' \<and> pcs sample_shared t \<noteq> Idle)"
proof -
  have "pcs sample_shared 1 \<noteq> Idle" by (simp add: sample_shared_def)
  with no_deadlock [OF sample_shared_reachable this] show ?thesis by blast
qed

end
