(* ===== verification/Robot_Motion.thy ===== *)
theory Robot_Motion
  imports Prelude "HOL-Library.Monad_Syntax" "HOL-Library.Word"
begin

text \<open>
  The motors, the eight sonars and the avoidance manoeuvres of the robot's sketch
  (\<open>sketch_apr05a.ino.ino\<close>). What the sketch does to the outside world is a list of actions;
  what it reads from the board is a parameter, a record of functions on the state of the world.
  Loops that wait for the hardware have fuel: \<open>None\<close> is a loop that has not ended yet.
  Debug output on the USB console is left out.
\<close>

section \<open>The board\<close>

datatype motor_command = Ahead int | Back int | Brake

datatype action =
    Motor_L motor_command
  | Motor_R motor_command
  | Delay nat
  | Digital_Write nat bool
  | Serial1_Write string

text \<open>
  \<open>ranging i\<close> is one \<open>Ranging()\<close> followed by \<open>GetDistance\<close> on sonar \<open>i\<close>: the status and the
  distance. \<open>to_int\<close> is the conversion of an \<open>uint16_t\<close> to the board's \<open>int\<close>.
\<close>

record 'w board =
  ranging :: "nat \<Rightarrow> 'w \<Rightarrow> 'w \<times> 8 word \<times> 16 word"
  to_int :: "16 word \<Rightarrow> int"
  get_recognition :: "'w \<Rightarrow> 'w \<times> 8 word \<times> 8 word"
  millis :: "'w \<Rightarrow> 'w \<times> 32 word"
  analog_read :: "nat \<Rightarrow> 'w \<Rightarrow> 'w \<times> int"
  serial1_available :: "'w \<Rightarrow> bool"
  serial1_read :: "'w \<Rightarrow> 'w \<times> char"
  wire_read :: "'w \<Rightarrow> 'w \<times> 8 word"
  heading_of :: "int \<Rightarrow> int \<Rightarrow> int"

text \<open>The globals of the sketch, the world and the actions so far.\<close>

record 'w robot =
  world :: 'w
  acts :: "action list"
  sr1_sign :: int
  geted_s :: bool
  getword :: string
  connection_check :: bool
  robot_angle :: int
  int_user_angle :: int
  aaa :: int
  analog_val :: int
  time_count :: "32 word"
  current_time :: "32 word"
  is_ping :: bool

definition act :: "action \<Rightarrow> 'w robot \<Rightarrow> 'w robot" where
  "act a s = s\<lparr>acts := acts s @ [a]\<rparr>"

text \<open>The command each motor runs after a list of actions, and the level of an output pin.\<close>

fun wheels_after :: "motor_command option \<times> motor_command option \<Rightarrow> action list \<Rightarrow>
    motor_command option \<times> motor_command option" where
  "wheels_after w [] = w"
| "wheels_after (l, r) (Motor_L c # as) = wheels_after (Some c, r) as"
| "wheels_after (l, r) (Motor_R c # as) = wheels_after (l, Some c) as"
| "wheels_after w (_ # as) = wheels_after w as"

definition wheels :: "'w robot \<Rightarrow> motor_command option \<times> motor_command option" where
  "wheels s = wheels_after (None, None) (acts s)"

definition stopped :: "'w robot \<Rightarrow> bool" where
  "stopped s \<longleftrightarrow> wheels s = (Some Brake, Some Brake)"

fun pin_after :: "nat \<Rightarrow> bool \<Rightarrow> action list \<Rightarrow> bool" where
  "pin_after p v [] = v"
| "pin_after p v (Digital_Write q x # as) = pin_after p (if q = p then x else v) as"
| "pin_after p v (_ # as) = pin_after p v as"

definition pin :: "nat \<Rightarrow> 'w robot \<Rightarrow> bool" where
  "pin p s = pin_after p False (acts s)"

lemma wheels_after_append: "wheels_after w (xs @ ys) = wheels_after (wheels_after w xs) ys"
  by (induction w xs rule: wheels_after.induct) auto

lemma pin_after_append: "pin_after p v (xs @ ys) = pin_after p (pin_after p v xs) ys"
  by (induction p v xs rule: pin_after.induct) auto

lemma wheels_act [simp]:
  "wheels (act (Motor_L c) s) = (Some c, snd (wheels s))"
  "wheels (act (Motor_R c) s) = (fst (wheels s), Some c)"
  "wheels (act (Delay t) s) = wheels s"
  "wheels (act (Digital_Write p x) s) = wheels s"
  "wheels (act (Serial1_Write m) s) = wheels s"
  by (cases "wheels_after (None, None) (acts s)"; simp add: wheels_def act_def wheels_after_append)+

lemma pin_act [simp]:
  "pin p (act (Motor_L c) s) = pin p s" "pin p (act (Motor_R c) s) = pin p s"
  "pin p (act (Delay t) s) = pin p s" "pin p (act (Serial1_Write m) s) = pin p s"
  "pin p (act (Digital_Write q x) s) = (if q = p then x else pin p s)"
  by (simp_all add: pin_def act_def pin_after_append)

text \<open>An update of the globals moves no wheel and no pin.\<close>

lemma wheels_cong [simp]: "wheels (s\<lparr>world := w\<rparr>) = wheels s"
  "pin p (s\<lparr>world := w\<rparr>) = pin p s"
  by (simp_all add: wheels_def pin_def)

lemma act_world [simp]: "world (act a s) = world s" "acts (act a s) = acts s @ [a]"
  by (simp_all add: act_def)

section \<open>Motors\<close>

definition drive_forward :: "int \<Rightarrow> 'w robot \<Rightarrow> 'w robot" where
  "drive_forward speed s = act (Motor_R (Ahead speed)) (act (Motor_L (Ahead speed)) s)"

definition backward :: "int \<Rightarrow> 'w robot \<Rightarrow> 'w robot" where
  "backward speed s = act (Motor_R (Back speed)) (act (Motor_L (Back speed)) s)"

definition turn_left :: "int \<Rightarrow> 'w robot \<Rightarrow> 'w robot" where
  "turn_left speed s = act (Motor_R (Ahead speed)) (act (Motor_L (Back speed)) s)"

definition turn_right :: "int \<Rightarrow> 'w robot \<Rightarrow> 'w robot" where
  "turn_right speed s = act (Motor_L (Ahead speed)) (act (Motor_R (Back speed)) s)"

definition brake :: "'w robot \<Rightarrow> 'w robot" where
  "brake s = act (Motor_R Brake) (act (Motor_L Brake) s)"

lemma motor_wheels [simp]:
  "wheels (drive_forward v s) = (Some (Ahead v), Some (Ahead v))"
  "wheels (backward v s) = (Some (Back v), Some (Back v))"
  "wheels (turn_left v s) = (Some (Back v), Some (Ahead v))"
  "wheels (turn_right v s) = (Some (Ahead v), Some (Back v))"
  "wheels (brake s) = (Some Brake, Some Brake)"
  by (simp_all add: drive_forward_def backward_def turn_left_def turn_right_def brake_def)

section \<open>Sonars\<close>

text \<open>\<open>Sonar1\<close> to \<open>Sonar8\<close> are one routine: range until the status is 1 or 2 (timeout, distance 1000).\<close>

fun sonar :: "'w board \<Rightarrow> nat \<Rightarrow> nat \<Rightarrow> 'w robot \<Rightarrow> ('w robot \<times> int) option" where
  "sonar b 0 i s = None"
| "sonar b (Suc n) i s =
     (let (w, status, distance) = ranging b i (world s);
          s = act (Delay 10) (s\<lparr>world := w\<rparr>)
      in if status = 2 then Some (s, to_int b 1000)
         else if status = 1 then Some (s, to_int b distance)
         else sonar b n i s)"

text \<open>The sonar answers within \<open>n\<close> rangings, from every state of the world.\<close>

fun answers :: "'w board \<Rightarrow> nat \<Rightarrow> nat \<Rightarrow> 'w \<Rightarrow> bool" where
  "answers b 0 i w = False"
| "answers b (Suc n) i w =
     (let (w', status, distance) = ranging b i w in status = 1 \<or> status = 2 \<or> answers b n i w')"

definition sonars_answer :: "'w board \<Rightarrow> nat \<Rightarrow> bool" where
  "sonars_answer b n \<longleftrightarrow> (\<forall>i w. answers b n i w)"

lemma sonar_answers: "answers b n i (world s) \<Longrightarrow> \<exists>s' d. sonar b n i s = Some (s', d)"
proof (induction b n i s rule: sonar.induct)
  case (1 b i s)
  then show ?case by simp
next
  case (2 b n i s)
  show ?case
  proof (cases "ranging b i (world s)")
    case (fields w status distance)
    with 2 show ?thesis by (auto simp: Let_def)
  qed
qed

lemma sonar_wheels: "sonar b n i s = Some (s', d) \<Longrightarrow> wheels s' = wheels s \<and> pin p s' = pin p s"
proof (induction b n i s rule: sonar.induct)
  case (1 b i s)
  then show ?case by simp
next
  case (2 b n i s)
  show ?case
  proof (cases "ranging b i (world s)")
    case (fields w status distance)
    with 2 show ?thesis by (auto simp: Let_def split: if_splits)
  qed
qed

section \<open>Avoidance\<close>

text \<open>\<open>SonarI() < lim\<close> and then, only if so, \<open>SonarJ() > lim\<close>: the front and rear guards.\<close>

definition sonar_below :: "'w board \<Rightarrow> nat \<Rightarrow> nat \<Rightarrow> int \<Rightarrow> 'w robot \<Rightarrow> ('w robot \<times> bool) option" where
  "sonar_below b n i lim s = do { (s, d) \<leftarrow> sonar b n i s; Some (s, d < lim) }"

definition sonar_above :: "'w board \<Rightarrow> nat \<Rightarrow> nat \<Rightarrow> int \<Rightarrow> 'w robot \<Rightarrow> ('w robot \<times> bool) option" where
  "sonar_above b n i lim s = do { (s, d) \<leftarrow> sonar b n i s; Some (s, lim < d) }"

definition both :: "('w robot \<Rightarrow> ('w robot \<times> bool) option) \<Rightarrow> ('w robot \<Rightarrow> ('w robot \<times> bool) option) \<Rightarrow>
    'w robot \<Rightarrow> ('w robot \<times> bool) option" where
  "both p q s = do { (s, c) \<leftarrow> p s; if c then q s else Some (s, False) }"

text \<open>A move: run the motors, wait, brake.\<close>

definition burst :: "('w robot \<Rightarrow> 'w robot) \<Rightarrow> nat \<Rightarrow> 'w robot \<Rightarrow> 'w robot" where
  "burst move t s = brake (act (Delay t) (move s))"

definition guarded :: "('w robot \<Rightarrow> ('w robot \<times> bool) option) \<Rightarrow> ('w robot \<Rightarrow> 'w robot option) \<Rightarrow>
    'w robot \<Rightarrow> 'w robot option" where
  "guarded p body s = do { (s, c) \<leftarrow> p s; if c then body s else Some s }"

text \<open>The six blocks that turn away from an obstacle and then go forward if the front is clear.\<close>

definition dodge :: "'w board \<Rightarrow> nat \<Rightarrow> nat \<Rightarrow> int \<Rightarrow> ('w robot \<Rightarrow> 'w robot) \<Rightarrow> nat \<Rightarrow> 'w robot \<Rightarrow> 'w robot option" where
  "dodge b n i lim turn t =
     guarded (sonar_below b n i lim) (\<lambda>s.
       guarded (sonar_above b n 6 40) (\<lambda>s. Some (burst (drive_forward 170) 500 s)) (burst turn t s))"

definition hide_block :: "'w board \<Rightarrow> nat \<Rightarrow> 'w robot \<Rightarrow> 'w robot option" where
  "hide_block b n s = do {
     s \<leftarrow> guarded (both (sonar_below b n 6 40) (sonar_above b n 2 40))
           (\<lambda>s. Some (burst (backward 170) 300 s)) s;
     s \<leftarrow> guarded (both (sonar_below b n 2 40) (sonar_above b n 6 40))
           (\<lambda>s. Some (burst (drive_forward 170) 300 s)) s;
     s \<leftarrow> dodge b n 7 40 (turn_right 150) 400 s;
     s \<leftarrow> dodge b n 5 40 (turn_left 150) 400 s;
     s \<leftarrow> dodge b n 1 30 (turn_right 150) 400 s;
     s \<leftarrow> dodge b n 3 30 (turn_left 150) 400 s;
     s \<leftarrow> dodge b n 8 30 (turn_right 150) 700 s;
     dodge b n 4 30 (turn_left 150) 700 s }"

text \<open>\<open>while (SonarI() < 60 && Sonar6() > 60) hideBlock();\<close>\<close>

fun follow_wall :: "'w board \<Rightarrow> nat \<Rightarrow> nat \<Rightarrow> nat \<Rightarrow> 'w robot \<Rightarrow> 'w robot option" where
  "follow_wall b n i 0 s = None"
| "follow_wall b n i (Suc k) s = do {
     (s, c) \<leftarrow> both (sonar_below b n i 60) (sonar_above b n 6 60) s;
     if c then do { s \<leftarrow> hide_block b n s; follow_wall b n i k s } else Some s }"

text \<open>The counted loop that drives on until the front sonar is below 60.\<close>

fun drive_on :: "'w board \<Rightarrow> nat \<Rightarrow> nat \<Rightarrow> 'w robot \<Rightarrow> 'w robot option" where
  "drive_on b n 0 s = Some s"
| "drive_on b n (Suc k) s = do {
     (s, c) \<leftarrow> sonar_below b n 6 60 (act (Delay 1) (drive_forward 170 s));
     if c then Some (brake s) else drive_on b n k s }"

text \<open>
  \<open>hideBlockRight\<close> and \<open>hideBlockLeft\<close> are the same steps with other times, turns and side sonar;
  \<open>k\<close> is the fuel of the while loop.
\<close>

definition pass_by :: "'w board \<Rightarrow> nat \<Rightarrow> nat \<Rightarrow> nat \<Rightarrow> ('w robot \<Rightarrow> 'w robot) \<Rightarrow> nat \<Rightarrow> nat \<Rightarrow>
    ('w robot \<Rightarrow> 'w robot) \<Rightarrow> 'w robot \<Rightarrow> 'w robot option" where
  "pass_by b n k t0 out t1 i back s = do {
     s \<leftarrow> follow_wall b n i k (drive_forward 170 (burst out t1 (burst (drive_forward 170) t0 s)));
     s \<leftarrow> hide_block b n (brake s);
     s \<leftarrow> hide_block b n (burst back 700 (burst (drive_forward 170) 800 s));
     s \<leftarrow> drive_on b n 3000 (burst (drive_forward 170) 1000 s);
     Some (brake s) }"

definition hide_block_right :: "'w board \<Rightarrow> nat \<Rightarrow> nat \<Rightarrow> 'w robot \<Rightarrow> 'w robot option" where
  "hide_block_right b n k = pass_by b n k 670 (turn_right 150) 670 8 (turn_left 150)"

definition hide_block_left :: "'w board \<Rightarrow> nat \<Rightarrow> nat \<Rightarrow> 'w robot \<Rightarrow> 'w robot option" where
  "hide_block_left b n k = pass_by b n k 400 (turn_left 150) 770 4 (turn_right 150)"

section \<open>A manoeuvre ends with the brakes on\<close>

definition settles :: "'w robot \<Rightarrow> 'w robot \<Rightarrow> bool" where
  "settles s s' \<longleftrightarrow> wheels s' = wheels s \<or> stopped s'"

definition settling :: "('w robot \<Rightarrow> 'w robot option) \<Rightarrow> bool" where
  "settling f \<longleftrightarrow> (\<forall>s s'. f s = Some s' \<longrightarrow> settles s s')"

definition looking :: "('w robot \<Rightarrow> ('w robot \<times> bool) option) \<Rightarrow> bool" where
  "looking p \<longleftrightarrow> (\<forall>s s' c. p s = Some (s', c) \<longrightarrow> wheels s' = wheels s)"

lemma settles_trans: "settles s t \<Longrightarrow> settles t u \<Longrightarrow> settles s u"
  by (auto simp: settles_def stopped_def)

lemma settling_bind: "settling f \<Longrightarrow> settling g \<Longrightarrow> settling (\<lambda>s. f s \<bind> g)"
  unfolding settling_def bind_Some_iff by (blast intro: settles_trans)

lemma looking_sonar: "looking (sonar_below b n i lim)" "looking (sonar_above b n i lim)"
  by (auto simp: looking_def sonar_below_def sonar_above_def bind_Some_iff dest: sonar_wheels)

lemma looking_both: "looking p \<Longrightarrow> looking q \<Longrightarrow> looking (both p q)"
  by (auto simp: looking_def both_def bind_Some_iff split: if_splits) metis+

lemma settling_guarded: "looking p \<Longrightarrow> settling body \<Longrightarrow> settling (guarded p body)"
proof (unfold settling_def, intro allI impI)
  fix s s'
  assume p: "looking p" and body: "\<forall>s s'. body s = Some s' \<longrightarrow> settles s s'"
    and "guarded p body s = Some s'"
  then obtain t c where t: "p s = Some (t, c)" "(if c then body t else Some t) = Some s'"
    by (auto simp: guarded_def bind_Some_iff)
  from p t(1) have "wheels t = wheels s" unfolding looking_def by blast
  moreover from body t(2) have "settles t s'" by (auto simp: settles_def split: if_splits)
  ultimately show "settles s s'" by (simp add: settles_def)
qed

lemma settling_burst: "settling (\<lambda>s. Some (burst move t s))"
  by (auto simp: settling_def settles_def stopped_def burst_def)

lemma settling_after: "settling body \<Longrightarrow> settling (\<lambda>s. body (burst move t s))"
  unfolding settling_def settles_def stopped_def burst_def by fastforce

lemma settling_dodge: "settling (dodge b n i lim turn t)"
  unfolding dodge_def
  by (intro settling_guarded settling_after settling_burst looking_sonar)

lemma settling_hide_block: "settling (hide_block b n)"
  unfolding hide_block_def
  by (intro settling_bind settling_guarded settling_dodge settling_burst looking_both looking_sonar)

section \<open>With answering sonars a manoeuvre ends\<close>

definition returning :: "('w robot \<Rightarrow> 'a option) \<Rightarrow> bool" where
  "returning f \<longleftrightarrow> (\<forall>s. f s \<noteq> None)"

lemma returning_bind: "returning f \<Longrightarrow> returning g \<Longrightarrow> returning (\<lambda>s. f s \<bind> g)"
  by (auto simp: returning_def bind_eq_None_conv)

lemma returning_sonar:
  assumes "sonars_answer b n"
  shows "returning (sonar_below b n i lim)" "returning (sonar_above b n i lim)"
proof -
  from assms have "\<exists>s' d. sonar b n i s = Some (s', d)" for s
    by (simp add: sonars_answer_def sonar_answers)
  then have *: "sonar b n i s \<noteq> None" for s by (metis option.distinct(1))
  then show "returning (sonar_below b n i lim)" "returning (sonar_above b n i lim)"
    by (simp_all add: returning_def sonar_below_def sonar_above_def bind_eq_None_conv split: prod.splits)
qed

lemma returning_both: "returning p \<Longrightarrow> returning q \<Longrightarrow> returning (both p q)"
  by (simp add: returning_def both_def bind_eq_None_conv split: prod.splits)

lemma returning_guarded: "returning p \<Longrightarrow> returning body \<Longrightarrow> returning (guarded p body)"
  by (simp add: returning_def guarded_def bind_eq_None_conv split: prod.splits)

lemma returning_Some: "returning (\<lambda>s. Some (f s))"
  by (simp add: returning_def)

lemma returning_after: "returning body \<Longrightarrow> returning (\<lambda>s. body (f s))"
  by (simp add: returning_def)

lemma returning_dodge: "sonars_answer b n \<Longrightarrow> returning (dodge b n i lim turn t)"
  unfolding dodge_def
  by (intro returning_guarded returning_sonar
      returning_after [where body = "guarded (sonar_above b n 6 40) c" for c] returning_Some)

lemma returning_hide_block: "sonars_answer b n \<Longrightarrow> returning (hide_block b n)"
  unfolding hide_block_def
  by (intro returning_bind returning_guarded returning_both returning_dodge returning_Some
      returning_sonar)

lemma returning_drive_on:
  assumes "sonars_answer b n"
  shows "returning (drive_on b n k)"
proof -
  have "drive_on b n k s \<noteq> None" for s
  proof (induction k arbitrary: s)
    case (Suc k)
    with returning_sonar(1) [OF assms, of 6 60] show ?case
      by (simp add: returning_def bind_eq_None_conv split: prod.splits)
  qed simp
  then show ?thesis by (simp add: returning_def)
qed

section \<open>Property\<close>

text \<open>A board whose sonars always report 20 at once, for the instances below: obstacles all around.\<close>

definition sample_board :: "unit board" where
  "sample_board = \<lparr>ranging = (\<lambda>i w. (w, 1, 20)), to_int = uint, get_recognition = (\<lambda>w. (w, 0, 0)),
     millis = (\<lambda>w. (w, 0)), analog_read = (\<lambda>p w. (w, 900)), serial1_available = (\<lambda>w. False),
     serial1_read = (\<lambda>w. (w, CHR ''0'')), wire_read = (\<lambda>w. (w, 0)), heading_of = (\<lambda>y x. 0)\<rparr>"

definition sample_robot :: "unit robot" where
  "sample_robot = \<lparr>world = (), acts = [], sr1_sign = 0, geted_s = False, getword = [],
     connection_check = False, robot_angle = 0, int_user_angle = 0, aaa = 0, analog_val = 0,
     time_count = 0, current_time = 0, is_ping = False\<rparr>"

text \<open>
  C31. If every sonar answers within \<open>n\<close> rangings, \<open>hideBlock\<close> returns, and when it started with the
  brakes on, the brakes are on afterwards, whichever of its eight blocks ran.
\<close>

theorem hide_block_ends_braked:
  assumes "sonars_answer b n" "stopped s"
  shows "\<exists>s'. hide_block b n s = Some s' \<and> stopped s'"
proof -
  from returning_hide_block [OF assms(1)] obtain s' where s': "hide_block b n s = Some s'"
    by (auto simp: returning_def)
  with settling_hide_block [of b n] have "settles s s'" unfolding settling_def by blast
  with assms(2) s' show ?thesis by (auto simp: settles_def stopped_def)
qed

theorem hide_block_ends_braked_witness:
  "sonars_answer sample_board 1 \<and>
   (\<exists>s'. hide_block sample_board 1 (brake sample_robot) = Some s' \<and> stopped s')"
proof -
  have a: "sonars_answer sample_board 1"
    by (simp add: sonars_answer_def sample_board_def)
  have "stopped (brake sample_robot)" by (simp add: stopped_def)
  from hide_block_ends_braked [OF a this] a show ?thesis by blast
qed

end
