(* ===== verification/Robot_Control.thy ===== *)
theory Robot_Control
  imports Robot_Motion
begin

text \<open>
  The main loop of the robot's sketch: the voice commands and the lamps, the call timer, the heading
  received from the phone, and the steering by twelve compass sectors. The floating point
  computation of the angle of the compass is a parameter of the board (\<open>heading_of\<close>).
\<close>

section \<open>Voice commands, lamps and the call timer\<close>

definition sr1 :: "'w board \<Rightarrow> 'w robot \<Rightarrow> 'w robot \<times> int" where
  "sr1 b s =
     (let (w, state, result) = get_recognition b (world s)
      in (s\<lparr>world := w\<rparr>, if state = 0 then uint result else 0))"

definition lamps :: "bool \<Rightarrow> bool \<Rightarrow> bool \<Rightarrow> 'w robot \<Rightarrow> 'w robot" where
  "lamps x y z s = act (Digital_Write 12 z) (act (Digital_Write 11 y) (act (Digital_Write 10 x) s))"

definition read_millis :: "'w board \<Rightarrow> 'w robot \<Rightarrow> 'w robot \<times> 32 word" where
  "read_millis b s = (let (w, t) = millis b (world s) in (s\<lparr>world := w\<rparr>, t))"

definition ping_timer :: "'w board \<Rightarrow> 'w robot \<Rightarrow> 'w robot" where
  "ping_timer b s =
     (let s = (if is_ping s
               then let (s, t) = read_millis b s;
                        s = s\<lparr>time_count := time_count s + (t - current_time s)\<rparr>
                    in if time_count s > 1500
                       then lamps False False False (s\<lparr>time_count := 0, is_ping := False\<rparr>)
                       else s
               else s);
          (s, t) = read_millis b s
      in s\<lparr>current_time := t\<rparr>)"

definition voice :: "'w robot \<Rightarrow> 'w robot" where
  "voice s =
     (if 1 \<le> sr1_sign s \<and> sr1_sign s \<le> 16
      then (lamps True False False s)\<lparr>sr1_sign := 0, is_ping := True\<rparr>
      else if 17 \<le> sr1_sign s \<and> sr1_sign s \<le> 25
      then (lamps False True False s)\<lparr>sr1_sign := 0, is_ping := True\<rparr>
      else if 26 \<le> sr1_sign s \<and> sr1_sign s \<le> 29
      then (lamps False False True s)\<lparr>sr1_sign := 0, is_ping := True\<rparr>
      else if sr1_sign s = 30 then act (Digital_Write 4 True) s
      else if 31 \<le> sr1_sign s \<and> sr1_sign s \<le> 36 then act (Digital_Write 4 False) s
      else s)"

section \<open>Compass\<close>

text \<open>Two bytes of the compass, high byte first, as the board's \<open>int\<close>.\<close>

definition read_axis :: "'w board \<Rightarrow> 'w robot \<Rightarrow> 'w robot \<times> int" where
  "read_axis b s =
     (let (w, h) = wire_read b (world s);
          (w, l) = wire_read b w
      in (s\<lparr>world := w\<rparr>, to_int b (word_cat h l)))"

definition compass_direction :: "'w board \<Rightarrow> 'w robot \<Rightarrow> 'w robot \<times> int" where
  "compass_direction b s =
     (let (s, x) = read_axis b s;
          (s, z) = read_axis b s;
          (s, y) = read_axis b s
      in (act (Delay 100) s, heading_of b y x))"

section \<open>The heading of the phone\<close>

definition ble_connection :: "'w robot \<Rightarrow> 'w robot" where
  "ble_connection s =
     act (Delay 100) ((act (Delay 100) (act (Serial1_Write ''AT+CON3415138796E6'')
       (act (Delay 100) s)))\<lparr>connection_check := True\<rparr>)"

text \<open>
  \<open>String::substring\<close> takes unsigned positions, swaps them when they are in the wrong order and
  cuts them to the length; \<open>String::toInt\<close> is C's \<open>atol\<close>.
\<close>

definition arduino_substring :: "string \<Rightarrow> nat \<Rightarrow> nat \<Rightarrow> string" where
  "arduino_substring str l r =
     (let (l, r) = (if r < l then (r, l) else (l, r))
      in if length str < l then [] else take (min r (length str) - l) (drop l str))"

definition is_digit :: "char \<Rightarrow> bool" where
  "is_digit c \<longleftrightarrow> 48 \<le> (of_char c :: nat) \<and> (of_char c :: nat) \<le> 57"

definition is_space :: "char \<Rightarrow> bool" where
  "is_space c \<longleftrightarrow> (of_char c :: nat) = 32 \<or> 9 \<le> (of_char c :: nat) \<and> (of_char c :: nat) \<le> 13"

fun digits_value :: "int \<Rightarrow> string \<Rightarrow> int" where
  "digits_value acc [] = acc"
| "digits_value acc (c # cs) =
     (if is_digit c then digits_value (10 * acc + (of_char c - 48)) cs else acc)"

fun signed_value :: "string \<Rightarrow> int" where
  "signed_value [] = 0"
| "signed_value (c # cs) =
     (if c = CHR ''-'' then - digits_value 0 cs
      else if c = CHR ''+'' then digits_value 0 cs
      else digits_value 0 (c # cs))"

definition to_int_string :: "string \<Rightarrow> int" where
  "to_int_string str = signed_value (dropWhile is_space str)"

text \<open>The loop that empties the receive buffer, with \<open>strNum\<close> as \<open>int\<close>.\<close>

fun receive :: "'w board \<Rightarrow> nat \<Rightarrow> int \<Rightarrow> 'w robot \<Rightarrow> ('w robot \<times> int) option" where
  "receive b 0 str_num s = None"
| "receive b (Suc n) str_num s =
     (if serial1_available b (world s)
      then let (w, c) = serial1_read b (world s);
               s = s\<lparr>world := w, geted_s := True, getword := getword s @ [c]\<rparr>
           in receive b n (str_num + 1) (act (Delay 1) s)
      else Some (s, str_num))"

text \<open>
  A negative position of \<open>substring\<close> wraps around to a large unsigned one, larger than any message
  (also with an \<open>unsigned int\<close> of 16 bits).
\<close>

definition to_uint :: "int \<Rightarrow> nat" where
  "to_uint x = nat (x mod 2 ^ 32)"

definition manual_ble :: "'w board \<Rightarrow> nat \<Rightarrow> 'w robot \<Rightarrow> ('w robot \<times> int) option" where
  "manual_ble b n s =
     (if serial1_available b (world s)
      then do {
        (s, str_num) \<leftarrow> receive b n 0 (act (Digital_Write 6 True) s);
        let (s, val) = (if geted_s s then (s\<lparr>getword := [], geted_s := False\<rparr>, getword s) else (s, ''F''));
        let (s, angle) = compass_direction b s;
        Some (s\<lparr>robot_angle := angle\<rparr>,
              to_int_string (arduino_substring val (to_uint (str_num - 3)) (to_uint str_num))) }
      else Some (ble_connection ((brake (act (Digital_Write 6 False) s))\<lparr>robot_angle := -1\<rparr>), -1))"

section \<open>Steering\<close>

text \<open>The four bodies of the cases of \<open>loop\<close>: on course, turn right, turn left, stop.\<close>

datatype course = On_Course | Veer_Right | Veer_Left | Halt

definition pick_course :: "bool \<Rightarrow> bool \<Rightarrow> bool \<Rightarrow> course \<Rightarrow> course \<Rightarrow> course" where
  "pick_course ok first second c1 c2 = (if ok then On_Course else if first then c1 else if second then c2 else Halt)"

text \<open>The conditions of the cases, for a sector and the angle of the phone.\<close>

definition steer :: "int \<Rightarrow> int \<Rightarrow> course" where
  "steer sector u =
     (if sector = 0 then pick_course ((u > 350 \<or> u < 35) \<and> u \<noteq> -1) (u < 175 \<and> u > 35 \<and> u \<noteq> -1)
        ((u > 175 \<or> u < 35) \<and> u \<noteq> -1) Veer_Right Veer_Left
      else if sector = 1 then pick_course ((u > 35 \<and> u < 70) \<and> u \<noteq> -1) (u < 200 \<and> u > 35 \<and> u \<noteq> -1)
        ((u > 200 \<or> u < 35) \<and> u \<noteq> -1) Veer_Right Veer_Left
      else if sector = 2 then pick_course ((u > 70 \<and> u < 110) \<and> u \<noteq> -1) (u < 250 \<and> u > 70 \<and> u \<noteq> -1)
        ((u > 250 \<or> u < 70) \<and> u \<noteq> -1) Veer_Right Veer_Left
      else if sector = 3 then pick_course ((u > 110 \<and> u < 155) \<and> u \<noteq> -1) (u > 155 \<and> u < 270 \<and> u \<noteq> -1)
        ((u < 155 \<or> u > 270) \<and> u \<noteq> -1) Veer_Right Veer_Left
      else if sector = 4 then pick_course ((u > 155 \<and> u < 180) \<and> u \<noteq> -1) (u > 180 \<and> u < 330 \<and> u \<noteq> -1)
        ((u < 180 \<or> u > 330) \<and> u \<noteq> -1) Veer_Right Veer_Left
      else if sector = 5 then pick_course (u > 180 \<and> u < 230 \<and> u \<noteq> -1) (u > 70 \<and> u < 230 \<and> u \<noteq> -1)
        ((u < 70 \<or> u > 230) \<and> u \<noteq> -1) Veer_Left Veer_Right
      else if sector = 6 then pick_course (u > 180 \<and> u < 230 \<and> u \<noteq> -1) (u > 70 \<and> u < 230 \<and> u \<noteq> -1)
        ((u < 70 \<or> u > 230) \<and> u \<noteq> -1) Veer_Left Veer_Right
      else if sector = 7 then pick_course ((u > 180 \<and> u < 230) \<and> u \<noteq> -1) (u > 70 \<and> u < 230 \<and> u \<noteq> -1)
        ((u < 70 \<or> u > 230) \<and> u \<noteq> -1) Veer_Left Veer_Right
      else if sector = 8 then pick_course ((u > 180 \<and> u < 255) \<and> u \<noteq> -1) (u > 70 \<and> u < 255 \<and> u \<noteq> -1)
        ((u < 70 \<or> u > 255) \<and> u \<noteq> -1) Veer_Left Veer_Right
      else if sector = 9 then pick_course ((u > 230 \<and> u \<le> 265) \<and> u \<noteq> -1) (u > 115 \<and> u < 230 \<and> u \<noteq> -1)
        ((u < 115 \<or> u > 230) \<and> u \<noteq> -1) Veer_Left Veer_Right
      else if sector = 10 then pick_course ((u > 265 \<and> u \<le> 287) \<and> u \<noteq> -1) (u > 115 \<and> u < 265 \<and> u \<noteq> -1)
        ((u < 115 \<or> u > 265) \<and> u \<noteq> -1) Veer_Left Veer_Right
      else if sector = 11 then pick_course ((u > 287 \<and> u < 350) \<and> u \<noteq> -1) (u > 170 \<and> u < 350 \<and> u \<noteq> -1)
        ((u < 170 \<or> u > 350) \<and> u \<noteq> -1) Veer_Left Veer_Right
      else Halt)"

text \<open>\<open>getBleDistance\<close> starts with \<open>return\<close>; what follows is dead code.\<close>

definition get_ble_distance :: "'w robot \<Rightarrow> 'w robot" where
  "get_ble_distance s = s"

definition run_course :: "course \<Rightarrow> 'w robot \<Rightarrow> 'w robot" where
  "run_course c s =
     (case c of
        On_Course \<Rightarrow>
          let s = act (Digital_Write 8 True) s;
              s = (if aaa s = 0 then (let s = brake s in s\<lparr>aaa := aaa s + 1\<rparr>) else s)
          in get_ble_distance s
      | Veer_Right \<Rightarrow> turn_right 90 (act (Digital_Write 8 False) (s\<lparr>aaa := 0\<rparr>))
      | Veer_Left \<Rightarrow> turn_left 90 (act (Digital_Write 8 False) (s\<lparr>aaa := 0\<rparr>))
      | Halt \<Rightarrow> brake (s\<lparr>aaa := 0\<rparr>))"

text \<open>One turn of \<open>loop\<close>; \<open>n\<close> is the fuel of the receive loop.\<close>

definition drive :: "'w robot \<Rightarrow> 'w robot" where
  "drive s =
     (let s = (if analog_val s \<le> 100 then brake s else s)
      in if analog_val s \<ge> 800 then run_course (steer (robot_angle s) (int_user_angle s)) s else s)"

definition listen :: "'w board \<Rightarrow> 'w robot \<Rightarrow> 'w robot" where
  "listen b s =
     (let (s, sign) = sr1 b s;
          s = voice (ping_timer b (s\<lparr>sr1_sign := sign\<rparr>));
          (w, v) = analog_read b 0 (world s)
      in s\<lparr>world := w, analog_val := v, robot_angle := -1, int_user_angle := -1\<rparr>)"

definition main_loop :: "'w board \<Rightarrow> nat \<Rightarrow> 'w robot \<Rightarrow> 'w robot option" where
  "main_loop b n s = do {
     (s, u) \<leftarrow> manual_ble b n (listen b s);
     Some (drive (s\<lparr>int_user_angle := u, robot_angle := c_div (robot_angle s) 30\<rparr>)) }"

section \<open>The message of the phone\<close>

text \<open>The receive buffer runs empty within \<open>n\<close> characters.\<close>

fun drains :: "'w board \<Rightarrow> nat \<Rightarrow> 'w \<Rightarrow> bool" where
  "drains b 0 w = False"
| "drains b (Suc n) w = (serial1_available b w \<longrightarrow> drains b n (fst (serial1_read b w)))"

text \<open>The characters it holds, at most \<open>n\<close> of them.\<close>

fun message :: "'w board \<Rightarrow> nat \<Rightarrow> 'w \<Rightarrow> string" where
  "message b 0 w = []"
| "message b (Suc n) w =
     (if serial1_available b w
      then let (w', c) = serial1_read b w in c # message b n w' else [])"

lemma drains_mono: "drains b n w \<Longrightarrow> drains b (Suc n) w"
proof (induction n arbitrary: w)
  case (Suc n)
  then show ?case by (metis drains.simps(2))
qed simp

lemma message_length: "length (message b n w) \<le> n"
  by (induction b n w rule: message.induct) (auto split: prod.splits)

text \<open>Reading from the board moves no wheel and no lamp.\<close>

definition still :: "'w robot \<Rightarrow> 'w robot \<Rightarrow> bool" where
  "still s s' \<longleftrightarrow> wheels s' = wheels s \<and> (\<forall>p. p \<noteq> 6 \<longrightarrow> pin p s' = pin p s) \<and>
     aaa s' = aaa s \<and> analog_val s' = analog_val s"

definition same_message :: "'w robot \<Rightarrow> 'w robot \<Rightarrow> bool" where
  "same_message s s' \<longleftrightarrow> getword s' = getword s \<and> geted_s s' = geted_s s"

lemma still_refl: "still s s" by (simp add: still_def)

lemma still_trans: "still s t \<Longrightarrow> still t u \<Longrightarrow> still s u" by (simp add: still_def)

lemma same_message_trans: "same_message s t \<Longrightarrow> same_message t u \<Longrightarrow> same_message s u"
  by (simp add: same_message_def)

lemma wheels_fields [simp]:
  "wheels (s\<lparr>geted_s := g\<rparr>) = wheels s" "wheels (s\<lparr>getword := m\<rparr>) = wheels s"
  "wheels (s\<lparr>robot_angle := x\<rparr>) = wheels s" "wheels (s\<lparr>int_user_angle := x\<rparr>) = wheels s"
  "wheels (s\<lparr>aaa := x\<rparr>) = wheels s" "wheels (s\<lparr>sr1_sign := x\<rparr>) = wheels s"
  "wheels (s\<lparr>analog_val := x\<rparr>) = wheels s" "wheels (s\<lparr>connection_check := g\<rparr>) = wheels s"
  "wheels (s\<lparr>time_count := t\<rparr>) = wheels s" "wheels (s\<lparr>current_time := t\<rparr>) = wheels s"
  "wheels (s\<lparr>is_ping := g\<rparr>) = wheels s"
  by (simp_all add: wheels_def)

lemma pin_fields [simp]:
  "pin p (s\<lparr>geted_s := g\<rparr>) = pin p s" "pin p (s\<lparr>getword := m\<rparr>) = pin p s"
  "pin p (s\<lparr>robot_angle := x\<rparr>) = pin p s" "pin p (s\<lparr>int_user_angle := x\<rparr>) = pin p s"
  "pin p (s\<lparr>aaa := x\<rparr>) = pin p s" "pin p (s\<lparr>sr1_sign := x\<rparr>) = pin p s"
  "pin p (s\<lparr>analog_val := x\<rparr>) = pin p s" "pin p (s\<lparr>connection_check := g\<rparr>) = pin p s"
  "pin p (s\<lparr>time_count := t\<rparr>) = pin p s" "pin p (s\<lparr>current_time := t\<rparr>) = pin p s"
  "pin p (s\<lparr>is_ping := g\<rparr>) = pin p s"
  by (simp_all add: pin_def)

lemma act_fields [simp]:
  "getword (act a s) = getword s" "geted_s (act a s) = geted_s s" "aaa (act a s) = aaa s"
  "analog_val (act a s) = analog_val s" "robot_angle (act a s) = robot_angle s"
  "int_user_angle (act a s) = int_user_angle s" "is_ping (act a s) = is_ping s"
  "time_count (act a s) = time_count s" "current_time (act a s) = current_time s"
  "sr1_sign (act a s) = sr1_sign s"
  by (simp_all add: act_def)

lemma motor_fields [simp]:
  "aaa (brake s) = aaa s" "analog_val (brake s) = analog_val s" "getword (brake s) = getword s"
  "geted_s (brake s) = geted_s s" "world (brake s) = world s"
  "robot_angle (brake s) = robot_angle s" "int_user_angle (brake s) = int_user_angle s"
  "getword (turn_left v s) = getword s" "geted_s (turn_left v s) = geted_s s"
  "getword (turn_right v s) = getword s" "geted_s (turn_right v s) = geted_s s"
  by (simp_all add: brake_def turn_left_def turn_right_def)

lemma motor_pins [simp]:
  "pin p (brake s) = pin p s" "pin p (turn_left v s) = pin p s" "pin p (turn_right v s) = pin p s"
  by (simp_all add: brake_def turn_left_def turn_right_def)

lemma receive_spec:
  assumes "drains b n (world s)"
  shows "\<exists>s'. receive b n k s = Some (s', k + int (length (message b n (world s)))) \<and>
    getword s' = getword s @ message b n (world s) \<and>
    (geted_s s' \<longleftrightarrow> geted_s s \<or> message b n (world s) \<noteq> []) \<and> still s s'"
  using assms
proof (induction n arbitrary: s k)
  case (Suc n)
  show ?case
  proof (cases "serial1_available b (world s)")
    case True
    obtain w c where r: "serial1_read b (world s) = (w, c)" by (cases "serial1_read b (world s)")
    let ?t = "act (Delay 1) (s\<lparr>world := w, geted_s := True, getword := getword s @ [c]\<rparr>)"
    from Suc.prems True r have "drains b n (world ?t)" by simp
    from Suc.IH [OF this, of "k + 1"] obtain s' where
      s': "receive b n (k + 1) ?t = Some (s', k + 1 + int (length (message b n w)))"
      "getword s' = getword s @ c # message b n w" "geted_s s'" "still ?t s'" by auto
    have "still s ?t" by (simp add: still_def)
    from still_trans [OF this s'(4)] True r s'(1-3) show ?thesis
      by (auto simp: Let_def)
  qed (simp add: still_refl)
qed simp

lemma substring_last:
  assumes "length str < 2 ^ 31"
  shows "arduino_substring str (to_uint (int (length str) - 3)) (to_uint (int (length str))) =
    (if length str < 3 then [] else drop (length str - 3) str)"
proof (cases "length str < 3")
  case True
  then have "length str = 0 \<or> length str = 1 \<or> length str = 2" by linarith
  then show ?thesis by (auto simp: arduino_substring_def to_uint_def Let_def)
next
  case False
  with assms have "to_uint (int (length str)) = length str"
    "to_uint (int (length str) - 3) = length str - 3"
    by (simp_all add: to_uint_def nat_diff_distrib' of_nat_diff)
  with False show ?thesis by (auto simp: arduino_substring_def Let_def)
qed

text \<open>Between two turns of \<open>loop\<close> the buffer \<open>getword\<close> is empty.\<close>

definition idle :: "'w robot \<Rightarrow> bool" where
  "idle s \<longleftrightarrow> getword s = [] \<and> \<not> geted_s s"

lemma read_axis_keeps:
  assumes "read_axis b s = (s', v)"
  shows "still s s'" "same_message s s'"
  using assms by (auto simp: read_axis_def Let_def still_def same_message_def split: prod.splits)

lemma compass_keeps:
  assumes "compass_direction b s = (s', v)"
  shows "still s s'" "same_message s s'"
proof -
  obtain s1 x where 1: "read_axis b s = (s1, x)" by (cases "read_axis b s")
  obtain s2 z where 2: "read_axis b s1 = (s2, z)" by (cases "read_axis b s1")
  obtain s3 y where 3: "read_axis b s2 = (s3, y)" by (cases "read_axis b s2")
  from 1 2 3 assms have s': "s' = act (Delay 100) s3" by (simp add: compass_direction_def)
  have "still s s3" using 1 2 3 by (blast intro: read_axis_keeps still_trans)
  then show "still s s'" by (simp add: s' still_def)
  have "same_message s s3" using 1 2 3 by (blast intro: read_axis_keeps same_message_trans)
  then show "same_message s s'" by (simp add: s' same_message_def)
qed

text \<open>What \<open>manualBle\<close> returns, from the message in the buffer.\<close>

definition angle_of_message :: "string \<Rightarrow> int" where
  "angle_of_message m = (if length m < 3 then 0 else to_int_string (drop (length m - 3) m))"

lemma manual_ble_message:
  assumes "serial1_available b (world s)" "drains b n (world s)" "idle s" "n < 2 ^ 31"
  shows "\<exists>s'. manual_ble b n s = Some (s', angle_of_message (message b n (world s))) \<and>
    idle s' \<and> still s s'"
proof -
  let ?m = "message b n (world s)" and ?s0 = "act (Digital_Write 6 True) s"
  from assms(1,2) have m: "?m \<noteq> []" by (cases n) (auto split: prod.splits)
  from receive_spec [of b n ?s0 0] assms(2,3) m obtain s1 where
    s1: "receive b n 0 ?s0 = Some (s1, int (length ?m))" "getword s1 = ?m" "geted_s s1" "still ?s0 s1"
    by (auto simp: idle_def)
  let ?s2 = "s1\<lparr>getword := [], geted_s := False\<rparr>"
  obtain s3 h where s3: "compass_direction b ?s2 = (s3, h)" by (cases "compass_direction b ?s2")
  have "length ?m < 2 ^ 31" using message_length [of b n "world s"] assms(4) by linarith
  from substring_last [OF this] have
    "manual_ble b n s = Some (s3\<lparr>robot_angle := h\<rparr>, angle_of_message ?m)"
    using assms(1) s1 s3 by (simp add: manual_ble_def angle_of_message_def to_int_string_def)
  moreover have "still s ?s2" using s1(4) by (simp add: still_def)
  then have "still s (s3\<lparr>robot_angle := h\<rparr>)"
    using compass_keeps(1) [OF s3] by (simp add: still_def)
  moreover have "idle (s3\<lparr>robot_angle := h\<rparr>)"
    using compass_keeps(2) [OF s3] by (simp add: idle_def same_message_def)
  ultimately show ?thesis by blast
qed

lemma ble_connection_keeps [simp]:
  "wheels (ble_connection s) = wheels s" "pin p (ble_connection s) = pin p s"
  "getword (ble_connection s) = getword s" "geted_s (ble_connection s) = geted_s s"
  "robot_angle (ble_connection s) = robot_angle s" "aaa (ble_connection s) = aaa s"
  "analog_val (ble_connection s) = analog_val s"
  by (simp_all add: ble_connection_def)

lemma manual_ble_silent:
  assumes "\<not> serial1_available b (world s)"
  shows "\<exists>s'. manual_ble b n s = Some (s', -1) \<and> stopped s' \<and> robot_angle s' = -1 \<and>
    (idle s \<longrightarrow> idle s') \<and> (\<forall>p. p \<noteq> 6 \<longrightarrow> pin p s' = pin p s) \<and> aaa s' = aaa s \<and>
    analog_val s' = analog_val s"
  using assms by (simp add: manual_ble_def stopped_def idle_def)

section \<open>One turn of the loop\<close>

text \<open>The wheels are off, braked or turn the robot on the spot, and at most one lamp of 10, 11, 12 is on.\<close>

definition spins :: "motor_command option \<times> motor_command option \<Rightarrow> bool" where
  "spins w \<longleftrightarrow> w = (None, None) \<or> w = (Some Brake, Some Brake) \<or>
     w = (Some (Ahead 90), Some (Back 90)) \<or> w = (Some (Back 90), Some (Ahead 90))"

definition one_lamp :: "'w robot \<Rightarrow> bool" where
  "one_lamp s \<longleftrightarrow> \<not> (pin 10 s \<and> pin 11 s) \<and> \<not> (pin 10 s \<and> pin 12 s) \<and> \<not> (pin 11 s \<and> pin 12 s)"

definition loop_inv :: "'w robot \<Rightarrow> bool" where
  "loop_inv s \<longleftrightarrow> idle s \<and> spins (wheels s) \<and> one_lamp s"

lemma lamps_effect [simp]:
  "wheels (lamps x y z s) = wheels s"
  "pin p (lamps x y z s) = (if p = 10 then x else if p = 11 then y else if p = 12 then z else pin p s)"
  "idle (lamps x y z s) = idle s" "world (lamps x y z s) = world s"
  by (simp_all add: lamps_def idle_def)

lemma idle_fields [simp]:
  "idle (s\<lparr>world := w\<rparr>) = idle s" "idle (s\<lparr>is_ping := g\<rparr>) = idle s"
  "idle (s\<lparr>sr1_sign := x\<rparr>) = idle s" "idle (s\<lparr>time_count := t\<rparr>) = idle s"
  "idle (s\<lparr>current_time := t\<rparr>) = idle s" "idle (s\<lparr>analog_val := x\<rparr>) = idle s"
  "idle (s\<lparr>robot_angle := x\<rparr>) = idle s" "idle (s\<lparr>int_user_angle := x\<rparr>) = idle s"
  "idle (s\<lparr>aaa := x\<rparr>) = idle s" "idle (act a s) = idle s"
  by (simp_all add: idle_def)

lemma sr1_inv: "loop_inv s \<Longrightarrow> loop_inv (fst (sr1 b s))"
  by (simp add: sr1_def loop_inv_def one_lamp_def split: prod.splits)

lemma ping_timer_inv: "loop_inv s \<Longrightarrow> loop_inv (ping_timer b s)"
  by (auto simp: ping_timer_def read_millis_def loop_inv_def one_lamp_def Let_def split: prod.splits)

lemma voice_inv: "loop_inv s \<Longrightarrow> loop_inv (voice s)"
  by (simp add: voice_def loop_inv_def one_lamp_def)

lemma loop_inv_fields [simp]:
  "loop_inv (s\<lparr>sr1_sign := x\<rparr>) = loop_inv s" "loop_inv (s\<lparr>world := w\<rparr>) = loop_inv s"
  "loop_inv (s\<lparr>analog_val := x\<rparr>) = loop_inv s" "loop_inv (s\<lparr>robot_angle := x\<rparr>) = loop_inv s"
  "loop_inv (s\<lparr>int_user_angle := x\<rparr>) = loop_inv s"
  by (simp_all add: loop_inv_def one_lamp_def idle_def wheels_def pin_def)

lemma listen_inv: "loop_inv s \<Longrightarrow> loop_inv (listen b s)"
  unfolding listen_def by (auto simp: Let_def split: prod.splits
      intro!: voice_inv ping_timer_inv dest: sr1_inv [of s b])

lemma drive_inv: "loop_inv s \<Longrightarrow> loop_inv (drive s)"
  by (auto simp: drive_def run_course_def get_ble_distance_def loop_inv_def one_lamp_def spins_def
      idle_def Let_def split: course.splits)

lemma loop_inv_still:
  assumes "loop_inv s" "still s s'" "idle s'"
  shows "loop_inv s'"
  using assms by (simp add: loop_inv_def still_def one_lamp_def)

definition buffers_drain :: "'w board \<Rightarrow> nat \<Rightarrow> bool" where
  "buffers_drain b n \<longleftrightarrow> n < 2 ^ 31 \<and> (\<forall>w. drains b n w)"

lemma manual_ble_inv:
  assumes "buffers_drain b n" "loop_inv s"
  shows "\<exists>s' u. manual_ble b n s = Some (s', u) \<and> loop_inv s'"
proof (cases "serial1_available b (world s)")
  case True
  with assms manual_ble_message [of b s n] loop_inv_still [of s] show ?thesis
    by (auto simp: buffers_drain_def loop_inv_def)
next
  case False
  from manual_ble_silent [OF this, of n] assms(2) show ?thesis
    by (fastforce simp: loop_inv_def one_lamp_def spins_def stopped_def)
qed

lemma main_loop_inv:
  assumes "buffers_drain b n" "loop_inv s"
  shows "\<exists>s'. main_loop b n s = Some s' \<and> loop_inv s'"
proof -
  from manual_ble_inv [OF assms(1) listen_inv [OF assms(2)]] obtain t u where
    t: "manual_ble b n (listen b s) = Some (t, u)" "loop_inv t" by blast
  have "loop_inv (drive (t\<lparr>int_user_angle := u, robot_angle := c_div (robot_angle t) 30\<rparr>))"
    using t(2) by (intro drive_inv) simp
  with t(1) show ?thesis by (simp add: main_loop_def)
qed

lemma drive_low: "analog_val s \<le> 100 \<Longrightarrow> stopped (drive s)"
  by (simp add: drive_def stopped_def)

lemma drive_silent:
  "stopped s \<Longrightarrow> robot_angle s = 0 \<Longrightarrow> int_user_angle s = -1 \<Longrightarrow> stopped (drive s)"
  by (simp add: drive_def stopped_def run_course_def steer_def pick_course_def)

lemma main_loop_silent_stops:
  assumes "\<not> serial1_available b (world (listen b s))"
  shows "\<exists>s'. main_loop b n s = Some s' \<and> stopped s'"
proof -
  from manual_ble_silent [OF assms, of n] obtain t where
    t: "manual_ble b n (listen b s) = Some (t, -1)" "stopped t" "robot_angle t = -1" by blast
  have "stopped (drive (t\<lparr>int_user_angle := -1, robot_angle := c_div (robot_angle t) 30\<rparr>))"
    using t(2,3) by (intro drive_silent) (simp_all add: stopped_def c_div_def)
  with t(1) show ?thesis by (simp add: main_loop_def)
qed

text \<open>The two angles of the phone, for each sector, that no condition covers.\<close>

definition dead_angles :: "int \<Rightarrow> int \<times> int" where
  "dead_angles sector =
     [(35, 175), (35, 200), (70, 250), (155, 270), (180, 330), (70, 230), (70, 230), (70, 230),
      (70, 255), (115, 230), (115, 265), (170, 350)] ! nat sector"

lemma steer_halts:
  assumes "0 \<le> sector" "sector < 12" "0 \<le> u" "u < 360"
  shows "steer sector u = Halt \<longleftrightarrow> u = fst (dead_angles sector) \<or> u = snd (dead_angles sector)"
proof -
  have "sector \<in> set [0..11]" using assms by simp
  also have "[0..11] = [0, 1, 2, 3, 4, 5, 6, 7, 8, 9, 10, 11::int]" by (simp add: upto.simps)
  finally show ?thesis using assms(3,4)
    by (simp only: list.set insert_iff empty_iff simp_thms)
      (elim disjE; simp add: steer_def pick_course_def dead_angles_def; linarith)
qed

text \<open>The timer across the wrap-around of \<open>millis\<close>.\<close>

lemma elapsed_wraps:
  assumes "t0 \<le> t1" "t1 - t0 < (2::nat) ^ 32"
  shows "unat ((of_nat t1 :: 32 word) - of_nat t0) = t1 - t0"
proof -
  have "(of_nat t1 :: 32 word) - of_nat t0 = of_nat (t1 - t0)" using assms(1) by simp
  then show ?thesis using assms(2) by (simp add: unat_of_nat)
qed

section \<open>Properties\<close>

text \<open>The board of the other instance with the characters of a message in its receive buffer.\<close>

definition message_board :: "string board" where
  "message_board = \<lparr>ranging = (\<lambda>i w. (w, 1, 20)), to_int = uint, get_recognition = (\<lambda>w. (w, 0, 0)),
     millis = (\<lambda>w. (w, 0)), analog_read = (\<lambda>p w. (w, 900)), serial1_available = (\<lambda>w. w \<noteq> []),
     serial1_read = (\<lambda>w. (tl w, hd w)), wire_read = (\<lambda>w. (w, 0)), heading_of = (\<lambda>y x. 0)\<rparr>"

definition message_robot :: "string \<Rightarrow> string robot" where
  "message_robot m = \<lparr>world = m, acts = [], sr1_sign = 0, geted_s = False, getword = [],
     connection_check = False, robot_angle = 0, int_user_angle = 0, aaa = 0, analog_val = 0,
     time_count = 0, current_time = 0, is_ping = False\<rparr>"

text \<open>
  \<open>manualBle\<close> empties the receive buffer and returns the number in its last three characters; a
  message of one or two characters, whose \<open>substring\<close> starts at a negative position, counts as the
  angle 0 and not as missing. The word buffer is empty again afterwards and no motor moves.
\<close>

theorem manual_ble_reads_angle:
  assumes "serial1_available b (world s)" "drains b n (world s)" "idle s" "n < 2 ^ 31"
  shows "\<exists>s'. manual_ble b n s = Some (s',
      if length (message b n (world s)) < 3 then 0
      else to_int_string (drop (length (message b n (world s)) - 3) (message b n (world s)))) \<and>
    idle s' \<and> wheels s' = wheels s"
  using manual_ble_message [OF assms] by (auto simp: angle_of_message_def still_def)

theorem manual_ble_reads_angle_witness:
  "(\<exists>s'. manual_ble message_board 6 (message_robot ''A:123'') = Some (s', 123)) \<and>
   (\<exists>s'. manual_ble message_board 6 (message_robot ''42'') = Some (s', 0))"
proof -
  have d: "drains message_board 6 ''A:123''" "drains message_board 6 ''42''"
    "message message_board 6 ''A:123'' = ''A:123''" "message message_board 6 ''42'' = ''42''"
    by (simp_all add: message_board_def numeral_eq_Suc)
  have v: "to_int_string ''123'' = 123"
    by (simp add: to_int_string_def is_space_def is_digit_def)
  show ?thesis
    using manual_ble_reads_angle [of message_board "message_robot ''A:123''" 6]
      manual_ble_reads_angle [of message_board "message_robot ''42''" 6] d v
    by (auto simp: message_robot_def idle_def) (auto simp: message_board_def)
qed

text \<open>
  C29. One turn of \<open>loop\<close> always ends, if the receive buffer runs empty, and preserves: the wheels are
  off, braked, or turn in opposite directions at speed 90, and at most one of the three call lamps is
  on. So the robot never travels: following is switched off by the \<open>return\<close> at the start of
  \<open>getBleDistance\<close>.
\<close>

theorem main_loop_only_spins:
  assumes "buffers_drain b n" "loop_inv s"
  shows "\<exists>s'. main_loop b n s = Some s' \<and> loop_inv s'"
  using assms by (rule main_loop_inv)

theorem main_loop_only_spins_witness:
  "\<exists>s'. main_loop sample_board 1 sample_robot = Some s' \<and> loop_inv s'"
proof -
  have "buffers_drain sample_board 1" by (simp add: buffers_drain_def sample_board_def)
  moreover have "loop_inv sample_robot"
    by (simp add: loop_inv_def idle_def spins_def wheels_def one_lamp_def pin_def sample_robot_def)
  ultimately show ?thesis by (rule main_loop_only_spins)
qed

text \<open>
  C30. A turn of \<open>loop\<close> in which the phone has sent nothing ends with the brakes on, whatever the
  distance sensor and the voice input say: the angle -1 divided by 30 is sector 0, and its last branch
  stops the motors.
\<close>

theorem main_loop_stops_without_phone:
  assumes "\<not> serial1_available b (world (listen b s))"
  shows "\<exists>s'. main_loop b n s = Some s' \<and> stopped s'"
  using assms by (rule main_loop_silent_stops)

theorem main_loop_stops_without_phone_witness:
  "\<exists>s'. main_loop sample_board 1 sample_robot = Some s' \<and> stopped s'"
  by (rule main_loop_stops_without_phone) (simp add: sample_board_def)

text \<open>
  For a heading of the robot in one of the twelve sectors and an angle of the phone from 0 to 359
  the robot stops exactly at two angles, which the conditions of the sector leave out; at every other
  angle it is on course or turns.
\<close>

theorem steer_dead_angles:
  assumes "0 \<le> heading" "heading < 360" "0 \<le> u" "u < 360"
  shows "steer (c_div heading 30) u = Halt \<longleftrightarrow>
    u = fst (dead_angles (c_div heading 30)) \<or> u = snd (dead_angles (c_div heading 30))"
proof -
  have "c_div heading 30 = heading div 30" using assms by (cases "heading = 0") (auto simp: c_div_def)
  with assms show ?thesis by (intro steer_halts) auto
qed

theorem steer_dead_angles_witness:
  "steer (c_div 100 30) 155 = Halt \<and> steer (c_div 100 30) 156 \<noteq> Halt"
  using steer_dead_angles [of 100 155] steer_dead_angles [of 100 156]
  by (simp add: c_div_def dead_angles_def)

end
