(* ===== verification/Base64.thy ===== *)
theory Base64
  imports Stream_Io
begin

text \<open>
  \<open>base64/base64_kernel_1.h\<close> and \<open>base64_kernel_1.cpp\<close>: the tables, \<open>encode\<close> with its line endings, and
  \<open>decode\<close>. The text of the face detector is decoded by this class.
\<close>

unbundle bit_operations_syntax

section \<open>The object\<close>

datatype line_ending_type = CR | LF | CRLF

record base64 =
  encode_table :: "byte list"
  decode_table :: "byte list"
  bad_value :: byte
  eol_style :: line_ending_type

text \<open>
  \<open>A\<close> to \<open>Z\<close>, \<open>a\<close> to \<open>z\<close>, \<open>0\<close> to \<open>9\<close>, \<open>+\<close> and \<open>/\<close>. The second table has \<open>UCHAR_MAX\<close> entries, one
  less than there are bytes.
\<close>

definition base64_alphabet :: "byte list" where
  "base64_alphabet = map of_nat ([65..<91] @ [97..<123] @ [48..<58] @ [43, 47])"

definition fill_decode_table :: "byte list \<Rightarrow> byte list" where
  "fill_decode_table enc = fold (\<lambda>i t. t[unat (enc ! i) := of_nat i]) [0..<64] (replicate 255 100)"

definition base64_init :: base64 where
  "base64_init = \<lparr>encode_table = base64_alphabet, decode_table = fill_decode_table base64_alphabet,
     bad_value = 100, eol_style = LF\<rparr>"

definition line_ending :: "base64 \<Rightarrow> line_ending_type" where
  "line_ending s = eol_style s"

definition set_line_ending :: "base64 \<Rightarrow> line_ending_type \<Rightarrow> base64" where
  "set_line_ending s eol = s\<lparr>eol_style := eol\<rparr>"

section \<open>Encoding\<close>

definition put_or_fail :: "byte list \<Rightarrow> ostream \<Rightarrow> (unit, ostream) io" where
  "put_or_fail bs out =
     (let (out, n) = sputn bs out
      in if n \<noteq> length bs then Thrown ''error occured in the base64 object'' out else Returned () out)"

definition put_line_ending :: "line_ending_type \<Rightarrow> ostream \<Rightarrow> (unit, ostream) io" where
  "put_line_ending eol =
     (case eol of CR \<Rightarrow> put_or_fail [13] | LF \<Rightarrow> put_or_fail [10]
      | CRLF \<Rightarrow> bind_io (put_or_fail [13]) (\<lambda>_. put_or_fail [10]))"

text \<open>The four characters for three, two or one bytes; \<open>=\<close> is 61.\<close>

definition encode_group :: "byte list \<Rightarrow> byte list \<Rightarrow> byte list" where
  "encode_group tab inbuf =
     (let enc = (\<lambda>i. tab ! unat i);
          c1 = inbuf ! 0 AND 0xfc; c2 = inbuf ! 0 AND 0x03
      in if length inbuf = 3
         then let c3 = inbuf ! 1 AND 0xf0; c4 = inbuf ! 1 AND 0x0f; c5 = inbuf ! 2 AND 0xc0; c6 = inbuf ! 2 AND 0x3f
              in [enc (drop_bit 2 c1), enc (push_bit 4 c2 OR drop_bit 4 c3), enc (push_bit 2 c4 OR drop_bit 6 c5), enc c6]
         else if length inbuf = 2
         then let c3 = inbuf ! 1 AND 0xf0; c4 = inbuf ! 1 AND 0x0f; c5 = 0
              in [enc (drop_bit 2 c1), enc (push_bit 4 c2 OR drop_bit 4 c3), enc (push_bit 2 c4 OR drop_bit 6 c5), 61]
         else let c3 = 0 in [enc (drop_bit 2 c1), enc (push_bit 4 c2 OR drop_bit 4 c3), 61, 61])"

text \<open>\<open>inbuf\<close> holds the \<open>status\<close> bytes that were read.\<close>

function encode_loop :: "base64 \<Rightarrow> nat \<Rightarrow> byte list \<Rightarrow> istream \<Rightarrow> ostream \<Rightarrow> (istream, ostream) io" where
  "encode_loop s counter inbuf i =
     (if inbuf = [] then Returned i
      else bind_io (if counter = 0 then put_line_ending (eol_style s) else Returned ()) (\<lambda>_.
           bind_io (put_or_fail (encode_group (encode_table s) inbuf)) (\<lambda>_.
             if length inbuf = 3
             then encode_loop s ((if counter = 0 then 19 else counter) - 1) (snd (sgetn 3 i)) (fst (sgetn 3 i))
             else Returned i)))"
  by pat_completeness auto
termination
  by (relation "measure (\<lambda>(_, _, inbuf, i). length inbuf + length (source i))") (auto simp: sgetn_def)

declare encode_loop.simps [simp del]

definition base64_encode :: "base64 \<Rightarrow> istream \<Rightarrow> ostream \<Rightarrow> (istream, ostream) io" where
  "base64_encode s i = (let (i, inbuf) = sgetn 3 i in encode_loop s 19 inbuf i)"

section \<open>Decoding\<close>

text \<open>An access to \<open>decode_table\<close>; the byte 255 is past its end.\<close>

definition decode_entry :: "base64 \<Rightarrow> byte \<Rightarrow> byte option" where
  "decode_entry s b = (if unat b < length (decode_table s) then Some (decode_table s ! unat b) else None)"

definition decode_group :: "base64 \<Rightarrow> byte list \<Rightarrow> (byte list \<times> byte list) option" where
  "decode_group s inbuf =
     (let outsize = (if inbuf ! 3 = 61 then if inbuf ! 2 = 61 then 1 else 2 else 3) in do {
        b0 \<leftarrow> decode_entry s (inbuf ! 0);
        b1 \<leftarrow> decode_entry s (inbuf ! 1);
        b2 \<leftarrow> decode_entry s (inbuf ! 2);
        b3 \<leftarrow> decode_entry s (inbuf ! 3);
        Some ([b0, b1, b2, b3],
          let c1 = push_bit 2 b0; c2 = drop_bit 4 b1; c3 = push_bit 4 b1;
              c4 = drop_bit 2 b2; c5 = push_bit 6 b2; c6 = b3
          in take outsize [c1 OR c2, c3 OR c4, c5 OR c6]) })"

definition extra_characters :: "nat \<Rightarrow> string" where
  "extra_characters n = decimal n @ '' extra characters were found at the end of the encoded data.'' @
     ''  This may indicate that the data stream has been truncated.''"

text \<open>
  The loop is entered with \<open>status\<close> not zero. \<open>inbuf\<close> has four bytes, of which the ones not yet read hold
  whatever the memory holds; the test after the read looks at one of them also when the read found
  the end of the stream.
\<close>

function decode_loop :: "base64 \<Rightarrow> byte list \<Rightarrow> nat \<Rightarrow> istream \<Rightarrow> ostream \<Rightarrow> (istream, ostream) io" where
  "decode_loop s inbuf pos i =
     (case (if pos = 4 then decode_group s inbuf else Some (inbuf, [])) of
        None \<Rightarrow> (\<lambda>out. Undef)
      | Some (inbuf', outbuf) \<Rightarrow>
          bind_io (if pos = 4 then put_or_fail outbuf else Returned ()) (\<lambda>_.
            let pos' = (if pos = 4 then 0 else pos) in
            case sgetn 1 i of (i', cs) \<Rightarrow>
              let inbuf'' = (if cs = [] then inbuf' else inbuf'[pos' := hd cs]) in
              case decode_entry s (inbuf'' ! pos') of
                None \<Rightarrow> (\<lambda>out. Undef)
              | Some v \<Rightarrow>
                  if cs = []
                  then if pos' \<noteq> 0 then throw (extra_characters pos') else Returned i'
                  else decode_loop s inbuf'' (if v \<noteq> bad_value s \<or> inbuf'' ! pos' = 61 then pos' + 1 else pos') i'))"
  by pat_completeness auto
termination
  by (relation "measure (\<lambda>(_, _, _, i). length (source i))") (auto simp: sgetn_def)

declare decode_loop.simps [simp del]

definition base64_decode :: "base64 \<Rightarrow> byte list \<Rightarrow> istream \<Rightarrow> ostream \<Rightarrow> (istream, ostream) io" where
  "base64_decode s inbuf i =
     (case sgetn 1 i of (i, cs) \<Rightarrow>
        if cs = [] then Returned i
        else case decode_entry s (hd cs) of
               None \<Rightarrow> (\<lambda>out. Undef)
             | Some v \<Rightarrow> decode_loop s (inbuf[0 := hd cs]) (if v \<noteq> bad_value s then 1 else 0) i)"

section \<open>The tables and the bits\<close>

lemma less_8_cases: "n < 8 \<Longrightarrow> n = 0 \<or> n = 1 \<or> n = 2 \<or> n = 3 \<or> n = 4 \<or> n = 5 \<or> n = 6 \<or> n = (7 :: nat)" by arith

lemma byte_eqI:
  assumes "bit (x :: byte) 0 = bit y 0" "bit x 1 = bit y 1" "bit x 2 = bit y 2" "bit x 3 = bit y 3"
    "bit x 4 = bit y 4" "bit x 5 = bit y 5" "bit x 6 = bit y 6" "bit x 7 = bit y 7"
  shows "x = y"
proof (rule bit_word_eqI)
  fix n assume "n < LENGTH(8)"
  with less_8_cases [of n] assms show "bit x n = bit y n" by auto
qed

lemma regroup:
  fixes a b c :: byte
  shows "push_bit 2 (drop_bit 2 (a AND 0xfc)) OR drop_bit 4 (push_bit 4 (a AND 0x03) OR drop_bit 4 (b AND 0xf0)) = a"
    "push_bit 4 (push_bit 4 (a AND 0x03) OR drop_bit 4 (b AND 0xf0)) OR
      drop_bit 2 (push_bit 2 (b AND 0x0f) OR drop_bit 6 (c AND 0xc0)) = b"
    "push_bit 6 (push_bit 2 (b AND 0x0f) OR drop_bit 6 (c AND 0xc0)) OR (c AND 0x3f) = c"
    "push_bit 2 (drop_bit 2 (a AND 0xfc)) OR drop_bit 4 (push_bit 4 (a AND 0x03)) = a"
    "push_bit 4 (push_bit 4 (a AND 0x03) OR drop_bit 4 (b AND 0xf0)) OR drop_bit 2 (push_bit 2 (b AND 0x0f)) = b"
  by (rule byte_eqI; simp add: bit_simps)+

lemma sixbit:
  fixes a b c :: byte
  shows "drop_bit 6 (drop_bit 2 (a AND 0xfc)) = 0"
    "drop_bit 6 (push_bit 4 (a AND 0x03) OR drop_bit 4 (b AND 0xf0)) = 0"
    "drop_bit 6 (push_bit 2 (b AND 0x0f) OR drop_bit 6 (c AND 0xc0)) = 0"
    "drop_bit 6 (c AND 0x3f) = 0"
    "drop_bit 6 (push_bit 4 (a AND 0x03)) = 0"
    "drop_bit 6 (push_bit 2 (b AND 0x0f)) = 0"
  by (rule byte_eqI; simp add: bit_simps)+


text \<open>The table of the decoder inverts the one of the encoder.\<close>

lemma fold_update:
  "length (fold (\<lambda>i t. t[f i := g i]) [0..<n] t) = length t"
  "p \<notin> f ` {..<n} \<Longrightarrow> fold (\<lambda>i t. t[f i := g i]) [0..<n] t ! p = t ! p"
  by (induction n) (auto simp: lessThan_Suc)

lemma fold_update_same:
  assumes "inj_on f {..<n}" "j < n" "f j < length t"
  shows "fold (\<lambda>i t. t[f i := g i]) [0..<n] t ! f j = g j"
  using assms
proof (induction n)
  case (Suc n)
  have inj: "inj_on f {..<n}" by (rule inj_on_subset [OF Suc.prems(1)]) auto
  show ?case
  proof (cases "j = n")
    case True
    with Suc.prems(3) show ?thesis by (simp add: fold_update(1))
  next
    case False
    with Suc.prems have "f n \<noteq> f j" by (auto dest: inj_onD)
    with False Suc.IH [OF inj] Suc.prems(2,3) show ?thesis by simp
  qed
qed simp

text \<open>The codes of the alphabet as numbers.\<close>

definition codes :: "nat list" where "codes = [65..<91] @ [97..<123] @ [48..<58] @ [43, 47]"

lemma codes: "length codes = 64" "distinct codes" "list_all (\<lambda>c. c < 128 \<and> c \<noteq> 61 \<and> c \<noteq> 10 \<and> c \<noteq> 13) codes"
  by (simp_all add: codes_def list_all_iff)

lemma unat_alphabet:
  assumes "i < 64"
  shows "unat (base64_alphabet ! i) = codes ! i"
proof -
  have alph: "base64_alphabet = map of_nat codes" by (simp only: base64_alphabet_def codes_def)
  have "i < length codes" using assms by (simp only: codes(1))
  then have "base64_alphabet ! i = of_nat (codes ! i)" unfolding alph by (rule nth_map)
  moreover have "codes ! i < 2 ^ 8" using \<open>i < length codes\<close> codes(3) by (fastforce simp: list_all_length)
  ultimately show ?thesis by (simp add: unat_of_nat)
qed

lemma decode_table_init:
  "length (decode_table base64_init) = 255"
  "i < 64 \<Longrightarrow> decode_table base64_init ! (codes ! i) = of_nat i"
  "p \<notin> set codes \<Longrightarrow> p < 255 \<Longrightarrow> decode_table base64_init ! p = 100"
proof -
  have tab: "decode_table base64_init = fold (\<lambda>i t. t[codes ! i := of_nat i]) [0..<64] (replicate 255 100)"
    unfolding base64_init_def fill_decode_table_def base64.simps
    by (rule fold_cong) (simp_all add: unat_alphabet)
  show "length (decode_table base64_init) = 255" by (simp only: tab fold_update(1) length_replicate)
  have inj: "inj_on ((!) codes) {..<64}"
    using codes(1,2) by (auto simp: inj_on_def nth_eq_iff_index_eq)
  show "decode_table base64_init ! (codes ! i) = of_nat i" if "i < 64"
    unfolding tab using fold_update_same [OF inj that, of "replicate 255 (100 :: byte)"] codes(1,3) that
    by (force simp: list_all_length)
  show "decode_table base64_init ! p = 100" if "p \<notin> set codes" "p < 255"
  proof -
    have "p \<notin> (!) codes ` {..<64}" using that(1) codes(1) by (auto simp: in_set_conv_nth)
    then show ?thesis unfolding tab by (subst fold_update(2)) (use that(2) in auto)
  qed
qed


lemma sixbit_less: "drop_bit 6 x = (0 :: byte) \<Longrightarrow> unat x < 64"
proof -
  assume "drop_bit 6 x = 0"
  then have "drop_bit 6 (unat x) = 0" by (simp flip: unat_drop_bit_eq)
  then show ?thesis by (simp add: drop_bit_eq_div)
qed

lemma decode_alphabet:
  assumes "drop_bit 6 x = (0 :: byte)"
  shows "decode_entry base64_init (base64_alphabet ! unat x) = Some x"
    "base64_alphabet ! unat x \<noteq> 61" "x \<noteq> 100"
proof -
  note x = sixbit_less [OF assms]
  have c: "codes ! unat x < 128" "codes ! unat x \<noteq> 61" using codes(1,3) x by (simp_all add: list_all_length)
  show "decode_entry base64_init (base64_alphabet ! unat x) = Some x"
    using c x by (simp add: decode_entry_def unat_alphabet decode_table_init)
  show "base64_alphabet ! unat x \<noteq> 61"
  proof
    assume "base64_alphabet ! unat x = 61"
    then have "unat (base64_alphabet ! unat x) = 61" by simp
    with c(2) show False by (simp add: unat_alphabet [OF x])
  qed
  show "x \<noteq> 100"
  proof
    assume "x = 100" with x show False by simp
  qed
qed

lemma decode_filler: "decode_entry base64_init 10 = Some 100" "decode_entry base64_init 13 = Some 100"
   "decode_entry base64_init 61 = Some 100" "decode_entry base64_init 255 = None" 
proof -
  have "10 \<notin> set codes" "13 \<notin> set codes" "61 \<notin> set codes" using codes(3) by (auto simp: list_all_iff)
  then show "decode_entry base64_init 10 = Some 100" "decode_entry base64_init 13 = Some 100"
   "decode_entry base64_init 61 = Some 100" "decode_entry base64_init 255 = None" 
   by (simp_all add: decode_entry_def decode_table_init)
qed


section \<open>What the coder writes and reads\<close>

text \<open>The text for a sequence of bytes, of which \<open>n\<close> groups go on the first line.\<close>

fun eol_bytes :: "line_ending_type \<Rightarrow> byte list" where
  "eol_bytes CR = [13]"
| "eol_bytes LF = [10]"
| "eol_bytes CRLF = [13, 10]"

function base64_text :: "line_ending_type \<Rightarrow> nat \<Rightarrow> byte list \<Rightarrow> byte list" where
  "base64_text eol n xs =
     (if xs = [] then []
      else (if n = 0 then eol_bytes eol else []) @ encode_group base64_alphabet (take 3 xs) @
        base64_text eol ((if n = 0 then 19 else n) - 1) (drop 3 xs))"
  by pat_completeness auto
termination
  by (relation "measure (\<lambda>(_, _, xs). length xs)") auto

declare base64_text.simps [simp del]

lemma base64_text_Nil [simp]: "base64_text eol n [] = []" by (simp add: base64_text.simps)

lemma emits_put: "emits (put_or_fail bs) bs ()"
  unfolding emits_def put_or_fail_def
proof 
  fix out
  obtain out' n where sp: "sputn bs out = (out', n)" by (cases "sputn bs out")
  show "if length bs \<le> room out then (let (out, n) = sputn bs out in if n \<noteq> length bs
      then Thrown ''error occured in the base64 object'' out else Returned () out) = Returned () (put_bytes bs out)
    else throws (let (out, n) = sputn bs out in if n \<noteq> length bs
      then Thrown ''error occured in the base64 object'' out else Returned () out)"
    using sputn_fits [of bs out] sputn_full [of out bs] sp by (cases "length bs \<le> room out") auto
qed

lemma emits_line_ending: "emits (put_line_ending eol) (eol_bytes eol) ()"
  proof (cases eol)
  case CRLF
  have "emits (bind_io (put_or_fail [13]) (\<lambda>_. put_or_fail [10])) ([13] @ [10]) ()"
    by (rule emits_bind [OF emits_put]) (rule emits_put)
  with CRLF show ?thesis by (simp add: put_line_ending_def)
qed (simp_all add: put_line_ending_def emits_put)

lemma emits_encode_loop:
  assumes "encode_table s = base64_alphabet"
  shows "emits (encode_loop s n (take 3 xs) (holding (drop 3 xs))) (base64_text (eol_style s) n xs) (holding [])"
proof (induction "eol_style s" n xs rule: base64_text.induct)
  case (1 n xs)
  show ?case
  proof (cases "xs = []")
    case False
    let ?next = "if length (take 3 xs) = 3
      then encode_loop s ((if n = 0 then 19 else n) - 1) (snd (sgetn 3 (holding (drop 3 xs)))) (fst (sgetn 3 (holding (drop 3 xs))))
      else Returned (holding (drop 3 xs))"
    have last: "emits ?next (base64_text (eol_style s) ((if n = 0 then 19 else n) - 1) (drop 3 xs)) (holding [])"
    proof (cases "3 \<le> length xs")
      case True
      with 1 [OF False] show ?thesis by (simp add: sgetn_def)
    qed (simp add: emits_Returned)
    have first: "emits (if n = 0 then put_line_ending (eol_style s) else Returned ())
        (if n = 0 then eol_bytes (eol_style s) else []) ()"
      by (simp add: emits_line_ending emits_Returned)
    from False have "take 3 xs \<noteq> []" by simp
    then show ?thesis
      unfolding encode_loop.simps [of s n "take 3 xs"] base64_text.simps [of "eol_style s" n xs]
      using False assms by (simp only: if_False)
        (rule emits_bind [OF first], rule emits_bind [OF emits_put], rule last)
  qed (simp add: encode_loop.simps emits_Returned)
qed

lemma emits_base64_encode:
  "emits (base64_encode (set_line_ending base64_init eol) (holding xs)) (base64_text eol 19 xs) (holding [])"
  using emits_encode_loop [of "set_line_ending base64_init eol" 19 xs]
  by (simp add: base64_encode_def sgetn_def set_line_ending_def base64_init_def)

lemma decode_feed:
  assumes "decode_entry s c = Some v" "pos < 4" "length inbuf = 4"
  shows "decode_loop s inbuf pos (holding (c # cs)) out =
    decode_loop s (inbuf[pos := c]) (if v \<noteq> bad_value s \<or> c = 61 then pos + 1 else pos) (holding cs) out"
  using assms by (subst decode_loop.simps) (simp add: sgetn_def bind_io.simps)

lemma decode_put:
  assumes "decode_group s inbuf = Some (inbuf', bs)"
  shows "decode_loop s inbuf 4 i = bind_io (put_or_fail bs) (\<lambda>_. decode_loop s inbuf' 0 i)"
  using assms
  by (subst (1 2) decode_loop.simps) (simp add: bind_io_Returned)


definition counted :: "base64 \<Rightarrow> byte \<Rightarrow> bool" where
  "counted s c \<longleftrightarrow> (case decode_entry s c of None \<Rightarrow> False | Some v \<Rightarrow> v \<noteq> bad_value s \<or> c = 61)"

lemma decode_spread:
  assumes "counted s c" "pos < 4" "length inbuf = 4"
  shows "decode_loop s inbuf pos (holding (c # cs)) = decode_loop s (inbuf[pos := c]) (pos + 1) (holding cs)"
  using assms decode_feed [of s c _ pos inbuf cs] by (intro ext) (auto simp: counted_def split: option.splits)

lemma decode_quad:
  assumes "list_all (counted s) [c1, c2, c3, c4]" "length inbuf = 4"
    and "decode_group s [c1, c2, c3, c4] = Some (inbuf', bs)"
  shows "decode_loop s inbuf 0 (holding ([c1, c2, c3, c4] @ cs)) = bind_io (put_or_fail bs) (\<lambda>_. decode_loop s inbuf' 0 (holding cs))"
proof -
  from assms(2) obtain b0 b1 b2 b3 where inbuf: "inbuf = [b0, b1, b2, b3]"
    by (auto simp: length_Suc_conv numeral_eq_Suc)
  from assms(1) show ?thesis
    using decode_put [OF assms(3)] by (simp add: inbuf decode_spread numeral_eq_Suc)
qed

text \<open>An object with the tables of the constructor; a buffer whose first byte is in the table.\<close>

definition standard :: "base64 \<Rightarrow> bool" where
  "standard s \<longleftrightarrow> encode_table s = base64_alphabet \<and> bad_value s = 100 \<and> decode_entry s = decode_entry base64_init"

definition usable :: "base64 \<Rightarrow> byte list \<Rightarrow> bool" where
  "usable s inbuf \<longleftrightarrow> length inbuf = 4 \<and> decode_entry s (inbuf ! 0) \<noteq> None"

lemma standard_init [simp]: "standard (set_line_ending base64_init eol)"
  by (auto simp: standard_def set_line_ending_def base64_init_def decode_entry_def)

lemma decode_line_end:
  assumes "standard s" "usable s inbuf"
  shows "\<exists>inbuf'. usable s inbuf' \<and>
    decode_loop s inbuf 0 (holding (eol_bytes eol @ cs)) = decode_loop s inbuf' 0 (holding cs)"
proof -
  have one: "decode_loop s inbuf 0 (holding (c # cs)) = decode_loop s (inbuf[0 := c]) 0 (holding cs) \<and>
      usable s (inbuf[0 := c])" if "c = 10 \<or> c = 13" "usable s inbuf" for c cs inbuf
  proof -
    have e: "decode_entry s c = Some 100" using assms(1) decode_filler(1,2) that(1) by (auto simp: standard_def)
    with decode_feed [OF e, of 0 inbuf cs] assms(1) that show ?thesis by (auto simp: standard_def usable_def intro!: ext)
  qed
  show ?thesis
  proof (cases eol)
    case CRLF
    with one [of 13 inbuf "10 # cs"] one [of 10 "inbuf[0 := 13]" cs] assms(2) show ?thesis by auto
  qed (use one assms(2) in \<open>auto simp only: eol_bytes.simps append.simps\<close>)
qed

lemma sixbit_entry:
  assumes "standard s" "drop_bit 6 x = 0"
  shows "decode_entry s (base64_alphabet ! unat x) = Some x" "counted s (base64_alphabet ! unat x)"
  using assms decode_alphabet [OF assms(2)] by (auto simp: standard_def counted_def)

lemma decode_group_alphabet:
  assumes "standard s" "drop_bit 6 v1 = 0" "drop_bit 6 v2 = 0" "drop_bit 6 v3 = 0" "drop_bit 6 v4 = 0"
  defines "A \<equiv> \<lambda>v. base64_alphabet ! unat v"
  shows "decode_group s [A v1, A v2, A v3, A v4] =
      Some ([v1, v2, v3, v4], [push_bit 2 v1 OR drop_bit 4 v2, push_bit 4 v2 OR drop_bit 2 v3, push_bit 6 v3 OR v4])"
    "decode_group s [A v1, A v2, A v3, 61] =
      Some ([v1, v2, v3, 100], [push_bit 2 v1 OR drop_bit 4 v2, push_bit 4 v2 OR drop_bit 2 v3])"
    "decode_group s [A v1, A v2, 61, 61] = Some ([v1, v2, 100, 100], [push_bit 2 v1 OR drop_bit 4 v2])"
    "list_all (counted s) [A v1, A v2, A v3, A v4]" "counted s 61" "usable s [v1, x, y, z]"
proof -
  have "decode_entry s 61 = Some 100" "counted s 61" "bad_value s = 100"
    using assms(1) decode_filler by (auto simp: standard_def counted_def)
  moreover have "decode_entry s v1 \<noteq> None"
    using sixbit_less [OF assms(2)] assms(1) decode_table_init(1) by (simp add: standard_def decode_entry_def)
  ultimately show "decode_group s [A v1, A v2, A v3, A v4] =
      Some ([v1, v2, v3, v4], [push_bit 2 v1 OR drop_bit 4 v2, push_bit 4 v2 OR drop_bit 2 v3, push_bit 6 v3 OR v4])"
    "decode_group s [A v1, A v2, A v3, 61] =
      Some ([v1, v2, v3, 100], [push_bit 2 v1 OR drop_bit 4 v2, push_bit 4 v2 OR drop_bit 2 v3])"
    "decode_group s [A v1, A v2, 61, 61] = Some ([v1, v2, 100, 100], [push_bit 2 v1 OR drop_bit 4 v2])"
    "list_all (counted s) [A v1, A v2, A v3, A v4]" "counted s 61" "usable s [v1, x, y, z]"
    using sixbit_entry [OF assms(1)] decode_alphabet(2) assms(2-5)
    by (simp_all add: A_def decode_group_def usable_def Let_def)
qed

lemma decode_encode_group:
  assumes "standard s" "xs \<noteq> []"
  shows "\<exists>c1 c2 c3 c4 inbuf'. encode_group base64_alphabet (take 3 xs) = [c1, c2, c3, c4] \<and>
    list_all (counted s) [c1, c2, c3, c4] \<and> decode_group s [c1, c2, c3, c4] = Some (inbuf', take 3 xs) \<and> usable s inbuf' \<and> c1 \<noteq> 61"
proof -
  note alph = decode_group_alphabet [OF assms(1)]
  from assms(2) obtain a ys where xs: "xs = a # ys" by (cases xs) auto
  define v1 where "v1 = drop_bit 2 (a AND 0xfc)"
  have s1: "drop_bit 6 v1 = 0" unfolding v1_def by (rule sixbit)
  note ne = decode_alphabet(2) [OF s1]
  consider "ys = []" | b where "ys = [b]" | b c zs where "ys = b # c # zs" by (cases ys rule: remdups_adj.cases) auto
  then show ?thesis
  proof cases
    case 1
    define v2 where "v2 = push_bit 4 (a AND 0x03)"
    have s2: "drop_bit 6 v2 = 0" unfolding v2_def by (rule sixbit)
    have "push_bit 2 v1 OR drop_bit 4 v2 = a" unfolding v1_def v2_def by (rule regroup)
    moreover have "encode_group base64_alphabet (take 3 xs) = [base64_alphabet ! unat v1, base64_alphabet ! unat v2, 61, 61]"
      unfolding v1_def v2_def by (simp add: 1 xs encode_group_def Let_def)
    ultimately show ?thesis using alph [OF s1 s2 s1 s1] by (simp add: 1 xs ne)
  next
    case (2 b)
    define v2 where "v2 = push_bit 4 (a AND 0x03) OR drop_bit 4 (b AND 0xf0)"
    define v3 where "v3 = push_bit 2 (b AND 0x0f)"
    have s2: "drop_bit 6 v2 = 0" "drop_bit 6 v3 = 0" unfolding v2_def v3_def by (rule sixbit)+
    have "push_bit 2 v1 OR drop_bit 4 v2 = a" "push_bit 4 v2 OR drop_bit 2 v3 = b"
      unfolding v1_def v2_def v3_def by (rule regroup)+
    moreover have "encode_group base64_alphabet (take 3 xs) =
        [base64_alphabet ! unat v1, base64_alphabet ! unat v2, base64_alphabet ! unat v3, 61]"
      unfolding v1_def v2_def v3_def by (simp add: 2 xs encode_group_def Let_def)
    ultimately show ?thesis using alph [OF s1 s2 s1] by (simp add: 2 xs ne)
  next
    case (3 b c zs)
    define v2 where "v2 = push_bit 4 (a AND 0x03) OR drop_bit 4 (b AND 0xf0)"
    define v3 where "v3 = push_bit 2 (b AND 0x0f) OR drop_bit 6 (c AND 0xc0)"
    define v4 where "v4 = c AND 0x3f"
    have s2: "drop_bit 6 v2 = 0" "drop_bit 6 v3 = 0" "drop_bit 6 v4 = 0"
      unfolding v2_def v3_def v4_def by (rule sixbit)+
    have "push_bit 2 v1 OR drop_bit 4 v2 = a" "push_bit 4 v2 OR drop_bit 2 v3 = b" "push_bit 6 v3 OR v4 = c"
      unfolding v1_def v2_def v3_def v4_def by (rule regroup)+
    moreover have "encode_group base64_alphabet (take 3 xs) =
        [base64_alphabet ! unat v1, base64_alphabet ! unat v2, base64_alphabet ! unat v3, base64_alphabet ! unat v4]"
      unfolding v1_def v2_def v3_def v4_def by (simp add: 3 xs encode_group_def Let_def numeral_3_eq_3)
    ultimately show ?thesis using alph [OF s1 s2] by (simp add: 3 xs ne numeral_3_eq_3)
  qed
qed

lemma emits_decode_loop:
  assumes "standard s" "usable s inbuf"
  shows "emits (decode_loop s inbuf 0 (holding (base64_text eol n xs))) xs (holding [])"
  using assms(2)
proof (induction eol n xs arbitrary: inbuf rule: base64_text.induct)
  case (1 eol n xs)
  show ?case
  proof (cases "xs = []")
    case True
    have "decode_loop s inbuf 0 (holding []) = Returned (holding [])"
      using 1(2) by (subst decode_loop.simps) (auto simp: sgetn_def usable_def bind_io_Returned)
    with True show ?thesis by (simp add: emits_Returned)
  next
    case False
    let ?rest = "base64_text eol ((if n = 0 then 19 else n) - 1) (drop 3 xs)"
    have line: "base64_text eol n xs = (if n = 0 then eol_bytes eol else []) @ encode_group base64_alphabet (take 3 xs) @ ?rest"
      using False by (subst base64_text.simps) simp
    obtain inbuf1 where inbuf1: "usable s inbuf1"
      "decode_loop s inbuf 0 (holding (base64_text eol n xs)) =
        decode_loop s inbuf1 0 (holding (encode_group base64_alphabet (take 3 xs) @ ?rest))"
      using decode_line_end [OF assms(1) 1(2), of eol "encode_group base64_alphabet (take 3 xs) @ ?rest"] 1(2) unfolding line
      by (cases "n = 0") auto
    obtain c1 c2 c3 c4 inbuf2 where g: "encode_group base64_alphabet (take 3 xs) = [c1, c2, c3, c4]"
      "list_all (counted s) [c1, c2, c3, c4]" "decode_group s [c1, c2, c3, c4] = Some (inbuf2, take 3 xs)" "usable s inbuf2"
      using decode_encode_group [OF assms(1) False] by blast
    have len: "length inbuf1 = 4" using inbuf1(1) by (simp add: usable_def)
    have "emits (bind_io (put_or_fail (take 3 xs)) (\<lambda>_. decode_loop s inbuf2 0 (holding ?rest))) (take 3 xs @ drop 3 xs) (holding [])"
      by (rule emits_bind [OF emits_put]) (rule 1(1) [OF False g(4)])
    then show ?thesis unfolding inbuf1(2) g(1) decode_quad [OF g(2) len g(3)] by simp
  qed
qed



lemma emits_base64_decode:
  assumes "standard s" "length junk = 4"
  shows "emits (base64_decode s junk (holding (base64_text eol 19 xs))) xs (holding [])"
proof (cases "xs = []")
  case True
  then show ?thesis by (simp add: base64_decode_def sgetn_def emits_Returned)
next
  case False
  obtain c1 c2 c3 c4 inbuf2 where e: "encode_group base64_alphabet (take 3 xs) = [c1, c2, c3, c4]"
    "list_all (counted s) [c1, c2, c3, c4]" "c1 \<noteq> 61"
    using decode_encode_group [OF assms(1) False] by blast
  then obtain cs where g: "base64_text eol 19 xs = c1 # c2 # c3 # c4 # cs" "c1 \<noteq> 61" "counted s c1"
    using False by (subst (asm) base64_text.simps) simp
  then obtain v where v: "decode_entry s c1 = Some v" "v \<noteq> bad_value s" by (auto simp: counted_def split: option.splits)
  have u: "usable s (junk[0 := c1])" using v assms(2) by (simp add: usable_def)
  have "base64_decode s junk (holding (base64_text eol 19 xs)) = decode_loop s (junk[0 := c1]) 1 (holding (c2 # c3 # c4 # cs))"
    using v by (simp add: base64_decode_def sgetn_def g(1))
  also have "\<dots> = decode_loop s (junk[0 := c1]) 0 (holding (base64_text eol 19 xs))"
    using decode_spread [OF g(3), of 0 "junk[0 := c1]" "c2 # c3 # c4 # cs"] assms(2) by (simp add: g(1))
  finally show ?thesis using emits_decode_loop [OF assms(1) u] by simp
qed

lemma decode_undefined:
  assumes "255 \<in> set cs" "length cs + pos \<le> room out" "decode_entry s 255 = None" "pos \<le> 4" "length inbuf = 4"
  shows "decode_loop s inbuf pos (holding cs) out = Undef"
  using assms
proof (induction cs arbitrary: inbuf pos out)
  case (Cons c cs)
  have below: "decode_loop s inbuf pos (holding (c # cs)) out = Undef"
    if "pos < 4" "length inbuf = 4" "length (c # cs) + pos \<le> room out" for inbuf pos out
  proof (cases "decode_entry s c")
    case None
    with that show ?thesis by (subst decode_loop.simps) (simp add: sgetn_def bind_io_Returned)
  next
    case (Some v)
    with Cons.prems(1,3) have "255 \<in> set cs" by auto
    with Cons.IH [of _ out "inbuf[pos := c]"] Cons.prems(3) that decode_feed [OF Some that(1,2)] show ?thesis by simp
  qed
  show ?case
  proof (cases "pos = 4")
    case True
    show ?thesis
    proof (cases "decode_group s inbuf")
      case None
      with True show ?thesis by (subst decode_loop.simps) simp
    next
      case (Some p)
      then obtain inbuf' bs where p: "decode_group s inbuf = Some (inbuf', bs)" by (cases p) auto
      then have short: "length bs \<le> 3" "length inbuf' = 4"
        by (auto simp: decode_group_def Let_def split: if_splits bind_splits)
      with Cons.prems(2) True have "length bs \<le> room out" by simp
      from emitsD(1) [OF emits_put this] below [of 0 inbuf' "put_bytes bs out"] short Cons.prems(2) True
      show ?thesis by (simp add: decode_put [OF p])
    qed
  qed (use below Cons.prems in simp)
qed simp

section \<open>The text of RFC 4648\<close>

text \<open>
  The format on its own: three bytes are one number of 24 bits, which is written as four digits in base 64; one or two last
  bytes are filled up with zeros, and the digits that hold no bit of them are written as \<open>=\<close>.
\<close>

definition rfc_digits :: string where
  "rfc_digits = ''ABCDEFGHIJKLMNOPQRSTUVWXYZabcdefghijklmnopqrstuvwxyz0123456789+/''"

definition rfc_digit :: "nat \<Rightarrow> byte" where "rfc_digit n = of_char (rfc_digits ! (n mod 64))"

fun rfc_text :: "byte list \<Rightarrow> byte list" where
  "rfc_text [] = []"
| "rfc_text [a] = (let n = 65536 * unat a in [rfc_digit (n div 64 ^ 3), rfc_digit (n div 64 ^ 2), of_char CHR ''='', of_char CHR ''=''])"
| "rfc_text [a, b] = (let n = 65536 * unat a + 256 * unat b in
     [rfc_digit (n div 64 ^ 3), rfc_digit (n div 64 ^ 2), rfc_digit (n div 64), of_char CHR ''=''])"
| "rfc_text (a # b # c # xs) = (let n = 65536 * unat a + 256 * unat b + unat c in
     [rfc_digit (n div 64 ^ 3), rfc_digit (n div 64 ^ 2), rfc_digit (n div 64), rfc_digit n]) @ rfc_text xs"

text \<open>A line ending between any two lines of \<open>k\<close> characters, none after the last line.\<close>

function broken_lines :: "nat \<Rightarrow> byte list \<Rightarrow> byte list \<Rightarrow> byte list" where
  "broken_lines k eol cs =
     (if k = 0 \<or> length cs \<le> k then cs else take k cs @ eol @ broken_lines k eol (drop k cs))"
  by pat_completeness auto
termination
  by (relation "measure (\<lambda>(_, _, cs). length cs)") auto

declare broken_lines.simps [simp del]

lemma alphabet_rfc: "i < 64 \<Longrightarrow> base64_alphabet ! i = rfc_digit i"
proof -
  assume i: "i < 64"
  have map: "map of_char rfc_digits = (codes :: nat list)" by (simp add: rfc_digits_def codes_def)
  have len: "length rfc_digits = 64" by (simp add: rfc_digits_def)
  have "of_char (rfc_digits ! i) = codes ! i" unfolding map [symmetric] using i len by simp
  then have "base64_alphabet ! i = of_nat (of_char (rfc_digits ! i))"
    by (simp flip: unat_alphabet [OF i])
  with i show ?thesis by (simp add: rfc_digit_def of_nat_of_char)
qed

lemma byte_less: "unat (x :: byte) < 256"
  using unsigned_less [of x] by simp

lemma unat_disjoint:
  fixes x y :: byte
  assumes "x AND y = 0" "unat x + unat y < 256"
  shows "unat (x OR y) = unat x + unat y"
  using disjunctive_add_eq_or [OF assms(1)] assms(2) by (simp flip: disjunctive_add_eq_or [OF assms(1)] add: unat_word_ariths)

lemma sextets:
  fixes a b c :: byte
  shows "unat (drop_bit 2 (a AND 0xfc)) = unat a div 4"
    "unat (push_bit 4 (a AND 0x03) OR drop_bit 4 (b AND 0xf0)) = 16 * (unat a mod 4) + unat b div 16"
    "unat (push_bit 2 (b AND 0x0f) OR drop_bit 6 (c AND 0xc0)) = 4 * (unat b mod 16) + unat c div 64"
    "unat (c AND 0x3f) = unat c mod 64"
    "unat (push_bit 4 (a AND 0x03)) = 16 * (unat a mod 4)"
    "unat (push_bit 2 (b AND 0x0f)) = 4 * (unat b mod 16)"
proof -
  have bits: "drop_bit 2 (a AND 0xfc) = drop_bit 2 a" "drop_bit 4 (b AND 0xf0) = drop_bit 4 b" "drop_bit 6 (c AND 0xc0) = drop_bit 6 c"
    "a AND 0x03 = take_bit 2 a" "b AND 0x0f = take_bit 4 b" "c AND 0x3f = take_bit 6 c"
    by (rule byte_eqI; simp add: bit_simps impossible_bit)+
  have disj: "push_bit 4 (take_bit 2 a) AND drop_bit 4 b = 0" "push_bit 2 (take_bit 4 b) AND drop_bit 6 c = 0"
    by (rule byte_eqI; simp add: bit_simps impossible_bit)+
  have drops: "unat (drop_bit k x) = unat x div 2 ^ k" for k and x :: byte
    unfolding unat_drop_bit_eq by (simp add: drop_bit_eq_div)
  have takes: "unat (take_bit k x) = unat x mod 2 ^ k" for k and x :: byte
    unfolding unsigned_take_bit_eq by (simp add: take_bit_eq_mod)
  have p1: "unat (push_bit 4 (take_bit 2 a)) = 16 * (unat a mod 4)"
    unfolding unsigned_push_bit_eq takes by (simp add: take_bit_eq_mod push_bit_eq_mult)
  have p2: "unat (push_bit 2 (take_bit 4 b)) = 4 * (unat b mod 16)"
    unfolding unsigned_push_bit_eq takes by (simp add: take_bit_eq_mod push_bit_eq_mult)
  have d: "unat (drop_bit 4 b) < 16" "unat (drop_bit 6 c) < 4"
    using byte_less [of b] byte_less [of c] by (simp_all add: drops)
  show "unat (drop_bit 2 (a AND 0xfc)) = unat a div 4" "unat (c AND 0x3f) = unat c mod 64"
    "unat (push_bit 4 (a AND 0x03)) = 16 * (unat a mod 4)" "unat (push_bit 2 (b AND 0x0f)) = 4 * (unat b mod 16)"
    by (simp_all only: bits p1 p2 drops takes) simp_all
  have "unat (push_bit 4 (take_bit 2 a)) + unat (drop_bit 4 b) < 256" using d(1) by (simp add: p1)
  from unat_disjoint [OF disj(1) this] show "unat (push_bit 4 (a AND 0x03) OR drop_bit 4 (b AND 0xf0)) = 16 * (unat a mod 4) + unat b div 16"
    unfolding bits p1 drops by simp
  have "unat (push_bit 2 (take_bit 4 b)) + unat (drop_bit 6 c) < 256" using d(2) by (simp add: p2)
  from unat_disjoint [OF disj(2) this] show "unat (push_bit 2 (b AND 0x0f) OR drop_bit 6 (c AND 0xc0)) = 4 * (unat b mod 16) + unat c div 64"
    unfolding bits p2 drops by simp
qed

lemma digits_of_24:
  fixes a b c :: nat
  assumes "a < 256" "b < 256" "c < 256"
  defines "n \<equiv> 65536 * a + 256 * b + c"
  shows "n div 64 ^ 3 mod 64 = a div 4" "n div 64 ^ 2 mod 64 = 16 * (a mod 4) + b div 16"
    "n div 64 mod 64 = 4 * (b mod 16) + c div 64" "n mod 64 = c mod 64"
proof -
  have hi: "n div 256 = 256 * a + b" "n div 65536 = a" unfolding n_def using assms(2,3) by simp_all
  have "n div 64 ^ 3 = n div 65536 div 4" by (simp flip: div_mult2_eq)
  with hi assms(1) show "n div 64 ^ 3 mod 64 = a div 4" by simp
  have "n div 64 ^ 2 = n div 256 div 16" by (simp flip: div_mult2_eq)
  also have "\<dots> = 16 * a + b div 16" unfolding hi by simp
  finally have "n div 64 ^ 2 = 16 * a + b div 16" .
  moreover have "b div 16 < 16" using assms(2) by simp
  moreover have "(16 * a + d) mod 64 = 16 * (a mod 4) + d" if "d < 16" for d :: nat
    using that mod_mult2_eq [of "16 * a + d" 16 4] by simp
  ultimately show "n div 64 ^ 2 mod 64 = 16 * (a mod 4) + b div 16" by simp
  have "n div 64 = 1024 * a + 4 * b + c div 64" unfolding n_def by simp
  moreover have "c div 64 < 4" using assms(3) by simp
  moreover have "(1024 * a + 4 * b + d) mod 64 = 4 * (b mod 16) + d" if "d < 4" for d :: nat
  proof -
    have 4: "(d + 4 * e) div 4 = e" "(d + 4 * e) mod 4 = d" for e :: nat using that by simp_all
    have "1024 * a + 4 * b + d = d + 4 * (256 * a + b)" by simp
    then have "(1024 * a + 4 * b + d) mod (4 * 16) = 4 * ((256 * a + b) mod 16) + d"
      by (simp only: mod_mult2_eq 4)
    moreover have "256 * a + b = b + 16 * (16 * a)" by simp
    then have "(256 * a + b) mod 16 = b mod 16" by (simp only: mod_mult_self2)
    ultimately have "(1024 * a + 4 * b + d) mod (4 * 16) = 4 * (b mod 16) + d" by (simp only:)
    moreover have "(4 :: nat) * 16 = 64" by simp
    ultimately show ?thesis by (simp only:)
  qed
  ultimately show "n div 64 mod 64 = 4 * (b mod 16) + c div 64" by simp
  have "n = c + 64 * (1024 * a + 4 * b)" unfolding n_def by simp
  then show "n mod 64 = c mod 64" by (simp only: mod_mult_self2)
qed

lemma rfc_digit_mod: "rfc_digit (n mod 64) = rfc_digit n"
  by (simp add: rfc_digit_def)

lemma encode_group_rfc:
  "encode_group base64_alphabet [a, b, c] = rfc_text [a, b, c]"
  "encode_group base64_alphabet [a, b] = rfc_text [a, b]"
  "encode_group base64_alphabet [a] = rfc_text [a]"
proof -
  have digit: "base64_alphabet ! unat v = rfc_digit (unat v)" if "drop_bit 6 v = 0" for v :: byte
    by (rule alphabet_rfc [OF sixbit_less [OF that]])
  note eqs = trans [OF digit [OF sixbit(1)] arg_cong [of _ _ rfc_digit, OF sextets(1)]] trans [OF digit [OF sixbit(2)] arg_cong [of _ _ rfc_digit, OF sextets(2)]]
    trans [OF digit [OF sixbit(3)] arg_cong [of _ _ rfc_digit, OF sextets(3)]] trans [OF digit [OF sixbit(4)] arg_cong [of _ _ rfc_digit, OF sextets(4)]]
    trans [OF digit [OF sixbit(5)] arg_cong [of _ _ rfc_digit, OF sextets(5)]] trans [OF digit [OF sixbit(6)] arg_cong [of _ _ rfc_digit, OF sextets(6)]]
  have pad: "of_char CHR ''='' = (61 :: byte)" by simp
  have same: "rfc_digit n = rfc_digit k" if "n mod 64 = k" for n k using that by (metis rfc_digit_mod)
  note lt = byte_less [of a] byte_less [of b] byte_less [of c] and zero = zero_less_numeral [of "num.Bit0 (num.Bit0 num.One)"]
  note n3 = digits_of_24 [OF lt, THEN same]
    and n2 = digits_of_24 [OF lt(1,2), of 0, THEN same, unfolded add_0_right]
    and n1 = digits_of_24 [OF lt(1), of 0 0, THEN same, unfolded add_0_right mult_0_right]
  have g: "encode_group tab [a, b, c] = [tab ! unat (drop_bit 2 (a AND 0xfc)), tab ! unat (push_bit 4 (a AND 0x03) OR drop_bit 4 (b AND 0xf0)),
      tab ! unat (push_bit 2 (b AND 0x0f) OR drop_bit 6 (c AND 0xc0)), tab ! unat (c AND 0x3f)]"
    "encode_group tab [a, b] = [tab ! unat (drop_bit 2 (a AND 0xfc)), tab ! unat (push_bit 4 (a AND 0x03) OR drop_bit 4 (b AND 0xf0)),
      tab ! unat (push_bit 2 (b AND 0x0f)), 61]"
    "encode_group tab [a] = [tab ! unat (drop_bit 2 (a AND 0xfc)), tab ! unat (push_bit 4 (a AND 0x03)), 61, 61]" for tab
    by (simp_all add: encode_group_def Let_def)
  show "encode_group base64_alphabet [a, b, c] = rfc_text [a, b, c]"
    unfolding g eqs rfc_text.simps Let_def n3 by simp
  show "encode_group base64_alphabet [a, b] = rfc_text [a, b]"
    unfolding g eqs rfc_text.simps Let_def pad using n2 by simp
  show "encode_group base64_alphabet [a] = rfc_text [a]"
    unfolding g eqs rfc_text.simps Let_def pad using n1 by simp
qed

lemma rfc_text_group:
  assumes "xs \<noteq> []"
  shows "rfc_text xs = encode_group base64_alphabet (take 3 xs) @ rfc_text (drop 3 xs)"
    "length (encode_group base64_alphabet (take 3 xs)) = 4"
proof -
  consider a where "xs = [a]" | a b where "xs = [a, b]" | a b c ys where "xs = a # b # c # ys"
    using assms by (cases xs rule: rfc_text.cases) auto
  then have "rfc_text xs = encode_group base64_alphabet (take 3 xs) @ rfc_text (drop 3 xs) \<and>
    length (encode_group base64_alphabet (take 3 xs)) = 4"
    by cases (simp_all add: encode_group_rfc Let_def numeral_3_eq_3)
  then show "rfc_text xs = encode_group base64_alphabet (take 3 xs) @ rfc_text (drop 3 xs)"
    "length (encode_group base64_alphabet (take 3 xs)) = 4" by simp_all
qed

lemma base64_text_lines:
  "n \<le> 19 \<Longrightarrow> base64_text eol n xs =
     (if length (rfc_text xs) \<le> 4 * n then rfc_text xs
      else take (4 * n) (rfc_text xs) @ eol_bytes eol @ broken_lines 76 (eol_bytes eol) (drop (4 * n) (rfc_text xs)))"
proof (induction eol n xs rule: base64_text.induct)
  case (1 eol n xs)
  show ?case
  proof (cases "xs = []")
    case False
    let ?g = "encode_group base64_alphabet (take 3 xs)" and ?t = "rfc_text (drop 3 xs)"
    note xs = rfc_text_group [OF False]
    from False have eq: "base64_text eol n xs = (if n = 0 then eol_bytes eol else []) @ ?g @
        base64_text eol ((if n = 0 then 19 else n) - 1) (drop 3 xs)" by (subst base64_text.simps) simp
    show ?thesis
    proof (cases "n = 0")
      case True
      with 1(1) [OF False] have "base64_text eol 18 (drop 3 xs) = (if length ?t \<le> 72 then ?t
        else take 72 ?t @ eol_bytes eol @ broken_lines 76 (eol_bytes eol) (drop 72 ?t))" by simp
      with True xs show ?thesis
        unfolding eq broken_lines.simps [of 76 "eol_bytes eol" "drop (4 * n) (rfc_text xs)"] by simp
    next
      case n: False
      then obtain m where m: "n = Suc m" by (cases n) auto
      with 1 False have "base64_text eol m (drop 3 xs) = (if length ?t \<le> 4 * m then ?t
        else take (4 * m) ?t @ eol_bytes eol @ broken_lines 76 (eol_bytes eol) (drop (4 * m) ?t))" by simp
      with m xs show ?thesis unfolding eq by simp
    qed
  qed simp
qed

lemma base64_text_rfc: "base64_text eol 19 xs = broken_lines 76 (eol_bytes eol) (rfc_text xs)"
  by (simp add: base64_text_lines broken_lines.simps [of 76 "eol_bytes eol" "rfc_text xs"])

section \<open>Properties\<close>

text \<open>
  C20. Encoding writes the text of RFC 4648: groups of four of the 64 characters \<open>A\<close> to \<open>Z\<close>, \<open>a\<close> to \<open>z\<close>, \<open>0\<close> to \<open>9\<close>, \<open>+\<close> and \<open>/\<close>
  for each three bytes, a last group that is padded with \<open>=\<close>, and a line ending of the chosen style between the lines of
  76 characters; and decoding, with any style, reads this text as the bytes. If a stream has no room, the call throws.
\<close>

theorem base64_round_trip:
  assumes "length inbuf = 4"
  shows "emits (base64_encode (set_line_ending base64_init eol) (holding xs))
      (broken_lines 76 (eol_bytes eol) (rfc_text xs)) (holding []) \<and>
    emits (base64_decode (set_line_ending base64_init eol') inbuf
      (holding (broken_lines 76 (eol_bytes eol) (rfc_text xs)))) xs (holding [])"
  using emits_base64_encode emits_base64_decode [OF standard_init assms] by (simp flip: base64_text_rfc)

theorem base64_round_trip_witness:
  "emits (base64_encode (set_line_ending base64_init CRLF) (holding [77, 97, 110, 200]))
     (map of_char ''TWFuyA=='') (holding []) \<and>
   emits (base64_decode (set_line_ending base64_init LF) [0, 0, 0, 0] (holding (map of_char ''TWFuyA=='')))
     [77, 97, 110, 200] (holding [])"
proof -
  have "broken_lines 76 (eol_bytes CRLF) (rfc_text [77, 97, 110, 200]) = map of_char ''TWFuyA==''"
    by (simp add: broken_lines.simps rfc_digit_def rfc_digits_def Let_def)
  then show ?thesis using base64_round_trip [of "[0, 0, 0, 0]" CRLF "[77, 97, 110, 200]" LF] by simp
qed

text \<open>
  The table of the decoder has \<open>UCHAR_MAX\<close> entries, so that a byte 255 in the text is looked up past its end: decoding a text
  with such a byte has no defined behaviour.
\<close>

theorem base64_decode_undefined:
  assumes "255 \<in> set cs" "length inbuf = 4" "length cs \<le> room out"
  shows "base64_decode base64_init inbuf (holding cs) out = Undef"
proof (cases cs)
  case (Cons c ds)
  show ?thesis
  proof (cases "decode_entry base64_init c")
    case None
    with Cons show ?thesis by (simp add: base64_decode_def sgetn_def)
  next
    case (Some v)
    with assms(1) Cons decode_filler(4) have "255 \<in> set ds" by auto
    with Some Cons assms decode_filler(4) show ?thesis
      by (auto simp: base64_decode_def sgetn_def intro!: decode_undefined)
  qed
qed (use assms in simp)

theorem base64_decode_undefined_witness:
  "base64_decode base64_init [0, 0, 0, 0] (holding [65, 255]) \<lparr>sink = [], room = 9, out_bad = False\<rparr> = Undef"
  by (rule base64_decode_undefined) simp_all

end
