(* ===== verification/Entropy_Coder.thy ===== *)
theory Entropy_Coder
  imports Stream_Io
begin

text \<open>
  The range coder, \<open>entropy_encoder/entropy_encoder_kernel_2.cpp\<close> and \<open>entropy_decoder/entropy_decoder_kernel_2.cpp\<close>:
  the two classes, the rounds in which they shift bytes out of and into the range, and the theorem that
  the decoder finds, for every call of \<open>encode\<close>, a target inside of the counts that were encoded.
\<close>

unbundle bit_operations_syntax

section \<open>The encoder\<close>

text \<open>
  \<open>enc_out\<close> is the stream that \<open>out\<close> points to, if one is set. A call of \<open>set_stream\<close> or \<open>clear\<close> returns
  the stream that was set before.
\<close>

record entropy_encoder =
  enc_out :: "ostream option"
  enc_low :: "32 word"
  enc_high :: "32 word"

definition initial_low :: "32 word" where "initial_low = 0x00000001"
definition initial_high :: "32 word" where "initial_high = 0xffffffff"

definition entropy_encoder_init :: entropy_encoder where
  "entropy_encoder_init = \<lparr>enc_out = None, enc_low = initial_low, enc_high = initial_high\<rparr>"

definition enc_stream_is_set :: "entropy_encoder \<Rightarrow> bool" where
  "enc_stream_is_set s \<longleftrightarrow> enc_out s \<noteq> None"

definition enc_put :: "byte \<Rightarrow> entropy_encoder \<Rightarrow> (unit, entropy_encoder) io" where
  "enc_put buf s =
     (case enc_out s of
        None \<Rightarrow> Undef
      | Some out \<Rightarrow>
          (let (out, n) = sputn [buf] out; s = s\<lparr>enc_out := Some out\<rparr>
           in if n = 0 then Thrown ''error occured in the entropy_encoder object'' s else Returned () s))"

definition enc_flush :: "entropy_encoder \<Rightarrow> (unit, entropy_encoder) io" where
  "enc_flush s =
     bind_io (enc_put (ucast (drop_bit 24 (enc_low s) AND 0xFF))) (\<lambda>_.
     bind_io (enc_put (ucast (drop_bit 16 (enc_low s) AND 0xFF))) (\<lambda>_.
     bind_io (enc_put (ucast (drop_bit 8 (enc_low s) AND 0xFF))) (\<lambda>_.
     bind_io (enc_put (ucast (enc_low s AND 0xFF))) (\<lambda>_ s.
       Returned () (s\<lparr>enc_low := initial_low, enc_high := initial_high\<rparr>))))) s"

definition enc_clear :: "entropy_encoder \<Rightarrow> (ostream option, entropy_encoder) io" where
  "enc_clear =
     bind_io (\<lambda>s. if enc_out s \<noteq> None then enc_flush s else Returned () s)
       (\<lambda>_ s. Returned (enc_out s) (s\<lparr>enc_out := None\<rparr>))"

definition enc_set_stream :: "ostream \<Rightarrow> entropy_encoder \<Rightarrow> (ostream option, entropy_encoder) io" where
  "enc_set_stream out =
     bind_io (\<lambda>s. if enc_out s \<noteq> None then enc_flush s else Returned () s)
       (\<lambda>_ s. Returned (enc_out s) \<lparr>enc_out = Some out, enc_low = initial_low, enc_high = initial_high\<rparr>)"

text \<open>The destructor flushes and swallows what \<open>flush\<close> throws; the result is the stream as it leaves it.\<close>

definition enc_destroy :: "entropy_encoder \<Rightarrow> ostream option option" where
  "enc_destroy s =
     (if enc_out s \<noteq> None
      then case enc_flush s of Returned _ s \<Rightarrow> Some (enc_out s) | Thrown _ s \<Rightarrow> Some (enc_out s) | Undef \<Rightarrow> None
      else Some None)"

text \<open>One round of the loop at the end of \<open>encode\<close>, which the decoder repeats: the tests and the new range.\<close>

definition same_top :: "32 word \<times> 32 word \<Rightarrow> bool" where
  "same_top = (\<lambda>(low, high). high AND 0xFF000000 = low AND 0xFF000000)"

definition narrow :: "32 word \<times> 32 word \<Rightarrow> 32 word \<times> 32 word" where
  "narrow = (\<lambda>(low, high).
     let mid = drop_bit 1 high + drop_bit 1 low
     in if high - low > 0x1000 then (mid - 0xFF, mid + 0xFF) else (mid, mid))"

definition roll :: "32 word \<times> 32 word \<Rightarrow> 32 word \<times> 32 word" where
  "roll = (\<lambda>(low, high).
     (if push_bit 8 low = 0 then 1 else push_bit 8 low, push_bit 8 high OR 0xFF))"

definition set_range :: "32 word \<times> 32 word \<Rightarrow> entropy_encoder \<Rightarrow> entropy_encoder" where
  "set_range = (\<lambda>(low, high) s. s\<lparr>enc_low := low, enc_high := high\<rparr>)"

abbreviation enc_range :: "entropy_encoder \<Rightarrow> 32 word \<times> 32 word" where
  "enc_range s \<equiv> (enc_low s, enc_high s)"

text \<open>\<open>Undef\<close> also stands for a loop that has not ended after the given number of rounds.\<close>

fun enc_loop :: "nat \<Rightarrow> entropy_encoder \<Rightarrow> (unit, entropy_encoder) io" where
  "enc_loop 0 s = Undef"
| "enc_loop (Suc n) s =
     (if \<not> same_top (enc_range s)
      then if enc_high s - enc_low s < 0x10000 then enc_loop n (set_range (narrow (enc_range s)) s)
           else Returned () s
      else let buf = ucast (drop_bit 24 (enc_low s))
           in bind_io (enc_put buf) (\<lambda>_. enc_loop n) (set_range (roll (enc_range s)) s))"

definition rounds :: nat where "rounds = 16"

definition enc_encode ::
  "32 word \<Rightarrow> 32 word \<Rightarrow> 32 word \<Rightarrow> entropy_encoder \<Rightarrow> (unit, entropy_encoder) io" where
  "enc_encode low_count high_count tot s =
     (if tot = 0 then Undef
      else let r = (enc_high s - enc_low s + 1) div tot;
               high = enc_low s + r * high_count - 1;
               low = enc_low s + r * low_count
           in enc_loop rounds (set_range (low, high) s))"

section \<open>The decoder\<close>

record entropy_decoder =
  dec_in :: "istream option"
  dec_low :: "32 word"
  dec_high :: "32 word"
  dec_target :: "32 word"
  dec_r :: "32 word"

definition entropy_decoder_init :: entropy_decoder where
  "entropy_decoder_init = \<lparr>dec_in = None, dec_low = initial_low, dec_high = initial_high, dec_target = 0, dec_r = 0\<rparr>"

definition dec_clear :: "entropy_decoder \<Rightarrow> entropy_decoder" where
  "dec_clear s = \<lparr>dec_in = None, dec_low = initial_low, dec_high = initial_high, dec_target = 0, dec_r = 0\<rparr>"

definition dec_stream_is_set :: "entropy_decoder \<Rightarrow> bool" where
  "dec_stream_is_set s \<longleftrightarrow> dec_in s \<noteq> None"

text \<open>
  The first byte is read without a test: at the end of the stream \<open>ch\<close> keeps what the memory held,
  the parameter \<open>ch\<close> here.
\<close>

definition shift_in :: "32 word \<times> istream \<Rightarrow> 32 word \<times> istream" where
  "shift_in = (\<lambda>(target, i).
     case sgetn 1 i of (i, cs) \<Rightarrow> (if cs = [] then push_bit 8 target else push_bit 8 target + ucast (hd cs), i))"

definition dec_set_stream :: "byte \<Rightarrow> istream \<Rightarrow> entropy_decoder \<Rightarrow> entropy_decoder" where
  "dec_set_stream ch i s =
     (case sgetn 1 i of (i, cs) \<Rightarrow>
        let (target, i) = shift_in (shift_in (shift_in (ucast (if cs = [] then ch else hd cs), i)))
        in \<lparr>dec_in = Some i, dec_low = initial_low, dec_high = initial_high, dec_target = target, dec_r = 0\<rparr>)"

abbreviation dec_range :: "entropy_decoder \<Rightarrow> 32 word \<times> 32 word" where
  "dec_range s \<equiv> (dec_low s, dec_high s)"

fun dec_loop :: "nat \<Rightarrow> entropy_decoder \<Rightarrow> (unit, entropy_decoder) io" where
  "dec_loop 0 s = Undef"
| "dec_loop (Suc n) s =
     (if \<not> same_top (dec_range s)
      then if dec_high s - dec_low s < 0x10000
           then (case narrow (dec_range s) of (low, high) \<Rightarrow> dec_loop n (s\<lparr>dec_low := low, dec_high := high\<rparr>))
           else Returned () s
      else case dec_in s of
             None \<Rightarrow> Undef
           | Some i \<Rightarrow>
               (case sgetn 1 i of (i, cs) \<Rightarrow>
                  let buf = (if cs = [] then 0 else hd cs)
                  in case roll (dec_range s) of (low, high) \<Rightarrow>
                       dec_loop n (s\<lparr>dec_in := Some i, dec_low := low, dec_high := high,
                         dec_target := push_bit 8 (dec_target s) OR ucast buf\<rparr>)))"

definition dec_decode :: "32 word \<Rightarrow> 32 word \<Rightarrow> entropy_decoder \<Rightarrow> (unit, entropy_decoder) io" where
  "dec_decode low_count high_count s =
     dec_loop rounds (s\<lparr>dec_high := dec_low s + dec_r s * high_count - 1,
       dec_low := dec_low s + dec_r s * low_count, dec_r := 0\<rparr>)"

definition dec_get_target_called :: "entropy_decoder \<Rightarrow> bool" where
  "dec_get_target_called s \<longleftrightarrow> dec_r s \<noteq> 0"

definition dec_get_target :: "32 word \<Rightarrow> entropy_decoder \<Rightarrow> (32 word, entropy_decoder) io" where
  "dec_get_target tot s =
     (if tot = 0 then Undef
      else let r = (dec_high s - dec_low s + 1) div tot; s = s\<lparr>dec_r := r\<rparr>
           in if r = 0 then Undef
              else let temp = (dec_target s - dec_low s) div r
                   in if temp < tot then Returned temp s else Returned (tot - 1) s)"

section \<open>The range as numbers\<close>

text \<open>
  Both loops change the range in the same way and differ in what they do with the bytes: \<open>shifts\<close> is
  the loop with the bytes that are shifted out.
\<close>

fun shifts :: "nat \<Rightarrow> 32 word \<times> 32 word \<Rightarrow> (byte list \<times> 32 word \<times> 32 word) option" where
  "shifts 0 lh = None"
| "shifts (Suc n) lh =
     (if \<not> same_top lh
      then if snd lh - fst lh < 0x10000 then shifts n (narrow lh) else Some ([], lh)
      else case shifts n (roll lh) of
             None \<Rightarrow> None
           | Some (bs, lh') \<Rightarrow> Some (ucast (drop_bit 24 (fst lh)) # bs, lh'))"

declare shifts.simps(2) [simp del]

definition low_num :: "32 word \<times> 32 word \<Rightarrow> nat" where "low_num lh = unat (fst lh)"
definition high_num :: "32 word \<times> 32 word \<Rightarrow> nat" where "high_num lh = unat (snd lh)"

definition proper :: "32 word \<times> 32 word \<Rightarrow> bool" where
  "proper lh \<longleftrightarrow> 1 \<le> low_num lh \<and> low_num lh \<le> high_num lh"

definition wide :: "32 word \<times> 32 word \<Rightarrow> bool" where
  "wide lh \<longleftrightarrow> 1 \<le> low_num lh \<and> low_num lh + 0x10000 \<le> high_num lh"

lemma num_less: "low_num lh < 4294967296" "high_num lh < 4294967296"
  using unsigned_less [of "fst lh", where 'a = nat] unsigned_less [of "snd lh", where 'a = nat]
  by (simp_all add: low_num_def high_num_def)

lemma top_mask: "(x :: 32 word) AND 0xFF000000 = push_bit 24 (drop_bit 24 x)"
proof -
  have "(0xFF000000 :: 32 word) = NOT (mask 24)" by (simp add: mask_eq_decr_exp not_eq_complement)
  then have "x AND 0xFF000000 = x AND NOT (mask 24)" by simp
  also have "\<dots> = push_bit 24 (drop_bit 24 x)" by (rule bit_word_eqI) (auto simp: bit_simps)
  finally show ?thesis .
qed

lemma same_top_iff: "same_top lh \<longleftrightarrow> low_num lh div 16777216 = high_num lh div 16777216"
proof -
  obtain l h where lh: "lh = (l, h)" by (cases lh)
  have d: "unat (drop_bit 24 x) = unat x div 16777216" for x :: "32 word"
    by (simp add: drop_bit_eq_div unat_div)
  have "push_bit 24 (drop_bit 24 h) = push_bit 24 (drop_bit 24 l) \<longleftrightarrow> drop_bit 24 h = drop_bit 24 l"
  proof
    assume "push_bit 24 (drop_bit 24 h) = push_bit 24 (drop_bit 24 l)"
    then have "drop_bit 24 (push_bit 24 (drop_bit 24 h)) = drop_bit 24 (push_bit 24 (drop_bit 24 l))" by simp
    moreover have "drop_bit 24 (push_bit 24 (drop_bit 24 x)) = drop_bit 24 x" for x :: "32 word"
      by (rule bit_word_eqI) (auto simp: bit_simps dest: bit_imp_le_length)
    ultimately show "drop_bit 24 h = drop_bit 24 l" by simp
  qed simp
  then show ?thesis using d [of l] d [of h] by (auto simp: lh same_top_def top_mask low_num_def high_num_def word_unat_eq_iff)
qed

lemma width: "low_num lh \<le> high_num lh \<Longrightarrow> unat (snd lh - fst lh) = high_num lh - low_num lh"
  by (simp add: low_num_def high_num_def unat_sub word_le_nat_alt)

lemma roll_num:
  "low_num (roll lh) = max 1 (256 * (low_num lh mod 16777216))"
  "high_num (roll lh) = 256 * (high_num lh mod 16777216) + 255"
proof -
  obtain l h where lh: "lh = (l, h)" by (cases lh)
  have p: "unat (push_bit 8 x) = 256 * (unat x mod 16777216)" for x :: "32 word"
  proof -
    have "push_bit 8 x = of_nat (256 * unat x)" by (simp add: push_bit_eq_mult)
    then have "unat (push_bit 8 x) = 256 * unat x mod 4294967296" by (simp only: unat_of_nat) simp
    also have "\<dots> = 256 * (unat x mod 16777216)" using mult_mod_right [of 256 "unat x" 16777216] by simp
    finally show ?thesis .
  qed
  have z: "push_bit 8 l = 0 \<longleftrightarrow> unat l mod 16777216 = 0" using p [of l] by (simp add: unat_eq_0 [symmetric])
  show "low_num (roll lh) = max 1 (256 * (low_num lh mod 16777216))"
    using p [of l] z by (auto simp: lh roll_def low_num_def)
  have "push_bit 8 h OR 0xFF = push_bit 8 h + 0xFF"
  proof (rule disjunctive_add [symmetric])
    have ff: "(0xFF :: 32 word) = mask 8" by (simp add: mask_eq_decr_exp)
    fix n show "\<not> bit (push_bit 8 h) n \<or> \<not> bit (0xFF :: 32 word) n"
      unfolding ff by (auto simp: bit_push_bit_iff bit_mask_iff)
  qed
  moreover have "unat (push_bit 8 h + 0xFF) = 256 * (unat h mod 16777216) + 255"
    using p [of h] by (subst unat_plus_if_size) (auto simp: word_size)
  ultimately show "high_num (roll lh) = 256 * (high_num lh mod 16777216) + 255"
    by (simp add: lh roll_def high_num_def)
qed

lemma half_bounds: "h \<le> 2 * (h div 2) + 1" "2 * (h div 2) \<le> (h :: nat)"
  by presburger+

lemma narrow_num:
  assumes "low_num lh < high_num lh"
  defines "mid \<equiv> high_num lh div 2 + low_num lh div 2"
  shows "high_num lh - low_num lh > 0x1000 \<Longrightarrow> low_num (narrow lh) = mid - 0xFF"
    "high_num lh - low_num lh > 0x1000 \<Longrightarrow> high_num (narrow lh) = mid + 0xFF"
    "high_num lh - low_num lh \<le> 0x1000 \<Longrightarrow> low_num (narrow lh) = mid"
    "high_num lh - low_num lh \<le> 0x1000 \<Longrightarrow> high_num (narrow lh) = mid"
proof -
  obtain l h where lh: "lh = (l, h)" by (cases lh)
  have d: "unat (drop_bit (Suc 0) x) = unat x div 2" for x :: "32 word"
    by (simp add: drop_bit_eq_div unat_div)
  have m: "unat (drop_bit 1 h + drop_bit 1 l) = mid"
    using num_less [of lh] unfolding mid_def lh low_num_def high_num_def
    by (subst unat_plus_if_size) (auto simp: word_size d)
  have w: "h - l > 0x1000 \<longleftrightarrow> high_num lh - low_num lh > 0x1000"
    using width [of lh] assms(1) by (simp add: lh word_less_nat_alt)
  have mid: "low_num lh \<le> mid" "mid \<le> high_num lh" using assms(1) unfolding mid_def by presburger+
  show "low_num (narrow lh) = mid" "high_num (narrow lh) = mid" if "high_num lh - low_num lh \<le> 0x1000"
    using w that m by (simp_all add: lh narrow_def low_num_def high_num_def Let_def)
  assume big: "high_num lh - low_num lh > 0x1000"
  from big half_bounds [of "low_num lh"] half_bounds [of "high_num lh"] have "0xFF \<le> mid" "mid + 0xFF \<le> high_num lh"
    unfolding mid_def by linarith+
  then show "low_num (narrow lh) = mid - 0xFF" "high_num (narrow lh) = mid + 0xFF"
    using w big m num_less [of lh]
    by (simp_all add: lh narrow_def low_num_def high_num_def Let_def unat_sub unat_plus_if_size word_size word_le_nat_alt)
qed



lemma narrow_inside:
  assumes "1 \<le> low_num lh" "low_num lh < high_num lh"
  shows "proper (narrow lh)" "low_num lh \<le> low_num (narrow lh)" "high_num (narrow lh) \<le> high_num lh"
proof -
  define mid where "mid = high_num lh div 2 + low_num lh div 2"
  note num = narrow_num [OF assms(2), folded mid_def]
  have mid: "low_num lh \<le> mid" "mid \<le> high_num lh" using assms(2) unfolding mid_def by presburger+
  have far: "low_num lh + 0xFF \<le> mid" "mid + 0xFF \<le> high_num lh" if "high_num lh - low_num lh > 0x1000"
    using that half_bounds [of "low_num lh"] half_bounds [of "high_num lh"] unfolding mid_def by linarith+
  show "proper (narrow lh)"
  proof (cases "high_num lh - low_num lh > 0x1000")
    case True
    with num(1,2) far assms(1) show ?thesis unfolding proper_def by linarith
  next
    case False
    with num(3,4) mid assms(1) show ?thesis unfolding proper_def by linarith
  qed
  show "low_num lh \<le> low_num (narrow lh)"
    using num(1,3) far(1) mid(1) by (cases "high_num lh - low_num lh > 0x1000") linarith+
  show "high_num (narrow lh) \<le> high_num lh"
    using num(2,4) far(2) mid(2) by (cases "high_num lh - low_num lh > 0x1000") linarith+
qed

lemma same_top_split:
  assumes "same_top lh"
  obtains b where "low_num lh = b * 16777216 + low_num lh mod 16777216"
    "high_num lh = b * 16777216 + high_num lh mod 16777216" "b = low_num lh div 16777216"
  using assms unfolding same_top_iff by (metis div_mult_mod_eq)

lemma roll_width:
  assumes "proper lh" "same_top lh"
  shows "proper (roll lh)" "256 * (high_num lh - low_num lh) + 254 \<le> high_num (roll lh) - low_num (roll lh)"
    "high_num lh - low_num lh < 16777216"
proof -
  from same_top_split [OF assms(2)] obtain b where b: "low_num lh = b * 16777216 + low_num lh mod 16777216"
    "high_num lh = b * 16777216 + high_num lh mod 16777216" by metis
  have "low_num lh mod 16777216 \<le> high_num lh mod 16777216" "high_num lh mod 16777216 < 16777216"
    using assms(1) b unfolding proper_def by linarith+
  with b show "proper (roll lh)" "256 * (high_num lh - low_num lh) + 254 \<le> high_num (roll lh) - low_num (roll lh)"
    "high_num lh - low_num lh < 16777216"
    unfolding proper_def roll_num max_def by (simp_all split: if_split; linarith?)+
qed

lemma shifts_wide:
  assumes "proper lh" "0x10000 \<le> high_num lh - low_num lh" "2 \<le> n"
  shows "shifts n lh \<noteq> None"
proof -
  obtain m where n: "n = Suc (Suc m)" using assms(3) by (metis numeral_2_eq_2 Suc_le_D Suc_le_mono)
  have end_here: "shifts (Suc k) lh \<noteq> None"
    if "\<not> same_top lh" "proper lh" "0x10000 \<le> high_num lh - low_num lh" for k lh
    using that width [of lh] by (simp add: proper_def word_less_nat_alt shifts.simps(2))
  show ?thesis
  proof (cases "same_top lh")
    case True
    note r = roll_width [OF assms(1) True]
    have w: "0x10000 \<le> high_num (roll lh) - low_num (roll lh)" "\<not> high_num (roll lh) - low_num (roll lh) < 16777216"
      using r(2) assms(2) by linarith+
    from w(2) roll_width(3) [OF r(1)] have "\<not> same_top (roll lh)" by blast
    from end_here [OF this r(1) w(1), of m] True show ?thesis
      unfolding n shifts.simps(2) [of "Suc m" lh] by (auto split: option.splits)
  qed (use end_here assms n in blast)
qed



text \<open>A range that has been collapsed to a point fills up with the bytes shifted in.\<close>

definition agree :: "nat \<Rightarrow> 32 word \<times> 32 word \<Rightarrow> bool" where
  "agree k lh \<longleftrightarrow> low_num lh div 256 ^ k = high_num lh div 256 ^ k"

lemma mod_mult_div: "0 < a \<Longrightarrow> (m mod (a * b)) div a = m div a mod (b :: nat)"
  by (simp add: mod_mult2_eq)

lemma agree_roll:
  assumes "agree k lh" "k \<le> 3"
  shows "same_top lh" "agree (Suc k) (roll lh)"
proof -
  have pow: "(16777216 :: nat) = 256 ^ k * 256 ^ (3 - k)" using assms(2) by (simp flip: power_add)
  from assms(1) show "same_top lh"
    unfolding agree_def same_top_iff pow by (simp add: div_mult2_eq)
  have low: "low_num (roll lh) div 256 ^ Suc k = low_num lh mod 16777216 div 256 ^ k"
    unfolding roll_num by (cases "low_num lh mod 16777216 = 0") (simp_all add: max_def div_mult2_eq)
  have "high_num (roll lh) div 256 ^ Suc k = (256 * (high_num lh mod 16777216) + 255) div 256 div 256 ^ k"
    unfolding roll_num by (simp add: div_mult2_eq)
  then have high: "high_num (roll lh) div 256 ^ Suc k = high_num lh mod 16777216 div 256 ^ k" by simp
  show "agree (Suc k) (roll lh)"
    using assms(1) unfolding agree_def low high by (simp only: pow mod_mult_div zero_less_power zero_less_numeral)
qed

lemma shifts_roll: "same_top lh \<Longrightarrow> shifts n (roll lh) \<noteq> None \<Longrightarrow> shifts (Suc n) lh \<noteq> None"
  by (auto simp: shifts.simps(2))

lemma shifts_mono: "shifts n lh = Some r \<Longrightarrow> n \<le> m \<Longrightarrow> shifts m lh = Some r"
proof (induction n arbitrary: m lh r)
  case (Suc n)
  from Suc.prems(2) obtain k where m: "m = Suc k" "n \<le> k" by (cases m) auto
  note step = shifts.simps(2) [of _ lh]
  show ?case
  proof (cases "same_top lh")
    case True
    with Suc.prems(1) obtain bs lh' where r: "shifts n (roll lh) = Some (bs, lh')"
      "r = (ucast (drop_bit 24 (fst lh)) # bs, lh')" by (cases "shifts n (roll lh)") (auto simp: step)
    from Suc.IH [OF r(1) m(2)] have "shifts k (roll lh) = Some (bs, lh')" .
    with True r(2) show ?thesis unfolding m(1) step by simp
  next
    case False
    show ?thesis
    proof (cases "snd lh - fst lh < 0x10000")
      case True
      with Suc.prems(1) False have "shifts n (narrow lh) = Some r" unfolding step by simp
      from Suc.IH [OF this m(2)] False True show ?thesis unfolding m(1) step by simp
    next
      case close: False
      with Suc.prems(1) False show ?thesis unfolding m(1) step by simp
    qed
  qed
qed simp

lemma shifts_point:
  assumes "proper lh" "low_num lh = high_num lh"
  shows "shifts 5 lh \<noteq> None"
proof -
  have "agree 0 lh" using assms(2) by (simp add: agree_def)
  note a1 = agree_roll [OF this, simplified]
  note a2 = agree_roll [OF a1(2), simplified]
  note a3 = agree_roll [OF a2(2), simplified]
  note r1 = roll_width [OF assms(1) a1(1)] and r2 = roll_width [OF _ a2(1)] and r3 = roll_width [OF _ a3(1)]
  have "0x10000 \<le> high_num (roll (roll (roll lh))) - low_num (roll (roll (roll lh)))"
    using r1(2) r2(2) [OF r1(1)] r3(2) [OF r2(1) [OF r1(1)]] by linarith
  from shifts_wide [OF r3(1) [OF r2(1) [OF r1(1)]] this, of 2] a1(1) a2(1) a3(1)
  have "shifts (Suc (Suc (Suc 2))) lh \<noteq> None" by (intro shifts_roll) simp_all
  then show ?thesis by (simp add: numeral_eq_Suc)
qed

lemma shifts_narrow:
  assumes "\<not> same_top lh" "low_num lh \<le> high_num lh" "high_num lh - low_num lh < 0x10000"
  shows "shifts (Suc n) lh = shifts n (narrow lh)"
  using assms width [of lh] by (simp add: shifts.simps(2) word_less_nat_alt)

lemma not_same_top: "\<not> same_top lh \<Longrightarrow> proper lh \<Longrightarrow> low_num lh < high_num lh"
  by (auto simp: same_top_iff proper_def nat_less_le)

lemma shifts_roll_wide:
  assumes "proper lh" "same_top lh" "0x101 \<le> high_num lh - low_num lh" "3 \<le> n"
  shows "shifts n lh \<noteq> None"
proof -
  obtain m where m: "n = Suc m" "2 \<le> m" using assms(4) by (cases n) auto
  have "0x10000 \<le> high_num (roll lh) - low_num (roll lh)"
    using roll_width(2) [OF assms(1,2)] assms(3) by linarith
  from shifts_wide [OF roll_width(1) [OF assms(1,2)] this m(2)] show ?thesis
    unfolding m(1) by (rule shifts_roll [OF assms(2)])
qed

lemma shifts_close:
  assumes "proper lh" "\<not> same_top lh" "high_num lh - low_num lh \<le> 0x1000"
  shows "shifts 6 lh \<noteq> None"
proof -
  note less = not_same_top [OF assms(2,1)]
  have "proper (narrow lh)" "low_num (narrow lh) = high_num (narrow lh)"
    using narrow_inside(1) [OF _ less] narrow_num(3,4) [OF less] assms(1,3) by (simp_all add: proper_def)
  from shifts_point [OF this] shifts_narrow [OF assms(2), of 5] less assms(3)
  have "shifts (Suc 5) lh \<noteq> None" by simp
  then show ?thesis by simp
qed

lemma shifts_middle:
  assumes "proper lh" "\<not> same_top lh" "high_num lh - low_num lh < 0x10000"
  shows "shifts 7 lh \<noteq> None"
proof (cases "high_num lh - low_num lh \<le> 0x1000")
  case True
  from shifts_close [OF assms(1,2) this] shifts_mono [of 6 lh _ 7] show ?thesis by fastforce
next
  case False
  note less = not_same_top [OF assms(2,1)]
  have p: "proper (narrow lh)" using narrow_inside(1) [OF _ less] assms(1) by (simp add: proper_def)
  have "high_num (narrow lh) - low_num (narrow lh) = 0x1FE"
    using narrow_num(1,2) [OF less] False half_bounds [of "high_num lh"] half_bounds [of "low_num lh"] by linarith
  with shifts_close [OF p] shifts_roll_wide [OF p, of 6] have "shifts 6 (narrow lh) \<noteq> None" by fastforce
  with shifts_narrow [OF assms(2), of 6] less assms(3) have "shifts (Suc 6) lh \<noteq> None" by simp
  then show ?thesis by simp
qed

lemma shifts_8: 
  assumes "proper lh"
  shows "shifts 8 lh \<noteq> None"
proof -
  have not_same: "shifts 7 lh \<noteq> None" if "proper lh" "\<not> same_top lh" for lh
  proof (cases "high_num lh - low_num lh < 0x10000")
    case False
    with shifts_wide [OF that(1), of 7] show ?thesis by simp
  qed (rule shifts_middle [OF that])
  show ?thesis
  proof (cases "same_top lh")
    case False
    from not_same [OF assms this] shifts_mono [of 7 lh _ 8] show ?thesis by fastforce
  next
    case True
    note r = roll_width [OF assms True]
    show ?thesis
    proof (cases "low_num lh = high_num lh")
      case True
      from shifts_point [OF assms this] shifts_mono [of 5 lh _ 8] show ?thesis by fastforce
    next
      case False
      with r(2) assms have "0x101 \<le> high_num (roll lh) - low_num (roll lh)" unfolding proper_def by linarith
      with shifts_roll_wide [OF r(1), of 7] not_same [OF r(1)] have "shifts 7 (roll lh) \<noteq> None" by fastforce
      from shifts_roll [OF \<open>same_top lh\<close> this] show ?thesis by simp
    qed
  qed
qed


section \<open>The window on the coded bytes\<close>

text \<open>The number in the next four bytes of a stream, with zeros after its end.\<close>

definition byte_at :: "byte list \<Rightarrow> nat \<Rightarrow> nat" where
  "byte_at cs i = (if i < length cs then unat (cs ! i) else 0)"

definition window :: "byte list \<Rightarrow> nat" where
  "window cs = ((byte_at cs 0 * 256 + byte_at cs 1) * 256 + byte_at cs 2) * 256 + byte_at cs 3"

definition in_range :: "32 word \<times> 32 word \<Rightarrow> nat \<Rightarrow> bool" where
  "in_range lh v \<longleftrightarrow> low_num lh \<le> v \<and> v \<le> high_num lh"

lemma byte_at_less: "byte_at cs i < 256"
  using unsigned_less [of "cs ! i", where 'a = nat] by (simp add: byte_at_def)

lemma byte_at_Cons:
  "byte_at (c # cs) 0 = unat c" "byte_at (c # cs) 1 = byte_at cs 0"
  "byte_at (c # cs) 2 = byte_at cs 1" "byte_at (c # cs) 3 = byte_at cs 2"
  by (simp_all add: byte_at_def nth_Cons')

lemma window_Cons: "window (c # cs) = unat c * 16777216 + window cs div 256"
proof -
  have "window cs div 256 = (byte_at cs 0 * 256 + byte_at cs 1) * 256 + byte_at cs 2"
    using byte_at_less [of cs 3] by (simp add: window_def)
  then show ?thesis by (simp only: window_def byte_at_Cons) simp
qed

lemma roll_in_range:
  assumes "same_top lh" "in_range (roll lh) (window cs)"
  shows "in_range lh (window (ucast (drop_bit 24 (fst lh)) # cs))"
proof -
  from same_top_split [OF assms(1)] obtain b where b: "low_num lh = b * 16777216 + low_num lh mod 16777216"
    "high_num lh = b * 16777216 + high_num lh mod 16777216" "b = low_num lh div 16777216" .
  have "unat (drop_bit 24 (fst lh)) = b" by (simp add: b(3) low_num_def drop_bit_eq_div unat_div)
  moreover have "b < 256" using num_less(1) [of lh] b(3) by linarith
  ultimately have top: "unat (ucast (drop_bit 24 (fst lh)) :: byte) = b" by (simp add: unsigned_ucast_eq take_bit_eq_mod)
  from assms(2) have "256 * (low_num lh mod 16777216) \<le> window cs" "window cs \<le> 256 * (high_num lh mod 16777216) + 255"
    by (simp_all add: in_range_def roll_num)
  then have "low_num lh mod 16777216 \<le> window cs div 256" "window cs div 256 \<le> high_num lh mod 16777216" by linarith+
  with b(1,2) show ?thesis unfolding in_range_def window_Cons top by linarith
qed

lemma shifts_sound:
  assumes "shifts n lh = Some (bs, lh')" "proper lh"
  shows "wide lh'" "in_range lh' (window cs) \<Longrightarrow> in_range lh (window (bs @ cs))"
proof -
  have "wide lh' \<and> (in_range lh' (window cs) \<longrightarrow> in_range lh (window (bs @ cs)))"
    using assms
  proof (induction n arbitrary: lh bs)
    case (Suc n)
    note step = shifts.simps(2) [of n lh]
    show ?case
    proof (cases "same_top lh")
      case True
      with Suc.prems(1) obtain bs1 where r: "shifts n (roll lh) = Some (bs1, lh')"
        "bs = ucast (drop_bit 24 (fst lh)) # bs1" by (cases "shifts n (roll lh)") (auto simp: step)
      from Suc.IH [OF r(1) roll_width(1) [OF Suc.prems(2) True]] roll_in_range [OF True, of "bs1 @ cs"]
      show ?thesis by (simp add: r(2))
    next
      case False
      note less = not_same_top [OF this Suc.prems(2)]
      show ?thesis
      proof (cases "snd lh - fst lh < 0x10000")
        case True
        with Suc.prems(1) False have r: "shifts n (narrow lh) = Some (bs, lh')" unfolding step by simp
        from Suc.prems(2) have "1 \<le> low_num lh" by (simp add: proper_def)
        note ni = narrow_inside [OF this less]
        from Suc.IH [OF r ni(1)] ni(2,3) show ?thesis unfolding in_range_def by linarith
      next
        case wide: False
        with Suc.prems(1) False have r: "bs = []" "lh' = lh" unfolding step by simp_all
        from wide width [of lh] less have "0x10000 \<le> high_num lh - low_num lh" by (simp add: word_less_nat_alt)
        with less Suc.prems(2) show ?thesis by (simp add: r wide_def proper_def)
      qed
    qed
  qed simp
  then show "wide lh'" "in_range lh' (window cs) \<Longrightarrow> in_range lh (window (bs @ cs))" by blast+
qed

section \<open>Sequences of calls\<close>

text \<open>A call of \<open>encode\<close> has the arguments \<open>low_count\<close>, \<open>high_count\<close> and \<open>total\<close>; what the class requires of them.\<close>

type_synonym call = "32 word \<times> 32 word \<times> 32 word"

definition valid_call :: "call \<Rightarrow> bool" where
  "valid_call = (\<lambda>(l, h, t). l < h \<and> h \<le> t \<and> t < 65536)"

definition sub_range :: "32 word \<times> 32 word \<Rightarrow> call \<Rightarrow> 32 word \<times> 32 word" where
  "sub_range lh = (\<lambda>(l, h, t).
     let r = (snd lh - fst lh + 1) div t in (fst lh + r * l, fst lh + r * h - 1))"

lemma sub_range_num:
  assumes "wide lh" "valid_call (l, h, t)"
  defines "r \<equiv> (high_num lh - low_num lh + 1) div unat t"
  shows "unat ((snd lh - fst lh + 1) div t) = r" "0 < r"
    "low_num (sub_range lh (l, h, t)) = low_num lh + r * unat l"
    "high_num (sub_range lh (l, h, t)) = low_num lh + r * unat h - 1"
    "low_num lh + r * unat h \<le> high_num lh + 1" "unat l < unat h"
proof -
  have n: "unat l < unat h" "unat h \<le> unat t" "unat t < 65536" "0 < unat t"
    using assms(2) by (auto simp: valid_call_def word_less_nat_alt word_le_nat_alt)
  have w: "1 \<le> low_num lh" "low_num lh + 0x10000 \<le> high_num lh" "high_num lh < 4294967296"
    using assms(1) num_less by (simp_all add: wide_def)
  have "unat (snd lh - fst lh) = high_num lh - low_num lh" using w by (intro width) simp
  then have "unat (snd lh - fst lh + 1) = high_num lh - low_num lh + 1"
    using w by (subst unat_plus_if_size) (simp add: word_size)
  then show r: "unat ((snd lh - fst lh + 1) div t) = r" by (simp add: unat_div r_def)
  have "unat t * 1 \<le> high_num lh - low_num lh + 1" using n(3) w by simp
  then show pos: "0 < r" using n(4) unfolding r_def by (simp add: div_greater_zero_iff)
  have "r * unat h \<le> r * unat t" using n(2) by simp
  also have "\<dots> \<le> high_num lh - low_num lh + 1" unfolding r_def by (rule div_times_less_eq_dividend)
  finally have h: "r * unat h \<le> high_num lh - low_num lh + 1" .
  with w show "low_num lh + r * unat h \<le> high_num lh + 1" by simp
  have l: "r * unat l < r * unat h" using n(1) pos by simp
  show "unat l < unat h" by (rule n)
  have "fst lh + (snd lh - fst lh + 1) div t * l = of_nat (low_num lh + r * unat l)"
    by (simp add: low_num_def flip: r)
  moreover have "low_num lh + r * unat l < 4294967296" using h l w by linarith
  ultimately have "unat (fst lh + (snd lh - fst lh + 1) div t * l) = low_num lh + r * unat l"
    by (simp only: unat_of_nat) simp
  then show "low_num (sub_range lh (l, h, t)) = low_num lh + r * unat l"
    by (simp add: sub_range_def low_num_def Let_def)
  have "unat (fst lh + (snd lh - fst lh + 1) div t * h - 1) = low_num lh + r * unat h - 1"
  proof -
    have "fst lh + (snd lh - fst lh + 1) div t * h - 1 = of_nat (low_num lh + r * unat h - 1)"
    proof -
      have "of_nat (low_num lh + r * unat h) = fst lh + (snd lh - fst lh + 1) div t * h"
        by (simp add: low_num_def flip: r)
      moreover have "1 \<le> low_num lh + r * unat h" using w by simp
      ultimately show ?thesis by (subst of_nat_diff) simp_all
    qed
    then show ?thesis using h l w by (simp only: unat_of_nat) simp
  qed
  then show "high_num (sub_range lh (l, h, t)) = low_num lh + r * unat h - 1"
    by (simp add: sub_range_def high_num_def Let_def)
qed

lemma sub_range_inside:
  assumes "wide lh" "valid_call c"
  shows "proper (sub_range lh c)" "in_range (sub_range lh c) v \<Longrightarrow> in_range lh v"
proof -
  obtain l h t where c: "c = (l, h, t)" by (cases c)
  define r where "r = (high_num lh - low_num lh + 1) div unat t"
  note num = sub_range_num [OF assms(1) assms(2) [unfolded c], folded r_def c]
  have "r * unat l + r \<le> r * unat h" using mult_le_mono2 [of "unat l + 1" "unat h" r] num(6) by simp
  with num(2-5) assms(1) show "proper (sub_range lh c)" unfolding proper_def wide_def by linarith
  show "in_range lh v" if "in_range (sub_range lh c) v"
    using that num(3-5) unfolding in_range_def by linarith
qed

text \<open>The bytes that a sequence of calls shifts out, and the range it leaves.\<close>

fun range_code :: "32 word \<times> 32 word \<Rightarrow> call list \<Rightarrow> (byte list \<times> 32 word \<times> 32 word) option" where
  "range_code lh [] = Some ([], lh)"
| "range_code lh (c # cs) =
     (case shifts rounds (sub_range lh c) of
        None \<Rightarrow> None
      | Some (bs, lh) \<Rightarrow>
          (case range_code lh cs of None \<Rightarrow> None | Some (bs', lh') \<Rightarrow> Some (bs @ bs', lh')))"

lemma shifts_rounds: "proper lh \<Longrightarrow> \<exists>bs lh'. shifts rounds lh = Some (bs, lh')"
  using shifts_8 [of lh] shifts_mono [of 8 lh _ 16] by (fastforce simp: rounds_def)

lemma range_code_total:
  assumes "wide lh" "list_all valid_call ops"
  shows "\<exists>bs lh'. range_code lh ops = Some (bs, lh') \<and> wide lh'"
  using assms
proof (induction ops arbitrary: lh)
  case (Cons c ops)
  then obtain bs lh1 where s: "shifts rounds (sub_range lh c) = Some (bs, lh1)"
    using shifts_rounds [OF sub_range_inside(1) [of lh c]] by auto
  from shifts_sound(1) [OF s sub_range_inside(1)] Cons obtain bs' lh' where "range_code lh1 ops = Some (bs', lh')" "wide lh'"
    by fastforce
  with s show ?case by simp
qed simp

lemma range_code_sound:
  assumes "range_code lh ops = Some (bs, lh')" "wide lh" "list_all valid_call ops" "in_range lh' (window cs)"
  shows "in_range lh (window (bs @ cs))"
  using assms
proof (induction ops arbitrary: lh bs)
  case (Cons c ops)
  then obtain bs1 lh1 bs2 where s: "shifts rounds (sub_range lh c) = Some (bs1, lh1)"
    "range_code lh1 ops = Some (bs2, lh')" "bs = bs1 @ bs2" by (auto split: option.splits)
  have c: "wide lh" "valid_call c" using Cons.prems by simp_all
  note sound = shifts_sound [OF s(1) sub_range_inside(1) [OF c]]
  from Cons.IH [OF s(2) sound(1)] Cons.prems(3,4) have "in_range lh1 (window (bs2 @ cs))" by simp
  from sub_range_inside(2) [OF c sound(2) [OF this]] show ?case by (simp add: s(3))
qed simp



section \<open>What the encoder writes\<close>

definition enc_at :: "32 word \<times> 32 word \<Rightarrow> ostream \<Rightarrow> entropy_encoder" where
  "enc_at lh out = \<lparr>enc_out = Some out, enc_low = fst lh, enc_high = snd lh\<rparr>"

definition enc_emits ::
  "(entropy_encoder \<Rightarrow> ('a, entropy_encoder) io) \<Rightarrow> 32 word \<times> 32 word \<Rightarrow> byte list \<Rightarrow> 'a \<Rightarrow> 32 word \<times> 32 word \<Rightarrow> bool" where
  "enc_emits m lh bs x lh' \<longleftrightarrow> (\<forall>out.
     if length bs \<le> room out then m (enc_at lh out) = Returned x (enc_at lh' (put_bytes bs out))
     else throws (m (enc_at lh out)))"

lemma enc_emitsD:
  "enc_emits m lh bs x lh' \<Longrightarrow> length bs \<le> room out \<Longrightarrow> m (enc_at lh out) = Returned x (enc_at lh' (put_bytes bs out))"
  "enc_emits m lh bs x lh' \<Longrightarrow> room out < length bs \<Longrightarrow> throws (m (enc_at lh out))"
  by (simp_all add: enc_emits_def)

lemma enc_emits_Returned: "enc_emits (Returned x) lh [] x lh"
  by (simp add: enc_emits_def)

lemma enc_emits_bind:
  assumes "enc_emits m lh bs x lh1" "enc_emits (f x) lh1 cs y lh2"
  shows "enc_emits (bind_io m f) lh (bs @ cs) y lh2"
  unfolding enc_emits_def
proof
  fix out :: ostream
  show "if length (bs @ cs) \<le> room out
    then bind_io m f (enc_at lh out) = Returned y (enc_at lh2 (put_bytes (bs @ cs) out))
    else throws (bind_io m f (enc_at lh out))"
  proof (cases "length bs \<le> room out")
    case True
    from enc_emitsD(1) [OF assms(1) True] enc_emitsD [OF assms(2), of "put_bytes bs out"] True show ?thesis by auto
  next
    case False
    with enc_emitsD(2) [OF assms(1)] show ?thesis by auto
  qed
qed

lemma enc_emits_put: "enc_emits (enc_put b) lh [b] () lh"
  unfolding enc_emits_def
proof
  fix out :: ostream
  show "if length [b] \<le> room out then enc_put b (enc_at lh out) = Returned () (enc_at lh (put_bytes [b] out))
    else throws (enc_put b (enc_at lh out))"
    using sputn_fits [of "[b]" out] by (auto simp: enc_put_def enc_at_def sputn_def Let_def)
qed

lemma set_range_enc_at [simp]:
  "set_range lh' (enc_at lh out) = enc_at lh' out" "enc_range (enc_at lh out) = lh"
  "enc_low (enc_at lh out) = fst lh" "enc_high (enc_at lh out) = snd lh" "enc_out (enc_at lh out) = Some out"
  by (simp_all add: set_range_def enc_at_def split: prod.split)

lemma enc_emits_loop: "shifts n lh = Some (bs, lh') \<Longrightarrow> enc_emits (enc_loop n) lh bs () lh'"
proof (induction n arbitrary: lh bs)
  case (Suc n)
  note step = shifts.simps(2) [of n lh]
  show ?case
  proof (cases "same_top lh")
    case True
    with Suc.prems obtain bs1 where r: "shifts n (roll lh) = Some (bs1, lh')"
      "bs = ucast (drop_bit 24 (fst lh)) # bs1" by (cases "shifts n (roll lh)") (auto simp: step)
    let ?b = "ucast (drop_bit 24 (fst lh)) :: byte"
    have "enc_emits (bind_io (enc_put ?b) (\<lambda>_. enc_loop n)) (roll lh) ([?b] @ bs1) () lh'"
      by (rule enc_emits_bind [OF enc_emits_put]) (rule Suc.IH [OF r(1)])
    with True show ?thesis by (simp add: enc_emits_def r(2) Let_def)
  next
    case False
    show ?thesis
    proof (cases "snd lh - fst lh < 0x10000")
      case True
      with Suc.prems False have "shifts n (narrow lh) = Some (bs, lh')" unfolding step by simp
      from Suc.IH [OF this] True False show ?thesis by (simp add: enc_emits_def)
    next
      case close: False
      with Suc.prems False have r: "bs = []" "lh' = lh" unfolding step by simp_all
      from close False show ?thesis by (simp add: r enc_emits_def)
    qed
  qed
qed simp

fun run_calls :: "(32 word \<Rightarrow> 32 word \<Rightarrow> 32 word \<Rightarrow> 'c \<Rightarrow> (unit, 'c) io) \<Rightarrow> call list \<Rightarrow> 'c \<Rightarrow> (unit, 'c) io" where
  "run_calls enc [] = Returned ()"
| "run_calls enc ((l, h, t) # ops) = bind_io (enc l h t) (\<lambda>_. run_calls enc ops)"

lemma enc_emits_encode:
  assumes "shifts rounds (sub_range lh (l, h, t)) = Some (bs, lh')" "valid_call (l, h, t)"
  shows "enc_emits (enc_encode l h t) lh bs () lh'"
proof -
  have "t \<noteq> 0" using assms(2) by (auto simp: valid_call_def)
  then show ?thesis
    using enc_emits_loop [OF assms(1)]
    by (simp add: enc_emits_def enc_encode_def Let_def sub_range_def)
qed

lemma enc_emits_calls:
  assumes "range_code lh ops = Some (bs, lh')" "list_all valid_call ops"
  shows "enc_emits (run_calls enc_encode ops) lh bs () lh'"
  using assms
proof (induction ops arbitrary: lh bs)
  case (Cons c ops)
  obtain l h t where c: "c = (l, h, t)" by (cases c)
  from Cons.prems(1) obtain bs1 lh1 bs2 where s: "shifts rounds (sub_range lh c) = Some (bs1, lh1)"
    "range_code lh1 ops = Some (bs2, lh')" "bs = bs1 @ bs2" by (auto split: option.splits)
  from Cons.prems(2) have v: "valid_call (l, h, t)" "list_all valid_call ops" by (simp_all add: c)
  show ?case unfolding s(3) c run_calls.simps
    by (rule enc_emits_bind [OF enc_emits_encode [OF s(1) [unfolded c] v(1)] Cons.IH [OF s(2) v(2)]])
qed (simp add: enc_emits_Returned)

definition flush_bytes :: "32 word \<times> 32 word \<Rightarrow> byte list" where
  "flush_bytes lh = map (\<lambda>n. ucast (drop_bit n (fst lh) AND 0xFF)) [24, 16, 8, 0]"

lemma enc_emits_flush: "enc_emits enc_flush lh (flush_bytes lh) () (initial_low, initial_high)"
proof -
  let ?b = "\<lambda>n. ucast (drop_bit n (fst lh) AND 0xFF) :: byte"
  let ?reset = "\<lambda>s. Returned () (s\<lparr>enc_low := initial_low, enc_high := initial_high\<rparr>)"
  have reset: "enc_emits ?reset lh [] () (initial_low, initial_high)"
    by (simp add: enc_emits_def enc_at_def)
  have "enc_emits (bind_io (enc_put (?b 24)) (\<lambda>_. bind_io (enc_put (?b 16)) (\<lambda>_. bind_io (enc_put (?b 8)) (\<lambda>_.
      bind_io (enc_put (?b 0)) (\<lambda>_. ?reset))))) lh ([?b 24] @ [?b 16] @ [?b 8] @ [?b 0] @ []) () (initial_low, initial_high)"
    by (rule enc_emits_bind [OF enc_emits_put], rule enc_emits_bind [OF enc_emits_put],
      rule enc_emits_bind [OF enc_emits_put], rule enc_emits_bind [OF enc_emits_put], rule reset)
  then show ?thesis by (simp add: enc_emits_def enc_flush_def flush_bytes_def)
qed

lemma window_flush: "window (flush_bytes lh @ cs) = low_num lh"
proof -
  have m: "(0xFF :: 32 word) = mask 8" by (simp add: mask_eq_decr_exp)
  have b: "unat (ucast (drop_bit n x AND 0xFF) :: byte) = unat x div 2 ^ n mod 256" for n and x :: "32 word"
  proof -
    have "drop_bit n x AND 0xFF = take_bit 8 (drop_bit n x)" unfolding m by (simp only: take_bit_eq_mask)
    then have "unat (ucast (drop_bit n x AND 0xFF) :: byte) = take_bit 8 (take_bit 8 (unat (drop_bit n x)))"
      by (simp only: unsigned_ucast_eq unsigned_take_bit_eq) simp
    also have "\<dots> = unat x div 2 ^ n mod 256"
      by (simp only: unat_drop_bit_eq) (simp add: take_bit_eq_mod drop_bit_eq_div)
    finally show ?thesis .
  qed
  have four: "v = ((v div 16777216 mod 256 * 256 + v div 65536 mod 256) * 256 + v div 256 mod 256) * 256 + v mod 256"
    if "v < 4294967296" for v :: nat
  proof -
    have d: "v div 65536 = v div 256 div 256" "v div 16777216 = v div 256 div 256 div 256"
      by (simp_all flip: div_mult2_eq)
    have "v div 16777216 < 256" using that by linarith
    then have "v div 16777216 mod 256 = v div 16777216" by simp
    then show ?thesis by (simp only: d div_mult_mod_eq)
  qed
  show ?thesis
    using four [OF num_less(1) [of lh]] b [of 24 "fst lh"] b [of 16 "fst lh"] b [of 8 "fst lh"] b [of 0 "fst lh"]
    by (simp add: window_def byte_at_def flush_bytes_def low_num_def)
qed

section \<open>What the decoder reads\<close>

text \<open>
  \<open>sees d cs\<close>: the bytes \<open>cs\<close> lie ahead of the decoder \<open>d\<close>, the first four of them in \<open>target\<close>.
\<close>

definition sees :: "entropy_decoder \<Rightarrow> byte list \<Rightarrow> bool" where
  "sees d cs \<longleftrightarrow> unat (dec_target d) = window cs \<and> (\<exists>i. dec_in d = Some i \<and> source i = drop 4 cs)"

lemma window_drop: "window (drop (Suc 0) cs) = 256 * (window cs mod 16777216) + byte_at cs 4"
proof -
  have b: "byte_at (drop (Suc 0) cs) 0 = byte_at cs 1" "byte_at (drop (Suc 0) cs) 1 = byte_at cs 2"
    "byte_at (drop (Suc 0) cs) 2 = byte_at cs 3" "byte_at (drop (Suc 0) cs) 3 = byte_at cs 4"
    by (cases cs; simp add: byte_at_def nth_Cons')+
  have w: "window (drop (Suc 0) cs) = ((byte_at cs 1 * 256 + byte_at cs 2) * 256 + byte_at cs 3) * 256 + byte_at cs 4"
    by (simp only: window_def b)
  have "window cs = byte_at cs 0 * 16777216 + ((byte_at cs 1 * 256 + byte_at cs 2) * 256 + byte_at cs 3)"
    by (simp add: window_def)
  then have "window cs mod 16777216 = (byte_at cs 1 * 256 + byte_at cs 2) * 256 + byte_at cs 3"
    using byte_at_less [of cs 1] byte_at_less [of cs 2] byte_at_less [of cs 3] by simp
  with w show ?thesis by simp
qed

lemma unat_push_byte:
  "unat (push_bit 8 x OR ucast (b :: byte) :: 32 word) = 256 * (unat x mod 16777216) + unat b"
proof -
  have p: "unat (push_bit 8 x) = 256 * (unat x mod 16777216)"
  proof -
    have "push_bit 8 x = of_nat (256 * unat x)" by (simp add: push_bit_eq_mult)
    then have "unat (push_bit 8 x) = 256 * unat x mod 4294967296" by (simp only: unat_of_nat) simp
    then show ?thesis using mult_mod_right [of 256 "unat x" 16777216] by simp
  qed
  have b: "unat b < 256" using unsigned_less [of b, where 'a = nat] by simp
  then have u: "unat (ucast b :: 32 word) = unat b" by (simp add: unsigned_ucast_eq take_bit_eq_mod)
  have "push_bit 8 x OR ucast b = push_bit 8 x + (ucast b :: 32 word)"
    by (rule disjunctive_add [symmetric]) (auto simp: bit_simps dest: bit_imp_le_length)
  moreover have "unat (push_bit 8 x) + unat (ucast b :: 32 word) < 4294967296"
    using p u b mod_less_divisor [of 16777216 "unat x"] by linarith
  ultimately show ?thesis using p u by (simp add: unat_plus_if_size word_size)
qed

lemma sees_shift:
  assumes "sees d cs" "dec_in d = Some i"
  defines "buf \<equiv> if source i = [] then 0 else hd (source i)"
  shows "sees (d\<lparr>dec_in := Some (i\<lparr>source := drop (Suc 0) (source i)\<rparr>), dec_low := l, dec_high := h,
    dec_target := push_bit 8 (dec_target d) OR ucast buf\<rparr>) (drop (Suc 0) cs)"
proof -
  from assms(1,2) have s: "source i = drop 4 cs" "unat (dec_target d) = window cs" by (auto simp: sees_def)
  have "unat buf = byte_at cs 4" by (auto simp: buf_def s(1) byte_at_def hd_drop_conv_nth hd_conv_nth)
  with s show ?thesis by (simp add: sees_def unat_push_byte window_drop)
qed

lemma dec_loop_sees:
  assumes "shifts n (dec_range d) = Some (bs, lh')" "sees d cs"
  shows "\<exists>d'. dec_loop n d = Returned () d' \<and> dec_range d' = lh' \<and> sees d' (drop (length bs) cs)"
  using assms
proof (induction n arbitrary: d bs cs)
  case (Suc n)
  note step = shifts.simps(2) [of n "dec_range d"]
  show ?case
  proof (cases "same_top (dec_range d)")
    case True
    with Suc.prems(1) obtain bs1 where r: "shifts n (roll (dec_range d)) = Some (bs1, lh')"
      "bs = ucast (drop_bit 24 (dec_low d)) # bs1" by (cases "shifts n (roll (dec_range d))") (auto simp: step)
    from Suc.prems(2) obtain i where i: "dec_in d = Some i" by (auto simp: sees_def)
    obtain l h where lh: "roll (dec_range d) = (l, h)" by (cases "roll (dec_range d)")
    let ?d = "d\<lparr>dec_in := Some (i\<lparr>source := drop (Suc 0) (source i)\<rparr>), dec_low := l, dec_high := h,
      dec_target := push_bit 8 (dec_target d) OR ucast (if source i = [] then 0 else hd (source i))\<rparr>"
    have "shifts n (dec_range ?d) = Some (bs1, lh')" using r(1) by (simp add: lh)
    from Suc.IH [OF this sees_shift [OF Suc.prems(2) i]] obtain d' where
      "dec_loop n ?d = Returned () d'" "dec_range d' = lh'" "sees d' (drop (length bs) cs)" by (auto simp: r(2))
    with True show ?thesis by (cases "source i = []") (simp_all add: i lh sgetn_def)
  next
    case False
    show ?thesis
    proof (cases "dec_high d - dec_low d < 0x10000")
      case True
      obtain l h where lh: "narrow (dec_range d) = (l, h)" by (cases "narrow (dec_range d)")
      from True Suc.prems False have "shifts n (dec_range (d\<lparr>dec_low := l, dec_high := h\<rparr>)) = Some (bs, lh')"
        "sees (d\<lparr>dec_low := l, dec_high := h\<rparr>) cs" unfolding step by (simp_all add: lh sees_def)
      from Suc.IH [OF this] True False show ?thesis by (simp add: lh)
    next
      case close: False
      with Suc.prems False show ?thesis unfolding step by simp
    qed
  qed
qed simp

text \<open>The decoder is at the place of a stream at which the calls \<open>ops\<close> are coded.\<close>

definition ahead :: "entropy_decoder \<Rightarrow> call list \<Rightarrow> bool" where
  "ahead d ops \<longleftrightarrow> wide (dec_range d) \<and> list_all valid_call ops \<and>
     (\<exists>bs lh cs. range_code (dec_range d) ops = Some (bs, lh) \<and> in_range lh (window cs) \<and> sees d (bs @ cs))"

lemma ahead_decodes:
  assumes "ahead d ((l, h, t) # ops)"
  shows "\<exists>x d1 d2. dec_get_target t d = Returned x d1 \<and> l \<le> x \<and> x < h \<and>
    dec_decode l h d1 = Returned () d2 \<and> ahead d2 ops"
proof -
  from assms obtain bs1 lh1 bs2 lh cs where
    s: "shifts rounds (sub_range (dec_range d) (l, h, t)) = Some (bs1, lh1)" "range_code lh1 ops = Some (bs2, lh)"
    and cs: "in_range lh (window cs)" "sees d (bs1 @ bs2 @ cs)" and w: "wide (dec_range d)"
    and v: "valid_call (l, h, t)" "list_all valid_call ops"
    by (auto simp: ahead_def split: option.splits)
  define r where "r = (high_num (dec_range d) - low_num (dec_range d) + 1) div unat t"
  note num = sub_range_num [OF w v(1), folded r_def]
  note sound = shifts_sound [OF s(1) sub_range_inside(1) [OF w v(1)]]
  have "in_range (sub_range (dec_range d) (l, h, t)) (window (bs1 @ bs2 @ cs))"
    by (rule sound(2)) (rule range_code_sound [OF s(2) sound(1) v(2) cs(1)])
  then have "low_num (sub_range (dec_range d) (l, h, t)) \<le> unat (dec_target d)"
    "unat (dec_target d) \<le> high_num (sub_range (dec_range d) (l, h, t))"
    using cs(2) unfolding in_range_def sees_def by auto
  moreover have "1 \<le> low_num (dec_range d)" using w by (simp add: wide_def)
  ultimately have tgt: "low_num (dec_range d) + r * unat l \<le> unat (dec_target d)"
    "unat (dec_target d) < low_num (dec_range d) + r * unat h"
    unfolding num(3,4) by linarith+
  let ?q = "(dec_high d - dec_low d + 1) div t"
  let ?x = "(dec_target d - dec_low d) div ?q"
  have q: "unat ?q = r" "0 < r" using num(1,2) by simp_all
  have diff: "unat (dec_target d - dec_low d) = unat (dec_target d) - low_num (dec_range d)"
    using tgt(1) by (simp add: low_num_def unat_sub word_le_nat_alt)
  have x: "unat ?x = (unat (dec_target d) - low_num (dec_range d)) div r" by (simp only: unat_div [of _ ?q] q(1) diff)
  have "unat l \<le> unat ?x" unfolding x using tgt(1) q(2) by (simp add: less_eq_div_iff_mult_less_eq mult.commute)
  moreover have "unat ?x < unat h" unfolding x using tgt q(2) by (simp add: div_less_iff_less_mult mult.commute)
  ultimately have xlh: "l \<le> ?x" "?x < h" by (simp_all add: word_le_nat_alt word_less_nat_alt)
  have t: "t \<noteq> 0" "?x < t" using v(1) xlh by (auto simp: valid_call_def)
  have "?q \<noteq> 0" using q by auto
  with t have get: "dec_get_target t d = Returned ?x (d\<lparr>dec_r := ?q\<rparr>)" by (simp add: dec_get_target_def Let_def)
  let ?d = "d\<lparr>dec_high := dec_low d + ?q * h - 1, dec_low := dec_low d + ?q * l, dec_r := 0\<rparr>"
  have "shifts rounds (dec_range ?d) = Some (bs1, lh1)" using s(1) by (simp add: sub_range_def Let_def)
  moreover have "sees ?d (bs1 @ bs2 @ cs)" using cs(2) by (simp add: sees_def)
  ultimately obtain d2 where d2: "dec_loop rounds ?d = Returned () d2" "dec_range d2 = lh1" "sees d2 (bs2 @ cs)"
    using dec_loop_sees [of rounds ?d bs1 lh1 "bs1 @ bs2 @ cs"] by auto
  have "dec_decode l h (d\<lparr>dec_r := ?q\<rparr>) = Returned () d2" using d2(1) by (simp add: dec_decode_def)
  moreover have "ahead d2 ops" using d2(2,3) s(2) cs(1) sound(1) v(2) by (auto simp: ahead_def)
  ultimately show ?thesis using get xlh by blast
qed

lemma sees_set_stream:
  assumes "4 \<le> length cs"
  shows "sees (dec_set_stream ch (holding cs) d) cs"
proof -
  from assms obtain a cs1 where cs: "cs = a # cs1" by (cases cs) auto
  with assms obtain b cs2 where cs1: "cs1 = b # cs2" by (cases cs1) auto
  with assms cs obtain c cs3 where cs2: "cs2 = c # cs3" by (cases cs2) auto
  with assms cs cs1 obtain e cs4 where cs3: "cs3 = e # cs4" by (cases cs3) auto
  have plus: "push_bit 8 x + ucast b = push_bit 8 x OR (ucast b :: 32 word)" for x :: "32 word" and b :: byte
    by (rule disjunctive_add) (auto simp: bit_simps dest: bit_imp_le_length)
  have get: "sgetn 1 (holding (b # bs)) = (holding bs, [b])" for b bs by (simp add: sgetn_def)
  have shift: "shift_in (x, holding (b # bs)) = (push_bit 8 x OR ucast b, holding bs)" for x b bs
    by (simp only: shift_in_def prod.case get list.distinct if_False list.sel plus)
  let ?t = "push_bit 8 (push_bit 8 (push_bit 8 (ucast a) OR ucast b) OR ucast c) OR ucast e :: 32 word"
  have d: "dec_set_stream ch (holding cs) d =
      \<lparr>dec_in = Some (holding cs4), dec_low = initial_low, dec_high = initial_high, dec_target = ?t, dec_r = 0\<rparr>"
    unfolding cs cs1 cs2 cs3 dec_set_stream_def
    by (simp only: get shift prod.case Let_def list.distinct if_False list.sel)
  have less: "unat x < 256" for x :: byte using unsigned_less [of x, where 'a = nat] by simp
  have a: "unat (ucast a :: 32 word) = unat a" using less [of a] by (simp add: unsigned_ucast_eq take_bit_eq_mod)
  have "unat ?t = 256 * ((256 * ((256 * (unat a mod 16777216) + unat b) mod 16777216) + unat c) mod 16777216) + unat e"
    by (simp only: unat_push_byte a)
  also have "\<dots> = ((unat a * 256 + unat b) * 256 + unat c) * 256 + unat e"
    using less [of a] less [of b] less [of c] by simp
  finally show ?thesis by (simp only: d sees_def) (simp add: window_def byte_at_def cs cs1 cs2 cs3)
qed

section \<open>The contract of a decoder\<close>

text \<open>
  What the statistical models ask of a decoder: where a call is coded ahead, \<open>get_target\<close> finds a number inside of its
  counts, and \<open>decode\<close> with these counts moves on.
\<close>

locale entropy_coding =
  fixes get_target :: "32 word \<Rightarrow> 'd \<Rightarrow> (32 word, 'd) io"
    and decode :: "32 word \<Rightarrow> 32 word \<Rightarrow> 'd \<Rightarrow> (unit, 'd) io"
    and coded :: "'d \<Rightarrow> call list \<Rightarrow> bool"
  assumes decodes: "coded d ((l, h, t) # ops) \<Longrightarrow>
    \<exists>x d1 d2. get_target t d = Returned x d1 \<and> l \<le> x \<and> x < h \<and> decode l h d1 = Returned () d2 \<and> coded d2 ops"

interpretation range_decoder: entropy_coding dec_get_target dec_decode ahead
  by unfold_locales (rule ahead_decodes)

section \<open>Properties\<close>

definition encode_calls :: "call list \<Rightarrow> ostream \<Rightarrow> (ostream option, entropy_encoder) io" where
  "encode_calls ops out =
     bind_io (enc_set_stream out) (\<lambda>_. bind_io (run_calls enc_encode ops) (\<lambda>_. enc_clear)) entropy_encoder_init"

fun finds_calls :: "call list \<Rightarrow> entropy_decoder \<Rightarrow> bool" where
  "finds_calls [] d \<longleftrightarrow> True"
| "finds_calls ((l, h, t) # ops) d \<longleftrightarrow>
     (case dec_get_target t d of
        Returned x d \<Rightarrow> l \<le> x \<and> x < h \<and> (case dec_decode l h d of Returned _ d \<Rightarrow> finds_calls ops d | _ \<Rightarrow> False)
      | _ \<Rightarrow> False)"

lemma ahead_finds_calls: "ahead d ops \<Longrightarrow> finds_calls ops d"
proof (induction ops arbitrary: d)
  case (Cons c ops)
  obtain l h t where c: "c = (l, h, t)" by (cases c)
  from range_decoder.decodes [OF Cons.prems [unfolded c]] Cons.IH show ?case by (auto simp: c)
qed simp

lemma initial_wide: "wide (initial_low, initial_high)"
  by (simp add: wide_def low_num_def high_num_def initial_low_def initial_high_def)

lemma calls_coded:
  assumes "list_all valid_call ops"
  shows "\<exists>bs lh. enc_emits (run_calls enc_encode ops) (initial_low, initial_high) bs () lh \<and>
    (\<forall>ch d rest. ahead (dec_set_stream ch (holding (bs @ flush_bytes lh @ rest)) d) ops)"
proof -
  from range_code_total [OF initial_wide assms] obtain bs lh where
    bs: "range_code (initial_low, initial_high) ops = Some (bs, lh)" "wide lh" by blast
  have "ahead (dec_set_stream ch (holding (bs @ flush_bytes lh @ rest)) d) ops" for ch d rest
  proof -
    have "sees (dec_set_stream ch (holding (bs @ flush_bytes lh @ rest)) d) (bs @ flush_bytes lh @ rest)"
      by (rule sees_set_stream) (simp add: flush_bytes_def)
    moreover have "dec_range (dec_set_stream ch i d) = (initial_low, initial_high)" for i
      by (simp add: dec_set_stream_def Let_def split: prod.splits)
    moreover have "in_range lh (window (flush_bytes lh @ rest))"
      unfolding window_flush in_range_def using bs(2) by (simp add: wide_def)
    ultimately show ?thesis using bs(1) initial_wide assms unfolding ahead_def by metis
  qed
  with enc_emits_calls [OF bs(1) assms] show ?thesis by blast
qed

text \<open>
  C19. The range coder: any sequence of calls within the requirements of \<open>encode\<close> is written as some bytes, or a call throws if the stream has
  no room for them; the decoder on a stream that starts with these bytes finds, call after call, a target inside
  of the counts that were encoded, whatever follows.
\<close>

theorem range_coder_round_trip:
  assumes "list_all valid_call ops"
  shows "\<exists>bs. (\<forall>out. if length bs \<le> room out
        then \<exists>s. encode_calls ops out = Returned (Some (put_bytes bs out)) s \<and> \<not> enc_stream_is_set s
        else throws (encode_calls ops out)) \<and>
    (\<forall>rest ch. finds_calls ops (dec_set_stream ch (holding (bs @ rest)) entropy_decoder_init))"
proof -
  from calls_coded [OF assms] obtain bs lh where
    bs: "enc_emits (run_calls enc_encode ops) (initial_low, initial_high) bs () lh"
    "\<And>ch d rest. ahead (dec_set_stream ch (holding (bs @ flush_bytes lh @ rest)) d) ops" by blast
  have set: "encode_calls ops out = bind_io (run_calls enc_encode ops) (\<lambda>_. enc_clear) (enc_at (initial_low, initial_high) out)" for out
    by (simp add: encode_calls_def enc_set_stream_def entropy_encoder_init_def enc_at_def bind_io.simps)
  have clear: "enc_clear (enc_at lh out) =
      bind_io enc_flush (\<lambda>_ s. Returned (enc_out s) (s\<lparr>enc_out := None\<rparr>)) (enc_at lh out)" for out
    by (simp add: enc_clear_def bind_io.simps enc_at_def)
  have "if length (bs @ flush_bytes lh) \<le> room out
        then \<exists>s. encode_calls ops out = Returned (Some (put_bytes (bs @ flush_bytes lh) out)) s \<and> \<not> enc_stream_is_set s
        else throws (encode_calls ops out)" for out
  proof (cases "length bs \<le> room out")
    case True
    from enc_emitsD(1) [OF bs(1) True] enc_emitsD [OF enc_emits_flush [of lh], where out = "put_bytes bs out"] True show ?thesis
      by (auto simp: set clear enc_stream_is_set_def)
  next
    case False
    with enc_emitsD(2) [OF bs(1)] show ?thesis by (auto simp: set)
  qed
  moreover have "finds_calls ops (dec_set_stream ch (holding ((bs @ flush_bytes lh) @ rest)) entropy_decoder_init)" for rest ch
    using ahead_finds_calls [OF bs(2)] by simp
  ultimately show ?thesis by blast
qed

theorem range_coder_round_trip_witness:
  "\<exists>bs. (\<forall>out. if length bs \<le> room out
        then \<exists>s. encode_calls [(3, 7, 10), (0, 1, 8000)] out = Returned (Some (put_bytes bs out)) s \<and> \<not> enc_stream_is_set s
        else throws (encode_calls [(3, 7, 10), (0, 1, 8000)] out)) \<and>
    (\<forall>rest ch. finds_calls [(3, 7, 10), (0, 1, 8000)] (dec_set_stream ch (holding (bs @ rest)) entropy_decoder_init))"
  by (rule range_coder_round_trip) (simp add: valid_call_def)

end
