(* ===== verification/Ppm_Model.thy ===== *)
theory Ppm_Model
  imports Entropy_Coder
begin

text \<open>
  The statistical models of order n, \<open>entropy_encoder_model/entropy_encoder_model_kernel_5.h\<close> and
  \<open>entropy_decoder_model/entropy_decoder_model_kernel_5.h\<close> (prediction by partial matching): the nodes and the operations
  that the two classes have in common, word for word, and the functions \<open>encode\<close> and \<open>decode\<close>.
\<close>

unbundle bit_operations_syntax

section \<open>The nodes\<close>

text \<open>
  A node is an element of an array, and a pointer to it its index; the root is the element 0. \<open>None\<close> is the null
  pointer. \<open>nodes\<close> of a new model is whatever the memory holds.
\<close>

record ppm_node =
  n_next :: "nat option"
  n_child :: "nat option"
  n_parent :: "nat option"
  n_symbol :: "16 word"
  n_count :: "16 word"
  n_total :: "16 word"
  n_escapes :: "16 word"

record ppm =
  next_node :: nat
  nodes :: "nat \<Rightarrow> ppm_node"
  cur :: "nat option"
  cur_order :: nat
  exc :: "64 word list"
  exc_used :: bool
  stack :: "(nat \<times> nat) list"

text \<open>The template arguments.\<close>

record ppm_size =
  alphabet_size :: nat
  total_nodes :: nat
  order :: nat

definition on_node :: "nat \<Rightarrow> (ppm_node \<Rightarrow> ppm_node) \<Rightarrow> ppm \<Rightarrow> ppm" where
  "on_node a f m = m\<lparr>nodes := (nodes m)(a := f (nodes m a))\<rparr>"

definition space_left :: "ppm_size \<Rightarrow> ppm \<Rightarrow> bool" where
  "space_left k m \<longleftrightarrow> next_node m < total_nodes k"

definition allocate_node :: "ppm \<Rightarrow> nat \<times> ppm" where
  "allocate_node m = (next_node m, m\<lparr>next_node := next_node m + 1\<rparr>)"

section \<open>Exclusions\<close>

definition clear_exclusions :: "ppm_size \<Rightarrow> ppm \<Rightarrow> ppm" where
  "clear_exclusions k m = m\<lparr>exc_used := False, exc := replicate (alphabet_size k div 32 + 1) 0\<rparr>"

definition exc_bit :: "16 word \<Rightarrow> 64 word" where
  "exc_bit symbol = push_bit (unat (symbol AND 0x1F)) 1"

definition exclude :: "16 word \<Rightarrow> ppm \<Rightarrow> ppm option" where
  "exclude symbol m =
     (let i = unat (drop_bit 5 symbol)
      in if i < length (exc m)
         then Some (m\<lparr>exc_used := True, exc := (exc m)[i := exc m ! i OR exc_bit symbol]\<rparr>)
         else None)"

definition is_excluded :: "16 word \<Rightarrow> ppm \<Rightarrow> bool option" where
  "is_excluded symbol m =
     (let i = unat (drop_bit 5 symbol)
      in if i < length (exc m) then Some (exc m ! i AND exc_bit symbol \<noteq> 0) else None)"

definition something_is_excluded :: "ppm \<Rightarrow> bool" where
  "something_is_excluded m \<longleftrightarrow> exc_used m"

section \<open>The stack\<close>

text \<open>An array of \<open>order + 1\<close> pairs; the list has the top first.\<close>

definition push :: "ppm_size \<Rightarrow> nat \<Rightarrow> nat \<Rightarrow> ppm \<Rightarrow> ppm option" where
  "push k n nc m = (if length (stack m) < order k + 1 then Some (m\<lparr>stack := (n, nc) # stack m\<rparr>) else None)"

section \<open>Counts\<close>

definition halve :: "16 word \<Rightarrow> 16 word" where
  "halve x = (if x > 1 then drop_bit 1 x else x)"

text \<open>
  The functions that follow a chain of nodes get the number of steps as an argument, and are \<open>None\<close> when it
  does not suffice; a chain has no more nodes than the array.
\<close>

fun scale_loop :: "nat \<Rightarrow> nat option \<Rightarrow> nat \<Rightarrow> ppm \<Rightarrow> ppm option" where
  "scale_loop fuel None temp m = Some m"
| "scale_loop 0 (Some n) temp m = None"
| "scale_loop (Suc fuel) (Some n) temp m =
     (let m = on_node n (\<lambda>x. x\<lparr>n_count := halve (n_count x)\<rparr>) m;
          m = on_node temp (\<lambda>x. x\<lparr>n_total := n_total x + n_count (nodes m n)\<rparr>) m
      in scale_loop fuel (n_next (nodes m n)) temp m)"

definition scale_counts :: "ppm_size \<Rightarrow> nat \<Rightarrow> ppm \<Rightarrow> ppm option" where
  "scale_counts k temp m =
     (let m = on_node temp (\<lambda>x. x\<lparr>n_escapes := halve (n_escapes x), n_total := halve (n_escapes x)\<rparr>) m
      in scale_loop (total_nodes k) (n_child (nodes m temp)) temp m)"

section \<open>The object\<close>

definition ppm_init :: "ppm_size \<Rightarrow> (nat \<Rightarrow> ppm_node) \<Rightarrow> 64 word list \<Rightarrow> ppm" where
  "ppm_init k memory junk =
     clear_exclusions k
       (on_node 0 (\<lambda>x. x\<lparr>n_child := None, n_escapes := 0, n_next := None, n_parent := None, n_total := 0\<rparr>)
         \<lparr>next_node = 1, nodes = memory, cur = Some 0, cur_order = 0, exc = junk, exc_used = False, stack = []\<rparr>)"

definition ppm_clear :: "ppm_size \<Rightarrow> ppm \<Rightarrow> ppm" where
  "ppm_clear k m =
     clear_exclusions k
       ((on_node 0 (\<lambda>x. x\<lparr>n_child := None, n_escapes := 0, n_total := 0\<rparr>) m)
          \<lparr>next_node := 1, cur := Some 0, cur_order := 0, stack := []\<rparr>)"

text \<open>\<open>new_node\<close> grows a chain of nodes along \<open>parent_context\<close>.\<close>

definition set_parent :: "nat option \<Rightarrow> nat \<Rightarrow> ppm \<Rightarrow> ppm" where
  "set_parent new_node p m =
     (case new_node of None \<Rightarrow> m | Some a \<Rightarrow> on_node a (\<lambda>x. x\<lparr>n_parent := Some p\<rparr>) m)"

definition extend_chain :: "nat option \<Rightarrow> ppm \<Rightarrow> nat \<times> ppm" where
  "extend_chain new_node m = (case allocate_node m of (a, m) \<Rightarrow> (a, set_parent new_node a m))"

definition move_to_front :: "nat option \<Rightarrow> nat \<Rightarrow> nat \<Rightarrow> ppm \<Rightarrow> ppm" where
  "move_to_front prev n temp m =
     (case prev of
        None \<Rightarrow> m
      | Some l \<Rightarrow>
          let m = on_node l (\<lambda>x. x\<lparr>n_next := n_next (nodes m n)\<rparr>) m;
              m = on_node n (\<lambda>x. x\<lparr>n_next := n_child (nodes m temp)\<rparr>) m
          in on_node temp (\<lambda>x. x\<lparr>n_child := Some n\<rparr>) m)"

text \<open>After the symbol was found in the node \<open>n\<close> of the context \<open>temp\<close>: \<open>c\<close>, \<open>t\<close> and the new state.\<close>

definition count_symbol ::
  "ppm_size \<Rightarrow> nat option \<Rightarrow> nat \<Rightarrow> nat \<Rightarrow> nat \<Rightarrow> ppm \<Rightarrow> (16 word \<times> 16 word) \<times> ppm" where
  "count_symbol k prev n temp local_order m =
     (let m = on_node n (\<lambda>x. x\<lparr>n_count := n_count x + 8\<rparr>) m; c = n_count (nodes m n);
          m = on_node temp (\<lambda>x. x\<lparr>n_total := n_total x + 8\<rparr>) m; t = n_total (nodes m temp);
          m = move_to_front prev n temp m;
          m = (if cur m = None
               then if local_order < order k then m\<lparr>cur_order := local_order + 1, cur := Some n\<rparr>
                    else m\<lparr>cur := n_parent (nodes m n), cur_order := local_order\<rparr>
               else m)
      in ((c, t), m))"

text \<open>The new node \<open>a\<close> of the context \<open>temp\<close>.\<close>

definition fill_node :: "ppm_size \<Rightarrow> nat \<Rightarrow> nat \<Rightarrow> nat \<Rightarrow> ppm \<Rightarrow> ppm option" where
  "fill_node k a temp local_order m =
     (let m = (if cur m = None \<and> local_order < order k then m\<lparr>cur := Some a, cur_order := local_order + 1\<rparr> else m);
          m = on_node a (\<lambda>x. x\<lparr>n_child := None, n_escapes := 0, n_next := None, n_total := 0\<rparr>) m
      in push k a temp m)"

definition at_root :: "ppm \<Rightarrow> ppm" where
  "at_root m = (if cur m = None then m\<lparr>cur := Some 0, cur_order := 0\<rparr> else m)"

text \<open>The loop at the end: the counts of the new nodes. \<open>t\<close> and \<open>c\<close> are promoted to \<open>int\<close>.\<close>

fun scale_while :: "nat \<Rightarrow> ppm_size \<Rightarrow> nat \<Rightarrow> ppm \<Rightarrow> ppm option" where
  "scale_while 0 k nc m = None"
| "scale_while (Suc fuel) k nc m =
     (if n_total (nodes m nc) > 10000
      then case scale_counts k nc m of None \<Rightarrow> None | Some m \<Rightarrow> scale_while fuel k nc m
      else Some m)"

definition inherited_count :: "16 word \<Rightarrow> 16 word \<Rightarrow> ppm_node \<Rightarrow> 16 word" where
  "inherited_count c t nc =
     (let temp2 = word_of_int (uint t - uint c + uint (n_total nc) - uint (n_escapes nc) - uint (n_escapes nc)) :: 64 word;
          temp = ucast (n_total nc) * ucast c :: 64 word;
          temp = temp div (temp2 OR 1) + 2
      in ucast (if temp > 50000 then 50000 else temp))"

definition finish_node :: "ppm_size \<Rightarrow> 16 word \<Rightarrow> 16 word \<times> 16 word \<Rightarrow> nat \<times> nat \<Rightarrow> ppm \<Rightarrow> ppm option" where
  "finish_node k symbol = (\<lambda>(c, t) (n, nc) m.
     let m = on_node n (\<lambda>x. x\<lparr>n_symbol := symbol\<rparr>) m in do {
       m \<leftarrow>
         (if n_total (nodes m nc) \<noteq> 0
          then let temp = inherited_count c t (nodes m nc);
                   m = on_node n (\<lambda>x. x\<lparr>n_count := temp\<rparr>) m
               in Some (on_node nc (\<lambda>x. x\<lparr>n_escapes := n_escapes x + 4, n_total := n_total x + (temp + 4)\<rparr>) m)
          else if t = c then None
          else let m = on_node n (\<lambda>x. x\<lparr>n_count := word_of_int (3 + c_div (5 * uint c) (uint t - uint c))\<rparr>) m
               in Some (on_node nc (\<lambda>x. x\<lparr>n_escapes := 4, n_total := n_count (nodes m n) + 4\<rparr>) m));
       scale_while 17 k nc m })"

fun finish_loop :: "ppm_size \<Rightarrow> 16 word \<Rightarrow> 16 word \<times> 16 word \<Rightarrow> (nat \<times> nat) list \<Rightarrow> ppm \<Rightarrow> ppm option" where
  "finish_loop k symbol ct [] m = Some (m\<lparr>stack := []\<rparr>)"
| "finish_loop k symbol ct (p # ps) m =
     (case finish_node k symbol ct p (m\<lparr>stack := ps\<rparr>) of None \<Rightarrow> None | Some m \<Rightarrow> finish_loop k symbol ct ps m)"


section \<open>Encoding\<close>

text \<open>The variables of the search for the symbol in the child nodes of a context.\<close>

record search =
  found_symbol :: "nat option"
  found_last :: "nat option"
  low_count :: "16 word"
  high_count :: "16 word"
  total_count :: "16 word"

text \<open>The loop without exclusions, which stops at the symbol; the result has the node at which it stopped.\<close>

fun scan_plain :: "nat \<Rightarrow> 16 word \<Rightarrow> nat \<Rightarrow> search \<Rightarrow> ppm \<Rightarrow> (nat \<times> search \<times> ppm) option" where
  "scan_plain 0 symbol n r m = None"
| "scan_plain (Suc fuel) symbol n r m =
     (let x = nodes m n; r = r\<lparr>high_count := high_count r + n_count x\<rparr> in
      case exclude (n_symbol x) m of
        None \<Rightarrow> None
      | Some m \<Rightarrow>
          if n_symbol x = symbol
          then Some (n, r\<lparr>found_symbol := Some n, low_count := high_count r - n_count x\<rparr>, m)
          else case n_next x of
                 None \<Rightarrow> Some (n, r, m)
               | Some n' \<Rightarrow> scan_plain fuel symbol n' (r\<lparr>found_last := Some n\<rparr>) m)"

text \<open>The loop with exclusions, which always goes to the end of the chain.\<close>

fun scan_excluded ::
  "nat \<Rightarrow> 16 word \<Rightarrow> nat \<Rightarrow> nat option \<Rightarrow> search \<Rightarrow> ppm \<Rightarrow> (nat \<times> search \<times> ppm) option" where
  "scan_excluded 0 symbol n templast r m = None"
| "scan_excluded (Suc fuel) symbol n templast r m =
     (let x = nodes m n in do {
        ex \<leftarrow> is_excluded (n_symbol x) m;
        (r, m) \<leftarrow>
          (if \<not> ex
           then do {
             m \<leftarrow> exclude (n_symbol x) m;
             Some (if found_symbol r = None
                   then let r = r\<lparr>high_count := high_count r + n_count x\<rparr>
                        in if n_symbol x = symbol
                           then r\<lparr>found_symbol := Some n, found_last := templast, low_count := high_count r - n_count x\<rparr>
                           else r
                   else r, m) }
           else Some (r\<lparr>total_count := total_count r - n_count x\<rparr>, m));
        (case n_next x of
           None \<Rightarrow> Some (n, r, m)
         | Some n' \<Rightarrow> scan_excluded fuel symbol n' (Some n) r m) })"

text \<open>\<open>while (n->next) { exclude(n->symbol); n = n->next; }\<close>\<close>

fun exclude_rest :: "nat \<Rightarrow> nat \<Rightarrow> ppm \<Rightarrow> (nat \<times> ppm) option" where
  "exclude_rest 0 n m = None"
| "exclude_rest (Suc fuel) n m =
     (case n_next (nodes m n) of
        None \<Rightarrow> Some (n, m)
      | Some n' \<Rightarrow> (case exclude (n_symbol (nodes m n)) m of None \<Rightarrow> None | Some m \<Rightarrow> exclude_rest fuel n' m))"

text \<open>The counts of a context, scaled if they are large; the counts of the symbol in it.\<close>

definition scale_if_large :: "ppm_size \<Rightarrow> nat \<Rightarrow> ppm \<Rightarrow> ppm option" where
  "scale_if_large k temp m = (if n_total (nodes m temp) > 10000 then scale_counts k temp m else Some m)"

definition search_symbol :: "ppm_size \<Rightarrow> 16 word \<Rightarrow> nat \<Rightarrow> ppm \<Rightarrow> (nat \<times> search \<times> ppm) option" where
  "search_symbol k symbol temp m = do {
     n \<leftarrow> n_child (nodes m temp);
     let r = \<lparr>found_symbol = None, found_last = None, low_count = 0, high_count = 0,
       total_count = n_total (nodes m temp)\<rparr>;
     (if something_is_excluded m then scan_excluded (total_nodes k) symbol n None r m
      else scan_plain (total_nodes k) symbol n r m) }"

text \<open>
  The calls of the coder are the parameter \<open>enc\<close>; the state is the pair of the model and the coder.
\<close>

definition on_model :: "('s \<Rightarrow> ('a \<times> 's) option) \<Rightarrow> 's \<times> 'c \<Rightarrow> ('a, 's \<times> 'c) io" where
  "on_model f w = (case f (fst w) of None \<Rightarrow> Undef | Some (x, s) \<Rightarrow> Returned x (s, snd w))"

definition no_result :: "('s \<Rightarrow> 's option) \<Rightarrow> 's \<Rightarrow> (unit \<times> 's) option" where
  "no_result f s = (case f s of None \<Rightarrow> None | Some s \<Rightarrow> Some ((), s))"

text \<open>
  The loop over the contexts, from the longest one to the root. Its result is \<open>c\<close> and \<open>t\<close>. After \<open>clear\<close> it
  starts again at the root.
\<close>

fun encode_contexts ::
  "(32 word \<Rightarrow> 32 word \<Rightarrow> 32 word \<Rightarrow> 'c \<Rightarrow> (unit, 'c) io) \<Rightarrow> ppm_size \<Rightarrow> 16 word \<Rightarrow> nat \<Rightarrow>
     nat \<Rightarrow> nat \<Rightarrow> nat option \<Rightarrow> ppm \<times> 'c \<Rightarrow> (16 word \<times> 16 word, ppm \<times> 'c) io" where
  "encode_contexts enc k symbol 0 temp local_order new_node w = Undef"
| "encode_contexts enc k symbol (Suc fuel) temp local_order new_node w =
     (if \<not> space_left k (fst w)
      then encode_contexts enc k symbol fuel 0 0 None ((ppm_clear k (fst w))\<lparr>cur := None\<rparr>, snd w)
      else let
        next = (\<lambda>a. bind_io (on_model (no_result (fill_node k a temp local_order))) (\<lambda>_ w.
          if temp \<noteq> 0
          then case n_parent (nodes (fst w) temp) of
                 None \<Rightarrow> Undef
               | Some p \<Rightarrow> encode_contexts enc k symbol fuel p (local_order - 1) (Some a) w
          else bind_io (on_model (\<lambda>m. Some ((), set_parent (Some a) 0 m))) (\<lambda>_.
               bind_io (on_stream (enc (ucast symbol) (ucast symbol + 1) (of_nat (alphabet_size k)))) (\<lambda>_.
               on_model (\<lambda>m. Some ((8, 2056), at_root m)))) w))
      in if n_total (nodes (fst w) temp) > 0
         then bind_io (on_model (\<lambda>m. do { m \<leftarrow> scale_if_large k temp m; (n, r, m) \<leftarrow> search_symbol k symbol temp m; Some ((n, r), m) }))
           (\<lambda>(n, r).
             case found_symbol r of
               Some n \<Rightarrow>
                 bind_io (on_model (\<lambda>m. Some ((), set_parent new_node n m))) (\<lambda>_.
                 bind_io (on_stream (enc (ucast (low_count r)) (ucast (high_count r)) (ucast (total_count r)))) (\<lambda>_.
                   on_model (\<lambda>m. Some (count_symbol k (found_last r) n temp local_order m))))
             | None \<Rightarrow>
                 bind_io (on_model (\<lambda>m. do {
                   (n, m) \<leftarrow> exclude_rest (total_nodes k) n m;
                   let (a, m) = extend_chain new_node m;
                   Some (a, on_node n (\<lambda>x. x\<lparr>n_next := Some a\<rparr>) m) })) (\<lambda>a.
                 bind_io (on_stream (enc (ucast (high_count r)) (ucast (total_count r)) (ucast (total_count r)))) (\<lambda>_.
                   next a))) w
         else bind_io (on_model (\<lambda>m.
                case extend_chain new_node m of (a, m) \<Rightarrow> Some (a, on_node temp (\<lambda>x. x\<lparr>n_child := Some a\<rparr>) m))) next w)"

definition start_symbol :: "ppm_size \<Rightarrow> ppm \<Rightarrow> (nat \<times> nat) option \<times> ppm" where
  "start_symbol k m =
     (map_option (\<lambda>temp. (temp, cur_order m)) (cur m),
      let m = m\<lparr>cur := None\<rparr> in if something_is_excluded m then clear_exclusions k m else m)"

definition ppm_encode ::
  "(32 word \<Rightarrow> 32 word \<Rightarrow> 32 word \<Rightarrow> 'c \<Rightarrow> (unit, 'c) io) \<Rightarrow> ppm_size \<Rightarrow> 64 word \<Rightarrow> ppm \<times> 'c \<Rightarrow> (unit, ppm \<times> 'c) io" where
  "ppm_encode enc k item =
     bind_io (on_model (\<lambda>m. Some (start_symbol k m))) (\<lambda>start.
       case start of
         None \<Rightarrow> (\<lambda>w. Undef)
       | Some (temp, local_order) \<Rightarrow>
           bind_io (encode_contexts enc k (ucast item) (order k + 3) temp local_order None) (\<lambda>ct.
             on_model (\<lambda>m. no_result (finish_loop k (ucast item) ct (stack m)) m)))"


section \<open>Decoding\<close>

text \<open>The number of the symbols that are not excluded, and of the escapes.\<close>

fun sum_included :: "nat \<Rightarrow> nat \<Rightarrow> 64 word \<Rightarrow> ppm \<Rightarrow> 64 word option" where
  "sum_included 0 n tot m = None"
| "sum_included (Suc fuel) n tot m = do {
     ex \<leftarrow> is_excluded (n_symbol (nodes m n)) m;
     let tot = (if \<not> ex then tot + ucast (n_count (nodes m n)) else tot);
     (case n_next (nodes m n) of
        None \<Rightarrow> Some tot
      | Some n' \<Rightarrow> sum_included fuel n' tot m) }"

definition count_included :: "ppm_size \<Rightarrow> nat \<Rightarrow> ppm \<Rightarrow> 64 word option" where
  "count_included k temp m =
     (if something_is_excluded m
      then do { n \<leftarrow> n_child (nodes m temp);
                sum_included (total_nodes k) n (ucast (n_escapes (nodes m temp))) m }
      else Some (ucast (n_total (nodes m temp))))"

text \<open>The node at which \<open>high_count\<close> exceeds the target, or the last one.\<close>

fun find_target :: "nat \<Rightarrow> 64 word \<Rightarrow> nat \<Rightarrow> nat option \<Rightarrow> 64 word \<Rightarrow> ppm \<Rightarrow> ((nat \<times> nat option \<times> 64 word) \<times> ppm) option" where
  "find_target 0 target n prev hc m = None"
| "find_target (Suc fuel) target n prev hc m = do {
     ex \<leftarrow> is_excluded (n_symbol (nodes m n)) m;
     (hc, m) \<leftarrow>
       (if \<not> ex
        then do { m' \<leftarrow> exclude (n_symbol (nodes m n)) m; Some (hc + ucast (n_count (nodes m n)), m') }
        else Some (hc, m));
     (if hc > target then Some ((n, prev, hc), m)
      else case n_next (nodes m n) of
             None \<Rightarrow> Some ((n, prev, hc), m)
           | Some n' \<Rightarrow> find_target fuel target n' (Some n) hc m) }"

fun decode_contexts ::
  "(32 word \<Rightarrow> 'c \<Rightarrow> (32 word, 'c) io) \<Rightarrow> (32 word \<Rightarrow> 32 word \<Rightarrow> 'c \<Rightarrow> (unit, 'c) io) \<Rightarrow> ppm_size \<Rightarrow> nat \<Rightarrow>
     nat \<Rightarrow> nat \<Rightarrow> nat option \<Rightarrow> ppm \<times> 'c \<Rightarrow> (16 word \<times> 16 word \<times> 64 word, ppm \<times> 'c) io" where
  "decode_contexts get dec k 0 temp local_order new_node w = Undef"
| "decode_contexts get dec k (Suc fuel) temp local_order new_node w =
     (if \<not> space_left k (fst w)
      then decode_contexts get dec k fuel 0 0 None ((ppm_clear k (fst w))\<lparr>cur := None\<rparr>, snd w)
      else let
        next = (\<lambda>a. bind_io (on_model (no_result (fill_node k a temp local_order))) (\<lambda>_ w.
          if temp \<noteq> 0
          then case n_parent (nodes (fst w) temp) of
                 None \<Rightarrow> Undef
               | Some p \<Rightarrow> decode_contexts get dec k fuel p (local_order - 1) (Some a) w
          else bind_io (on_stream (get (of_nat (alphabet_size k)))) (\<lambda>target.
               bind_io (on_model (\<lambda>m. Some ((), set_parent (Some a) 0 m))) (\<lambda>_.
               bind_io (on_stream (dec target (target + 1))) (\<lambda>_.
               on_model (\<lambda>m. Some ((8, 2056, ucast target), at_root m))))) w))
      in if n_total (nodes (fst w) temp) > 0
         then bind_io (on_model (\<lambda>m. do { m \<leftarrow> scale_if_large k temp m; tot \<leftarrow> count_included k temp m; Some (tot, m) }))
           (\<lambda>tot. bind_io (on_stream (get (ucast tot))) (\<lambda>target.
            bind_io (on_model (\<lambda>m. do { n \<leftarrow> n_child (nodes m temp); find_target (total_nodes k) (ucast target) n None 0 m }))
              (\<lambda>(n, prev, hc).
                if hc > ucast target
                then bind_io (on_model (\<lambda>m. Some ((hc - ucast (n_count (nodes m n)), ucast (n_symbol (nodes m n))),
                         set_parent new_node n m))) (\<lambda>(lc, symbol).
                     bind_io (on_stream (dec (ucast lc) (ucast hc))) (\<lambda>_.
                     bind_io (on_model (\<lambda>m. Some (count_symbol k prev n temp local_order m))) (\<lambda>(c, t).
                       Returned (c, t, symbol))))
                else bind_io (on_model (\<lambda>m. case extend_chain new_node m of (a, m) \<Rightarrow>
                         Some (a, on_node n (\<lambda>x. x\<lparr>n_next := Some a\<rparr>) m))) (\<lambda>a.
                     bind_io (on_stream (dec (ucast hc) (ucast tot))) (\<lambda>_.
                       next a))))) w
         else bind_io (on_model (\<lambda>m.
                case extend_chain new_node m of (a, m) \<Rightarrow> Some (a, on_node temp (\<lambda>x. x\<lparr>n_child := Some a\<rparr>) m))) next w)"

definition ppm_decode ::
  "(32 word \<Rightarrow> 'c \<Rightarrow> (32 word, 'c) io) \<Rightarrow> (32 word \<Rightarrow> 32 word \<Rightarrow> 'c \<Rightarrow> (unit, 'c) io) \<Rightarrow> ppm_size \<Rightarrow>
     ppm \<times> 'c \<Rightarrow> (64 word, ppm \<times> 'c) io" where
  "ppm_decode get dec k =
     bind_io (on_model (\<lambda>m. Some (start_symbol k m))) (\<lambda>start.
       case start of
         None \<Rightarrow> (\<lambda>w. Undef)
       | Some (temp, local_order) \<Rightarrow>
           bind_io (decode_contexts get dec k (order k + 3) temp local_order None) (\<lambda>(c, t, symbol).
             bind_io (on_model (\<lambda>m. no_result (finish_loop k (ucast symbol) (c, t) (stack m)) m)) (\<lambda>_.
               Returned symbol)))"

end
