(* ===== verification/Ppm_Search.thy ===== *)
theory Ppm_Search
  imports Ppm_Model
begin

text \<open>
  The searches of the two models in the child nodes of a context: the exclusions as a set of symbols, the child
  nodes as a chain of addresses, and what the loops over a chain compute. Encoder and decoder find the same counts.
\<close>

section \<open>Exclusions as a set\<close>

definition excl :: "16 word \<Rightarrow> ppm \<Rightarrow> ppm" where
  "excl s m = m\<lparr>exc_used := True, exc := (exc m)[unat (drop_bit 5 s) := exc m ! unat (drop_bit 5 s) OR exc_bit s]\<rparr>"

definition excl_all :: "16 word list \<Rightarrow> ppm \<Rightarrow> ppm" where
  "excl_all ss m = fold excl ss m"

definition excluded :: "ppm \<Rightarrow> 16 word \<Rightarrow> bool" where
  "excluded m s \<longleftrightarrow> exc m ! unat (drop_bit 5 s) AND exc_bit s \<noteq> 0"

text \<open>The array has a bit for every symbol, and no bit is set unless the flag is.\<close>

definition excl_ok :: "ppm_size \<Rightarrow> ppm \<Rightarrow> bool" where
  "excl_ok k m \<longleftrightarrow> length (exc m) = alphabet_size k div 32 + 1 \<and>
     (exc_used m \<or> exc m = replicate (alphabet_size k div 32 + 1) 0)"

lemma excl_fields [simp]:
  "next_node (excl s m) = next_node m" "nodes (excl s m) = nodes m" "cur (excl s m) = cur m"
  "cur_order (excl s m) = cur_order m" "stack (excl s m) = stack m" "exc_used (excl s m)"
  "length (exc (excl s m)) = length (exc m)"
  by (simp_all add: excl_def)

lemma excl_all_simps [simp]:
  "excl_all [] m = m" "excl_all (s # ss) m = excl_all ss (excl s m)" "excl_all (ss @ ss') m = excl_all ss' (excl_all ss m)"
  by (simp_all add: excl_all_def)

lemma excl_all_fields [simp]:
  "next_node (excl_all ss m) = next_node m" "nodes (excl_all ss m) = nodes m" "cur (excl_all ss m) = cur m"
  "cur_order (excl_all ss m) = cur_order m" "stack (excl_all ss m) = stack m"
  "exc_used (excl_all ss m) \<longleftrightarrow> exc_used m \<or> ss \<noteq> []" "length (exc (excl_all ss m)) = length (exc m)"
  by (induction ss arbitrary: m) auto

lemma exc_bit_nth: "bit (exc_bit s) i \<longleftrightarrow> i = unat s mod 32"
proof -
  have "unat (s AND 0x1F) = unat s mod 32"
  proof -
    have "(0x1F :: 16 word) = mask 5" by (simp add: mask_eq_decr_exp)
    then have "s AND 0x1F = take_bit 5 s" by (simp only: take_bit_eq_mask)
    then show ?thesis by (simp only: unsigned_take_bit_eq) (simp add: take_bit_eq_mod)
  qed
  then show ?thesis unfolding exc_bit_def by (auto simp: bit_simps)
qed

lemma symbol_word: "unat (drop_bit 5 (s :: 16 word)) = unat s div 32"
  by (simp add: drop_bit_eq_div unat_div)

lemma excluded_bit: "excluded m s \<longleftrightarrow> bit (exc m ! (unat s div 32)) (unat s mod 32)"
proof -
  have "w AND exc_bit s \<noteq> 0 \<longleftrightarrow> bit w (unat s mod 32)" for w
  proof
    assume "w AND exc_bit s \<noteq> 0"
    then obtain i where "bit (w AND exc_bit s) i" by (metis bit_0_eq bit_eqI bot_apply bot_bool_def)
    then show "bit w (unat s mod 32)" by (auto simp: bit_and_iff exc_bit_nth)
  next
    assume "bit w (unat s mod 32)"
    then have "bit (w AND exc_bit s) (unat s mod 32)" by (simp add: bit_and_iff exc_bit_nth)
    then show "w AND exc_bit s \<noteq> 0" by auto
  qed
  then show ?thesis unfolding excluded_def symbol_word .
qed

lemma symbol_index: "unat s < alphabet_size k \<Longrightarrow> unat (drop_bit 5 (s :: 16 word)) < alphabet_size k div 32 + 1"
  by (simp add: symbol_word div_le_mono less_Suc_eq_le)

lemma exclude_eq:
  assumes "length (exc m) = alphabet_size k div 32 + 1" "unat s < alphabet_size k"
  shows "exclude s m = Some (excl s m)" "is_excluded s m = Some (excluded m s)"
  using symbol_index [OF assms(2)] assms(1) by (simp_all add: exclude_def is_excluded_def excl_def excluded_def Let_def)

lemma excluded_excl:
  assumes "length (exc m) = alphabet_size k div 32 + 1" "unat s < alphabet_size k" "unat s' < alphabet_size k"
  shows "excluded (excl s m) s' \<longleftrightarrow> s' = s \<or> excluded m s'"
proof -
  have i: "unat s div 32 < length (exc m)" using assms(1,2) by (simp add: div_le_mono less_Suc_eq_le)
  show ?thesis
  proof (cases "unat s div 32 = unat s' div 32")
    case True
    have "s' = s \<longleftrightarrow> unat s' mod 32 = unat s mod 32"
      using True by (metis mod_mult_div_eq word_unat_eq_iff)
    with True i show ?thesis by (auto simp: excluded_bit excl_def symbol_word bit_or_iff exc_bit_nth)
  next
    case False
    then show ?thesis by (auto simp: excluded_bit excl_def symbol_word)
  qed
qed

lemma excluded_excl_all:
  assumes "length (exc m) = alphabet_size k div 32 + 1" "list_all (\<lambda>s. unat s < alphabet_size k) ss" "unat s' < alphabet_size k"
  shows "excluded (excl_all ss m) s' \<longleftrightarrow> s' \<in> set ss \<or> excluded m s'"
  using assms by (induction ss arbitrary: m) (auto simp: excluded_excl)

lemma excl_excluded:
  assumes "length (exc m) = alphabet_size k div 32 + 1" "unat s < alphabet_size k" "excluded m s" "exc_used m"
  shows "excl s m = m"
proof -
  have "exc m ! unat (drop_bit 5 s) OR exc_bit s = exc m ! unat (drop_bit 5 s)"
  proof (rule bit_word_eqI)
    fix n
    have "bit (exc m ! unat (drop_bit 5 s)) (unat s mod 32)"
      using assms(3) unfolding excluded_bit by (simp add: symbol_word)
    then show "bit (exc m ! unat (drop_bit 5 s) OR exc_bit s) n = bit (exc m ! unat (drop_bit 5 s)) n"
      by (auto simp: bit_or_iff exc_bit_nth)
  qed
  then show ?thesis using assms(4) by (simp add: excl_def)
qed

lemma excl_ok_excl: "excl_ok k m \<Longrightarrow> excl_ok k (excl s m)"
  by (simp add: excl_ok_def)

lemma excl_ok_excl_all: "excl_ok k m \<Longrightarrow> excl_ok k (excl_all ss m)"
  by (induction ss arbitrary: m) (auto simp: excl_ok_excl)

lemma clear_exclusions_ok [simp]: "excl_ok k (clear_exclusions k m)" "\<not> excluded (clear_exclusions k m) s \<or> alphabet_size k \<le> unat s"
proof -
  show "excl_ok k (clear_exclusions k m)" by (simp add: excl_ok_def clear_exclusions_def)
  show "\<not> excluded (clear_exclusions k m) s \<or> alphabet_size k \<le> unat s"
    using symbol_index [of s k] by (auto simp: excluded_def clear_exclusions_def simp del: replicate_Suc)
qed

lemma not_used_not_excluded:
  "excl_ok k m \<Longrightarrow> \<not> exc_used m \<Longrightarrow> unat s < alphabet_size k \<Longrightarrow> \<not> excluded m s"
  using symbol_index [of s k] by (auto simp: excluded_def excl_ok_def simp del: replicate_Suc)

section \<open>Chains\<close>

fun chain :: "(nat \<Rightarrow> ppm_node) \<Rightarrow> nat option \<Rightarrow> nat list \<Rightarrow> bool" where
  "chain f p [] \<longleftrightarrow> p = None"
| "chain f p (x # xs) \<longleftrightarrow> p = Some x \<and> chain f (n_next (f x)) xs"

lemma chain_cong:
  "(\<And>x. x \<in> set xs \<Longrightarrow> n_next (f x) = n_next (g x)) \<Longrightarrow> chain f p xs \<longleftrightarrow> chain g p xs"
  by (induction xs arbitrary: p) auto

lemma chain_last: "chain f p xs \<Longrightarrow> xs \<noteq> [] \<Longrightarrow> n_next (f (last xs)) = None"
  by (induction xs arbitrary: p) (auto split: if_splits)

lemma chain_some: "chain f p xs \<Longrightarrow> xs \<noteq> [] \<Longrightarrow> p = Some (hd xs)"
  by (cases xs) auto

text \<open>A new last node.\<close>

lemma chain_append:
  assumes "chain f p xs" "xs \<noteq> []" "distinct xs" "a \<notin> set xs"
    "\<And>x. x \<in> set xs \<Longrightarrow> n_next (g x) = (if x = last xs then Some a else n_next (f x))" "n_next (g a) = None"
  shows "chain g p (xs @ [a])"
  using assms
proof (induction xs arbitrary: p)
  case (Cons x xs)
  show ?case
  proof (cases "xs = []")
    case True
    with Cons.prems show ?thesis by auto
  next
    case False
    have "chain g (n_next (f x)) (xs @ [a])"
    proof (rule Cons.IH)
      fix y assume y: "y \<in> set xs"
      with Cons.prems(5) [of y] False show "n_next (g y) = (if y = last xs then Some a else n_next (f y))" by auto
    qed (use Cons.prems False in auto)
    moreover from Cons.prems(3) False have "x \<noteq> last (x # xs)" by auto
    with Cons.prems(5) [of x] have "n_next (g x) = n_next (f x)" by simp
    ultimately show ?thesis using Cons.prems(1) by auto
  qed
qed simp

text \<open>A node that is moved to the front.\<close>

lemma chain_skip:
  assumes "chain f p (us @ x # vs)" "us \<noteq> []" "distinct (us @ x # vs)"
    "\<And>y. y \<in> set us \<union> set vs \<Longrightarrow> n_next (g y) = (if y = last us then n_next (f x) else n_next (f y))"
  shows "chain g p (us @ vs)"
  using assms
proof (induction us arbitrary: p)
  case (Cons u us)
  show ?case
  proof (cases "us = []")
    case True
    have "chain g (n_next (f x)) vs \<longleftrightarrow> chain f (n_next (f x)) vs"
      by (rule chain_cong) (use Cons.prems(3,4) True in auto)
    with True Cons.prems(1,4) show ?thesis by auto
  next
    case False
    have "chain g (n_next (f u)) (us @ vs)"
    proof (rule Cons.IH)
      fix y assume y: "y \<in> set us \<union> set vs"
      with Cons.prems(4) [of y] False show "n_next (g y) = (if y = last us then n_next (f x) else n_next (f y))" by auto
    qed (use Cons.prems False in auto)
    moreover from Cons.prems(3) False have "u \<noteq> last (u # us)" by auto
    with Cons.prems(4) [of u] have "n_next (g u) = n_next (f u)" by simp
    ultimately show ?thesis using Cons.prems(1) by auto
  qed
qed simp

section \<open>Scaling\<close>

definition halved :: "(nat \<Rightarrow> ppm_node) \<Rightarrow> nat \<Rightarrow> nat list \<Rightarrow> nat \<Rightarrow> ppm_node" where
  "halved f x zs = (\<lambda>y. if y \<in> set zs then (f y)\<lparr>n_count := halve (n_count (f y))\<rparr> else f y)
     (x := (f x)\<lparr>n_escapes := halve (n_escapes (f x)),
        n_total := halve (n_escapes (f x)) + (\<Sum>y\<leftarrow>zs. halve (n_count (f y)))\<rparr>)"

lemma on_node_fields [simp]:
  "next_node (on_node a f m) = next_node m" "cur (on_node a f m) = cur m" "cur_order (on_node a f m) = cur_order m"
  "stack (on_node a f m) = stack m" "exc (on_node a f m) = exc m" "exc_used (on_node a f m) = exc_used m"
  "nodes (on_node a f m) = (nodes m)(a := f (nodes m a))"
  by (simp_all add: on_node_def)

lemma scale_loop_eq:
  assumes "chain (nodes m) p zs" "distinct zs" "x \<notin> set zs" "length zs \<le> fuel"
  shows "scale_loop fuel p x m = Some (m\<lparr>nodes :=
    (\<lambda>y. if y \<in> set zs then (nodes m y)\<lparr>n_count := halve (n_count (nodes m y))\<rparr> else nodes m y)
      (x := (nodes m x)\<lparr>n_total := n_total (nodes m x) + (\<Sum>y\<leftarrow>zs. halve (n_count (nodes m y)))\<rparr>)\<rparr>)"
  using assms
proof (induction zs arbitrary: p m fuel)
  case Nil
  then show ?case by simp
next
  case (Cons z zs)
  then obtain fu where fuel: "fuel = Suc fu" by (cases fuel) auto
  define m1 where "m1 = on_node z (\<lambda>y. y\<lparr>n_count := halve (n_count y)\<rparr>) m"
  define m2 where "m2 = on_node x (\<lambda>y. y\<lparr>n_total := n_total y + n_count (nodes m1 z)\<rparr>) m1"
  have neq: "x \<noteq> z" "z \<notin> set zs" "x \<notin> set zs" using Cons.prems by auto
  have n2: "nodes m2 y = (if y = x then (nodes m x)\<lparr>n_total := n_total (nodes m x) + halve (n_count (nodes m z))\<rparr>
      else if y = z then (nodes m z)\<lparr>n_count := halve (n_count (nodes m z))\<rparr> else nodes m y)" for y
    using neq by (simp add: m2_def m1_def)
  have ch: "chain (nodes m2) (n_next (nodes m2 z)) zs"
    using Cons.prems(1) neq chain_cong [of zs "nodes m2" "nodes m"] by (auto simp: n2)
  have sum: "(\<Sum>y\<leftarrow>zs. halve (n_count (nodes m2 y))) = (\<Sum>y\<leftarrow>zs. halve (n_count (nodes m y)))"
    by (rule arg_cong [where f = sum_list], rule map_cong) (use neq in \<open>auto simp: n2\<close>)
  have "scale_loop fuel p x m = scale_loop fu (n_next (nodes m2 z)) x m2"
    using Cons.prems(1) by (simp add: fuel m1_def m2_def Let_def)
  also have "\<dots> = Some (m2\<lparr>nodes :=
    (\<lambda>y. if y \<in> set zs then (nodes m2 y)\<lparr>n_count := halve (n_count (nodes m2 y))\<rparr> else nodes m2 y)
      (x := (nodes m2 x)\<lparr>n_total := n_total (nodes m2 x) + (\<Sum>y\<leftarrow>zs. halve (n_count (nodes m2 y)))\<rparr>)\<rparr>)"
    by (rule Cons.IH [OF ch]) (use Cons.prems fuel in auto)
  also have "\<dots> = Some (m\<lparr>nodes :=
    (\<lambda>y. if y \<in> set (z # zs) then (nodes m y)\<lparr>n_count := halve (n_count (nodes m y))\<rparr> else nodes m y)
      (x := (nodes m x)\<lparr>n_total := n_total (nodes m x) + (\<Sum>y\<leftarrow>z # zs. halve (n_count (nodes m y)))\<rparr>)\<rparr>)"
    unfolding sum using neq by (auto simp: n2 fun_eq_iff m2_def m1_def on_node_def)
  finally show ?case .
qed

lemma scale_counts_eq:
  assumes "chain (nodes m) (n_child (nodes m x)) zs" "distinct zs" "x \<notin> set zs" "length zs \<le> total_nodes k"
  shows "scale_counts k x m = Some (m\<lparr>nodes := halved (nodes m) x zs\<rparr>)"
proof -
  define m1 where "m1 = on_node x (\<lambda>y. y\<lparr>n_escapes := halve (n_escapes y), n_total := halve (n_escapes y)\<rparr>) m"
  have n1: "nodes m1 y = (if y = x then (nodes m x)\<lparr>n_escapes := halve (n_escapes (nodes m x)), n_total := halve (n_escapes (nodes m x))\<rparr>
      else nodes m y)" for y by (simp add: m1_def)
  have ch: "chain (nodes m1) (n_child (nodes m1 x)) zs"
    using assms(1,3) chain_cong [of zs "nodes m1" "nodes m"] by (auto simp: n1)
  have sum: "(\<Sum>y\<leftarrow>zs. halve (n_count (nodes m1 y))) = (\<Sum>y\<leftarrow>zs. halve (n_count (nodes m y)))"
    by (rule arg_cong [where f = sum_list], rule map_cong) (use assms in \<open>auto simp: n1\<close>)
  have "scale_counts k x m = scale_loop (total_nodes k) (n_child (nodes m1 x)) x m1"
    by (simp add: scale_counts_def m1_def Let_def)
  then show ?thesis
    unfolding scale_loop_eq [OF ch assms(2-4)] sum using assms(3)
    by (auto simp: n1 halved_def fun_eq_iff m1_def on_node_def)
qed

lemma halved_fields [simp]:
  "n_next (halved f x zs y) = n_next (f y)" "n_child (halved f x zs y) = n_child (f y)"
  "n_parent (halved f x zs y) = n_parent (f y)" "n_symbol (halved f x zs y) = n_symbol (f y)"
  by (auto simp: halved_def)

text \<open>The sum of the counts of some nodes.\<close>

definition mass :: "(nat \<Rightarrow> ppm_node) \<Rightarrow> nat list \<Rightarrow> nat" where
  "mass f zs = (\<Sum>y\<leftarrow>zs. unat (n_count (f y)))"

lemma mass_simps [simp]:
  "mass f [] = 0" "mass f (z # zs) = unat (n_count (f z)) + mass f zs" "mass f (ys @ zs) = mass f ys + mass f zs"
  by (simp_all add: mass_def)

lemma mass_cong: "(\<And>y. y \<in> set zs \<Longrightarrow> n_count (f y) = n_count (g y)) \<Longrightarrow> mass f zs = mass g zs"
  unfolding mass_def by (rule arg_cong [where f = sum_list], rule map_cong) auto

lemma mass_set: "distinct zs \<Longrightarrow> mass f zs = (\<Sum>y\<in>set zs. unat (n_count (f y)))"
  by (simp add: mass_def sum_list_distinct_conv_sum_set)

lemma halve_num: "unat (halve x) = (if unat x > 1 then unat x div 2 else unat x)"
proof -
  have "unat (drop_bit 1 x) = unat x div 2" by (simp add: drop_bit_eq_div unat_div)
  then show ?thesis by (simp add: halve_def word_less_nat_alt)
qed

lemma halve_bounds: "2 * unat (halve x) \<le> unat x + 1" "unat (halve x) \<le> unat x" "0 < x \<Longrightarrow> 0 < halve x"
proof -
  show "2 * unat (halve x) \<le> unat x + 1" by (auto simp: halve_num)
  show "unat (halve x) \<le> unat x" by (auto simp: halve_num)
  assume "0 < x"
  then have "0 < unat x" by (simp add: word_less_nat_alt)
  then have "0 < unat (halve x)" by (auto simp: halve_num)
  then show "0 < halve x" by (simp add: word_less_nat_alt)
qed

lemma mass_halved:
  assumes "x \<notin> set zs" "unat (n_escapes (f x)) + mass f zs < 65536"
  shows "unat (n_total (halved f x zs x)) = unat (n_escapes (halved f x zs x)) + mass (halved f x zs) zs"
    "2 * unat (n_total (halved f x zs x)) \<le> unat (n_escapes (f x)) + mass f zs + length zs + 1"
    "unat (n_total (halved f x zs x)) \<le> unat (n_escapes (f x)) + mass f zs"
proof -
  have twice: "2 * (\<Sum>y\<leftarrow>zs. unat (halve (n_count (f y)))) \<le> mass f zs + length zs"
  proof (induction zs)
    case (Cons a zs)
    with halve_bounds(1) [of "n_count (f a)"] show ?case by simp
  qed simp
  have le: "(\<Sum>y\<leftarrow>zs. unat (halve (n_count (f y)))) \<le> mass f zs"
    unfolding mass_def by (rule sum_list_mono) (rule halve_bounds(2))
  have m: "mass (halved f x zs) zs = (\<Sum>y\<leftarrow>zs. unat (halve (n_count (f y))))"
    unfolding mass_def by (rule arg_cong [where f = sum_list], rule map_cong) (use assms(1) in \<open>auto simp: halved_def\<close>)
  have s: "(\<Sum>y\<leftarrow>zs. halve (n_count (f y))) = of_nat (\<Sum>y\<leftarrow>zs. unat (halve (n_count (f y))))"
    by (induction zs) auto
  have w: "n_total (halved f x zs x) = of_nat (unat (halve (n_escapes (f x))) + mass (halved f x zs) zs)"
    unfolding m by (simp add: halved_def s)
  have t: "unat (n_total (halved f x zs x)) = unat (halve (n_escapes (f x))) + mass (halved f x zs) zs"
  proof -
    have "unat (halve (n_escapes (f x))) + mass (halved f x zs) zs < 65536"
      using halve_bounds(2) [of "n_escapes (f x)"] le m assms(2) by simp
    then show ?thesis unfolding w by (simp only: unat_of_nat) simp
  qed
  from t show "unat (n_total (halved f x zs x)) = unat (n_escapes (halved f x zs x)) + mass (halved f x zs) zs"
    by (simp add: halved_def)
  show "2 * unat (n_total (halved f x zs x)) \<le> unat (n_escapes (f x)) + mass f zs + length zs + 1"
    using t m halve_bounds(1) [of "n_escapes (f x)"] twice by simp
  show "unat (n_total (halved f x zs x)) \<le> unat (n_escapes (f x)) + mass f zs"
    using t m halve_bounds(2) [of "n_escapes (f x)"] le by simp
qed

section \<open>The searches\<close>

text \<open>The nodes whose symbols are not excluded.\<close>

abbreviation included :: "ppm \<Rightarrow> nat list \<Rightarrow> nat list" where
  "included m \<equiv> filter (\<lambda>y. \<not> excluded m (n_symbol (nodes m y)))"

abbreviation symbols_of :: "ppm \<Rightarrow> nat list \<Rightarrow> 16 word list" where
  "symbols_of m \<equiv> map (\<lambda>y. n_symbol (nodes m y))"

definition searchable :: "ppm_size \<Rightarrow> ppm \<Rightarrow> nat list \<Rightarrow> bool" where
  "searchable k m zs \<longleftrightarrow> length (exc m) = alphabet_size k div 32 + 1 \<and>
     list_all (\<lambda>s. unat s < alphabet_size k) (symbols_of m zs) \<and> distinct (symbols_of m zs)"

definition prev_node :: "nat option \<Rightarrow> nat list \<Rightarrow> nat option" where
  "prev_node p us = (if us = [] then p else Some (last us))"

lemma prev_node_simps [simp]: "prev_node p [] = p" "prev_node p (u # us) = prev_node (Some u) us"
  by (simp_all add: prev_node_def)

lemma searchable_Cons:
  "searchable k m (z # zs) \<Longrightarrow> exclude (n_symbol (nodes m z)) m = Some (excl (n_symbol (nodes m z)) m)"
  "searchable k m (z # zs) \<Longrightarrow> is_excluded (n_symbol (nodes m z)) m = Some (excluded m (n_symbol (nodes m z)))"
  "searchable k m (z # zs) \<Longrightarrow> searchable k (excl (n_symbol (nodes m z)) m) zs"
  "searchable k m (z # zs) \<Longrightarrow> searchable k m zs"
  "searchable k m (z # zs) \<Longrightarrow> included (excl (n_symbol (nodes m z)) m) zs = included m zs"
proof -
  assume s: "searchable k m (z # zs)"
  then have e: "length (exc m) = alphabet_size k div 32 + 1" "unat (n_symbol (nodes m z)) < alphabet_size k"
    by (simp_all add: searchable_def)
  from exclude_eq [OF e] show "exclude (n_symbol (nodes m z)) m = Some (excl (n_symbol (nodes m z)) m)"
    "is_excluded (n_symbol (nodes m z)) m = Some (excluded m (n_symbol (nodes m z)))" .
  from s show "searchable k (excl (n_symbol (nodes m z)) m) zs" "searchable k m zs" by (simp_all add: searchable_def)
  show "included (excl (n_symbol (nodes m z)) m) zs = included m zs"
  proof (rule filter_cong)
    fix y assume y: "y \<in> set zs"
    then have "n_symbol (nodes m y) \<in> set (symbols_of m zs)" by simp
    with s have "n_symbol (nodes m y) \<noteq> n_symbol (nodes m z)" "unat (n_symbol (nodes m y)) < alphabet_size k"
      by (auto simp: searchable_def list_all_iff)
    then show "(\<not> excluded (excl (n_symbol (nodes m z)) m) (n_symbol (nodes (excl (n_symbol (nodes m z)) m) y))) =
        (\<not> excluded m (n_symbol (nodes m y)))"
      by (simp add: excluded_excl [OF e])
  qed simp
qed

lemma searchable_append: "searchable k m (ys @ zs) \<Longrightarrow> searchable k m ys"
  by (simp add: searchable_def)

text \<open>The loop without exclusions.\<close>

lemma scan_plain_missing:
  assumes "chain (nodes m) (Some n) zs" "searchable k m zs" "symbol \<notin> set (symbols_of m zs)" "length zs \<le> fuel"
    "found_symbol r = None"
  shows "\<exists>r'. scan_plain fuel symbol n r m = Some (last zs, r', excl_all (symbols_of m zs) m) \<and> found_symbol r' = None \<and>
    high_count r' = high_count r + of_nat (mass (nodes m) zs) \<and> total_count r' = total_count r"
  using assms
proof (induction zs arbitrary: n r m fuel)
  case (Cons z zs)
  then obtain fu where fuel: "fuel = Suc fu" by (cases fuel) auto
  from Cons.prems(1) have z: "n = z" "chain (nodes m) (n_next (nodes m z)) zs" by auto
  note ex = searchable_Cons [OF Cons.prems(2)]
  define r1 where "r1 = r\<lparr>high_count := high_count r + n_count (nodes m z)\<rparr>"
  show ?case
  proof (cases zs)
    case Nil
    with z have "n_next (nodes m z) = None" by simp
    with Cons.prems(3,5) ex(1) show ?thesis by (simp add: fuel z(1) Let_def Nil)
  next
    case (Cons z' zs')
    with z(2) have nx: "n_next (nodes m z) = Some z'" by simp
    let ?m = "excl (n_symbol (nodes m z)) m"
    have "\<exists>r'. scan_plain fu symbol z' (r1\<lparr>found_last := Some z\<rparr>) ?m = Some (last zs, r', excl_all (symbols_of ?m zs) ?m) \<and>
        found_symbol r' = None \<and> high_count r' = high_count (r1\<lparr>found_last := Some z\<rparr>) + of_nat (mass (nodes ?m) zs) \<and>
        total_count r' = total_count (r1\<lparr>found_last := Some z\<rparr>)"
      by (rule Cons.IH) (use z nx Cons.prems ex(3) fuel in \<open>auto simp: r1_def\<close>)
    then show ?thesis using Cons.prems(3) ex(1) nx Cons by (auto simp: fuel z(1) Let_def r1_def algebra_simps)
  qed
qed simp

lemma scan_plain_found:
  assumes "chain (nodes m) (Some n) (us @ y # vs)" "searchable k m (us @ y # vs)" "symbol \<notin> set (symbols_of m us)"
    "n_symbol (nodes m y) = symbol" "length us < fuel"
  shows "\<exists>e. scan_plain fuel symbol n r m = Some (y, r\<lparr>found_symbol := Some y, found_last := prev_node (found_last r) us,
      low_count := high_count r + of_nat (mass (nodes m) us),
      high_count := high_count r + of_nat (mass (nodes m) us) + n_count (nodes m y)\<rparr>, m\<lparr>exc := e, exc_used := True\<rparr>) \<and>
    length e = length (exc m)"
  using assms
proof (induction us arbitrary: n r m fuel)
  case Nil
  then obtain fu where fuel: "fuel = Suc fu" by (cases fuel) auto
  from Nil.prems(1) have n: "n = y" by simp
  have "exclude symbol m = Some (excl symbol m)"
    using searchable_Cons(1) [of k m y vs] Nil.prems(2,4) by simp
  then have "scan_plain fuel symbol n r m = Some (y, r\<lparr>found_symbol := Some y, found_last := prev_node (found_last r) [],
      low_count := high_count r + of_nat (mass (nodes m) []),
      high_count := high_count r + of_nat (mass (nodes m) []) + n_count (nodes m y)\<rparr>, m\<lparr>exc := exc (excl symbol m), exc_used := True\<rparr>)"
    using Nil.prems(4) by (simp add: fuel n Let_def excl_def)
  then show ?case by (intro exI [of _ "exc (excl symbol m)"]) simp
next
  case (Cons z zs)
  then obtain fu where fuel: "fuel = Suc fu" by (cases fuel) auto
  from Cons.prems(1) have z: "n = z" "chain (nodes m) (n_next (nodes m z)) (zs @ y # vs)" by auto
  then obtain z' where nx: "n_next (nodes m z) = Some z'" by (cases zs) auto
  note ex = searchable_Cons [OF Cons.prems(2) [simplified]]
  define r1 where "r1 = r\<lparr>high_count := high_count r + n_count (nodes m z), found_last := Some z\<rparr>"
  let ?m = "excl (n_symbol (nodes m z)) m"
  have "\<exists>e. scan_plain fu symbol z' r1 ?m = Some (y, r1\<lparr>found_symbol := Some y, found_last := prev_node (found_last r1) zs,
      low_count := high_count r1 + of_nat (mass (nodes ?m) zs),
      high_count := high_count r1 + of_nat (mass (nodes ?m) zs) + n_count (nodes ?m y)\<rparr>, ?m\<lparr>exc := e, exc_used := True\<rparr>) \<and>
    length e = length (exc ?m)"
    by (rule Cons.IH) (use z nx Cons.prems ex(3) fuel in \<open>auto simp: r1_def\<close>)
  then show ?case using Cons.prems(3) ex(1) nx
    by (auto simp: fuel z(1) Let_def r1_def algebra_simps excl_def)
qed

text \<open>The loop with exclusions.\<close>

lemma excl_included:
  assumes "searchable k m (z # zs)" "exc_used m"
  shows "(if excluded m (n_symbol (nodes m z)) then m else excl (n_symbol (nodes m z)) m) = excl (n_symbol (nodes m z)) m"
  using excl_excluded [of m k "n_symbol (nodes m z)"] assms by (auto simp: searchable_def)

definition visit :: "16 word \<Rightarrow> nat \<Rightarrow> nat option \<Rightarrow> ppm \<Rightarrow> search \<Rightarrow> search" where
  "visit symbol n lst m r =
     (let x = nodes m n in
      if excluded m (n_symbol x) then r\<lparr>total_count := total_count r - n_count x\<rparr>
      else if found_symbol r \<noteq> None then r
      else if n_symbol x = symbol
      then r\<lparr>high_count := high_count r + n_count x, found_symbol := Some n, found_last := lst, low_count := high_count r\<rparr>
      else r\<lparr>high_count := high_count r + n_count x\<rparr>)"

lemma scan_excluded_step:
  assumes "searchable k m (n # zs)" "exc_used m"
  shows "scan_excluded (Suc fuel) symbol n lst r m =
    (case n_next (nodes m n) of
       None \<Rightarrow> Some (n, visit symbol n lst m r, excl (n_symbol (nodes m n)) m)
     | Some n' \<Rightarrow> scan_excluded fuel symbol n' (Some n) (visit symbol n lst m r) (excl (n_symbol (nodes m n)) m))"
proof (cases "excluded m (n_symbol (nodes m n))")
  case True
  then show ?thesis
    using searchable_Cons(1,2) [OF assms(1)] excl_included [OF assms] by (simp add: visit_def Let_def split: option.split)
next
  case False
  then show ?thesis
    using searchable_Cons(1,2) [OF assms(1)] by (simp add: visit_def Let_def split: option.split)
qed

text \<open>What is left of the total after the loop has seen some nodes.\<close>

definition remaining :: "ppm \<Rightarrow> nat list \<Rightarrow> 16 word \<Rightarrow> 16 word" where
  "remaining m zs t = t - of_nat (mass (nodes m) zs) + of_nat (mass (nodes m) (included m zs))"

lemma remaining_Cons:
  "remaining m (z # zs) t = remaining m zs (if excluded m (n_symbol (nodes m z)) then t - n_count (nodes m z) else t)"
  by (simp add: remaining_def algebra_simps)

lemma remaining_excl:
  "searchable k m (z # zs) \<Longrightarrow> remaining (excl (n_symbol (nodes m z)) m) zs t = remaining m zs t"
  using searchable_Cons(5) [of k m z zs] by (simp add: remaining_def)

lemma scan_excluded_rest:
  assumes "chain (nodes m) (Some n) zs" "searchable k m zs" "exc_used m" "length zs \<le> fuel" "found_symbol r \<noteq> None"
  shows "scan_excluded fuel symbol n lst r m =
    Some (last zs, r\<lparr>total_count := remaining m zs (total_count r)\<rparr>, excl_all (symbols_of m zs) m)"
  using assms
proof (induction zs arbitrary: n lst r m fuel)
  case (Cons z zs)
  then obtain fu where fuel: "fuel = Suc fu" by (cases fuel) auto
  from Cons.prems(1) have z: "n = z" "chain (nodes m) (n_next (nodes m z)) zs" by auto
  define r1 where "r1 = visit symbol z lst m r"
  have r1: "r1 = (if excluded m (n_symbol (nodes m z)) then r\<lparr>total_count := total_count r - n_count (nodes m z)\<rparr> else r)"
    using Cons.prems(5) by (simp add: r1_def visit_def Let_def)
  let ?m = "excl (n_symbol (nodes m z)) m"
  have step: "scan_excluded fuel symbol n lst r m =
      (case n_next (nodes m z) of None \<Rightarrow> Some (z, r1, ?m) | Some n' \<Rightarrow> scan_excluded fu symbol n' (Some z) r1 ?m)"
    unfolding fuel z(1) r1_def by (rule scan_excluded_step [OF Cons.prems(2,3)])
  have rem: "r1\<lparr>total_count := remaining ?m zs (total_count r1)\<rparr> = r\<lparr>total_count := remaining m (z # zs) (total_count r)\<rparr>"
    unfolding remaining_excl [OF Cons.prems(2)] remaining_Cons by (simp add: r1)
  show ?case
  proof (cases zs)
    case Nil
    with z have "n_next (nodes m z) = None" by simp
    with step rem show ?thesis by (simp add: Nil remaining_def)
  next
    case (Cons z' zs')
    with z(2) have nx: "n_next (nodes m z) = Some z'" by simp
    have "scan_excluded fu symbol z' (Some z) r1 ?m =
        Some (last zs, r1\<lparr>total_count := remaining ?m zs (total_count r1)\<rparr>, excl_all (symbols_of ?m zs) ?m)"
      by (rule Cons.IH) (use z nx Cons.prems searchable_Cons(3) [OF Cons.prems(2)] fuel in \<open>auto simp: r1\<close>)
    then show ?thesis using step nx rem Cons by simp
  qed
qed simp

lemma scan_excluded_missing:
  assumes "chain (nodes m) (Some n) zs" "searchable k m zs" "exc_used m" "length zs \<le> fuel" "found_symbol r = None"
    "symbol \<notin> set (symbols_of m (included m zs))"
  shows "scan_excluded fuel symbol n lst r m =
    Some (last zs, r\<lparr>total_count := remaining m zs (total_count r),
      high_count := high_count r + of_nat (mass (nodes m) (included m zs))\<rparr>, excl_all (symbols_of m zs) m)"
  using assms
proof (induction zs arbitrary: n lst r m fuel)
  case (Cons z zs)
  then obtain fu where fuel: "fuel = Suc fu" by (cases fuel) auto
  from Cons.prems(1) have z: "n = z" "chain (nodes m) (n_next (nodes m z)) zs" by auto
  define r1 where "r1 = visit symbol z lst m r"
  have r1: "r1 = (if excluded m (n_symbol (nodes m z)) then r\<lparr>total_count := total_count r - n_count (nodes m z)\<rparr>
    else r\<lparr>high_count := high_count r + n_count (nodes m z)\<rparr>)"
    using Cons.prems(5,6) by (auto simp: r1_def visit_def Let_def)
  let ?m = "excl (n_symbol (nodes m z)) m"
  have step: "scan_excluded fuel symbol n lst r m =
      (case n_next (nodes m z) of None \<Rightarrow> Some (z, r1, ?m) | Some n' \<Rightarrow> scan_excluded fu symbol n' (Some z) r1 ?m)"
    unfolding fuel z(1) r1_def by (rule scan_excluded_step [OF Cons.prems(2,3)])
  have rem: "r1\<lparr>total_count := remaining ?m zs (total_count r1), high_count := high_count r1 + of_nat (mass (nodes ?m) (included ?m zs))\<rparr> =
      r\<lparr>total_count := remaining m (z # zs) (total_count r), high_count := high_count r + of_nat (mass (nodes m) (included m (z # zs)))\<rparr>"
    unfolding remaining_excl [OF Cons.prems(2)] remaining_Cons searchable_Cons(5) [OF Cons.prems(2)] by (simp add: r1 algebra_simps)
  show ?case
  proof (cases zs)
    case Nil
    with z have "n_next (nodes m z) = None" by simp
    with step rem show ?thesis by (simp add: Nil remaining_def)
  next
    case (Cons z' zs')
    with z(2) have nx: "n_next (nodes m z) = Some z'" by simp
    have "scan_excluded fu symbol z' (Some z) r1 ?m =
        Some (last zs, r1\<lparr>total_count := remaining ?m zs (total_count r1), high_count := high_count r1 + of_nat (mass (nodes ?m) (included ?m zs))\<rparr>,
          excl_all (symbols_of ?m zs) ?m)"
      by (rule Cons.IH) (use z nx Cons.prems searchable_Cons(3,5) [OF Cons.prems(2)] fuel in \<open>auto simp: r1\<close>)
    then show ?thesis using step nx rem Cons by simp
  qed
qed simp

lemma scan_excluded_found:
  assumes "chain (nodes m) (Some n) (us @ y # vs)" "searchable k m (us @ y # vs)" "exc_used m" "length (us @ y # vs) \<le> fuel"
    "found_symbol r = None" "symbol \<notin> set (symbols_of m us)" "n_symbol (nodes m y) = symbol" "\<not> excluded m symbol"
  shows "scan_excluded fuel symbol n lst r m =
    Some (last (us @ y # vs), r\<lparr>total_count := remaining m (us @ y # vs) (total_count r), found_symbol := Some y, found_last := prev_node lst us,
      low_count := high_count r + of_nat (mass (nodes m) (included m us)),
      high_count := high_count r + of_nat (mass (nodes m) (included m us)) + n_count (nodes m y)\<rparr>, excl_all (symbols_of m (us @ y # vs)) m)"
  using assms
proof (induction us arbitrary: n lst r m fuel)
  case Nil
  from Nil.prems(4) obtain fu where fuel: "fuel = Suc fu" by (cases fuel) auto
  from Nil.prems(1) have z: "n = y" "chain (nodes m) (n_next (nodes m y)) vs" by auto
  note s = Nil.prems(2) [simplified]
  define r1 where "r1 = visit symbol y lst m r"
  have r1: "r1 = r\<lparr>found_symbol := Some y, found_last := lst, low_count := high_count r, high_count := high_count r + n_count (nodes m y)\<rparr>"
    using Nil.prems(5,7,8) by (simp add: r1_def visit_def Let_def)
  let ?m = "excl (n_symbol (nodes m y)) m"
  have step: "scan_excluded fuel symbol n lst r m =
      (case n_next (nodes m y) of None \<Rightarrow> Some (y, r1, ?m) | Some n' \<Rightarrow> scan_excluded fu symbol n' (Some y) r1 ?m)"
    unfolding fuel z(1) r1_def by (rule scan_excluded_step [OF s Nil.prems(3)])
  have rem: "remaining ?m vs t = remaining m (y # vs) t" for t
    unfolding remaining_excl [OF s] remaining_Cons using Nil.prems(7,8) by simp
  show ?case
  proof (cases vs)
    case Nil
    with z have "n_next (nodes m y) = None" by simp
    with step rem [of "total_count r"] show ?thesis by (simp add: Nil r1) (simp add: remaining_def)
  next
    case (Cons z' zs')
    with z(2) have nx: "n_next (nodes m y) = Some z'" by simp
    have "scan_excluded fu symbol z' (Some y) r1 ?m = Some (last vs, r1\<lparr>total_count := remaining ?m vs (total_count r1)\<rparr>, excl_all (symbols_of ?m vs) ?m)"
      by (rule scan_excluded_rest) (use z nx Nil.prems searchable_Cons(3) [OF s] fuel in \<open>auto simp: r1\<close>)
    then show ?thesis using step nx rem Cons by (simp add: r1)
  qed
next
  case (Cons z zs)
  from Cons.prems(4) obtain fu where fuel: "fuel = Suc fu" by (cases fuel) auto
  from Cons.prems(1) have z: "n = z" "chain (nodes m) (n_next (nodes m z)) (zs @ y # vs)" by auto
  then obtain z' where nx: "n_next (nodes m z) = Some z'" by (cases zs) auto
  note s = Cons.prems(2) [simplified]
  define r1 where "r1 = visit symbol z lst m r"
  have r1: "r1 = (if excluded m (n_symbol (nodes m z)) then r\<lparr>total_count := total_count r - n_count (nodes m z)\<rparr>
    else r\<lparr>high_count := high_count r + n_count (nodes m z)\<rparr>)"
    using Cons.prems(5,6) by (auto simp: r1_def visit_def Let_def)
  let ?m = "excl (n_symbol (nodes m z)) m"
  have step: "scan_excluded fuel symbol n lst r m = scan_excluded fu symbol z' (Some z) r1 ?m"
    unfolding fuel z(1) r1_def using scan_excluded_step [OF s Cons.prems(3)] nx by simp
  have inc: "included ?m zs = included m zs"
    using searchable_Cons(5) [OF s] searchable_append [of k m "z # zs" "y # vs"] s searchable_Cons(5) [of k m z zs] by simp
  have ey: "\<not> excluded ?m symbol"
    using s Cons.prems(7,8) excluded_excl [of m k "n_symbol (nodes m z)" symbol] by (auto simp: searchable_def list_all_iff)
  have rem: "remaining ?m (zs @ y # vs) (total_count r1) = remaining m (z # zs @ y # vs) (total_count r)"
    unfolding remaining_excl [OF s] remaining_Cons by (simp add: r1)
  have "scan_excluded fu symbol z' (Some z) r1 ?m =
      Some (last (zs @ y # vs), r1\<lparr>total_count := remaining ?m (zs @ y # vs) (total_count r1), found_symbol := Some y, found_last := prev_node (Some z) zs,
        low_count := high_count r1 + of_nat (mass (nodes ?m) (included ?m zs)),
        high_count := high_count r1 + of_nat (mass (nodes ?m) (included ?m zs)) + n_count (nodes ?m y)\<rparr>, excl_all (symbols_of ?m (zs @ y # vs)) ?m)"
    by (rule Cons.IH) (use z nx Cons.prems searchable_Cons(3) [OF s] fuel ey in \<open>auto simp: r1\<close>)
  then show ?case unfolding step rem inc by (simp add: r1 algebra_simps)
qed

text \<open>The loops of the decoder.\<close>

lemma count_word: "(ucast (x :: 16 word) :: 64 word) = of_nat (unat x)"
  by simp

lemma sum_included_eq:
  assumes "chain (nodes m) (Some n) zs" "searchable k m zs" "length zs \<le> fuel"
  shows "sum_included fuel n tot m = Some (tot + of_nat (mass (nodes m) (included m zs)))"
  using assms
proof (induction zs arbitrary: n tot fuel)
  case (Cons z zs)
  then obtain fu where fuel: "fuel = Suc fu" by (cases fuel) auto
  from Cons.prems(1) have z: "n = z" "chain (nodes m) (n_next (nodes m z)) zs" by auto
  note ex = searchable_Cons [OF Cons.prems(2)]
  show ?case
  proof (cases zs)
    case Nil
    with z have "n_next (nodes m z) = None" by simp
    with ex(2) show ?thesis by (simp add: fuel z(1) Let_def Nil)
  next
    case (Cons z' zs')
    with z(2) have nx: "n_next (nodes m z) = Some z'" by simp
    have "sum_included fu z' s m = Some (s + of_nat (mass (nodes m) (included m zs)))" for s
      by (rule Cons.IH) (use z nx Cons.prems ex(4) fuel in auto)
    then show ?thesis using ex(2) nx by (simp add: fuel z(1) Let_def algebra_simps)
  qed
qed simp

lemma find_target_step:
  fixes g :: nat
  assumes "searchable k m (n # zs)" "excl_ok k m"
  defines "h \<equiv> of_nat (g + mass (nodes m) (included m [n]))"
  defines "m' \<equiv> excl (n_symbol (nodes m n)) m"
  shows "find_target (Suc fuel) target n prev (of_nat g) m =
    (if h > target then Some ((n, prev, h), m')
     else case n_next (nodes m n) of None \<Rightarrow> Some ((n, prev, h), m') | Some n' \<Rightarrow> find_target fuel target n' (Some n) h m')"
proof (cases "excluded m (n_symbol (nodes m n))")
  case True
  with not_used_not_excluded [OF assms(2)] assms(1) have "exc_used m" by (auto simp: searchable_def)
  from excl_included [OF assms(1) this] True have "excl (n_symbol (nodes m n)) m = m" by simp
  then have m': "m' = m" by (simp add: m'_def)
  from True have h: "h = of_nat g" by (simp add: h_def)
  from True searchable_Cons(2) [OF assms(1)] show ?thesis unfolding m' h by simp
next
  case False
  then have h: "h = of_nat g + ucast (n_count (nodes m n))" by (simp add: h_def)
  from searchable_Cons(1,2) [OF assms(1)] False show ?thesis unfolding h m'_def by simp
qed

lemma of_nat_64: "n < 65536 \<Longrightarrow> unat (of_nat n :: 64 word) = n"
  by (simp only: unat_of_nat) simp

lemma find_target_missing:
  assumes "chain (nodes m) (Some n) zs" "searchable k m zs" "excl_ok k m" "length zs \<le> fuel"
    "h + mass (nodes m) (included m zs) \<le> unat target" "h + mass (nodes m) (included m zs) < 65536"
  shows "\<exists>p. find_target fuel target n prev (of_nat h) m =
    Some ((last zs, p, of_nat (h + mass (nodes m) (included m zs))), excl_all (symbols_of m zs) m)"
  using assms
proof (induction zs arbitrary: n prev h m fuel)
  case (Cons z zs)
  then obtain fu where fuel: "fuel = Suc fu" by (cases fuel) auto
  from Cons.prems(1) have z: "n = z" "chain (nodes m) (n_next (nodes m z)) zs" by auto
  note ex = searchable_Cons [OF Cons.prems(2)]
  let ?m = "excl (n_symbol (nodes m z)) m" and ?h = "h + mass (nodes m) (included m [z])"
  have "?h \<le> unat target" "?h < 65536" using Cons.prems(5,6) by (auto split: if_splits)
  then have "\<not> of_nat ?h > target" using of_nat_64 [of ?h] by (simp add: word_less_nat_alt not_less)
  then have step: "find_target fuel target n prev (of_nat h) m =
      (case n_next (nodes m z) of None \<Rightarrow> Some ((z, prev, of_nat ?h), ?m) | Some n' \<Rightarrow> find_target fu target n' (Some z) (of_nat ?h) ?m)"
    unfolding fuel z(1) find_target_step [OF Cons.prems(2,3)] by (rule if_not_P)
  show ?case
  proof (cases zs)
    case Nil
    with z have "n_next (nodes m z) = None" by simp
    with step show ?thesis by (simp add: Nil)
  next
    case (Cons z' zs')
    with z(2) have nx: "n_next (nodes m z) = Some z'" by simp
    have "\<exists>p. find_target fu target z' (Some z) (of_nat ?h) ?m =
        Some ((last zs, p, of_nat (?h + mass (nodes ?m) (included ?m zs))), excl_all (symbols_of ?m zs) ?m)"
    proof (rule Cons.IH)
      show "?h + mass (nodes ?m) (included ?m zs) \<le> unat target" "?h + mass (nodes ?m) (included ?m zs) < 65536"
        unfolding ex(5) using Cons.prems(5,6) by (auto split: if_splits)
      show "excl_ok k ?m" by (rule excl_ok_excl [OF Cons.prems(3)])
    qed (use z nx Cons.prems ex(3) fuel in auto)
    then obtain p where p: "find_target fu target z' (Some z) (of_nat ?h) ?m =
        Some ((last zs, p, of_nat (?h + mass (nodes ?m) (included ?m zs))), excl_all (symbols_of ?m zs) ?m)" by blast
    have "?h + mass (nodes ?m) (included ?m zs) = h + mass (nodes m) (included m (z # zs))" unfolding ex(5) by simp
    moreover have "last (z # zs) = last zs" "excl_all (symbols_of m (z # zs)) m = excl_all (symbols_of ?m zs) ?m" using Cons by simp_all
    ultimately show ?thesis unfolding step nx option.case using p by (simp only:) blast
  qed
qed simp

lemma find_target_found:
  assumes "chain (nodes m) (Some n) (us @ y # vs)" "searchable k m (us @ y # vs)" "excl_ok k m" "length us < fuel"
    "\<not> excluded m (n_symbol (nodes m y))"
    "h + mass (nodes m) (included m us) \<le> unat target" "unat target < h + mass (nodes m) (included m us) + unat (n_count (nodes m y))"
    "h + mass (nodes m) (included m us) + unat (n_count (nodes m y)) < 65536"
  shows "find_target fuel target n prev (of_nat h) m =
    Some ((y, prev_node prev us, of_nat (h + mass (nodes m) (included m us) + unat (n_count (nodes m y)))), excl_all (symbols_of m (us @ [y])) m)"
  using assms
proof (induction us arbitrary: n prev h m fuel)
  case Nil
  then obtain fu where fuel: "fuel = Suc fu" by (cases fuel) auto
  from Nil.prems(1) have n: "n = y" by simp
  let ?h = "h + mass (nodes m) (included m [y])"
  have h: "?h = h + unat (n_count (nodes m y))" using Nil.prems(5) by simp
  have "of_nat ?h > target" unfolding h using Nil.prems(7,8) of_nat_64 [of "h + unat (n_count (nodes m y))"]
    by (simp only: word_less_nat_alt) simp
  then show ?case
    unfolding fuel n using find_target_step [OF Nil.prems(2) [simplified] Nil.prems(3), of fu target prev h] Nil.prems(5)
    by (simp only: if_True h) simp
next
  case (Cons z zs)
  then obtain fu where fuel: "fuel = Suc fu" by (cases fuel) auto
  from Cons.prems(1) have z: "n = z" "chain (nodes m) (n_next (nodes m z)) (zs @ y # vs)" by auto
  then obtain z' where nx: "n_next (nodes m z) = Some z'" by (cases zs) auto
  note s = Cons.prems(2) [simplified]
  let ?m = "excl (n_symbol (nodes m z)) m" and ?h = "h + mass (nodes m) (included m [z])"
  have "?h \<le> unat target" "?h < 65536" using Cons.prems(6,8) by (auto split: if_splits)
  then have "\<not> of_nat ?h > target" using of_nat_64 [of ?h] by (simp add: word_less_nat_alt not_less)
  then have step: "find_target fuel target n prev (of_nat h) m = find_target fu target z' (Some z) (of_nat ?h) ?m"
    unfolding fuel z(1) using find_target_step [OF s Cons.prems(3), of fu target prev h] nx by (simp only: if_False option.case)
  have inc: "included ?m zs = included m zs"
    using s searchable_append [of k m "z # zs" "y # vs"] searchable_Cons(5) [of k m z zs] by simp
  have ey: "\<not> excluded ?m (n_symbol (nodes m y))"
    using s Cons.prems(5) excluded_excl [of m k "n_symbol (nodes m z)" "n_symbol (nodes m y)"] by (auto simp: searchable_def)
  have sum: "?h + mass (nodes ?m) (included ?m zs) = h + mass (nodes m) (included m (z # zs))" unfolding inc by simp
  have "find_target fu target z' (Some z) (of_nat ?h) ?m =
      Some ((y, prev_node (Some z) zs, of_nat (?h + mass (nodes ?m) (included ?m zs) + unat (n_count (nodes ?m y)))), excl_all (symbols_of ?m (zs @ [y])) ?m)"
  proof (rule Cons.IH)
    show "?h + mass (nodes ?m) (included ?m zs) \<le> unat target" unfolding sum using Cons.prems(6) .
    show "unat target < ?h + mass (nodes ?m) (included ?m zs) + unat (n_count (nodes ?m y))"
      "?h + mass (nodes ?m) (included ?m zs) + unat (n_count (nodes ?m y)) < 65536"
      unfolding sum using Cons.prems(7,8) by simp_all
    show "excl_ok k ?m" by (rule excl_ok_excl [OF Cons.prems(3)])
  qed (use z nx Cons.prems searchable_Cons(3) [OF s] fuel ey in auto)
  then show ?case unfolding step sum by simp
qed

end
