(* ===== verification/Ppm_Shape.thy ===== *)
theory Ppm_Shape
  imports Ppm_Search
begin

text \<open>
  The invariant of the models, the \<open>CONVENTION\<close> of the two classes, and what each operation that they share keeps of
  it: scaling, counting a symbol, a new node, clearing, and the counts of the new nodes at the end of a call.
\<close>

section \<open>The invariant\<close>

text \<open>
  \<open>K x\<close> are the child nodes of \<open>x\<close> in the order of the chain and \<open>d x\<close> its depth. The nodes that have been allocated
  during a call wait on the stack for their symbol and their count.
\<close>

definition shaped :: "ppm_size \<Rightarrow> (nat \<Rightarrow> nat list) \<Rightarrow> (nat \<Rightarrow> nat) \<Rightarrow> ppm \<Rightarrow> bool" where
  "shaped k K d m \<longleftrightarrow> 1 \<le> next_node m \<and> next_node m \<le> total_nodes k \<and> d 0 = 0 \<and>
     (\<forall>x < next_node m. chain (nodes m) (n_child (nodes m x)) (K x) \<and> distinct (K x) \<and>
        (\<forall>y \<in> set (K x). 0 < y \<and> y < next_node m \<and> d y = Suc (d x)) \<and>
        (\<forall>z < next_node m. z \<noteq> x \<longrightarrow> set (K x) \<inter> set (K z) = {}))"

definition tally :: "ppm_size \<Rightarrow> nat \<Rightarrow> ppm \<Rightarrow> nat set \<Rightarrow> nat \<Rightarrow> bool" where
  "tally k B m S x \<longleftrightarrow>
     (if S = {} then n_total (nodes m x) = 0
      else 0 < n_escapes (nodes m x) \<and>
        (\<forall>y \<in> S. 0 < n_count (nodes m y) \<and> unat (n_symbol (nodes m y)) < alphabet_size k) \<and>
        inj_on (\<lambda>y. n_symbol (nodes m y)) S \<and>
        unat (n_total (nodes m x)) = unat (n_escapes (nodes m x)) + (\<Sum>y\<in>S. unat (n_count (nodes m y))) \<and>
        unat (n_total (nodes m x)) \<le> B)"

abbreviation waiting :: "ppm \<Rightarrow> nat set" where
  "waiting m \<equiv> fst ` set (stack m)"

definition tallied :: "ppm_size \<Rightarrow> (nat \<Rightarrow> nat list) \<Rightarrow> ppm \<Rightarrow> bool" where
  "tallied k K m \<longleftrightarrow> (\<forall>x < next_node m. tally k 10008 m (set (K x) - waiting m) x)"

text \<open>Every node but the root has a parent, except the one that was allocated last.\<close>

definition linked :: "(nat \<Rightarrow> nat) \<Rightarrow> nat option \<Rightarrow> ppm \<Rightarrow> bool" where
  "linked d new_node m \<longleftrightarrow> (\<forall>x. 0 < x \<and> x < next_node m \<and> new_node \<noteq> Some x \<longrightarrow>
     (\<exists>p < next_node m. n_parent (nodes m x) = Some p \<and> d x = Suc (d p)))"

definition stacked :: "(nat \<Rightarrow> nat list) \<Rightarrow> 16 word \<Rightarrow> ppm \<Rightarrow> bool" where
  "stacked K symbol m \<longleftrightarrow> distinct (map fst (stack m)) \<and> distinct (map snd (stack m)) \<and>
     (\<forall>(n, nc) \<in> set (stack m). nc < next_node m \<and> n \<in> set (K nc) \<and>
        (\<forall>y \<in> set (K nc) - waiting m. n_symbol (nodes m y) \<noteq> symbol))"

definition cur_ok :: "ppm_size \<Rightarrow> (nat \<Rightarrow> nat) \<Rightarrow> ppm \<Rightarrow> bool" where
  "cur_ok k d m \<longleftrightarrow> (\<forall>c. cur m = Some c \<longrightarrow> c < next_node m \<and> d c = cur_order m \<and> cur_order m \<le> order k)"

definition tree_ok :: "ppm_size \<Rightarrow> (nat \<Rightarrow> nat list) \<Rightarrow> (nat \<Rightarrow> nat) \<Rightarrow> 16 word \<Rightarrow> nat option \<Rightarrow> ppm \<Rightarrow> bool" where
  "tree_ok k K d symbol new_node m \<longleftrightarrow>
     shaped k K d m \<and> tallied k K m \<and> linked d new_node m \<and> stacked K symbol m \<and> cur_ok k d m"

text \<open>The bounds on the template arguments; the classes assert the last one and \<open>1 < alphabet_size\<close>.\<close>

definition sized :: "ppm_size \<Rightarrow> bool" where
  "sized k \<longleftrightarrow> 1 < alphabet_size k \<and> alphabet_size k \<le> 4096 \<and> 4096 < total_nodes k"

text \<open>Between two calls.\<close>

definition settled :: "ppm_size \<Rightarrow> ppm \<Rightarrow> bool" where
  "settled k m \<longleftrightarrow> stack m = [] \<and> cur m \<noteq> None \<and> excl_ok k m \<and> (\<exists>K d. tree_ok k K d 0 None m)"

section \<open>Consequences\<close>

lemma shapedD:
  assumes "shaped k K d m" "x < next_node m"
  shows "chain (nodes m) (n_child (nodes m x)) (K x)" "distinct (K x)"
    "y \<in> set (K x) \<Longrightarrow> 0 < y \<and> y < next_node m \<and> d y = Suc (d x) \<and> y \<noteq> x"
    "z < next_node m \<Longrightarrow> z \<noteq> x \<Longrightarrow> set (K x) \<inter> set (K z) = {}" "x \<notin> set (K x)" "length (K x) < total_nodes k"
proof -
  from assms show "chain (nodes m) (n_child (nodes m x)) (K x)" and di: "distinct (K x)"
    and y: "y \<in> set (K x) \<Longrightarrow> 0 < y \<and> y < next_node m \<and> d y = Suc (d x) \<and> y \<noteq> x" for y
    unfolding shaped_def by (blast, blast, metis n_not_Suc_n)
  from assms show "z < next_node m \<Longrightarrow> z \<noteq> x \<Longrightarrow> set (K x) \<inter> set (K z) = {}" unfolding shaped_def by blast
  from y show "x \<notin> set (K x)" by blast
  have "set (K x) \<subseteq> {0<..<next_node m}" using y by auto
  then have "length (K x) \<le> card {0<..<next_node m}"
    unfolding distinct_card [OF di, symmetric] by (rule card_mono [rotated]) simp
  then show "length (K x) < total_nodes k" using assms by (auto simp: shaped_def)
qed

lemma tallyD:
  assumes "tally k B m S x" "S \<noteq> {}"
  shows "0 < n_escapes (nodes m x)" "\<And>y. y \<in> S \<Longrightarrow> 0 < n_count (nodes m y)"
    "\<And>y. y \<in> S \<Longrightarrow> unat (n_symbol (nodes m y)) < alphabet_size k" "inj_on (\<lambda>y. n_symbol (nodes m y)) S"
    "unat (n_total (nodes m x)) = unat (n_escapes (nodes m x)) + (\<Sum>y\<in>S. unat (n_count (nodes m y)))"
    "unat (n_total (nodes m x)) \<le> B"
  using assms by (simp_all add: tally_def)

lemma tally_cong:
  assumes "\<And>y. y \<in> S \<Longrightarrow> n_count (nodes m y) = n_count (nodes m' y) \<and> n_symbol (nodes m y) = n_symbol (nodes m' y)"
    "n_total (nodes m x) = n_total (nodes m' x)" "n_escapes (nodes m x) = n_escapes (nodes m' x)"
  shows "tally k B m S x \<longleftrightarrow> tally k B m' S x"
proof -
  have "(\<Sum>y\<in>S. unat (n_count (nodes m y))) = (\<Sum>y\<in>S. unat (n_count (nodes m' y)))"
    by (rule sum.cong) (use assms(1) in auto)
  moreover have "inj_on (\<lambda>y. n_symbol (nodes m y)) S \<longleftrightarrow> inj_on (\<lambda>y. n_symbol (nodes m' y)) S"
    by (rule inj_on_cong) (use assms(1) in auto)
  ultimately show ?thesis using assms unfolding tally_def by auto
qed

lemma tally_nodes: "nodes m = nodes m' \<Longrightarrow> tally k B m S x \<longleftrightarrow> tally k B m' S x"
  by (rule tally_cong) simp_all

text \<open>A change that leaves the links, the symbols and the stack alone.\<close>

definition same_links :: "ppm \<Rightarrow> ppm \<Rightarrow> bool" where
  "same_links m m' \<longleftrightarrow> next_node m' = next_node m \<and> stack m' = stack m \<and> cur m' = cur m \<and> cur_order m' = cur_order m \<and>
     (\<forall>y. n_next (nodes m' y) = n_next (nodes m y) \<and> n_child (nodes m' y) = n_child (nodes m y) \<and>
        n_parent (nodes m' y) = n_parent (nodes m y) \<and> n_symbol (nodes m' y) = n_symbol (nodes m y))"

lemma same_links_shaped: "same_links m m' \<Longrightarrow> shaped k K d m' \<longleftrightarrow> shaped k K d m"
proof -
  assume s: "same_links m m'"
  have "chain (nodes m') p zs \<longleftrightarrow> chain (nodes m) p zs" for p zs
    by (rule chain_cong) (use s in \<open>simp add: same_links_def\<close>)
  with s show ?thesis by (simp add: shaped_def same_links_def)
qed

lemma same_links_rest:
  assumes "same_links m m'"
  shows "linked d p m' \<longleftrightarrow> linked d p m" "stacked K s m' \<longleftrightarrow> stacked K s m" "cur_ok k d m' \<longleftrightarrow> cur_ok k d m"
  using assms by (simp_all add: linked_def stacked_def cur_ok_def same_links_def)

lemma same_links_inv: "same_links m m' \<Longrightarrow> tree_ok k K d symbol p m \<Longrightarrow> tallied k K m' \<Longrightarrow> tree_ok k K d symbol p m'"
  by (simp add: tree_ok_def same_links_shaped same_links_rest)

lemma tree_okD:
  assumes "tree_ok k K d symbol p m"
  shows "shaped k K d m" "tallied k K m" "linked d p m" "stacked K symbol m" "cur_ok k d m"
  using assms by (simp_all add: tree_ok_def)

lemma tally_length:
  assumes "tally k B m (set zs) x" "distinct zs"
  shows "length zs \<le> alphabet_size k"
proof (cases "zs = []")
  case False
  with assms(1) have i: "inj_on (\<lambda>y. n_symbol (nodes m y)) (set zs)" "\<forall>y\<in>set zs. unat (n_symbol (nodes m y)) < alphabet_size k"
    by (simp_all add: tally_def)
  have "inj_on (\<lambda>y. unat (n_symbol (nodes m y))) (set zs)"
  proof (rule inj_onI)
    fix y z assume "y \<in> set zs" "z \<in> set zs" "unat (n_symbol (nodes m y)) = unat (n_symbol (nodes m z))"
    then show "y = z" by (intro inj_onD [OF i(1)]) (simp_all add: word_unat_eq_iff)
  qed
  moreover have "(\<lambda>y. unat (n_symbol (nodes m y))) ` set zs \<subseteq> {..<alphabet_size k}" using i(2) by auto
  ultimately have "card (set zs) \<le> card {..<alphabet_size k}" by (rule card_inj_on_le) simp
  with assms(2) show ?thesis by (simp add: distinct_card)
qed simp

lemma tally_nonzero: "tally k B m S x \<Longrightarrow> n_total (nodes m x) = 0 \<longleftrightarrow> S = {}"
  by (auto simp: tally_def word_less_nat_alt split: if_splits)

section \<open>Scaling\<close>

lemma tally_scale:
  assumes "shaped k K d m" "x < next_node m" "tally k B m (set (K x)) x" "K x \<noteq> []" "B < 65536"
  defines "m' \<equiv> m\<lparr>nodes := halved (nodes m) x (K x)\<rparr>"
  shows "scale_counts k x m = Some m'" "same_links m m'"
    "tally k (unat (n_total (nodes m' x))) m' (set (K x)) x"
    "2 * unat (n_total (nodes m' x)) \<le> unat (n_total (nodes m x)) + alphabet_size k + 1"
    "unat (n_total (nodes m' x)) \<le> unat (n_total (nodes m x))"
    "z < next_node m \<Longrightarrow> z \<noteq> x \<Longrightarrow> S \<subseteq> set (K z) \<Longrightarrow> tally k B' m' S z \<longleftrightarrow> tally k B' m S z"
proof -
  note s = shapedD [OF assms(1,2)]
  from s(6) show "scale_counts k x m = Some m'" unfolding m'_def by (intro scale_counts_eq [OF s(1,2,5)]) simp
  show "same_links m m'" by (simp add: same_links_def m'_def)
  from assms(3,4) have t: "0 < n_escapes (nodes m x)" "\<And>y. y \<in> set (K x) \<Longrightarrow> 0 < n_count (nodes m y)"
    "\<And>y. y \<in> set (K x) \<Longrightarrow> unat (n_symbol (nodes m y)) < alphabet_size k"
    "inj_on (\<lambda>y. n_symbol (nodes m y)) (set (K x))"
    "unat (n_total (nodes m x)) = unat (n_escapes (nodes m x)) + mass (nodes m) (K x)" "unat (n_total (nodes m x)) \<le> B"
    by (simp_all add: tally_def mass_set [OF s(2)])
  have b: "unat (n_escapes (nodes m x)) + mass (nodes m) (K x) < 65536" using t(5,6) assms(5) by simp
  note h = mass_halved [OF s(5) b]
  show "tally k (unat (n_total (nodes m' x))) m' (set (K x)) x"
    unfolding tally_def using h(1) t(1-4) halve_bounds(3) s(5) assms(4)
    by (auto simp: m'_def mass_set [OF s(2)]) (auto simp: halved_def)
  show "2 * unat (n_total (nodes m' x)) \<le> unat (n_total (nodes m x)) + alphabet_size k + 1"
    using h(2) tally_length [OF assms(3) s(2)] t(5) by (simp add: m'_def)
  show "unat (n_total (nodes m' x)) \<le> unat (n_total (nodes m x))" using h(3) t(5) by (simp add: m'_def)
  assume z: "z < next_node m" "z \<noteq> x" "S \<subseteq> set (K z)"
  then have "S \<inter> set (K x) = {}" "x \<notin> S \<or> True" using s(4) [OF z(1,2)] by auto
  have "z \<notin> set (K x) \<or> True" by simp
  show "tally k B' m' S z \<longleftrightarrow> tally k B' m S z"
    by (rule tally_cong) (use z \<open>S \<inter> set (K x) = {}\<close> in \<open>auto simp: m'_def halved_def\<close>)
qed

lemma tallied_scale:
  assumes "tallied k K m" "shaped k K d m" "x < next_node m" "waiting m \<inter> set (K x) = {}" "K x \<noteq> []"
  shows "tallied k K (m\<lparr>nodes := halved (nodes m) x (K x)\<rparr>)"
proof -
  have w: "set (K x) - waiting m = set (K x)" using assms(4) by blast
  have t: "tally k 10008 m (set (K x)) x" using assms(1,3) w by (auto simp: tallied_def)
  have lt: "(10008 :: nat) < 65536" by simp
  note s = tally_scale [OF assms(2,3) t assms(5) lt]
  have "tally k 10008 (m\<lparr>nodes := halved (nodes m) x (K x)\<rparr>) (set (K x)) x"
    using s(3,5) t assms(5) by (auto simp: tally_def)
  then have "tally k 10008 (m\<lparr>nodes := halved (nodes m) x (K x)\<rparr>) (set (K z) - waiting m) z" if "z < next_node m" for z
    using s(6) [OF that, of "set (K z) - waiting m" 10008] assms(1) that w by (cases "z = x") (auto simp: tallied_def)
  then show ?thesis by (simp add: tallied_def)
qed

lemma scale_if_large_inv:
  assumes "tree_ok k K d symbol p m" "sized k" "x < next_node m" "waiting m \<inter> set (K x) = {}" "K x \<noteq> []"
  shows "\<exists>m'. scale_if_large k x m = Some m' \<and> same_links m m' \<and> tree_ok k K d symbol p m' \<and>
    exc m' = exc m \<and> exc_used m' = exc_used m \<and> tally k 10000 m' (set (K x)) x"
proof -
  note i = tree_okD [OF assms(1)]
  have w: "set (K x) - waiting m = set (K x)" using assms(4) by blast
  have t: "tally k 10008 m (set (K x)) x" using i(2) assms(3) w by (auto simp: tallied_def)
  show ?thesis
  proof (cases "n_total (nodes m x) > 10000")
    case False
    then have "unat (n_total (nodes m x)) \<le> 10000" by (simp add: word_less_nat_alt)
    with t assms(5) have "tally k 10000 m (set (K x)) x" by (auto simp: tally_def)
    with False assms(1) show ?thesis by (auto simp: scale_if_large_def same_links_def)
  next
    case True
    have lt: "(10008 :: nat) < 65536" by simp
    note s = tally_scale [OF i(1) assms(3) t assms(5) lt]
    let ?m = "m\<lparr>nodes := halved (nodes m) x (K x)\<rparr>"
    have "unat (n_total (nodes m x)) \<le> 10008" using t assms(5) by (auto simp: tally_def)
    with s(4) assms(2) have "unat (n_total (nodes ?m x)) \<le> 10000" by (simp add: sized_def)
    with s(3) assms(5) have "tally k 10000 ?m (set (K x)) x" by (auto simp: tally_def)
    moreover have "tree_ok k K d symbol p ?m"
      by (rule same_links_inv [OF s(2) assms(1) tallied_scale [OF i(2,1) assms(3-5)]])
    ultimately show ?thesis using True s(1,2) by (auto simp: scale_if_large_def)
  qed
qed

section \<open>A symbol that was found\<close>

lemma set_parent_fields [simp]:
  "next_node (set_parent q p m) = next_node m" "cur (set_parent q p m) = cur m" "cur_order (set_parent q p m) = cur_order m"
  "stack (set_parent q p m) = stack m" "exc (set_parent q p m) = exc m" "exc_used (set_parent q p m) = exc_used m"
  "n_next (nodes (set_parent q p m) z) = n_next (nodes m z)" "n_child (nodes (set_parent q p m) z) = n_child (nodes m z)"
  "n_symbol (nodes (set_parent q p m) z) = n_symbol (nodes m z)" "n_count (nodes (set_parent q p m) z) = n_count (nodes m z)"
  "n_total (nodes (set_parent q p m) z) = n_total (nodes m z)" "n_escapes (nodes (set_parent q p m) z) = n_escapes (nodes m z)"
  "n_parent (nodes (set_parent q p m) z) = (if q = Some z then Some p else n_parent (nodes m z))"
  by (auto simp: set_parent_def split: option.split)

lemma move_to_front_fields [simp]:
  "next_node (move_to_front q n x m) = next_node m" "cur (move_to_front q n x m) = cur m" "cur_order (move_to_front q n x m) = cur_order m"
  "stack (move_to_front q n x m) = stack m" "exc (move_to_front q n x m) = exc m" "exc_used (move_to_front q n x m) = exc_used m"
  "n_symbol (nodes (move_to_front q n x m) z) = n_symbol (nodes m z)" "n_count (nodes (move_to_front q n x m) z) = n_count (nodes m z)"
  "n_total (nodes (move_to_front q n x m) z) = n_total (nodes m z)" "n_escapes (nodes (move_to_front q n x m) z) = n_escapes (nodes m z)"
  "n_parent (nodes (move_to_front q n x m) z) = n_parent (nodes m z)"
  by (auto simp: move_to_front_def Let_def split: option.split)

lemma move_to_front_links:
  "move_to_front None n x m = m"
  "l \<noteq> n \<Longrightarrow> n_next (nodes (move_to_front (Some l) n x m) z) =
    (if z = n then n_child (nodes m x) else if z = l then n_next (nodes m n) else n_next (nodes m z))"
  "n_child (nodes (move_to_front (Some l) n x m) z) = (if z = x then Some n else n_child (nodes m z))"
  by (auto simp: move_to_front_def Let_def)

lemma shaped_move_to_front:
  assumes "shaped k K d m" "x < next_node m" "K x = us @ y # vs"
  shows "shaped k (K(x := y # us @ vs)) d (move_to_front (prev_node None us) y x m)"
proof (cases "us = []")
  case True
  with assms show ?thesis by (simp add: move_to_front_links fun_upd_idem)
next
  case False
  define l where "l = last us"
  let ?m = "move_to_front (Some l) y x m"
  note s = shapedD [OF assms(1,2)]
  have l: "l \<in> set us" "l \<noteq> y" using False s(2) unfolding l_def assms(3) by (auto simp: last_in_set)
  have new: "chain (nodes ?m) (n_child (nodes ?m x)) (y # us @ vs)"
  proof -
    have "chain (nodes ?m) (n_child (nodes m x)) (us @ vs)"
      by (rule chain_skip [OF s(1) [unfolded assms(3)] False s(2) [unfolded assms(3)]])
        (use l s(2) in \<open>auto simp: move_to_front_links l_def assms(3)\<close>)
    with l show ?thesis by (simp add: move_to_front_links)
  qed
  have "chain (nodes ?m) (n_child (nodes ?m z)) (K z)" if z: "z < next_node m" "z \<noteq> x" for z
  proof -
    have "l \<notin> set (K z)" "y \<notin> set (K z)" using s(4) [OF z] l(1) unfolding assms(3) by auto
    then have "chain (nodes ?m) (n_child (nodes m z)) (K z) \<longleftrightarrow> chain (nodes m) (n_child (nodes m z)) (K z)"
      using l(2) by (intro chain_cong) (auto simp: move_to_front_links)
    with shapedD(1) [OF assms(1) z(1)] z(2) show ?thesis by (simp add: move_to_front_links)
  qed
  with new have "chain (nodes ?m) (n_child (nodes ?m z)) ((K(x := y # us @ vs)) z)" if "z < next_node m" for z using that by simp
  moreover have "set ((K(x := y # us @ vs)) z) = set (K z)" "distinct ((K(x := y # us @ vs)) z) \<longleftrightarrow> distinct (K z)" for z
    using s(2) by (auto simp: assms(3))
  moreover have "prev_node None us = Some l" using False by (simp add: prev_node_def l_def)
  ultimately show ?thesis using assms(1) unfolding shaped_def by simp
qed

definition bump :: "nat \<Rightarrow> nat \<Rightarrow> ppm \<Rightarrow> ppm" where
  "bump n x m = on_node x (\<lambda>a. a\<lparr>n_total := n_total a + 8\<rparr>) (on_node n (\<lambda>a. a\<lparr>n_count := n_count a + 8\<rparr>) m)"

lemma bump_fields [simp]:
  "next_node (bump n x m) = next_node m" "cur (bump n x m) = cur m" "cur_order (bump n x m) = cur_order m"
  "stack (bump n x m) = stack m" "exc (bump n x m) = exc m" "exc_used (bump n x m) = exc_used m"
  "n_next (nodes (bump n x m) z) = n_next (nodes m z)" "n_child (nodes (bump n x m) z) = n_child (nodes m z)"
  "n_parent (nodes (bump n x m) z) = n_parent (nodes m z)" "n_symbol (nodes (bump n x m) z) = n_symbol (nodes m z)"
  "n_escapes (nodes (bump n x m) z) = n_escapes (nodes m z)"
  "n_count (nodes (bump n x m) z) = (if z = n then n_count (nodes m z) + 8 else n_count (nodes m z))"
  "n_total (nodes (bump n x m) z) = (if z = x then n_total (nodes m z) + 8 else n_total (nodes m z))"
  by (auto simp: bump_def)

lemma same_links_bump: "same_links m (bump n x m)"
  by (simp add: same_links_def)

definition next_cur :: "ppm_size \<Rightarrow> nat \<Rightarrow> nat \<Rightarrow> ppm \<Rightarrow> ppm" where
  "next_cur k n local_order m =
     (if cur m = None
      then if local_order < order k then m\<lparr>cur_order := local_order + 1, cur := Some n\<rparr>
           else m\<lparr>cur := n_parent (nodes m n), cur_order := local_order\<rparr>
      else m)"

lemma next_cur_fields [simp]:
  "next_node (next_cur k n lo m) = next_node m" "nodes (next_cur k n lo m) = nodes m" "stack (next_cur k n lo m) = stack m"
  "exc (next_cur k n lo m) = exc m" "exc_used (next_cur k n lo m) = exc_used m"
  by (auto simp: next_cur_def)

lemma count_symbol_eq:
  "count_symbol k q n x lo m =
     ((n_count (nodes m n) + 8, n_total (nodes m x) + 8), next_cur k n lo (move_to_front q n x (bump n x m)))"
  by (simp add: count_symbol_def next_cur_def bump_def Let_def)

lemma add_8: "unat x \<le> 10000 \<Longrightarrow> unat (x + 8 :: 16 word) = unat x + 8"
  by (subst unat_plus_if_size) (auto simp: word_size)

lemma tally_bump:
  assumes "tally k 10000 m S x" "y \<in> S" "x \<notin> S" "finite S"
  shows "tally k 10008 (bump y x m) S x"
    "unat (n_count (nodes m y) + 8) < unat (n_total (nodes m x) + 8)" "unat (n_total (nodes m x) + 8) \<le> 10008"
proof -
  have ne: "S \<noteq> {}" using assms(2) by blast
  note t = tallyD [OF assms(1) ne]
  have e: "1 \<le> unat (n_escapes (nodes m x))" using t(1) by (simp add: word_less_nat_alt)
  have rem: "(\<Sum>z\<in>S. f z) = f y + (\<Sum>z\<in>S - {y}. f z)" for f :: "nat \<Rightarrow> nat"
    by (rule sum.remove [OF assms(4,2)])
  have c: "unat (n_count (nodes m y)) \<le> 10000" using t(5,6) rem [of "\<lambda>z. unat (n_count (nodes m z))"] by simp
  have pos: "0 < n_count (nodes m y) + 8" using add_8 [OF c] by (simp add: word_less_nat_alt)
  have "(\<Sum>z\<in>S. unat (n_count (nodes (bump y x m) z))) = (\<Sum>z\<in>S. unat (n_count (nodes m z))) + 8"
    unfolding rem [of "\<lambda>z. unat (n_count (nodes (bump y x m) z))"] rem [of "\<lambda>z. unat (n_count (nodes m z))"]
    by (simp add: add_8 [OF c])
  with t pos ne show "tally k 10008 (bump y x m) S x" unfolding tally_def by (auto simp: add_8)
  show "unat (n_count (nodes m y) + 8) < unat (n_total (nodes m x) + 8)" "unat (n_total (nodes m x) + 8) \<le> 10008"
    unfolding add_8 [OF c] add_8 [OF t(6)] using t(5,6) e rem [of "\<lambda>z. unat (n_count (nodes m z))"] by simp_all
qed

text \<open>The new node that waits for a parent, if any, gets the node that was found.\<close>

definition child_of :: "(nat \<Rightarrow> nat) \<Rightarrow> nat option \<Rightarrow> nat \<Rightarrow> bool" where
  "child_of d new_node h \<longleftrightarrow> (\<forall>a. new_node = Some a \<longrightarrow> d a = Suc h)"

lemma linked_set_parent:
  assumes "linked d q m" "p < next_node m" "child_of d q (d p)"
  shows "linked d None (set_parent q p m)"
  using assms by (auto simp: linked_def child_of_def)

lemma count_symbol_inv:
  assumes "tree_ok k K d symbol q m" "x < next_node m" "K x = us @ y # vs" "waiting m \<inter> set (K x) = {}"
    "tally k 10000 m (set (K x)) x" "child_of d q (Suc (d x))" "d x = lo" "lo \<le> order k"
  defines "r \<equiv> count_symbol k (prev_node None us) y x lo (set_parent q y m)"
  shows "tree_ok k (K(x := y # us @ vs)) d symbol None (snd r)" "cur (snd r) \<noteq> None" "stack (snd r) = stack m"
    "unat (fst (fst r)) < unat (snd (fst r))" "unat (snd (fst r)) \<le> 10008"
proof -
  note i = tree_okD [OF assms(1)]
  note s = shapedD [OF i(1) assms(2)]
  let ?K = "K(x := y # us @ vs)"
  define m1 where "m1 = set_parent q y m"
  define m2 where "m2 = move_to_front (prev_node None us) y x (bump y x m1)"
  have r: "r = ((n_count (nodes m y) + 8, n_total (nodes m x) + 8), next_cur k y lo m2)"
    by (simp add: r_def count_symbol_eq m2_def m1_def)
  have yK: "y \<in> set (K x)" using assms(3) by simp
  note y = s(3) [OF yK]
  have sets: "set (?K z) = set (K z)" for z by (simp add: assms(3))
  have w: "set (K x) - waiting m = set (K x)" using assms(4) by blast
  have link: "linked d None m1" unfolding m1_def
    by (rule linked_set_parent [OF i(3)]) (use y assms(6) in auto)
  have "shaped k K d (bump y x m1)"
  proof -
    have "chain (nodes m1) p zs \<longleftrightarrow> chain (nodes m) p zs" for p zs by (rule chain_cong) (simp add: m1_def)
    then have "shaped k K d m1 \<longleftrightarrow> shaped k K d m" by (simp add: shaped_def m1_def)
    with i(1) show ?thesis using same_links_shaped [OF same_links_bump] by blast
  qed
  then have sh: "shaped k ?K d m2" unfolding m2_def
    by (rule shaped_move_to_front) (simp_all add: assms(2,3) m1_def)
  have tb: "tally k 10008 (bump y x m) (set (K x)) x" "unat (n_count (nodes m y) + 8) < unat (n_total (nodes m x) + 8)"
    "unat (n_total (nodes m x) + 8) \<le> 10008"
    using tally_bump [OF assms(5) yK s(5)] by simp_all
  have ta: "tallied k ?K m2"
  proof -
    have "tally k 10008 m2 (set (K z) - waiting m) z" if z: "z < next_node m" for z
    proof (cases "z = x")
      case True
      have "tally k 10008 m2 (set (K x)) x \<longleftrightarrow> tally k 10008 (bump y x m) (set (K x)) x"
        by (rule tally_cong) (auto simp: m2_def m1_def)
      with tb(1) True w show ?thesis by simp
    next
      case False
      have "tally k 10008 m2 (set (K z) - waiting m) z \<longleftrightarrow> tally k 10008 m (set (K z) - waiting m) z"
        by (rule tally_cong) (use False s(4) [OF z] yK in \<open>auto simp: m2_def m1_def\<close>)
      with i(2) z show ?thesis by (simp add: tallied_def)
    qed
    then show ?thesis unfolding tallied_def sets by (simp add: m2_def m1_def)
  qed
  have par: "n_parent (nodes m2 z) = n_parent (nodes m1 z)" for z by (simp add: m2_def)
  have cur: "cur_ok k d (next_cur k y lo m2)" "cur (next_cur k y lo m2) \<noteq> None"
  proof -
    from link y obtain p where p: "p < next_node m" "n_parent (nodes m1 y) = Some p" "d y = Suc (d p)"
      unfolding linked_def by (auto simp: m1_def)
    have "d y = Suc lo" using y assms(7) by simp
    with p have dp: "d p = lo" by simp
    show "cur_ok k d (next_cur k y lo m2)"
      using i(5) y p(1,2) dp \<open>d y = Suc lo\<close> assms(8) by (auto simp: cur_ok_def next_cur_def m2_def m1_def)
    show "cur (next_cur k y lo m2) \<noteq> None" using p(2) by (auto simp: next_cur_def m2_def m1_def)
  qed
  show "tree_ok k ?K d symbol None (snd r)"
  proof -
    have "shaped k ?K d (next_cur k y lo m2)" using sh by (simp add: shaped_def)
    moreover have "tallied k ?K (next_cur k y lo m2)" 
      using ta tally_nodes [of "next_cur k y lo m2" m2] by (simp add: tallied_def)
    moreover have "linked d None (next_cur k y lo m2)" using link par by (simp add: linked_def m2_def m1_def)
    moreover have "stacked ?K symbol (next_cur k y lo m2)" using i(4) unfolding stacked_def sets by (simp add: m2_def m1_def)
    ultimately show ?thesis using cur(1) by (simp add: tree_ok_def r)
  qed
  show "cur (snd r) \<noteq> None" "stack (snd r) = stack m" using cur(2) by (simp_all add: r m2_def m1_def)
  show "unat (fst (fst r)) < unat (snd (fst r))" "unat (snd (fst r)) \<le> 10008" using tb(2,3) by (simp_all add: r)
qed

section \<open>A new node\<close>

definition link_node :: "nat list \<Rightarrow> nat \<Rightarrow> nat \<Rightarrow> ppm \<Rightarrow> ppm" where
  "link_node zs x a m =
     (if zs = [] then on_node x (\<lambda>b. b\<lparr>n_child := Some a\<rparr>) m else on_node (last zs) (\<lambda>b. b\<lparr>n_next := Some a\<rparr>) m)"

lemma link_node_fields [simp]:
  "next_node (link_node zs x a m) = next_node m" "cur (link_node zs x a m) = cur m" "cur_order (link_node zs x a m) = cur_order m"
  "stack (link_node zs x a m) = stack m" "exc (link_node zs x a m) = exc m" "exc_used (link_node zs x a m) = exc_used m"
  "n_symbol (nodes (link_node zs x a m) z) = n_symbol (nodes m z)" "n_count (nodes (link_node zs x a m) z) = n_count (nodes m z)"
  "n_total (nodes (link_node zs x a m) z) = n_total (nodes m z)" "n_escapes (nodes (link_node zs x a m) z) = n_escapes (nodes m z)"
  "n_parent (nodes (link_node zs x a m) z) = n_parent (nodes m z)"
  "n_child (nodes (link_node zs x a m) z) = (if zs = [] \<and> z = x then Some a else n_child (nodes m z))"
  "n_next (nodes (link_node zs x a m) z) = (if zs \<noteq> [] \<and> z = last zs then Some a else n_next (nodes m z))"
  by (auto simp: link_node_def)

lemma extend_chain_eq: "extend_chain q m = (next_node m, set_parent q (next_node m) (m\<lparr>next_node := next_node m + 1\<rparr>))"
  by (simp add: extend_chain_def allocate_node_def)

definition blank :: "nat \<Rightarrow> ppm \<Rightarrow> ppm" where
  "blank a m = on_node a (\<lambda>x. x\<lparr>n_child := None, n_escapes := 0, n_next := None, n_total := 0\<rparr>) m"

lemma blank_fields [simp]:
  "next_node (blank a m) = next_node m" "cur (blank a m) = cur m" "cur_order (blank a m) = cur_order m"
  "stack (blank a m) = stack m" "exc (blank a m) = exc m" "exc_used (blank a m) = exc_used m"
  "n_symbol (nodes (blank a m) z) = n_symbol (nodes m z)" "n_count (nodes (blank a m) z) = n_count (nodes m z)"
  "n_parent (nodes (blank a m) z) = n_parent (nodes m z)"
  "n_total (nodes (blank a m) z) = (if z = a then 0 else n_total (nodes m z))"
  "n_escapes (nodes (blank a m) z) = (if z = a then 0 else n_escapes (nodes m z))"
  "n_child (nodes (blank a m) z) = (if z = a then None else n_child (nodes m z))"
  "n_next (nodes (blank a m) z) = (if z = a then None else n_next (nodes m z))"
  by (auto simp: blank_def)

definition set_cur :: "ppm_size \<Rightarrow> nat \<Rightarrow> nat \<Rightarrow> ppm \<Rightarrow> ppm" where
  "set_cur k a local_order m =
     (if cur m = None \<and> local_order < order k then m\<lparr>cur := Some a, cur_order := local_order + 1\<rparr> else m)"

lemma set_cur_fields [simp]:
  "next_node (set_cur k a lo m) = next_node m" "nodes (set_cur k a lo m) = nodes m" "stack (set_cur k a lo m) = stack m"
  "exc (set_cur k a lo m) = exc m" "exc_used (set_cur k a lo m) = exc_used m"
  by (auto simp: set_cur_def)

lemma fill_node_eq: "fill_node k a x lo m =
    (if length (stack m) < order k + 1
     then Some ((blank a (set_cur k a lo m))\<lparr>stack := (a, x) # stack m\<rparr>) else None)"
  by (simp add: fill_node_def set_cur_def blank_def push_def Let_def)

definition grown :: "ppm_size \<Rightarrow> nat option \<Rightarrow> nat list \<Rightarrow> nat \<Rightarrow> nat \<Rightarrow> ppm \<Rightarrow> ppm" where
  "grown k q zs x lo m =
     (let a = next_node m
      in (blank a (set_cur k a lo (link_node zs x a (set_parent q a (m\<lparr>next_node := a + 1\<rparr>)))))\<lparr>stack := (a, x) # stack m\<rparr>)"

lemma grown_fields [simp]:
  "next_node (grown k q zs x lo m) = Suc (next_node m)" "stack (grown k q zs x lo m) = (next_node m, x) # stack m"
  "exc (grown k q zs x lo m) = exc m" "exc_used (grown k q zs x lo m) = exc_used m"
  "n_symbol (nodes (grown k q zs x lo m) z) = n_symbol (nodes m z)" "n_count (nodes (grown k q zs x lo m) z) = n_count (nodes m z)"
  "n_parent (nodes (grown k q zs x lo m) z) = (if q = Some z then Some (next_node m) else n_parent (nodes m z))"
  "n_total (nodes (grown k q zs x lo m) z) = (if z = next_node m then 0 else n_total (nodes m z))"
  "n_escapes (nodes (grown k q zs x lo m) z) = (if z = next_node m then 0 else n_escapes (nodes m z))"
  "n_child (nodes (grown k q zs x lo m) z) =
    (if z = next_node m then None else if zs = [] \<and> z = x then Some (next_node m) else n_child (nodes m z))"
  "n_next (nodes (grown k q zs x lo m) z) =
    (if z = next_node m then None else if zs \<noteq> [] \<and> z = last zs then Some (next_node m) else n_next (nodes m z))"
  "cur (grown k q zs x lo m) = (if cur m = None \<and> lo < order k then Some (next_node m) else cur m)"
  "cur_order (grown k q zs x lo m) = (if cur m = None \<and> lo < order k then lo + 1 else cur_order m)"
  by (simp_all add: grown_def Let_def set_cur_def)

lemma fill_grown:
  "length (stack m) < order k + 1 \<Longrightarrow>
     fill_node k (next_node m) x lo (link_node zs x (next_node m) (set_parent q (next_node m) (m\<lparr>next_node := next_node m + 1\<rparr>))) =
       Some (grown k q zs x lo m)"
  by (simp add: fill_node_eq grown_def Let_def)

lemma shaped_grown:
  assumes "shaped k K d m" "space_left k m" "x < next_node m"
  shows "shaped k (K(x := K x @ [next_node m], next_node m := [])) (d(next_node m := Suc (d x))) (grown k q (K x) x lo m)"
proof -
  let ?a = "next_node m" and ?m = "grown k q (K x) x lo m"
  let ?K = "K(x := K x @ [?a], ?a := [])" and ?d = "d(?a := Suc (d x))"
  note s = shapedD [OF assms(1)]
  have ax: "x \<noteq> ?a" using assms(3) by simp
  have old: "?a \<notin> set (K z)" if "z < ?a" for z using s(3) [OF that, of ?a] by auto
  have ch: "chain (nodes ?m) (n_child (nodes ?m z)) (?K z)" if z: "z < Suc ?a" for z
  proof (cases "z = ?a")
    case True
    then show ?thesis by simp
  next
    case False
    with z have lt: "z < ?a" by simp
    show ?thesis
    proof (cases "z = x")
      case True
      show ?thesis
      proof (cases "K x = []")
        case True
        with \<open>z = x\<close> ax show ?thesis by simp
      next
        case False
        have "chain (nodes ?m) (n_child (nodes m x)) (K x @ [?a])"
          by (rule chain_append [OF s(1) [OF assms(3)] False s(2) [OF assms(3)]])
            (use old [OF assms(3)] False in auto)
        with False True ax show ?thesis by simp
      qed
    next
      case other: False
      have "chain (nodes ?m) (n_child (nodes m z)) (K z) \<longleftrightarrow> chain (nodes m) (n_child (nodes m z)) (K z)"
      proof (rule chain_cong)
        fix y assume y: "y \<in> set (K z)"
        then have "y \<noteq> ?a" using old [OF lt] by blast
        moreover have "K x \<noteq> [] \<Longrightarrow> y \<noteq> last (K x)" using y s(4) [OF assms(3) lt other] last_in_set by blast
        ultimately show "n_next (nodes ?m y) = n_next (nodes m y)" by auto
      qed
      with other False lt s(1) [OF lt] show ?thesis by simp
    qed
  qed
  have "distinct (?K z)" if "z < Suc ?a" for z
    using that s(2) [of z] old [OF assms(3)] ax by (auto simp: less_Suc_eq)
  moreover have "0 < y \<and> y < Suc ?a \<and> ?d y = Suc (?d z)" if "z < Suc ?a" "y \<in> set (?K z)" for z y
    using that s(3) [of z y] s(3) [OF assms(3), of y] assms(1,3) by (auto simp: less_Suc_eq shaped_def split: if_splits)
  moreover have "set (?K z) \<inter> set (?K w) = {}" if "z < Suc ?a" "w < Suc ?a" "w \<noteq> z" for z w
    using that s(4) [of z w] old [of z] old [of w] by (auto simp: less_Suc_eq)
  ultimately show ?thesis
    using ch assms(1,2,3) unfolding shaped_def grown_fields by (auto simp: space_left_def)
qed

lemma grown_inv:
  assumes "tree_ok k K d symbol q m" "space_left k m" "x < next_node m" "x \<notin> snd ` set (stack m)"
    "symbol \<notin> set (symbols_of m (K x))" "child_of d q (Suc (d x))" "d x = lo" "lo \<le> order k"
  shows "tree_ok k (K(x := K x @ [next_node m], next_node m := [])) (d(next_node m := Suc lo)) symbol
    (Some (next_node m)) (grown k q (K x) x lo m)"
proof -
  let ?a = "next_node m" and ?m = "grown k q (K x) x lo m"
  let ?K = "K(x := K x @ [?a], ?a := [])" and ?d = "d(?a := Suc lo)"
  note i = tree_okD [OF assms(1)]
  note s = shapedD [OF i(1)]
  have old: "?a \<notin> set (K z)" if "z < ?a" for z using s(3) [OF that, of ?a] by auto
  have st: "nc < ?a" "n \<in> set (K nc)" "n < ?a" "nc \<noteq> x" "\<forall>y \<in> set (K nc) - waiting m. n_symbol (nodes m y) \<noteq> symbol"
    if "(n, nc) \<in> set (stack m)" for n nc
    using i(4) that s(3) [of nc n] assms(4) unfolding stacked_def by force+
  have w: "?a \<notin> waiting m" using st(3) by fastforce
  have sh: "shaped k ?K ?d ?m"
    using shaped_grown [OF i(1) assms(2,3), of q lo] assms(7) by simp
  have ta: "tally k 10008 ?m (set (?K z) - waiting ?m) z" if z: "z < Suc ?a" for z
  proof (cases "z = ?a")
    case True
    then show ?thesis by (simp add: tally_def)
  next
    case False
    with z have lt: "z < ?a" by simp
    then have S: "set (?K z) - waiting ?m = set (K z) - waiting m" using old [OF lt] w by auto
    have "tally k 10008 ?m (set (K z) - waiting m) z \<longleftrightarrow> tally k 10008 m (set (K z) - waiting m) z"
      by (rule tally_cong) (use False in auto)
    with S i(2) lt show ?thesis by (simp add: tallied_def)
  qed
  have li: "linked ?d (Some ?a) ?m"
    unfolding linked_def
  proof (intro allI impI)
    fix z assume "0 < z \<and> z < next_node ?m \<and> Some ?a \<noteq> Some z"
    then have z: "0 < z" "z < ?a" by auto
    show "\<exists>p < next_node ?m. n_parent (nodes ?m z) = Some p \<and> ?d z = Suc (?d p)"
    proof (cases "q = Some z")
      case True
      with assms(6,7) z show ?thesis by (auto simp: child_of_def)
    next
      case False
      with i(3) z obtain p where "p < ?a" "n_parent (nodes m z) = Some p" "d z = Suc (d p)"
        unfolding linked_def by blast
      with False z show ?thesis by (intro exI [of _ p]) auto
    qed
  qed
  have sk: "stacked ?K symbol ?m"
  proof -
    have "distinct (map fst (stack ?m))" "distinct (map snd (stack ?m))"
      using i(4) w assms(4) by (auto simp: stacked_def)
    moreover have "nc < next_node ?m \<and> n \<in> set (?K nc) \<and> (\<forall>y \<in> set (?K nc) - waiting ?m. n_symbol (nodes ?m y) \<noteq> symbol)"
      if "(n, nc) \<in> set (stack ?m)" for n nc
    proof (cases "(n, nc) = (?a, x)")
      case True
      then show ?thesis using assms(3,5) by auto
    next
      case False
      with that have "(n, nc) \<in> set (stack m)" by auto
      from st [OF this] show ?thesis by auto
    qed
    ultimately show ?thesis unfolding stacked_def by fast
  qed
  have "cur_ok k ?d ?m" using i(5) assms(8) by (auto simp: cur_ok_def)
  with sh ta li sk show ?thesis unfolding tree_ok_def tallied_def grown_fields(1) by blast
qed

section \<open>A new tree\<close>

lemma tree_ok_new:
  assumes "next_node m = 1" "stack m = []" "n_child (nodes m 0) = None" "n_total (nodes m 0) = 0" "cur_ok k (\<lambda>_. 0) m" "sized k"
  shows "tree_ok k (\<lambda>_. []) (\<lambda>_. 0) symbol None m"
  using assms by (auto simp: tree_ok_def shaped_def tallied_def tally_def linked_def stacked_def sized_def)

lemma clear_inv:
  fixes m :: ppm
  assumes "sized k"
  defines "m' \<equiv> (ppm_clear k m)\<lparr>cur := None\<rparr>"
  shows "tree_ok k (\<lambda>_. []) (\<lambda>_. 0) symbol None m'" "stack m' = []" "next_node m' = 1" "excl_ok k m'"
    "unat symbol < alphabet_size k \<Longrightarrow> \<not> excluded m' symbol"
proof -
  show "tree_ok k (\<lambda>_. []) (\<lambda>_. 0) symbol None m'"
    by (rule tree_ok_new) (use assms(1) in \<open>simp_all add: m'_def ppm_clear_def clear_exclusions_def cur_ok_def\<close>)
  show "stack m' = []" "next_node m' = 1" by (simp_all add: m'_def ppm_clear_def clear_exclusions_def)
  show e: "excl_ok k m'" by (simp add: m'_def ppm_clear_def clear_exclusions_def excl_ok_def)
  have "\<not> exc_used m'" by (simp add: m'_def ppm_clear_def clear_exclusions_def)
  then show "unat symbol < alphabet_size k \<Longrightarrow> \<not> excluded m' symbol" by (rule not_used_not_excluded [OF e])
qed

lemma settled_init:
  assumes "sized k"
  shows "settled k (ppm_init k memory junk)"
proof -
  let ?m = "ppm_init k memory junk"
  have "tree_ok k (\<lambda>_. []) (\<lambda>_. 0) 0 None ?m"
    by (rule tree_ok_new) (use assms in \<open>simp_all add: ppm_init_def clear_exclusions_def cur_ok_def\<close>)
  moreover have "stack ?m = []" "cur ?m \<noteq> None" "excl_ok k ?m"
    by (simp_all add: ppm_init_def clear_exclusions_def excl_ok_def)
  ultimately show ?thesis unfolding settled_def by blast
qed

section \<open>The counts of the new nodes\<close>

lemma scale_while_inv:
  assumes "shaped k K d m" "x < next_node m" "tally k 65535 m (set (K x)) x" "K x \<noteq> []" "sized k"
    "unat (n_total (nodes m x)) \<le> 4097 + 5903 * 2 ^ j" "j < fuel"
  shows "\<exists>m'. scale_while fuel k x m = Some m' \<and> same_links m m' \<and> exc m' = exc m \<and> exc_used m' = exc_used m \<and>
    tally k 10000 m' (set (K x)) x \<and>
    (\<forall>z < next_node m. z \<noteq> x \<longrightarrow> (\<forall>S. S \<subseteq> set (K z) \<longrightarrow> tally k 10008 m' S z = tally k 10008 m S z))"
  using assms
proof (induction j arbitrary: m fuel)
  case 0
  then obtain fu where fuel: "fuel = Suc fu" by (cases fuel) auto
  from 0 have "unat (n_total (nodes m x)) \<le> 10000" by simp
  with 0 have "tally k 10000 m (set (K x)) x" "\<not> n_total (nodes m x) > 10000"
    by (auto simp: tally_def word_less_nat_alt)
  then show ?case by (auto simp: fuel same_links_def)
next
  case (Suc j)
  then obtain fu where fuel: "fuel = Suc fu" by (cases fuel) auto
  show ?case
  proof (cases "n_total (nodes m x) > 10000")
    case False
    then have "unat (n_total (nodes m x)) \<le> 10000" by (simp add: word_less_nat_alt)
    with Suc.prems(3,4) have "tally k 10000 m (set (K x)) x" by (auto simp: tally_def)
    with False show ?thesis by (auto simp: fuel same_links_def)
  next
    case True
    have lt: "(65535 :: nat) < 65536" by simp
    let ?m = "m\<lparr>nodes := halved (nodes m) x (K x)\<rparr>"
    note s = tally_scale [OF Suc.prems(1-4) lt]
    have "2 * unat (n_total (nodes ?m x)) \<le> 2 * (4097 + 5903 * 2 ^ j)"
      using s(4) Suc.prems(5,6) by (simp add: sized_def)
    then have le: "unat (n_total (nodes ?m x)) \<le> 4097 + 5903 * 2 ^ j" by simp
    have t: "tally k 65535 ?m (set (K x)) x"
      using s(3,5) tallyD(6) [OF Suc.prems(3)] Suc.prems(4) by (auto simp: tally_def)
    have "\<exists>m'. scale_while fu k x ?m = Some m' \<and> same_links ?m m' \<and> exc m' = exc ?m \<and> exc_used m' = exc_used ?m \<and>
      tally k 10000 m' (set (K x)) x \<and>
      (\<forall>z < next_node ?m. z \<noteq> x \<longrightarrow> (\<forall>S. S \<subseteq> set (K z) \<longrightarrow> tally k 10008 m' S z = tally k 10008 ?m S z))"
      by (rule Suc.IH [OF _ _ t Suc.prems(4,5) le]) (use Suc.prems s(2) fuel in \<open>simp_all add: same_links_shaped\<close>)
    then obtain m' where m': "scale_while fu k x ?m = Some m'" "same_links ?m m'" "exc m' = exc m" "exc_used m' = exc_used m"
      "tally k 10000 m' (set (K x)) x"
      "\<And>z S. z < next_node m \<Longrightarrow> z \<noteq> x \<Longrightarrow> S \<subseteq> set (K z) \<Longrightarrow> tally k 10008 m' S z = tally k 10008 ?m S z" by auto
    have "same_links m m'" using s(2) m'(2) by (simp add: same_links_def)
    with m' s(1,6) True show ?thesis by (auto simp: fuel)
  qed
qed

lemma inherited_bounds: "2 \<le> unat (inherited_count c t x)" "unat (inherited_count c t x) \<le> 50000"
proof -
  define q where "q = (ucast (n_total x) * ucast c :: 64 word) div
    (word_of_int (uint t - uint c + uint (n_total x) - uint (n_escapes x) - uint (n_escapes x)) OR 1)"
  have up: "unat (ucast y :: 64 word) = unat y" for y :: "16 word"
    using unsigned_less [of y, where 'a = nat] by (simp add: unsigned_ucast_eq take_bit_eq_mod)
  have "unat (ucast (n_total x) * ucast c :: 64 word) = unat (n_total x) * unat c mod 2 ^ 64"
    by (simp only: unat_word_ariths up) simp
  moreover have "unat (n_total x) * unat c \<le> 65535 * 65535"
    using unsigned_less [of "n_total x", where 'a = nat] unsigned_less [of c, where 'a = nat] by (intro mult_le_mono) auto
  ultimately have "unat (ucast (n_total x) * ucast c :: 64 word) \<le> 65535 * 65535"
    using mod_less_eq_dividend [of "unat (n_total x) * unat c" "2 ^ 64"] by (simp only: order_trans)
  then have "unat q \<le> 65535 * 65535"
    unfolding q_def unat_div using div_le_dividend order_trans by blast
  then have q: "unat (q + 2) = unat q + 2" by (subst unat_plus_if_size) (auto simp: word_size)
  have i: "inherited_count c t x = ucast (if q + 2 > 50000 then 50000 else q + 2)"
    by (simp add: inherited_count_def q_def Let_def)
  have u: "unat (ucast w :: 16 word) = unat w" if "unat w \<le> 50000" for w :: "64 word"
    using that by (simp add: unsigned_ucast_eq take_bit_eq_mod)
  show "2 \<le> unat (inherited_count c t x)" "unat (inherited_count c t x) \<le> 50000"
    unfolding i using q u [of 50000] u [of "q + 2"] by (auto simp: word_less_nat_alt)
qed

text \<open>The node \<open>n\<close> gets its symbol and a count, and its context \<open>nc\<close> the new sums.\<close>

definition settle :: "16 word \<Rightarrow> nat \<Rightarrow> nat \<Rightarrow> 16 word \<Rightarrow> 16 word \<Rightarrow> 16 word \<Rightarrow> ppm \<Rightarrow> ppm" where
  "settle symbol n nc w e tt m = on_node nc (\<lambda>x. x\<lparr>n_escapes := e, n_total := tt\<rparr>) (on_node n (\<lambda>x. x\<lparr>n_symbol := symbol, n_count := w\<rparr>) m)"

lemma settle_fields [simp]:
  "next_node (settle s n nc w e tt m) = next_node m" "cur (settle s n nc w e tt m) = cur m"
  "cur_order (settle s n nc w e tt m) = cur_order m" "stack (settle s n nc w e tt m) = stack m"
  "exc (settle s n nc w e tt m) = exc m" "exc_used (settle s n nc w e tt m) = exc_used m"
  "n_next (nodes (settle s n nc w e tt m) z) = n_next (nodes m z)" "n_child (nodes (settle s n nc w e tt m) z) = n_child (nodes m z)"
  "n_parent (nodes (settle s n nc w e tt m) z) = n_parent (nodes m z)"
  "n_symbol (nodes (settle s n nc w e tt m) z) = (if z = n then s else n_symbol (nodes m z))"
  "n_count (nodes (settle s n nc w e tt m) z) = (if z = n then w else n_count (nodes m z))"
  "n_escapes (nodes (settle s n nc w e tt m) z) = (if z = nc then e else n_escapes (nodes m z))"
  "n_total (nodes (settle s n nc w e tt m) z) = (if z = nc then tt else n_total (nodes m z))"
  by (auto simp: settle_def)

lemma small_word: "n < 65536 \<Longrightarrow> unat (of_nat n :: 16 word) = n"
  by (simp only: unat_of_nat) simp

lemma first_count:
  assumes "unat c < unat t" "unat t \<le> 10008"
  shows "\<exists>w :: nat. 3 \<le> w \<and> w \<le> 50043 \<and> word_of_int (3 + c_div (5 * uint c) (uint t - uint c)) = (of_nat w :: 16 word)"
proof -
  have c: "0 \<le> uint c" "uint c < uint t" "uint t \<le> 10008"
    using assms unfolding uint_nat by linarith+
  define q where "q = 5 * uint c div (uint t - uint c)"
  have "c_div (5 * uint c) (uint t - uint c) = q" using c by (auto simp: c_div_def q_def sgn_if)
  moreover have "0 \<le> q" "q \<le> 50040"
  proof -
    show "0 \<le> q" unfolding q_def using c by (intro pos_imp_zdiv_nonneg_iff [THEN iffD2]) auto
    have "q \<le> 5 * uint c" unfolding q_def
    proof (cases "uint c = 0")
      case False
      then show "5 * uint c div (uint t - uint c) \<le> 5 * uint c" using c zdiv_mono2 [of "5 * uint c" 1 "uint t - uint c"] by simp
    qed simp
    with c show "q \<le> 50040" by simp
  qed
  ultimately show ?thesis by (intro exI [of _ "nat (3 + q)"]) auto
qed

lemma finish_node_eq:
  assumes "n \<noteq> nc" "c \<noteq> t"
  shows "finish_node k symbol (c, t) (n, nc) m =
    (let x = nodes m nc in
     if n_total x \<noteq> 0
     then let w = inherited_count c t x
          in scale_while 17 k nc (settle symbol n nc w (n_escapes x + 4) (n_total x + (w + 4)) m)
     else let w = word_of_int (3 + c_div (5 * uint c) (uint t - uint c))
          in scale_while 17 k nc (settle symbol n nc w 4 (w + 4) m))"
proof -
  have "on_node nc (\<lambda>x. x\<lparr>n_escapes := n_escapes x + 4, n_total := n_total x + (w + 4)\<rparr>)
      (on_node n (\<lambda>x. x\<lparr>n_count := w\<rparr>) (on_node n (\<lambda>x. x\<lparr>n_symbol := symbol\<rparr>) m)) =
    settle symbol n nc w (n_escapes (nodes m nc) + 4) (n_total (nodes m nc) + (w + 4)) m" for w
    using assms(1) by (simp add: settle_def on_node_def fun_eq_iff)
  moreover have "on_node nc (\<lambda>x. x\<lparr>n_escapes := 4, n_total := s\<rparr>)
      (on_node n (\<lambda>x. x\<lparr>n_count := w\<rparr>) (on_node n (\<lambda>x. x\<lparr>n_symbol := symbol\<rparr>) m)) =
    settle symbol n nc w 4 s m" for w s
    using assms(1) by (simp add: settle_def on_node_def fun_eq_iff)
  ultimately show ?thesis using assms by (simp add: finish_node_def Let_def)
qed

text \<open>The sums after the new node has joined its context.\<close>

lemma tally_settle:
  assumes "tally k 10008 m S nc" "n \<notin> S" "finite S" "nc \<notin> S" "n \<noteq> nc" "unat symbol < alphabet_size k"
    "\<forall>y \<in> S. n_symbol (nodes m y) \<noteq> symbol" "1 \<le> unat w" "unat w \<le> 50043"
    "if S = {} then e = 4 \<and> tt = w + 4 else unat w \<le> 50000 \<and> e = n_escapes (nodes m nc) + 4 \<and> tt = n_total (nodes m nc) + (w + 4)"
  shows "tally k 65535 (settle symbol n nc w e tt m) (insert n S) nc" "unat tt \<le> 60012"
proof -
  let ?m = "settle symbol n nc w e tt m"
  have w: "w = of_nat (unat w)" by simp
  have sum: "(\<Sum>y\<in>insert n S. unat (n_count (nodes ?m y))) = unat w + (\<Sum>y\<in>S. unat (n_count (nodes m y)))"
  proof -
    have "(\<Sum>y\<in>S. unat (n_count (nodes ?m y))) = (\<Sum>y\<in>S. unat (n_count (nodes m y)))"
      by (rule sum.cong) (use assms(2) in auto)
    with assms(2,3) show ?thesis by simp
  qed
  have tt: "unat tt = unat e + unat w + (\<Sum>y\<in>S. unat (n_count (nodes m y)))" "unat tt \<le> 60012" "4 \<le> unat e"
  proof -
    have "unat tt = unat e + unat w + (\<Sum>y\<in>S. unat (n_count (nodes m y))) \<and> unat tt \<le> 60012 \<and> 4 \<le> unat e"
    proof (cases "S = {}")
      case True
      have "w + 4 = of_nat (unat w + 4)" by simp
      then have "unat (w + 4) = unat w + 4" using small_word [of "unat w + 4"] assms(9) by simp
      with True assms(9,10) show ?thesis by simp
    next
      case False
      note t = tallyD [OF assms(1) False]
      have "n_total (nodes m nc) + (w + 4) = of_nat (unat (n_total (nodes m nc)) + unat w + 4)" by simp
      then have 1: "unat (n_total (nodes m nc) + (w + 4)) = unat (n_total (nodes m nc)) + unat w + 4"
        using small_word [of "unat (n_total (nodes m nc)) + unat w + 4"] assms(10) False t(6) by (simp add: add.assoc)
      have "n_escapes (nodes m nc) + 4 = of_nat (unat (n_escapes (nodes m nc)) + 4)" by simp
      then have 2: "unat (n_escapes (nodes m nc) + 4) = unat (n_escapes (nodes m nc)) + 4"
        using small_word [of "unat (n_escapes (nodes m nc)) + 4"] t(5,6) by simp
      show ?thesis using assms(10) False 1 2 t(5,6) by simp
    qed
    then show "unat tt = unat e + unat w + (\<Sum>y\<in>S. unat (n_count (nodes m y)))" "unat tt \<le> 60012" "4 \<le> unat e" by auto
  qed
  show "unat tt \<le> 60012" by (rule tt(2))
  have "0 < e" "0 < w" using tt(3) assms(8) by (simp_all add: word_less_nat_alt)
  moreover have "inj_on (\<lambda>y. n_symbol (nodes ?m y)) (insert n S)"
  proof -
    have "inj_on (\<lambda>y. n_symbol (nodes m y)) S"
      using tallyD(4) [OF assms(1)] by (cases "S = {}") auto
    then have "inj_on (\<lambda>y. n_symbol (nodes ?m y)) S" using assms(2) by (auto simp: inj_on_def)
    with assms(2,7) show ?thesis by (auto simp: inj_on_insert)
  qed
  moreover have "\<forall>y \<in> insert n S. 0 < n_count (nodes ?m y) \<and> unat (n_symbol (nodes ?m y)) < alphabet_size k"
  proof
    fix y assume "y \<in> insert n S"
    then show "0 < n_count (nodes ?m y) \<and> unat (n_symbol (nodes ?m y)) < alphabet_size k"
      using tallyD(2,3) [OF assms(1), of y] assms(6) \<open>0 < w\<close> by auto
  qed
  ultimately show "tally k 65535 ?m (insert n S) nc"
    unfolding tally_def using tt sum by simp
qed

lemma finish_node_returns:
  assumes "tally k 10008 m S nc" "n \<notin> S" "finite S" "nc \<notin> S" "n \<noteq> nc" "unat symbol < alphabet_size k"
    "\<forall>y \<in> S. n_symbol (nodes m y) \<noteq> symbol" "unat c < unat t" "unat t \<le> 10008"
  shows "\<exists>w e tt. finish_node k symbol (c, t) (n, nc) m = scale_while 17 k nc (settle symbol n nc w e tt m) \<and>
    tally k 65535 (settle symbol n nc w e tt m) (insert n S) nc \<and> unat tt \<le> 60012"
proof -
  have ct: "c \<noteq> t" using assms(8) by auto
  show ?thesis
  proof (cases "S = {}")
    case True
    then have z: "n_total (nodes m nc) = 0" using assms(1) by (simp add: tally_def)
    obtain v where v: "3 \<le> v" "v \<le> 50043" "word_of_int (3 + c_div (5 * uint c) (uint t - uint c)) = (of_nat v :: 16 word)"
      using first_count [OF assms(8,9)] by blast
    have b: "1 \<le> unat (of_nat v :: 16 word)" "unat (of_nat v :: 16 word) \<le> 50043" using v(1,2) small_word [of v] by simp_all
    have i: "if S = {} then 4 = (4 :: 16 word) \<and> of_nat v + 4 = of_nat v + (4 :: 16 word) else
        unat (of_nat v :: 16 word) \<le> 50000 \<and> 4 = n_escapes (nodes m nc) + 4 \<and> of_nat v + 4 = n_total (nodes m nc) + (of_nat v + 4)"
      using True by simp
    have "finish_node k symbol (c, t) (n, nc) m = scale_while 17 k nc (settle symbol n nc (of_nat v) 4 (of_nat v + 4) m)"
      unfolding finish_node_eq [OF assms(5) ct] Let_def v(3) using z by simp
    with tally_settle [OF assms(1-7) b i] show ?thesis by blast
  next
    case False
    then have z: "n_total (nodes m nc) \<noteq> 0" using tally_nonzero [OF assms(1)] by simp
    define w where "w = inherited_count c t (nodes m nc)"
    have b: "1 \<le> unat w" "unat w \<le> 50043" using inherited_bounds [of c t "nodes m nc"] by (simp_all add: w_def)
    have i: "if S = {} then n_escapes (nodes m nc) + 4 = 4 \<and> n_total (nodes m nc) + (w + 4) = w + 4
      else unat w \<le> 50000 \<and> n_escapes (nodes m nc) + 4 = n_escapes (nodes m nc) + 4 \<and>
        n_total (nodes m nc) + (w + 4) = n_total (nodes m nc) + (w + 4)"
      using False inherited_bounds(2) by (simp add: w_def)
    have "finish_node k symbol (c, t) (n, nc) m =
        scale_while 17 k nc (settle symbol n nc w (n_escapes (nodes m nc) + 4) (n_total (nodes m nc) + (w + 4)) m)"
      unfolding finish_node_eq [OF assms(5) ct] Let_def w_def using z by simp
    with tally_settle [OF assms(1-7) b i] show ?thesis by blast
  qed
qed

lemma finish_node_inv:
  assumes "tree_ok k K d symbol None m" "stack m = (n, nc) # ps" "unat c < unat t" "unat t \<le> 10008" "sized k"
    "unat symbol < alphabet_size k"
  shows "\<exists>m'. finish_node k symbol (c, t) (n, nc) (m\<lparr>stack := ps\<rparr>) = Some m' \<and> tree_ok k K d symbol None m' \<and> stack m' = ps \<and>
    cur m' = cur m \<and> cur_order m' = cur_order m \<and> exc m' = exc m \<and> exc_used m' = exc_used m"
proof -
  note i = tree_okD [OF assms(1)]
  note s = shapedD [OF i(1)]
  let ?m0 = "m\<lparr>stack := ps\<rparr>" and ?S = "set (K nc) - waiting m"
  have st: "b < next_node m" "a \<in> set (K b)" "\<forall>y \<in> set (K b) - waiting m. n_symbol (nodes m y) \<noteq> symbol"
    if "(a, b) \<in> set (stack m)" for a b
    using i(4) that unfolding stacked_def by blast+
  have nc: "nc < next_node m" "n \<in> set (K nc)" "\<forall>y \<in> ?S. n_symbol (nodes m y) \<noteq> symbol"
    using st [of n nc] assms(2) by auto
  have dist: "n \<notin> fst ` set ps" "nc \<notin> snd ` set ps" "distinct (map fst ps)" "distinct (map snd ps)"
    using i(4) assms(2) by (auto simp: stacked_def)
  have only: "z = nc" if "z < next_node m" "n \<in> set (K z)" for z
    using s(4) [OF nc(1) that(1)] nc(2) that(2) by blast
  have all: "insert n ?S = set (K nc)"
  proof -
    have "y = n" if y: "y \<in> set (K nc)" "y \<in> waiting m" for y
    proof -
      from y(2) obtain b where b: "(y, b) \<in> set (stack m)" by auto
      from st(1,2) [OF b] s(4) [OF nc(1), of b] y(1) have "b = nc" by blast
      with b dist(2) assms(2) show ?thesis by force
    qed
    with nc(2) show ?thesis by blast
  qed
  have rest: "set (K z) - fst ` set ps = set (K z) - waiting m" if "z < next_node m" "z \<noteq> nc" for z
    using only [OF that(1)] that(2) assms(2) by auto
  have whole: "set (K nc) - fst ` set ps = set (K nc)"
  proof -
    have "y \<notin> fst ` set ps" if "y \<in> set (K nc)" for y
    proof
      assume "y \<in> fst ` set ps"
      with assms(2) have "y \<in> waiting m" by auto
      with that all have "y = n" by blast
      with \<open>y \<in> fst ` set ps\<close> dist(1) show False by simp
    qed
    then show ?thesis by blast
  qed
  have "tally k 10008 ?m0 ?S nc"
    using i(2) nc(1) tally_nodes [of ?m0 m] by (simp add: tallied_def)
  then obtain w e tt where w: "finish_node k symbol (c, t) (n, nc) ?m0 = scale_while 17 k nc (settle symbol n nc w e tt ?m0)"
    "tally k 65535 (settle symbol n nc w e tt ?m0) (set (K nc)) nc" "unat tt \<le> 60012"
    using finish_node_returns [of k ?m0 ?S nc n symbol c t] nc s(3) [OF nc(1) nc(2)] s(5) [OF nc(1)] assms(2-4,6) all
    by auto
  let ?m1 = "settle symbol n nc w e tt ?m0"
  have sh: "shaped k K d ?m1"
  proof -
    have "chain (nodes ?m1) p zs \<longleftrightarrow> chain (nodes m) p zs" for p zs by (rule chain_cong) simp
    with i(1) show ?thesis by (simp add: shaped_def)
  qed
  have "\<exists>m'. scale_while 17 k nc ?m1 = Some m' \<and> same_links ?m1 m' \<and> exc m' = exc ?m1 \<and> exc_used m' = exc_used ?m1 \<and>
    tally k 10000 m' (set (K nc)) nc \<and>
    (\<forall>z < next_node ?m1. z \<noteq> nc \<longrightarrow> (\<forall>S. S \<subseteq> set (K z) \<longrightarrow> tally k 10008 m' S z = tally k 10008 ?m1 S z))"
    by (rule scale_while_inv [where j = 4, OF sh]) (use w(2,3) nc assms(5) in auto)
  then obtain m' where m': "scale_while 17 k nc ?m1 = Some m'" "same_links ?m1 m'" "exc m' = exc m" "exc_used m' = exc_used m"
    "tally k 10000 m' (set (K nc)) nc"
    "\<And>z S. z < next_node m \<Longrightarrow> z \<noteq> nc \<Longrightarrow> S \<subseteq> set (K z) \<Longrightarrow> tally k 10008 m' S z = tally k 10008 ?m1 S z" by auto
  have ta: "tally k 10008 m' (set (K z) - fst ` set ps) z" if z: "z < next_node m" for z
  proof (cases "z = nc")
    case True
    with m'(5) whole nc(2) show ?thesis by (auto simp: tally_def)
  next
    case False
    have "tally k 10008 ?m1 (set (K z) - waiting m) z \<longleftrightarrow> tally k 10008 m (set (K z) - waiting m) z"
      by (rule tally_cong) (use False only [OF z] in auto)
    with m'(6) [OF z False, of "set (K z) - waiting m"] i(2) z rest [OF z False] show ?thesis by (auto simp: tallied_def)
  qed
  have "stacked K symbol ?m1"
  proof -
    have "b < next_node m \<and> a \<in> set (K b) \<and> (\<forall>y \<in> set (K b) - fst ` set ps. n_symbol (nodes ?m1 y) \<noteq> symbol)"
      if ab: "(a, b) \<in> set ps" for a b
    proof -
      from ab dist(2) have "b \<noteq> nc" by force
      moreover have "(a, b) \<in> set (stack m)" using ab assms(2) by simp
      ultimately show ?thesis using st [of a b] rest [of b] only [of b] by auto
    qed
    moreover have "stack ?m1 = ps" "next_node ?m1 = next_node m" by simp_all
    ultimately show ?thesis unfolding stacked_def using dist(3,4) by (simp only:) fast
  qed
  moreover have "linked d None ?m1" "cur_ok k d ?m1" using i(3,5) by (simp_all add: linked_def cur_ok_def)
  moreover have "tallied k K m'" using ta m'(2) by (simp add: tallied_def same_links_def)
  ultimately have "tree_ok k K d symbol None m'"
    using sh same_links_rest [OF m'(2)] same_links_shaped [OF m'(2)] by (simp add: tree_ok_def)
  with w(1) m' show ?thesis by (auto simp: same_links_def)
qed

lemma finish_loop_inv:
  assumes "tree_ok k K d symbol None m" "stack m = ps" "unat c < unat t" "unat t \<le> 10008" "sized k" "unat symbol < alphabet_size k"
  shows "\<exists>m'. finish_loop k symbol (c, t) ps m = Some m' \<and> tree_ok k K d symbol None m' \<and> stack m' = [] \<and>
    cur m' = cur m \<and> exc m' = exc m \<and> exc_used m' = exc_used m"
  using assms
proof (induction ps arbitrary: m)
  case Nil
  then have m: "m\<lparr>stack := []\<rparr> = m" by (cases m) simp
  show ?case unfolding finish_loop.simps m using Nil by auto
next
  case (Cons p ps)
  obtain n nc where p: "p = (n, nc)" by (cases p)
  from finish_node_inv [OF Cons.prems(1) Cons.prems(2) [unfolded p] Cons.prems(3-6)] obtain m1 where
    m1: "finish_node k symbol (c, t) (n, nc) (m\<lparr>stack := ps\<rparr>) = Some m1" "tree_ok k K d symbol None m1" "stack m1 = ps"
      "cur m1 = cur m" "exc m1 = exc m" "exc_used m1 = exc_used m" by blast
  from Cons.IH [OF m1(2,3) Cons.prems(3-6)] m1 show ?case by (auto simp: p)
qed

end
