(* ===== verification/Ppm_Lockstep.thy ===== *)
theory Ppm_Lockstep
  imports Ppm_Shape
begin

text \<open>
  Encoder and decoder in lockstep: the calls that \<open>encode\<close> makes of its coder for a symbol are those that \<open>decode\<close> makes
  of its own when it reads the symbol, and both models are left in the same state.
\<close>

section \<open>One context\<close>

text \<open>What the invariant says of the child nodes of a context, when none of them waits for its symbol.\<close>

definition countable_kids :: "ppm_size \<Rightarrow> ppm \<Rightarrow> nat \<Rightarrow> nat list \<Rightarrow> bool" where
  "countable_kids k m x zs \<longleftrightarrow> chain (nodes m) (n_child (nodes m x)) zs \<and> zs \<noteq> [] \<and> searchable k m zs \<and> excl_ok k m \<and>
     length zs \<le> total_nodes k \<and> unat (n_total (nodes m x)) = unat (n_escapes (nodes m x)) + mass (nodes m) zs"

lemma countable_kidsD:
  assumes "countable_kids k m x zs"
  shows "chain (nodes m) (n_child (nodes m x)) zs" "zs \<noteq> []" "searchable k m zs" "excl_ok k m" "length zs \<le> total_nodes k"
    "unat (n_total (nodes m x)) = unat (n_escapes (nodes m x)) + mass (nodes m) zs" "n_child (nodes m x) = Some (hd zs)"
  using assms chain_some [of "nodes m" "n_child (nodes m x)" zs] by (auto simp: countable_kids_def)

lemma included_all:
  assumes "excl_ok k m" "\<not> exc_used m" "searchable k m zs"
  shows "included m zs = zs"
  using not_used_not_excluded [OF assms(1,2)] assms(3) by (auto simp: filter_id_conv searchable_def list_all_iff)

lemma word_of_sum: "unat (t :: 16 word) = n \<Longrightarrow> t = of_nat n"
  by auto

lemma remaining_total:
  assumes "unat t = e + mass (nodes m) zs"
  shows "remaining m zs t = of_nat (e + mass (nodes m) (included m zs))"
proof -
  have "t = of_nat (e + mass (nodes m) zs)" using assms by (rule word_of_sum)
  then show ?thesis by (simp add: remaining_def)
qed

text \<open>The encoder.\<close>

lemma search_found:
  assumes "countable_kids k m x (us @ y # vs)" "n_symbol (nodes m y) = symbol" "\<not> excluded m symbol"
  shows "\<exists>n r e. search_symbol k symbol x m = Some (n, r, m\<lparr>exc := e, exc_used := True\<rparr>) \<and> length e = length (exc m) \<and>
    found_symbol r = Some y \<and> found_last r = prev_node None us \<and> low_count r = of_nat (mass (nodes m) (included m us)) \<and>
    high_count r = of_nat (mass (nodes m) (included m us) + unat (n_count (nodes m y))) \<and>
    total_count r = of_nat (unat (n_escapes (nodes m x)) + mass (nodes m) (included m (us @ y # vs)))"
proof -
  let ?zs = "us @ y # vs"
  note k = countable_kidsD [OF assms(1)]
  define r0 where "r0 = \<lparr>found_symbol = None, found_last = None, low_count = 0, high_count = 0, total_count = n_total (nodes m x)\<rparr>"
  have miss: "symbol \<notin> set (symbols_of m us)" using k(3) assms(2) by (auto simp: searchable_def)
  have ch: "chain (nodes m) (Some (hd ?zs)) ?zs" using k(1,7) by simp
  note tot = remaining_total [OF k(6)]
  show ?thesis
  proof (cases "exc_used m")
    case True
    define r1 where "r1 = r0\<lparr>total_count := remaining m ?zs (total_count r0), found_symbol := Some y, found_last := prev_node None us,
      low_count := high_count r0 + of_nat (mass (nodes m) (included m us)),
      high_count := high_count r0 + of_nat (mass (nodes m) (included m us)) + n_count (nodes m y)\<rparr>"
    have "search_symbol k symbol x m = scan_excluded (total_nodes k) symbol (hd ?zs) None r0 m"
      using k(7) True by (simp add: search_symbol_def something_is_excluded_def r0_def)
    also have "\<dots> = Some (last ?zs, r1, excl_all (symbols_of m ?zs) m)" unfolding r1_def
      by (rule scan_excluded_found [OF ch k(3) True k(5) _ miss assms(2,3)]) (simp add: r0_def)
    also have "excl_all (symbols_of m ?zs) m = m\<lparr>exc := exc (excl_all (symbols_of m ?zs) m), exc_used := True\<rparr>"
      using True by (intro ppm.equality) auto
    finally have s: "search_symbol k symbol x m = Some (last ?zs, r1, m\<lparr>exc := exc (excl_all (symbols_of m ?zs) m), exc_used := True\<rparr>)" .
    have "length (exc (excl_all (symbols_of m ?zs) m)) = length (exc m)" "found_symbol r1 = Some y" "found_last r1 = prev_node None us"
      "low_count r1 = of_nat (mass (nodes m) (included m us))"
      "high_count r1 = of_nat (mass (nodes m) (included m us) + unat (n_count (nodes m y)))"
      "total_count r1 = of_nat (unat (n_escapes (nodes m x)) + mass (nodes m) (included m ?zs))"
      using tot by (simp_all add: r1_def r0_def)
    with s show ?thesis by blast
  next
    case False
    have inc: "included m us = us" "included m ?zs = ?zs"
      using included_all [OF k(4) False] k(3) searchable_append [of k m us "y # vs"] by blast+
    have len: "length us < total_nodes k" using k(5) by simp
    from scan_plain_found [OF ch k(3) miss assms(2) len, of r0] obtain e where
      e: "scan_plain (total_nodes k) symbol (hd ?zs) r0 m = Some (y, r0\<lparr>found_symbol := Some y, found_last := prev_node (found_last r0) us,
      low_count := high_count r0 + of_nat (mass (nodes m) us),
      high_count := high_count r0 + of_nat (mass (nodes m) us) + n_count (nodes m y)\<rparr>, m\<lparr>exc := e, exc_used := True\<rparr>)"
      "length e = length (exc m)" by blast
    have s: "search_symbol k symbol x m = scan_plain (total_nodes k) symbol (hd ?zs) r0 m"
      using k(7) False by (simp add: search_symbol_def something_is_excluded_def r0_def)
    have "n_total (nodes m x) = of_nat (unat (n_escapes (nodes m x)) + mass (nodes m) ?zs)"
      using k(6) by (rule word_of_sum)
    with e show ?thesis unfolding s inc by (simp add: r0_def) (rule exI [of _ e], simp)
  qed
qed

lemma search_missing:
  assumes "countable_kids k m x zs" "symbol \<notin> set (symbols_of m (included m zs))"
  shows "\<exists>r. search_symbol k symbol x m = Some (last zs, r, excl_all (symbols_of m zs) m) \<and>
    found_symbol r = None \<and> high_count r = of_nat (mass (nodes m) (included m zs)) \<and>
    total_count r = of_nat (unat (n_escapes (nodes m x)) + mass (nodes m) (included m zs))"
proof -
  note k = countable_kidsD [OF assms(1)]
  define r0 where "r0 = \<lparr>found_symbol = None, found_last = None, low_count = 0, high_count = 0, total_count = n_total (nodes m x)\<rparr>"
  have ch: "chain (nodes m) (Some (hd zs)) zs" using k(1,7) by simp
  have none: "found_symbol r0 = None" by (simp add: r0_def)
  note tot = remaining_total [OF k(6)]
  show ?thesis
  proof (cases "exc_used m")
    case True
    have "search_symbol k symbol x m = scan_excluded (total_nodes k) symbol (hd zs) None r0 m"
      using k(7) True by (simp add: search_symbol_def something_is_excluded_def r0_def)
    with scan_excluded_missing [OF ch k(3) True k(5) none assms(2), of None] tot show ?thesis by (simp add: r0_def)
  next
    case False
    have inc: "included m zs = zs" by (rule included_all [OF k(4) False k(3)])
    have s: "search_symbol k symbol x m = scan_plain (total_nodes k) symbol (hd zs) r0 m"
      using k(7) False by (simp add: search_symbol_def something_is_excluded_def r0_def)
    have "n_total (nodes m x) = of_nat (unat (n_escapes (nodes m x)) + mass (nodes m) zs)"
      using k(6) by (rule word_of_sum)
    with scan_plain_missing [OF ch k(3) assms(2) [unfolded inc] k(5) none] show ?thesis
      unfolding s inc by (auto simp: r0_def)
  qed
qed

text \<open>The decoder.\<close>

lemma count_included_eq:
  assumes "countable_kids k m x zs"
  shows "count_included k x m = Some (of_nat (unat (n_escapes (nodes m x)) + mass (nodes m) (included m zs)))"
proof -
  note k = countable_kidsD [OF assms]
  have ch: "chain (nodes m) (Some (hd zs)) zs" using k(1,7) by simp
  show ?thesis
  proof (cases "exc_used m")
    case True
    with sum_included_eq [OF ch k(3,5)] k(7) show ?thesis by (simp add: count_included_def something_is_excluded_def)
  next
    case False
    have "included m zs = zs" by (rule included_all [OF k(4) False k(3)])
    then show ?thesis using False k(6) unfolding count_included_def something_is_excluded_def count_word by simp
  qed
qed

section \<open>Runs of the encoder and of the decoder\<close>

text \<open>
  \<open>f\<close> makes the calls \<open>ops\<close> of the coder, and no others; if they return it returns \<open>x\<close> and leaves the model \<open>m'\<close>. If one
  of them throws, \<open>f\<close> throws.
\<close>

definition performs ::
  "(32 word \<Rightarrow> 32 word \<Rightarrow> 32 word \<Rightarrow> 'c \<Rightarrow> (unit, 'c) io) \<Rightarrow> call list \<Rightarrow> ('s \<times> 'c \<Rightarrow> ('a, 's \<times> 'c) io) \<Rightarrow> 's \<Rightarrow> 'a \<Rightarrow> 's \<Rightarrow> bool" where
  "performs enc ops f m x m' \<longleftrightarrow> (\<forall>c. case run_calls enc ops c of
     Returned _ c' \<Rightarrow> f (m, c) = Returned x (m', c')
   | Thrown e c' \<Rightarrow> (\<exists>m1. f (m, c) = Thrown e (m1, c'))
   | Undef \<Rightarrow> f (m, c) = Undef)"

lemma performs_eqI:
  assumes "\<And>c. f (m, c) = g (m1, c)" "performs enc ops g m1 x m'"
  shows "performs enc ops f m x m'"
  using assms(2) unfolding performs_def assms(1) .

lemma performs_Returned: "performs enc [] (Returned x) m x m"
  by (simp add: performs_def)

lemma performs_on_model: "f m = Some (x, m') \<Longrightarrow> performs enc [] (on_model f) m x m'"
  by (simp add: performs_def on_model_def)

lemma performs_call: "performs enc [(l, h, t)] (on_stream (enc l h t)) m () m"
  by (auto simp: performs_def bind_io.simps on_stream_def split: io.split)

lemma run_calls_append: "run_calls enc (ops @ ops') = bind_io (run_calls enc ops) (\<lambda>_. run_calls enc ops')"
proof (induction ops)
  case Nil
  show ?case by (simp add: bind_io_Returned)
next
  case (Cons op ops)
  then show ?case by (cases op) (auto simp: fun_eq_iff bind_io.simps split: io.split)
qed

lemma performs_bind:
  assumes "performs enc ops f m x m1" "performs enc ops' (g x) m1 y m2"
  shows "performs enc (ops @ ops') (bind_io f g) m y m2"
  unfolding performs_def
proof
  fix c
  have f: "case run_calls enc ops c of Returned _ c' \<Rightarrow> f (m, c) = Returned x (m1, c')
    | Thrown e c' \<Rightarrow> (\<exists>m1. f (m, c) = Thrown e (m1, c')) | Undef \<Rightarrow> f (m, c) = Undef"
    using assms(1) by (simp add: performs_def)
  show "case run_calls enc (ops @ ops') c of Returned _ c' \<Rightarrow> bind_io f g (m, c) = Returned y (m2, c')
    | Thrown e c' \<Rightarrow> (\<exists>m1. bind_io f g (m, c) = Thrown e (m1, c')) | Undef \<Rightarrow> bind_io f g (m, c) = Undef"
  proof (cases "run_calls enc ops c")
    case (Returned u c1)
    then have r: "run_calls enc (ops @ ops') c = run_calls enc ops' c1" by (simp add: run_calls_append)
    from f Returned have "f (m, c) = Returned x (m1, c1)" by simp
    then have b: "bind_io f g (m, c) = g x (m1, c1)" by simp
    show ?thesis unfolding r b using assms(2) by (simp add: performs_def)
  qed (use f in \<open>auto simp: run_calls_append bind_io.simps\<close>)
qed

lemma performs_pure: "f m = Some (x, m1) \<Longrightarrow> performs enc ops (g x) m1 y m2 \<Longrightarrow> performs enc ops (bind_io (on_model f) g) m y m2"
  using performs_bind [OF performs_on_model] by (metis append_Nil)

lemma performs_op:
  "performs enc ops (g ()) m y m' \<Longrightarrow> performs enc ((l, h, t) # ops) (bind_io (on_stream (enc l h t)) g) m y m'"
  using performs_bind [OF performs_call] by (metis append_Cons append_Nil)

text \<open>If the decoder can read the calls \<open>ops\<close>, \<open>f\<close> returns \<open>x\<close> and leaves the decoder behind them.\<close>

definition follows :: "('d \<Rightarrow> call list \<Rightarrow> bool) \<Rightarrow> call list \<Rightarrow> ('s \<times> 'd \<Rightarrow> ('a, 's \<times> 'd) io) \<Rightarrow> 's \<Rightarrow> 'a \<Rightarrow> 's \<Rightarrow> bool" where
  "follows coded ops f m x m' \<longleftrightarrow>
     (\<forall>d rest. coded d (ops @ rest) \<longrightarrow> (\<exists>d'. f (m, d) = Returned x (m', d') \<and> coded d' rest))"

lemma follows_eqI: "(\<And>d. f (m, d) = g (m1, d)) \<Longrightarrow> follows coded ops g m1 x m' \<Longrightarrow> follows coded ops f m x m'"
  by (simp add: follows_def)

lemma follows_Returned: "follows coded [] (Returned x) m x m"
  by (auto simp: follows_def)

lemma follows_on_model: "f m = Some (x, m') \<Longrightarrow> follows coded [] (on_model f) m x m'"
  by (auto simp: follows_def on_model_def)

lemma follows_bind:
  assumes "follows coded ops f m x m1" "follows coded ops' (g x) m1 y m2"
  shows "follows coded (ops @ ops') (bind_io f g) m y m2"
  unfolding follows_def
proof (intro allI impI)
  fix d rest assume "coded d ((ops @ ops') @ rest)"
  with assms(1) obtain d1 where d1: "f (m, d) = Returned x (m1, d1)" "coded d1 (ops' @ rest)"
    unfolding follows_def by (metis append_assoc)
  with assms(2) show "\<exists>d'. bind_io f g (m, d) = Returned y (m2, d') \<and> coded d' rest"
    unfolding follows_def by simp
qed

lemma follows_pure: "f m = Some (x, m1) \<Longrightarrow> follows coded ops (g x) m1 y m2 \<Longrightarrow> follows coded ops (bind_io (on_model f) g) m y m2"
  using follows_bind [OF follows_on_model] by (metis append_Nil)

context entropy_coding
begin

text \<open>One call: the decoder gets some target between the counts, and does the same for all of them.\<close>

lemma follows_op:
  assumes "\<And>x d. l \<le> x \<Longrightarrow> x < h \<Longrightarrow> g x (m, d) = bind_io (on_stream (decode l h)) g' (m', d)"
    "follows coded ops (g' ()) m' y m2"
  shows "follows coded ((l, h, t) # ops) (bind_io (on_stream (get_target t)) g) m y m2"
  unfolding follows_def
proof (intro allI impI)
  fix d rest assume c: "coded d (((l, h, t) # ops) @ rest)"
  then have "coded d ((l, h, t) # (ops @ rest))" by simp
  from decodes [OF this] obtain x d1 d2 where x: "get_target t d = Returned x d1" "l \<le> x" "x < h"
    "decode l h d1 = Returned () d2" "coded d2 (ops @ rest)" by blast
  from assms(1) [OF x(2,3), of d1] have "g x (m, d1) = bind_io (on_stream (decode l h)) g' (m', d1)" by blast
  also have "\<dots> = g' () (m', d2)" using x(4) by simp
  finally have "bind_io (on_stream (get_target t)) g (m, d) = g' () (m', d2)" using x(1) by simp
  with assms(2) x(5) show "\<exists>d'. bind_io (on_stream (get_target t)) g (m, d) = Returned y (m2, d') \<and> coded d' rest"
    unfolding follows_def by simp
qed

end

section \<open>The steps of the loops\<close>

text \<open>What follows in the two loops when a new node has been allocated.\<close>

definition enc_next where
  "enc_next enc k symbol fuel x local_order = (\<lambda>a. bind_io (on_model (no_result (fill_node k a x local_order))) (\<lambda>_ w.
     if x \<noteq> 0
     then case n_parent (nodes (fst w) x) of
            None \<Rightarrow> Undef
          | Some p \<Rightarrow> encode_contexts enc k symbol fuel p (local_order - 1) (Some a) w
     else bind_io (on_model (\<lambda>m. Some ((), set_parent (Some a) 0 m))) (\<lambda>_.
          bind_io (on_stream (enc (ucast symbol) (ucast symbol + 1) (of_nat (alphabet_size k)))) (\<lambda>_.
          on_model (\<lambda>m. Some ((8, 2056), at_root m)))) w))"

definition dec_next where
  "dec_next get dec k fuel x local_order = (\<lambda>a. bind_io (on_model (no_result (fill_node k a x local_order))) (\<lambda>_ w.
     if x \<noteq> 0
     then case n_parent (nodes (fst w) x) of
            None \<Rightarrow> Undef
          | Some p \<Rightarrow> decode_contexts get dec k fuel p (local_order - 1) (Some a) w
     else bind_io (on_stream (get (of_nat (alphabet_size k)))) (\<lambda>target.
          bind_io (on_model (\<lambda>m. Some ((), set_parent (Some a) 0 m))) (\<lambda>_.
          bind_io (on_stream (dec target (target + 1))) (\<lambda>_.
          on_model (\<lambda>m. Some ((8, 2056, ucast target), at_root m))))) w))"

lemma encode_full:
  "\<not> space_left k m \<Longrightarrow> encode_contexts enc k symbol (Suc fuel) x lo q (m, c) =
     encode_contexts enc k symbol fuel 0 0 None ((ppm_clear k m)\<lparr>cur := None\<rparr>, c)"
  by simp

lemma encode_empty:
  assumes "space_left k m" "n_total (nodes m x) = 0"
  shows "encode_contexts enc k symbol (Suc fuel) x lo q (m, c) =
    bind_io (on_model (\<lambda>m. case extend_chain q m of (a, m) \<Rightarrow> Some (a, on_node x (\<lambda>b. b\<lparr>n_child := Some a\<rparr>) m)))
      (enc_next enc k symbol fuel x lo) (m, c)"
  using assms by (simp add: enc_next_def Let_def)

lemma encode_counted:
  assumes "space_left k m" "n_total (nodes m x) \<noteq> 0"
  shows "encode_contexts enc k symbol (Suc fuel) x lo q (m, c) =
    bind_io (on_model (\<lambda>m. do { m \<leftarrow> scale_if_large k x m; (n, r, m) \<leftarrow> search_symbol k symbol x m; Some ((n, r), m) }))
      (\<lambda>(n, r).
         case found_symbol r of
           Some n \<Rightarrow>
             bind_io (on_model (\<lambda>m. Some ((), set_parent q n m))) (\<lambda>_.
             bind_io (on_stream (enc (ucast (low_count r)) (ucast (high_count r)) (ucast (total_count r)))) (\<lambda>_.
               on_model (\<lambda>m. Some (count_symbol k (found_last r) n x lo m))))
         | None \<Rightarrow>
             bind_io (on_model (\<lambda>m. do {
               (n, m) \<leftarrow> exclude_rest (total_nodes k) n m;
               let (a, m) = extend_chain q m;
               Some (a, on_node n (\<lambda>b. b\<lparr>n_next := Some a\<rparr>) m) })) (\<lambda>a.
             bind_io (on_stream (enc (ucast (high_count r)) (ucast (total_count r)) (ucast (total_count r)))) (\<lambda>_.
               enc_next enc k symbol fuel x lo a))) (m, c)"
proof -
  have t: "n_total (nodes m x) > 0" using assms(2) by (simp add: word_neq_0_conv)
  show ?thesis
    unfolding encode_contexts.simps(2) enc_next_def Let_def fst_conv using assms(1) t
    by (simp only: if_True if_False not_True_eq_False)
qed

lemma decode_full:
  "\<not> space_left k m \<Longrightarrow> decode_contexts get dec k (Suc fuel) x lo q (m, c) =
     decode_contexts get dec k fuel 0 0 None ((ppm_clear k m)\<lparr>cur := None\<rparr>, c)"
  by simp

lemma decode_empty:
  assumes "space_left k m" "n_total (nodes m x) = 0"
  shows "decode_contexts get dec k (Suc fuel) x lo q (m, d) =
    bind_io (on_model (\<lambda>m. case extend_chain q m of (a, m) \<Rightarrow> Some (a, on_node x (\<lambda>b. b\<lparr>n_child := Some a\<rparr>) m)))
      (dec_next get dec k fuel x lo) (m, d)"
  using assms by (simp add: dec_next_def Let_def)

definition dec_target_found where
  "dec_target_found get dec k fuel x lo q tot = (\<lambda>target.
     bind_io (on_model (\<lambda>m. do { n \<leftarrow> n_child (nodes m x); find_target (total_nodes k) (ucast target) n None 0 m }))
       (\<lambda>(n, prev, hc).
         if hc > ucast target
         then bind_io (on_model (\<lambda>m. Some ((hc - ucast (n_count (nodes m n)), ucast (n_symbol (nodes m n)) :: 64 word),
                  set_parent q n m))) (\<lambda>(lc, symbol).
              bind_io (on_stream (dec (ucast lc) (ucast hc))) (\<lambda>_.
              bind_io (on_model (\<lambda>m. Some (count_symbol k prev n x lo m))) (\<lambda>(c, t).
                Returned (c, t, symbol))))
         else bind_io (on_model (\<lambda>m. case extend_chain q m of (a, m) \<Rightarrow>
                  Some (a, on_node n (\<lambda>b. b\<lparr>n_next := Some a\<rparr>) m))) (\<lambda>a.
              bind_io (on_stream (dec (ucast hc) (ucast (tot :: 64 word)))) (\<lambda>_.
                dec_next get dec k fuel x lo a))))"

lemma decode_counted:
  assumes "space_left k m" "n_total (nodes m x) \<noteq> 0"
  shows "decode_contexts get dec k (Suc fuel) x lo q (m, d) =
    bind_io (on_model (\<lambda>m. do { m \<leftarrow> scale_if_large k x m; tot \<leftarrow> count_included k x m; Some (tot, m) }))
      (\<lambda>tot. bind_io (on_stream (get (ucast tot))) (dec_target_found get dec k fuel x lo q tot)) (m, d)"
proof -
  have t: "n_total (nodes m x) > 0" using assms(2) by (simp add: word_neq_0_conv)
  show ?thesis
    unfolding decode_contexts.simps(2) dec_next_def dec_target_found_def Let_def fst_conv using assms(1) t
    by (simp only: if_True if_False not_True_eq_False)
qed

lemma performs_full:
  "\<not> space_left k m \<Longrightarrow> performs enc ops (encode_contexts enc k symbol fuel 0 0 None) ((ppm_clear k m)\<lparr>cur := None\<rparr>) ct m' \<Longrightarrow>
     performs enc ops (encode_contexts enc k symbol (Suc fuel) x lo q) m ct m'"
  by (rule performs_eqI [where f = "encode_contexts enc k symbol (Suc fuel) x lo q"]) (rule encode_full)

lemma performs_empty:
  assumes "space_left k m" "n_total (nodes m x) = 0" "performs enc ops (bind_io (on_model (\<lambda>m. case extend_chain q m of (a, m) \<Rightarrow> Some (a, on_node x (\<lambda>b. b\<lparr>n_child := Some a\<rparr>) m)))
      (enc_next enc k symbol fuel x lo)) m ct m'"
  shows "performs enc ops (encode_contexts enc k symbol (Suc fuel) x lo q) m ct m'"
  using assms(3) unfolding performs_def encode_empty [OF assms(1,2)] .

lemma performs_counted:
  assumes "space_left k m" "n_total (nodes m x) \<noteq> 0" "performs enc ops (bind_io (on_model (\<lambda>m. do { m \<leftarrow> scale_if_large k x m; (n, r, m) \<leftarrow> search_symbol k symbol x m; Some ((n, r), m) }))
      (\<lambda>(n, r).
         case found_symbol r of
           Some n \<Rightarrow>
             bind_io (on_model (\<lambda>m. Some ((), set_parent q n m))) (\<lambda>_.
             bind_io (on_stream (enc (ucast (low_count r)) (ucast (high_count r)) (ucast (total_count r)))) (\<lambda>_.
               on_model (\<lambda>m. Some (count_symbol k (found_last r) n x lo m))))
         | None \<Rightarrow>
             bind_io (on_model (\<lambda>m. do {
               (n, m) \<leftarrow> exclude_rest (total_nodes k) n m;
               let (a, m) = extend_chain q m;
               Some (a, on_node n (\<lambda>b. b\<lparr>n_next := Some a\<rparr>) m) })) (\<lambda>a.
             bind_io (on_stream (enc (ucast (high_count r)) (ucast (total_count r)) (ucast (total_count r)))) (\<lambda>_.
               enc_next enc k symbol fuel x lo a)))) m ct m'"
  shows "performs enc ops (encode_contexts enc k symbol (Suc fuel) x lo q) m ct m'"
  using assms(3) unfolding performs_def encode_counted [OF assms(1,2)] .

lemma follows_full:
  "\<not> space_left k m \<Longrightarrow> follows coded ops (decode_contexts get dec k fuel 0 0 None) ((ppm_clear k m)\<lparr>cur := None\<rparr>) ct m' \<Longrightarrow>
     follows coded ops (decode_contexts get dec k (Suc fuel) x lo q) m ct m'"
  by (rule follows_eqI [where f = "decode_contexts get dec k (Suc fuel) x lo q"]) (rule decode_full)

lemma follows_empty:
  assumes "space_left k m" "n_total (nodes m x) = 0" "follows coded ops (bind_io (on_model (\<lambda>m. case extend_chain q m of (a, m) \<Rightarrow> Some (a, on_node x (\<lambda>b. b\<lparr>n_child := Some a\<rparr>) m)))
      (dec_next get dec k fuel x lo)) m ct m'"
  shows "follows coded ops (decode_contexts get dec k (Suc fuel) x lo q) m ct m'"
  using assms(3) unfolding follows_def decode_empty [OF assms(1,2)] .

lemma follows_counted:
  assumes "space_left k m" "n_total (nodes m x) \<noteq> 0" "follows coded ops (bind_io (on_model (\<lambda>m. do { m \<leftarrow> scale_if_large k x m; tot \<leftarrow> count_included k x m; Some (tot, m) }))
      (\<lambda>tot. bind_io (on_stream (get (ucast tot))) (dec_target_found get dec k fuel x lo q tot))) m ct m'"
  shows "follows coded ops (decode_contexts get dec k (Suc fuel) x lo q) m ct m'"
  using assms(3) unfolding follows_def decode_counted [OF assms(1,2)] .

section \<open>The loop invariant\<close>

definition same_model :: "ppm \<Rightarrow> ppm \<Rightarrow> bool" where
  "same_model m m' \<longleftrightarrow> m' = m\<lparr>exc := exc m', exc_used := exc_used m'\<rparr>"

definition final :: "ppm_size \<Rightarrow> 16 word \<Rightarrow> 16 word \<times> 16 word \<Rightarrow> ppm \<Rightarrow> bool" where
  "final k symbol ct m \<longleftrightarrow> (\<exists>K d. tree_ok k K d symbol None m) \<and> cur m \<noteq> None \<and>
     unat (fst ct) < unat (snd ct) \<and> unat (snd ct) \<le> 10008 \<and> excl_ok k m"

definition lockstep where
  "lockstep enc get dec coded k symbol fuel x lo q m \<longleftrightarrow> (\<exists>ops ct m1 m2. list_all valid_call ops \<and>
     performs enc ops (encode_contexts enc k symbol fuel x lo q) m ct m1 \<and>
     follows coded ops (decode_contexts get dec k fuel x lo q) m (fst ct, snd ct, ucast symbol) m2 \<and>
     final k symbol ct m1 \<and> final k symbol ct m2 \<and> same_model m1 m2)"

text \<open>The context \<open>x\<close> has the depth \<open>lo\<close>; the contexts of the waiting nodes are deeper.\<close>

definition at_context ::
  "ppm_size \<Rightarrow> (nat \<Rightarrow> nat list) \<Rightarrow> (nat \<Rightarrow> nat) \<Rightarrow> 16 word \<Rightarrow> nat \<Rightarrow> nat \<Rightarrow> nat option \<Rightarrow> ppm \<Rightarrow> bool" where
  "at_context k K d symbol x lo q m \<longleftrightarrow> tree_ok k K d symbol q m \<and> excl_ok k m \<and> \<not> excluded m symbol \<and>
     x < next_node m \<and> d x = lo \<and> lo + length (stack m) \<le> order k \<and> (\<forall>nc \<in> snd ` set (stack m). lo < d nc) \<and>
     child_of d q (Suc lo)"

lemma at_contextD:
  assumes "at_context k K d symbol x lo q m"
  shows "tree_ok k K d symbol q m" "excl_ok k m" "\<not> excluded m symbol" "x < next_node m" "d x = lo"
    "lo + length (stack m) \<le> order k" "lo \<le> order k" "\<And>nc. nc \<in> snd ` set (stack m) \<Longrightarrow> lo < d nc" "child_of d q (Suc lo)"
    "x \<notin> snd ` set (stack m)"
  using assms by (auto simp: at_context_def)

lemma waiting_disjoint:
  assumes "tree_ok k K d symbol q m" "x < next_node m" "x \<notin> snd ` set (stack m)"
  shows "waiting m \<inter> set (K x) = {}"
proof -
  have "n \<notin> set (K x)" if "(n, nc) \<in> set (stack m)" for n nc
  proof
    assume n: "n \<in> set (K x)"
    have "nc < next_node m" "n \<in> set (K nc)" using tree_okD(4) [OF assms(1)] that by (auto simp: stacked_def)
    with n shapedD(4) [OF tree_okD(1) [OF assms(1)] assms(2), of nc] have "nc = x" by blast
    with that assms(3) show False by force
  qed
  then show ?thesis by fastforce
qed

lemma kids_countable:
  assumes "tree_ok k K d symbol q m" "excl_ok k m" "x < next_node m" "x \<notin> snd ` set (stack m)" "K x \<noteq> []"
  shows "countable_kids k m x (K x)" "tally k 10008 m (set (K x)) x"
proof -
  note i = tree_okD [OF assms(1)]
  note s = shapedD [OF i(1) assms(3)]
  have "set (K x) - waiting m = set (K x)" using waiting_disjoint [OF assms(1,3,4)] by blast
  then show t: "tally k 10008 m (set (K x)) x" using i(2) assms(3) by (metis tallied_def)
  have ne: "set (K x) \<noteq> {}" using assms(5) by simp
  note t = tallyD [OF t ne]
  have "searchable k m (K x)"
    using assms(2) t(3,4) s(2) by (simp add: searchable_def excl_ok_def list_all_iff distinct_map)
  with t(5) s assms(2,5) show "countable_kids k m x (K x)" by (simp add: countable_kids_def mass_set)
qed

lemma no_kids:
  assumes "tree_ok k K d symbol q m" "x < next_node m" "x \<notin> snd ` set (stack m)"
  shows "n_total (nodes m x) = 0 \<longleftrightarrow> K x = []"
proof -
  have "set (K x) - waiting m = set (K x)" using waiting_disjoint [OF assms] by blast
  with tree_okD(2) [OF assms(1)] assms(2) have "tally k 10008 m (set (K x)) x" by (metis tallied_def)
  from tally_nonzero [OF this] show ?thesis by simp
qed

lemma context_total:
  assumes "at_context k K d symbol x lo q m"
  shows "n_total (nodes m x) = 0 \<longleftrightarrow> K x = []"
  by (rule no_kids) (use at_contextD [OF assms] in blast)+

text \<open>The exclusions do not matter to the tree.\<close>

lemma tree_ok_cong:
  assumes "nodes m' = nodes m" "next_node m' = next_node m" "stack m' = stack m" "cur m' = cur m" "cur_order m' = cur_order m"
  shows "tree_ok k K d s q m' \<longleftrightarrow> tree_ok k K d s q m"
proof -
  have "tally k 10008 m' S x \<longleftrightarrow> tally k 10008 m S x" for S x by (rule tally_nodes [OF assms(1)])
  with assms show ?thesis
    by (simp add: tree_ok_def shaped_def tallied_def linked_def stacked_def cur_ok_def)
qed

lemma count_symbol_exc:
  "count_symbol k p y x lo (set_parent q y (m\<lparr>exc := e, exc_used := b\<rparr>)) =
     (case count_symbol k p y x lo (set_parent q y m) of (ct, m') \<Rightarrow> (ct, m'\<lparr>exc := e, exc_used := b\<rparr>))"
  by (cases q; cases p)
    (auto simp: count_symbol_eq set_parent_def move_to_front_def next_cur_def bump_def on_node_def Let_def)

lemma mass_included_le: "mass f (filter P zs) \<le> mass f zs"
  by (induction zs) auto

lemma word_32: "n < 65536 \<Longrightarrow> (ucast (of_nat n :: 16 word) :: 32 word) = of_nat n" "(ucast (of_nat n :: 64 word) :: 32 word) = of_nat n"
  "n < 65536 \<Longrightarrow> unat (of_nat n :: 32 word) = n"
proof -
  show u: "n < 65536 \<Longrightarrow> unat (of_nat n :: 32 word) = n" by (simp only: unat_of_nat) simp
  assume n: "n < 65536"
  have "unat (ucast (of_nat n :: 16 word) :: 32 word) = n"
    using small_word [OF n] n by (simp add: unsigned_ucast_eq take_bit_eq_mod)
  with u [OF n] show "(ucast (of_nat n :: 16 word) :: 32 word) = of_nat n" by (simp only: word_unat_eq_iff)
next
  show "(ucast (of_nat n :: 64 word) :: 32 word) = of_nat n"
    by (rule bit_word_eqI) (auto simp: bit_simps)
qed

lemma word_64: "unat (ucast (x :: 32 word) :: 64 word) = unat x"
  using unsigned_less [of x, where 'a = nat] by (simp add: unsigned_ucast_eq take_bit_eq_mod)

lemma scaled_context:
  assumes "at_context k K d symbol x lo q m" "sized k" "K x \<noteq> []"
  obtains m' where "scale_if_large k x m = Some m'" "same_links m m'" "tree_ok k K d symbol q m'"
    "exc m' = exc m" "exc_used m' = exc_used m" "tally k 10000 m' (set (K x)) x" "countable_kids k m' x (K x)"
    "at_context k K d symbol x lo q m'"
proof -
  note a = at_contextD [OF assms(1)]
  from scale_if_large_inv [OF a(1) assms(2) a(4) waiting_disjoint [OF a(1,4,10)] assms(3)] obtain m' where
    m': "scale_if_large k x m = Some m'" "same_links m m'" "tree_ok k K d symbol q m'"
      "exc m' = exc m" "exc_used m' = exc_used m" "tally k 10000 m' (set (K x)) x" by blast
  have f: "next_node m' = next_node m" "stack m' = stack m" using m'(2) by (simp_all add: same_links_def)
  have e: "excl_ok k m'" using a(2) m'(4,5) by (simp add: excl_ok_def)
  have "countable_kids k m' x (K x)"
    by (rule kids_countable(1) [OF m'(3) e]) (use a(4,10) assms(3) f in simp_all)
  moreover have "at_context k K d symbol x lo q m'"
    using assms(1) m'(3,4) e f by (simp add: at_context_def excluded_def)
  ultimately show ?thesis using that m' by blast
qed

lemma final_exc:
  assumes "tree_ok k K d symbol None m" "cur m \<noteq> None" "unat (fst ct) < unat (snd ct)" "unat (snd ct) \<le> 10008"
    "length e = alphabet_size k div 32 + 1"
  shows "final k symbol ct (m\<lparr>exc := e, exc_used := True\<rparr>)"
proof -
  have "tree_ok k K d symbol None (m\<lparr>exc := e, exc_used := True\<rparr>)"
    using tree_ok_cong [of "m\<lparr>exc := e, exc_used := True\<rparr>" m] assms(1) by simp
  with assms(2-5) show ?thesis by (auto simp: final_def excl_ok_def)
qed

context entropy_coding
begin

lemma found_lockstep:
  assumes "at_context k K d symbol x lo q m" "sized k" "space_left k m" "y \<in> set (K x)" "n_symbol (nodes m y) = symbol"
  shows "lockstep enc get_target decode coded k symbol (Suc fuel) x lo q m"
proof -
  from assms(4) obtain us vs where K: "K x = us @ y # vs" by (meson split_list)
  then have ne: "K x \<noteq> []" by simp
  obtain m1 where m1: "scale_if_large k x m = Some m1" "same_links m m1" "tree_ok k K d symbol q m1"
    "exc m1 = exc m" "exc_used m1 = exc_used m" "tally k 10000 m1 (set (K x)) x" "countable_kids k m1 x (K x)"
    "at_context k K d symbol x lo q m1"
    using scaled_context [OF assms(1,2) ne] by blast
  note a = at_contextD [OF m1(8)]
  note ck = countable_kidsD [OF m1(7)]
  have sy: "n_symbol (nodes m1 y) = symbol" using m1(2) assms(5) by (simp add: same_links_def)
  have nz: "n_total (nodes m x) \<noteq> 0"
    using context_total [OF assms(1)] ne by simp
  define lc where "lc = mass (nodes m1) (included m1 us)"
  define cy where "cy = unat (n_count (nodes m1 y))"
  define tot where "tot = unat (n_escapes (nodes m1 x)) + mass (nodes m1) (included m1 (K x))"
  define call where "call = ((of_nat lc, of_nat (lc + cy), of_nat tot) :: call)"
  define r where "r = count_symbol k (prev_node None us) y x lo (set_parent q y m1)"
  have sK: "set (K x) \<noteq> {}" using ne by simp
  note t = tallyD [OF m1(6) sK]
  have bounds: "0 < cy" "lc + cy \<le> tot" "tot < 65536"
  proof -
    show "0 < cy" using t(2) assms(4) by (simp add: cy_def word_less_nat_alt)
    show "lc + cy \<le> tot" using a(3) sy by (simp add: lc_def cy_def tot_def K)
    show "tot < 65536" using ck(6) t(6) mass_included_le [of "nodes m1" "\<lambda>y. \<not> excluded m1 (n_symbol (nodes m1 y))" "K x"]
      by (simp add: tot_def)
  qed
  have valid: "valid_call call"
    using bounds word_32(3) [of lc] word_32(3) [of "lc + cy"] word_32(3) [of tot]
    by (simp add: valid_call_def call_def word_less_nat_alt word_le_nat_alt del: of_nat_add)
  note r = count_symbol_inv [OF m1(3) a(4) K waiting_disjoint [OF a(1,4,10)] m1(6) _ a(5,7), folded r_def]
  have ch: "child_of d q (Suc (d x))" using a(5,9) by simp
  note r = r [OF ch]
  have len: "length (exc m1) = alphabet_size k div 32 + 1" using a(2) by (simp add: excl_ok_def)
  from search_found [OF m1(7) [unfolded K] sy a(3)] obtain n s e1 where s: "search_symbol k symbol x m1 = Some (n, s, m1\<lparr>exc := e1, exc_used := True\<rparr>)"
    "length e1 = length (exc m1)" "found_symbol s = Some y" "found_last s = prev_node None us" "low_count s = of_nat lc"
    "high_count s = of_nat (lc + cy)" "total_count s = of_nat tot"
    unfolding lc_def cy_def tot_def K by blast
  have "performs enc [call] (encode_contexts enc k symbol (Suc fuel) x lo q) m (fst r) ((snd r)\<lparr>exc := e1, exc_used := True\<rparr>)"
  proof (rule performs_counted [OF assms(3) nz], rule performs_pure)
    show "(do { m \<leftarrow> scale_if_large k x m; (n, r, m) \<leftarrow> search_symbol k symbol x m; Some ((n, r), m) }) =
        Some ((n, s), m1\<lparr>exc := e1, exc_used := True\<rparr>)"
      using m1(1) s(1) by simp
    have c: "ucast (low_count s) = (of_nat lc :: 32 word)" "ucast (high_count s) = (of_nat (lc + cy) :: 32 word)"
      "ucast (total_count s) = (of_nat tot :: 32 word)"
      unfolding s(5-7) using bounds by (simp_all add: word_32(1) del: of_nat_add)
    have u: "Some (count_symbol k (prev_node None us) y x lo (set_parent q y (m1\<lparr>exc := e1, exc_used := True\<rparr>))) =
        Some (fst r, (snd r)\<lparr>exc := e1, exc_used := True\<rparr>)"
      unfolding count_symbol_exc r_def by (simp add: prod.case_eq_if)
    show "performs enc [call] (case (n, s) of (n, r) \<Rightarrow> case found_symbol r of
           Some n \<Rightarrow>
             bind_io (on_model (\<lambda>m. Some ((), set_parent q n m))) (\<lambda>_.
             bind_io (on_stream (enc (ucast (low_count r)) (ucast (high_count r)) (ucast (total_count r)))) (\<lambda>_.
               on_model (\<lambda>m. Some (count_symbol k (found_last r) n x lo m))))
         | None \<Rightarrow>
             bind_io (on_model (\<lambda>m. do {
               (n, m) \<leftarrow> exclude_rest (total_nodes k) n m;
               let (a, m) = extend_chain q m;
               Some (a, on_node n (\<lambda>b. b\<lparr>n_next := Some a\<rparr>) m) })) (\<lambda>a.
             bind_io (on_stream (enc (ucast (high_count r)) (ucast (total_count r)) (ucast (total_count r)))) (\<lambda>_.
               enc_next enc k symbol fuel x lo a))) (m1\<lparr>exc := e1, exc_used := True\<rparr>) (fst r) ((snd r)\<lparr>exc := e1, exc_used := True\<rparr>)"
      unfolding prod.case s(3,4) option.case c call_def
      by (rule performs_pure [OF refl], rule performs_op, rule performs_on_model, rule u)
  qed
  moreover
  define e2 where "e2 = exc (excl_all (symbols_of m1 (us @ [y])) m1)"
  have e2: "excl_all (symbols_of m1 (us @ [y])) m1 = m1\<lparr>exc := e2, exc_used := True\<rparr>" "length e2 = length (exc m1)"
    unfolding e2_def by ((intro ppm.equality)?, simp_all)
  have "follows coded [call] (decode_contexts get_target decode k (Suc fuel) x lo q) m (fst (fst r), snd (fst r), ucast symbol)
      ((snd r)\<lparr>exc := e2, exc_used := True\<rparr>)"
  proof (rule follows_counted [OF assms(3) nz], rule follows_pure)
    show "(do { m \<leftarrow> scale_if_large k x m; tot \<leftarrow> count_included k x m; Some (tot, m) }) = Some (of_nat tot, m1)"
      using m1(1) count_included_eq [OF m1(7)] by (simp add: tot_def)
    let ?g' = "\<lambda>_. bind_io (on_model (\<lambda>m. Some (count_symbol k (prev_node None us) y x lo m))) (\<lambda>(c, t). Returned (c, t, ucast symbol))"
    let ?m2 = "set_parent q y (m1\<lparr>exc := e2, exc_used := True\<rparr>)"
    have "follows coded ((of_nat lc, of_nat (lc + cy), of_nat tot) # [])
        (bind_io (on_stream (get_target (of_nat tot))) (dec_target_found get_target decode k fuel x lo q (of_nat tot))) m1
        (fst (fst r), snd (fst r), ucast symbol) ((snd r)\<lparr>exc := e2, exc_used := True\<rparr>)"
    proof (rule follows_op [where g' = ?g' and m' = ?m2])
      fix z :: "32 word" and dd
      assume z: "of_nat lc \<le> z" "z < of_nat (lc + cy)"
      have zn: "lc \<le> unat (ucast z :: 64 word)" "unat (ucast z :: 64 word) < lc + cy"
        using z bounds word_32(3) [of lc] word_32(3) [of "lc + cy"] unfolding word_64 by (simp_all add: word_less_nat_alt word_le_nat_alt)
      have "find_target (total_nodes k) (ucast z) (hd (K x)) None (of_nat 0) m1 =
          Some ((y, prev_node None us, of_nat (0 + mass (nodes m1) (included m1 us) + unat (n_count (nodes m1 y)))), excl_all (symbols_of m1 (us @ [y])) m1)"
      proof (rule find_target_found [where vs = vs])
        show "chain (nodes m1) (Some (hd (K x))) (us @ y # vs)" using ck(1,7) by (simp add: K)
        show "searchable k m1 (us @ y # vs)" "length us < total_nodes k" using ck(3,5) by (simp_all add: K)
      qed (use a(2,3) sy zn bounds in \<open>simp_all add: lc_def cy_def\<close>)
      then have ft: "(do { n \<leftarrow> n_child (nodes m1 x); find_target (total_nodes k) (ucast z) n None 0 m1 }) =
          Some ((y, prev_node None us, of_nat (lc + cy)), m1\<lparr>exc := e2, exc_used := True\<rparr>)"
        using ck(7) e2(1) by (simp add: lc_def cy_def)
      have gt: "of_nat (lc + cy) > (ucast z :: 64 word)"
        using zn bounds of_nat_64 [of "lc + cy"] by (simp add: word_less_nat_alt)
      have lw: "(of_nat (lc + cy) :: 64 word) - ucast (n_count (nodes m1 y)) = of_nat lc" by (simp add: cy_def)
      show "dec_target_found get_target decode k fuel x lo q (of_nat tot) z (m1, dd) =
          bind_io (on_stream (decode (of_nat lc) (of_nat (lc + cy)))) ?g' (?m2, dd)"
        using gt unfolding dec_target_found_def
        by (simp add: on_model_def ft lw sy word_32(2) bind_io.simps del: of_nat_add split: io.split)
    next
      have u: "Some (count_symbol k (prev_node None us) y x lo ?m2) = Some (fst r, (snd r)\<lparr>exc := e2, exc_used := True\<rparr>)"
        unfolding count_symbol_exc r_def by (simp add: prod.case_eq_if)
      show "follows coded [] (?g' ()) ?m2 (fst (fst r), snd (fst r), ucast symbol) ((snd r)\<lparr>exc := e2, exc_used := True\<rparr>)"
        by (rule follows_pure, rule u) (simp add: prod.case_eq_if follows_Returned)
    qed
    then show "follows coded [call] (bind_io (on_stream (get_target (ucast (of_nat tot :: 64 word))))
        (dec_target_found get_target decode k fuel x lo q (of_nat tot))) m1 (fst (fst r), snd (fst r), ucast symbol)
        ((snd r)\<lparr>exc := e2, exc_used := True\<rparr>)"
      unfolding call_def word_32(2) .
  qed
  moreover have "final k symbol (fst r) ((snd r)\<lparr>exc := e1, exc_used := True\<rparr>)" "final k symbol (fst r) ((snd r)\<lparr>exc := e2, exc_used := True\<rparr>)"
    using r s(2) e2(2) len by (auto intro!: final_exc)
  moreover have "same_model ((snd r)\<lparr>exc := e1, exc_used := True\<rparr>) ((snd r)\<lparr>exc := e2, exc_used := True\<rparr>)"
    by (simp add: same_model_def)
  moreover have "list_all valid_call [call]" using valid by simp
  ultimately show ?thesis unfolding lockstep_def by blast
qed

end

text \<open>The contexts above.\<close>

lemma tree_ok_set_parent:
  assumes "tree_ok k K d symbol q m" "p < next_node m" "child_of d q (d p)"
  shows "tree_ok k K d symbol None (set_parent q p m)"
proof -
  note i = tree_okD [OF assms(1)]
  let ?m = "set_parent q p m"
  have "chain (nodes ?m) r zs \<longleftrightarrow> chain (nodes m) r zs" for r zs by (rule chain_cong) simp
  moreover have "tally k 10008 ?m S x \<longleftrightarrow> tally k 10008 m S x" for S x by (rule tally_cong) simp_all
  ultimately show ?thesis using i linked_set_parent [OF i(3) assms(2,3)]
    by (simp add: tree_ok_def shaped_def tallied_def stacked_def cur_ok_def)
qed

lemma root_final:
  assumes "tree_ok k K d symbol q m" "child_of d q 0" "excl_ok k m"
  shows "final k symbol (8, 2056) (at_root (set_parent q 0 m))"
proof -
  let ?m = "set_parent q 0 m"
  have d0: "d 0 = 0" "0 < next_node m" using tree_okD(1) [OF assms(1)] by (auto simp: shaped_def)
  have t: "tree_ok k K d symbol None ?m" by (rule tree_ok_set_parent [OF assms(1) d0(2)]) (use assms(2) d0 in simp)
  have "shaped k K d (at_root ?m) \<longleftrightarrow> shaped k K d ?m" "linked d None (at_root ?m) \<longleftrightarrow> linked d None ?m"
    "stacked K symbol (at_root ?m) \<longleftrightarrow> stacked K symbol ?m"
    by (simp_all add: shaped_def linked_def stacked_def at_root_def)
  moreover have "tallied k K (at_root ?m) \<longleftrightarrow> tallied k K ?m"
    using tally_nodes [of "at_root ?m" ?m] by (simp add: tallied_def at_root_def)
  moreover have "cur_ok k d (at_root ?m)" using tree_okD(5) [OF t] d0 by (auto simp: cur_ok_def at_root_def)
  ultimately have "tree_ok k K d symbol None (at_root ?m)" using t by (simp add: tree_ok_def)
  moreover have "cur (at_root ?m) \<noteq> None" by (simp add: at_root_def)
  moreover have "excl_ok k (at_root ?m)" using assms(3) by (simp add: excl_ok_def at_root_def)
  ultimately show ?thesis by (auto simp: final_def)
qed

lemma grown_context:
  assumes "at_context k K d symbol x lo q m" "space_left k m" "symbol \<notin> set (symbols_of m (K x))" "x \<noteq> 0"
  defines "mg \<equiv> grown k q (K x) x lo m"
  shows "\<exists>p K' d'. n_parent (nodes mg x) = Some p \<and> 0 < lo \<and> at_context k K' d' symbol p (lo - 1) (Some (next_node m)) mg"
proof -
  note a = at_contextD [OF assms(1)]
  have ch: "child_of d q (Suc (d x))" using a(5,9) by simp
  from a(9) a(5) have q: "q \<noteq> Some x" by (auto simp: child_of_def)
  from tree_okD(3) [OF a(1)] assms(4) a(4) q obtain p where
    p: "p < next_node m" "n_parent (nodes m x) = Some p" "d x = Suc (d p)" unfolding linked_def by blast
  let ?K = "K(x := K x @ [next_node m], next_node m := [])" and ?d = "d(next_node m := Suc lo)"
  have t: "tree_ok k ?K ?d symbol (Some (next_node m)) mg" unfolding mg_def
    by (rule grown_inv [OF a(1) assms(2) a(4,10) assms(3) ch a(5,7)])
  have st: "nc < next_node m" if "(n, nc) \<in> set (stack m)" for n nc
    using tree_okD(4) [OF a(1)] that by (auto simp: stacked_def)
  have "lo - 1 < ?d nc" if "nc \<in> snd ` set (stack mg)" for nc
  proof -
    from that consider "nc = x" | "nc \<in> snd ` set (stack m)" by (auto simp: mg_def)
    then show ?thesis
    proof cases
      case 1
      with p(3) a(4,5) show ?thesis by auto
    next
      case 2
      with a(8) [OF 2] st show ?thesis by fastforce
    qed
  qed
  moreover have par: "n_parent (nodes mg x) = Some p" using q p(2) by (simp add: mg_def)
  moreover have lo: "0 < lo" "d p = lo - 1" using p(3) a(5) by simp_all
  ultimately have "at_context k ?K ?d symbol p (lo - 1) (Some (next_node m)) mg"
    using t a(2,3,6) p(1) unfolding at_context_def
    by (simp add: excl_ok_def excluded_def mg_def child_of_def)
  with par lo(1) show ?thesis by blast
qed

context entropy_coding
begin

lemma next_lockstep:
  fixes enc :: "32 word \<Rightarrow> 32 word \<Rightarrow> 32 word \<Rightarrow> 'c \<Rightarrow> (unit, 'c) io"
  assumes "at_context k K d symbol x lo q m" "space_left k m" "symbol \<notin> set (symbols_of m (K x))" "sized k"
    "unat symbol < alphabet_size k"
    "\<forall>p K' d' q' m'. 0 < lo \<and> at_context k K' d' symbol p (lo - 1) q' m' \<longrightarrow>
       lockstep enc get_target decode coded k symbol fuel p (lo - 1) q' m'"
  defines "ml \<equiv> link_node (K x) x (next_node m) (set_parent q (next_node m) (m\<lparr>next_node := next_node m + 1\<rparr>))"
  shows "\<exists>ops ct m1 m2. list_all valid_call ops \<and>
    performs enc ops (enc_next enc k symbol fuel x lo (next_node m)) ml ct m1 \<and>
    follows coded ops (dec_next get_target decode k fuel x lo (next_node m)) ml (fst ct, snd ct, ucast symbol) m2 \<and>
    final k symbol ct m1 \<and> final k symbol ct m2 \<and> same_model m1 m2"
proof -
  note a = at_contextD [OF assms(1)]
  let ?a = "next_node m"
  define mg where "mg = grown k q (K x) x lo m"
  have len: "length (stack m) < order k + 1" using a(6) by simp
  have fill: "no_result (fill_node k ?a x lo) ml = Some ((), mg)"
    unfolding ml_def no_result_def fill_grown [OF len] mg_def by simp
  show ?thesis
  proof (cases "x = 0")
    case False
    from grown_context [OF assms(1-3) False, folded mg_def] obtain p K' d' where
      p: "n_parent (nodes mg x) = Some p" "0 < lo" "at_context k K' d' symbol p (lo - 1) (Some ?a) mg" by blast
    from assms(6) p(2,3) have "lockstep enc get_target decode coded k symbol fuel p (lo - 1) (Some ?a) mg" by blast
    then obtain ops ct m1 m2 where ops: "list_all valid_call ops"
      "performs enc ops (encode_contexts enc k symbol fuel p (lo - 1) (Some ?a)) mg ct m1"
      "follows coded ops (decode_contexts get_target decode k fuel p (lo - 1) (Some ?a)) mg (fst ct, snd ct, ucast symbol) m2"
      "final k symbol ct m1" "final k symbol ct m2" "same_model m1 m2" unfolding lockstep_def by blast
    have "performs enc ops (enc_next enc k symbol fuel x lo ?a) ml ct m1"
      unfolding enc_next_def by (rule performs_pure, rule fill, rule performs_eqI [OF _ ops(2)]) (use False p(1) in simp)
    moreover have "follows coded ops (dec_next get_target decode k fuel x lo ?a) ml (fst ct, snd ct, ucast symbol) m2"
      unfolding dec_next_def by (rule follows_pure, rule fill, rule follows_eqI [OF _ ops(3)]) (use False p(1) in simp)
    ultimately show ?thesis using ops by blast
  next
    case True
    define call where "call = ((ucast symbol, ucast symbol + 1, of_nat (alphabet_size k)) :: call)"
    define mr where "mr = at_root (set_parent (Some ?a) 0 mg)"
    have A: "alphabet_size k \<le> 4096" using assms(4) by (simp add: sized_def)
    have us: "unat (ucast symbol :: 32 word) = unat symbol"
      using unsigned_less [of symbol, where 'a = nat] by (simp add: unsigned_ucast_eq take_bit_eq_mod)
    have us1: "unat (ucast symbol + 1 :: 32 word) = unat symbol + 1"
      using assms(5) A us by (subst unat_plus_if_size) (auto simp: word_size)
    have valid: "valid_call call"
      using us us1 assms(5) A word_32(3) [of "alphabet_size k"]
      by (simp add: valid_call_def call_def word_less_nat_alt word_le_nat_alt)
    have lo: "lo = 0" using a(5) True tree_okD(1) [OF a(1)] by (simp add: shaped_def)
    have ch: "child_of d q (Suc (d x))" using a(5,9) by simp
    have t: "tree_ok k (K(x := K x @ [?a], ?a := [])) (d(?a := Suc lo)) symbol (Some ?a) mg" unfolding mg_def
      by (rule grown_inv [OF a(1) assms(2) a(4,10) assms(3) ch a(5,7)])
    have fin: "final k symbol (8, 2056) mr" unfolding mr_def
      by (rule root_final [OF t]) (use lo a(2) in \<open>simp_all add: child_of_def excl_ok_def mg_def\<close>)
    have "performs enc [call] (enc_next enc k symbol fuel x lo ?a) ml (8, 2056) mr"
      unfolding enc_next_def
    proof (rule performs_pure, rule fill)
      have "performs enc [call] (bind_io (on_model (\<lambda>m. Some ((), set_parent (Some ?a) 0 m))) (\<lambda>_.
          bind_io (on_stream (enc (ucast symbol) (ucast symbol + 1) (of_nat (alphabet_size k)))) (\<lambda>_.
          on_model (\<lambda>m. Some ((8, 2056), at_root m))))) mg (8, 2056) mr"
        unfolding call_def
        by (rule performs_pure [OF refl], rule performs_op, rule performs_on_model) (simp add: mr_def)
      then show "performs enc [call] (\<lambda>w. if x \<noteq> 0 then case n_parent (nodes (fst w) x) of None \<Rightarrow> Undef
          | Some p \<Rightarrow> encode_contexts enc k symbol fuel p (lo - 1) (Some ?a) w
        else bind_io (on_model (\<lambda>m. Some ((), set_parent (Some ?a) 0 m))) (\<lambda>_.
          bind_io (on_stream (enc (ucast symbol) (ucast symbol + 1) (of_nat (alphabet_size k)))) (\<lambda>_.
          on_model (\<lambda>m. Some ((8, 2056), at_root m)))) w) mg (8, 2056) mr"
        using True by simp
    qed
    moreover have "follows coded [call] (dec_next get_target decode k fuel x lo ?a) ml (8, 2056, ucast symbol) mr"
      unfolding dec_next_def
    proof (rule follows_pure, rule fill)
      have "follows coded [call] (bind_io (on_stream (get_target (of_nat (alphabet_size k)))) (\<lambda>target.
          bind_io (on_model (\<lambda>m. Some ((), set_parent (Some ?a) 0 m))) (\<lambda>_.
          bind_io (on_stream (decode target (target + 1))) (\<lambda>_.
          on_model (\<lambda>m. Some ((8, 2056, ucast target :: 64 word), at_root m)))))) mg (8, 2056, ucast symbol) mr"
        unfolding call_def
      proof (rule follows_op [where g' = "\<lambda>_. on_model (\<lambda>m. Some ((8, 2056, ucast symbol :: 64 word), at_root m))" and m' = "set_parent (Some ?a) 0 mg"])
        fix z :: "32 word" and dd
        assume "ucast symbol \<le> z" "z < ucast symbol + 1"
        then have "unat z = unat (ucast symbol :: 32 word)" using us us1 by (simp add: word_less_nat_alt word_le_nat_alt)
        then have z: "z = ucast symbol" by (simp add: word_unat_eq_iff)
        have "(ucast (ucast symbol :: 32 word) :: 64 word) = ucast symbol"
          by (rule bit_word_eqI) (auto simp: bit_simps dest: bit_imp_le_length)
        then show "bind_io (on_model (\<lambda>m. Some ((), set_parent (Some ?a) 0 m))) (\<lambda>_.
            bind_io (on_stream (decode z (z + 1))) (\<lambda>_.
            on_model (\<lambda>m. Some ((8, 2056, ucast z :: 64 word), at_root m)))) (mg, dd) =
          bind_io (on_stream (decode (ucast symbol) (ucast symbol + 1)))
            (\<lambda>_. on_model (\<lambda>m. Some ((8, 2056, ucast symbol :: 64 word), at_root m))) (set_parent (Some ?a) 0 mg, dd)"
          unfolding z by (simp add: on_model_def bind_io.simps)
      next
        show "follows coded [] (on_model (\<lambda>m. Some ((8, 2056, ucast symbol :: 64 word), at_root m))) (set_parent (Some ?a) 0 mg) (8, 2056, ucast symbol) mr"
          by (rule follows_on_model) (simp add: mr_def)
      qed
      then show "follows coded [call] (\<lambda>w. if x \<noteq> 0 then case n_parent (nodes (fst w) x) of None \<Rightarrow> Undef
          | Some p \<Rightarrow> decode_contexts get_target decode k fuel p (lo - 1) (Some ?a) w
        else bind_io (on_stream (get_target (of_nat (alphabet_size k)))) (\<lambda>target.
          bind_io (on_model (\<lambda>m. Some ((), set_parent (Some ?a) 0 m))) (\<lambda>_.
          bind_io (on_stream (decode target (target + 1))) (\<lambda>_.
          on_model (\<lambda>m. Some ((8, 2056, ucast target), at_root m))))) w) mg (8, 2056, ucast symbol) mr"
        using True by simp
    qed
    moreover have "same_model mr mr" by (simp add: same_model_def)
    moreover have "list_all valid_call [call]" using valid by simp
    ultimately show ?thesis using fin by (intro exI [of _ "[call]"] exI [of _ "(8, 2056)"] exI [of _ mr]) simp
  qed
qed

lemma new_lockstep:
  fixes enc :: "32 word \<Rightarrow> 32 word \<Rightarrow> 32 word \<Rightarrow> 'c \<Rightarrow> (unit, 'c) io"
  assumes "at_context k K d symbol x lo q m" "space_left k m" "K x = []" "sized k" "unat symbol < alphabet_size k"
    "\<forall>p K' d' q' m'. 0 < lo \<and> at_context k K' d' symbol p (lo - 1) q' m' \<longrightarrow>
       lockstep enc get_target decode coded k symbol fuel p (lo - 1) q' m'"
  shows "lockstep enc get_target decode coded k symbol (Suc fuel) x lo q m"
proof -
  have z: "n_total (nodes m x) = 0" using context_total [OF assms(1)] assms(3) by simp
  have miss: "symbol \<notin> set (symbols_of m (K x))" using assms(3) by simp
  let ?ml = "link_node (K x) x (next_node m) (set_parent q (next_node m) (m\<lparr>next_node := next_node m + 1\<rparr>))"
  have ext: "(case extend_chain q m of (a, m) \<Rightarrow> Some (a, on_node x (\<lambda>b. b\<lparr>n_child := Some a\<rparr>) m)) = Some (next_node m, ?ml)"
    unfolding extend_chain_eq by (simp add: link_node_def assms(3))
  from next_lockstep [where enc = enc, OF assms(1,2) miss assms(4-6)] obtain ops ct m1 m2 where ops: "list_all valid_call ops"
    "performs enc ops (enc_next enc k symbol fuel x lo (next_node m)) ?ml ct m1"
    "follows coded ops (dec_next get_target decode k fuel x lo (next_node m)) ?ml (fst ct, snd ct, ucast symbol) m2"
    "final k symbol ct m1" "final k symbol ct m2" "same_model m1 m2" by blast
  have "performs enc ops (encode_contexts enc k symbol (Suc fuel) x lo q) m ct m1"
    by (rule performs_empty [OF assms(2) z], rule performs_pure, rule ext, rule ops(2))
  moreover have "follows coded ops (decode_contexts get_target decode k (Suc fuel) x lo q) m (fst ct, snd ct, ucast symbol) m2"
    by (rule follows_empty [OF assms(2) z], rule follows_pure, rule ext, rule ops(3))
  ultimately show ?thesis unfolding lockstep_def using ops(1,4-6) by blast
qed

lemma missing_lockstep:
  fixes enc :: "32 word \<Rightarrow> 32 word \<Rightarrow> 32 word \<Rightarrow> 'c \<Rightarrow> (unit, 'c) io"
  assumes "at_context k K d symbol x lo q m" "space_left k m" "K x \<noteq> []" "symbol \<notin> set (symbols_of m (K x))" "sized k"
    "unat symbol < alphabet_size k"
    "\<forall>p K' d' q' m'. 0 < lo \<and> at_context k K' d' symbol p (lo - 1) q' m' \<longrightarrow>
       lockstep enc get_target decode coded k symbol fuel p (lo - 1) q' m'"
  shows "lockstep enc get_target decode coded k symbol (Suc fuel) x lo q m"
proof -
  have nz: "n_total (nodes m x) \<noteq> 0" using context_total [OF assms(1)] assms(3) by simp
  obtain ms where ms: "scale_if_large k x m = Some ms" "same_links m ms" "tree_ok k K d symbol q ms"
    "exc ms = exc m" "exc_used ms = exc_used m" "tally k 10000 ms (set (K x)) x" "countable_kids k ms x (K x)"
    "at_context k K d symbol x lo q ms"
    using scaled_context [OF assms(1,5,3)] by blast
  note a = at_contextD [OF ms(8)]
  note ck = countable_kidsD [OF ms(7)]
  have sK: "set (K x) \<noteq> {}" using assms(3) by simp
  note t = tallyD [OF ms(6) sK]
  have sy: "symbols_of ms (K x) = symbols_of m (K x)" using ms(2) by (simp add: same_links_def)
  have missing: "symbol \<notin> set (symbols_of ms (K x))" unfolding sy by (rule assms(4))
  then have minc: "symbol \<notin> set (symbols_of ms (included ms (K x)))" by auto
  define hc where "hc = mass (nodes ms) (included ms (K x))"
  define tot where "tot = unat (n_escapes (nodes ms x)) + hc"
  define call where "call = ((of_nat hc, of_nat tot, of_nat tot) :: call)"
  have bounds: "hc < tot" "tot < 65536"
  proof -
    show "hc < tot" using t(1) by (simp add: tot_def word_less_nat_alt)
    show "tot < 65536" using ck(6) t(6) mass_included_le [of "nodes ms" "\<lambda>y. \<not> excluded ms (n_symbol (nodes ms y))" "K x"]
      by (simp add: tot_def hc_def)
  qed
  have valid: "valid_call call"
    using bounds word_32(3) [of hc] word_32(3) [of tot]
    by (simp add: valid_call_def call_def word_less_nat_alt word_le_nat_alt)
  define me where "me = excl_all (symbols_of ms (K x)) ms"
  have mf: "next_node me = next_node ms" "nodes me = nodes ms" "stack me = stack ms" "cur me = cur ms" "cur_order me = cur_order ms"
    by (simp_all add: me_def)
  have len: "length (exc ms) = alphabet_size k div 32 + 1" using a(2) by (simp add: excl_ok_def)
  have all: "list_all (\<lambda>s. unat s < alphabet_size k) (symbols_of ms (K x))" using ck(3) by (simp add: searchable_def)
  have "\<not> excluded me symbol"
    unfolding me_def excluded_excl_all [OF len all assms(6)] using missing a(3) by blast
  moreover have "excl_ok k me" unfolding me_def by (rule excl_ok_excl_all [OF a(2)])
  ultimately have ate: "at_context k K d symbol x lo q me"
    using ms(8) tree_ok_cong [OF mf(2,1,3,4,5), of k K d symbol q] by (simp add: at_context_def mf(1,3))
  have spe: "space_left k me" using assms(2) ms(2) mf(1) by (simp add: space_left_def same_links_def)
  have misse: "symbol \<notin> set (symbols_of me (K x))" using missing by (simp add: mf(2))
  let ?a = "next_node me"
  let ?ml = "link_node (K x) x ?a (set_parent q ?a (me\<lparr>next_node := ?a + 1\<rparr>))"
  have ext: "extend_chain q me = (?a, set_parent q ?a (me\<lparr>next_node := ?a + 1\<rparr>))" by (rule extend_chain_eq)
  have link: "on_node (last (K x)) (\<lambda>b. b\<lparr>n_next := Some ?a\<rparr>) (set_parent q ?a (me\<lparr>next_node := ?a + 1\<rparr>)) = ?ml"
    using assms(3) by (simp add: link_node_def)
  from next_lockstep [where enc = enc, OF ate spe misse assms(5-7)] obtain ops ct m1 m2 where ops: "list_all valid_call ops"
    "performs enc ops (enc_next enc k symbol fuel x lo ?a) ?ml ct m1"
    "follows coded ops (dec_next get_target decode k fuel x lo ?a) ?ml (fst ct, snd ct, ucast symbol) m2"
    "final k symbol ct m1" "final k symbol ct m2" "same_model m1 m2" by blast
  from search_missing [OF ms(7) minc] obtain r where r: "search_symbol k symbol x ms = Some (last (K x), r, me)"
    "found_symbol r = None" "high_count r = of_nat hc" "total_count r = of_nat tot"
    unfolding hc_def tot_def me_def by blast
  have rest: "exclude_rest (total_nodes k) (last (K x)) me = Some (last (K x), me)"
  proof -
    obtain f where "total_nodes k = Suc f" using assms(5) by (cases "total_nodes k") (auto simp: sized_def)
    moreover have "n_next (nodes me (last (K x))) = None" unfolding mf(2) by (rule chain_last [OF ck(1,2)])
    ultimately show ?thesis by simp
  qed
  have "performs enc (call # ops) (encode_contexts enc k symbol (Suc fuel) x lo q) m ct m1"
  proof (rule performs_counted [OF assms(2) nz], rule performs_pure)
    show "(do { m \<leftarrow> scale_if_large k x m; (n, r, m) \<leftarrow> search_symbol k symbol x m; Some ((n, r), m) }) =
        Some ((last (K x), r), me)"
      using ms(1) r(1) by simp
    have c: "ucast (high_count r) = (of_nat hc :: 32 word)" "ucast (total_count r) = (of_nat tot :: 32 word)"
      unfolding r(3,4) using bounds by (simp_all add: word_32(1))
    have u: "(do { (n, m) \<leftarrow> exclude_rest (total_nodes k) (last (K x)) me; let (a, m) = extend_chain q m;
        Some (a, on_node n (\<lambda>b. b\<lparr>n_next := Some a\<rparr>) m) }) = Some (?a, ?ml)"
      unfolding link [symmetric] by (simp add: rest ext)
    show "performs enc (call # ops) (case (last (K x), r) of (n, r) \<Rightarrow> case found_symbol r of
           Some n \<Rightarrow>
             bind_io (on_model (\<lambda>m. Some ((), set_parent q n m))) (\<lambda>_.
             bind_io (on_stream (enc (ucast (low_count r)) (ucast (high_count r)) (ucast (total_count r)))) (\<lambda>_.
               on_model (\<lambda>m. Some (count_symbol k (found_last r) n x lo m))))
         | None \<Rightarrow>
             bind_io (on_model (\<lambda>m. do {
               (n, m) \<leftarrow> exclude_rest (total_nodes k) n m;
               let (a, m) = extend_chain q m;
               Some (a, on_node n (\<lambda>b. b\<lparr>n_next := Some a\<rparr>) m) })) (\<lambda>a.
             bind_io (on_stream (enc (ucast (high_count r)) (ucast (total_count r)) (ucast (total_count r)))) (\<lambda>_.
               enc_next enc k symbol fuel x lo a))) me ct m1"
      unfolding prod.case r(2) option.case c call_def
      by (rule performs_pure, rule u, rule performs_op, rule ops(2))
  qed
  moreover have "follows coded (call # ops) (decode_contexts get_target decode k (Suc fuel) x lo q) m (fst ct, snd ct, ucast symbol) m2"
  proof (rule follows_counted [OF assms(2) nz], rule follows_pure)
    show "(do { m \<leftarrow> scale_if_large k x m; tot \<leftarrow> count_included k x m; Some (tot, m) }) = Some (of_nat tot, ms)"
      using ms(1) count_included_eq [OF ms(7)] by (simp add: tot_def hc_def)
    let ?g' = "\<lambda>_. dec_next get_target decode k fuel x lo ?a"
    have "follows coded ((of_nat hc, of_nat tot, of_nat tot) # ops)
        (bind_io (on_stream (get_target (of_nat tot))) (dec_target_found get_target decode k fuel x lo q (of_nat tot))) ms
        (fst ct, snd ct, ucast symbol) m2"
    proof (rule follows_op [where g' = ?g' and m' = ?ml])
      fix z :: "32 word" and dd
      assume z: "of_nat hc \<le> z" "z < of_nat tot"
      have zn: "hc \<le> unat (ucast z :: 64 word)"
        using z bounds word_32(3) [of hc] unfolding word_64 by (simp add: word_le_nat_alt)
      have "\<exists>p. find_target (total_nodes k) (ucast z) (hd (K x)) None (of_nat 0) ms =
          Some ((last (K x), p, of_nat (0 + mass (nodes ms) (included ms (K x)))), excl_all (symbols_of ms (K x)) ms)"
      proof (rule find_target_missing)
        show "chain (nodes ms) (Some (hd (K x))) (K x)" using ck(1,7) by simp
      qed (use ck a(2) zn bounds in \<open>simp_all add: hc_def\<close>)
      then obtain p where ft: "(do { n \<leftarrow> n_child (nodes ms x); find_target (total_nodes k) (ucast z) n None 0 ms }) =
          Some ((last (K x), p, of_nat hc), me)"
        using ck(7) by (auto simp: hc_def me_def)
      have gt: "\<not> of_nat hc > (ucast z :: 64 word)"
        using zn bounds of_nat_64 [of hc] by (simp add: word_less_nat_alt)
      have u: "(case extend_chain q me of (a, m) \<Rightarrow> Some (a, on_node (last (K x)) (\<lambda>b. b\<lparr>n_next := Some a\<rparr>) m)) = Some (?a, ?ml)"
        unfolding ext prod.case link ..
      have "dec_target_found get_target decode k fuel x lo q (of_nat tot) z (ms, dd) =
          bind_io (on_model (\<lambda>m. case extend_chain q m of (a, m) \<Rightarrow>
                  Some (a, on_node (last (K x)) (\<lambda>b. b\<lparr>n_next := Some a\<rparr>) m))) (\<lambda>a.
              bind_io (on_stream (decode (ucast (of_nat hc :: 64 word)) (ucast (of_nat tot :: 64 word)))) (\<lambda>_.
                dec_next get_target decode k fuel x lo a)) (me, dd)"
        using gt unfolding dec_target_found_def by (simp add: on_model_def [of "\<lambda>m. do { n \<leftarrow> n_child (nodes m x); find_target (total_nodes k) (ucast z) n None 0 m }"] ft)
      also have "\<dots> = bind_io (on_stream (decode (of_nat hc) (of_nat tot))) ?g' (?ml, dd)"
        unfolding word_32(2) by (rule bind_io_simps(1)) (simp only: on_model_def fst_conv snd_conv u option.case prod.case)
      finally show "dec_target_found get_target decode k fuel x lo q (of_nat tot) z (ms, dd) =
          bind_io (on_stream (decode (of_nat hc) (of_nat tot))) ?g' (?ml, dd)" .
    qed (rule ops(3))
    then show "follows coded (call # ops) (bind_io (on_stream (get_target (ucast (of_nat tot :: 64 word))))
        (dec_target_found get_target decode k fuel x lo q (of_nat tot))) ms (fst ct, snd ct, ucast symbol) m2"
      unfolding call_def word_32(2) .
  qed
  moreover have "list_all valid_call (call # ops)" using valid ops(1) by simp
  ultimately show ?thesis unfolding lockstep_def using ops(4-6) by blast
qed

lemma cleared_lockstep:
  fixes enc :: "32 word \<Rightarrow> 32 word \<Rightarrow> 32 word \<Rightarrow> 'c \<Rightarrow> (unit, 'c) io"
  assumes "sized k" "unat symbol < alphabet_size k"
  shows "lockstep enc get_target decode coded k symbol (Suc fuel) 0 0 None ((ppm_clear k m)\<lparr>cur := None\<rparr>)"
proof (rule new_lockstep)
  note c = clear_inv [OF assms(1), where m = m]
  show "at_context k (\<lambda>_. []) (\<lambda>_. 0) symbol 0 0 None ((ppm_clear k m)\<lparr>cur := None\<rparr>)"
    using c(1) [of symbol] c(2-4) c(5) [OF assms(2)] by (simp add: at_context_def child_of_def)
  show "space_left k ((ppm_clear k m)\<lparr>cur := None\<rparr>)" using c(3) assms(1) by (simp add: space_left_def sized_def)
qed (use assms in auto)

lemma lockstep_full:
  fixes enc :: "32 word \<Rightarrow> 32 word \<Rightarrow> 32 word \<Rightarrow> 'c \<Rightarrow> (unit, 'c) io"
  assumes "\<not> space_left k m" "lockstep enc get_target decode coded k symbol fuel 0 0 None ((ppm_clear k m)\<lparr>cur := None\<rparr>)"
  shows "lockstep enc get_target decode coded k symbol (Suc fuel) x lo q m"
proof -
  from assms(2) obtain ops ct m1 m2 where ops: "list_all valid_call ops"
    "performs enc ops (encode_contexts enc k symbol fuel 0 0 None) ((ppm_clear k m)\<lparr>cur := None\<rparr>) ct m1"
    "follows coded ops (decode_contexts get_target decode k fuel 0 0 None) ((ppm_clear k m)\<lparr>cur := None\<rparr>) (fst ct, snd ct, ucast symbol) m2"
    "final k symbol ct m1" "final k symbol ct m2" "same_model m1 m2" unfolding lockstep_def by blast
  from performs_full [OF assms(1) ops(2)] follows_full [OF assms(1) ops(3)] ops(1,4-6) show ?thesis
    unfolding lockstep_def by blast
qed

lemma contexts_lockstep:
  fixes enc :: "32 word \<Rightarrow> 32 word \<Rightarrow> 32 word \<Rightarrow> 'c \<Rightarrow> (unit, 'c) io"
  assumes "at_context k K d symbol x lo q m" "sized k" "unat symbol < alphabet_size k" "lo + 2 < fuel"
  shows "lockstep enc get_target decode coded k symbol fuel x lo q m"
  using assms
proof (induction lo arbitrary: K d x q m fuel)
  case 0
  then obtain f where f: "fuel = Suc (Suc f)" by (metis Suc_lessE add_2_eq_Suc' add_0)
  have IH: "\<forall>p K' d' q' m'. (0 :: nat) < 0 \<and> at_context k K' d' symbol p (0 - 1) q' m' \<longrightarrow>
      lockstep enc get_target decode coded k symbol (Suc f) p (0 - 1) q' m'" by simp
  show ?case
  proof (cases "space_left k m")
    case True
    from new_lockstep [OF 0(1) True _ 0(2,3) IH] missing_lockstep [OF 0(1) True _ _ 0(2,3) IH] found_lockstep [OF 0(1,2) True]
    show ?thesis unfolding f by fastforce
  next
    case False
    show ?thesis unfolding f by (rule lockstep_full [OF False cleared_lockstep [OF 0(2,3)]])
  qed
next
  case (Suc lo)
  then obtain f where f: "fuel = Suc (Suc f)" "lo + 2 < Suc f"
    by (metis Suc_lessE add_2_eq_Suc' add_Suc_right add_Suc)
  have IH: "\<forall>p K' d' q' m'. 0 < Suc lo \<and> at_context k K' d' symbol p (Suc lo - 1) q' m' \<longrightarrow>
      lockstep enc get_target decode coded k symbol (Suc f) p (Suc lo - 1) q' m'"
    using Suc.IH Suc.prems(2,3) f(2) by simp
  show ?case
  proof (cases "space_left k m")
    case True
    from new_lockstep [OF Suc.prems(1) True _ Suc.prems(2,3) IH] missing_lockstep [OF Suc.prems(1) True _ _ Suc.prems(2,3) IH]
      found_lockstep [OF Suc.prems(1,2) True]
    show ?thesis unfolding f(1) by fastforce
  next
    case False
    show ?thesis unfolding f(1) by (rule lockstep_full [OF False cleared_lockstep [OF Suc.prems(2,3)]])
  qed
qed

end

section \<open>A symbol\<close>

abbreviation with_exc :: "64 word list \<Rightarrow> bool \<Rightarrow> ppm \<Rightarrow> ppm" where
  "with_exc e b m \<equiv> m\<lparr>exc := e, exc_used := b\<rparr>"

lemma on_node_exc: "on_node a f (with_exc e b m) = with_exc e b (on_node a f m)"
  by (simp add: on_node_def)

lemma scale_loop_exc: "scale_loop n p x (with_exc e b m) = map_option (with_exc e b) (scale_loop n p x m)"
proof (induction n arbitrary: p m)
  case 0
  show ?case by (cases p) simp_all
next
  case (Suc n)
  show ?case by (cases p) (simp_all add: on_node_exc Let_def Suc)
qed

lemma scale_counts_exc: "scale_counts k x (with_exc e b m) = map_option (with_exc e b) (scale_counts k x m)"
  by (simp add: scale_counts_def on_node_exc scale_loop_exc Let_def)

lemma scale_while_exc: "scale_while n k x (with_exc e b m) = map_option (with_exc e b) (scale_while n k x m)"
proof (induction n arbitrary: m)
  case (Suc n)
  show ?case by (simp add: scale_counts_exc Suc split: option.split)
qed simp

lemma finish_node_exc: "finish_node k s ct p (with_exc e b m) = map_option (with_exc e b) (finish_node k s ct p m)"
  by (cases ct; cases p) (simp add: finish_node_def on_node_exc scale_while_exc Let_def)

lemma finish_loop_exc: "finish_loop k s ct ps (with_exc e b m) = map_option (with_exc e b) (finish_loop k s ct ps m)"
proof (induction ps arbitrary: m)
  case (Cons p ps)
  have "(with_exc e b m)\<lparr>stack := ps\<rparr> = with_exc e b (m\<lparr>stack := ps\<rparr>)" by simp
  then have "finish_node k s ct p ((with_exc e b m)\<lparr>stack := ps\<rparr>) =
      map_option (with_exc e b) (finish_node k s ct p (m\<lparr>stack := ps\<rparr>))" by (simp only: finish_node_exc)
  with Cons.IH show ?case by (cases "finish_node k s ct p (m\<lparr>stack := ps\<rparr>)") (simp_all only: finish_loop.simps option.case option.map)
qed simp

lemma same_model_with_exc: "same_model m m' \<longleftrightarrow> m' = with_exc (exc m') (exc_used m') m"
  by (simp add: same_model_def)

text \<open>The end of a call.\<close>

lemma finish_settled:
  assumes "final k symbol ct m" "sized k" "unat symbol < alphabet_size k"
  shows "\<exists>m'. finish_loop k symbol ct (stack m) m = Some m' \<and> settled k m' \<and> exc m' = exc m \<and> exc_used m' = exc_used m"
proof -
  from assms(1) obtain K d where f: "tree_ok k K d symbol None m" "cur m \<noteq> None" "unat (fst ct) < unat (snd ct)"
    "unat (snd ct) \<le> 10008" "excl_ok k m" unfolding final_def by blast
  from finish_loop_inv [OF f(1) refl f(3,4) assms(2,3)] obtain m' where
    m': "finish_loop k symbol ct (stack m) m = Some m'" "tree_ok k K d symbol None m'" "stack m' = []"
      "cur m' = cur m" "exc m' = exc m" "exc_used m' = exc_used m" by auto
  have "tree_ok k K d 0 None m'"
    using m'(2,3) by (simp add: tree_ok_def stacked_def)
  with m' f(2,5) show ?thesis by (auto simp: settled_def excl_ok_def)
qed

lemma finish_same:
  assumes "same_model m m'" "finish_loop k symbol ct (stack m) m = Some n" "finish_loop k symbol ct (stack m') m' = Some n'"
    "exc n' = exc m'" "exc_used n' = exc_used m'"
  shows "same_model n n'"
proof -
  have m': "m' = with_exc (exc m') (exc_used m') m" using assms(1) by (simp add: same_model_with_exc)
  then have s: "stack m' = stack m" by (metis ppm.select_convs(7) ppm.simps ppm.surjective ppm.update_convs)
  have "finish_loop k symbol ct (stack m) (with_exc (exc m') (exc_used m') m) = Some n'"
    using assms(3) m' s by metis
  then have "n' = with_exc (exc m') (exc_used m') n" using assms(2) by (simp add: finish_loop_exc)
  with assms(4,5) show ?thesis by (simp add: same_model_with_exc)
qed

text \<open>The start of a call.\<close>

lemma start_eq:
  assumes "settled k m"
  shows "\<exists>c K d. start_symbol k m = (Some (c, cur_order m), clear_exclusions k (m\<lparr>cur := None\<rparr>)) \<and>
    (\<forall>symbol. unat symbol < alphabet_size k \<longrightarrow>
       at_context k K d symbol c (cur_order m) None (clear_exclusions k (m\<lparr>cur := None\<rparr>))) \<and> cur_order m \<le> order k"
proof -
  from assms obtain K d where s: "stack m = []" "cur m \<noteq> None" "excl_ok k m" "tree_ok k K d 0 None m"
    unfolding settled_def by blast
  then obtain c where c: "cur m = Some c" by blast
  let ?m = "clear_exclusions k (m\<lparr>cur := None\<rparr>)"
  have "\<not> exc_used m \<Longrightarrow> ?m = m\<lparr>cur := None\<rparr>"
    using s(3) by (simp add: excl_ok_def clear_exclusions_def)
  then have st: "start_symbol k m = (Some (c, cur_order m), ?m)"
    using c by (auto simp: start_symbol_def something_is_excluded_def Let_def)
  have cc: "c < next_node m" "d c = cur_order m" "cur_order m \<le> order k"
    using tree_okD(5) [OF s(4)] c by (simp_all add: cur_ok_def)
  have "tally k 10008 ?m S x \<longleftrightarrow> tally k 10008 m S x" for S x
    by (rule tally_nodes) (simp add: clear_exclusions_def)
  then have "tree_ok k K d symbol None ?m" for symbol
    using s(1,4) by (simp add: tree_ok_def shaped_def tallied_def linked_def stacked_def cur_ok_def clear_exclusions_def)
  moreover have "next_node ?m = next_node m" "stack ?m = []" using s(1) by (simp_all add: clear_exclusions_def)
  ultimately have "at_context k K d symbol c (cur_order m) None ?m" if "unat symbol < alphabet_size k" for symbol
    using cc that clear_exclusions_ok(1) [of k "m\<lparr>cur := None\<rparr>"] clear_exclusions_ok(2) [of k "m\<lparr>cur := None\<rparr>" symbol]
    by (auto simp: at_context_def child_of_def)
  with st cc(3) show ?thesis by blast
qed

lemma start_same:
  assumes "settled k m" "settled k m'" "same_model m m'"
  shows "start_symbol k m' = start_symbol k m"
proof -
  have "clear_exclusions k (m'\<lparr>cur := None\<rparr>) = clear_exclusions k (m\<lparr>cur := None\<rparr>)"
    using assms(3) unfolding same_model_def clear_exclusions_def by (cases m; cases m') simp
  moreover have "cur m' = cur m" "cur_order m' = cur_order m"
    using assms(3) unfolding same_model_def by (cases m; cases m'; simp)+
  ultimately show ?thesis
    using start_eq [OF assms(1)] start_eq [OF assms(2)]
    by (auto simp: start_symbol_def)
qed

context entropy_coding
begin

lemma symbol_lockstep:
  fixes enc :: "32 word \<Rightarrow> 32 word \<Rightarrow> 32 word \<Rightarrow> 'c \<Rightarrow> (unit, 'c) io"
  assumes "settled k m1" "settled k m2" "same_model m1 m2" "sized k" "unat item < alphabet_size k"
  shows "\<exists>ops m1' m2'. list_all valid_call ops \<and> performs enc ops (ppm_encode enc k item) m1 () m1' \<and>
    follows coded ops (ppm_decode get_target decode k) m2 item m2' \<and> settled k m1' \<and> settled k m2' \<and> same_model m1' m2'"
proof -
  define symbol :: "16 word" where "symbol = ucast item"
  have A: "alphabet_size k \<le> 4096" using assms(4) by (simp add: sized_def)
  have us: "unat symbol = unat item"
    using assms(5) A by (simp add: symbol_def unsigned_ucast_eq take_bit_eq_mod)
  have si: "ucast symbol = item"
  proof -
    have "unat (ucast symbol :: 64 word) = unat symbol"
      using unsigned_less [of symbol, where 'a = nat] by (simp add: unsigned_ucast_eq take_bit_eq_mod)
    with us show ?thesis by (simp add: word_unat_eq_iff)
  qed
  have sA: "unat symbol < alphabet_size k" using us assms(5) by simp
  from start_eq [OF assms(1)] obtain c K d where st: "start_symbol k m1 = (Some (c, cur_order m1), clear_exclusions k (m1\<lparr>cur := None\<rparr>))"
    "at_context k K d symbol c (cur_order m1) None (clear_exclusions k (m1\<lparr>cur := None\<rparr>))" "cur_order m1 \<le> order k"
    using sA by blast
  let ?m = "clear_exclusions k (m1\<lparr>cur := None\<rparr>)"
  have st2: "start_symbol k m2 = (Some (c, cur_order m1), ?m)" using start_same [OF assms(1-3)] st(1) by simp
  have fuel: "cur_order m1 + 2 < order k + 3" using st(3) by simp
  from contexts_lockstep [OF st(2) assms(4) sA fuel] obtain ops ct n1 n2 where ops: "list_all valid_call ops"
    "performs enc ops (encode_contexts enc k symbol (order k + 3) c (cur_order m1) None) ?m ct n1"
    "follows coded ops (decode_contexts get_target decode k (order k + 3) c (cur_order m1) None) ?m (fst ct, snd ct, ucast symbol) n2"
    "final k symbol ct n1" "final k symbol ct n2" "same_model n1 n2" unfolding lockstep_def by blast
  from finish_settled [OF ops(4) assms(4) sA] obtain p1 where
    p1: "finish_loop k symbol ct (stack n1) n1 = Some p1" "settled k p1" "exc p1 = exc n1" "exc_used p1 = exc_used n1" by blast
  from finish_settled [OF ops(5) assms(4) sA] obtain p2 where
    p2: "finish_loop k symbol ct (stack n2) n2 = Some p2" "settled k p2" "exc p2 = exc n2" "exc_used p2 = exc_used n2" by blast
  have "performs enc ops (ppm_encode enc k item) m1 () p1"
    unfolding ppm_encode_def symbol_def [symmetric]
  proof (rule performs_pure)
    show "Some (start_symbol k m1) = Some (Some (c, cur_order m1), ?m)" using st(1) by simp
    have "performs enc [] (on_model (\<lambda>m. no_result (finish_loop k symbol ct (stack m)) m)) n1 () p1"
      by (rule performs_on_model) (simp add: no_result_def p1(1))
    from performs_bind [OF ops(2), where g = "\<lambda>ct. on_model (\<lambda>m. no_result (finish_loop k symbol ct (stack m)) m)", OF this]
    show "performs enc ops (case Some (c, cur_order m1) of None \<Rightarrow> (\<lambda>w. Undef)
        | Some (temp, local_order) \<Rightarrow>
           bind_io (encode_contexts enc k symbol (order k + 3) temp local_order None) (\<lambda>ct.
             on_model (\<lambda>m. no_result (finish_loop k symbol ct (stack m)) m))) ?m () p1"
      by simp
  qed
  moreover have "follows coded ops (ppm_decode get_target decode k) m2 item p2"
    unfolding ppm_decode_def
  proof (rule follows_pure)
    show "Some (start_symbol k m2) = Some (Some (c, cur_order m1), ?m)" using st2 by simp
    let ?g = "\<lambda>(c, t, symbol). bind_io (on_model (\<lambda>m. no_result (finish_loop k (ucast symbol) (c, t) (stack m)) m)) (\<lambda>_. Returned (symbol :: 64 word))"
    have s16: "ucast (ucast symbol :: 64 word) = symbol"
      by (rule bit_word_eqI) (auto simp: bit_simps)
    have "no_result (finish_loop k (ucast (ucast symbol :: 64 word)) (fst ct, snd ct) (stack n2)) n2 = Some ((), p2)"
      unfolding s16 by (simp add: no_result_def p2(1))
    then have "follows coded [] (?g (fst ct, snd ct, ucast symbol)) n2 item p2"
      unfolding prod.case si [symmetric] by (rule follows_pure) (rule follows_Returned)
    from follows_bind [OF ops(3), where g = ?g, OF this]
    show "follows coded ops (case Some (c, cur_order m1) of None \<Rightarrow> (\<lambda>w. Undef)
        | Some (temp, local_order) \<Rightarrow> bind_io (decode_contexts get_target decode k (order k + 3) temp local_order None) ?g) ?m item p2"
      by simp
  qed
  moreover have "same_model p1 p2" by (rule finish_same [OF ops(6) p1(1) p2(1,3,4)])
  ultimately show ?thesis using ops(1) p1(2) p2(2) by blast
qed

end

end
