(* ===== verification/Crc32.thy ===== *)
theory Crc32
  imports Stream_Io
begin

text \<open>
  The checksum of \<open>crc32/crc32_kernel_1.h\<close>: its table, which is what the loop in its comment computes, and the
  object. A changed byte changes the checksum.
\<close>

unbundle bit_operations_syntax

section \<open>The object\<close>

text \<open>The checksum is an \<open>unsigned long\<close> that holds 32 bits.\<close>

record crc32 =
  checksum :: "64 word"

definition crc_table :: "64 word list" where
  "crc_table = [
    0x00000000, 0x77073096, 0xee0e612c, 0x990951ba, 0x76dc419, 0x706af48f, 0xe963a535, 0x9e6495a3,
    0xedb8832, 0x79dcb8a4, 0xe0d5e91e, 0x97d2d988, 0x9b64c2b, 0x7eb17cbd, 0xe7b82d07, 0x90bf1d91,
    0x1db71064, 0x6ab020f2, 0xf3b97148, 0x84be41de, 0x1adad47d, 0x6ddde4eb, 0xf4d4b551, 0x83d385c7,
    0x136c9856, 0x646ba8c0, 0xfd62f97a, 0x8a65c9ec, 0x14015c4f, 0x63066cd9, 0xfa0f3d63, 0x8d080df5,
    0x3b6e20c8, 0x4c69105e, 0xd56041e4, 0xa2677172, 0x3c03e4d1, 0x4b04d447, 0xd20d85fd, 0xa50ab56b,
    0x35b5a8fa, 0x42b2986c, 0xdbbbc9d6, 0xacbcf940, 0x32d86ce3, 0x45df5c75, 0xdcd60dcf, 0xabd13d59,
    0x26d930ac, 0x51de003a, 0xc8d75180, 0xbfd06116, 0x21b4f4b5, 0x56b3c423, 0xcfba9599, 0xb8bda50f,
    0x2802b89e, 0x5f058808, 0xc60cd9b2, 0xb10be924, 0x2f6f7c87, 0x58684c11, 0xc1611dab, 0xb6662d3d,
    0x76dc4190, 0x1db7106, 0x98d220bc, 0xefd5102a, 0x71b18589, 0x6b6b51f, 0x9fbfe4a5, 0xe8b8d433,
    0x7807c9a2, 0xf00f934, 0x9609a88e, 0xe10e9818, 0x7f6a0dbb, 0x86d3d2d, 0x91646c97, 0xe6635c01,
    0x6b6b51f4, 0x1c6c6162, 0x856530d8, 0xf262004e, 0x6c0695ed, 0x1b01a57b, 0x8208f4c1, 0xf50fc457,
    0x65b0d9c6, 0x12b7e950, 0x8bbeb8ea, 0xfcb9887c, 0x62dd1ddf, 0x15da2d49, 0x8cd37cf3, 0xfbd44c65,
    0x4db26158, 0x3ab551ce, 0xa3bc0074, 0xd4bb30e2, 0x4adfa541, 0x3dd895d7, 0xa4d1c46d, 0xd3d6f4fb,
    0x4369e96a, 0x346ed9fc, 0xad678846, 0xda60b8d0, 0x44042d73, 0x33031de5, 0xaa0a4c5f, 0xdd0d7cc9,
    0x5005713c, 0x270241aa, 0xbe0b1010, 0xc90c2086, 0x5768b525, 0x206f85b3, 0xb966d409, 0xce61e49f,
    0x5edef90e, 0x29d9c998, 0xb0d09822, 0xc7d7a8b4, 0x59b33d17, 0x2eb40d81, 0xb7bd5c3b, 0xc0ba6cad,
    0xedb88320, 0x9abfb3b6, 0x3b6e20c, 0x74b1d29a, 0xead54739, 0x9dd277af, 0x4db2615, 0x73dc1683,
    0xe3630b12, 0x94643b84, 0xd6d6a3e, 0x7a6a5aa8, 0xe40ecf0b, 0x9309ff9d, 0xa00ae27, 0x7d079eb1,
    0xf00f9344, 0x8708a3d2, 0x1e01f268, 0x6906c2fe, 0xf762575d, 0x806567cb, 0x196c3671, 0x6e6b06e7,
    0xfed41b76, 0x89d32be0, 0x10da7a5a, 0x67dd4acc, 0xf9b9df6f, 0x8ebeeff9, 0x17b7be43, 0x60b08ed5,
    0xd6d6a3e8, 0xa1d1937e, 0x38d8c2c4, 0x4fdff252, 0xd1bb67f1, 0xa6bc5767, 0x3fb506dd, 0x48b2364b,
    0xd80d2bda, 0xaf0a1b4c, 0x36034af6, 0x41047a60, 0xdf60efc3, 0xa867df55, 0x316e8eef, 0x4669be79,
    0xcb61b38c, 0xbc66831a, 0x256fd2a0, 0x5268e236, 0xcc0c7795, 0xbb0b4703, 0x220216b9, 0x5505262f,
    0xc5ba3bbe, 0xb2bd0b28, 0x2bb45a92, 0x5cb36a04, 0xc2d7ffa7, 0xb5d0cf31, 0x2cd99e8b, 0x5bdeae1d,
    0x9b64c2b0, 0xec63f226, 0x756aa39c, 0x26d930a, 0x9c0906a9, 0xeb0e363f, 0x72076785, 0x5005713,
    0x95bf4a82, 0xe2b87a14, 0x7bb12bae, 0xcb61b38, 0x92d28e9b, 0xe5d5be0d, 0x7cdcefb7, 0xbdbdf21,
    0x86d3d2d4, 0xf1d4e242, 0x68ddb3f8, 0x1fda836e, 0x81be16cd, 0xf6b9265b, 0x6fb077e1, 0x18b74777,
    0x88085ae6, 0xff0f6a70, 0x66063bca, 0x11010b5c, 0x8f659eff, 0xf862ae69, 0x616bffd3, 0x166ccf45,
    0xa00ae278, 0xd70dd2ee, 0x4e048354, 0x3903b3c2, 0xa7672661, 0xd06016f7, 0x4969474d, 0x3e6e77db,
    0xaed16a4a, 0xd9d65adc, 0x40df0b66, 0x37d83bf0, 0xa9bcae53, 0xdebb9ec5, 0x47b2cf7f, 0x30b5ffe9,
    0xbdbdf21c, 0xcabac28a, 0x53b39330, 0x24b4a3a6, 0xbad03605, 0xcdd70693, 0x54de5729, 0x23d967bf,
    0xb3667a2e, 0xc4614ab8, 0x5d681b02, 0x2a6f2b94, 0xb40bbe37, 0xc30c8ea1, 0x5a05df1b, 0x2d02ef8d]"

definition crc_entry :: "64 word \<Rightarrow> 64 word" where
  "crc_entry idx = crc_table ! unat idx"

definition crc32_init :: crc32 where
  "crc32_init = \<lparr>checksum = 0xFFFFFFFF\<rparr>"

definition crc_clear :: "crc32 \<Rightarrow> crc32" where
  "crc_clear s = s\<lparr>checksum := 0xFFFFFFFF\<rparr>"

definition crc_add :: "byte \<Rightarrow> crc32 \<Rightarrow> crc32" where
  "crc_add item s = s\<lparr>checksum := drop_bit 8 (checksum s) XOR crc_entry ((checksum s XOR ucast item) AND 0xFF)\<rparr>"

text \<open>The elements of a \<open>std::string\<close> or a \<open>std::vector<char>\<close> are signed.\<close>

definition crc_add_char :: "byte \<Rightarrow> crc32 \<Rightarrow> crc32" where
  "crc_add_char item s = s\<lparr>checksum := drop_bit 8 (checksum s) XOR crc_entry ((checksum s XOR scast item) AND 0xFF)\<rparr>"

definition crc_add_chars :: "byte list \<Rightarrow> crc32 \<Rightarrow> crc32" where
  "crc_add_chars items s = fold crc_add_char items s"

definition crc32_of :: "byte list \<Rightarrow> crc32" where
  "crc32_of items = crc_add_chars items crc32_init"

definition get_checksum :: "crc32 \<Rightarrow> 64 word" where
  "get_checksum s = checksum s XOR 0xFFFFFFFF"

definition crc_swap :: "crc32 \<Rightarrow> crc32 \<Rightarrow> crc32 \<times> crc32" where
  "crc_swap s item = (s\<lparr>checksum := checksum item\<rparr>, item\<lparr>checksum := checksum s\<rparr>)"

definition crc_assign :: "crc32 \<Rightarrow> crc32 \<Rightarrow> crc32" where
  "crc_assign s item = s\<lparr>checksum := checksum item\<rparr>"

section \<open>The table\<close>

text \<open>The code in the comment that generated the table.\<close>

definition crc_round :: "64 word \<Rightarrow> 64 word" where
  "crc_round temp = (if temp AND 1 \<noteq> 0 then drop_bit 1 temp XOR 0xedb88320 else drop_bit 1 temp)"

definition generated :: "nat \<Rightarrow> 64 word" where
  "generated i = (crc_round ^^ 8) (of_nat i)"

lemma rounds_of_1:
  "crc_round 128 = 64" "crc_round 64 = 32" "crc_round 32 = 16" "crc_round 16 = 8" "crc_round 8 = 4" "crc_round 4 = 2" "crc_round 2 = 1"
  "crc_round 1 = 0xedb88320" "crc_round 0xedb88320 = 0x76dc4190" "crc_round 0x76dc4190 = 0x3b6e20c8" "crc_round 0x3b6e20c8 = 0x1db71064"
  "crc_round 0x1db71064 = 0xedb8832" "crc_round 0xedb8832 = 0x76dc419" "crc_round 0x76dc419 = 0xee0e612c" "crc_round 0xee0e612c = 0x77073096"
  by (simp_all add: crc_round_def)

lemma eight: "(f ^^ 8) x = f (f (f (f (f (f (f (f x)))))))"
  by (simp add: eval_nat_numeral)

lemma basis:
  "(crc_round ^^ 8) 1 = 0x77073096" "(crc_round ^^ 8) 2 = 0xee0e612c" "(crc_round ^^ 8) 4 = 0x76dc419" "(crc_round ^^ 8) 8 = 0xedb8832"
  "(crc_round ^^ 8) 16 = 0x1db71064" "(crc_round ^^ 8) 32 = 0x3b6e20c8" "(crc_round ^^ 8) 64 = 0x76dc4190" "(crc_round ^^ 8) 128 = 0xedb88320"
  by (simp_all only: eight rounds_of_1)

definition double :: "64 word \<Rightarrow> 64 word list \<Rightarrow> 64 word list" where
  "double b xs = xs @ map ((XOR) b) xs"

lemma table_doubled: "crc_table = double 0xedb88320 (double 0x76dc4190 (double 0x3b6e20c8 (double 0x1db71064
    (double 0xedb8832 (double 0x76dc419 (double 0xee0e612c (double 0x77073096 [0])))))))"
  by (simp add: crc_table_def double_def)

text \<open>The loop is linear over exclusive or.\<close>

lemma round_eq: "crc_round x = drop_bit 1 x XOR (if bit x 0 then 0xedb88320 else 0)"
  by (simp add: crc_round_def and_one_eq bit_0 mod_2_eq_odd)

lemma round_xor: "crc_round (a XOR b) = crc_round a XOR crc_round b"
  unfolding round_eq by (rule bit_word_eqI) (auto simp: bit_simps)

lemma rounds_xor: "(crc_round ^^ n) (a XOR b) = (crc_round ^^ n) a XOR (crc_round ^^ n) b"
  by (induction n) (simp_all add: round_xor)

lemma high_bit_xor:
  assumes "j < 2 ^ k"
  shows "(2 ^ k XOR of_nat j :: 64 word) = of_nat (2 ^ k + j)"
proof -
  have d: "\<not> bit (2 ^ k :: 64 word) n \<or> \<not> bit (of_nat j :: 64 word) n" for n
  proof -
    have "bit j n \<Longrightarrow> n < k" using assms by (metis bit_iff_odd div_less even_zero le_less_trans linorder_not_less power_increasing_iff one_less_numeral_iff semiring_norm(76))
    then show ?thesis by (auto simp: bit_exp_iff bit_simps)
  qed
  have "(2 ^ k XOR of_nat j :: 64 word) = 2 ^ k OR of_nat j"
    by (rule bit_word_eqI) (use d in \<open>auto simp: bit_or_iff bit_xor_iff\<close>)
  also have "\<dots> = 2 ^ k + of_nat j" by (rule disjunctive_add [OF d, symmetric])
  finally show ?thesis by simp
qed

definition generates :: "nat \<Rightarrow> 64 word list \<Rightarrow> bool" where
  "generates k xs \<longleftrightarrow> length xs = 2 ^ k \<and> (\<forall>i < 2 ^ k. xs ! i = generated i)"

lemma generates_double:
  assumes "generates k xs" "b = generated (2 ^ k)"
  shows "generates (Suc k) (double b xs)"
proof -
  have "double b xs ! i = generated i" if i: "i < 2 ^ Suc k" for i
  proof (cases "i < 2 ^ k")
    case True
    with assms(1) show ?thesis by (simp add: generates_def double_def nth_append)
  next
    case False
    then obtain j where j: "i = 2 ^ k + j" "j < 2 ^ k" using i by (metis add_less_cancel_left le_Suc_ex linorder_not_less mult_2 power_Suc)
    have "double b xs ! i = generated (2 ^ k) XOR generated j"
      using assms j by (simp add: generates_def double_def nth_append)
    also have "\<dots> = generated i"
      unfolding generated_def rounds_xor [symmetric] j(1) high_bit_xor [OF j(2), symmetric] by simp
    finally show ?thesis .
  qed
  with assms(1) show ?thesis by (simp add: generates_def double_def)
qed

lemma generates_step: "generates k xs \<Longrightarrow> (crc_round ^^ 8) (2 ^ k) = b \<Longrightarrow> k' = Suc k \<Longrightarrow> generates k' (double b xs)"
  using generates_double [of k xs b] by (simp add: generated_def)

lemma crc_table_generates: "generates 8 crc_table"
proof -
  have 0: "generates 0 [0]" by (simp add: generates_def generated_def eight round_eq)
  show ?thesis
    unfolding table_doubled
    apply (rule generates_step [where k = 7])
    apply (rule generates_step [where k = 6])
    apply (rule generates_step [where k = 5])
    apply (rule generates_step [where k = 4])
    apply (rule generates_step [where k = 3])
    apply (rule generates_step [where k = 2])
    apply (rule generates_step [where k = 1])
    apply (rule generates_step [OF 0])
    by (simp_all add: basis)
qed

lemma crc_entry_generated:
  assumes "unat x < 256"
  shows "crc_entry x = (crc_round ^^ 8) x"
  using crc_table_generates assms by (simp add: generates_def crc_entry_def generated_def)

section \<open>A byte is eight rounds\<close>

lemma rounds_high: "(\<And>i. i < n \<Longrightarrow> \<not> bit x i) \<Longrightarrow> (crc_round ^^ n) x = drop_bit n x"
proof (induction n)
  case (Suc n)
  then have "\<not> bit (drop_bit n x) 0" by (auto simp: bit_simps)
  with Suc show ?case by (simp add: round_eq)
qed simp

lemma low_byte: "bit ((x :: 64 word) AND 0xFF) i \<longleftrightarrow> bit x i \<and> i < 8"
proof -
  have ff: "(0xFF :: 64 word) = mask 8" by (simp add: mask_eq_decr_exp)
  show ?thesis unfolding ff by (auto simp: bit_and_iff bit_mask_iff dest: bit_imp_le_length)
qed

lemma low_byte_num: "unat ((x :: 64 word) AND 0xFF) < 256"
proof -
  have "(0xFF :: 64 word) = mask 8" by (simp add: mask_eq_decr_exp)
  then have "x AND 0xFF = take_bit 8 x" by (simp only: take_bit_eq_mask)
  then show ?thesis by (simp only: unsigned_take_bit_eq) (simp add: take_bit_eq_mod)
qed

lemma byte_rounds:
  "(crc_round ^^ 8) (c XOR ucast (b :: byte)) = drop_bit 8 c XOR crc_entry ((c XOR ucast b) AND 0xFF)"
proof -
  define hi where "hi = push_bit 8 (drop_bit 8 c)"
  have b: "\<not> bit (ucast b :: 64 word) i" if "8 \<le> i" for i using that by (auto simp: bit_simps dest: bit_imp_le_length)
  have "c XOR ucast b = hi XOR ((c XOR ucast b) AND 0xFF)"
    by (rule bit_word_eqI) (use b in \<open>auto simp: hi_def low_byte bit_xor_iff bit_push_bit_iff bit_drop_bit_eq not_less\<close>)
  then have "(crc_round ^^ 8) (c XOR ucast b) = (crc_round ^^ 8) hi XOR (crc_round ^^ 8) ((c XOR ucast b) AND 0xFF)"
    by (metis rounds_xor)
  also have "(crc_round ^^ 8) hi = drop_bit 8 hi" by (rule rounds_high) (simp add: hi_def bit_push_bit_iff)
  also have "drop_bit 8 hi = drop_bit 8 c"
    by (rule bit_word_eqI) (auto simp: hi_def bit_simps dest: bit_imp_le_length)
  also have "(crc_round ^^ 8) ((c XOR ucast b) AND 0xFF) = crc_entry ((c XOR ucast b) AND 0xFF)"
    by (rule crc_entry_generated [symmetric]) (rule low_byte_num)
  finally show ?thesis .
qed

lemma crc_add_rounds: "checksum (crc_add b s) = (crc_round ^^ 8) (checksum s XOR ucast b)"
  by (simp add: crc_add_def byte_rounds)

lemma crc_add_char_eq: "crc_add_char b s = crc_add b s"
proof -
  have seven: "7 \<le> n \<Longrightarrow> n < 8 \<Longrightarrow> n = 7" for n :: nat by simp
  have "(checksum s XOR scast b) AND 0xFF = (checksum s XOR ucast b) AND 0xFF"
    by (rule bit_word_eqI) (simp only: low_byte, auto simp: bit_simps min_def dest!: seven)
  then show ?thesis by (simp add: crc_add_char_def crc_add_def)
qed

lemma crc_add_chars_eq: "crc_add_chars items s = fold crc_add items s"
proof -
  have "crc_add_char = crc_add" by (intro ext) (rule crc_add_char_eq)
  then show ?thesis by (simp add: crc_add_chars_def)
qed

text \<open>
  Thirty-two bits: the round can be undone, since the constant has bit 31.
\<close>

definition small :: "64 word \<Rightarrow> bool" where
  "small x \<longleftrightarrow> drop_bit 32 x = 0"

lemma small_bit: "small x \<longleftrightarrow> (\<forall>i. 32 \<le> i \<longrightarrow> \<not> bit x i)"
proof
  assume s: "small x"
  show "\<forall>i. 32 \<le> i \<longrightarrow> \<not> bit x i"
  proof (intro allI impI)
    fix i :: nat assume "32 \<le> i"
    with s have "bit (drop_bit 32 x) (i - 32) = bit x i" by (simp add: bit_drop_bit_eq)
    with s show "\<not> bit x i" by (simp add: small_def)
  qed
next
  assume "\<forall>i. 32 \<le> i \<longrightarrow> \<not> bit x i"
  then show "small x" unfolding small_def by (intro bit_word_eqI) (simp add: bit_drop_bit_eq)
qed

lemma poly_bits: "bit (0xedb88320 :: 64 word) 31" "32 \<le> i \<Longrightarrow> \<not> bit (0xedb88320 :: 64 word) i"
proof -
  show "bit (0xedb88320 :: 64 word) 31" by (simp add: bit_iff_odd_drop_bit)
  have "small 0xedb88320" by (simp add: small_def)
  then show "32 \<le> i \<Longrightarrow> \<not> bit (0xedb88320 :: 64 word) i" by (simp add: small_bit)
qed

lemma small_round: "small x \<Longrightarrow> small (crc_round x)"
  unfolding round_eq small_bit using poly_bits(2) by (auto simp: bit_xor_iff bit_drop_bit_eq)

lemma small_rounds: "small x \<Longrightarrow> small ((crc_round ^^ n) x)"
  by (induction n) (simp_all add: small_round)

lemma small_xor: "small x \<Longrightarrow> small y \<Longrightarrow> small (x XOR y)"
  unfolding small_bit by (auto simp: bit_xor_iff)

lemma round_zero:
  assumes "small x" "crc_round x = 0"
  shows "x = 0"
proof -
  have "bit (crc_round x) 31 \<longleftrightarrow> bit x 0"
    using assms(1) poly_bits(1) unfolding round_eq small_bit by (simp add: bit_xor_iff bit_drop_bit_eq)
  with assms(2) have 0: "\<not> bit x 0" by simp
  with assms(2) have "drop_bit 1 x = 0" by (simp add: round_eq)
  moreover have "bit x (Suc i) = bit (drop_bit 1 x) i" for i by (simp add: bit_drop_bit_eq)
  ultimately have s: "\<not> bit x (Suc i)" for i by simp
  show ?thesis
  proof (rule bit_word_eqI)
    fix n show "bit x n = bit 0 n" using 0 s by (cases n) simp_all
  qed
qed

lemma rounds_inject:
  assumes "small x" "small y" "(crc_round ^^ n) x = (crc_round ^^ n) y"
  shows "x = y"
proof -
  have z: "(crc_round ^^ n) z = 0 \<Longrightarrow> small z \<Longrightarrow> z = 0" for z
    by (induction n) (auto dest: round_zero [OF small_rounds])
  have "(crc_round ^^ n) (x XOR y) = 0" using assms(3) by (simp add: rounds_xor)
  from z [OF this small_xor [OF assms(1,2)]] have "x XOR y = 0" .
  moreover have "x = (x XOR y) XOR y" by (simp add: xor.assoc)
  ultimately show ?thesis by simp
qed

section \<open>Errors are detected\<close>

text \<open>Some bytes are one word for the rounds, the first byte lowest.\<close>

fun little_endian :: "byte list \<Rightarrow> 64 word" where
  "little_endian [] = 0"
| "little_endian (b # bs) = ucast b XOR push_bit 8 (little_endian bs)"

lemma little_endian_bit: "bit (little_endian bs) i \<Longrightarrow> i < 8 * length bs"
proof (induction bs arbitrary: i)
  case (Cons b bs)
  then show ?case by (auto simp: bit_xor_iff bit_push_bit_iff bit_unsigned_iff dest: bit_imp_le_length Cons.IH)
qed simp

lemma small_little_endian: "length bs \<le> 4 \<Longrightarrow> small (little_endian bs)"
  unfolding small_bit using little_endian_bit [of bs] by fastforce

lemma little_endian_inject:
  assumes "length as = length bs" "length as \<le> 4" "little_endian as = little_endian bs"
  shows "as = bs"
  using assms
proof (induction as bs rule: list_induct2)
  case (Cons a as b bs)
  have low: "bit (little_endian (c # cs)) i = bit c i" if "i < 8" for c cs i
    using that by (simp add: bit_xor_iff bit_push_bit_iff bit_unsigned_iff)
  have high: "bit (little_endian cs) i = bit (little_endian (c # cs)) (i + 8)" if "i < 32" for c cs i
    using that by (auto simp: bit_xor_iff bit_push_bit_iff bit_unsigned_iff dest: bit_imp_le_length)
  have "a = b"
  proof (rule bit_word_eqI)
    fix i assume "i < LENGTH(8)"
    then have i: "i < 8" by simp
    show "bit a i = bit b i" using low [OF i, of a as] low [OF i, of b bs] Cons.prems(2) by simp
  qed
  moreover have "little_endian as = little_endian bs"
  proof (rule bit_word_eqI)
    fix i
    show "bit (little_endian as) i = bit (little_endian bs) i"
    proof (cases "i < 32")
      case True
      with high [of i as a] high [of i bs b] Cons.prems(2) show ?thesis by simp
    next
      case False
      with small_little_endian [of as] small_little_endian [of bs] Cons.prems(1) Cons.hyps show ?thesis
        by (simp add: small_bit)
    qed
  qed
  ultimately show ?case using Cons.IH Cons.prems(1) by simp
qed simp

lemma checksum_rounds:
  assumes "small (checksum s)" "length bs \<le> 4"
  shows "checksum (fold crc_add bs s) = (crc_round ^^ (8 * length bs)) (checksum s XOR little_endian bs)"
  using assms
proof (induction bs arbitrary: s)
  case (Cons b bs)
  have sm: "small (checksum s XOR ucast b)"
    using Cons.prems(1) by (rule small_xor) (auto simp: small_bit bit_unsigned_iff dest: bit_imp_le_length)
  have "checksum (fold crc_add (b # bs) s) = (crc_round ^^ (8 * length bs)) (checksum (crc_add b s) XOR little_endian bs)"
    using Cons.IH [of "crc_add b s"] Cons.prems(2) small_rounds [OF sm] by (simp add: crc_add_rounds)
  also have "checksum (crc_add b s) XOR little_endian bs =
      (crc_round ^^ 8) (checksum s XOR ucast b) XOR (crc_round ^^ 8) (push_bit 8 (little_endian bs))"
  proof -
    have "(crc_round ^^ 8) (push_bit 8 (little_endian bs)) = drop_bit 8 (push_bit 8 (little_endian bs))"
      by (rule rounds_high) (simp add: bit_push_bit_iff)
    also have "\<dots> = little_endian bs"
      by (rule bit_word_eqI)
        (use little_endian_bit [of bs] Cons.prems(2) in \<open>fastforce simp: bit_drop_bit_eq bit_push_bit_iff\<close>)
    finally show ?thesis by (simp add: crc_add_rounds)
  qed
  also have "\<dots> = (crc_round ^^ 8) (checksum s XOR little_endian (b # bs))"
    by (simp only: rounds_xor [symmetric] little_endian.simps xor.assoc)
  also have "(crc_round ^^ (8 * length bs)) \<dots> = (crc_round ^^ (8 * length (b # bs))) (checksum s XOR little_endian (b # bs))"
  proof -
    have "8 * length (b # bs) = 8 * length bs + 8" by simp
    then show ?thesis by (simp only: funpow_add o_apply)
  qed
  finally show ?case .
qed simp

lemma small_fold: "small (checksum s) \<Longrightarrow> small (checksum (fold crc_add bs s))"
proof (induction bs arbitrary: s)
  case (Cons b bs)
  have "small (checksum s XOR ucast b)"
    using Cons.prems by (rule small_xor) (auto simp: small_bit bit_unsigned_iff dest: bit_imp_le_length)
  with Cons.IH [of "crc_add b s"] show ?case by (simp add: crc_add_rounds small_rounds)
qed simp

lemma crc_add_inject:
  assumes "small (checksum s)" "small (checksum s')" "checksum (crc_add b s) = checksum (crc_add b s')"
  shows "checksum s = checksum s'"
proof -
  have b: "small (ucast b)" by (auto simp: small_bit bit_unsigned_iff dest: bit_imp_le_length)
  have "checksum s XOR ucast b = checksum s' XOR ucast b"
    by (rule rounds_inject [where n = 8]) (use assms b in \<open>simp_all add: crc_add_rounds small_xor\<close>)
  then have "(checksum s XOR ucast b) XOR ucast b = (checksum s' XOR ucast b) XOR ucast b" by simp
  then show ?thesis by (simp add: xor.assoc)
qed

lemma fold_inject:
  assumes "small (checksum s)" "small (checksum s')" "checksum (fold crc_add bs s) = checksum (fold crc_add bs s')"
  shows "checksum s = checksum s'"
  using assms
proof (induction bs arbitrary: s s')
  case (Cons b bs)
  have "small (checksum (crc_add b s))" "small (checksum (crc_add b s'))"
    using small_fold [of s "[b]"] small_fold [of s' "[b]"] Cons.prems(1,2) by simp_all
  from Cons.IH [OF this] Cons.prems crc_add_inject show ?case by simp
qed simp

lemma init_small: "small (checksum crc32_init)"
  by (simp add: small_def crc32_init_def)

text \<open>
  C24. The table is right: the checksum that the class computes byte by byte with its table of 256 words is the one of the loop over
  the bits of the string, the division by the polynomial \<open>0xedb88320\<close>, for every string, signed as its elements are.
\<close>

theorem crc_is_bitwise:
  "get_checksum (crc32_of xs) = fold (\<lambda>item c. (crc_round ^^ 8) (c XOR ucast item)) xs 0xFFFFFFFF XOR 0xFFFFFFFF"
proof -
  have "checksum (fold crc_add xs s) = fold (\<lambda>item c. (crc_round ^^ 8) (c XOR ucast item)) xs (checksum s)" for s
    by (induction xs arbitrary: s) (simp_all add: crc_add_rounds)
  then show ?thesis by (simp add: get_checksum_def crc32_of_def crc_add_chars_eq crc32_init_def)
qed

text \<open>
  C25. When at most four bytes in a row of a string are changed, whatever is before and behind them, the checksum changes.
\<close>

theorem crc_detects_bursts:
  assumes "length as = length bs" "length as \<le> 4" "as \<noteq> bs"
  shows "get_checksum (crc32_of (pre @ as @ suf)) \<noteq> get_checksum (crc32_of (pre @ bs @ suf))"
proof
  assume eq: "get_checksum (crc32_of (pre @ as @ suf)) = get_checksum (crc32_of (pre @ bs @ suf))"
  define s where "s = fold crc_add pre crc32_init"
  have s: "small (checksum s)" unfolding s_def by (rule small_fold [OF init_small])
  have run: "checksum (crc32_of (pre @ cs @ suf)) = checksum (fold crc_add suf (fold crc_add cs s))" for cs
    by (simp add: crc32_of_def crc_add_chars_eq s_def)
  have "checksum x = get_checksum x XOR 0xFFFFFFFF" for x by (simp add: get_checksum_def xor.assoc)
  with eq have "checksum (crc32_of (pre @ as @ suf)) = checksum (crc32_of (pre @ bs @ suf))" by metis
  then have "checksum (fold crc_add as s) = checksum (fold crc_add bs s)"
    unfolding run by (rule fold_inject [OF small_fold [OF s] small_fold [OF s]])
  then have "(crc_round ^^ (8 * length as)) (checksum s XOR little_endian as) = (crc_round ^^ (8 * length as)) (checksum s XOR little_endian bs)"
    using checksum_rounds [OF s assms(2)] checksum_rounds [OF s, of bs] assms(1,2) by simp
  then have "checksum s XOR little_endian as = checksum s XOR little_endian bs"
    by (rule rounds_inject [rotated 2]) (use s small_little_endian assms(1,2) in \<open>simp_all add: small_xor\<close>)
  then have "checksum s XOR (checksum s XOR little_endian as) = checksum s XOR (checksum s XOR little_endian bs)" by simp
  then have "little_endian as = little_endian bs" by (simp flip: xor.assoc)
  with little_endian_inject [OF assms(1,2)] assms(3) show False by blast
qed

theorem crc_detects_bursts_witness:
  "\<forall>pre suf. get_checksum (crc32_of (pre @ [1, 2, 3, 4] @ suf)) \<noteq> get_checksum (crc32_of (pre @ [1, 2, 3, 5] @ suf))"
  by (intro allI, rule crc_detects_bursts) simp_all

end
