(* ===== verification/Compress_Stream.thy ===== *)
theory Compress_Stream
  imports Ppm_Lockstep Crc32
begin

text \<open>
  \<open>compress_stream/compress_stream_kernel_1.h\<close>: the streams are coded symbol by symbol with a statistical model, a mark
  every 20000 symbols, the symbol 256 at the end, and the checksum behind it. The models are a parameter; what they
  promise is the locale \<open>symbol_coding\<close>, which the models of order n satisfy.
\<close>

unbundle bit_operations_syntax

section \<open>Compression\<close>

text \<open>
  The state of the loop is the input stream, the model and the coder; \<open>cnt\<close> (the count) and \<open>crc\<close> are the local variables of these names.
\<close>

definition eof_symbol :: "64 word" where "eof_symbol = 256"

definition past :: "('m \<times> 'c \<Rightarrow> ('a, 'm \<times> 'c) io) \<Rightarrow> ('s \<times> 'm) \<times> 'c \<Rightarrow> ('a, ('s \<times> 'm) \<times> 'c) io" where
  "past f w =
     (let s = fst (fst w) in
      case f (snd (fst w), snd w) of
        Returned x (m, c) \<Rightarrow> Returned x ((s, m), c)
      | Thrown e (m, c) \<Rightarrow> Thrown e ((s, m), c)
      | Undef \<Rightarrow> Undef)"

definition write_mark :: "(32 word \<Rightarrow> 32 word \<Rightarrow> 32 word \<Rightarrow> 'c \<Rightarrow> (unit, 'c) io) \<Rightarrow> nat \<Rightarrow> 's \<times> 'c \<Rightarrow> (nat, 's \<times> 'c) io" where
  "write_mark enc cnt =
     (if cnt = 20000 then bind_io (on_stream (enc 1500 1501 8000)) (\<lambda>_. Returned 1) else Returned (cnt + 1))"

definition next_byte :: "istream \<times> 'm \<Rightarrow> (byte option \<times> istream \<times> 'm) option" where
  "next_byte = (\<lambda>(i, m). case sbumpc i of (i, temp) \<Rightarrow> Some (temp, (i, m)))"

definition write_checksum ::
  "(64 word \<Rightarrow> 'm \<times> 'c \<Rightarrow> (unit, 'm \<times> 'c) io) \<Rightarrow> 64 word \<Rightarrow> ('s \<times> 'm) \<times> 'c \<Rightarrow> (unit, ('s \<times> 'm) \<times> 'c) io" where
  "write_checksum encode sum32 =
     bind_io (past (encode (ucast (ucast (drop_bit 24 sum32 AND 0xFF) :: byte)))) (\<lambda>_.
     bind_io (past (encode (ucast (ucast (drop_bit 16 sum32 AND 0xFF) :: byte)))) (\<lambda>_.
     bind_io (past (encode (ucast (ucast (drop_bit 8 sum32 AND 0xFF) :: byte)))) (\<lambda>_.
     past (encode (ucast (ucast (sum32 AND 0xFF) :: byte))))))"

lemma bind_io_cong [fundef_cong]:
  assumes "m = m'" "s = s'" "\<And>x s1. m' s' = Returned x s1 \<Longrightarrow> f x s1 = f' x s1"
  shows "bind_io m f s = bind_io m' f' s'"
  using assms by (auto simp: bind_io.simps split: io.split)

lemma past_keeps: "past f w = Returned x w' \<Longrightarrow> fst (fst w') = fst (fst w)"
  by (auto simp: past_def Let_def split: io.splits prod.splits)

lemma write_mark_keeps: "write_mark enc cnt w = Returned x w' \<Longrightarrow> fst w' = fst w"
  by (auto simp: write_mark_def bind_io.simps on_stream_def split: io.splits if_splits)

lemma next_byte_shorter:
  "on_model next_byte w = Returned (Some b) w' \<Longrightarrow> length (source (fst (fst w'))) < length (source (fst (fst w)))"
  by (auto simp: on_model_def next_byte_def sbumpc_def split: prod.splits list.splits)

function compress_loop ::
  "(32 word \<Rightarrow> 32 word \<Rightarrow> 32 word \<Rightarrow> 'c \<Rightarrow> (unit, 'c) io) \<Rightarrow> (64 word \<Rightarrow> 'm \<times> 'c \<Rightarrow> (unit, 'm \<times> 'c) io) \<Rightarrow>
     nat \<Rightarrow> crc32 \<Rightarrow> (istream \<times> 'm) \<times> 'c \<Rightarrow> (unit, (istream \<times> 'm) \<times> 'c) io" where
  "compress_loop enc encode cnt crc w =
     bind_io (write_mark enc cnt) (\<lambda>cnt.
     bind_io (on_model next_byte) (\<lambda>temp w.
       case temp of
         Some temp \<Rightarrow> bind_io (past (encode (ucast temp))) (\<lambda>_ w. compress_loop enc encode cnt (crc_add temp crc) w) w
       | None \<Rightarrow> bind_io (past (encode eof_symbol)) (\<lambda>_. write_checksum encode (get_checksum crc)) w)) w"
  by auto
termination
proof (relation "measure (\<lambda>(enc, encode, cnt, crc, w). length (source (fst (fst w))))", goal_cases)
  case (2 enc encode cnt crc w x s1 temp s2 b u s3)
  then show ?case
    using write_mark_keeps [of enc cnt w x s1] next_byte_shorter [of s1 b s2] past_keeps [of "encode (ucast b)" s2 u s3] by simp
qed simp

declare compress_loop.simps [simp del]

text \<open>
  \<open>compress\<close>: the objects are destroyed at the end, and the destructor of the coder flushes, also after an exception.
\<close>

definition destroy_coder :: "('a, (istream \<times> 'm) \<times> entropy_encoder) io \<Rightarrow> ('a, istream \<times> ostream) io" where
  "destroy_coder r =
     (case r of
        Returned x ((i, m), c) \<Rightarrow> (case enc_destroy c of Some (Some out) \<Rightarrow> Returned x (i, out) | _ \<Rightarrow> Undef)
      | Thrown e ((i, m), c) \<Rightarrow> (case enc_destroy c of Some (Some out) \<Rightarrow> Thrown e (i, out) | _ \<Rightarrow> Undef)
      | Undef \<Rightarrow> Undef)"

definition compress ::
  "(64 word \<Rightarrow> 'm \<times> entropy_encoder \<Rightarrow> (unit, 'm \<times> entropy_encoder) io) \<Rightarrow> 'm \<Rightarrow>
     istream \<times> ostream \<Rightarrow> (unit, istream \<times> ostream) io" where
  "compress encode m = (\<lambda>(i, out).
     case enc_set_stream out entropy_encoder_init of
       Returned _ coder \<Rightarrow> destroy_coder (compress_loop enc_encode encode 0 crc32_init ((i, m), coder))
     | _ \<Rightarrow> Undef)"

section \<open>Decompression\<close>

definition check_mark ::
  "(32 word \<Rightarrow> 'd \<Rightarrow> (32 word, 'd) io) \<Rightarrow> (32 word \<Rightarrow> 32 word \<Rightarrow> 'd \<Rightarrow> (unit, 'd) io) \<Rightarrow> nat \<Rightarrow> 's \<times> 'd \<Rightarrow> (nat, 's \<times> 'd) io" where
  "check_mark get dec cnt =
     (if cnt = 20000
      then bind_io (on_stream (get 8000)) (\<lambda>target.
        if target \<noteq> 1500 then throw ''Error detected in compressed data stream.''
        else bind_io (on_stream (dec 1500 1501)) (\<lambda>_. Returned 1))
      else Returned (cnt + 1))"

text \<open>\<open>sputc\<close> returns the byte or \<open>EOF\<close>, the number -1, which is no symbol.\<close>

definition write_symbol :: "64 word \<Rightarrow> (ostream \<times> 'm) \<times> 'd \<Rightarrow> (unit, (ostream \<times> 'm) \<times> 'd) io" where
  "write_symbol symbol = (\<lambda>((out, m), d).
     case sputn [ucast symbol] out of (out, n) \<Rightarrow>
       if n = 0 \<or> uint (ucast symbol :: byte) \<noteq> sint (ucast symbol :: 32 word)
       then Thrown ''error occurred in compress_stream_kernel_1::decompress'' ((out, m), d)
       else Returned () ((out, m), d))"

definition check_checksum ::
  "('m \<times> 'd \<Rightarrow> (64 word, 'm \<times> 'd) io) \<Rightarrow> 64 word \<Rightarrow> ('s \<times> 'm) \<times> 'd \<Rightarrow> (unit, ('s \<times> 'm) \<times> 'd) io" where
  "check_checksum decode expected =
     bind_io (past decode) (\<lambda>symbol. let byte1 = ucast symbol :: byte in
     bind_io (past decode) (\<lambda>symbol. let byte2 = ucast symbol :: byte in
     bind_io (past decode) (\<lambda>symbol. let byte3 = ucast symbol :: byte in
     bind_io (past decode) (\<lambda>symbol. let byte4 = ucast symbol :: byte;
       sum32 = ucast byte1 :: 64 word;
       sum32 = push_bit 8 sum32;
       sum32 = sum32 OR ucast byte2;
       sum32 = push_bit 8 sum32;
       sum32 = sum32 OR ucast byte3;
       sum32 = push_bit 8 sum32;
       sum32 = sum32 OR ucast byte4
     in if sum32 \<noteq> expected then throw ''Error detected in compressed data stream.'' else Returned ()))))"

lemma check_mark_keeps: "check_mark get dec cnt w = Returned x w' \<Longrightarrow> fst w' = fst w"
  by (auto simp: check_mark_def bind_io.simps on_stream_def throw_def split: io.splits if_splits)

lemma write_symbol_less: "write_symbol symbol w = Returned x w' \<Longrightarrow> room (fst (fst w')) < room (fst (fst w))"
  by (auto simp: write_symbol_def sputn_def Let_def split: prod.splits if_splits)

function decompress_loop ::
  "(32 word \<Rightarrow> 'd \<Rightarrow> (32 word, 'd) io) \<Rightarrow> (32 word \<Rightarrow> 32 word \<Rightarrow> 'd \<Rightarrow> (unit, 'd) io) \<Rightarrow> ('m \<times> 'd \<Rightarrow> (64 word, 'm \<times> 'd) io) \<Rightarrow>
     nat \<Rightarrow> crc32 \<Rightarrow> (ostream \<times> 'm) \<times> 'd \<Rightarrow> (unit, (ostream \<times> 'm) \<times> 'd) io" where
  "decompress_loop get dec decode cnt crc w =
     bind_io (check_mark get dec cnt) (\<lambda>cnt.
     bind_io (past decode) (\<lambda>symbol w.
       if symbol \<noteq> eof_symbol
       then bind_io (write_symbol symbol) (\<lambda>_ w. decompress_loop get dec decode cnt (crc_add (ucast symbol) crc) w) w
       else check_checksum decode (get_checksum crc) w)) w"
  by auto
termination
proof (relation "measure (\<lambda>(get, dec, decode, cnt, crc, w). room (fst (fst w)))", goal_cases)
  case (2 get dec decode cnt crc w x s1 symbol s2 u s3)
  then show ?case
    using check_mark_keeps [of get dec cnt w x s1] write_symbol_less [of symbol s2 u s3] past_keeps [of decode s1 symbol s2] by simp
qed simp

declare decompress_loop.simps [simp del]

definition forget_decoder :: "('a, (ostream \<times> 'm) \<times> entropy_decoder) io \<Rightarrow> ('a, istream \<times> ostream) io" where
  "forget_decoder r =
     (case r of
        Returned x ((out, m), d) \<Rightarrow> (case dec_in d of Some i \<Rightarrow> Returned x (i, out) | None \<Rightarrow> Undef)
      | Thrown e ((out, m), d) \<Rightarrow> (case dec_in d of Some i \<Rightarrow> Thrown e (i, out) | None \<Rightarrow> Undef)
      | Undef \<Rightarrow> Undef)"

text \<open>\<open>ch\<close> is the byte of memory that \<open>set_stream\<close> reads an empty stream into.\<close>

definition decompress ::
  "('m \<times> entropy_decoder \<Rightarrow> (64 word, 'm \<times> entropy_decoder) io) \<Rightarrow> 'm \<Rightarrow> byte \<Rightarrow>
     istream \<times> ostream \<Rightarrow> (unit, istream \<times> ostream) io" where
  "decompress decode m ch = (\<lambda>(i, out).
     forget_decoder (decompress_loop dec_get_target dec_decode decode 0 crc32_init
       ((out, m), dec_set_stream ch i entropy_decoder_init)))"

section \<open>The contract of the models\<close>

text \<open>
  A pair of models in the same state: the encoder makes some calls for a symbol, the decoder finds the symbol where these calls are
  coded, and they are in the same state again.
\<close>

locale symbol_coding =
  fixes encode :: "64 word \<Rightarrow> 'm \<times> entropy_encoder \<Rightarrow> (unit, 'm \<times> entropy_encoder) io"
    and decode :: "'n \<times> entropy_decoder \<Rightarrow> (64 word, 'n \<times> entropy_decoder) io"
    and in_sync :: "'m \<Rightarrow> 'n \<Rightarrow> bool"
    and alphabet :: nat
  assumes in_step: "in_sync m n \<Longrightarrow> unat item < alphabet \<Longrightarrow> \<exists>ops m' n'. list_all valid_call ops \<and>
    performs enc_encode ops (encode item) m () m' \<and> follows ahead ops decode n item n' \<and> in_sync m' n'"

section \<open>The steps of the loops\<close>

lemma performsD:
  assumes "performs enc ops f m x m'"
  shows "run_calls enc ops c = Returned u c' \<Longrightarrow> f (m, c) = Returned x (m', c')"
    "run_calls enc ops c = Thrown e c' \<Longrightarrow> \<exists>m1. f (m, c) = Thrown e (m1, c')"
  using assms [unfolded performs_def, rule_format, of c] by simp_all

lemma performs_past:
  assumes "performs enc ops f m x m'"
  shows "performs enc ops (past f) (s, m) x (s, m')"
  unfolding performs_def
proof
  fix c
  from assms have "case run_calls enc ops c of Returned _ c' \<Rightarrow> f (m, c) = Returned x (m', c')
    | Thrown e c' \<Rightarrow> (\<exists>m1. f (m, c) = Thrown e (m1, c')) | Undef \<Rightarrow> f (m, c) = Undef" by (simp add: performs_def)
  then show "case run_calls enc ops c of Returned _ c' \<Rightarrow> past f ((s, m), c) = Returned x ((s, m'), c')
    | Thrown e c' \<Rightarrow> (\<exists>m1. past f ((s, m), c) = Thrown e (m1, c')) | Undef \<Rightarrow> past f ((s, m), c) = Undef"
    by (cases "run_calls enc ops c") (auto simp: past_def)
qed

lemma follows_past:
  assumes "follows coded ops f m x m'"
  shows "follows coded ops (past f) (s, m) x (s, m')"
  unfolding follows_def
proof (intro allI impI)
  fix d rest assume "coded d (ops @ rest)"
  with assms obtain d' where "f (m, d) = Returned x (m', d')" "coded d' rest" unfolding follows_def by blast
  then show "\<exists>d'. past f ((s, m), d) = Returned x ((s, m'), d') \<and> coded d' rest" by (simp add: past_def)
qed

definition mark_calls :: "nat \<Rightarrow> call list" where
  "mark_calls cnt = (if cnt = 20000 then [(1500, 1501, 8000)] else [])"

definition mark_next :: "nat \<Rightarrow> nat" where
  "mark_next cnt = (if cnt = 20000 then 1 else cnt + 1)"

lemma mark_valid: "list_all valid_call (mark_calls cnt)"
  by (simp add: mark_calls_def valid_call_def)

lemma performs_mark: "performs enc (mark_calls cnt) (write_mark enc cnt) m (mark_next cnt) m"
  using performs_op [OF performs_Returned [where x = "1 :: nat" and m = m], of enc 1500 1501 8000]
    performs_Returned [of enc "cnt + 1" m]
  by (simp add: mark_calls_def mark_next_def write_mark_def)

lemma follows_mark: "follows ahead (mark_calls cnt) (check_mark dec_get_target dec_decode cnt) m (mark_next cnt) m"
proof (cases "cnt = 20000")
  case True
  have "follows ahead [(1500, 1501, 8000)] (bind_io (on_stream (dec_get_target 8000)) (\<lambda>target.
        if target \<noteq> 1500 then throw ''Error detected in compressed data stream.''
        else bind_io (on_stream (dec_decode 1500 1501)) (\<lambda>_. Returned 1))) m (1 :: nat) m"
  proof (rule range_decoder.follows_op)
    show "follows ahead [] ((\<lambda>_. Returned 1) ()) m (1 :: nat) m" by (rule follows_Returned)
    fix x :: "32 word" and d assume "1500 \<le> x" "x < 1501"
    then have "x = 1500" by (simp add: word_le_nat_alt word_less_nat_alt word_unat_eq_iff)
    then show "(if x \<noteq> 1500 then throw ''Error detected in compressed data stream.''
        else bind_io (on_stream (dec_decode 1500 1501)) (\<lambda>_. Returned 1)) (m, d) =
      bind_io (on_stream (dec_decode 1500 1501)) (\<lambda>_. Returned (1 :: nat)) (m, d)" by simp
  qed
  with True show ?thesis by (simp add: mark_calls_def mark_next_def check_mark_def)
next
  case False
  then show ?thesis by (simp add: mark_calls_def mark_next_def check_mark_def follows_Returned)
qed

lemma write_symbol_byte:
  "0 < room out \<Longrightarrow> write_symbol (ucast b) ((out, m), d) = Returned () ((put_bytes [b] out, m), d)"
  "room out = 0 \<Longrightarrow> write_symbol symbol ((out, m), d) = Thrown ''error occurred in compress_stream_kernel_1::decompress'' ((out, m), d)"
proof -
  have b: "ucast (ucast b :: 64 word) = b" by (rule bit_word_eqI) (auto simp: bit_simps)
  then have "uint (ucast (ucast b :: 64 word) :: byte) = uint b" by simp
  moreover have "sint (ucast (ucast b :: 64 word) :: 32 word) = uint b"
  proof -
    have "ucast (ucast b :: 64 word) = (ucast b :: 32 word)"
      by (rule bit_word_eqI) (auto simp: bit_simps dest: bit_imp_le_length)
    moreover have "uint (ucast b :: 32 word) = uint b"
      using unsigned_less [of b, where 'a = int] by (simp add: unsigned_ucast_eq take_bit_eq_mod)
    moreover have "- (2 ^ 31) \<le> uint b" using unsigned_greater_eq [of b, where 'a = int] by (rule order_trans [rotated]) simp
    ultimately show ?thesis
      using unsigned_less [of b, where 'a = int] by (simp add: sint_uint signed_take_bit_int_eq_self)
  qed
  ultimately show "0 < room out \<Longrightarrow> write_symbol (ucast b) ((out, m), d) = Returned () ((put_bytes [b] out, m), d)"
    by (simp add: write_symbol_def sputn_fits b)
  show "room out = 0 \<Longrightarrow> write_symbol symbol ((out, m), d) = Thrown ''error occurred in compress_stream_kernel_1::decompress'' ((out, m), d)"
    by (simp add: write_symbol_def sputn_def Let_def)
qed

lemma byte_symbol: "unat (ucast (b :: byte) :: 64 word) < 256" "(ucast b :: 64 word) \<noteq> eof_symbol"
proof -
  have "unat (ucast (b :: byte) :: 64 word) = unat b"
    using unsigned_less [of b, where 'a = nat] by (simp add: unsigned_ucast_eq take_bit_eq_mod)
  then show "unat (ucast (b :: byte) :: 64 word) < 256" using unsigned_less [of b, where 'a = nat] by simp
  then show "(ucast b :: 64 word) \<noteq> eof_symbol" by (auto simp: eof_symbol_def)
qed

lemma checksum_bytes:
  fixes v :: "64 word"
  assumes "small v"
  defines "b \<equiv> \<lambda>n. ucast (drop_bit n v AND 0xFF) :: byte"
  shows "push_bit 8 (push_bit 8 (push_bit 8 (ucast (b 24)) OR ucast (b 16)) OR ucast (b 8)) OR ucast (b 0) = v"
proof (rule bit_word_eqI)
  fix i assume i: "i < LENGTH(64)"
  have bb: "bit (b n) j \<longleftrightarrow> j < 8 \<and> bit v (j + n)" for n j
    unfolding b_def by (auto simp: bit_unsigned_iff low_byte bit_drop_bit_eq ac_simps)
  have ub: "bit (ucast (b n) :: 64 word) j \<longleftrightarrow> j < 8 \<and> bit v (j + n)" for n j
    by (auto simp: bit_unsigned_iff bb)
  show "bit (push_bit 8 (push_bit 8 (push_bit 8 (ucast (b 24)) OR ucast (b 16)) OR ucast (b 8)) OR ucast (b 0) :: 64 word) i = bit v i"
  proof (cases "i < 32")
    case True
    then consider "i < 8" | "8 \<le> i" "i < 16" | "16 \<le> i" "i < 24" | "24 \<le> i" "i < 32" by linarith
    then show ?thesis by cases (simp_all add: bit_or_iff bit_push_bit_iff ub less_diff_conv2)
  next
    case False
    with assms(1) show ?thesis unfolding small_bit by (simp add: bit_or_iff bit_push_bit_iff ub)
  qed
qed

lemma small_get_checksum: "small (checksum s) \<Longrightarrow> small (get_checksum s)"
  unfolding get_checksum_def by (rule small_xor) (simp_all add: small_def)

lemma compress_loop_eq:
  "compress_loop enc encode cnt crc =
     bind_io (write_mark enc cnt) (\<lambda>cnt.
     bind_io (on_model next_byte) (\<lambda>temp.
       case temp of
         Some temp \<Rightarrow> bind_io (past (encode (ucast temp))) (\<lambda>_. compress_loop enc encode cnt (crc_add temp crc))
       | None \<Rightarrow> bind_io (past (encode eof_symbol)) (\<lambda>_. write_checksum encode (get_checksum crc))))"
proof
  fix w
  have "(\<lambda>temp w. case temp of
         Some temp \<Rightarrow> bind_io (past (encode (ucast temp))) (\<lambda>_. compress_loop enc encode cnt (crc_add temp crc)) w
       | None \<Rightarrow> bind_io (past (encode eof_symbol)) (\<lambda>_. write_checksum encode (get_checksum crc)) w) =
     (\<lambda>temp. case temp of
         Some temp \<Rightarrow> bind_io (past (encode (ucast temp))) (\<lambda>_. compress_loop enc encode cnt (crc_add temp crc))
       | None \<Rightarrow> bind_io (past (encode eof_symbol)) (\<lambda>_. write_checksum encode (get_checksum crc)))" for cnt
    by (simp add: fun_eq_iff split: option.split)
  then show "compress_loop enc encode cnt crc w = bind_io (write_mark enc cnt) (\<lambda>cnt.
     bind_io (on_model next_byte) (\<lambda>temp.
       case temp of
         Some temp \<Rightarrow> bind_io (past (encode (ucast temp))) (\<lambda>_. compress_loop enc encode cnt (crc_add temp crc))
       | None \<Rightarrow> bind_io (past (encode eof_symbol)) (\<lambda>_. write_checksum encode (get_checksum crc)))) w"
    by (subst compress_loop.simps) simp
qed

lemma decompress_loop_eq:
  "decompress_loop get dec decode cnt crc =
     bind_io (check_mark get dec cnt) (\<lambda>cnt.
     bind_io (past decode) (\<lambda>symbol.
       if symbol \<noteq> eof_symbol
       then bind_io (write_symbol symbol) (\<lambda>_. decompress_loop get dec decode cnt (crc_add (ucast symbol) crc))
       else check_checksum decode (get_checksum crc)))"
proof
  fix w
  have "(\<lambda>symbol w. if symbol \<noteq> eof_symbol
       then bind_io (write_symbol symbol) (\<lambda>_. decompress_loop get dec decode cnt (crc_add (ucast symbol) crc)) w
       else check_checksum decode (get_checksum crc) w) =
     (\<lambda>symbol. if symbol \<noteq> eof_symbol
       then bind_io (write_symbol symbol) (\<lambda>_. decompress_loop get dec decode cnt (crc_add (ucast symbol) crc))
       else check_checksum decode (get_checksum crc))" for cnt
    by (simp add: fun_eq_iff)
  then show "decompress_loop get dec decode cnt crc w = bind_io (check_mark get dec cnt) (\<lambda>cnt.
     bind_io (past decode) (\<lambda>symbol.
       if symbol \<noteq> eof_symbol
       then bind_io (write_symbol symbol) (\<lambda>_. decompress_loop get dec decode cnt (crc_add (ucast symbol) crc))
       else check_checksum decode (get_checksum crc))) w"
    by (subst decompress_loop.simps) simp
qed

lemma next_byte_eq: "next_byte (i, m) = Some (case source i of [] \<Rightarrow> (None, (i, m)) | b # bs \<Rightarrow> (Some b, (i\<lparr>source := bs\<rparr>, m)))"
  by (simp add: next_byte_def sbumpc_def split: list.split)

text \<open>The stream took all bytes that it had room for.\<close>

definition overflows :: "byte list \<Rightarrow> ostream \<Rightarrow> ('a, (ostream \<times> 'm) \<times> entropy_decoder) io \<Rightarrow> bool" where
  "overflows xs out r \<longleftrightarrow> (\<exists>m d. dec_in d \<noteq> None \<and>
     r = Thrown ''error occurred in compress_stream_kernel_1::decompress'' ((put_bytes (take (room out) xs) out, m), d))"

context symbol_coding
begin

lemma byte_step:
  assumes "in_sync m n" "256 < alphabet"
  shows "\<exists>ops m' n'. list_all valid_call ops \<and> performs enc_encode ops (past (encode (ucast (b :: byte)))) (s, m) () (s, m') \<and>
    (\<forall>t :: 't. follows ahead ops (past decode) (t, n) (ucast b) (t, n')) \<and> in_sync m' n'"
proof -
  have "unat (ucast b :: 64 word) < alphabet" using byte_symbol(1) [of b] assms(2) by linarith
  from in_step [OF assms(1) this] show ?thesis by (metis performs_past follows_past)
qed

lemma checksum_step:
  assumes "in_sync m n" "256 < alphabet" "small v"
  shows "\<exists>ops m' n'. list_all valid_call ops \<and> performs enc_encode ops (write_checksum encode v) (s, m) () (s, m') \<and>
    (\<forall>t :: 't. follows ahead ops (check_checksum decode v) (t, n) () (t, n')) \<and> in_sync m' n'"
proof -
  let ?b = "\<lambda>n. ucast (drop_bit n v AND 0xFF) :: byte"
  obtain o1 m1 n1 where 1: "list_all valid_call o1" "performs enc_encode o1 (past (encode (ucast (?b 24)))) (s, m) () (s, m1)"
    "\<And>t :: 't. follows ahead o1 (past decode) (t, n) (ucast (?b 24)) (t, n1)" "in_sync m1 n1" using byte_step [OF assms(1,2), of "?b 24" s, where 't = 't] by blast
  obtain o2 m2 n2 where 2: "list_all valid_call o2" "performs enc_encode o2 (past (encode (ucast (?b 16)))) (s, m1) () (s, m2)"
    "\<And>t :: 't. follows ahead o2 (past decode) (t, n1) (ucast (?b 16)) (t, n2)" "in_sync m2 n2" using byte_step [OF 1(4) assms(2), of "?b 16" s, where 't = 't] by blast
  obtain o3 m3 n3 where 3: "list_all valid_call o3" "performs enc_encode o3 (past (encode (ucast (?b 8)))) (s, m2) () (s, m3)"
    "\<And>t :: 't. follows ahead o3 (past decode) (t, n2) (ucast (?b 8)) (t, n3)" "in_sync m3 n3" using byte_step [OF 2(4) assms(2), of "?b 8" s, where 't = 't] by blast
  obtain o4 m4 n4 where 4: "list_all valid_call o4" "performs enc_encode o4 (past (encode (ucast (?b 0)))) (s, m3) () (s, m4)"
    "\<And>t :: 't. follows ahead o4 (past decode) (t, n3) (ucast (?b 0)) (t, n4)" "in_sync m4 n4" using byte_step [OF 3(4) assms(2), of "?b 0" s, where 't = 't] by blast
  have bb: "ucast (ucast b :: 64 word) = b" for b :: byte by (rule bit_word_eqI) (auto simp: bit_simps)
  have w: "performs enc_encode (o1 @ o2 @ o3 @ o4) (write_checksum encode v) (s, m) () (s, m4)"
    unfolding write_checksum_def
    by (rule performs_bind, rule 1, rule performs_bind, rule 2, rule performs_bind, rule 3) (use 4 in simp)
  have c: "follows ahead (o1 @ o2 @ o3 @ o4 @ []) (check_checksum decode v) (t, n) () (t, n4)" for t :: 't
    unfolding check_checksum_def Let_def
    by (rule follows_bind, rule 1, rule follows_bind, rule 2, rule follows_bind, rule 3, rule follows_bind, rule 4)
      (simp only: bb checksum_bytes [OF assms(3)], simp add: follows_Returned)
  from w c 1(1) 2(1) 3(1) 4(1,4) show ?thesis by (metis append_Nil2 list_all_append)
qed

lemma loops:
  assumes "in_sync m n" "256 < alphabet" "small (checksum crc)"
  shows "\<exists>ops m' n'. list_all valid_call ops \<and>
    performs enc_encode ops (compress_loop enc_encode encode cnt crc) (i, m) () (i\<lparr>source := []\<rparr>, m') \<and>
    (\<forall>out. length (source i) \<le> room out \<longrightarrow> follows ahead ops
      (decompress_loop dec_get_target dec_decode decode cnt crc) (out, n) () (put_bytes (source i) out, n')) \<and>
    (\<forall>out d rest. room out < length (source i) \<longrightarrow> ahead d (ops @ rest) \<longrightarrow>
      overflows (source i) out (decompress_loop dec_get_target dec_decode decode cnt crc ((out, n), d)))"
  using assms
proof (induction "source i" arbitrary: i m n cnt crc)
  case Nil
  have "unat eof_symbol < alphabet" using assms(2) by (simp add: eof_symbol_def)
  from in_step [OF Nil.prems(1) this] obtain o1 m1 n1 where 1: "list_all valid_call o1"
    "performs enc_encode o1 (encode eof_symbol) m () m1" "follows ahead o1 decode n eof_symbol n1" "in_sync m1 n1" by blast
  obtain o2 m2 n2 where 2: "list_all valid_call o2"
    "performs enc_encode o2 (write_checksum encode (get_checksum crc)) (i, m1) () (i, m2)"
    "\<And>out :: ostream. follows ahead o2 (check_checksum decode (get_checksum crc)) (out, n1) () (out, n2)"
    using checksum_step [OF 1(4) assms(2) small_get_checksum [OF Nil.prems(3)], of i, where 't = ostream] by blast
  have i: "i\<lparr>source := []\<rparr> = i" using Nil.hyps by simp
  have "performs enc_encode (mark_calls cnt @ o1 @ o2) (compress_loop enc_encode encode cnt crc) (i, m) () (i, m2)"
    unfolding compress_loop_eq [of _ _ cnt crc]
  proof (rule performs_bind [OF performs_mark], rule performs_pure)
    show "next_byte (i, m) = Some (None, (i, m))" by (simp add: next_byte_eq flip: Nil.hyps)
    show "performs enc_encode (o1 @ o2) (case None of
         Some temp \<Rightarrow> bind_io (past (encode (ucast temp))) (\<lambda>_. compress_loop enc_encode encode (mark_next cnt) (crc_add temp crc))
       | None \<Rightarrow> bind_io (past (encode eof_symbol)) (\<lambda>_. write_checksum encode (get_checksum crc))) (i, m) () (i, m2)"
      unfolding option.case by (rule performs_bind [OF performs_past [OF 1(2)] 2(2)])
  qed
  moreover have "follows ahead (mark_calls cnt @ o1 @ o2) (decompress_loop dec_get_target dec_decode decode cnt crc) (out, n) () (out, n2)" for out
    unfolding decompress_loop_eq [of _ _ _ cnt crc]
    by (rule follows_bind [OF follows_mark], rule follows_bind [OF follows_past [OF 1(3)]]) (simp add: 2(3))
  ultimately show ?case unfolding i using 1(1) 2(1) mark_valid Nil.hyps [symmetric] by (intro exI [of _ "mark_calls cnt @ o1 @ o2"] exI [of _ m2] exI [of _ n2]) simp
next
  case (Cons b bs)
  let ?i = "i\<lparr>source := bs\<rparr>" and ?cnt = "mark_next cnt" and ?crc = "crc_add b crc"
  have "unat (ucast b :: 64 word) < alphabet" using byte_symbol(1) [of b] assms(2) by linarith
  from in_step [OF Cons.prems(1) this] obtain o1 m1 n1 where 1: "list_all valid_call o1"
    "performs enc_encode o1 (encode (ucast b)) m () m1" "follows ahead o1 decode n (ucast b) n1" "in_sync m1 n1" by blast
  have "bs = source ?i" "small (checksum ?crc)" using small_fold [OF Cons.prems(3), of "[b]"] by simp_all
  note ih = Cons.hyps(1) [OF this(1) 1(4) Cons.prems(2) this(2), of ?cnt]
  have si: "?i\<lparr>source := []\<rparr> = i\<lparr>source := []\<rparr>" "source ?i = bs" by simp_all
  from ih obtain o2 m2 n2 where 2: "list_all valid_call o2"
    "performs enc_encode o2 (compress_loop enc_encode encode ?cnt ?crc) (?i, m1) () (i\<lparr>source := []\<rparr>, m2)"
    "\<And>out. length bs \<le> room out \<Longrightarrow> follows ahead o2
      (decompress_loop dec_get_target dec_decode decode ?cnt ?crc) (out, n1) () (put_bytes bs out, n2)"
    "\<And>out d rest. room out < length bs \<Longrightarrow> ahead d (o2 @ rest) \<Longrightarrow>
      overflows bs out (decompress_loop dec_get_target dec_decode decode ?cnt ?crc ((out, n1), d))" unfolding si by blast
  let ?ops = "mark_calls cnt @ o1 @ o2"
  let ?rest = "\<lambda>symbol. if symbol \<noteq> eof_symbol
       then bind_io (write_symbol symbol) (\<lambda>_. decompress_loop dec_get_target dec_decode decode ?cnt (crc_add (ucast symbol) crc))
       else check_checksum decode (get_checksum crc)"
  have crc: "crc_add (ucast (ucast b :: 64 word)) crc = ?crc"
  proof -
    have "ucast (ucast b :: 64 word) = b" by (rule bit_word_eqI) (auto simp: bit_simps)
    then show ?thesis by simp
  qed
  have "performs enc_encode ?ops (compress_loop enc_encode encode cnt crc) (i, m) () (i\<lparr>source := []\<rparr>, m2)"
    unfolding compress_loop_eq [of _ _ cnt crc]
  proof (rule performs_bind [OF performs_mark], rule performs_pure)
    show "next_byte (i, m) = Some (Some b, (?i, m))" by (simp add: next_byte_eq flip: Cons.hyps(2))
    show "performs enc_encode (o1 @ o2) (case Some b of
         Some temp \<Rightarrow> bind_io (past (encode (ucast temp))) (\<lambda>_. compress_loop enc_encode encode ?cnt (crc_add temp crc))
       | None \<Rightarrow> bind_io (past (encode eof_symbol)) (\<lambda>_. write_checksum encode (get_checksum crc))) (?i, m) () (i\<lparr>source := []\<rparr>, m2)"
      unfolding option.case by (rule performs_bind [OF performs_past [OF 1(2)] 2(2)])
  qed
  moreover have "follows ahead ?ops (decompress_loop dec_get_target dec_decode decode cnt crc) (out, n) () (put_bytes (source i) out, n2)"
    if out: "length (source i) \<le> room out" for out
    unfolding decompress_loop_eq [of _ _ _ cnt crc]
  proof (rule follows_bind [OF follows_mark], rule follows_bind [OF follows_past [OF 1(3)]], rule follows_eqI)
    have r: "0 < room out" "length bs \<le> room (put_bytes [b] out)" using out by (simp_all flip: Cons.hyps(2))
    show "?rest (ucast b) ((out, n1), d) = decompress_loop dec_get_target dec_decode decode ?cnt ?crc ((put_bytes [b] out, n1), d)" for d
      by (simp add: write_symbol_byte(1) [OF r(1)] byte_symbol(2) crc)
    show "follows ahead o2 (decompress_loop dec_get_target dec_decode decode ?cnt ?crc) (put_bytes [b] out, n1) () (put_bytes (source i) out, n2)"
      using 2(3) [OF r(2)] by (simp flip: Cons.hyps(2))
  qed
  moreover have "overflows (source i) out (decompress_loop dec_get_target dec_decode decode cnt crc ((out, n), d))"
    if out: "room out < length (source i)" and d: "ahead d (?ops @ rest)" for out d rest
  proof -
    from d follows_mark [of cnt "(out, n)"] obtain d1 where d1: "check_mark dec_get_target dec_decode cnt ((out, n), d) = Returned ?cnt ((out, n), d1)"
      "ahead d1 (o1 @ o2 @ rest)" unfolding follows_def by (metis append_assoc)
    with follows_past [OF 1(3), of out] obtain d2 where d2: "past decode ((out, n), d1) = Returned (ucast b) ((out, n1), d2)" "ahead d2 (o2 @ rest)"
      unfolding follows_def by blast
    have run: "decompress_loop dec_get_target dec_decode decode cnt crc ((out, n), d) = bind_io (write_symbol (ucast b))
        (\<lambda>_. decompress_loop dec_get_target dec_decode decode ?cnt ?crc) ((out, n1), d2)"
      unfolding decompress_loop_eq [of _ _ _ cnt crc] by (simp add: d1(1) d2(1) byte_symbol(2) crc)
    show ?thesis
    proof (cases "room out = 0")
      case True
      have "dec_in d2 \<noteq> None" using d2(2) by (auto simp: ahead_def sees_def)
      with True show ?thesis unfolding run overflows_def by (simp add: write_symbol_byte(2) [OF True])
    next
      case False
      with out have less: "room (put_bytes [b] out) < length bs" by (simp flip: Cons.hyps(2))
      have "take (room out) (source i) = b # take (room out - 1) bs" using False by (simp flip: Cons.hyps(2) add: take_Cons')
      moreover have "0 < room out" using False by simp
      ultimately show ?thesis using 2(4) [OF less d2(2)] unfolding run overflows_def
        by (simp add: write_symbol_byte(1))
    qed
  qed
  ultimately show ?case using 1(1) 2(1) mark_valid
    by (intro exI [of _ ?ops] exI [of _ m2] exI [of _ n2]) simp
qed

end

section \<open>The streams\<close>

lemma enc_put_at: "enc_put b (enc_at lh out) =
  (if room out = 0 then Thrown ''error occured in the entropy_encoder object'' (enc_at lh out)
   else Returned () (enc_at lh (put_bytes [b] out)))"
  by (cases "room out") (simp_all add: enc_put_def enc_at_def sputn_def put_bytes_def Let_def)

lemma destroy_at: "enc_destroy (enc_at lh out) = Some (Some (put_bytes (take (room out) (flush_bytes lh)) out))"
proof -
  consider "room out = 0" | "room out = 1" | "room out = 2" | "room out = 3" | "4 \<le> room out" by linarith
  then show ?thesis
    by cases (simp_all add: enc_destroy_def enc_flush_def flush_bytes_def bind_io.simps enc_put_at eval_nat_numeral)
qed

definition keeps_stream :: "('a, entropy_encoder) io \<Rightarrow> bool" where
  "keeps_stream r \<longleftrightarrow> (case r of Returned _ s \<Rightarrow> enc_out s \<noteq> None | Thrown _ s \<Rightarrow> enc_out s \<noteq> None | Undef \<Rightarrow> True)"

lemma keeps_stream_simps [simp]:
  "keeps_stream (Returned x s) \<longleftrightarrow> enc_out s \<noteq> None" "keeps_stream (Thrown e s) \<longleftrightarrow> enc_out s \<noteq> None" "keeps_stream Undef"
  by (simp_all add: keeps_stream_def)

lemma keeps_bind:
  "keeps_stream (m s) \<Longrightarrow> (\<And>x s'. enc_out s' \<noteq> None \<Longrightarrow> keeps_stream (f x s')) \<Longrightarrow> keeps_stream (bind_io m f s)"
  by (cases "m s") simp_all

lemma keeps_put: "keeps_stream (enc_put b s)"
  by (auto simp: keeps_stream_def enc_put_def Let_def split: io.splits option.splits prod.splits)

lemma keeps_loop: "enc_out s \<noteq> None \<Longrightarrow> keeps_stream (enc_loop n s)"
proof (induction n arbitrary: s)
  case (Suc n)
  have r: "enc_out (set_range lh s) \<noteq> None" for lh using Suc.prems by (simp add: set_range_def split: prod.split)
  show ?case using Suc.prems by (auto simp: Let_def intro!: keeps_bind keeps_put Suc.IH r)
qed (simp add: keeps_stream_def)

lemma keeps_calls: "enc_out s \<noteq> None \<Longrightarrow> keeps_stream (run_calls enc_encode ops s)"
proof (induction ops arbitrary: s)
  case Nil
  then show ?case by (simp add: keeps_stream_def)
next
  case (Cons op ops)
  obtain l h t where op: "op = (l, h, t)" by (cases op)
  have "keeps_stream (enc_encode l h t s)"
  proof (cases "t = 0")
    case False
    with Cons.prems show ?thesis by (simp add: enc_encode_def Let_def set_range_def keeps_loop)
  qed (simp add: enc_encode_def keeps_stream_def)
  then show ?case unfolding op run_calls.simps by (rule keeps_bind) (rule Cons.IH)
qed

lemma destroy_any: "enc_out c \<noteq> None \<Longrightarrow> \<exists>out. enc_destroy c = Some (Some out)"
proof -
  assume "enc_out c \<noteq> None"
  then obtain out where "c = enc_at (enc_range c) out" by (cases c) (auto simp: enc_at_def)
  then show ?thesis using destroy_at [of "enc_range c" out] by metis
qed

context symbol_coding
begin

lemma stream_coding:
  assumes "in_sync m n" "256 < alphabet"
  shows "\<exists>bs fl. length fl = 4 \<and>
    (\<forall>out. if length bs \<le> room out
       then compress encode m (\<lparr>source = xs, in_bad = bad\<rparr>, out) =
         Returned () (\<lparr>source = [], in_bad = bad\<rparr>, put_bytes (take (room out) (bs @ fl)) out)
       else throws (compress encode m (\<lparr>source = xs, in_bad = bad\<rparr>, out))) \<and>
    (\<forall>rest ch out. if length xs \<le> room out
       then \<exists>i. decompress decode n ch (holding (bs @ fl @ rest), out) = Returned () (i, put_bytes xs out)
       else \<exists>i. decompress decode n ch (holding (bs @ fl @ rest), out) =
         Thrown ''error occurred in compress_stream_kernel_1::decompress'' (i, put_bytes (take (room out) xs) out))"
proof -
  let ?in = "\<lparr>source = xs, in_bad = bad\<rparr>" and ?lh = "(initial_low, initial_high)"
  let ?dec = "decompress_loop dec_get_target dec_decode decode 0 crc32_init"
  have si: "source ?in = xs" "?in\<lparr>source := []\<rparr> = \<lparr>source = [], in_bad = bad\<rparr>" by simp_all
  from loops [OF assms init_small, of 0 ?in] obtain ops m' n' where ops: "list_all valid_call ops"
    "performs enc_encode ops (compress_loop enc_encode encode 0 crc32_init) (?in, m) () (\<lparr>source = [], in_bad = bad\<rparr>, m')"
    "\<And>out. length xs \<le> room out \<Longrightarrow> follows ahead ops ?dec (out, n) () (put_bytes xs out, n')"
    "\<And>out d rest. room out < length xs \<Longrightarrow> ahead d (ops @ rest) \<Longrightarrow> overflows xs out (?dec ((out, n), d))" unfolding si by blast
  from calls_coded [OF ops(1)] obtain bs lh where bs: "enc_emits (run_calls enc_encode ops) ?lh bs () lh"
    "\<And>ch d rest. ahead (dec_set_stream ch (holding (bs @ flush_bytes lh @ rest)) d) (ops @ [])" by auto
  have set: "enc_set_stream out entropy_encoder_init = Returned None (enc_at ?lh out)" for out
    by (simp add: enc_set_stream_def entropy_encoder_init_def enc_at_def bind_io.simps)
  have enc: "if length bs \<le> room out
       then compress encode m (?in, out) =
         Returned () (\<lparr>source = [], in_bad = bad\<rparr>, put_bytes (take (room out) (bs @ flush_bytes lh)) out)
       else throws (compress encode m (?in, out))" for out
  proof (cases "length bs \<le> room out")
    case True
    from performsD(1) [OF ops(2) enc_emitsD(1) [OF bs(1) True]] have
      "compress_loop enc_encode encode 0 crc32_init ((?in, m), enc_at ?lh out) =
        Returned () ((\<lparr>source = [], in_bad = bad\<rparr>, m'), enc_at lh (put_bytes bs out))"
      .
    with True show ?thesis by (simp add: compress_def set destroy_coder_def destroy_at)
  next
    case False
    then have "throws (run_calls enc_encode ops (enc_at ?lh out))" using enc_emitsD(2) [OF bs(1)] by simp
    then obtain e c where c: "run_calls enc_encode ops (enc_at ?lh out) = Thrown e c" unfolding throws_def by blast
    from performsD(2) [OF ops(2) c] obtain w where w: "compress_loop enc_encode encode 0 crc32_init ((?in, m), enc_at ?lh out) = Thrown e (w, c)"
      by blast
    from keeps_calls [of "enc_at ?lh out" ops] c destroy_any [of c] obtain out' where "enc_destroy c = Some (Some out')"
      by (auto simp: keeps_stream_def)
    with False w show ?thesis by (cases w) (simp add: compress_def set destroy_coder_def)
  qed
  have dec: "if length xs \<le> room out
       then \<exists>i. decompress decode n ch (holding (bs @ flush_bytes lh @ rest), out) = Returned () (i, put_bytes xs out)
       else \<exists>i. decompress decode n ch (holding (bs @ flush_bytes lh @ rest), out) =
         Thrown ''error occurred in compress_stream_kernel_1::decompress'' (i, put_bytes (take (room out) xs) out)" for rest ch out
  proof (cases "length xs \<le> room out")
    case True
    from ops(3) [OF True] bs(2) [of ch rest entropy_decoder_init] obtain d where
      "?dec ((out, n), dec_set_stream ch (holding (bs @ flush_bytes lh @ rest)) entropy_decoder_init) =
        Returned () ((put_bytes xs out, n'), d)" "ahead d []" unfolding follows_def by blast
    moreover from this(2) obtain i where "dec_in d = Some i" by (auto simp: ahead_def sees_def)
    ultimately show ?thesis using True by (simp add: decompress_def forget_decoder_def)
  next
    case False
    then have "overflows xs out (?dec ((out, n), dec_set_stream ch (holding (bs @ flush_bytes lh @ rest)) entropy_decoder_init))"
      by (intro ops(4) [OF _ bs(2)]) simp
    with False show ?thesis by (auto simp: overflows_def decompress_def forget_decoder_def)
  qed
  have "length (flush_bytes lh) = 4" by (simp add: flush_bytes_def)
  with enc dec show ?thesis by blast
qed

end

section \<open>The models of order n\<close>

definition ppm_sync :: "ppm_size \<Rightarrow> ppm \<Rightarrow> ppm \<Rightarrow> bool" where
  "ppm_sync k m n \<longleftrightarrow> sized k \<and> settled k m \<and> settled k n \<and> same_model m n"

interpretation ppm: symbol_coding "ppm_encode enc_encode k" "ppm_decode dec_get_target dec_decode k" "ppm_sync k" "alphabet_size k" for k
proof unfold_locales
  fix m n and item :: "64 word"
  assume "ppm_sync k m n" "unat item < alphabet_size k"
  with range_decoder.symbol_lockstep [of k m n item enc_encode]
  show "\<exists>ops m' n'. list_all valid_call ops \<and> performs enc_encode ops (ppm_encode enc_encode k item) m () m' \<and>
    follows ahead ops (ppm_decode dec_get_target dec_decode k) n item n' \<and> ppm_sync k m' n'"
    unfolding ppm_sync_def by blast
qed

text \<open>The sizes of the kernels 5a, 5b and 5c over the bytes and the end marker.\<close>

definition kernel_5a :: ppm_size where "kernel_5a = \<lparr>alphabet_size = 257, total_nodes = 200000, order = 4\<rparr>"
definition kernel_5b :: ppm_size where "kernel_5b = \<lparr>alphabet_size = 257, total_nodes = 1000000, order = 5\<rparr>"
definition kernel_5c :: ppm_size where "kernel_5c = \<lparr>alphabet_size = 257, total_nodes = 2500000, order = 7\<rparr>"

definition compress_ppm :: "ppm_size \<Rightarrow> (nat \<Rightarrow> ppm_node) \<Rightarrow> 64 word list \<Rightarrow> istream \<times> ostream \<Rightarrow> (unit, istream \<times> ostream) io" where
  "compress_ppm k memory junk = compress (ppm_encode enc_encode k) (ppm_init k memory junk)"

definition decompress_ppm ::
  "ppm_size \<Rightarrow> (nat \<Rightarrow> ppm_node) \<Rightarrow> 64 word list \<Rightarrow> byte \<Rightarrow> istream \<times> ostream \<Rightarrow> (unit, istream \<times> ostream) io" where
  "decompress_ppm k memory junk ch = decompress (ppm_decode dec_get_target dec_decode k) (ppm_init k memory junk) ch"

lemma ppm_init_sync: "sized k \<Longrightarrow> ppm_sync k (ppm_init k memory junk) (ppm_init k memory junk')"
  using settled_init by (simp add: ppm_sync_def same_model_def ppm_init_def clear_exclusions_def on_node_def)

section \<open>Properties\<close>

text \<open>
  C18. The compressor with a model of order n over 257 symbols: it writes some bytes and the four bytes of the range, or throws when the
  stream has no room for the former; if there is room for these but not for the last four, it returns, and the end
  is missing. The decompressor on the whole of them, whatever follows, writes the bytes that were compressed, or throws when
  the stream is full. The arrays of nodes of both hold the same before.
\<close>

theorem compress_round_trip:
  assumes "sized k" "alphabet_size k = 257"
  shows "\<exists>bs fl. length fl = 4 \<and>
    (\<forall>out. if length bs \<le> room out
       then compress_ppm k memory junk (\<lparr>source = xs, in_bad = bad\<rparr>, out) =
         Returned () (\<lparr>source = [], in_bad = bad\<rparr>, put_bytes (take (room out) (bs @ fl)) out)
       else throws (compress_ppm k memory junk (\<lparr>source = xs, in_bad = bad\<rparr>, out))) \<and>
    (\<forall>rest ch out. if length xs \<le> room out
       then \<exists>i. decompress_ppm k memory junk' ch (holding (bs @ fl @ rest), out) = Returned () (i, put_bytes xs out)
       else \<exists>i. decompress_ppm k memory junk' ch (holding (bs @ fl @ rest), out) =
         Thrown ''error occurred in compress_stream_kernel_1::decompress'' (i, put_bytes (take (room out) xs) out))"
proof -
  from ppm.stream_coding [OF ppm_init_sync [OF assms(1), of memory junk junk'], of xs bad] assms(2) show ?thesis
    unfolding compress_ppm_def decompress_ppm_def by simp
qed

theorem compress_round_trip_witness:
  "\<forall>memory junk junk'. \<exists>bs fl. length fl = 4 \<and>
    (\<forall>out. if length bs \<le> room out
       then compress_ppm kernel_5a memory junk (\<lparr>source = [65, 66], in_bad = False\<rparr>, out) =
         Returned () (\<lparr>source = [], in_bad = False\<rparr>, put_bytes (take (room out) (bs @ fl)) out)
       else throws (compress_ppm kernel_5a memory junk (\<lparr>source = [65, 66], in_bad = False\<rparr>, out))) \<and>
    (\<forall>rest ch out. if length [65, 66 :: byte] \<le> room out
       then \<exists>i. decompress_ppm kernel_5a memory junk' ch (holding (bs @ fl @ rest), out) = Returned () (i, put_bytes [65, 66] out)
       else \<exists>i. decompress_ppm kernel_5a memory junk' ch (holding (bs @ fl @ rest), out) =
         Thrown ''error occurred in compress_stream_kernel_1::decompress'' (i, put_bytes (take (room out) [65, 66]) out))"
  by (intro allI, rule compress_round_trip) (simp_all add: sized_def kernel_5a_def)

end
