(* ===== verification/Frontal_Face.thy ===== *)
theory Frontal_Face
  imports Serialize_Detector Base64 Compress_Stream
begin

text \<open>
  \<open>image_processing/frontal_face_detector.h\<close>, which the constructor of the program's \<open>FaceDetected\<close> calls: the
  detector is stored in the code as a base64 text of the compressed bytes of a serialized object.
\<close>

section \<open>The detector in the code\<close>

text \<open>
  \<open>parts\<close> are the string literals, the data of the detector. \<open>inbuf\<close>, \<open>memory\<close>, \<open>junk\<close> and \<open>ch\<close> are what the memory holds
  that the coders use, and \<open>R\<close> is the number of characters that a string stream can take.
\<close>

definition string_stream :: "nat \<Rightarrow> ostream" where
  "string_stream R = \<lparr>sink = [], room = R, out_bad = False\<rparr>"

definition get_serialized_frontal_faces ::
  "byte list list \<Rightarrow> byte list \<Rightarrow> (nat \<Rightarrow> ppm_node) \<Rightarrow> 64 word list \<Rightarrow> byte \<Rightarrow> nat \<Rightarrow> (byte list, unit) io" where
  "get_serialized_frontal_faces parts inbuf memory junk ch R =
     (let sout = fold ostream_write parts (string_stream R)
      in case base64_decode base64_init inbuf (holding (sink sout)) (string_stream R) of
           Returned i sout \<Rightarrow>
             (case decompress_ppm kernel_5a memory junk ch (holding (sink sout), string_stream R) of
                Returned u (i, sout) \<Rightarrow> Returned (sink sout) ()
              | Thrown e s \<Rightarrow> Thrown e ()
              | Undef \<Rightarrow> Undef)
         | Thrown e s \<Rightarrow> Thrown e ()
         | Undef \<Rightarrow> Undef)"

definition get_frontal_face_detector ::
  "(istream \<Rightarrow> istream \<times> floating) \<Rightarrow> (istream \<Rightarrow> ('sc, istream) io) \<Rightarrow> byte list list \<Rightarrow> byte list \<Rightarrow> (nat \<Rightarrow> ppm_node) \<Rightarrow>
     64 word list \<Rightarrow> byte \<Rightarrow> nat \<Rightarrow> ('sc object_detector, unit) io" where
  "get_frontal_face_detector extract des_sc parts inbuf memory junk ch R =
     (case get_serialized_frontal_faces parts inbuf memory junk ch R of
        Returned s u \<Rightarrow>
          (case deserialize_object_detector extract des_sc (holding s) of
             Returned detector i \<Rightarrow> Returned detector ()
           | Thrown e i \<Rightarrow> Thrown e ()
           | Undef \<Rightarrow> Undef)
      | Thrown e u \<Rightarrow> Thrown e ()
      | Undef \<Rightarrow> Undef)"

section \<open>Properties\<close>

text \<open>A text in lines of \<open>Suc k\<close> characters, as the literals are.\<close>

fun in_lines :: "nat \<Rightarrow> 'a list \<Rightarrow> 'a list list" where
  "in_lines k [] = []"
| "in_lines k (x # xs) = (x # take k xs) # in_lines k (drop k xs)"

lemma concat_in_lines: "concat (in_lines k xs) = xs"
  by (induction k xs rule: in_lines.induct) simp_all

lemma stream_parts:
  "\<not> out_bad out \<Longrightarrow> length (concat parts) \<le> room out \<Longrightarrow> fold ostream_write parts out = put_bytes (concat parts) out"
proof (induction parts arbitrary: out)
  case (Cons p parts)
  then show ?case by (simp add: ostream_write_fits put_bytes_def)
qed simp

text \<open>The two streams of the compressor.\<close>

lemma kernel_1ea_codes:
  "\<exists>zs. (\<forall>n. compress_ppm kernel_5a memory junk (holding bs, string_stream (length zs + n)) =
      Returned () (holding [], put_bytes zs (string_stream (length zs + n)))) \<and>
    (\<forall>ch R. length bs \<le> R \<longrightarrow> (\<exists>i. decompress_ppm kernel_5a memory junk' ch (holding zs, string_stream R) =
      Returned () (i, put_bytes bs (string_stream R))))"
proof -
  have "ppm_sync kernel_5a (ppm_init kernel_5a memory junk) (ppm_init kernel_5a memory junk')"
    by (rule ppm_init_sync) (simp add: sized_def kernel_5a_def)
  moreover have "256 < alphabet_size kernel_5a" by (simp add: kernel_5a_def)
  ultimately obtain cs fl where raw:
    "\<forall>out. if length cs \<le> room out
       then compress_ppm kernel_5a memory junk (holding bs, out) = Returned () (holding [], put_bytes (take (room out) (cs @ fl)) out)
       else throws (compress_ppm kernel_5a memory junk (holding bs, out))"
    "\<forall>rest ch out. if length bs \<le> room out
       then \<exists>i. decompress_ppm kernel_5a memory junk' ch (holding (cs @ fl @ rest), out) = Returned () (i, put_bytes bs out)
       else \<exists>i. decompress_ppm kernel_5a memory junk' ch (holding (cs @ fl @ rest), out) =
         Thrown ''error occurred in compress_stream_kernel_1::decompress'' (i, put_bytes (take (room out) bs) out)"
    using ppm.stream_coding [of kernel_5a _ _ bs False] unfolding compress_ppm_def decompress_ppm_def by blast
  have z: "length cs \<le> room out \<Longrightarrow> compress_ppm kernel_5a memory junk (holding bs, out) =
       Returned () (holding [], put_bytes (take (room out) (cs @ fl)) out)"
    "length bs \<le> room out \<Longrightarrow> \<exists>i. decompress_ppm kernel_5a memory junk' ch (holding (cs @ fl @ rest), out) = Returned () (i, put_bytes bs out)"
    for rest ch out using raw(1) [rule_format, of out] raw(2) [rule_format, of out ch rest] by simp_all
  define zs where "zs = cs @ fl"
  have "compress_ppm kernel_5a memory junk (holding bs, string_stream (length zs + n)) =
      Returned () (holding [], put_bytes zs (string_stream (length zs + n)))" for n
    using z(1) [of "string_stream (length zs + n)"] by (simp add: string_stream_def zs_def)
  moreover have "\<exists>i. decompress_ppm kernel_5a memory junk' ch (holding zs, string_stream R) =
      Returned () (i, put_bytes bs (string_stream R))" if "length bs \<le> R" for ch R
    using z(2) [of "string_stream R" ch "[]"] that by (simp add: string_stream_def zs_def)
  ultimately show ?thesis by blast
qed

text \<open>
  C17. The detector in the code: a detector that is serialized, compressed with \<open>kernel_1ea\<close> and written in base64, the text
  cut into lines as string literals, is the detector that \<open>get_frontal_face_detector\<close> returns, if the string streams can take the three
  texts. The scanner of the detector is one that can be saved, and the arrays of nodes of compressor and
  decompressor hold the same before.
\<close>

theorem frontal_face_detector_loads:
  assumes "checked_serializer ser_sc des_sc code_sc valid_sc" "consumes extract"
    and "d = this\<lparr>scanner := sc_copy_configuration sc (sc_default sc) (scanner this)\<rparr>" "saveable_detector valid_sc d"
    and "length inbuf = 4"
  shows "\<exists>bs zs chars. writes (serialize_object_detector sc ser_sc this) bs \<and>
    (\<forall>n. compress_ppm kernel_5a memory junk (holding bs, string_stream (length zs + n)) =
      Returned () (holding [], put_bytes zs (string_stream (length zs + n)))) \<and>
    emits (base64_encode base64_init (holding zs)) chars (holding []) \<and>
    (\<forall>k ch n. get_frontal_face_detector extract des_sc (in_lines k chars) inbuf memory junk' ch
      (length chars + length zs + length bs + n) = Returned d ())"
proof -
  from detector_travels [OF assms(1-4)] obtain bs where bs: "writes (serialize_object_detector sc ser_sc this) bs"
    "reads (deserialize_object_detector extract des_sc) bs d" by blast
  from kernel_1ea_codes [of memory junk bs junk'] obtain zs where z:
    "\<And>n. compress_ppm kernel_5a memory junk (holding bs, string_stream (length zs + n)) =
       Returned () (holding [], put_bytes zs (string_stream (length zs + n)))"
    "\<And>ch R. length bs \<le> R \<Longrightarrow> \<exists>i. decompress_ppm kernel_5a memory junk' ch (holding zs, string_stream R) =
       Returned () (i, put_bytes bs (string_stream R))" by blast
  define chars where "chars = base64_text LF 19 zs"
  have init: "set_line_ending base64_init LF = base64_init" by (simp add: set_line_ending_def base64_init_def)
  have e: "emits (base64_encode base64_init (holding zs)) chars (holding [])"
    using emits_base64_encode [of LF zs] by (simp add: init chars_def)
  have d: "emits (base64_decode base64_init inbuf (holding chars)) zs (holding [])"
    using emits_base64_decode [OF standard_init [of LF] assms(5), of LF zs] by (simp add: init chars_def)
  have "get_frontal_face_detector extract des_sc (in_lines k chars) inbuf memory junk' ch (length chars + length zs + length bs + n) = Returned d ()"
    (is "get_frontal_face_detector extract des_sc _ inbuf memory junk' ch ?R = _") for k ch n
  proof -
    have "sink (fold ostream_write (in_lines k chars) (string_stream ?R)) = chars"
      by (subst stream_parts) (simp_all add: string_stream_def concat_in_lines)
    moreover have "base64_decode base64_init inbuf (holding chars) (string_stream ?R) = Returned (holding []) (put_bytes zs (string_stream ?R))"
      by (rule emitsD(1) [OF d]) (simp add: string_stream_def)
    moreover obtain i where "decompress_ppm kernel_5a memory junk' ch (holding zs, string_stream ?R) = Returned () (i, put_bytes bs (string_stream ?R))"
      using z(2) [of ?R ch] by auto
    ultimately have "get_serialized_frontal_faces (in_lines k chars) inbuf memory junk' ch ?R = Returned bs ()"
      by (simp add: get_serialized_frontal_faces_def) (simp add: string_stream_def)
    then show ?thesis using readsD(1) [OF bs(2), of "[]"] by (simp add: get_frontal_face_detector_def)
  qed
  then show ?thesis using bs(1) e z(1) by blast
qed

theorem frontal_face_detector_loads_witness:
  "\<forall>memory junk junk'. \<exists>bs zs chars. writes (serialize_object_detector example_scanner serialize_bool
        \<lparr>overlap_tester = \<lparr>iou_thresh = 1 / 2, percent_covered_thresh = 1\<rparr>, weights = [[3 / 4, - 2], [1]], scanner = True\<rparr>) bs \<and>
    (\<forall>n. compress_ppm kernel_5a memory junk (holding bs, string_stream (length zs + n)) =
      Returned () (holding [], put_bytes zs (string_stream (length zs + n)))) \<and>
    emits (base64_encode base64_init (holding zs)) chars (holding []) \<and>
    (\<forall>k ch n. get_frontal_face_detector (\<lambda>i. (i, Not_A_Number)) deserialize_bool (in_lines k chars) [0, 0, 0, 0] memory junk' ch
      (length chars + length zs + length bs + n) =
       Returned \<lparr>overlap_tester = \<lparr>iou_thresh = 1 / 2, percent_covered_thresh = 1\<rparr>, weights = [[3 / 4, - 2], [1]], scanner = True\<rparr> ())"
  by (intro allI, rule frontal_face_detector_loads [OF serialize_bool_laws])
    (use example_doubles in \<open>simp_all add: consumes_def saveable_detector_def valid_test_box_overlap_def example_scanner_def\<close>)

end
