(* ===== verification/Conditioning_Class.thy ===== *)
theory Conditioning_Class
  imports Prelude
begin

text \<open>
  The counts of the symbols of one context: what the implementations of \<open>increment_count\<close> do, as a function on the
  counts, and what the documentation \<open>conditioning_class/conditioning_class_kernel_abstract.h\<close> says of it, the contract of an
  implementation as the locale \<open>conditioning\<close>, and the first implementation, \<open>conditioning_class_kernel_1.h\<close>.
\<close>

section \<open>The specification\<close>

text \<open>
  \<open>f x\<close> is the count of the symbol \<open>x\<close>. When the total would leave the 16 bits, every count is halved first, but the last symbol of
  the alphabet keeps a last count; then \<open>amount\<close> is added to the symbol that is counted.
\<close>

definition scaled_count :: "nat \<Rightarrow> (nat \<Rightarrow> nat) \<Rightarrow> nat \<Rightarrow> nat" where
  "scaled_count A f y = (if y = A - 1 \<and> f y = 1 then 1 else f y div 2)"

definition incremented :: "nat \<Rightarrow> nat \<Rightarrow> nat \<Rightarrow> (nat \<Rightarrow> nat) \<Rightarrow> nat \<Rightarrow> nat" where
  "incremented A x amount f =
     (let g = (if (\<Sum>y<A. f y) + amount < 65536 then f else scaled_count A f) in g(x := g x + amount))"

text \<open>
  What the documentation ensures when it counts a symbol. If that symbol is the last one and the counts are halved, its two
  clauses about the last symbol give it a new count without the amount, against the clause about the symbol that is counted;
  they are taken to speak of the last symbol only when another one is counted.
\<close>

definition documented :: "nat \<Rightarrow> nat \<Rightarrow> nat \<Rightarrow> (nat \<Rightarrow> nat) \<Rightarrow> (nat \<Rightarrow> nat) \<Rightarrow> bool" where
  "documented A x amount f g \<longleftrightarrow>
     (if (\<Sum>y<A. f y) + amount < 65536 then g x = f x + amount
      else g x = f x div 2 + amount \<and>
        (x \<noteq> A - 1 \<longrightarrow> (if f (A - 1) = 1 then g (A - 1) = 1 else g (A - 1) = f (A - 1) div 2)) \<and>
        (\<forall>y<A. y \<noteq> x \<and> y \<noteq> A - 1 \<longrightarrow> g y = f y div 2))"

text \<open>
  There the implementations differ from it in one case: the last symbol with the count 1 keeps the one and has the amount added,
  where the documentation gives the amount alone (or, by the other clause, 1).
\<close>

definition last_kept :: "nat \<Rightarrow> nat \<Rightarrow> nat \<Rightarrow> (nat \<Rightarrow> nat) \<Rightarrow> bool" where
  "last_kept A x amount f \<longleftrightarrow> x = A - 1 \<and> f x = 1 \<and> 65536 \<le> (\<Sum>y<A. f y) + amount"

lemma incremented_documented:
  assumes "x < A" "\<forall>y<A. g y = incremented A x amount f y"
  shows "if last_kept A x amount f then g x = 1 + amount else documented A x amount f g"
proof (cases "(\<Sum>y<A. f y) + amount < 65536")
  case True
  with assms show ?thesis by (simp add: documented_def last_kept_def incremented_def)
next
  case False
  then have inc: "incremented A x amount f = (scaled_count A f)(x := scaled_count A f x + amount)"
    by (simp add: incremented_def Let_def)
  have g: "g x = scaled_count A f x + amount" "\<And>y. y < A \<Longrightarrow> y \<noteq> x \<Longrightarrow> g y = scaled_count A f y"
    using assms by (simp_all add: inc)
  have last: "g (A - 1) = scaled_count A f (A - 1)" if "x \<noteq> A - 1" using assms(1) that by (intro g(2)) auto
  show ?thesis
    using False g last by (auto simp: documented_def last_kept_def scaled_count_def)
qed

definition first_counts :: "nat \<Rightarrow> nat \<Rightarrow> nat" where
  "first_counts A = (\<lambda>y. if y = A - 1 then 1 else 0)"

text \<open>
  \<open>get_range\<close> has three reference parameters, which keep their values when the count is 0: they are an argument and a part of
  the result. \<open>None\<close> stands for an access outside of the array.
\<close>

type_synonym ranges = "nat \<times> nat \<times> nat"

locale conditioning =
  fixes A :: nat
    and first :: 's
    and increment_count :: "nat \<Rightarrow> 16 word \<Rightarrow> 's \<Rightarrow> (bool \<times> 's) option"
    and get_total :: "'s \<Rightarrow> nat"
    and get_range :: "nat \<Rightarrow> ranges \<Rightarrow> 's \<Rightarrow> (nat \<times> ranges) option"
    and get_symbol :: "nat \<Rightarrow> 's \<Rightarrow> ranges option"
    and inv :: "'s \<Rightarrow> bool"
    and cnt :: "'s \<Rightarrow> nat \<Rightarrow> nat"
    and low :: "'s \<Rightarrow> nat \<Rightarrow> nat"
  assumes first: "2 \<le> A \<Longrightarrow> A < 65536 \<Longrightarrow> inv first" "2 \<le> A \<Longrightarrow> A < 65536 \<Longrightarrow> y < A \<Longrightarrow> cnt first y = first_counts A y"
    and size: "inv s \<Longrightarrow> 2 \<le> A"
    and total: "inv s \<Longrightarrow> get_total s = (\<Sum>y<A. cnt s y)" "inv s \<Longrightarrow> (\<Sum>y<A. cnt s y) < 65536"
    and escape: "inv s \<Longrightarrow> 0 < cnt s (A - 1)"
    and absent: "inv s \<Longrightarrow> x < A \<Longrightarrow> cnt s x = 0 \<Longrightarrow> get_range x r s = Some (0, r)"
    and present: "inv s \<Longrightarrow> x < A \<Longrightarrow> 0 < cnt s x \<Longrightarrow>
      get_range x r s = Some (cnt s x, low s x, low s x + cnt s x, (\<Sum>y<A. cnt s y))"
    and low: "inv s \<Longrightarrow> x < A \<Longrightarrow> 0 < cnt s x \<Longrightarrow> low s x + cnt s x \<le> (\<Sum>y<A. cnt s y)"
    and finds: "inv s \<Longrightarrow> x < A \<Longrightarrow> low s x \<le> target \<Longrightarrow> target < low s x + cnt s x \<Longrightarrow>
      get_symbol target s = Some (x, low s x, low s x + cnt s x)"
    and increment: "inv s \<Longrightarrow> x < A \<Longrightarrow> 0 < amount \<Longrightarrow> unat amount < 32768 \<Longrightarrow>
      \<exists>s'. increment_count x amount s = Some (True, s') \<and> inv s' \<and>
        (\<forall>y < A. cnt s' y = incremented A x (unat amount) (cnt s) y)"

text \<open>
  What a model of symbols needs of it, and what also holds of an implementation that may be out of memory: then
  \<open>increment_count\<close> returns \<open>false\<close>. Without a count the reference parameters may hold anything.
\<close>

locale coding_class =
  fixes A :: nat
    and increment_count :: "nat \<Rightarrow> 16 word \<Rightarrow> 's \<Rightarrow> (bool \<times> 's) option"
    and get_total :: "'s \<Rightarrow> nat"
    and get_range :: "nat \<Rightarrow> ranges \<Rightarrow> 's \<Rightarrow> (nat \<times> ranges) option"
    and get_symbol :: "nat \<Rightarrow> 's \<Rightarrow> ranges option"
    and inv :: "'s \<Rightarrow> bool"
    and cnt :: "'s \<Rightarrow> nat \<Rightarrow> nat"
    and low :: "'s \<Rightarrow> nat \<Rightarrow> nat"
  assumes coded_size: "inv s \<Longrightarrow> 2 \<le> A"
    and coded_total: "inv s \<Longrightarrow> get_total s < 65536"
    and coded_escape: "inv s \<Longrightarrow> 0 < cnt s (A - 1)"
    and coded_absent: "inv s \<Longrightarrow> x < A \<Longrightarrow> cnt s x = 0 \<Longrightarrow> \<exists>r'. get_range x r s = Some (0, r')"
    and coded_present: "inv s \<Longrightarrow> x < A \<Longrightarrow> 0 < cnt s x \<Longrightarrow>
      get_range x r s = Some (cnt s x, low s x, low s x + cnt s x, get_total s)"
    and coded_low: "inv s \<Longrightarrow> x < A \<Longrightarrow> 0 < cnt s x \<Longrightarrow> low s x + cnt s x \<le> get_total s"
    and coded_finds: "inv s \<Longrightarrow> x < A \<Longrightarrow> low s x \<le> target \<Longrightarrow> target < low s x + cnt s x \<Longrightarrow>
      get_symbol target s = Some (x, low s x, low s x + cnt s x)"
    and coded_increment: "inv s \<Longrightarrow> x < A \<Longrightarrow> 0 < amount \<Longrightarrow> unat amount < 32768 \<Longrightarrow>
      \<exists>b s'. increment_count x amount s = Some (b, s') \<and> inv s'"

sublocale conditioning \<subseteq> coding: coding_class A increment_count get_total get_range get_symbol inv cnt low
proof unfold_locales
  fix s x r and amount :: "16 word" assume i: "inv s"
  note t = total [OF i]
  show "2 \<le> A" "get_total s < 65536" "0 < cnt s (A - 1)" using size [OF i] t escape [OF i] by simp_all
  show "x < A \<Longrightarrow> cnt s x = 0 \<Longrightarrow> \<exists>r'. get_range x r s = Some (0, r')" using absent [OF i] by blast
  show "x < A \<Longrightarrow> 0 < cnt s x \<Longrightarrow> get_range x r s = Some (cnt s x, low s x, low s x + cnt s x, get_total s)"
    "x < A \<Longrightarrow> 0 < cnt s x \<Longrightarrow> low s x + cnt s x \<le> get_total s"
    using present [OF i] low [OF i] t by simp_all
  show "x < A \<Longrightarrow> 0 < amount \<Longrightarrow> unat amount < 32768 \<Longrightarrow> \<exists>b s'. increment_count x amount s = Some (b, s') \<and> inv s'"
    using increment [OF i] by blast
qed (rule finds)

lemma scaled_sum:
  assumes "2 \<le> A" "0 < f (A - 1)" "(\<Sum>y<A. f y) < 65536"
  shows "(\<Sum>y<A. scaled_count A f y) \<le> 32768"
proof -
  obtain B where A: "A = Suc B" using assms(1) by (cases A) simp_all
  have "(\<Sum>y<B. scaled_count A f y) = (\<Sum>y<B. f y div 2)" by (rule sum.cong) (simp_all add: scaled_count_def A)
  also have "2 * \<dots> \<le> (\<Sum>y<B. f y)" unfolding sum_distrib_left by (rule sum_mono) simp
  finally have "2 * (\<Sum>y<B. scaled_count A f y) \<le> (\<Sum>y<B. f y)" by simp
  moreover have "2 * scaled_count A f B \<le> f B + 1" unfolding scaled_count_def by (cases "f B = 1") auto
  ultimately show ?thesis using assms(3) unfolding A sum.lessThan_Suc by linarith
qed

lemma scaled_last: "0 < f (A - 1) \<Longrightarrow> 0 < scaled_count A f (A - 1)"
  by (simp add: scaled_count_def)

lemma sum_update:
  fixes x A a :: nat
  assumes x: "x < A"
  shows "(\<Sum>y<A. (g(x := g x + a)) y) = (\<Sum>y<A. g y) + a"
proof -
  have "(\<Sum>y<A. (g(x := g x + a)) y) = (\<Sum>y<A. g y + (if y = x then a else 0))" by (rule sum.cong) simp_all
  also have "\<dots> = (\<Sum>y<A. g y) + (\<Sum>y<A. if y = x then a else 0)" by (rule sum.distrib)
  also have "(\<Sum>y<A. if y = x then a else 0) = a" using x by (simp add: sum.delta)
  finally show ?thesis .
qed

lemma incremented_bounds:
  assumes "2 \<le> A" "x < A" "0 < f (A - 1)" "(\<Sum>y<A. f y) < 65536" "amount < 32768"
  shows "(\<Sum>y<A. incremented A x amount f y) < 65536" "0 < incremented A x amount f (A - 1)"
proof -
  from scaled_sum [OF assms(1,3,4)] assms(5) show "(\<Sum>y<A. incremented A x amount f y) < 65536"
    unfolding incremented_def Let_def sum_update [OF assms(2)] by simp
  show "0 < incremented A x amount f (A - 1)"
    using assms(3) scaled_last [of f A] by (auto simp: incremented_def Let_def)
qed

section \<open>The array of counts\<close>

record cc1 =
  cc1_total :: "16 word"
  cc1_counts :: "16 word list"

definition cc1_first :: "nat \<Rightarrow> cc1" where
  "cc1_first A = \<lparr>cc1_total = 1, cc1_counts = replicate (A - 1) 0 @ [1]\<rparr>"

definition cc1_clear :: "nat \<Rightarrow> cc1 \<Rightarrow> cc1" where
  "cc1_clear A s = s\<lparr>cc1_total := 1, cc1_counts := replicate (A - 1) 0 @ [1]\<rparr>"

text \<open>The shared state is the number of bytes allocated; the sizes are those of a 64-bit target.\<close>

definition cc1_bytes :: "nat \<Rightarrow> 64 word" where
  "cc1_bytes A = of_nat (2 * A + 24)"

definition cc1_construct :: "nat \<Rightarrow> 64 word \<Rightarrow> cc1 \<times> 64 word" where
  "cc1_construct A memory_usage = (cc1_first A, memory_usage + cc1_bytes A)"

definition cc1_destroy :: "nat \<Rightarrow> 64 word \<Rightarrow> 64 word" where
  "cc1_destroy A memory_usage = memory_usage - cc1_bytes A"

definition cc1_scale :: "nat \<Rightarrow> cc1 \<Rightarrow> cc1" where
  "cc1_scale A s =
     (let cs = map (drop_bit 1) (cc1_counts s); tot = foldl (+) 0 cs
      in if cs ! (A - 1) = 0 then s\<lparr>cc1_total := tot + 1, cc1_counts := cs[A - 1 := 1]\<rparr>
         else s\<lparr>cc1_total := tot, cc1_counts := cs\<rparr>)"

definition cc1_increment_count :: "nat \<Rightarrow> nat \<Rightarrow> 16 word \<Rightarrow> cc1 \<Rightarrow> (bool \<times> cc1) option" where
  "cc1_increment_count A symbol amount s =
     (let s = (if unat (cc1_total s) + unat amount \<ge> 65536 then cc1_scale A s else s) in
      if symbol < length (cc1_counts s)
      then Some (True, s\<lparr>cc1_counts := (cc1_counts s)[symbol := cc1_counts s ! symbol + amount], cc1_total := cc1_total s + amount\<rparr>)
      else None)"

definition cc1_get_count :: "nat \<Rightarrow> cc1 \<Rightarrow> nat option" where
  "cc1_get_count symbol s = (if symbol < length (cc1_counts s) then Some (unat (cc1_counts s ! symbol)) else None)"

definition cc1_get_total :: "cc1 \<Rightarrow> nat" where
  "cc1_get_total s = unat (cc1_total s)"

text \<open>The sum is an \<open>unsigned short\<close>; the difference is one of \<open>int\<close>, converted to \<open>unsigned long\<close>.\<close>

definition cc1_get_range :: "nat \<Rightarrow> ranges \<Rightarrow> cc1 \<Rightarrow> (nat \<times> ranges) option" where
  "cc1_get_range symbol r s =
     (if symbol < length (cc1_counts s)
      then let c = cc1_counts s ! symbol in
           if c = 0 then Some (0, r)
           else let high_count_temp = foldl (+) (cc1_counts s ! 0) (take symbol (tl (cc1_counts s)))
                in Some (unat c, nat (to_ulong (uint high_count_temp - uint c)), unat high_count_temp, unat (cc1_total s))
      else None)"

fun cc1_seek :: "nat \<Rightarrow> nat \<Rightarrow> nat \<Rightarrow> 16 word \<Rightarrow> 16 word list \<Rightarrow> ranges option" where
  "cc1_seek target start high_count_temp c cs =
     (if target \<ge> high_count_temp
      then case cs of [] \<Rightarrow> None | c' # cs' \<Rightarrow> cc1_seek target (start + 1) (high_count_temp + unat c') c' cs'
      else Some (start, high_count_temp - unat c, high_count_temp))"

declare cc1_seek.simps [simp del]

definition cc1_get_symbol :: "nat \<Rightarrow> cc1 \<Rightarrow> ranges option" where
  "cc1_get_symbol target s =
     (case cc1_counts s of [] \<Rightarrow> None | c # cs \<Rightarrow> cc1_seek target 0 (unat c) c cs)"

definition cc1_get_alphabet_size :: "nat \<Rightarrow> nat" where
  "cc1_get_alphabet_size A = A"

section \<open>The array implements the contract\<close>

definition cc1_cnt :: "cc1 \<Rightarrow> nat \<Rightarrow> nat" where
  "cc1_cnt s y = unat (cc1_counts s ! y)"

definition cc1_low :: "cc1 \<Rightarrow> nat \<Rightarrow> nat" where
  "cc1_low s x = (\<Sum>y<x. cc1_cnt s y)"

definition cc1_inv :: "nat \<Rightarrow> cc1 \<Rightarrow> bool" where
  "cc1_inv A s \<longleftrightarrow> 2 \<le> A \<and> length (cc1_counts s) = A \<and> unat (cc1_total s) = (\<Sum>y<A. cc1_cnt s y) \<and> 0 < cc1_cnt s (A - 1)"

lemma foldl_words:
  "unat (c :: 16 word) + (\<Sum>c\<leftarrow>cs. unat c) < 65536 \<Longrightarrow> unat (foldl (+) c cs) = unat c + (\<Sum>c\<leftarrow>cs. unat c)"
proof (induction cs arbitrary: c)
  case (Cons d cs)
  then have s: "unat (c + d) = unat c + unat d" by (simp add: unat_plus_if_size word_size)
  from Cons.IH [of "c + d"] Cons.prems show ?case by (simp add: s)
qed simp

lemma sum_words: "(\<Sum>c\<leftarrow>cs. unat (c :: 16 word)) = (\<Sum>y<length cs. unat (cs ! y))"
  by (simp add: sum_list_sum_nth atLeast0LessThan)

lemma cc1_total_less: "cc1_inv A s \<Longrightarrow> (\<Sum>y<A. cc1_cnt s y) < 65536"
  using unsigned_less [of "cc1_total s", where 'a = nat] by (simp add: cc1_inv_def)

lemma cc1_low_le: "x < A \<Longrightarrow> cc1_low s x + cc1_cnt s x \<le> (\<Sum>y<A. cc1_cnt s y)"
proof -
  assume "x < A"
  then have "(\<Sum>y<Suc x. cc1_cnt s y) \<le> (\<Sum>y<A. cc1_cnt s y)" by (intro sum_mono2) auto
  then show ?thesis by (simp add: cc1_low_def)
qed

lemma cc1_range:
  assumes "cc1_inv A s" "x < A"
  shows "cc1_get_range x r s = Some (if cc1_cnt s x = 0 then (0, r)
    else (cc1_cnt s x, cc1_low s x, cc1_low s x + cc1_cnt s x, (\<Sum>y<A. cc1_cnt s y)))"
proof -
  let ?cs = "cc1_counts s"
  from assms have len: "length ?cs = A" by (simp add: cc1_inv_def)
  with assms(2) obtain c cs where cs: "?cs = c # cs" by (cases ?cs) simp_all
  have t: "c # take x (tl ?cs) = take (Suc x) ?cs" by (simp add: cs)
  have "unat c + (\<Sum>c\<leftarrow>take x (tl ?cs). unat c) = (\<Sum>c\<leftarrow>take (Suc x) ?cs. unat c)" unfolding t [symmetric] by simp
  also have "\<dots> = (\<Sum>y<Suc x. cc1_cnt s y)" unfolding sum_words using assms(2) len by (simp add: cc1_cnt_def)
  finally have hs: "unat c + (\<Sum>c\<leftarrow>take x (tl ?cs). unat c) = cc1_low s x + cc1_cnt s x" by (simp add: cc1_low_def)
  have less: "cc1_low s x + cc1_cnt s x < 65536" using cc1_low_le [OF assms(2), of s] cc1_total_less [OF assms(1)] by linarith
  have h: "unat (foldl (+) (?cs ! 0) (take x (tl ?cs))) = cc1_low s x + cc1_cnt s x"
    using foldl_words [of c "take x (tl ?cs)"] hs less by (simp add: cs)
  have i: "uint w = int (unat w)" for w :: "16 word" by simp
  have "to_ulong (uint (foldl (+) (?cs ! 0) (take x (tl ?cs))) - uint (?cs ! x)) = int (cc1_low s x)"
    unfolding i h using less by (simp add: cc1_cnt_def)
  moreover have "?cs ! x = 0 \<longleftrightarrow> cc1_cnt s x = 0" by (simp add: cc1_cnt_def unat_eq_0)
  moreover have "x < length ?cs" using assms(2) len by simp
  ultimately show ?thesis
    using assms(1) h by (simp add: cc1_get_range_def Let_def cc1_inv_def cc1_cnt_def)
qed

lemma cc1_seek_finds:
  assumes "x < length cs" "(\<Sum>y<x. unat (cs ! y)) \<le> target" "target < (\<Sum>y<x. unat (cs ! y)) + unat (cs ! x)"
    "cs = c # cs'"
  shows "cc1_seek (b + target) start (b + unat c) c cs' = Some (start + x, b + (\<Sum>y<x. unat (cs ! y)), b + (\<Sum>y<x. unat (cs ! y)) + unat (cs ! x))"
  using assms
proof (induction x arbitrary: cs b target start c cs')
  case 0
  then show ?case by (simp add: cc1_seek.simps)
next
  case (Suc x)
  then obtain c' cs'' where cs': "cs' = c' # cs''" by (cases cs') simp_all
  have split: "(\<Sum>y<Suc x. unat (cs ! y)) = unat c + (\<Sum>y<x. unat (cs' ! y))"
    unfolding sum.lessThan_Suc_shift by (simp add: Suc.prems(4))
  have ge: "unat c \<le> target" using Suc.prems(2) split by linarith
  have "cc1_seek (b + target) start (b + unat c) c cs' = cc1_seek ((b + unat c) + (target - unat c)) (Suc start) ((b + unat c) + unat c') c' cs''"
    using ge by (simp add: cc1_seek.simps [of "b + target"] cs')
  also have "\<dots> = Some (Suc start + x, (b + unat c) + (\<Sum>y<x. unat (cs' ! y)), (b + unat c) + (\<Sum>y<x. unat (cs' ! y)) + unat (cs' ! x))"
    by (rule Suc.IH) (use Suc.prems ge split cs' in auto)
  finally show ?case using split by (simp add: Suc.prems(4))
qed

lemma cc1_finds:
  assumes "cc1_inv A s" "x < A" "cc1_low s x \<le> target" "target < cc1_low s x + cc1_cnt s x"
  shows "cc1_get_symbol target s = Some (x, cc1_low s x, cc1_low s x + cc1_cnt s x)"
proof -
  from assms have len: "x < length (cc1_counts s)" by (simp add: cc1_inv_def)
  then obtain c cs where cs: "cc1_counts s = c # cs" by (cases "cc1_counts s") simp_all
  from cc1_seek_finds [OF len, where b = 0 and target = target and start = 0] assms(3,4) show ?thesis
    by (simp add: cc1_get_symbol_def cs cc1_low_def cc1_cnt_def)
qed

lemma cc1_scaled:
  assumes "cc1_inv A s"
  shows "length (cc1_counts (cc1_scale A s)) = A" "\<forall>y<A. cc1_cnt (cc1_scale A s) y = scaled_count A (cc1_cnt s) y"
    "unat (cc1_total (cc1_scale A s)) = (\<Sum>y<A. scaled_count A (cc1_cnt s) y)"
proof -
  let ?cs = "map (drop_bit 1) (cc1_counts s)" and ?f = "cc1_cnt s"
  note inv = assms [unfolded cc1_inv_def]
  from inv obtain B where A: "A = Suc B" by (cases A) auto
  have len: "length (cc1_counts s) = A" using inv by simp
  have nth: "unat (?cs ! y) = ?f y div 2" if "y < A" for y
    using that len by (simp add: cc1_cnt_def drop_bit_eq_div unat_div)
  have last: "?cs ! (A - 1) = 0 \<longleftrightarrow> ?f (A - 1) = 1"
  proof -
    have "?cs ! (A - 1) = 0 \<longleftrightarrow> ?f (A - 1) div 2 = 0" using nth [of "A - 1"] A by (simp only: unat_eq_0 [symmetric])
    with inv show ?thesis by auto
  qed
  show "length (cc1_counts (cc1_scale A s)) = A" using len by (simp add: cc1_scale_def Let_def)
  show "\<forall>y<A. cc1_cnt (cc1_scale A s) y = scaled_count A ?f y"
  proof (intro allI impI)
    fix y assume y: "y < A"
    show "cc1_cnt (cc1_scale A s) y = scaled_count A ?f y"
    proof (cases "?cs ! (A - 1) = 0")
      case True
      then have "cc1_cnt (cc1_scale A s) y = unat (?cs[A - 1 := 1] ! y)" by (simp add: cc1_scale_def cc1_cnt_def Let_def)
      with True last nth [OF y] y len show ?thesis by (auto simp: scaled_count_def nth_list_update)
    next
      case False
      then have "cc1_cnt (cc1_scale A s) y = unat (?cs ! y)" by (simp add: cc1_scale_def cc1_cnt_def Let_def)
      with False last nth [OF y] show ?thesis by (auto simp: scaled_count_def)
    qed
  qed
  have sum_cs: "(\<Sum>c\<leftarrow>?cs. unat c) = (\<Sum>y<A. ?f y div 2)"
    unfolding sum_words using nth len by (intro sum.cong) simp_all
  have "(\<Sum>y<A. ?f y div 2) \<le> (\<Sum>y<A. ?f y)" by (rule sum_mono) simp
  then have half: "(\<Sum>y<A. ?f y div 2) < 65536" using cc1_total_less [OF assms] by linarith
  have tot: "unat (foldl (+) 0 ?cs) = (\<Sum>y<A. ?f y div 2)"
    using foldl_words [of 0 ?cs] sum_cs half by simp
  have ss: "(\<Sum>y<A. scaled_count A ?f y) = (\<Sum>y<A. ?f y div 2) + (if ?f (A - 1) = 1 then 1 else 0)"
  proof -
    have "(\<Sum>y<B. scaled_count (Suc B) ?f y) = (\<Sum>y<B. ?f y div 2)" by (rule sum.cong) (simp_all add: scaled_count_def)
    then show ?thesis unfolding A sum.lessThan_Suc by (simp add: scaled_count_def)
  qed
  have le: "(\<Sum>y<A. scaled_count A ?f y) \<le> 32768"
    by (rule scaled_sum) (use inv cc1_total_less [OF assms] in simp_all)
  show "unat (cc1_total (cc1_scale A s)) = (\<Sum>y<A. scaled_count A ?f y)"
  proof (cases "?cs ! (A - 1) = 0")
    case True
    then have "cc1_total (cc1_scale A s) = foldl (+) 0 ?cs + 1" by (simp add: cc1_scale_def Let_def)
    with True last le tot ss show ?thesis by (simp add: unat_plus_if_size word_size)
  next
    case False
    then have "cc1_total (cc1_scale A s) = foldl (+) 0 ?cs" by (simp add: cc1_scale_def Let_def)
    with False last tot ss show ?thesis by simp
  qed
qed

lemma cc1_counted:
  assumes "cc1_inv A s" "x < A" "unat amount < 32768"
  shows "\<exists>s'. cc1_increment_count A x amount s = Some (True, s') \<and> cc1_inv A s' \<and>
    (\<forall>y < A. cc1_cnt s' y = incremented A x (unat amount) (cc1_cnt s) y)"
proof -
  let ?f = "cc1_cnt s"
  note inv = assms(1) [unfolded cc1_inv_def]
  define t where "t = (if unat (cc1_total s) + unat amount \<ge> 65536 then cc1_scale A s else s)"
  define g where "g = (if (\<Sum>y<A. ?f y) + unat amount < 65536 then ?f else scaled_count A ?f)"
  have len: "length (cc1_counts t) = A" and ct: "\<forall>y<A. cc1_cnt t y = g y" and tot: "unat (cc1_total t) = (\<Sum>y<A. g y)"
    using inv cc1_scaled [OF assms(1)] by (simp_all add: t_def g_def)
  note bounds = incremented_bounds [of A x ?f "unat amount"]
  have cg: "incremented A x (unat amount) ?f = g(x := g x + unat amount)" by (simp add: incremented_def g_def Let_def)
  have sum: "(\<Sum>y<A. g y) + unat amount < 65536"
    using bounds(1) inv assms cc1_total_less [OF assms(1)] unfolding cg sum_update [OF assms(2)] by simp
  have "g x \<le> (\<Sum>y<A. g y)" by (rule member_le_sum) (use assms(2) in simp_all)
  with sum ct assms(2) have px: "unat (cc1_counts t ! x + amount) = g x + unat amount"
    by (simp add: unat_plus_if_size word_size cc1_cnt_def)
  let ?s = "t\<lparr>cc1_counts := (cc1_counts t)[x := cc1_counts t ! x + amount], cc1_total := cc1_total t + amount\<rparr>"
  have run: "cc1_increment_count A x amount s = Some (True, ?s)"
    using assms(2) len by (simp add: cc1_increment_count_def t_def [symmetric] Let_def)
  have c: "\<forall>y<A. cc1_cnt ?s y = incremented A x (unat amount) ?f y"
    using ct px len assms(2) unfolding cg by (auto simp: cc1_cnt_def nth_list_update)
  have "unat (cc1_total ?s) = (\<Sum>y<A. cc1_cnt ?s y)"
  proof -
    have "unat (cc1_total ?s) = (\<Sum>y<A. g y) + unat amount" using sum tot by (simp add: unat_plus_if_size word_size)
    also have "\<dots> = (\<Sum>y<A. cc1_cnt ?s y)" unfolding sum_update [OF assms(2), symmetric] cg [symmetric] using c by simp
    finally show ?thesis .
  qed
  moreover have "0 < cc1_cnt ?s (A - 1)" using c bounds(2) inv assms cc1_total_less [OF assms(1)] by auto
  ultimately have "cc1_inv A ?s" using inv len by (simp add: cc1_inv_def)
  with run c show ?thesis by blast
qed

lemma cc1_first_inv: "2 \<le> A \<Longrightarrow> cc1_inv A (cc1_first A) \<and> (\<forall>y<A. cc1_cnt (cc1_first A) y = first_counts A y)"
proof -
  assume A: "2 \<le> A"
  have c: "cc1_cnt (cc1_first A) y = first_counts A y" if "y < A" for y
    using that by (auto simp: cc1_cnt_def cc1_first_def first_counts_def nth_append)
  have "(\<Sum>y<A. cc1_cnt (cc1_first A) y) = (\<Sum>y<A. if y = A - 1 then 1 else 0)"
    using c by (intro sum.cong) (simp_all add: first_counts_def)
  also have "\<dots> = 1" using A by (simp add: sum.delta)
  finally show ?thesis using A c by (simp add: cc1_inv_def cc1_first_def first_counts_def)
qed

text \<open>The size of the alphabet is part of the invariant, so that the object is one for every size of at least 2.\<close>

interpretation cc1: conditioning A "cc1_first A" "cc1_increment_count A" cc1_get_total cc1_get_range cc1_get_symbol
  "cc1_inv A" cc1_cnt cc1_low for A
proof unfold_locales
  show "2 \<le> A \<Longrightarrow> A < 65536 \<Longrightarrow> cc1_inv A (cc1_first A)" "\<And>y. 2 \<le> A \<Longrightarrow> A < 65536 \<Longrightarrow> y < A \<Longrightarrow> cc1_cnt (cc1_first A) y = first_counts A y"
    using cc1_first_inv [of A] by blast+
  show "\<And>s x r. cc1_inv A s \<Longrightarrow> x < A \<Longrightarrow> cc1_cnt s x = 0 \<Longrightarrow> cc1_get_range x r s = Some (0, r)"
    "\<And>s x r. cc1_inv A s \<Longrightarrow> x < A \<Longrightarrow> 0 < cc1_cnt s x \<Longrightarrow> cc1_get_range x r s =
      Some (cc1_cnt s x, cc1_low s x, cc1_low s x + cc1_cnt s x, (\<Sum>y<A. cc1_cnt s y))"
    by (simp_all add: cc1_range)
qed (use cc1_total_less cc1_low_le cc1_finds cc1_counted in \<open>auto simp: cc1_inv_def cc1_get_total_def\<close>)

end
