(* ===== verification/Conditioning_Tree.thy ===== *)
theory Conditioning_Tree
  imports Conditioning_Class
begin

text \<open>
  \<open>conditioning_class/conditioning_class_kernel_2.h\<close>: the counts in an array that is a binary tree with the root 0 and the
  children \<open>2 * i + 1\<close> and \<open>2 * i + 2\<close> of \<open>i\<close>; every node has the sum of the counts to its left.
\<close>

section \<open>The object\<close>

record cc2_data =
  d_count :: "16 word"
  d_left :: "16 word"

record cc2 =
  cc2_total :: "16 word"
  cc2_symbols :: "cc2_data list"

text \<open>
  The loop that follows the parents of a symbol and adds to the nodes that it is left of. The numbers of the symbols
  are below \<open>2 ^ 17\<close>, so that their arithmetic does not wrap around.
\<close>

function bubble :: "nat \<Rightarrow> 16 word \<Rightarrow> cc2_data list \<Rightarrow> cc2_data list" where
  "bubble symbol amount ds =
     (if symbol \<noteq> 0
      then let temp = symbol mod 2; symbol = (symbol - 1) div 2
           in bubble symbol amount (if temp \<noteq> 0 then ds[symbol := (ds ! symbol)\<lparr>d_left := d_left (ds ! symbol) + amount\<rparr>] else ds)
      else ds)"
  by auto
termination by (relation "measure fst") auto

declare bubble.simps [simp del]

definition cc2_first_data :: "nat \<Rightarrow> cc2_data list" where
  "cc2_first_data A =
     bubble (A - 1) 1 (replicate (A - 1) \<lparr>d_count = 0, d_left = 0\<rparr> @ [\<lparr>d_count = 1, d_left = 0\<rparr>])"

definition cc2_first :: "nat \<Rightarrow> cc2" where
  "cc2_first A = \<lparr>cc2_total = 1, cc2_symbols = cc2_first_data A\<rparr>"

definition cc2_clear :: "nat \<Rightarrow> cc2 \<Rightarrow> cc2" where
  "cc2_clear A s = s\<lparr>cc2_total := 1, cc2_symbols := cc2_first_data A\<rparr>"

definition cc2_bytes :: "nat \<Rightarrow> 64 word" where
  "cc2_bytes A = of_nat (4 * A + 24)"

definition cc2_construct :: "nat \<Rightarrow> 64 word \<Rightarrow> cc2 \<times> 64 word" where
  "cc2_construct A memory_usage = (cc2_first A, memory_usage + cc2_bytes A)"

definition cc2_destroy :: "nat \<Rightarrow> 64 word \<Rightarrow> 64 word" where
  "cc2_destroy A memory_usage = memory_usage - cc2_bytes A"

text \<open>One pass of the loop that scales the counts, and the last symbol.\<close>

definition cc2_halve :: "nat \<Rightarrow> cc2_data list \<Rightarrow> cc2_data list" where
  "cc2_halve i ds =
     (let ds = ds[i := \<lparr>d_count = drop_bit 1 (d_count (ds ! i)), d_left = 0\<rparr>] in bubble i (d_count (ds ! i)) ds)"

definition cc2_halve_last :: "nat \<Rightarrow> cc2_data list \<Rightarrow> cc2_data list" where
  "cc2_halve_last i ds =
     (let ds = (if d_count (ds ! i) > 1 then ds[i := (ds ! i)\<lparr>d_count := drop_bit 1 (d_count (ds ! i))\<rparr>] else ds)
      in bubble i (d_count (ds ! i)) ds)"

function spine_total :: "nat \<Rightarrow> nat \<Rightarrow> 16 word \<Rightarrow> cc2_data list \<Rightarrow> 16 word" where
  "spine_total A m tot ds =
     (if m < A then spine_total A (2 * m + 2) (tot + (d_count (ds ! m) + d_left (ds ! m))) ds else tot)"
  by auto
termination by (relation "measure (\<lambda>(A, m, tot, ds). A - m)") auto

declare spine_total.simps [simp del]

definition cc2_scale :: "nat \<Rightarrow> cc2 \<Rightarrow> cc2" where
  "cc2_scale A s =
     (let ds = cc2_halve_last (A - 1) (fold cc2_halve [0..<A - 1] (cc2_symbols s))
      in s\<lparr>cc2_symbols := ds, cc2_total := spine_total A 0 0 ds\<rparr>)"

definition cc2_increment_count :: "nat \<Rightarrow> nat \<Rightarrow> 16 word \<Rightarrow> cc2 \<Rightarrow> (bool \<times> cc2) option" where
  "cc2_increment_count A symbol amount s =
     (let s = (if unat (cc2_total s) + unat amount \<ge> 65536 then cc2_scale A s else s); ds = cc2_symbols s in
      if symbol < length ds
      then Some (True, s\<lparr>cc2_total := cc2_total s + amount,
        cc2_symbols := bubble symbol amount (ds[symbol := (ds ! symbol)\<lparr>d_count := d_count (ds ! symbol) + amount\<rparr>])\<rparr>)
      else None)"

definition cc2_get_count :: "nat \<Rightarrow> cc2 \<Rightarrow> nat option" where
  "cc2_get_count symbol s =
     (if symbol < length (cc2_symbols s) then Some (unat (d_count (cc2_symbols s ! symbol))) else None)"

definition cc2_get_total :: "cc2 \<Rightarrow> nat" where
  "cc2_get_total s = unat (cc2_total s)"

text \<open>The sum along the parents; \<open>high_count_temp\<close> is an \<open>unsigned long\<close>.\<close>

function cc2_climb :: "cc2_data list \<Rightarrow> nat \<Rightarrow> bool \<Rightarrow> nat \<Rightarrow> nat" where
  "cc2_climb ds current came_from_right high_count_temp =
     (let high_count_temp = (if came_from_right
        then high_count_temp + (unat (d_count (ds ! current)) + unat (d_left (ds ! current))) else high_count_temp);
        came_from_right = even current
      in if current = 0 then high_count_temp else cc2_climb ds ((current - 1) div 2) came_from_right high_count_temp)"
  by auto
termination by (relation "measure (\<lambda>(ds, current, r). current)") auto

declare cc2_climb.simps [simp del]

definition cc2_get_range :: "nat \<Rightarrow> ranges \<Rightarrow> cc2 \<Rightarrow> (nat \<times> ranges) option" where
  "cc2_get_range symbol r s =
     (if symbol < length (cc2_symbols s)
      then let c = d_count (cc2_symbols s ! symbol) in
           if c = 0 then Some (0, r)
           else let high_count_temp = cc2_climb (cc2_symbols s) symbol True 0
                in Some (unat c, high_count_temp - unat c, high_count_temp, unat (cc2_total s))
      else None)"

text \<open>The comparisons are ones of \<open>unsigned short\<close>; what is subtracted from \<open>target\<close> is not larger than it.\<close>

function cc2_descend :: "cc2_data list \<Rightarrow> nat \<Rightarrow> nat \<Rightarrow> nat \<Rightarrow> ranges option" where
  "cc2_descend ds target current low_count_temp =
     (if current \<ge> length ds then None
      else let d = ds ! current in
        if target mod 65536 < unat (d_left d) then cc2_descend ds target (2 * current + 1) low_count_temp
        else let target = target - unat (d_left d); low_count_temp = low_count_temp + unat (d_left d) in
          if target mod 65536 < unat (d_count d) then Some (current, low_count_temp, low_count_temp + unat (d_count d))
          else cc2_descend ds (target - unat (d_count d)) (2 * current + 2) (low_count_temp + unat (d_count d)))"
  by auto
termination by (relation "measure (\<lambda>(ds, target, current, l). length ds - current)") auto

declare cc2_descend.simps [simp del]

definition cc2_get_symbol :: "nat \<Rightarrow> cc2 \<Rightarrow> ranges option" where
  "cc2_get_symbol target s = cc2_descend (cc2_symbols s) target 0 0"

definition cc2_get_alphabet_size :: "nat \<Rightarrow> nat" where
  "cc2_get_alphabet_size A = A"

section \<open>Ancestors\<close>

function ancestors :: "nat \<Rightarrow> nat set" where
  "ancestors j = insert j (if j = 0 then {} else ancestors ((j - 1) div 2))"
  by auto
termination by (relation "measure id") auto

declare ancestors.simps [simp del]

lemma above_refl [simp]: "j \<in> ancestors j"
  by (subst ancestors.simps) simp

lemma above_le: "i \<in> ancestors j \<Longrightarrow> i \<le> j"
proof (induction j rule: ancestors.induct)
  case (1 j)
  show ?case
  proof (cases "i = j \<or> j = 0")
    case True
    with 1(2) show ?thesis by (auto simp: ancestors.simps [of j])
  next
    case False
    with 1(2) have "i \<in> ancestors ((j - 1) div 2)" by (auto simp: ancestors.simps [of j])
    with 1(1) False have "i \<le> (j - 1) div 2" by blast
    then show ?thesis by simp
  qed
qed

lemma above_parent:
  "j \<noteq> 0 \<Longrightarrow> ancestors j = insert j (ancestors ((j - 1) div 2))"
  by (subst ancestors.simps) simp

lemma above_0 [simp]: "ancestors 0 = {0}" "0 \<in> ancestors j"
proof -
  show "ancestors 0 = {0}" by (subst ancestors.simps) simp
  show "0 \<in> ancestors j"
  proof (induction j rule: ancestors.induct)
    case (1 j)
    show ?case
    proof (cases "j = 0")
      case False
      from 1 [OF False] show ?thesis unfolding above_parent [OF False] by blast
    qed simp
  qed
qed

lemma above_children: "ancestors (2 * i + 1) = insert (2 * i + 1) (ancestors i)" "ancestors (2 * i + 2) = insert (2 * i + 2) (ancestors i)"
  using above_parent [of "2 * i + 1"] above_parent [of "2 * i + 2"] by simp_all

text \<open>A proper ancestor is ancestors exactly one of its children.\<close>

lemma above_split:
  assumes "i \<in> ancestors j" "i \<noteq> j"
  shows "(2 * i + 1 \<in> ancestors j) \<noteq> (2 * i + 2 \<in> ancestors j)"
  using assms
proof (induction j rule: ancestors.induct)
  case (1 j)
  define p where "p = (j - 1) div 2"
  have j: "j \<noteq> 0" using 1(2,3) by (cases "j = 0") simp_all
  note a = above_parent [OF j, folded p_def]
  show ?case
  proof (cases "i = p")
    case True
    have "2 * p + 1 = j \<or> 2 * p + 2 = j" using j unfolding p_def by presburger
    moreover have "2 * p + 1 \<notin> ancestors p" "2 * p + 2 \<notin> ancestors p" using above_le [of _ p] by fastforce+
    ultimately show ?thesis unfolding True a by auto
  next
    case False
    with 1(2,3) a have "i \<in> ancestors p" by blast
    with 1(1) [OF j] False have "(2 * i + 1 \<in> ancestors p) \<noteq> (2 * i + 2 \<in> ancestors p)" unfolding p_def by blast
    moreover have "2 * i + 1 \<noteq> j" "2 * i + 2 \<noteq> j" using False j unfolding p_def by presburger+
    ultimately show ?thesis unfolding a by blast
  qed
qed

lemma above_child: "2 * i + 1 \<in> ancestors j \<Longrightarrow> i \<in> ancestors j" "2 * i + 2 \<in> ancestors j \<Longrightarrow> i \<in> ancestors j"
proof -
  have "c \<in> ancestors j \<Longrightarrow> c \<noteq> 0 \<Longrightarrow> (c - 1) div 2 \<in> ancestors j" for c
  proof (induction j rule: ancestors.induct)
    case (1 j)
    show ?case
    proof (cases "c = j")
      case True
      with 1 above_parent [of j] show ?thesis by simp
    next
      case False
      then have j: "j \<noteq> 0" using 1(2,3) by (cases "j = 0") simp_all
      with 1 False show ?thesis by (simp add: above_parent [OF j])
    qed
  qed
  from this [of "2 * i + 1"] this [of "2 * i + 2"]
  show "2 * i + 1 \<in> ancestors j \<Longrightarrow> i \<in> ancestors j" "2 * i + 2 \<in> ancestors j \<Longrightarrow> i \<in> ancestors j" by simp_all
qed

text \<open>The sum of the counts in the tree below a node.\<close>

definition below_sum :: "nat \<Rightarrow> (nat \<Rightarrow> nat) \<Rightarrow> nat \<Rightarrow> nat" where
  "below_sum A f i = (\<Sum>j<A. if i \<in> ancestors j then f j else 0)"

lemma below_root: "below_sum A f 0 = (\<Sum>j<A. f j)"
  by (simp add: below_sum_def)

lemma below_outside: "A \<le> i \<Longrightarrow> below_sum A f i = 0"
  unfolding below_sum_def using above_le by (intro sum.neutral) fastforce

lemma below_split:
  assumes "i < A"
  shows "below_sum A f i = below_sum A f (2 * i + 1) + f i + below_sum A f (2 * i + 2)"
proof -
  have "(if i \<in> ancestors j then f j else 0) = (if 2 * i + 1 \<in> ancestors j then f j else 0) + (if j = i then f j else 0) +
      (if 2 * i + 2 \<in> ancestors j then f j else 0)" for j
  proof (cases "j = i")
    case True
    moreover have "2 * i + 1 \<notin> ancestors i" "2 * i + 2 \<notin> ancestors i" using above_le [of _ i] by fastforce+
    ultimately show ?thesis by simp
  next
    case False
    then show ?thesis using above_split [of i j] above_child [of i j] by auto
  qed
  then have "below_sum A f i = (\<Sum>j<A. (if 2 * i + 1 \<in> ancestors j then f j else 0) + (if j = i then f j else 0) +
      (if 2 * i + 2 \<in> ancestors j then f j else 0))" by (simp only: below_sum_def)
  also have "\<dots> = below_sum A f (2 * i + 1) + (\<Sum>j<A. if j = i then f j else 0) + below_sum A f (2 * i + 2)"
    by (simp only: sum.distrib below_sum_def)
  also have "(\<Sum>j<A. if j = i then f j else 0) = f i" using assms by (simp add: sum.delta)
  finally show ?thesis .
qed

lemma below_le: "below_sum A f i \<le> (\<Sum>j<A. f j)"
  unfolding below_sum_def by (rule sum_mono) simp

lemma below_update:
  assumes "x < A"
  shows "below_sum A (f(x := f x + a)) i = below_sum A f i + (if i \<in> ancestors x then a else 0)"
proof -
  have "below_sum A (f(x := f x + a)) i = (\<Sum>j<A. (if i \<in> ancestors j then f j else 0) + (if j = x then if i \<in> ancestors x then a else 0 else 0))"
    unfolding below_sum_def by (rule sum.cong) auto
  also have "\<dots> = below_sum A f i + (if i \<in> ancestors x then a else 0)"
    using assms by (simp add: sum.distrib below_sum_def sum.delta)
  finally show ?thesis .
qed

lemma below_cong: "(\<And>j. j < A \<Longrightarrow> f j = g j) \<Longrightarrow> below_sum A f i = below_sum A g i"
  unfolding below_sum_def by (rule sum.cong) auto

section \<open>The loops\<close>

lemma bubble_length [simp]: "length (bubble x a ds) = length ds"
proof (induction x a ds rule: bubble.induct)
  case (1 x a ds)
  then show ?case by (cases "x = 0") (simp_all add: bubble.simps [of x] bubble.simps [of 0] Let_def)
qed

lemma bubble_nth:
  assumes "x < length ds" "i < length ds"
  shows "d_count (bubble x a ds ! i) = d_count (ds ! i)"
    "d_left (bubble x a ds ! i) = d_left (ds ! i) + (if 2 * i + 1 \<in> ancestors x then a else 0)"
proof -
  have "d_count (bubble x a ds ! i) = d_count (ds ! i) \<and>
      d_left (bubble x a ds ! i) = d_left (ds ! i) + (if 2 * i + 1 \<in> ancestors x then a else 0)"
    using assms
  proof (induction x a ds rule: bubble.induct)
    case (1 x a ds)
    show ?case
    proof (cases "x = 0")
      case True
      then show ?thesis by (simp add: bubble.simps [of 0])
    next
      case False
      define p where "p = (x - 1) div 2"
      define ds' where "ds' = (if x mod 2 \<noteq> 0 then ds[p := (ds ! p)\<lparr>d_left := d_left (ds ! p) + a\<rparr>] else ds)"
      have p: "p < length ds" using 1(2) unfolding p_def by simp
      have b: "bubble x a ds = bubble p a ds'" using False by (simp add: bubble.simps [of x] p_def ds'_def Let_def)
      have IH: "d_count (bubble p a ds' ! i) = d_count (ds' ! i) \<and>
          d_left (bubble p a ds' ! i) = d_left (ds' ! i) + (if 2 * i + 1 \<in> ancestors p then a else 0)"
        using 1(1) [OF False refl refl, folded p_def, folded ds'_def] p 1(3) by (simp add: ds'_def)
      have x: "2 * i + 1 \<in> ancestors x \<longleftrightarrow> (x mod 2 \<noteq> 0 \<and> i = p) \<or> 2 * i + 1 \<in> ancestors p"
        and n: "\<not> (i = p \<and> 2 * i + 1 \<in> ancestors p)"
      proof -
        have "2 * i + 1 = x \<longleftrightarrow> x mod 2 \<noteq> 0 \<and> i = p" using False unfolding p_def by presburger
        then show "2 * i + 1 \<in> ancestors x \<longleftrightarrow> (x mod 2 \<noteq> 0 \<and> i = p) \<or> 2 * i + 1 \<in> ancestors p"
          unfolding above_parent [OF False, folded p_def] by blast
        show "\<not> (i = p \<and> 2 * i + 1 \<in> ancestors p)" using above_le [of "2 * i + 1" p] by auto
      qed
      show ?thesis
      proof (cases "x mod 2 \<noteq> 0 \<and> i = p")
        case True
        with IH x n p show ?thesis unfolding b by (simp add: ds'_def)
      next
        case False
        then have "ds' ! i = ds ! i" by (auto simp: ds'_def)
        moreover have "2 * i + 1 \<in> ancestors x \<longleftrightarrow> 2 * i + 1 \<in> ancestors p" using False x by blast
        ultimately show ?thesis using IH unfolding b by simp
      qed
    qed
  qed
  then show "d_count (bubble x a ds ! i) = d_count (ds ! i)"
    "d_left (bubble x a ds ! i) = d_left (ds ! i) + (if 2 * i + 1 \<in> ancestors x then a else 0)" by blast+
qed

text \<open>The array holds the counts \<open>f\<close> of the first \<open>n\<close> symbols.\<close>

definition holds :: "nat \<Rightarrow> (nat \<Rightarrow> nat) \<Rightarrow> cc2_data list \<Rightarrow> bool" where
  "holds n f ds \<longleftrightarrow> (\<forall>i<n. unat (d_count (ds ! i)) = f i \<and> unat (d_left (ds ! i)) = below_sum n f (2 * i + 1))"

lemma holdsD:
  "holds n f ds \<Longrightarrow> i < n \<Longrightarrow> unat (d_count (ds ! i)) = f i"
  "holds n f ds \<Longrightarrow> i < n \<Longrightarrow> unat (d_left (ds ! i)) = below_sum n f (2 * i + 1)"
  by (simp_all add: holds_def)

lemma holds_cong: "(\<And>j. j < n \<Longrightarrow> f j = g j) \<Longrightarrow> holds n f ds \<longleftrightarrow> holds n g ds"
  using below_cong [of n f g] unfolding holds_def by auto

lemma below_Suc: "below_sum (Suc n) f i = below_sum n f i + (if i \<in> ancestors n then f n else 0)"
  by (simp add: below_sum_def)

text \<open>A symbol is added: its own count is in place, and nothing below it.\<close>

lemma holds_add:
  assumes "holds n f ds" "n < length ds" "unat (d_count (ds ! n)) = f n" "d_left (ds ! n) = 0" "(\<Sum>j<Suc n. f j) < 65536"
  shows "holds (Suc n) f (bubble n (d_count (ds ! n)) ds)"
  unfolding holds_def
proof (intro allI impI conjI)
  fix i assume i: "i < Suc n"
  then have il: "i < length ds" using assms(2) by simp
  have old: "unat (d_count (ds ! i)) = f i" "unat (d_left (ds ! i)) = below_sum n f (2 * i + 1)"
  proof -
    show "unat (d_count (ds ! i)) = f i" using assms(3) holdsD(1) [OF assms(1)] i by (cases "i = n") simp_all
    show "unat (d_left (ds ! i)) = below_sum n f (2 * i + 1)"
      using assms(4) holdsD(2) [OF assms(1)] i below_outside [of n "2 * n + 1" f] by (cases "i = n") simp_all
  qed
  show "unat (d_count (bubble n (d_count (ds ! n)) ds ! i)) = f i"
    using bubble_nth(1) [OF assms(2) il] old(1) by simp
  have "below_sum (Suc n) f (2 * i + 1) < 65536" using below_le [of "Suc n" f "2 * i + 1"] assms(5) by linarith
  then show "unat (d_left (bubble n (d_count (ds ! n)) ds ! i)) = below_sum (Suc n) f (2 * i + 1)"
    unfolding bubble_nth(2) [OF assms(2) il] below_Suc using old(2) assms(3) by (simp add: unat_plus_if_size word_size split: if_splits)
qed

lemma spine_sum:
  assumes "holds A f ds" "unat tot + below_sum A f m < 65536"
  shows "unat (spine_total A m tot ds) = unat tot + below_sum A f m"
  using assms(2)
proof (induction "A - m" arbitrary: m tot rule: less_induct)
  case less
  show ?case
  proof (cases "m < A")
    case True
    let ?t = "tot + (d_count (ds ! m) + d_left (ds ! m))"
    note h = holdsD [OF assms(1) True]
    note split = below_split [OF True, of f]
    have "unat (d_count (ds ! m) + d_left (ds ! m)) = f m + below_sum A f (2 * m + 1)"
      using h less.prems split by (simp add: unat_plus_if_size word_size)
    then have t: "unat ?t = unat tot + (f m + below_sum A f (2 * m + 1))"
      using less.prems split by (simp add: unat_plus_if_size word_size)
    have "unat (spine_total A (2 * m + 2) ?t ds) = unat ?t + below_sum A f (2 * m + 2)"
      by (rule less.hyps) (use True t less.prems split in simp_all)
    with t split True show ?thesis by (simp add: spine_total.simps [of A m])
  next
    case False
    then show ?thesis by (simp add: spine_total.simps [of A m] below_outside)
  qed
qed

section \<open>The tree implements the contract\<close>

definition cc2_cnt :: "cc2 \<Rightarrow> nat \<Rightarrow> nat" where
  "cc2_cnt s y = unat (d_count (cc2_symbols s ! y))"

definition cc2_inv :: "nat \<Rightarrow> cc2 \<Rightarrow> bool" where
  "cc2_inv A s \<longleftrightarrow> 2 \<le> A \<and> length (cc2_symbols s) = A \<and> holds A (cc2_cnt s) (cc2_symbols s) \<and>
     unat (cc2_total s) = (\<Sum>y<A. cc2_cnt s y) \<and> 0 < cc2_cnt s (A - 1)"

text \<open>What lies left of the subtree of \<open>i\<close>.\<close>

function before :: "nat \<Rightarrow> (nat \<Rightarrow> nat) \<Rightarrow> nat \<Rightarrow> nat" where
  "before A f i = (if i = 0 then 0 else let p = (i - 1) div 2
     in before A f p + (if even i then below_sum A f (2 * p + 1) + f p else 0))"
  by auto
termination by (relation "measure (\<lambda>(A, f, i). i)") auto

declare before.simps [simp del]

lemma before_simps [simp]: "before A f 0 = 0" "before A f (Suc (2 * i)) = before A f i"
  "before A f (Suc (Suc (2 * i))) = before A f i + below_sum A f (2 * i + 1) + f i"
  by (simp_all add: before.simps [of A f 0] before.simps [of A f "Suc (2 * i)"] before.simps [of A f "Suc (Suc (2 * i))"])

definition cc2_low :: "nat \<Rightarrow> cc2 \<Rightarrow> nat \<Rightarrow> nat" where
  "cc2_low A s x = before A (cc2_cnt s) x + below_sum A (cc2_cnt s) (2 * x + 1)"

lemma cc2_total_less: "cc2_inv A s \<Longrightarrow> (\<Sum>y<A. cc2_cnt s y) < 65536"
  using unsigned_less [of "cc2_total s", where 'a = nat] by (simp add: cc2_inv_def)

lemma climb_before:
  assumes "holds A f ds" "c < A"
  shows "cc2_climb ds c b h = h + (if b then f c + below_sum A f (2 * c + 1) else 0) + before A f c"
  using assms(2)
proof (induction c arbitrary: b h rule: less_induct)
  case (less c)
  note cl = holdsD [OF assms(1) less.prems]
  show ?case
  proof (cases "c = 0")
    case True
    with cl show ?thesis by (simp add: cc2_climb.simps [of ds 0])
  next
    case False
    define p where "p = (c - 1) div 2"
    have p: "p < c" "p < A" using False less.prems unfolding p_def by simp_all
    have run: "cc2_climb ds c b h = cc2_climb ds p (even c) (if b then h + (f c + below_sum A f (2 * c + 1)) else h)"
      using False cl by (simp add: cc2_climb.simps [of ds c] p_def Let_def)
    have "before A f c = before A f p + (if even c then below_sum A f (2 * p + 1) + f p else 0)"
      using False by (simp add: before.simps [of A f c] p_def Let_def)
    with less.IH [OF p] show ?thesis unfolding run by simp
  qed
qed

lemma inside:
  fixes f :: "nat \<Rightarrow> nat"
  assumes "x < A" "i \<in> ancestors x"
  defines "l \<equiv> before A f x + below_sum A f (2 * x + 1)"
  shows "before A f i \<le> l \<and> l + f x \<le> before A f i + below_sum A f i"
proof -
  have step: "before A f ((c - 1) div 2) \<le> l \<and> l + f x \<le> before A f ((c - 1) div 2) + below_sum A f ((c - 1) div 2)"
    if "before A f c \<le> l \<and> l + f x \<le> before A f c + below_sum A f c" "c \<noteq> 0" "c < A" for c
  proof -
    define p where "p = (c - 1) div 2"
    have p: "c = 2 * p + 1 \<or> c = 2 * p + 2" using that(2) unfolding p_def by presburger
    have "p < A" using that(3) unfolding p_def by simp
    note split = below_split [OF this, of f]
    from p that(1) split show ?thesis unfolding p_def [symmetric] by auto
  qed
  have "c \<in> ancestors x \<Longrightarrow> before A f c \<le> l \<and> l + f x \<le> before A f c + below_sum A f c \<Longrightarrow> i \<in> ancestors c \<Longrightarrow>
      before A f i \<le> l \<and> l + f x \<le> before A f i + below_sum A f i" for c
  proof (induction c rule: less_induct)
    case (less c)
    show ?case
    proof (cases "i = c")
      case False
      then have c: "c \<noteq> 0" using less.prems(3) by (cases "c = 0") simp_all
      have cA: "c < A" using above_le [OF less.prems(1)] assms(1) by simp
      have "(c - 1) div 2 \<in> ancestors x"
      proof -
        define p where "p = (c - 1) div 2"
        have "c = 2 * p + 1 \<or> c = 2 * p + 2" using c unfolding p_def by presburger
        with less.prems(1) above_child [of p x] show ?thesis unfolding p_def [symmetric] by auto
      qed
      moreover have "i \<in> ancestors ((c - 1) div 2)" using less.prems(3) False above_parent [OF c] by blast
      moreover have "(c - 1) div 2 < c" using c by simp
      ultimately show ?thesis using less.IH step [OF less.prems(2) c cA] by blast
    qed (use less.prems in simp)
  qed
  from this [of x] assms(2) below_split [OF assms(1), of f] show ?thesis by (simp add: l_def)
qed

lemma descend_finds:
  fixes f :: "nat \<Rightarrow> nat"
  assumes "holds A f ds" "length ds = A" "x < A" "t < 65536"
  defines "l \<equiv> before A f x + below_sum A f (2 * x + 1)"
  assumes "l \<le> t" "t < l + f x" "c \<in> ancestors x"
  shows "cc2_descend ds (t - before A f c) c (before A f c) = Some (x, l, l + f x)"
  using assms(8)
proof (induction "A - c" arbitrary: c rule: less_induct)
  case less
  have c: "c < A" using above_le [OF less.prems] assms(3) by simp
  note cl = holdsD [OF assms(1) c]
  have mod: "(t - n) mod 65536 = t - n" for n using assms(4) by simp
  note in_c = inside [OF assms(3) less.prems, of f, folded l_def]
  show ?case
  proof (cases "c = x")
    case True
    have "\<not> t - before A f x < below_sum A f (2 * x + 1)" "t - before A f x - below_sum A f (2 * x + 1) < f x"
      using assms(6,7) unfolding l_def by linarith+
    then show ?thesis unfolding True
      using cl c assms(2) by (simp add: cc2_descend.simps [of ds _ x] True mod l_def Let_def)
  next
    case False
    from above_split [OF less.prems False] consider
      "2 * c + 1 \<in> ancestors x" | "2 * c + 2 \<in> ancestors x" by blast
    then show ?thesis
    proof cases
      case 1
      note i = inside [OF assms(3) 1, of f, folded l_def]
      have "t - before A f c < below_sum A f (2 * c + 1)" 
      proof -
        have "before A f c \<le> t" "t < before A f c + below_sum A f (2 * c + 1)" using i assms(6,7) by (simp_all; linarith)+
        then show ?thesis by linarith
      qed
      moreover have "cc2_descend ds (t - before A f (2 * c + 1)) (2 * c + 1) (before A f (2 * c + 1)) = Some (x, l, l + f x)"
        by (rule less.hyps [OF _ 1]) (use c in simp)
      ultimately show ?thesis using cl c assms(2) by (simp add: cc2_descend.simps [of ds _ c] mod Let_def)
    next
      case 2
      note i = inside [OF assms(3) 2, of f, folded l_def]
      have ge: "before A f c + below_sum A f (2 * c + 1) + f c \<le> t" using i assms(6) by simp
      then have "\<not> t - before A f c < below_sum A f (2 * c + 1)" "\<not> t - before A f c - below_sum A f (2 * c + 1) < f c" by linarith+
      moreover have "cc2_descend ds (t - before A f (2 * c + 2)) (2 * c + 2) (before A f (2 * c + 2)) = Some (x, l, l + f x)"
        by (rule less.hyps [OF _ 2]) (use c in simp)
      ultimately show ?thesis using cl c assms(2) by (simp add: cc2_descend.simps [of ds _ c] mod Let_def)
    qed
  qed
qed

lemma holds_update:
  assumes "\<And>i. i < n \<Longrightarrow> ds' ! i = ds ! i"
  shows "holds n f ds' \<longleftrightarrow> holds n f ds"
  using assms by (simp add: holds_def)

lemma fold_halve:
  assumes "n < length ds" "(\<Sum>j<n. unat (d_count (ds ! j)) div 2) < 65536"
  defines "ds' \<equiv> fold cc2_halve [0..<n] ds"
  shows "length ds' = length ds \<and> holds n (\<lambda>j. unat (d_count (ds ! j)) div 2) ds' \<and>
    (\<forall>i < length ds. n \<le> i \<longrightarrow> d_count (ds' ! i) = d_count (ds ! i) \<and> d_left (ds' ! i) = d_left (ds ! i))"
  using assms(1,2) unfolding ds'_def
proof (induction n)
  case 0
  show ?case by (simp add: holds_def)
next
  case (Suc n)
  let ?ds = "fold cc2_halve [0..<n] ds" and ?g = "\<lambda>j. unat (d_count (ds ! j)) div 2"
  let ?ds1 = "?ds[n := \<lparr>d_count = drop_bit 1 (d_count (?ds ! n)), d_left = 0\<rparr>]"
  have IH: "length ?ds = length ds" "holds n ?g ?ds"
    "\<And>i. i < length ds \<Longrightarrow> n \<le> i \<Longrightarrow> d_count (?ds ! i) = d_count (ds ! i) \<and> d_left (?ds ! i) = d_left (ds ! i)"
    using Suc.IH Suc.prems by simp_all
  have len: "n < length ?ds1" using Suc.prems IH(1) by simp
  have run: "fold cc2_halve [0..<Suc n] ds = bubble n (d_count (?ds1 ! n)) ?ds1"
    by (simp add: cc2_halve_def Let_def)
  have "holds n ?g ?ds1" using IH(2) by (subst holds_update) simp_all
  moreover have "unat (d_count (?ds1 ! n)) = ?g n" "d_left (?ds1 ! n) = 0"
    using len IH(3) [of n] Suc.prems by (simp_all add: drop_bit_eq_div unat_div)
  ultimately have h: "holds (Suc n) ?g (bubble n (d_count (?ds1 ! n)) ?ds1)"
    using holds_add [of n ?g ?ds1] len Suc.prems(2) by simp
  have rest: "d_count (bubble n (d_count (?ds1 ! n)) ?ds1 ! i) = d_count (ds ! i) \<and> d_left (bubble n (d_count (?ds1 ! n)) ?ds1 ! i) = d_left (ds ! i)"
    if "i < length ds" "Suc n \<le> i" for i
  proof -
    have "2 * i + 1 \<notin> ancestors n" using above_le [of "2 * i + 1" n] that(2) by auto
    then show ?thesis using bubble_nth [OF len, of i] IH(1,3) that by simp
  qed
  show ?case unfolding run using h rest IH(1) by simp
qed

lemma cc2_scaled:
  assumes "cc2_inv A s"
  shows "length (cc2_symbols (cc2_scale A s)) = A" "holds A (scaled_count A (cc2_cnt s)) (cc2_symbols (cc2_scale A s))"
    "unat (cc2_total (cc2_scale A s)) = (\<Sum>y<A. scaled_count A (cc2_cnt s) y)"
proof -
  let ?ds = "cc2_symbols s" and ?f = "cc2_cnt s"
  let ?g = "scaled_count A ?f"
  note inv = assms [unfolded cc2_inv_def]
  from inv obtain n where A: "A = Suc n" by (cases A) auto
  have len: "n < length ?ds" using inv A by simp
  have le: "(\<Sum>y<A. ?g y) < 65536"
    using scaled_sum [of A ?f] inv cc2_total_less [OF assms] by simp
  have g: "unat (d_count (?ds ! j)) div 2 = ?g j" if "j < n" for j using that by (simp add: cc2_cnt_def scaled_count_def A)
  then have "(\<Sum>j<n. unat (d_count (?ds ! j)) div 2) = (\<Sum>j<n. ?g j)" by (intro sum.cong) simp_all
  also have "\<dots> \<le> (\<Sum>y<A. ?g y)" by (simp add: A)
  finally have "(\<Sum>j<n. unat (d_count (?ds ! j)) div 2) < 65536" using le by simp
  note fh = fold_halve [OF len this]
  define ds1 where "ds1 = fold cc2_halve [0..<n] ?ds"
  define ds2 where "ds2 = (if d_count (ds1 ! n) > 1 then ds1[n := (ds1 ! n)\<lparr>d_count := drop_bit 1 (d_count (ds1 ! n))\<rparr>] else ds1)"
  have l1: "length ds1 = A" "holds n ?g ds1" "d_count (ds1 ! n) = d_count (?ds ! n)" "d_left (ds1 ! n) = d_left (?ds ! n)"
    using fh holds_cong [of n "\<lambda>j. unat (d_count (?ds ! j)) div 2" ?g ds1] g len inv unfolding ds1_def by auto
  have "unat (d_left (?ds ! n)) = 0"
    using holdsD(2) [of A ?f ?ds n] inv below_outside [of A "2 * n + 1" ?f] A by simp
  then have z: "d_left (?ds ! n) = 0" by (simp add: unat_eq_0)
  have pos: "0 < unat (d_count (?ds ! n))" using inv A by (simp add: cc2_cnt_def)
  have ds2: "holds n ?g ds2" "n < length ds2" "d_left (ds2 ! n) = 0" "unat (d_count (ds2 ! n)) = ?g n"
  proof -
    show "holds n ?g ds2" using l1(2) by (subst holds_update [of _ _ ds1]) (simp_all add: ds2_def)
    show "n < length ds2" "d_left (ds2 ! n) = 0" using l1(1,4) z by (simp_all add: ds2_def A)
    have "unat (drop_bit (Suc 0) w) = unat w div 2" for w :: "16 word" by (simp add: drop_bit_eq_div unat_div)
    then show "unat (d_count (ds2 ! n)) = ?g n"
      using l1(1,3) pos by (auto simp: ds2_def A scaled_count_def cc2_cnt_def word_less_nat_alt)
  qed
  have sc: "cc2_symbols (cc2_scale A s) = bubble n (d_count (ds2 ! n)) ds2"
    by (simp add: cc2_scale_def cc2_halve_last_def ds1_def [symmetric] ds2_def [symmetric] Let_def A)
  show h: "holds A ?g (cc2_symbols (cc2_scale A s))"
    unfolding sc using holds_add [OF ds2(1,2,4,3)] le unfolding A [symmetric] .
  show "length (cc2_symbols (cc2_scale A s)) = A" unfolding sc using l1(1) by (simp add: ds2_def)
  have "cc2_total (cc2_scale A s) = spine_total A 0 0 (cc2_symbols (cc2_scale A s))"
    by (simp add: cc2_scale_def Let_def)
  with spine_sum [OF h, of 0 0] le show "unat (cc2_total (cc2_scale A s)) = (\<Sum>y<A. ?g y)" by (simp add: below_root)
qed

lemma holds_increment:
  assumes "holds A g ds" "length ds = A" "x < A" "(\<Sum>y<A. g y) + unat a < 65536"
  shows "holds A (g(x := g x + unat a)) (bubble x a (ds[x := (ds ! x)\<lparr>d_count := d_count (ds ! x) + a\<rparr>]))"
  unfolding holds_def
proof (intro allI impI conjI)
  let ?ds = "ds[x := (ds ! x)\<lparr>d_count := d_count (ds ! x) + a\<rparr>]" and ?g = "g(x := g x + unat a)"
  fix i assume i: "i < A"
  note b = bubble_nth [of x ?ds i a]
  have "g x \<le> (\<Sum>y<A. g y)" by (rule member_le_sum) (use assms(3) in simp_all)
  then have "unat (d_count (ds ! x) + a) = g x + unat a"
    using holdsD(1) [OF assms(1,3)] assms(4) by (simp add: unat_plus_if_size word_size)
  then show "unat (d_count (bubble x a ?ds ! i)) = ?g i"
    using b(1) assms(2,3) i holdsD(1) [OF assms(1) i] by (auto simp: nth_list_update)
  have "below_sum A ?g (2 * i + 1) < 65536"
    using below_le [of A ?g "2 * i + 1"] assms(4) unfolding sum_update [OF assms(3)] by linarith
  moreover have "d_left (?ds ! i) = d_left (ds ! i)" using assms(2,3) by (simp add: nth_list_update)
  ultimately show "unat (d_left (bubble x a ?ds ! i)) = below_sum A ?g (2 * i + 1)"
    using b(2) assms(2,3) i holdsD(2) [OF assms(1) i] unfolding below_update [OF assms(3)]
    by (simp add: unat_plus_if_size word_size split: if_splits)
qed

lemma cc2_counted:
  assumes "cc2_inv A s" "x < A" "unat amount < 32768"
  shows "\<exists>s'. cc2_increment_count A x amount s = Some (True, s') \<and> cc2_inv A s' \<and>
    (\<forall>y < A. cc2_cnt s' y = incremented A x (unat amount) (cc2_cnt s) y)"
proof -
  let ?f = "cc2_cnt s"
  note inv = assms(1) [unfolded cc2_inv_def]
  define t where "t = (if unat (cc2_total s) + unat amount \<ge> 65536 then cc2_scale A s else s)"
  define g where "g = (if (\<Sum>y<A. ?f y) + unat amount < 65536 then ?f else scaled_count A ?f)"
  have len: "length (cc2_symbols t) = A" and h: "holds A g (cc2_symbols t)" and tot: "unat (cc2_total t) = (\<Sum>y<A. g y)"
    using inv cc2_scaled [OF assms(1)] by (simp_all add: t_def g_def)
  note bounds = incremented_bounds [of A x ?f "unat amount"]
  have cg: "incremented A x (unat amount) ?f = g(x := g x + unat amount)" by (simp add: incremented_def g_def Let_def)
  have sum: "(\<Sum>y<A. g y) + unat amount < 65536"
    using bounds(1) inv assms cc2_total_less [OF assms(1)] unfolding cg sum_update [OF assms(2)] by simp
  let ?ds = "bubble x amount ((cc2_symbols t)[x := (cc2_symbols t ! x)\<lparr>d_count := d_count (cc2_symbols t ! x) + amount\<rparr>])"
  let ?s = "t\<lparr>cc2_total := cc2_total t + amount, cc2_symbols := ?ds\<rparr>"
  have run: "cc2_increment_count A x amount s = Some (True, ?s)"
    using assms(2) len by (simp add: cc2_increment_count_def t_def [symmetric] Let_def)
  note hi = holds_increment [OF h len assms(2) sum]
  have c: "\<forall>y<A. cc2_cnt ?s y = incremented A x (unat amount) ?f y"
    using holdsD(1) [OF hi] unfolding cg by (simp add: cc2_cnt_def)
  have "holds A (cc2_cnt ?s) ?ds" using hi holds_cong [of A "cc2_cnt ?s" "g(x := g x + unat amount)" ?ds] c unfolding cg by blast
  moreover have "unat (cc2_total ?s) = (\<Sum>y<A. cc2_cnt ?s y)"
  proof -
    have "unat (cc2_total ?s) = (\<Sum>y<A. g y) + unat amount" using sum tot by (simp add: unat_plus_if_size word_size)
    also have "\<dots> = (\<Sum>y<A. cc2_cnt ?s y)" unfolding sum_update [OF assms(2), symmetric] cg [symmetric] using c by simp
    finally show ?thesis .
  qed
  moreover have "0 < cc2_cnt ?s (A - 1)" using c bounds(2) inv assms cc2_total_less [OF assms(1)] by auto
  ultimately have "cc2_inv A ?s" using inv len by (simp add: cc2_inv_def)
  with run c show ?thesis by blast
qed

lemma cc2_first_inv: "2 \<le> A \<Longrightarrow> cc2_inv A (cc2_first A) \<and> (\<forall>y<A. cc2_cnt (cc2_first A) y = first_counts A y)"
proof -
  assume A2: "2 \<le> A"
  then obtain n where A: "A = Suc n" by (cases A) auto
  let ?ds = "replicate n \<lparr>d_count = 0, d_left = 0\<rparr> @ [\<lparr>d_count = 1, d_left = 0\<rparr>] :: cc2_data list"
  have s1: "(\<Sum>y<A. first_counts A y) = 1" using A by (simp add: first_counts_def sum.delta)
  have "holds n (first_counts A) ?ds"
    by (simp add: holds_def nth_append below_sum_def first_counts_def A)
  from holds_add [OF this] s1 have "holds A (first_counts A) (bubble n (d_count (?ds ! n)) ?ds)"
    by (simp add: A nth_append first_counts_def)
  then have h: "holds A (first_counts A) (cc2_first_data A)" by (simp add: cc2_first_data_def A nth_append)
  then have c: "\<forall>y<A. cc2_cnt (cc2_first A) y = first_counts A y" by (simp add: holds_def cc2_cnt_def cc2_first_def)
  have "(\<Sum>y<A. cc2_cnt (cc2_first A) y) = 1" using c s1 by simp
  moreover have "holds A (cc2_cnt (cc2_first A)) (cc2_first_data A)"
    using h holds_cong [of A "cc2_cnt (cc2_first A)" "first_counts A"] c by blast
  moreover have "length (cc2_first_data A) = A" by (simp add: cc2_first_data_def A)
  ultimately have "cc2_inv A (cc2_first A)"
    using A2 c by (simp add: cc2_inv_def cc2_first_def first_counts_def)
  with c show ?thesis by blast
qed

lemma cc2_range:
  assumes "cc2_inv A s" "x < A"
  shows "cc2_get_range x r s = Some (if cc2_cnt s x = 0 then (0, r)
    else (cc2_cnt s x, cc2_low A s x, cc2_low A s x + cc2_cnt s x, (\<Sum>y<A. cc2_cnt s y)))"
proof -
  from assms(1) have h: "holds A (cc2_cnt s) (cc2_symbols s)" and len: "length (cc2_symbols s) = A" by (simp_all add: cc2_inv_def)
  have "cc2_climb (cc2_symbols s) x True 0 = cc2_low A s x + cc2_cnt s x"
    using climb_before [OF h assms(2), of True 0] by (simp add: cc2_low_def)
  moreover have "d_count (cc2_symbols s ! x) = 0 \<longleftrightarrow> cc2_cnt s x = 0" by (simp add: cc2_cnt_def unat_eq_0)
  ultimately show ?thesis
    using assms len by (simp add: cc2_get_range_def Let_def cc2_inv_def cc2_cnt_def)
qed

lemma cc2_low_le: "x < A \<Longrightarrow> cc2_low A s x + cc2_cnt s x \<le> (\<Sum>y<A. cc2_cnt s y)"
  using inside [of x A 0 "cc2_cnt s"] by (simp add: cc2_low_def below_root)

lemma cc2_finds:
  assumes "cc2_inv A s" "x < A" "cc2_low A s x \<le> target" "target < cc2_low A s x + cc2_cnt s x"
  shows "cc2_get_symbol target s = Some (x, cc2_low A s x, cc2_low A s x + cc2_cnt s x)"
proof -
  have "target < 65536" using assms(4) cc2_low_le [OF assms(2), of s] cc2_total_less [OF assms(1)] by linarith
  with descend_finds [of A "cc2_cnt s" "cc2_symbols s" x target 0] assms show ?thesis
    by (simp add: cc2_inv_def cc2_low_def cc2_get_symbol_def)
qed

interpretation cc2: conditioning A "cc2_first A" "cc2_increment_count A" cc2_get_total cc2_get_range cc2_get_symbol
  "cc2_inv A" cc2_cnt "cc2_low A" for A
proof unfold_locales
  show "2 \<le> A \<Longrightarrow> A < 65536 \<Longrightarrow> cc2_inv A (cc2_first A)" "\<And>y. 2 \<le> A \<Longrightarrow> A < 65536 \<Longrightarrow> y < A \<Longrightarrow> cc2_cnt (cc2_first A) y = first_counts A y"
    using cc2_first_inv [of A] by blast+
  show "\<And>s x r. cc2_inv A s \<Longrightarrow> x < A \<Longrightarrow> cc2_cnt s x = 0 \<Longrightarrow> cc2_get_range x r s = Some (0, r)"
    "\<And>s x r. cc2_inv A s \<Longrightarrow> x < A \<Longrightarrow> 0 < cc2_cnt s x \<Longrightarrow> cc2_get_range x r s =
      Some (cc2_cnt s x, cc2_low A s x, cc2_low A s x + cc2_cnt s x, (\<Sum>y<A. cc2_cnt s y))"
    by (simp_all add: cc2_range)
qed (use cc2_total_less cc2_low_le cc2_finds cc2_counted in \<open>auto simp: cc2_inv_def cc2_get_total_def\<close>)

end
