(* ===== verification/Conditioning_List.thy ===== *)
theory Conditioning_List
  imports Conditioning_Class
begin

text \<open>
  \<open>conditioning_class/conditioning_class_kernel_3.h\<close>: the counts in an array of entries that have their symbols with them, in
  which symbols that are counted move towards the front. An entry with the count 0 may hold any symbol.
\<close>

section \<open>The object\<close>

record cc3_data =
  e_count :: "16 word"
  e_symbol :: "16 word"
  e_present :: bool

record cc3 =
  cc3_total :: "16 word"
  cc3_counts :: "cc3_data list"

text \<open>The constructor and \<open>clear\<close> set the symbol of the first entry only.\<close>

definition cc3_reset :: "nat \<Rightarrow> cc3_data list \<Rightarrow> cc3_data list" where
  "cc3_reset A ds =
     (let ds = map (\<lambda>d. d\<lparr>e_count := 0, e_present := False\<rparr>) ds;
          ds = ds[0 := (ds ! 0)\<lparr>e_count := 1, e_symbol := of_nat (A - 1)\<rparr>]
      in ds[A - 1 := (ds ! (A - 1))\<lparr>e_present := True\<rparr>])"

definition cc3_first :: "cc3_data list \<Rightarrow> nat \<Rightarrow> cc3" where
  "cc3_first memory A = \<lparr>cc3_total = 1, cc3_counts = cc3_reset A memory\<rparr>"

definition cc3_clear :: "nat \<Rightarrow> cc3 \<Rightarrow> cc3" where
  "cc3_clear A s = s\<lparr>cc3_total := 1, cc3_counts := cc3_reset A (cc3_counts s)\<rparr>"

definition cc3_bytes :: "nat \<Rightarrow> 64 word" where
  "cc3_bytes A = of_nat (6 * A + 24)"

definition cc3_construct :: "cc3_data list \<Rightarrow> nat \<Rightarrow> 64 word \<Rightarrow> cc3 \<times> 64 word" where
  "cc3_construct memory A memory_usage = (cc3_first memory A, memory_usage + cc3_bytes A)"

definition cc3_destroy :: "nat \<Rightarrow> 64 word \<Rightarrow> 64 word" where
  "cc3_destroy A memory_usage = memory_usage - cc3_bytes A"

fun cc3_scale_loop :: "nat \<Rightarrow> nat list \<Rightarrow> 16 word \<Rightarrow> cc3_data list \<Rightarrow> (16 word \<times> cc3_data list) option" where
  "cc3_scale_loop A [] tot ds = Some (tot, ds)"
| "cc3_scale_loop A (start # is) tot ds =
     (let d = ds ! start in
      if e_count d = 1
      then if unat (e_symbol d) = A - 1 then cc3_scale_loop A is (tot + 1) ds
           else let ds = ds[start := d\<lparr>e_count := 0\<rparr>]; y = unat (e_symbol d)
                in if y < length ds then cc3_scale_loop A is tot (ds[y := (ds ! y)\<lparr>e_present := False\<rparr>]) else None
      else let d = d\<lparr>e_count := drop_bit 1 (e_count d)\<rparr> in cc3_scale_loop A is (tot + e_count d) (ds[start := d]))"

definition cc3_scale :: "nat \<Rightarrow> cc3 \<Rightarrow> cc3 option" where
  "cc3_scale A s =
     (case cc3_scale_loop A [0..<A] 0 (cc3_counts s) of
        None \<Rightarrow> None
      | Some (tot, ds) \<Rightarrow> Some (s\<lparr>cc3_total := tot, cc3_counts := ds\<rparr>))"

text \<open>
  Both loops of \<open>increment_count\<close> go to the first entry with a property, and remember the first one with the smallest
  count on their way. \<open>cc3_walk\<close> is \<open>None\<close> when they leave the array.
\<close>

function cc3_walk :: "(cc3_data \<Rightarrow> bool) \<Rightarrow> cc3_data list \<Rightarrow> nat \<Rightarrow> nat \<Rightarrow> (nat \<times> nat) option" where
  "cc3_walk stop ds start swap_spot =
     (if start < length ds
      then if stop (ds ! start) then Some (start, swap_spot)
           else cc3_walk stop ds (start + 1) (if e_count (ds ! start) < e_count (ds ! swap_spot) then start else swap_spot)
      else None)"
  by auto
termination by (relation "measure (\<lambda>(stop, ds, start, s). length ds - start)") auto

declare cc3_walk.simps [simp del]

definition cc3_place :: "nat \<Rightarrow> 16 word \<Rightarrow> nat \<Rightarrow> nat \<Rightarrow> cc3_data list \<Rightarrow> cc3_data list" where
  "cc3_place symbol temp start swap_spot ds =
     (let ds = ds[start := (ds ! start)\<lparr>e_symbol := e_symbol (ds ! swap_spot), e_count := e_count (ds ! swap_spot)\<rparr>]
      in ds[swap_spot := (ds ! swap_spot)\<lparr>e_symbol := of_nat symbol, e_count := temp\<rparr>])"

definition cc3_add :: "nat \<Rightarrow> 16 word \<Rightarrow> cc3_data list \<Rightarrow> cc3_data list option" where
  "cc3_add symbol amount ds =
     (if e_present (ds ! symbol)
      then case cc3_walk (\<lambda>d. unat (e_symbol d) = symbol \<and> e_count d \<noteq> 0) ds 0 0 of
             None \<Rightarrow> None
           | Some (start, swap_spot) \<Rightarrow> Some (cc3_place symbol (e_count (ds ! start) + amount) start swap_spot ds)
      else let ds = ds[symbol := (ds ! symbol)\<lparr>e_present := True\<rparr>] in
           case cc3_walk (\<lambda>d. e_count d = 0) ds 0 0 of
             None \<Rightarrow> None
           | Some (start, swap_spot) \<Rightarrow> Some (cc3_place symbol amount start swap_spot ds))"

definition cc3_increment_count :: "nat \<Rightarrow> nat \<Rightarrow> 16 word \<Rightarrow> cc3 \<Rightarrow> (bool \<times> cc3) option" where
  "cc3_increment_count A symbol amount s =
     (case (if unat (cc3_total s) + unat amount \<ge> 65536 then cc3_scale A s else Some s) of
        None \<Rightarrow> None
      | Some s \<Rightarrow>
          if symbol < length (cc3_counts s)
          then case cc3_add symbol amount (cc3_counts s) of
                 None \<Rightarrow> None
               | Some ds \<Rightarrow> Some (True, s\<lparr>cc3_counts := ds, cc3_total := cc3_total s + amount\<rparr>)
          else None)"

text \<open>The entry with the symbol, and the sum of the counts before it.\<close>

function cc3_search :: "nat \<Rightarrow> cc3_data list \<Rightarrow> nat \<Rightarrow> nat \<Rightarrow> (nat \<times> nat) option" where
  "cc3_search symbol ds start low_count_temp =
     (if start < length ds
      then if unat (e_symbol (ds ! start)) \<noteq> symbol
           then cc3_search symbol ds (start + 1) (low_count_temp + unat (e_count (ds ! start)))
           else Some (start, low_count_temp)
      else None)"
  by auto
termination by (relation "measure (\<lambda>(symbol, ds, start, s). length ds - start)") auto

declare cc3_search.simps [simp del]

definition cc3_get_count :: "nat \<Rightarrow> cc3 \<Rightarrow> nat option" where
  "cc3_get_count symbol s =
     (let ds = cc3_counts s in
      if symbol < length ds
      then if \<not> e_present (ds ! symbol) then Some 0
           else map_option (\<lambda>(start, low). unat (e_count (ds ! start))) (cc3_search symbol ds 0 0)
      else None)"

definition cc3_get_total :: "cc3 \<Rightarrow> nat" where
  "cc3_get_total s = unat (cc3_total s)"

definition cc3_get_range :: "nat \<Rightarrow> ranges \<Rightarrow> cc3 \<Rightarrow> (nat \<times> ranges) option" where
  "cc3_get_range symbol r s =
     (let ds = cc3_counts s in
      if symbol < length ds
      then if \<not> e_present (ds ! symbol) then Some (0, r)
           else map_option (\<lambda>(start, low). let c = unat (e_count (ds ! start)) in (c, low, low + c, unat (cc3_total s)))
             (cc3_search symbol ds 0 0)
      else None)"

definition cc3_get_symbol :: "nat \<Rightarrow> cc3 \<Rightarrow> ranges option" where
  "cc3_get_symbol target s =
     (case map e_count (cc3_counts s) of
        [] \<Rightarrow> None
      | c # cs \<Rightarrow> map_option (\<lambda>(start, r). (unat (e_symbol (cc3_counts s ! start)), r)) (cc1_seek target 0 (unat c) c cs))"

definition cc3_get_alphabet_size :: "nat \<Rightarrow> nat" where
  "cc3_get_alphabet_size A = A"

section \<open>The entries\<close>

abbreviation cof :: "cc3_data list \<Rightarrow> nat \<Rightarrow> nat" where
  "cof ds i \<equiv> unat (e_count (ds ! i))"

abbreviation sof :: "cc3_data list \<Rightarrow> nat \<Rightarrow> nat" where
  "sof ds i \<equiv> unat (e_symbol (ds ! i))"

text \<open>
  The entry of a symbol with a count comes before every other one with this symbol: so it is the only one that counts.
\<close>

definition entries :: "nat \<Rightarrow> cc3_data list \<Rightarrow> bool" where
  "entries A ds \<longleftrightarrow> length ds = A \<and>
     (\<forall>i<A. 0 < cof ds i \<longrightarrow> sof ds i < A \<and> (\<forall>j<A. sof ds j = sof ds i \<longrightarrow> i \<le> j)) \<and>
     (\<forall>y<A. e_present (ds ! y) \<longleftrightarrow> (\<exists>i<A. 0 < cof ds i \<and> sof ds i = y))"

lemma entriesD:
  assumes "entries A ds"
  shows "length ds = A" "i < A \<Longrightarrow> 0 < cof ds i \<Longrightarrow> sof ds i < A"
    "i < A \<Longrightarrow> 0 < cof ds i \<Longrightarrow> j < A \<Longrightarrow> sof ds j = sof ds i \<Longrightarrow> i \<le> j"
    "y < A \<Longrightarrow> e_present (ds ! y) \<longleftrightarrow> (\<exists>i<A. 0 < cof ds i \<and> sof ds i = y)"
    "i < A \<Longrightarrow> 0 < cof ds i \<Longrightarrow> j < A \<Longrightarrow> 0 < cof ds j \<Longrightarrow> sof ds j = sof ds i \<Longrightarrow> i = j"
proof -
  show "length ds = A" "i < A \<Longrightarrow> 0 < cof ds i \<Longrightarrow> sof ds i < A"
    and le: "\<And>i j. i < A \<Longrightarrow> 0 < cof ds i \<Longrightarrow> j < A \<Longrightarrow> sof ds j = sof ds i \<Longrightarrow> i \<le> j"
    and "y < A \<Longrightarrow> e_present (ds ! y) \<longleftrightarrow> (\<exists>i<A. 0 < cof ds i \<and> sof ds i = y)"
    using assms unfolding entries_def by blast+
  show "i < A \<Longrightarrow> 0 < cof ds i \<Longrightarrow> j < A \<Longrightarrow> 0 < cof ds j \<Longrightarrow> sof ds j = sof ds i \<Longrightarrow> i = j"
    using le [of i j] le [of j i] by simp
qed

definition tally_of :: "nat \<Rightarrow> cc3_data list \<Rightarrow> nat \<Rightarrow> nat" where
  "tally_of A ds y = (\<Sum>i<A. if sof ds i = y then cof ds i else 0)"

lemma tally_entry:
  assumes "entries A ds" "i < A" "0 < cof ds i"
  shows "tally_of A ds (sof ds i) = cof ds i"
proof -
  have "tally_of A ds (sof ds i) = (\<Sum>j<A. if j = i then cof ds i else 0)"
    unfolding tally_of_def
  proof (rule sum.cong)
    fix j assume "j \<in> {..<A}"
    then show "(if sof ds j = sof ds i then cof ds j else 0) = (if j = i then cof ds i else 0)"
      using entriesD(5) [OF assms(1-3), of j] by auto
  qed simp
  also have "\<dots> = cof ds i" using assms(2) by (simp add: sum.delta)
  finally show ?thesis .
qed

lemma tally_none: "(\<And>i. i < A \<Longrightarrow> sof ds i = y \<Longrightarrow> cof ds i = 0) \<Longrightarrow> tally_of A ds y = 0"
  unfolding tally_of_def by (rule sum.neutral) auto

lemma tally_sum:
  assumes "entries A ds"
  shows "(\<Sum>y<A. tally_of A ds y) = (\<Sum>i<A. cof ds i)"
proof -
  have "(\<Sum>y<A. tally_of A ds y) = (\<Sum>i<A. \<Sum>y<A. if sof ds i = y then cof ds i else 0)"
    unfolding tally_of_def by (rule sum.swap)
  also have "\<dots> = (\<Sum>i<A. cof ds i)"
  proof (rule sum.cong)
    fix i assume i: "i \<in> {..<A}"
    have "(\<Sum>y<A. if sof ds i = y then cof ds i else 0) = (if sof ds i < A then cof ds i else 0)"
      by (simp add: sum.delta)
    also have "\<dots> = cof ds i" using entriesD(2) [OF assms, of i] i by auto
    finally show "(\<Sum>y<A. if sof ds i = y then cof ds i else 0) = cof ds i" .
  qed simp
  finally show ?thesis .
qed

lemma present_iff: "entries A ds \<Longrightarrow> y < A \<Longrightarrow> e_present (ds ! y) \<longleftrightarrow> 0 < tally_of A ds y"
proof -
  assume e: "entries A ds" and y: "y < A"
  show ?thesis
  proof (cases "\<exists>i<A. 0 < cof ds i \<and> sof ds i = y")
    case True
    then show ?thesis using entriesD(4) [OF e y] tally_entry [OF e] by auto
  next
    case False
    then have "tally_of A ds y = 0" by (intro tally_none) auto
    with False show ?thesis using entriesD(4) [OF e y] by simp
  qed
qed

section \<open>Scaling\<close>

definition halved_count :: "nat \<Rightarrow> cc3_data list \<Rightarrow> nat \<Rightarrow> nat" where
  "halved_count A ds i = (if cof ds i = 1 then (if sof ds i = A - 1 then 1 else 0) else cof ds i div 2)"

text \<open>The first \<open>n\<close> entries of \<open>ds\<close> are scaled.\<close>

definition scaled_to :: "nat \<Rightarrow> cc3_data list \<Rightarrow> nat \<Rightarrow> 16 word \<Rightarrow> cc3_data list \<Rightarrow> bool" where
  "scaled_to A ds n tot ds' \<longleftrightarrow> length ds' = A \<and>
     (\<forall>i<A. e_symbol (ds' ! i) = e_symbol (ds ! i) \<and> cof ds' i = (if i < n then halved_count A ds i else cof ds i)) \<and>
     (\<forall>y<A. e_present (ds' ! y) \<longleftrightarrow> e_present (ds ! y) \<and> \<not> (\<exists>i<n. cof ds i = 1 \<and> sof ds i = y \<and> y \<noteq> A - 1)) \<and>
     unat tot = (\<Sum>i<n. halved_count A ds i)"

lemma halved_le: "halved_count A ds i \<le> cof ds i"
  by (simp add: halved_count_def)

lemma count_is: "e_count d = 1 \<longleftrightarrow> unat (e_count d) = 1" "e_count d \<noteq> 0 \<longleftrightarrow> 0 < unat (e_count d)"
  by (simp_all add: word_unat_eq_iff)

lemma scaled_step:
  assumes "entries A ds" "scaled_to A ds n tot ds'" "n < A" "(\<Sum>i<A. cof ds i) < 65536"
  shows "\<exists>tot' ds''. cc3_scale_loop A (n # is) tot ds' = cc3_scale_loop A is tot' ds'' \<and> scaled_to A ds (Suc n) tot' ds''"
proof -
  let ?d = "ds' ! n"
  from assms(2) have l: "length ds' = A" and sy: "\<And>i. i < A \<Longrightarrow> e_symbol (ds' ! i) = e_symbol (ds ! i)"
    and cn: "\<And>i. i < A \<Longrightarrow> cof ds' i = (if i < n then halved_count A ds i else cof ds i)"
    and pr: "\<And>y. y < A \<Longrightarrow> e_present (ds' ! y) \<longleftrightarrow> e_present (ds ! y) \<and> \<not> (\<exists>i<n. cof ds i = 1 \<and> sof ds i = y \<and> y \<noteq> A - 1)"
    and tot: "unat tot = (\<Sum>i<n. halved_count A ds i)" unfolding scaled_to_def by blast+
  have d: "cof ds' n = cof ds n" "sof ds' n = sof ds n" using cn [OF assms(3)] sy [OF assms(3)] by simp_all
  have "(\<Sum>i<Suc n. halved_count A ds i) \<le> (\<Sum>i<Suc n. cof ds i)" by (rule sum_mono) (rule halved_le)
  also have "\<dots> \<le> (\<Sum>i<A. cof ds i)" by (rule sum_mono2) (use assms(3) in auto)
  finally have less: "unat tot + halved_count A ds n < 65536" using assms(4) tot by simp
  have less_Suc_ex: "(\<exists>i<Suc n. P i) \<longleftrightarrow> (\<exists>i<n. P i) \<or> P n" for P using less_Suc_eq by auto
  show ?thesis
  proof (cases "cof ds n = 1")
    case one: True
    then have o: "e_count ?d = 1" unfolding count_is d .
    show ?thesis
    proof (cases "sof ds n = A - 1")
      case True
      have "scaled_to A ds (Suc n) (tot + 1) ds'"
        unfolding scaled_to_def less_Suc_ex
        using l sy cn pr tot less one True by (auto simp: halved_count_def less_Suc_eq unat_plus_if_size word_size)
      moreover have "cc3_scale_loop A (n # is) tot ds' = cc3_scale_loop A is (tot + 1) ds'" using o True d by simp
      ultimately show ?thesis by blast
    next
      case False
      let ?y = "sof ds n"
      have y: "?y < A" using entriesD(2) [OF assms(1,3)] one by simp
      let ?ds1 = "ds'[n := ?d\<lparr>e_count := 0\<rparr>]"
      let ?ds2 = "?ds1[?y := (?ds1 ! ?y)\<lparr>e_present := False\<rparr>]"
      have nth: "e_symbol (?ds2 ! i) = e_symbol (ds' ! i)" "e_count (?ds2 ! i) = (if i = n then 0 else e_count (ds' ! i))"
        "e_present (?ds2 ! i) \<longleftrightarrow> i \<noteq> ?y \<and> e_present (ds' ! i)" if "i < A" for i
        using that l y assms(3) by (auto simp: nth_list_update)
      have "scaled_to A ds (Suc n) tot ?ds2"
        unfolding scaled_to_def less_Suc_ex
      proof (intro conjI allI impI)
        show "unat tot = (\<Sum>i<Suc n. halved_count A ds i)" using tot one False by (simp add: halved_count_def)
        fix i assume i: "i < A"
        show "e_symbol (?ds2 ! i) = e_symbol (ds ! i)" "cof ?ds2 i = (if i < Suc n then halved_count A ds i else cof ds i)"
          using nth [OF i] sy [OF i] cn [OF i] one False by (auto simp: halved_count_def)
        show "e_present (?ds2 ! i) \<longleftrightarrow> e_present (ds ! i) \<and>
            \<not> ((\<exists>j<n. cof ds j = 1 \<and> sof ds j = i \<and> i \<noteq> A - 1) \<or> (cof ds n = 1 \<and> sof ds n = i \<and> i \<noteq> A - 1))"
          using nth(3) [OF i] pr [OF i] one False by auto
      qed (use l in simp)
      moreover have "cc3_scale_loop A (n # is) tot ds' = cc3_scale_loop A is tot ?ds2" using o False d y l by (simp add: Let_def)
      ultimately show ?thesis by blast
    qed
  next
    case False
    then have o: "e_count ?d \<noteq> 1" unfolding count_is d .
    let ?d' = "?d\<lparr>e_count := drop_bit 1 (e_count ?d)\<rparr>"
    have h: "unat (e_count ?d') = halved_count A ds n" using False d by (simp add: halved_count_def drop_bit_eq_div unat_div)
    have "scaled_to A ds (Suc n) (tot + e_count ?d') (ds'[n := ?d'])"
      unfolding scaled_to_def less_Suc_ex
    proof (intro conjI allI impI)
      show "unat (tot + e_count ?d') = (\<Sum>i<Suc n. halved_count A ds i)"
        using tot h less by (simp add: unat_plus_if_size word_size)
      fix i assume i: "i < A"
      show "e_symbol (ds'[n := ?d'] ! i) = e_symbol (ds ! i)" "cof (ds'[n := ?d']) i = (if i < Suc n then halved_count A ds i else cof ds i)"
        by (cases "i = n"; use sy [OF i] cn [OF i] h l i in \<open>simp add: less_Suc_eq\<close>)+
      show "e_present (ds'[n := ?d'] ! i) \<longleftrightarrow> e_present (ds ! i) \<and>
          \<not> ((\<exists>j<n. cof ds j = 1 \<and> sof ds j = i \<and> i \<noteq> A - 1) \<or> (cof ds n = 1 \<and> sof ds n = i \<and> i \<noteq> A - 1))"
      proof -
        have "e_present (ds'[n := ?d'] ! i) = e_present (ds' ! i)" by (cases "i = n"; use l i in simp)
        with pr [OF i] False show ?thesis by blast
      qed
    qed (use l in simp)
    moreover have "cc3_scale_loop A (n # is) tot ds' = cc3_scale_loop A is (tot + e_count ?d') (ds'[n := ?d'])" using o by (simp add: Let_def)
    ultimately show ?thesis by blast
  qed
qed

lemma scaled_all:
  assumes "entries A ds" "(\<Sum>i<A. cof ds i) < 65536" "scaled_to A ds n tot ds'" "n \<le> A"
  shows "\<exists>tot' ds''. cc3_scale_loop A [n..<A] tot ds' = Some (tot', ds'') \<and> scaled_to A ds A tot' ds''"
  using assms(3,4)
proof (induction "A - n" arbitrary: n tot ds')
  case 0
  then show ?case by simp
next
  case (Suc k)
  then have n: "n < A" by simp
  from scaled_step [OF assms(1) Suc.prems(1) n assms(2), of "[Suc n..<A]"] obtain tot' ds'' where
    "cc3_scale_loop A (n # [Suc n..<A]) tot ds' = cc3_scale_loop A [Suc n..<A] tot' ds''" "scaled_to A ds (Suc n) tot' ds''" by blast
  with Suc.hyps(1) [of "Suc n" tot' ds''] Suc.hyps(2) n show ?case by (simp add: upt_conv_Cons [OF n])
qed

lemma scaled_entries:
  assumes "entries A ds" "scaled_to A ds A tot ds'"
  shows "entries A ds'" "unat tot = (\<Sum>i<A. cof ds' i)" "tally_of A ds' y = scaled_count A (tally_of A ds) y"
proof -
  from assms(2) have l: "length ds' = A" and sy: "\<And>i. i < A \<Longrightarrow> sof ds' i = sof ds i"
    and cn: "\<And>i. i < A \<Longrightarrow> cof ds' i = halved_count A ds i"
    and pr: "\<And>y. y < A \<Longrightarrow> e_present (ds' ! y) \<longleftrightarrow> e_present (ds ! y) \<and> \<not> (\<exists>i<A. cof ds i = 1 \<and> sof ds i = y \<and> y \<noteq> A - 1)"
    and tot: "unat tot = (\<Sum>i<A. halved_count A ds i)" unfolding scaled_to_def by simp_all
  show "unat tot = (\<Sum>i<A. cof ds' i)" unfolding tot using cn by simp
  have pos: "0 < cof ds' i \<longleftrightarrow> 0 < cof ds i \<and> \<not> (cof ds i = 1 \<and> sof ds i \<noteq> A - 1)" if "i < A" for i
    using cn [OF that] by (auto simp: halved_count_def)
  show e: "entries A ds'"
    unfolding entries_def
  proof (intro conjI allI impI)
    fix i assume i: "i < A" "0 < cof ds' i"
    then have old: "0 < cof ds i" using pos by blast
    show "sof ds' i < A" using entriesD(2) [OF assms(1) i(1) old] sy [OF i(1)] by simp
    fix j assume "j < A" "sof ds' j = sof ds' i"
    then show "i \<le> j" using entriesD(3) [OF assms(1) i(1) old] sy i(1) by simp
  next
    fix y assume y: "y < A"
    show "e_present (ds' ! y) \<longleftrightarrow> (\<exists>i<A. 0 < cof ds' i \<and> sof ds' i = y)"
    proof
      assume "e_present (ds' ! y)"
      with pr [OF y] have "e_present (ds ! y)" and n: "\<not> (\<exists>i<A. cof ds i = 1 \<and> sof ds i = y \<and> y \<noteq> A - 1)" by blast+
      then obtain i where i: "i < A" "0 < cof ds i" "sof ds i = y" using entriesD(4) [OF assms(1) y] by blast
      with n have "\<not> (cof ds i = 1 \<and> sof ds i \<noteq> A - 1)" by blast
      with i(2) pos [OF i(1)] have "0 < cof ds' i" by blast
      with i sy [OF i(1)] show "\<exists>i<A. 0 < cof ds' i \<and> sof ds' i = y" by (intro exI [of _ i]) simp
    next
      assume "\<exists>i<A. 0 < cof ds' i \<and> sof ds' i = y"
      then obtain i where i: "i < A" "0 < cof ds' i" "sof ds i = y" using sy by auto
      have "e_present (ds ! y)" using i pos entriesD(4) [OF assms(1) y] by blast
      moreover have "\<not> (cof ds j = 1 \<and> sof ds j = y \<and> y \<noteq> A - 1)" if j: "j < A" for j
      proof
        assume c: "cof ds j = 1 \<and> sof ds j = y \<and> y \<noteq> A - 1"
        have oi: "0 < cof ds i" "\<not> (cof ds i = 1 \<and> sof ds i \<noteq> A - 1)" using i(2) pos [OF i(1)] by blast+
        have "0 < cof ds j" "sof ds j = sof ds i" using c i(3) by simp_all
        from entriesD(5) [OF assms(1) i(1) oi(1) j this] have "i = j" .
        with c oi(2) show False by blast
      qed
      ultimately show "e_present (ds' ! y)" using pr [OF y] by blast
    qed
  qed (rule l)
  show "tally_of A ds' y = scaled_count A (tally_of A ds) y"
  proof (cases "\<exists>i<A. 0 < cof ds i \<and> sof ds i = y")
    case True
    then obtain i where i: "i < A" "0 < cof ds i" "sof ds i = y" by blast
    note t = tally_entry [OF assms(1) i(1,2)]
    show ?thesis
    proof (cases "0 < cof ds' i")
      case True
      from tally_entry [OF e i(1) True] t cn [OF i(1)] True i sy show ?thesis
        by (auto simp: scaled_count_def halved_count_def)
    next
      case False
      have "cof ds' j = 0" if j: "j < A" "sof ds' j = y" for j
      proof (rule ccontr)
        assume "cof ds' j \<noteq> 0"
        with pos j have "0 < cof ds j" by blast
        with entriesD(5) [OF assms(1) i(1,2) j(1)] j sy i have "j = i" by simp
        with False \<open>cof ds' j \<noteq> 0\<close> show False by simp
      qed
      then have "tally_of A ds' y = 0" by (rule tally_none)
      with t False pos [OF i(1)] i show ?thesis by (auto simp: scaled_count_def)
    qed
  next
    case False
    then have n: "sof ds i = y \<Longrightarrow> cof ds i = 0" if "i < A" for i using that by auto
    have "tally_of A ds y = 0" by (rule tally_none) (rule n)
    moreover have "tally_of A ds' y = 0"
    proof (rule tally_none)
      fix i assume "i < A" "sof ds' i = y"
      with n sy have "cof ds i = 0" by simp
      with halved_le [of A ds i] cn [OF \<open>i < A\<close>] show "cof ds' i = 0" by simp
    qed
    ultimately show ?thesis by (simp add: scaled_count_def)
  qed
qed

section \<open>Counting a symbol\<close>

lemma walk_spec:
  assumes "q < length ds" "stop (ds ! q)" "\<And>k. k < q \<Longrightarrow> \<not> stop (ds ! k)"
    "st \<le> q" "sw \<le> st" "\<And>k. k < st \<Longrightarrow> cof ds sw \<le> cof ds k" "\<And>k. k < sw \<Longrightarrow> cof ds sw < cof ds k"
  shows "\<exists>sw'. cc3_walk stop ds st sw = Some (q, sw') \<and> sw' \<le> q \<and>
    (\<forall>k<q. cof ds sw' \<le> cof ds k) \<and> (\<forall>k< sw'. cof ds sw' < cof ds k)"
  using assms(4-7)
proof (induction "q - st" arbitrary: st sw)
  case 0
  then have "st = q" by simp
  with 0 assms(1,2) show ?case by (intro exI [of _ sw]) (simp add: cc3_walk.simps [of stop ds q])
next
  case (Suc n)
  then have q: "st < q" by simp
  let ?sw = "if e_count (ds ! st) < e_count (ds ! sw) then st else sw"
  have run: "cc3_walk stop ds st sw = cc3_walk stop ds (Suc st) ?sw"
    using q assms(1,3) by (simp add: cc3_walk.simps [of stop ds st])
  have less: "e_count (ds ! st) < e_count (ds ! sw) \<longleftrightarrow> cof ds st < cof ds sw" by (simp add: word_less_nat_alt)
  have "cof ds ?sw \<le> cof ds k" if "k < Suc st" for k
    using that Suc.prems(3) [of k] unfolding less by (cases "k = st") (auto simp: less_Suc_eq)
  moreover have "cof ds ?sw < cof ds k" if "k < ?sw" for k
    using that Suc.prems(3) [of k] Suc.prems(4) [of k] unfolding less by (auto split: if_splits)
  moreover have "?sw \<le> Suc st" using Suc.prems(2) by simp
  ultimately show ?case unfolding run using Suc.hyps(1) [of "Suc st" ?sw] Suc.hyps(2) q by simp
qed

lemma place_nth:
  assumes "st < length ds" "sw < length ds" "k < length ds"
  shows "e_symbol (cc3_place x t st sw ds ! k) = (if k = sw then of_nat x else if k = st then e_symbol (ds ! sw) else e_symbol (ds ! k))"
    "e_count (cc3_place x t st sw ds ! k) = (if k = sw then t else if k = st then e_count (ds ! sw) else e_count (ds ! k))"
    "e_present (cc3_place x t st sw ds ! k) = e_present (ds ! k)"
  using assms by (auto simp: cc3_place_def Let_def nth_list_update)

lemma place_length [simp]: "length (cc3_place x t st sw ds) = length ds"
  by (simp add: cc3_place_def Let_def)

text \<open>
  The entry \<open>st\<close> is the one of the symbol, or the first free one; the entry \<open>sw\<close> moves there, and the symbol to its place.
\<close>

definition spot :: "nat \<Rightarrow> cc3_data list \<Rightarrow> nat \<Rightarrow> nat \<Rightarrow> nat \<Rightarrow> bool" where
  "spot A ds x st sw \<longleftrightarrow> st < A \<and> sw \<le> st \<and> (\<forall>k< st. cof ds sw \<le> cof ds k) \<and>
     ((0 < cof ds st \<and> sof ds st = x) \<or>
      (cof ds st = 0 \<and> (\<forall>k< st. 0 < cof ds k) \<and> (\<forall>i<A. 0 < cof ds i \<longrightarrow> sof ds i \<noteq> x)))"

lemma place_spot:
  assumes "entries A ds" "spot A ds x st sw" "x < A" "A < 65536" "0 < unat t"
    "\<And>k. k < A \<Longrightarrow> e_symbol (ds1 ! k) = e_symbol (ds ! k) \<and> e_count (ds1 ! k) = e_count (ds ! k)"
    "\<And>k. k < A \<Longrightarrow> e_present (ds1 ! k) \<longleftrightarrow> k = x \<or> e_present (ds ! k)" "length ds1 = A"
  defines "ds' \<equiv> cc3_place x t st sw ds1"
  shows "entries A ds'" "tally_of A ds' y = (if y = x then unat t else tally_of A ds y)"
proof -
  from assms(2) have st: "st < A" "sw \<le> st" "sw < A" and m: "\<And>k. k < st \<Longrightarrow> cof ds sw \<le> cof ds k"
    and c: "(0 < cof ds st \<and> sof ds st = x) \<or>
      (cof ds st = 0 \<and> (\<forall>k< st. 0 < cof ds k) \<and> (\<forall>i<A. 0 < cof ds i \<longrightarrow> sof ds i \<noteq> x))" unfolding spot_def by auto
  note P = entriesD(3) [OF assms(1)] and U = entriesD(5) [OF assms(1)]
  have x: "unat (of_nat x :: 16 word) = x" using assms(3,4) by (simp add: unat_of_nat)
  define src where "src k = (if k = st then sw else k)" for k
  have len: "length ds' = A" using assms(8) by (simp add: ds'_def)
  have at_sw: "sof ds' sw = x" "cof ds' sw = unat t"
    using place_nth [of st ds1 sw sw x t] st assms(8) x by (simp_all add: ds'_def)
  have val: "sof ds' k = sof ds (src k)" "cof ds' k = cof ds (src k)" if "k < A" "k \<noteq> sw" for k
    using place_nth [of st ds1 sw k x t] st assms(6) assms(8) that by (simp_all add: ds'_def src_def)
  have fA: "src k < A" "k \<noteq> sw \<Longrightarrow> src k \<noteq> st" if "k < A" for k using that st by (auto simp: src_def)
  have onto: "\<exists>k<A. k \<noteq> sw \<and> src k = i" if "i < A" "i \<noteq> st" for i
    using that st by (intro exI [of _ "if i = sw then st else i"]) (auto simp: src_def)
  have other: "i = st" if "i < A" "0 < cof ds i" "sof ds i = x" for i
    using c
  proof
    assume "0 < cof ds st \<and> sof ds st = x"
    with U [OF that(1,2) st(1)] that(3) show ?thesis by simp
  next
    assume "cof ds st = 0 \<and> (\<forall>k< st. 0 < cof ds k) \<and> (\<forall>i<A. 0 < cof ds i \<longrightarrow> sof ds i \<noteq> x)"
    with that show ?thesis by blast
  qed
  have stale: "st < i" if "i < A" "i \<noteq> st" "sof ds i = x" for i
    using c
  proof
    assume "0 < cof ds st \<and> sof ds st = x"
    with P [OF st(1) _ that(1)] that(2,3) show ?thesis by (simp add: le_neq_implies_less)
  next
    assume a: "cof ds st = 0 \<and> (\<forall>k< st. 0 < cof ds k) \<and> (\<forall>i<A. 0 < cof ds i \<longrightarrow> sof ds i \<noteq> x)"
    note a2 = a [THEN conjunct2, THEN conjunct1, rule_format, of i] and a3 = a [THEN conjunct2, THEN conjunct2, rule_format, OF that(1)]
    have n: "\<not> 0 < cof ds i" using a3 that(3) by metis
    note a2
    with n that(2) show ?thesis by (metis linorder_neqE_nat)
  qed
  have order: "k \<le> j" if k: "k < A" "0 < cof ds' k" and j: "j < A" "sof ds' j = sof ds' k" for k j
  proof (cases "k = sw")
    case True
    show ?thesis
    proof (cases "j = sw")
      case False
      have "st < src j" by (rule stale) (use j False val fA at_sw True in auto)
      then have "src j = j" "st < j" using st(2) by (auto simp: src_def split: if_splits)
      with st(2) True show ?thesis by simp
    qed (use True in simp)
  next
    case ksw: False
    have i: "src k < A" "0 < cof ds (src k)" "src k \<noteq> st" using k val fA ksw by auto
    show ?thesis
    proof (cases "j = sw")
      case True
      then have "sof ds (src k) = x" using j at_sw val(1) [OF k(1) ksw] by simp
      from other [OF i(1,2) this] i(3) show ?thesis by blast
    next
      case jsw: False
      have s: "sof ds (src j) = sof ds (src k)" using j(2) val(1) [OF k(1) ksw] val(1) [OF j(1) jsw] by simp
      have le: "src k \<le> src j" by (rule P [OF i(1,2) fA(1) [OF j(1)] s])
      show ?thesis
      proof (cases "src k = src j")
        case True
        then show ?thesis using ksw jsw by (auto simp: src_def split: if_splits)
      next
        case False
        then have z: "\<not> 0 < cof ds (src j)" using U [OF i(1,2) fA(1) [OF j(1)]] s by metis
        show ?thesis
        proof (cases "k = st")
          case True
          then have "0 < cof ds sw" using i(2) by (simp add: src_def)
          with m z have "\<not> src j < st" by (metis gr0I le_zero_eq)
          moreover have "src j \<noteq> st" using fA(2) [OF j(1) jsw] .
          ultimately show ?thesis using True st(2) by (auto simp: src_def split: if_splits)
        next
          case False
          then show ?thesis using le st(2) by (auto simp: src_def split: if_splits)
        qed
      qed
    qed
  qed
  have sA: "sof ds' k < A" if "k < A" "0 < cof ds' k" for k
    using that val at_sw assms(3) entriesD(2) [OF assms(1) fA(1)] by (cases "k = sw") auto
  have pres: "e_present (ds' ! k) \<longleftrightarrow> (\<exists>i<A. 0 < cof ds' i \<and> sof ds' i = k)" if k: "k < A" for k
  proof (cases "k = x")
    case True
    have "e_present (ds' ! k)"
      using place_nth(3) [of st ds1 sw k x t] st assms(7,8) k True by (simp add: ds'_def)
    moreover have "\<exists>i<A. 0 < cof ds' i \<and> sof ds' i = k"
      using st(3) at_sw assms(5) True by (intro exI [of _ sw]) simp
    ultimately show ?thesis by blast
  next
    case False
    have "e_present (ds' ! k) \<longleftrightarrow> e_present (ds ! k)"
      using place_nth(3) [of st ds1 sw k x t] st assms(7,8) k False by (simp add: ds'_def)
    also have "\<dots> \<longleftrightarrow> (\<exists>i<A. 0 < cof ds i \<and> sof ds i = k)" by (rule entriesD(4) [OF assms(1) k])
    also have "\<dots> \<longleftrightarrow> (\<exists>i<A. 0 < cof ds' i \<and> sof ds' i = k)"
    proof
      assume "\<exists>i<A. 0 < cof ds i \<and> sof ds i = k"
      then obtain i where i: "i < A" "0 < cof ds i" "sof ds i = k" by blast
      have "i \<noteq> st" using c i False by auto
      from onto [OF i(1) this] obtain j where "j < A" "j \<noteq> sw" "src j = i" by blast
      with i val [of j] show "\<exists>i<A. 0 < cof ds' i \<and> sof ds' i = k" by (intro exI [of _ j]) simp
    next
      assume "\<exists>i<A. 0 < cof ds' i \<and> sof ds' i = k"
      then obtain i where i: "i < A" "0 < cof ds' i" "sof ds' i = k" by blast
      with False at_sw have "i \<noteq> sw" by auto
      with i val [of i] fA show "\<exists>i<A. 0 < cof ds i \<and> sof ds i = k" by (intro exI [of _ "src i"]) simp
    qed
    finally show ?thesis .
  qed
  show e: "entries A ds'" unfolding entries_def using len sA order pres by blast
  show "tally_of A ds' y = (if y = x then unat t else tally_of A ds y)"
  proof (cases "y = x")
    case True
    with tally_entry [OF e st(3)] at_sw assms(5) show ?thesis by simp
  next
    case False
    show ?thesis
    proof (cases "\<exists>i<A. 0 < cof ds i \<and> sof ds i = y")
      case True
      then obtain i where i: "i < A" "0 < cof ds i" "sof ds i = y" by blast
      have "i \<noteq> st" using c i False by auto
      from onto [OF i(1) this] obtain j where j: "j < A" "j \<noteq> sw" "src j = i" by blast
      have "tally_of A ds' y = cof ds i" using tally_entry [OF e j(1)] val [OF j(1,2)] j(3) i by simp
      moreover have "tally_of A ds y = cof ds i" using tally_entry [OF assms(1) i(1,2)] i(3) by simp
      ultimately show ?thesis using False by simp
    next
      case none: False
      have "tally_of A ds y = 0" by (rule tally_none) (use none in auto)
      moreover have "tally_of A ds' y = 0"
      proof (rule tally_none)
        fix k assume k: "k < A" "sof ds' k = y"
        with False at_sw have "k \<noteq> sw" by auto
        with k val [of k] fA(1) [of k] none show "cof ds' k = 0" by auto
      qed
      ultimately show ?thesis using False by simp
    qed
  qed
qed

text \<open>Some entry is free as long as the symbol has no count: the symbols of the others are different.\<close>

lemma free_entry:
  assumes "entries A ds" "x < A" "\<And>i. i < A \<Longrightarrow> 0 < cof ds i \<Longrightarrow> sof ds i \<noteq> x"
  obtains q where "q < A" "cof ds q = 0" "\<And>k. k < q \<Longrightarrow> 0 < cof ds k"
proof -
  have "\<exists>q<A. cof ds q = 0"
  proof (rule ccontr)
    assume "\<not> (\<exists>q<A. cof ds q = 0)"
    then have pos: "0 < cof ds i" if "i < A" for i using that by simp
    have "inj_on (sof ds) {..<A}" by (rule inj_onI) (use entriesD(5) [OF assms(1)] pos in fastforce)
    moreover have "sof ds ` {..<A} \<subseteq> {..<A} - {x}" using assms(3) entriesD(2) [OF assms(1)] pos by auto
    ultimately have "card {..<A} \<le> card ({..<A} - {x})" by (metis card_image card_mono finite_Diff finite_lessThan)
    with assms(2) show False by (simp add: card_Diff_singleton)
  qed
  then obtain q where q: "q < A" "cof ds q = 0" by blast
  define p where "p = (LEAST p. cof ds p = 0)"
  have p: "cof ds p = 0" "p \<le> q" unfolding p_def using q(2) by (rule LeastI, rule Least_le)
  have "0 < cof ds k" if "k < p" for k using not_less_Least [OF that [unfolded p_def]] by simp
  with p q(1) show thesis by (intro that [of p]) simp_all
qed

lemma add_spec:
  assumes "entries A ds" "x < A" "A < 65536" "0 < unat amount" "tally_of A ds x + unat amount < 65536"
  shows "\<exists>ds'. cc3_add x amount ds = Some ds' \<and> entries A ds' \<and>
    (\<forall>y. tally_of A ds' y = (if y = x then tally_of A ds x + unat amount else tally_of A ds y))"
proof (cases "e_present (ds ! x)")
  case True
  then obtain i where i: "i < A" "0 < cof ds i" "sof ds i = x" using entriesD(4) [OF assms(1,2)] by blast
  let ?stop = "\<lambda>d. unat (e_symbol d) = x \<and> e_count d \<noteq> 0"
  have len: "length ds = A" using assms(1) by (rule entriesD)
  have "\<exists>sw. cc3_walk ?stop ds 0 0 = Some (i, sw) \<and> sw \<le> i \<and> (\<forall>k<i. cof ds sw \<le> cof ds k) \<and> (\<forall>k < sw. cof ds sw < cof ds k)"
  proof (rule walk_spec)
    show "?stop (ds ! i)" using i unfolding count_is(2) by simp
    show "\<not> ?stop (ds ! k)" if "k < i" for k
    proof
      assume s: "?stop (ds ! k)"
      then have "0 < cof ds k" "sof ds i = sof ds k" using i(3) unfolding count_is(2) by simp_all
      from entriesD(3) [OF assms(1) _ this(1) i(1) this(2)] entriesD(5) [OF assms(1) _ this(1) i(1,2) this(2)] that i(1) show False by simp
    qed
  qed (use i(1) len in simp_all)
  then obtain sw where sw: "cc3_walk ?stop ds 0 0 = Some (i, sw)" "sw \<le> i" "\<And>k. k < i \<Longrightarrow> cof ds sw \<le> cof ds k" by blast
  have t: "tally_of A ds x = cof ds i" using tally_entry [OF assms(1) i(1,2)] i(3) by simp
  have sum: "unat (e_count (ds ! i) + amount) = cof ds i + unat amount" using assms(5) t by (simp add: unat_plus_if_size word_size)
  have sp: "spot A ds x i sw" using i sw by (simp add: spot_def)
  note pl = place_spot [OF assms(1) sp assms(2,3), of "e_count (ds ! i) + amount" ds]
  have pr: "e_present (ds ! k) \<longleftrightarrow> k = x \<or> e_present (ds ! k)" for k using True by auto
  have run: "cc3_add x amount ds = Some (cc3_place x (e_count (ds ! i) + amount) i sw ds)" using True sw(1) by (simp add: cc3_add_def)
  show ?thesis unfolding run using pl assms(4) sum t pr len by simp
next
  case False
  let ?ds = "ds[x := (ds ! x)\<lparr>e_present := True\<rparr>]"
  have len: "length ds = A" using assms(1) by (rule entriesD)
  have none: "sof ds i \<noteq> x" if "i < A" "0 < cof ds i" for i using False that entriesD(4) [OF assms(1,2)] by blast
  obtain q where q: "q < A" "cof ds q = 0" "\<And>k. k < q \<Longrightarrow> 0 < cof ds k" using free_entry [OF assms(1,2) none] by blast
  have same: "e_symbol (?ds ! k) = e_symbol (ds ! k) \<and> e_count (?ds ! k) = e_count (ds ! k)" if "k < A" for k
    using that len assms(2) by (cases "k = x") simp_all
  have pr: "e_present (?ds ! k) \<longleftrightarrow> k = x \<or> e_present (ds ! k)" if "k < A" for k
    using that len assms(2) by (cases "k = x") simp_all
  have "\<exists>sw. cc3_walk (\<lambda>d. e_count d = 0) ?ds 0 0 = Some (q, sw) \<and> sw \<le> q \<and> (\<forall>k<q. cof ?ds sw \<le> cof ?ds k) \<and> (\<forall>k < sw. cof ?ds sw < cof ?ds k)"
  proof (rule walk_spec)
    show "q < length ?ds" using q(1) len by simp
    show "e_count (?ds ! q) = 0" using q(2) same [OF q(1)] by (simp add: unat_eq_0)
    show "e_count (?ds ! k) \<noteq> 0" if "k < q" for k using q(3) [OF that] same [of k] that q(1) unfolding count_is(2) by simp
  qed simp_all
  then obtain sw where sw: "cc3_walk (\<lambda>d. e_count d = 0) ?ds 0 0 = Some (q, sw)" "sw \<le> q" "\<And>k. k < q \<Longrightarrow> cof ?ds sw \<le> cof ?ds k" by blast
  have "cof ds sw \<le> cof ds k" if "k < q" for k using sw(3) [OF that] same [of sw] same [of k] sw(2) that q(1) by simp
  then have sp: "spot A ds x q sw" using q sw(2) none by (simp add: spot_def)
  have t: "tally_of A ds x = 0" by (rule tally_none) (use none in auto)
  note pl = place_spot [OF assms(1) sp assms(2,3,4) same pr]
  have run: "cc3_add x amount ds = Some (cc3_place x amount q sw ?ds)" using False sw(1) by (simp add: cc3_add_def Let_def)
  show ?thesis unfolding run using pl len t by simp
qed

section \<open>The entries implement the contract\<close>

definition cc3_cnt :: "nat \<Rightarrow> cc3 \<Rightarrow> nat \<Rightarrow> nat" where
  "cc3_cnt A s = tally_of A (cc3_counts s)"

definition cc3_inv :: "nat \<Rightarrow> cc3 \<Rightarrow> bool" where
  "cc3_inv A s \<longleftrightarrow> 2 \<le> A \<and> A < 65536 \<and> entries A (cc3_counts s) \<and>
     unat (cc3_total s) = (\<Sum>y<A. cc3_cnt A s y) \<and> 0 < cc3_cnt A s (A - 1)"

definition cc3_low :: "cc3 \<Rightarrow> nat \<Rightarrow> nat" where
  "cc3_low s x = (\<Sum>k<(LEAST p. sof (cc3_counts s) p = x). cof (cc3_counts s) k)"

lemma cc3_total_less: "cc3_inv A s \<Longrightarrow> (\<Sum>y<A. cc3_cnt A s y) < 65536"
  using unsigned_less [of "cc3_total s", where 'a = nat] by (simp add: cc3_inv_def)

lemma search_finds:
  assumes "p < length ds" "sof ds p = x" "\<And>k. k < p \<Longrightarrow> sof ds k \<noteq> x" "st \<le> p"
  shows "cc3_search x ds st low = Some (p, low + (\<Sum>k\<in>{st..<p}. cof ds k))"
  using assms(4)
proof (induction "p - st" arbitrary: st low)
  case 0
  then have "st = p" by simp
  with assms(1,2) show ?case by (simp add: cc3_search.simps [of x ds p])
next
  case (Suc n)
  then have st: "st < p" by simp
  have "cc3_search x ds st low = cc3_search x ds (Suc st) (low + cof ds st)"
    using st assms(1,3) by (simp add: cc3_search.simps [of x ds st])
  also have "\<dots> = Some (p, low + cof ds st + (\<Sum>k\<in>{Suc st..<p}. cof ds k))" using Suc st by simp
  also have "low + cof ds st + (\<Sum>k\<in>{Suc st..<p}. cof ds k) = low + (\<Sum>k\<in>{st..<p}. cof ds k)"
    using st by (simp add: sum.atLeast_Suc_lessThan)
  finally show ?case .
qed

lemma cc3_place_of:
  assumes "cc3_inv A s" "x < A" "0 < cc3_cnt A s x"
  obtains i where "i < A" "cof (cc3_counts s) i = cc3_cnt A s x" "sof (cc3_counts s) i = x"
    "cc3_low s x = (\<Sum>k<i. cof (cc3_counts s) k)" "\<And>k. k < i \<Longrightarrow> sof (cc3_counts s) k \<noteq> x"
proof -
  let ?ds = "cc3_counts s"
  have e: "entries A ?ds" using assms(1) by (simp add: cc3_inv_def)
  have "e_present (?ds ! x)" using present_iff [OF e assms(2)] assms(3) by (simp add: cc3_cnt_def)
  then obtain i where i: "i < A" "0 < cof ?ds i" "sof ?ds i = x" using entriesD(4) [OF e assms(2)] by blast
  have first: "i \<le> k" if "sof ?ds k = x" for k
    using entriesD(3) [OF e i(1,2), of k] that i(1,3) by (cases "k < A") simp_all
  then have "(LEAST p. sof ?ds p = x) = i" using i(3) by (intro Least_equality)
  then have "cc3_low s x = (\<Sum>k<i. cof ?ds k)" by (simp add: cc3_low_def)
  moreover have "cof ?ds i = cc3_cnt A s x" using tally_entry [OF e i(1,2)] i(3) by (simp add: cc3_cnt_def)
  moreover have "sof ?ds k \<noteq> x" if "k < i" for k using first [of k] that by auto
  ultimately show thesis using i that by blast
qed

lemma cc3_range:
  assumes "cc3_inv A s" "x < A"
  shows "cc3_cnt A s x = 0 \<Longrightarrow> cc3_get_range x r s = Some (0, r)"
    "0 < cc3_cnt A s x \<Longrightarrow>
      cc3_get_range x r s = Some (cc3_cnt A s x, cc3_low s x, cc3_low s x + cc3_cnt A s x, (\<Sum>y<A. cc3_cnt A s y))"
proof -
  have e: "entries A (cc3_counts s)" and tot: "unat (cc3_total s) = (\<Sum>y<A. cc3_cnt A s y)" using assms(1) by (simp_all add: cc3_inv_def)
  have len: "x < length (cc3_counts s)" using assms(2) entriesD(1) [OF e] by simp
  note p = present_iff [OF e assms(2), folded cc3_cnt_def]
  show "cc3_cnt A s x = 0 \<Longrightarrow> cc3_get_range x r s = Some (0, r)"
    using p len by (simp add: cc3_get_range_def Let_def)
  assume pos: "0 < cc3_cnt A s x"
  obtain i where i: "i < A" "cof (cc3_counts s) i = cc3_cnt A s x" "sof (cc3_counts s) i = x"
    "cc3_low s x = (\<Sum>k<i. cof (cc3_counts s) k)" "\<And>k. k < i \<Longrightarrow> sof (cc3_counts s) k \<noteq> x"
    using cc3_place_of [OF assms pos] by blast
  have "cc3_search x (cc3_counts s) 0 0 = Some (i, cc3_low s x)"
    using search_finds [of i "cc3_counts s" x 0 0] i entriesD(1) [OF e] by (simp add: atLeast0LessThan)
  then show "cc3_get_range x r s = Some (cc3_cnt A s x, cc3_low s x, cc3_low s x + cc3_cnt A s x, (\<Sum>y<A. cc3_cnt A s y))"
    using p pos len i(2) tot by (simp add: cc3_get_range_def Let_def)
qed

lemma cc3_low_le:
  assumes "cc3_inv A s" "x < A" "0 < cc3_cnt A s x"
  shows "cc3_low s x + cc3_cnt A s x \<le> (\<Sum>y<A. cc3_cnt A s y)"
proof -
  let ?ds = "cc3_counts s"
  obtain i where i: "i < A" "cof ?ds i = cc3_cnt A s x" "cc3_low s x = (\<Sum>k<i. cof ?ds k)"
    using cc3_place_of [OF assms] by blast
  have "(\<Sum>k<Suc i. cof ?ds k) \<le> (\<Sum>k<A. cof ?ds k)" by (rule sum_mono2) (use i(1) in auto)
  moreover have "(\<Sum>y<A. cc3_cnt A s y) = (\<Sum>k<A. cof ?ds k)"
    unfolding cc3_cnt_def by (rule tally_sum) (use assms(1) in \<open>simp add: cc3_inv_def\<close>)
  ultimately show ?thesis using i(2,3) by simp
qed

lemma cc3_finds:
  assumes "cc3_inv A s" "x < A" "cc3_low s x \<le> target" "target < cc3_low s x + cc3_cnt A s x"
  shows "cc3_get_symbol target s = Some (x, cc3_low s x, cc3_low s x + cc3_cnt A s x)"
proof -
  let ?ds = "cc3_counts s"
  have "0 < cc3_cnt A s x" using assms(3,4) by simp
  then obtain i where i: "i < A" "cof ?ds i = cc3_cnt A s x" "sof ?ds i = x" "cc3_low s x = (\<Sum>k<i. cof ?ds k)"
    using cc3_place_of [OF assms(1,2)] by blast
  have len: "length ?ds = A" using assms(1) entriesD(1) by (auto simp: cc3_inv_def)
  then obtain c cs where cs: "map e_count ?ds = c # cs" using i(1) by (cases ?ds) auto
  have lc: "Suc (length cs) = A" using len cs by (metis length_Cons length_map)
  have nth: "unat (map e_count ?ds ! k) = cof ?ds k" if "k < A" for k using that len by simp
  have low: "(\<Sum>y<i. unat (map e_count ?ds ! y)) = cc3_low s x" unfolding i(4) by (rule sum.cong) (use nth i(1) in simp_all)
  have "cc1_seek (0 + target) 0 (0 + unat c) c cs = Some (0 + i, 0 + (\<Sum>y<i. unat (map e_count ?ds ! y)),
      0 + (\<Sum>y<i. unat (map e_count ?ds ! y)) + unat (map e_count ?ds ! i))"
    by (rule cc1_seek_finds) (use i(1) len assms(3,4) low nth [OF i(1)] i(2) cs lc in simp_all)
  then have "cc1_seek target 0 (unat c) c cs = Some (i, cc3_low s x, cc3_low s x + cc3_cnt A s x)"
    unfolding low nth [OF i(1)] i(2) by simp
  then show ?thesis using i(3) by (simp add: cc3_get_symbol_def cs)
qed

lemma cc3_counted:
  assumes "cc3_inv A s" "x < A" "0 < amount" "unat amount < 32768"
  shows "\<exists>s'. cc3_increment_count A x amount s = Some (True, s') \<and> cc3_inv A s' \<and>
    (\<forall>y < A. cc3_cnt A s' y = incremented A x (unat amount) (cc3_cnt A s) y)"
proof -
  let ?f = "cc3_cnt A s"
  note inv = assms(1) [unfolded cc3_inv_def]
  define g where "g = (if (\<Sum>y<A. ?f y) + unat amount < 65536 then ?f else scaled_count A ?f)"
  have e: "entries A (cc3_counts s)" using inv by blast
  obtain t where t: "(if unat (cc3_total s) + unat amount \<ge> 65536 then cc3_scale A s else Some s) = Some t"
    "entries A (cc3_counts t)" "cc3_cnt A t = g" "unat (cc3_total t) = (\<Sum>y<A. g y)"
  proof (cases "unat (cc3_total s) + unat amount \<ge> 65536")
    case False
    with inv show thesis by (intro that [of s]) (simp_all add: g_def)
  next
    case True
    have less: "(\<Sum>i<A. cof (cc3_counts s) i) < 65536"
      using cc3_total_less [OF assms(1)] tally_sum [OF e] by (simp add: cc3_cnt_def)
    have "scaled_to A (cc3_counts s) 0 0 (cc3_counts s)" using entriesD(1) [OF e] by (simp add: scaled_to_def)
    from scaled_all [OF e less this] obtain tot ds where d: "cc3_scale_loop A [0..<A] 0 (cc3_counts s) = Some (tot, ds)"
      "scaled_to A (cc3_counts s) A tot ds" by blast
    note se = scaled_entries [OF e d(2)]
    let ?t = "s\<lparr>cc3_total := tot, cc3_counts := ds\<rparr>"
    have c: "cc3_cnt A ?t = scaled_count A ?f" using se(3) by (simp add: cc3_cnt_def fun_eq_iff)
    have "cc3_scale A s = Some ?t" using d(1) by (simp add: cc3_scale_def)
    moreover have "unat tot = (\<Sum>y<A. cc3_cnt A ?t y)" using se(2) tally_sum [OF se(1)] by (simp add: cc3_cnt_def)
    moreover have "g = scaled_count A ?f" using True inv by (simp add: g_def)
    ultimately show thesis using True se(1) c by (intro that [of ?t]) simp_all
  qed
  note bounds = incremented_bounds [of A x ?f "unat amount"]
  have cg: "incremented A x (unat amount) ?f = g(x := g x + unat amount)" by (simp add: incremented_def g_def Let_def)
  have sum: "(\<Sum>y<A. g y) + unat amount < 65536"
    using bounds(1) inv assms cc3_total_less [OF assms(1)] unfolding cg sum_update [OF assms(2)] by simp
  have "g x \<le> (\<Sum>y<A. g y)" by (rule member_le_sum) (use assms(2) in simp_all)
  then have gx: "tally_of A (cc3_counts t) x + unat amount < 65536" using sum t(3) by (simp add: cc3_cnt_def)
  have pos: "0 < unat amount" using assms(3) by (simp add: word_less_nat_alt)
  from add_spec [OF t(2) assms(2) _ pos gx] inv obtain ds where ds: "cc3_add x amount (cc3_counts t) = Some ds" "entries A ds"
    "\<And>y. tally_of A ds y = (if y = x then tally_of A (cc3_counts t) x + unat amount else tally_of A (cc3_counts t) y)" by blast
  let ?s = "t\<lparr>cc3_counts := ds, cc3_total := cc3_total t + amount\<rparr>"
  have "length (cc3_counts t) = A" using t(2) by (rule entriesD)
  then have run: "cc3_increment_count A x amount s = Some (True, ?s)"
    using t(1) ds(1) assms(2) by (simp add: cc3_increment_count_def)
  have c: "cc3_cnt A ?s = incremented A x (unat amount) ?f"
    unfolding cg using ds(3) t(3) by (auto simp: cc3_cnt_def fun_eq_iff)
  have "unat (cc3_total ?s) = (\<Sum>y<A. cc3_cnt A ?s y)"
    unfolding c cg sum_update [OF assms(2)] using sum t(4) by (simp add: unat_plus_if_size word_size)
  moreover have "0 < cc3_cnt A ?s (A - 1)" unfolding c using bounds(2) inv assms cc3_total_less [OF assms(1)] by auto
  ultimately have "cc3_inv A ?s" using inv ds(2) by (simp add: cc3_inv_def)
  with run c show ?thesis by auto
qed

lemma cc3_first_inv:
  assumes "2 \<le> A" "A < 65536" "length memory = A"
  shows "cc3_inv A (cc3_first memory A) \<and> cc3_cnt A (cc3_first memory A) = first_counts A"
proof -
  define ds where "ds = cc3_reset A memory"
  have len: "length ds = A" using assms(3) by (simp add: ds_def cc3_reset_def Let_def)
  have lastw: "unat (of_nat (A - 1) :: 16 word) = A - 1"
    using assms(1,2) by (simp only: unat_of_nat) simp
  have c: "cof ds i = (if i = 0 then 1 else 0)" "i = 0 \<Longrightarrow> sof ds i = A - 1" "e_present (ds ! i) \<longleftrightarrow> i = A - 1" if "i < A" for i
    using that assms lastw by (auto simp: ds_def cc3_reset_def Let_def nth_list_update)
  have e: "entries A ds"
    unfolding entries_def
  proof (intro conjI allI impI)
    fix i assume i: "i < A" "0 < cof ds i"
    then have "i = 0" using c(1) by (cases "i = 0") simp_all
    then show "sof ds i < A" "\<And>j. i \<le> j" using c(2) [OF i(1)] assms(1) by simp_all
  next
    fix y assume y: "y < A"
    have "\<exists>i<A. 0 < cof ds i \<and> sof ds i = A - 1" using c [of 0] assms(1) by (intro exI [of _ 0]) simp
    moreover have "sof ds i = A - 1" if "i < A" "0 < cof ds i" for i using c(1,2) that by (cases "i = 0") simp_all
    ultimately show "e_present (ds ! y) \<longleftrightarrow> (\<exists>i<A. 0 < cof ds i \<and> sof ds i = y)" using c(3) [OF y] by blast
  qed (rule len)
  have cnt: "tally_of A ds y = first_counts A y" for y
  proof (cases "y = A - 1")
    case True
    then show ?thesis using tally_entry [OF e, of 0] c [of 0] assms(1) by (simp add: first_counts_def)
  next
    case False
    have "tally_of A ds y = 0"
    proof (rule tally_none)
      fix i assume i: "i < A" "sof ds i = y"
      with c(2) [OF i(1)] False have "i \<noteq> 0" by metis
      with c(1) [OF i(1)] show "cof ds i = 0" by simp
    qed
    with False show ?thesis by (simp add: first_counts_def)
  qed
  have "(\<Sum>y<A. first_counts A y) = 1" using assms(1) by (simp add: first_counts_def sum.delta)
  then show ?thesis
    using assms e cnt by (simp add: cc3_inv_def cc3_cnt_def cc3_first_def ds_def [symmetric] fun_eq_iff first_counts_def)
qed

text \<open>The constructor for an array of the size of the alphabet, whatever its memory holds.\<close>

definition cc3_memory :: "(nat \<Rightarrow> cc3_data) \<Rightarrow> nat \<Rightarrow> cc3_data list" where
  "cc3_memory memory A = map memory [0..<A]"

interpretation cc3: conditioning A "cc3_first (cc3_memory memory A) A" "cc3_increment_count A" cc3_get_total cc3_get_range cc3_get_symbol
  "cc3_inv A" "cc3_cnt A" cc3_low for A memory
proof unfold_locales
  show "2 \<le> A \<Longrightarrow> A < 65536 \<Longrightarrow> cc3_inv A (cc3_first (cc3_memory memory A) A)"
    "\<And>y. 2 \<le> A \<Longrightarrow> A < 65536 \<Longrightarrow> y < A \<Longrightarrow> cc3_cnt A (cc3_first (cc3_memory memory A) A) y = first_counts A y"
    using cc3_first_inv [of A "cc3_memory memory A"] by (simp_all add: cc3_memory_def)
qed (use cc3_total_less cc3_low_le cc3_finds cc3_counted cc3_range in \<open>auto simp: cc3_inv_def cc3_get_total_def\<close>)

end
