(* ===== verification/Conditioning_Pool.thy ===== *)
theory Conditioning_Pool
  imports Conditioning_Class
begin

text \<open>
  \<open>conditioning_class/conditioning_class_kernel_4.h\<close>: the counts as a linked list whose nodes come from a pool that all
  objects with the same global state share. When the pool is empty, a symbol without a node is not counted.
\<close>

section \<open>The object\<close>

text \<open>The nodes (symbol, count) in the order of the list; of the memory manager the number of allocations.\<close>

record cc4 =
  cc4_total :: "16 word"
  cc4_escapes :: "16 word"
  cc4_next :: "(16 word \<times> 16 word) list"

record cc4_global =
  cc4_memory_usage :: "64 word"
  cc4_allocations :: "64 word"

definition cc4_global_init :: "64 word \<Rightarrow> cc4_global" where
  "cc4_global_init pool_size = \<lparr>cc4_memory_usage = pool_size * 16 + 32, cc4_allocations = 0\<rparr>"

definition cc4_first :: cc4 where
  "cc4_first = \<lparr>cc4_total = 1, cc4_escapes = 1, cc4_next = []\<rparr>"

definition cc4_construct :: "cc4_global \<Rightarrow> cc4 \<times> cc4_global" where
  "cc4_construct g = (cc4_first, g\<lparr>cc4_memory_usage := cc4_memory_usage g + 24\<rparr>)"

definition cc4_clear :: "cc4 \<times> cc4_global \<Rightarrow> cc4 \<times> cc4_global" where
  "cc4_clear = (\<lambda>(s, g). (s\<lparr>cc4_total := 1, cc4_escapes := 1, cc4_next := []\<rparr>,
     g\<lparr>cc4_allocations := fold (\<lambda>n a. a - 1) (cc4_next s) (cc4_allocations g)\<rparr>))"

definition cc4_destroy :: "cc4 \<times> cc4_global \<Rightarrow> cc4_global" where
  "cc4_destroy w = (let (s, g) = cc4_clear w in g\<lparr>cc4_memory_usage := cc4_memory_usage g - 24\<rparr>)"

definition cc4_get_memory_usage :: "cc4 \<times> cc4_global \<Rightarrow> 64 word" where
  "cc4_get_memory_usage = (\<lambda>(s, g). cc4_memory_usage g)"

definition half_counts :: "cc4 \<Rightarrow> cc4" where
  "half_counts s =
     (let escapes = (if cc4_escapes s > 1 then drop_bit 1 (cc4_escapes s) else cc4_escapes s);
          ns = map (\<lambda>(y, c). (y, drop_bit 1 c)) (cc4_next s)
      in s\<lparr>cc4_total := fold (\<lambda>(y, c) tot. tot + c) ns 0 + escapes, cc4_escapes := escapes, cc4_next := ns\<rparr>)"

definition half_if_large :: "16 word \<Rightarrow> cc4 \<Rightarrow> cc4" where
  "half_if_large amount s = (if unat (cc4_total s) + unat amount \<ge> 65536 then half_counts s else s)"

text \<open>
  The walk along the list, which removes nodes with the count 0 on its way: the nodes before the one with the symbol, the node and
  the nodes behind it, or all nodes when the symbol has none; and the number of allocations. The list is not empty.
\<close>

fun cc4_walk :: "16 word \<Rightarrow> (16 word \<times> 16 word) list \<Rightarrow> (16 word \<times> 16 word) list \<Rightarrow> 64 word \<Rightarrow>
    (16 word \<times> 16 word) list \<times> (16 word \<times> 16 word) list \<times> 64 word" where
  "cc4_walk symbol pre [] a = (pre, [], a)"
| "cc4_walk symbol pre (temp # ns) a =
     (if fst temp = symbol then (pre, temp # ns, a)
      else if ns = [] then (pre @ [temp], [], a)
      else if snd temp = 0 then cc4_walk symbol pre ns (a - 1)
      else cc4_walk symbol (pre @ [temp]) ns a)"

text \<open>The node behind \<open>pre\<close> gets \<open>amount\<close>, and is swapped with the one before it when it has more.\<close>

definition cc4_bump :: "16 word \<Rightarrow> nat \<Rightarrow> (16 word \<times> 16 word) list \<Rightarrow> (16 word \<times> 16 word) list" where
  "cc4_bump amount i ns =
     (let temp = (fst (ns ! i), snd (ns ! i) + amount) in
      if i \<noteq> 0 \<and> snd temp > snd (ns ! (i - 1)) then ns[i := ns ! (i - 1), i - 1 := temp] else ns[i := temp])"

definition cc4_append :: "64 word \<Rightarrow> 16 word \<Rightarrow> 16 word \<Rightarrow> cc4 \<times> cc4_global \<Rightarrow> bool \<times> cc4 \<times> cc4_global" where
  "cc4_append pool_size symbol amount = (\<lambda>(s, g).
     if cc4_allocations g < pool_size
     then let s = half_if_large amount s
          in (True, s\<lparr>cc4_next := cc4_next s @ [(symbol, amount)], cc4_total := cc4_total s + amount\<rparr>,
              g\<lparr>cc4_allocations := cc4_allocations g + 1\<rparr>)
     else (False, s, g))"

definition cc4_increment_count :: "nat \<Rightarrow> 64 word \<Rightarrow> nat \<Rightarrow> 16 word \<Rightarrow> cc4 \<times> cc4_global \<Rightarrow> (bool \<times> cc4 \<times> cc4_global) option" where
  "cc4_increment_count A pool_size symbol amount = (\<lambda>(s, g).
     if symbol = A - 1
     then let s = half_if_large amount s
          in Some (True, s\<lparr>cc4_escapes := cc4_escapes s + amount, cc4_total := cc4_total s + amount\<rparr>, g)
     else case cc4_walk (of_nat symbol) [] (cc4_next s) (cc4_allocations g) of
            (pre, temp # ns, a) \<Rightarrow>
              let s = half_if_large amount (s\<lparr>cc4_next := pre @ temp # ns\<rparr>)
              in Some (True, s\<lparr>cc4_total := cc4_total s + amount, cc4_next := cc4_bump amount (length pre) (cc4_next s)\<rparr>,
                   g\<lparr>cc4_allocations := a\<rparr>)
          | (pre, [], a) \<Rightarrow>
              Some (cc4_append pool_size (of_nat symbol) amount (s\<lparr>cc4_next := pre\<rparr>, g\<lparr>cc4_allocations := a\<rparr>)))"

fun cc4_find :: "16 word \<Rightarrow> nat \<Rightarrow> (16 word \<times> 16 word) list \<Rightarrow> (nat \<times> nat) option" where
  "cc4_find symbol low [] = None"
| "cc4_find symbol low (temp # ns) =
     (if fst temp = symbol then Some (unat (snd temp), low) else cc4_find symbol (low + unat (snd temp)) ns)"

definition cc4_get_count :: "nat \<Rightarrow> nat \<Rightarrow> cc4 \<times> cc4_global \<Rightarrow> nat" where
  "cc4_get_count A symbol = (\<lambda>(s, g).
     if symbol = A - 1 then unat (cc4_escapes s)
     else case List.find (\<lambda>temp. unat (fst temp) = symbol) (cc4_next s) of None \<Rightarrow> 0 | Some temp \<Rightarrow> unat (snd temp))"

definition cc4_get_total :: "cc4 \<times> cc4_global \<Rightarrow> nat" where
  "cc4_get_total = (\<lambda>(s, g). unat (cc4_total s))"

text \<open>A node with the count 0 sets the three parameters, too.\<close>

definition cc4_get_range :: "nat \<Rightarrow> nat \<Rightarrow> ranges \<Rightarrow> cc4 \<times> cc4_global \<Rightarrow> (nat \<times> ranges) option" where
  "cc4_get_range A symbol r = (\<lambda>(s, g).
     if symbol \<noteq> A - 1
     then case cc4_find (of_nat symbol) 0 (cc4_next s) of
            Some (c, low) \<Rightarrow> Some (c, low, c + low, unat (cc4_total s))
          | None \<Rightarrow> Some (0, r)
     else Some (unat (cc4_escapes s), nat (to_ulong (uint (cc4_total s) - uint (cc4_escapes s))), unat (cc4_total s), unat (cc4_total s)))"

fun cc4_seek :: "nat \<Rightarrow> nat \<Rightarrow> (16 word \<times> 16 word) list \<Rightarrow> ranges option" where
  "cc4_seek target high [] = None"
| "cc4_seek target high (temp # ns) =
     (let high = high + unat (snd temp) in
      if target < high then Some (unat (fst temp), high - unat (snd temp), high) else cc4_seek target high ns)"

definition cc4_get_symbol :: "nat \<Rightarrow> nat \<Rightarrow> cc4 \<times> cc4_global \<Rightarrow> ranges option" where
  "cc4_get_symbol A target = (\<lambda>(s, g).
     case cc4_seek target 0 (cc4_next s) of
       Some r \<Rightarrow> Some r
     | None \<Rightarrow> Some (A - 1, nat (to_ulong (uint (cc4_total s) - uint (cc4_escapes s))), unat (cc4_total s)))"

definition cc4_get_alphabet_size :: "nat \<Rightarrow> nat" where
  "cc4_get_alphabet_size A = A"

section \<open>The counts of a list\<close>

definition list_count :: "(16 word \<times> 16 word) list \<Rightarrow> nat \<Rightarrow> nat" where
  "list_count ns y = (\<Sum>n\<leftarrow>ns. if unat (fst n) = y then unat (snd n) else 0)"

definition list_total :: "(16 word \<times> 16 word) list \<Rightarrow> nat" where
  "list_total ns = (\<Sum>n\<leftarrow>ns. unat (snd n))"

definition list_low :: "(16 word \<times> 16 word) list \<Rightarrow> nat \<Rightarrow> nat" where
  "list_low ns y = list_total (takeWhile (\<lambda>n. unat (fst n) \<noteq> y) ns)"

lemma list_simps [simp]:
  "list_count [] y = 0" "list_count (n # ns) y = (if unat (fst n) = y then unat (snd n) else 0) + list_count ns y"
  "list_count (ns @ ms) y = list_count ns y + list_count ms y"
  "list_total [] = 0" "list_total (n # ns) = unat (snd n) + list_total ns" "list_total (ns @ ms) = list_total ns + list_total ms"
  "list_low [] y = 0" "list_low (n # ns) y = (if unat (fst n) = y then 0 else unat (snd n) + list_low ns y)"
  by (simp_all add: list_count_def list_total_def list_low_def)

lemma list_mset:
  assumes "mset ns = mset ms"
  shows "list_count ns y = list_count ms y" "list_total ns = list_total ms"
proof -
  have "list_count xs y = (\<Sum>n\<in>#mset xs. if unat (fst n) = y then unat (snd n) else 0)"
    "list_total xs = (\<Sum>n\<in>#mset xs. unat (snd n))" for xs
    by (induction xs) simp_all
  with assms show "list_count ns y = list_count ms y" "list_total ns = list_total ms" by simp_all
qed

lemma list_count_none: "y \<notin> unat ` fst ` set ns \<Longrightarrow> list_count ns y = 0"
  by (induction ns) auto

lemma list_count_later:
  assumes "distinct (map fst (n # ns))" "unat (fst n) = y"
  shows "list_count ns y = 0"
proof (rule list_count_none)
  show "y \<notin> unat ` fst ` set ns"
  proof
    assume "y \<in> unat ` fst ` set ns"
    then obtain m where "m \<in> set ns" "unat (fst m) = unat (fst n)" using assms(2) by auto
    then have "fst n \<in> fst ` set ns" by (metis imageI word_unat_eq_iff)
    with assms(1) show False by simp
  qed
qed

lemma list_count_sum:
  assumes "\<forall>n \<in> set ns. unat (fst n) < B"
  shows "(\<Sum>y<B. list_count ns y) = list_total ns"
  using assms
proof (induction ns)
  case (Cons n ns)
  have "(\<Sum>y<B. list_count (n # ns) y) = (\<Sum>y<B. if unat (fst n) = y then unat (snd n) else 0) + (\<Sum>y<B. list_count ns y)"
    by (simp add: sum.distrib)
  also have "(\<Sum>y<B. if unat (fst n) = y then unat (snd n) else 0) = unat (snd n)" using Cons.prems by (simp add: sum.delta')
  finally show ?case using Cons by simp
qed simp

lemma list_low_le: "list_low ns y + list_count ns y \<le> list_total ns"
proof (induction ns)
  case (Cons n ns)
  have "list_count ns y \<le> list_total ns" using Cons by simp
  with Cons show ?case by simp
qed simp

definition nodes_ok :: "nat \<Rightarrow> (16 word \<times> 16 word) list \<Rightarrow> bool" where
  "nodes_ok B ns \<longleftrightarrow> distinct (map fst ns) \<and> fst ` set ns \<subseteq> {y. unat y < B}"

lemma find_spec:
  assumes "distinct (map fst ns)" "y < 65536"
  shows "cc4_find (of_nat y) l ns = (if y \<in> unat ` fst ` set ns then Some (list_count ns y, l + list_low ns y) else None)"
proof -
  have w: "unat (of_nat y :: 16 word) = y" using assms(2) by (simp add: unat_of_nat)
  have iff: "v = of_nat y \<longleftrightarrow> unat v = y" for v :: "16 word"
    by (metis w word_unat_eq_iff)
  show ?thesis using assms(1)
  proof (induction ns arbitrary: l)
    case (Cons n ns)
    show ?case
    proof (cases "unat (fst n) = y")
      case True
      with Cons.prems have "list_count ns y = 0" by (intro list_count_later)
      with True show ?thesis by (simp add: iff)
    next
      case False
      then show ?thesis using Cons by (auto simp: iff)
    qed
  qed simp
qed

lemma seek_found:
  assumes "distinct (map fst ns)" "h + list_low ns y \<le> t" "t < h + list_low ns y + list_count ns y"
  shows "cc4_seek t h ns = Some (y, h + list_low ns y, h + list_low ns y + list_count ns y)"
  using assms
proof (induction ns arbitrary: h)
  case (Cons n ns)
  show ?case
  proof (cases "unat (fst n) = y")
    case True
    with Cons.prems(1) have "list_count ns y = 0" by (intro list_count_later)
    with True Cons.prems show ?thesis by simp
  next
    case False
    then show ?thesis using Cons.IH [of "h + unat (snd n)"] Cons.prems by (simp add: add.assoc)
  qed
qed simp

lemma seek_none: "h + list_total ns \<le> t \<Longrightarrow> cc4_seek t h ns = None"
  by (induction ns arbitrary: h) auto

lemma pool_walk_spec:
  assumes "nodes_ok B (pre @ ns)" "symbol \<notin> fst ` set pre" "cc4_walk symbol pre ns a = (p, q, a')"
  shows "nodes_ok B (p @ q) \<and> (\<forall>y. list_count (p @ q) y = list_count (pre @ ns) y) \<and> list_total (p @ q) = list_total (pre @ ns) \<and>
    (case q of [] \<Rightarrow> symbol \<notin> fst ` set p | n # ms \<Rightarrow> fst n = symbol)"
  using assms
proof (induction symbol pre ns a rule: cc4_walk.induct)
  case (1 symbol pre a)
  then show ?case by simp
next
  case (2 symbol pre n ns a)
  consider (found) "fst n = symbol" | (last) "fst n \<noteq> symbol" "ns = []" | (zero) "fst n \<noteq> symbol" "ns \<noteq> []" "snd n = 0"
    | (more) "fst n \<noteq> symbol" "ns \<noteq> []" "snd n \<noteq> 0" by blast
  then show ?case
  proof cases
    case zero
    with 2(5) have "cc4_walk symbol pre ns (a - 1) = (p, q, a')" by simp
    moreover have "nodes_ok B (pre @ ns)" using 2(3) by (auto simp: nodes_ok_def)
    ultimately show ?thesis using 2(1) [OF zero] 2(4) zero(3) by simp
  next
    case more
    with 2(5) have "cc4_walk symbol (pre @ [n]) ns a = (p, q, a')" by simp
    then show ?thesis using 2(2) [OF more] 2(3,4) more(1) by simp
  qed (use 2(3-5) in force)+
qed

lemma bump_mset: "i < length ns \<Longrightarrow> mset (cc4_bump amount i ns) = mset (ns[i := (fst (ns ! i), snd (ns ! i) + amount)])"
proof -
  assume i: "i < length ns"
  let ?temp = "(fst (ns ! i), snd (ns ! i) + amount)"
  let ?ms = "ns[i := ?temp]"
  have "ns[i := ns ! (i - 1), i - 1 := ?temp] = ?ms[i := ?ms ! (i - 1), i - 1 := ?ms ! i]" if "i \<noteq> 0"
    using that i by (simp add: nth_list_update)
  moreover have "mset (?ms[i := ?ms ! (i - 1), i - 1 := ?ms ! i]) = mset ?ms" using i by (intro mset_swap) simp_all
  ultimately show ?thesis by (auto simp: cc4_bump_def Let_def)
qed

lemma update_spec:
  assumes "i < length ns" "unat (snd (ns ! i)) + unat a < 65536"
  shows "list_count (ns[i := (fst (ns ! i), snd (ns ! i) + a)]) y = list_count ns y + (if unat (fst (ns ! i)) = y then unat a else 0)"
    "list_total (ns[i := (fst (ns ! i), snd (ns ! i) + a)]) = list_total ns + unat a"
    "map fst (ns[i := (fst (ns ! i), snd (ns ! i) + a)]) = map fst ns"
proof -
  have w: "unat (snd (ns ! i) + a) = unat (snd (ns ! i)) + unat a" using assms(2) by (simp add: unat_plus_if_size word_size)
  define l m where "l = take i ns" and "m = drop (Suc i) ns"
  have ns: "ns = l @ ns ! i # m" "ns[i := (fst (ns ! i), snd (ns ! i) + a)] = l @ (fst (ns ! i), snd (ns ! i) + a) # m"
    using assms(1) by (simp_all add: l_def m_def id_take_nth_drop [symmetric] upd_conv_take_nth_drop)
  have "list_count ns y = list_count (l @ ns ! i # m) y" "list_total ns = list_total (l @ ns ! i # m)" by (rule arg_cong [OF ns(1)])+
  then show "list_count (ns[i := (fst (ns ! i), snd (ns ! i) + a)]) y = list_count ns y + (if unat (fst (ns ! i)) = y then unat a else 0)"
    "list_total (ns[i := (fst (ns ! i), snd (ns ! i) + a)]) = list_total ns + unat a"
    unfolding ns(2) list_simps fst_conv snd_conv w by simp_all
  show "map fst (ns[i := (fst (ns ! i), snd (ns ! i) + a)]) = map fst ns"
    using assms(1) by (simp add: map_update list_update_same_conv)
qed

lemma nodes_mset: "mset (map fst ns) = mset (map fst ms) \<Longrightarrow> nodes_ok B ns \<Longrightarrow> nodes_ok B ms"
proof -
  assume m: "mset (map fst ns) = mset (map fst ms)" and ok: "nodes_ok B ns"
  from m have "distinct (map fst ns) = distinct (map fst ms)" by (rule mset_eq_imp_distinct_iff)
  moreover from m have "set (map fst ns) = set (map fst ms)" by (rule mset_eq_setD)
  ultimately show ?thesis using ok unfolding nodes_ok_def by simp
qed

section \<open>The invariant\<close>

definition cc4_ok :: "nat \<Rightarrow> cc4 \<Rightarrow> bool" where
  "cc4_ok A s \<longleftrightarrow> 2 \<le> A \<and> A < 65536 \<and> nodes_ok (A - 1) (cc4_next s) \<and>
     unat (cc4_total s) = list_total (cc4_next s) + unat (cc4_escapes s) \<and> 0 < unat (cc4_escapes s)"

definition cc4_count :: "nat \<Rightarrow> cc4 \<Rightarrow> nat \<Rightarrow> nat" where
  "cc4_count A s y = (if y = A - 1 then unat (cc4_escapes s) else list_count (cc4_next s) y)"

lemma cc4_first_ok: "2 \<le> A \<Longrightarrow> A < 65536 \<Longrightarrow> cc4_ok A cc4_first" "cc4_count A cc4_first = first_counts A"
  by (simp_all add: cc4_ok_def cc4_first_def nodes_ok_def cc4_count_def first_counts_def fun_eq_iff)

lemma cc4_sum:
  assumes "cc4_ok A s"
  shows "(\<Sum>y<A. cc4_count A s y) = unat (cc4_total s)" "(\<Sum>y<A. cc4_count A s y) < 65536"
proof -
  obtain B where A: "A = Suc B" using assms by (cases A) (simp_all add: cc4_ok_def)
  have "(\<Sum>y<B. cc4_count A s y) = (\<Sum>y<B. list_count (cc4_next s) y)" by (rule sum.cong) (simp_all add: cc4_count_def A)
  also have "\<dots> = list_total (cc4_next s)" using assms by (intro list_count_sum) (auto simp: cc4_ok_def nodes_ok_def A)
  finally show "(\<Sum>y<A. cc4_count A s y) = unat (cc4_total s)" using assms by (simp add: A cc4_count_def cc4_ok_def)
  then show "(\<Sum>y<A. cc4_count A s y) < 65536" using unsigned_less [of "cc4_total s", where 'a = nat] by simp
qed

lemma fold_total: "unat t + list_total ns < 65536 \<Longrightarrow> unat (fold (\<lambda>(y, c) tot. tot + c) ns t) = unat t + list_total ns"
proof (induction ns arbitrary: t)
  case (Cons n ns)
  then have "unat (t + snd n) = unat t + unat (snd n)" by (simp add: unat_plus_if_size word_size)
  with Cons show ?case by (simp add: case_prod_beta)
qed simp

lemma unat_half: "unat (drop_bit (Suc 0) (x :: 16 word)) = unat x div 2"
  by (simp add: drop_bit_eq_div unat_div)

lemma halved_list:
  assumes "distinct (map fst ns)"
  shows "list_count (map (\<lambda>(y, c). (y, drop_bit 1 c)) ns) y = list_count ns y div 2"
    "list_total (map (\<lambda>(y, c). (y, drop_bit 1 c)) ns) \<le> list_total ns"
    "map fst (map (\<lambda>(y, c). (y, drop_bit 1 c)) ns) = map fst ns"
proof -
  show "list_count (map (\<lambda>(y, c). (y, drop_bit 1 c)) ns) y = list_count ns y div 2"
    using assms
  proof (induction ns)
    case (Cons n ns)
    show ?case
    proof (cases "unat (fst n) = y")
      case True
      from list_count_later [OF Cons.prems True] Cons True show ?thesis by (simp add: case_prod_beta unat_half)
    next
      case False
      with Cons show ?thesis by (simp add: case_prod_beta)
    qed
  qed simp
  show "list_total (map (\<lambda>(y, c). (y, drop_bit 1 c)) ns) \<le> list_total ns"
    by (induction ns) (auto simp: unat_half intro: add_mono)
  show "map fst (map (\<lambda>(y, c). (y, drop_bit 1 c)) ns) = map fst ns" by (simp add: case_prod_beta comp_def)
qed

lemma half_ok:
  assumes "cc4_ok A s"
  shows "cc4_ok A (half_counts s)" "y < A \<Longrightarrow> cc4_count A (half_counts s) y = scaled_count A (cc4_count A s) y"
    "map fst (cc4_next (half_counts s)) = map fst (cc4_next s)"
proof -
  let ?ns = "map (\<lambda>(y, c). (y, drop_bit 1 c)) (cc4_next s)"
  let ?e = "if cc4_escapes s > 1 then drop_bit 1 (cc4_escapes s) else cc4_escapes s"
  have ok: "2 \<le> A" "A < 65536" "nodes_ok (A - 1) (cc4_next s)" "unat (cc4_total s) = list_total (cc4_next s) + unat (cc4_escapes s)"
    "0 < unat (cc4_escapes s)" using assms by (simp_all add: cc4_ok_def)
  then have d: "distinct (map fst (cc4_next s))" by (simp add: nodes_ok_def)
  have e: "unat ?e = (if unat (cc4_escapes s) = 1 then 1 else unat (cc4_escapes s) div 2)"
    using ok(5) by (auto simp: unat_half word_less_nat_alt)
  have le: "list_total ?ns + unat ?e < 65536"
    using halved_list(2) [OF d] ok(4) unsigned_less [of "cc4_total s", where 'a = nat] e by auto
  have t: "unat (fold (\<lambda>(y, c) tot. tot + c) ?ns 0 + ?e) = list_total ?ns + unat ?e"
    using fold_total [of 0 ?ns] le by (simp add: unat_plus_if_size word_size)
  have n: "nodes_ok (A - 1) ?ns" by (rule nodes_mset [OF _ ok(3)]) (simp only: halved_list(3) [OF d])
  show "cc4_ok A (half_counts s)"
    using ok n t e by (auto simp: cc4_ok_def half_counts_def Let_def)
  show "y < A \<Longrightarrow> cc4_count A (half_counts s) y = scaled_count A (cc4_count A s) y"
    using e halved_list(1) [OF d] by (simp add: cc4_count_def half_counts_def Let_def scaled_count_def)
  show "map fst (cc4_next (half_counts s)) = map fst (cc4_next s)"
    using halved_list(3) [OF d] by (simp add: half_counts_def Let_def)
qed

text \<open>The counts when there is room for \<open>amount\<close>.\<close>

definition roomy :: "nat \<Rightarrow> nat \<Rightarrow> (nat \<Rightarrow> nat) \<Rightarrow> nat \<Rightarrow> nat" where
  "roomy A amount f = (if (\<Sum>y<A. f y) + amount < 65536 then f else scaled_count A f)"

lemma incremented_roomy: "incremented A x amount f = (roomy A amount f)(x := roomy A amount f x + amount)"
  by (simp add: incremented_def roomy_def Let_def)

lemma half_if_large_ok:
  assumes "cc4_ok A s" "unat amount < 32768"
  shows "cc4_ok A (half_if_large amount s)" "y < A \<Longrightarrow> cc4_count A (half_if_large amount s) y = roomy A (unat amount) (cc4_count A s) y"
    "map fst (cc4_next (half_if_large amount s)) = map fst (cc4_next s)" "unat (cc4_total (half_if_large amount s)) + unat amount < 65536"
proof -
  note sum = cc4_sum [OF assms(1)] and h = half_ok [OF assms(1)]
  show "cc4_ok A (half_if_large amount s)" using assms(1) h(1) by (simp add: half_if_large_def)
  show "y < A \<Longrightarrow> cc4_count A (half_if_large amount s) y = roomy A (unat amount) (cc4_count A s) y"
    using sum(1) h(2) by (auto simp: half_if_large_def roomy_def)
  show "map fst (cc4_next (half_if_large amount s)) = map fst (cc4_next s)" using h(3) by (simp add: half_if_large_def)
  have "2 \<le> A" "0 < cc4_count A s (A - 1)" using assms(1) by (simp_all add: cc4_ok_def cc4_count_def)
  from scaled_sum [OF this sum(2)] have "(\<Sum>y<A. cc4_count A (half_counts s) y) \<le> 32768"
    using h(2) by (simp cong: sum.cong_simp)
  with cc4_sum(1) [OF h(1)] show "unat (cc4_total (half_if_large amount s)) + unat amount < 65536"
    using assms(2) by (simp add: half_if_large_def)
qed

section \<open>Counting\<close>

lemma roomy_cong:
  assumes "\<forall>y<A. f y = g y" "y < A" "2 \<le> A"
  shows "roomy A a f y = roomy A a g y"
proof -
  have "(\<Sum>y<A. f y) = (\<Sum>y<A. g y)" "f y = g y" using assms by simp_all
  moreover have "scaled_count A f y = scaled_count A g y" unfolding scaled_count_def \<open>f y = g y\<close> by (rule refl)
  ultimately show ?thesis by (simp add: roomy_def)
qed

text \<open>Adding an amount to the count of one symbol.\<close>

lemma counted_ok:
  assumes ok: "cc4_ok A s" and room: "unat (cc4_total s) + unat a < 65536"
    and n: "nodes_ok (A - 1) ns" "list_total ns + unat e = list_total (cc4_next s) + unat (cc4_escapes s) + unat a" "0 < unat e"
  shows "cc4_ok A (s\<lparr>cc4_total := cc4_total s + a, cc4_escapes := e, cc4_next := ns\<rparr>)"
  using assms by (simp add: cc4_ok_def unat_plus_if_size word_size)

lemma cc4_increment_spec:
  assumes ok: "cc4_ok A s" and x: "x < A" and a: "unat amount < 32768"
  shows "\<exists>b s' g'. cc4_increment_count A pool_size x amount (s, g) = Some (b, s', g') \<and> cc4_ok A s' \<and>
    (if b then \<forall>y<A. cc4_count A s' y = incremented A x (unat amount) (cc4_count A s) y
     else (\<forall>y<A. cc4_count A s' y = cc4_count A s y) \<and> cc4_count A s x = 0 \<and> x < A - 1 \<and> pool_size \<le> cc4_allocations g')"
proof (cases "x = A - 1")
  case True
  let ?s = "half_if_large amount s"
  note h = half_if_large_ok [OF ok a]
  have e: "unat (cc4_escapes ?s + amount) = unat (cc4_escapes ?s) + unat amount"
    using h(1,4) by (simp add: cc4_ok_def unat_plus_if_size word_size)
  have "cc4_ok A (?s\<lparr>cc4_total := cc4_total ?s + amount, cc4_escapes := cc4_escapes ?s + amount, cc4_next := cc4_next ?s\<rparr>)"
    using h(1) by (intro counted_ok [OF h(1,4)]) (simp_all add: e cc4_ok_def)
  then have "cc4_ok A (?s\<lparr>cc4_escapes := cc4_escapes ?s + amount, cc4_total := cc4_total ?s + amount\<rparr>)"
    by (simp add: cc4_ok_def)
  moreover have "cc4_count A (?s\<lparr>cc4_escapes := cc4_escapes ?s + amount, cc4_total := cc4_total ?s + amount\<rparr>) y =
      incremented A x (unat amount) (cc4_count A s) y" if "y < A" for y
    using h(2) [OF that] True by (cases "y = x") (simp_all add: cc4_count_def incremented_roomy e)
  ultimately show ?thesis using True by (intro exI [of _ True]) (simp add: cc4_increment_count_def Let_def)
next
  case False
  have A: "2 \<le> A" "A < 65536" "nodes_ok (A - 1) (cc4_next s)" using ok by (simp_all add: cc4_ok_def)
  have w: "unat (of_nat x :: 16 word) = x" using x A(2) by (simp add: unat_of_nat)
  obtain p q al where walk: "cc4_walk (of_nat x) [] (cc4_next s) (cc4_allocations g) = (p, q, al)" by (metis prod_cases3)
  from pool_walk_spec [of "A - 1" "[]" "cc4_next s" "of_nat x" "cc4_allocations g" p q al] A(3) walk
  have p: "nodes_ok (A - 1) (p @ q)" "\<And>y. list_count (p @ q) y = list_count (cc4_next s) y" "list_total (p @ q) = list_total (cc4_next s)"
    "case q of [] \<Rightarrow> of_nat x \<notin> fst ` set p | n # ms \<Rightarrow> fst n = of_nat x" by simp_all
  let ?t = "s\<lparr>cc4_next := p @ q\<rparr>"
  have s0: "cc4_ok A ?t" "cc4_count A ?t = cc4_count A s"
    using ok p(1,3) p(2) by (simp_all add: cc4_ok_def cc4_count_def fun_eq_iff)
  let ?s = "half_if_large amount ?t"
  note h = half_if_large_ok [OF s0(1) a, unfolded s0(2)]
  have hs: "nodes_ok (A - 1) (cc4_next ?s)" "0 < unat (cc4_escapes ?s)"
    "unat (cc4_total ?s) = list_total (cc4_next ?s) + unat (cc4_escapes ?s)" using h(1) by (simp_all add: cc4_ok_def)
  show ?thesis
  proof (cases q)
    case (Cons n ms)
    with p(4) have n: "fst n = of_nat x" by simp
    let ?i = "length p" and ?ns = "cc4_next ?s"
    have fs: "map fst ?ns = map fst p @ of_nat x # map fst ms" using h(3) n by (simp add: Cons)
    have "length (map fst ?ns) = length p + 1 + length ms" "map fst ?ns ! ?i = of_nat x" unfolding fs by (simp_all add: nth_append)
    then have i: "?i < length ?ns" "fst (?ns ! ?i) = of_nat x" by simp_all
    have "unat (snd (?ns ! ?i)) \<le> list_total ?ns" using i(1) by (simp add: list_total_def member_le_sum_list)
    then have room: "unat (snd (?ns ! ?i)) + unat amount < 65536" using hs(3) h(4) by linarith
    note u = update_spec [OF i(1) room] and m = bump_mset [OF i(1), of amount]
    let ?ns' = "cc4_bump amount ?i ?ns"
    have c: "list_count ?ns' y = list_count ?ns y + (if y = x then unat amount else 0)" for y
      using list_mset(1) [OF m] u(1) i(2) w by auto
    have t: "list_total ?ns' = list_total ?ns + unat amount" using list_mset(2) [OF m] u(2) by simp
    have "mset (map fst ?ns') = mset (map fst ?ns)" using m u(3) by (metis mset_map)
    then have "nodes_ok (A - 1) ?ns'" using nodes_mset [OF _ hs(1)] by metis
    then have "cc4_ok A (?s\<lparr>cc4_total := cc4_total ?s + amount, cc4_escapes := cc4_escapes ?s, cc4_next := ?ns'\<rparr>)"
      by (intro counted_ok [OF h(1,4)]) (simp_all add: t hs(2))
    moreover have "cc4_count A (?s\<lparr>cc4_total := cc4_total ?s + amount, cc4_next := ?ns'\<rparr>) y =
        incremented A x (unat amount) (cc4_count A s) y" if "y < A" for y
      using h(2) [OF that] False by (auto simp: cc4_count_def incremented_roomy c)
    ultimately show ?thesis using False walk Cons by (intro exI [of _ True]) (simp add: cc4_increment_count_def Let_def cc4_ok_def)
  next
    case Nil
    with p(4) have none: "of_nat x \<notin> fst ` set p" by simp
    have "x \<notin> unat ` fst ` set p"
    proof
      assume "x \<in> unat ` fst ` set p"
      then obtain v where "v \<in> fst ` set p" "x = unat v" by blast
      with w none show False by (metis word_unat_eq_iff)
    qed
    then have "list_count p x = 0" by (rule list_count_none)
    with p(2) [of x] Nil have zero: "list_count (cc4_next s) x = 0" by simp
    show ?thesis
    proof (cases "al < pool_size")
      case False
      then have "pool_size \<le> al" by (simp add: not_less)
      moreover have "cc4_count A s x = 0" "x < A - 1" using zero x \<open>x \<noteq> A - 1\<close> by (simp_all add: cc4_count_def)
      moreover have "cc4_append pool_size (of_nat x) amount (?t, g\<lparr>cc4_allocations := al\<rparr>) = (False, ?t, g\<lparr>cc4_allocations := al\<rparr>)"
        using False by (simp add: cc4_append_def)
      then have "cc4_increment_count A pool_size x amount (s, g) = Some (False, ?t, g\<lparr>cc4_allocations := al\<rparr>)"
        using walk \<open>x \<noteq> A - 1\<close> by (simp add: cc4_increment_count_def Nil)
      ultimately show ?thesis using s0 by (intro exI [of _ False]) simp
    next
      case room: True
      let ?ns' = "cc4_next ?s @ [(of_nat x, amount)]"
      have "map fst (cc4_next ?s) = map fst p" using h(3) by (simp add: Nil)
      then have f: "fst ` set (cc4_next ?s) = fst ` set p" by (metis list.set_map)
      have "x < A - 1" using x False by simp
      with hs(1) none f w have n: "nodes_ok (A - 1) ?ns'" by (auto simp: nodes_ok_def)
      have "cc4_ok A (?s\<lparr>cc4_total := cc4_total ?s + amount, cc4_escapes := cc4_escapes ?s, cc4_next := ?ns'\<rparr>)"
        using n by (intro counted_ok [OF h(1,4)]) (simp_all add: hs(2))
      then have "cc4_ok A (?s\<lparr>cc4_next := ?ns', cc4_total := cc4_total ?s + amount\<rparr>)" by (simp add: cc4_ok_def)
      moreover have "cc4_count A (?s\<lparr>cc4_next := ?ns', cc4_total := cc4_total ?s + amount\<rparr>) y =
          incremented A x (unat amount) (cc4_count A s) y" if "y < A" for y
        using h(2) [OF that] False w by (auto simp: cc4_count_def incremented_roomy)
      ultimately show ?thesis using False walk Nil room by (intro exI [of _ True]) (simp add: cc4_increment_count_def cc4_append_def Let_def)
    qed
  qed
qed

section \<open>The list implements the contract\<close>

definition cc4_inv :: "nat \<Rightarrow> cc4 \<times> cc4_global \<Rightarrow> bool" where
  "cc4_inv A = (\<lambda>(s, g). cc4_ok A s)"

definition cc4_cnt :: "nat \<Rightarrow> cc4 \<times> cc4_global \<Rightarrow> nat \<Rightarrow> nat" where
  "cc4_cnt A = (\<lambda>(s, g). cc4_count A s)"

definition cc4_low :: "nat \<Rightarrow> cc4 \<times> cc4_global \<Rightarrow> nat \<Rightarrow> nat" where
  "cc4_low A = (\<lambda>(s, g) y. if y = A - 1 then list_total (cc4_next s) else list_low (cc4_next s) y)"

lemma cc4_rest:
  assumes "cc4_ok A s"
  shows "nat (to_ulong (uint (cc4_total s) - uint (cc4_escapes s))) = list_total (cc4_next s)"
proof -
  have e: "unat (cc4_total s) = list_total (cc4_next s) + unat (cc4_escapes s)" using assms by (simp add: cc4_ok_def)
  have "int (unat (cc4_total s)) = int (list_total (cc4_next s) + unat (cc4_escapes s))" by (simp only: e)
  then have "uint (cc4_total s) - uint (cc4_escapes s) = int (list_total (cc4_next s))" by simp
  moreover have "list_total (cc4_next s) < 65536"
    using assms unsigned_less [of "cc4_total s", where 'a = nat] by (simp add: cc4_ok_def)
  ultimately show ?thesis by (simp add: to_ulong_id)
qed

interpretation cc4: coding_class A "cc4_increment_count A pool_size" cc4_get_total "cc4_get_range A" "cc4_get_symbol A"
  "cc4_inv A" "cc4_cnt A" "cc4_low A" for A pool_size
proof unfold_locales
  fix w :: "cc4 \<times> cc4_global" and x target r and amount :: "16 word" assume i: "cc4_inv A w"
  obtain s g where w: "w = (s, g)" by (cases w)
  from i have ok: "cc4_ok A s" by (simp add: w cc4_inv_def)
  then have A: "2 \<le> A" "A < 65536" "distinct (map fst (cc4_next s))" "0 < unat (cc4_escapes s)"
    "unat (cc4_total s) = list_total (cc4_next s) + unat (cc4_escapes s)" by (simp_all add: cc4_ok_def nodes_ok_def)
  show "2 \<le> A" "cc4_get_total w < 65536" "0 < cc4_cnt A w (A - 1)"
    using A(1,4) unsigned_less [of "cc4_total s", where 'a = nat] by (simp_all add: w cc4_get_total_def cc4_cnt_def cc4_count_def)
  assume x: "x < A"
  then have x16: "x < 65536" using A(2) by simp
  note find = find_spec [OF A(3) x16, of 0]
  show "cc4_cnt A w x = 0 \<Longrightarrow> \<exists>r'. cc4_get_range A x r w = Some (0, r')"
    using find A(4) by (cases r) (auto simp: w cc4_cnt_def cc4_count_def cc4_get_range_def split: if_splits)
  show "cc4_get_range A x r w = Some (cc4_cnt A w x, cc4_low A w x, cc4_low A w x + cc4_cnt A w x, cc4_get_total w)" if "0 < cc4_cnt A w x"
  proof (cases "x = A - 1")
    case True
    then show ?thesis using A(5) cc4_rest [OF ok] by (simp add: w cc4_get_range_def cc4_cnt_def cc4_count_def cc4_low_def cc4_get_total_def)
  next
    case False
    with that have "0 < list_count (cc4_next s) x" by (simp add: w cc4_cnt_def cc4_count_def)
    then have "x \<in> unat ` fst ` set (cc4_next s)" using list_count_none [of x "cc4_next s"] by (metis less_irrefl)
    with find False show ?thesis by (simp add: w cc4_get_range_def cc4_cnt_def cc4_count_def cc4_low_def cc4_get_total_def)
  qed
  show "cc4_low A w x + cc4_cnt A w x \<le> cc4_get_total w"
    using list_low_le [of "cc4_next s" x] A(5) by (simp add: w cc4_low_def cc4_cnt_def cc4_count_def cc4_get_total_def)
  show "cc4_get_symbol A target w = Some (x, cc4_low A w x, cc4_low A w x + cc4_cnt A w x)"
    if t: "cc4_low A w x \<le> target" "target < cc4_low A w x + cc4_cnt A w x"
  proof (cases "x = A - 1")
    case True
    then have "cc4_seek target 0 (cc4_next s) = None" using t by (intro seek_none) (simp add: w cc4_low_def)
    then show ?thesis using True A(5) cc4_rest [OF ok] by (simp add: w cc4_get_symbol_def cc4_low_def cc4_cnt_def cc4_count_def)
  next
    case False
    then show ?thesis using seek_found [OF A(3), of 0 x target] t by (simp add: w cc4_get_symbol_def cc4_low_def cc4_cnt_def cc4_count_def)
  qed
  show "unat amount < 32768 \<Longrightarrow> \<exists>b w'. cc4_increment_count A pool_size x amount w = Some (b, w') \<and> cc4_inv A w'"
    using cc4_increment_spec [OF ok x, of amount pool_size g] by (auto simp: w cc4_inv_def)
qed

lemma list_count_found:
  "distinct (map fst ns) \<Longrightarrow>
    (case List.find (\<lambda>n. unat (fst n) = y) ns of None \<Rightarrow> 0 | Some n \<Rightarrow> unat (snd n)) = list_count ns y"
proof (induction ns)
  case (Cons n ns)
  then show ?case using list_count_later [of n ns y] by simp
qed simp

lemma cc4_get_count_eq: "cc4_ok A s \<Longrightarrow> cc4_get_count A y (s, g) = cc4_count A s y"
  by (simp add: cc4_get_count_def cc4_count_def cc4_ok_def nodes_ok_def list_count_found)

section \<open>Properties\<close>

text \<open>
  C36. In a list that keeps its invariant, \<open>increment_count\<close> keeps it and never fails in any other way than by returning \<open>false\<close>. When it
  returns \<open>true\<close>, the counts are those of the other implementations, which are what the documentation ensures except for the
  last symbol with the count 1 when the counts are halved: it then has \<open>1 + amount\<close>, where the documentation says \<open>amount\<close>, or 1.
  When it returns \<open>false\<close>, no count has changed, the symbol had none and is not the last of the alphabet, and the pool has no
  node left.
\<close>

theorem pool_counts_or_refuses:
  assumes "cc4_ok A s" "x < A" "unat amount < 32768"
  shows "\<exists>b s' g'. cc4_increment_count A pool_size x amount (s, g) = Some (b, s', g') \<and> cc4_ok A s' \<and>
    (if b then (\<forall>y<A. cc4_get_count A y (s', g') = incremented A x (unat amount) (\<lambda>y. cc4_get_count A y (s, g)) y) \<and>
       (if last_kept A x (unat amount) (\<lambda>y. cc4_get_count A y (s, g)) then cc4_get_count A x (s', g') = 1 + unat amount
        else documented A x (unat amount) (\<lambda>y. cc4_get_count A y (s, g)) (\<lambda>y. cc4_get_count A y (s', g')))
     else (\<forall>y<A. cc4_get_count A y (s', g') = cc4_get_count A y (s, g)) \<and> cc4_get_count A x (s, g) = 0 \<and>
       x < A - 1 \<and> pool_size \<le> cc4_allocations g')"
proof -
  from cc4_increment_spec [OF assms] obtain b s' g' where
    r: "cc4_increment_count A pool_size x amount (s, g) = Some (b, s', g')" "cc4_ok A s'"
      "if b then \<forall>y<A. cc4_count A s' y = incremented A x (unat amount) (cc4_count A s) y
       else (\<forall>y<A. cc4_count A s' y = cc4_count A s y) \<and> cc4_count A s x = 0 \<and> x < A - 1 \<and> pool_size \<le> cc4_allocations g'"
    by blast
  have eq: "(\<lambda>y. cc4_get_count A y (s, g)) = cc4_count A s" "(\<lambda>y. cc4_get_count A y (s', g')) = cc4_count A s'"
    using cc4_get_count_eq [OF assms(1)] cc4_get_count_eq [OF r(2)] by auto
  show ?thesis
  proof (intro exI [of _ b] exI [of _ s'] exI [of _ g'] conjI r(1,2), cases b)
    case True
    with r(3) have c: "\<forall>y<A. cc4_count A s' y = incremented A x (unat amount) (cc4_count A s) y" by simp
    from incremented_documented [OF assms(2) this] c True show "if b then (\<forall>y<A. cc4_get_count A y (s', g') =
          incremented A x (unat amount) (\<lambda>y. cc4_get_count A y (s, g)) y) \<and>
       (if last_kept A x (unat amount) (\<lambda>y. cc4_get_count A y (s, g)) then cc4_get_count A x (s', g') = 1 + unat amount
        else documented A x (unat amount) (\<lambda>y. cc4_get_count A y (s, g)) (\<lambda>y. cc4_get_count A y (s', g')))
     else (\<forall>y<A. cc4_get_count A y (s', g') = cc4_get_count A y (s, g)) \<and> cc4_get_count A x (s, g) = 0 \<and>
       x < A - 1 \<and> pool_size \<le> cc4_allocations g'"
      unfolding eq using cc4_get_count_eq [OF assms(1)] cc4_get_count_eq [OF r(2)] by simp
  next
    case False
    with r(3) show "if b then (\<forall>y<A. cc4_get_count A y (s', g') =
          incremented A x (unat amount) (\<lambda>y. cc4_get_count A y (s, g)) y) \<and>
       (if last_kept A x (unat amount) (\<lambda>y. cc4_get_count A y (s, g)) then cc4_get_count A x (s', g') = 1 + unat amount
        else documented A x (unat amount) (\<lambda>y. cc4_get_count A y (s, g)) (\<lambda>y. cc4_get_count A y (s', g')))
     else (\<forall>y<A. cc4_get_count A y (s', g') = cc4_get_count A y (s, g)) \<and> cc4_get_count A x (s, g) = 0 \<and>
       x < A - 1 \<and> pool_size \<le> cc4_allocations g'"
      using cc4_get_count_eq [OF assms(1)] cc4_get_count_eq [OF r(2)] by simp
  qed
qed

theorem pool_counts_or_refuses_witness:
  "\<forall>g. \<exists>b s' g'. cc4_increment_count 3 1 1 2 (cc4_first, g) = Some (b, s', g') \<and> cc4_ok 3 s' \<and>
    (\<not> b \<longrightarrow> (\<forall>y<3. cc4_get_count 3 y (s', g') = cc4_get_count 3 y (cc4_first, g)))"
proof
  fix g
  have h: "cc4_ok 3 cc4_first" "1 < (3 :: nat)" "unat (2 :: 16 word) < 32768" by (simp_all add: cc4_first_ok)
  from pool_counts_or_refuses [OF h, of 1 g]
  show "\<exists>b s' g'. cc4_increment_count 3 1 1 2 (cc4_first, g) = Some (b, s', g') \<and> cc4_ok 3 s' \<and>
    (\<not> b \<longrightarrow> (\<forall>y<3. cc4_get_count 3 y (s', g') = cc4_get_count 3 y (cc4_first, g)))"
    by (auto split: if_splits)
qed

end
