(* ===== verification/Order_Models.thy ===== *)
theory Order_Models
  imports Compress_Stream Conditioning_Tree Conditioning_List Conditioning_Pool
begin

text \<open>
  The models of the orders -1, 0 and 1, \<open>entropy_encoder_model_kernel_6.h\<close>, \<open>_1.h\<close>, \<open>_2.h\<close> and their decoders. The
  conditioning classes are the parameter: the proofs are made once under their contract, and the models with each of the
  three implementations fulfil the contract of the compressor.
\<close>

section \<open>Order -1\<close>

text \<open>The classes have no state but the coder.\<close>

definition order_m1_encode ::
  "(32 word \<Rightarrow> 32 word \<Rightarrow> 32 word \<Rightarrow> 'c \<Rightarrow> (unit, 'c) io) \<Rightarrow> nat \<Rightarrow> 64 word \<Rightarrow> unit \<times> 'c \<Rightarrow> (unit, unit \<times> 'c) io" where
  "order_m1_encode enc N symbol = on_stream (enc (ucast symbol) (ucast (symbol + 1)) (of_nat N))"

definition order_m1_decode ::
  "(32 word \<Rightarrow> 'd \<Rightarrow> (32 word, 'd) io) \<Rightarrow> (32 word \<Rightarrow> 32 word \<Rightarrow> 'd \<Rightarrow> (unit, 'd) io) \<Rightarrow> nat \<Rightarrow> unit \<times> 'd \<Rightarrow> (64 word, unit \<times> 'd) io" where
  "order_m1_decode get dec N =
     bind_io (on_stream (get (of_nat N))) (\<lambda>target.
     bind_io (on_stream (dec target (target + 1))) (\<lambda>_. Returned (ucast target)))"

section \<open>Order 0\<close>

text \<open>
  The operations of a conditioning class, the template argument \<open>cc\<close>. The state of the model is the conditioning class
  \<open>order_0\<close> behind what the caller keeps besides, nothing here and the contexts of order 1 below.
\<close>

record 's cc_ops =
  op_increment :: "nat \<Rightarrow> 16 word \<Rightarrow> 's \<Rightarrow> (bool \<times> 's) option"
  op_total :: "'s \<Rightarrow> nat"
  op_range :: "nat \<Rightarrow> ranges \<Rightarrow> 's \<Rightarrow> (nat \<times> ranges) option"
  op_symbol :: "nat \<Rightarrow> 's \<Rightarrow> ranges option"

definition count_up :: "'s cc_ops \<Rightarrow> nat \<Rightarrow> 16 word \<Rightarrow> 's \<Rightarrow> (unit \<times> 's) option" where
  "count_up cc symbol amount s = (case op_increment cc symbol amount s of None \<Rightarrow> None | Some (b, s) \<Rightarrow> Some ((), s))"

definition look_up :: "'s cc_ops \<Rightarrow> nat \<Rightarrow> ranges \<Rightarrow> 's \<Rightarrow> ((nat \<times> ranges) \<times> 's) option" where
  "look_up cc symbol r s = (case op_range cc symbol r s of None \<Rightarrow> None | Some x \<Rightarrow> Some (x, s))"

definition find_up :: "'s cc_ops \<Rightarrow> nat \<Rightarrow> 's \<Rightarrow> (ranges \<times> 's) option" where
  "find_up cc target s = (case op_symbol cc target s of None \<Rightarrow> None | Some x \<Rightarrow> Some (x, s))"

definition total_up :: "'s cc_ops \<Rightarrow> 's \<Rightarrow> (nat \<times> 's) option" where
  "total_up cc s = Some (op_total cc s, s)"

definition behind :: "('s \<Rightarrow> ('a \<times> 's) option) \<Rightarrow> 'x \<times> 's \<Rightarrow> ('a \<times> 'x \<times> 's) option" where
  "behind f = (\<lambda>(x, s). case f s of None \<Rightarrow> None | Some (a, s) \<Rightarrow> Some (a, x, s))"

definition encode_range ::
  "(32 word \<Rightarrow> 32 word \<Rightarrow> 32 word \<Rightarrow> 'c \<Rightarrow> (unit, 'c) io) \<Rightarrow> ranges \<Rightarrow> 's \<times> 'c \<Rightarrow> (unit, 's \<times> 'c) io" where
  "encode_range enc = (\<lambda>(low, high, tot). on_stream (enc (of_nat low) (of_nat high) (of_nat tot)))"

definition order_0_encode ::
  "'s cc_ops \<Rightarrow> (32 word \<Rightarrow> 32 word \<Rightarrow> 32 word \<Rightarrow> 'c \<Rightarrow> (unit, 'c) io) \<Rightarrow> nat \<Rightarrow> ranges \<Rightarrow> 64 word \<Rightarrow>
     ('x \<times> 's) \<times> 'c \<Rightarrow> (unit, ('x \<times> 's) \<times> 'c) io" where
  "order_0_encode cc enc N r symbol =
     bind_io (on_model (behind (look_up cc (unat symbol) r))) (\<lambda>(c, r).
       if c \<noteq> 0
       then bind_io (on_model (behind (count_up cc (unat symbol) 2))) (\<lambda>_. encode_range enc r)
       else bind_io (on_model (behind (look_up cc N r))) (\<lambda>(c, r).
            bind_io (encode_range enc r) (\<lambda>_.
            bind_io (on_model (behind (count_up cc N 1))) (\<lambda>_.
            bind_io (on_model (behind (count_up cc (unat symbol) 2))) (\<lambda>_.
            on_stream (enc (ucast symbol) (ucast (symbol + 1)) (of_nat N)))))))"

text \<open>\<open>noted\<close> is what the caller does with the symbol before \<open>order_0\<close> counts it.\<close>

definition order_0_decode ::
  "'s cc_ops \<Rightarrow> (32 word \<Rightarrow> 'd \<Rightarrow> (32 word, 'd) io) \<Rightarrow> (32 word \<Rightarrow> 32 word \<Rightarrow> 'd \<Rightarrow> (unit, 'd) io) \<Rightarrow> nat \<Rightarrow>
     (nat \<Rightarrow> 'x \<times> 's \<Rightarrow> (unit \<times> 'x \<times> 's) option) \<Rightarrow> ('x \<times> 's) \<times> 'd \<Rightarrow> (64 word, ('x \<times> 's) \<times> 'd) io" where
  "order_0_decode cc get dec N noted =
     bind_io (on_model (behind (total_up cc))) (\<lambda>tot.
     bind_io (on_stream (get (of_nat tot))) (\<lambda>target.
     bind_io (on_model (behind (find_up cc (unat target)))) (\<lambda>(current_symbol, low_count, high_count).
     bind_io (on_stream (dec (of_nat low_count) (of_nat high_count))) (\<lambda>_.
       if current_symbol \<noteq> N
       then bind_io (on_model (noted current_symbol)) (\<lambda>_.
            bind_io (on_model (behind (count_up cc current_symbol 2))) (\<lambda>_. Returned (of_nat current_symbol)))
       else bind_io (on_model (behind (count_up cc current_symbol 1))) (\<lambda>_.
            bind_io (on_stream (get (of_nat N))) (\<lambda>target.
            bind_io (on_stream (dec target (target + 1))) (\<lambda>_.
            bind_io (on_model (noted (unat target))) (\<lambda>_.
            bind_io (on_model (behind (count_up cc (unat target) 2))) (\<lambda>_. Returned (ucast target))))))))))"

text \<open>The two kernels of order 0. The numbers \<open>low_count\<close>, \<open>high_count\<close> and \<open>total_count\<close> start at 0 in every call.\<close>

definition model_1_encode ::
  "'s cc_ops \<Rightarrow> (32 word \<Rightarrow> 32 word \<Rightarrow> 32 word \<Rightarrow> 'c \<Rightarrow> (unit, 'c) io) \<Rightarrow> nat \<Rightarrow> 64 word \<Rightarrow>
     (unit \<times> 's) \<times> 'c \<Rightarrow> (unit, (unit \<times> 's) \<times> 'c) io" where
  "model_1_encode cc enc N symbol = order_0_encode cc enc N (0, 0, 0) symbol"

definition model_1_decode ::
  "'s cc_ops \<Rightarrow> (32 word \<Rightarrow> 'd \<Rightarrow> (32 word, 'd) io) \<Rightarrow> (32 word \<Rightarrow> 32 word \<Rightarrow> 'd \<Rightarrow> (unit, 'd) io) \<Rightarrow> nat \<Rightarrow>
     (unit \<times> 's) \<times> 'd \<Rightarrow> (64 word, (unit \<times> 's) \<times> 'd) io" where
  "model_1_decode cc get dec N = order_0_decode cc get dec N (\<lambda>symbol m. Some ((), m))"

definition model_1_clear :: "('s \<Rightarrow> 's) \<Rightarrow> unit \<times> 's \<Rightarrow> unit \<times> 's" where
  "model_1_clear clear = (\<lambda>(u, s). (u, clear s))"

section \<open>Order 1\<close>

text \<open>
  A context for each symbol, of the class \<open>ccbig\<close>, the state that these share, and the symbol before. \<open>'y\<close> is what the caller keeps besides,
  nothing for order 1.
\<close>

record ('b, 'g) contexts =
  order_1 :: "'b list"
  gsbig :: 'g
  previous_symbol :: "64 word"

definition in_context ::
  "('b \<times> 'g \<Rightarrow> ('a \<times> 'b \<times> 'g) option) \<Rightarrow> ('y \<times> ('b, 'g) contexts) \<times> 's \<Rightarrow> ('a \<times> ('y \<times> ('b, 'g) contexts) \<times> 's) option" where
  "in_context f = (\<lambda>((y, x), s).
     let p = unat (previous_symbol x) in
     if p < length (order_1 x)
     then case f (order_1 x ! p, gsbig x) of
            None \<Rightarrow> None
          | Some (a, b, g) \<Rightarrow> Some (a, (y, x\<lparr>order_1 := (order_1 x)[p := b], gsbig := g\<rparr>), s)
     else None)"

definition set_previous :: "64 word \<Rightarrow> ('y \<times> ('b, 'g) contexts) \<times> 's \<Rightarrow> (unit \<times> ('y \<times> ('b, 'g) contexts) \<times> 's) option" where
  "set_previous symbol = (\<lambda>((y, x), s). Some ((), (y, x\<lparr>previous_symbol := symbol\<rparr>), s))"

definition order_1_encode ::
  "('b \<times> 'g) cc_ops \<Rightarrow> 's cc_ops \<Rightarrow> (32 word \<Rightarrow> 32 word \<Rightarrow> 32 word \<Rightarrow> 'c \<Rightarrow> (unit, 'c) io) \<Rightarrow> nat \<Rightarrow> ranges \<Rightarrow> 64 word \<Rightarrow>
     (('y \<times> ('b, 'g) contexts) \<times> 's) \<times> 'c \<Rightarrow> (unit, (('y \<times> ('b, 'g) contexts) \<times> 's) \<times> 'c) io" where
  "order_1_encode ccbig cc enc N r symbol =
     bind_io (on_model (in_context (look_up ccbig (unat symbol) r))) (\<lambda>(c, r).
       if c \<noteq> 0
       then bind_io (on_model (in_context (count_up ccbig (unat symbol) 2))) (\<lambda>_.
            bind_io (encode_range enc r) (\<lambda>_. on_model (set_previous symbol)))
       else bind_io (on_model (in_context (look_up ccbig N r))) (\<lambda>(c, r).
            bind_io (encode_range enc r) (\<lambda>_.
            bind_io (on_model (in_context (count_up ccbig N 1))) (\<lambda>_.
            bind_io (on_model (in_context (count_up ccbig (unat symbol) 2))) (\<lambda>_.
            bind_io (on_model (set_previous symbol)) (\<lambda>_.
            order_0_encode cc enc N r symbol))))))"

text \<open>\<open>noted\<close> comes before the context counts the symbol.\<close>

definition then_do :: "('m \<Rightarrow> (unit \<times> 'm) option) \<Rightarrow> ('m \<Rightarrow> (unit \<times> 'm) option) \<Rightarrow> 'm \<Rightarrow> (unit \<times> 'm) option" where
  "then_do f g m = (case f m of None \<Rightarrow> None | Some (u, m) \<Rightarrow> g m)"

definition order_1_decode ::
  "('b \<times> 'g) cc_ops \<Rightarrow> 's cc_ops \<Rightarrow> (32 word \<Rightarrow> 'd \<Rightarrow> (32 word, 'd) io) \<Rightarrow> (32 word \<Rightarrow> 32 word \<Rightarrow> 'd \<Rightarrow> (unit, 'd) io) \<Rightarrow> nat \<Rightarrow>
     (nat \<Rightarrow> ('y \<times> ('b, 'g) contexts) \<times> 's \<Rightarrow> (unit \<times> ('y \<times> ('b, 'g) contexts) \<times> 's) option) \<Rightarrow>
     (('y \<times> ('b, 'g) contexts) \<times> 's) \<times> 'd \<Rightarrow> (64 word, (('y \<times> ('b, 'g) contexts) \<times> 's) \<times> 'd) io" where
  "order_1_decode ccbig cc get dec N noted =
     bind_io (on_model (in_context (total_up ccbig))) (\<lambda>tot.
     bind_io (on_stream (get (of_nat tot))) (\<lambda>target.
     bind_io (on_model (in_context (find_up ccbig (unat target)))) (\<lambda>(current_symbol, low_count, high_count).
     bind_io (on_stream (dec (of_nat low_count) (of_nat high_count))) (\<lambda>_.
       if current_symbol \<noteq> N
       then bind_io (on_model (noted current_symbol)) (\<lambda>_.
            bind_io (on_model (in_context (count_up ccbig current_symbol 2))) (\<lambda>_. Returned (of_nat current_symbol)))
       else bind_io (on_model (in_context (count_up ccbig N 1))) (\<lambda>_.
            order_0_decode cc get dec N (\<lambda>symbol. then_do (noted symbol) (in_context (count_up ccbig symbol 2))))))))"

text \<open>The two kernels of order 1.\<close>

definition model_2_init :: "(nat \<Rightarrow> 'b) \<Rightarrow> 'g \<Rightarrow> 's \<Rightarrow> nat \<Rightarrow> (unit \<times> ('b, 'g) contexts) \<times> 's" where
  "model_2_init b g s N = (((), \<lparr>order_1 = map b [0..<N], gsbig = g, previous_symbol = 0\<rparr>), s)"

fun clear_contexts :: "('b \<times> 'g \<Rightarrow> 'b \<times> 'g) \<Rightarrow> 'b list \<Rightarrow> 'g \<Rightarrow> 'b list \<times> 'g" where
  "clear_contexts clear [] g = ([], g)"
| "clear_contexts clear (b # bs) g =
     (let (b, g) = clear (b, g); (bs, g) = clear_contexts clear bs g in (b # bs, g))"

definition model_2_clear ::
  "('b \<times> 'g \<Rightarrow> 'b \<times> 'g) \<Rightarrow> ('s \<Rightarrow> 's) \<Rightarrow> (unit \<times> ('b, 'g) contexts) \<times> 's \<Rightarrow> (unit \<times> ('b, 'g) contexts) \<times> 's" where
  "model_2_clear clear_big clear = (\<lambda>((u, x), s).
     let s = clear s; (bs, g) = clear_contexts clear_big (order_1 x) (gsbig x)
     in ((u, x\<lparr>previous_symbol := 0, order_1 := bs, gsbig := g\<rparr>), s))"

definition model_2_encode ::
  "('b \<times> 'g) cc_ops \<Rightarrow> 's cc_ops \<Rightarrow> (32 word \<Rightarrow> 32 word \<Rightarrow> 32 word \<Rightarrow> 'c \<Rightarrow> (unit, 'c) io) \<Rightarrow> nat \<Rightarrow> 64 word \<Rightarrow>
     ((unit \<times> ('b, 'g) contexts) \<times> 's) \<times> 'c \<Rightarrow> (unit, ((unit \<times> ('b, 'g) contexts) \<times> 's) \<times> 'c) io" where
  "model_2_encode ccbig cc enc N symbol = order_1_encode ccbig cc enc N (0, 0, 0) symbol"

definition model_2_decode ::
  "('b \<times> 'g) cc_ops \<Rightarrow> 's cc_ops \<Rightarrow> (32 word \<Rightarrow> 'd \<Rightarrow> (32 word, 'd) io) \<Rightarrow> (32 word \<Rightarrow> 32 word \<Rightarrow> 'd \<Rightarrow> (unit, 'd) io) \<Rightarrow> nat \<Rightarrow>
     ((unit \<times> ('b, 'g) contexts) \<times> 's) \<times> 'd \<Rightarrow> (64 word, ((unit \<times> ('b, 'g) contexts) \<times> 's) \<times> 'd) io" where
  "model_2_decode ccbig cc get dec N =
     bind_io (order_1_decode ccbig cc get dec N (\<lambda>symbol m. Some ((), m))) (\<lambda>symbol.
     bind_io (on_model (set_previous symbol)) (\<lambda>_. Returned symbol))"

section \<open>The decoder finds the symbol\<close>

lemma widened: "unat (ucast (x :: 32 word) :: 64 word) = unat x"
  using unsigned_less [of x, where 'a = nat] by (simp add: unsigned_ucast_eq take_bit_eq_mod)

lemma small_symbol:
  fixes symbol :: "64 word"
  assumes "unat symbol < 65536"
  shows "unat (ucast symbol :: 32 word) = unat symbol" "(ucast (symbol + 1) :: 32 word) = ucast symbol + 1"
    "unat ((ucast symbol :: 32 word) + 1) = unat symbol + 1" "ucast (ucast symbol :: 32 word) = symbol"
proof -
  show u: "unat (ucast symbol :: 32 word) = unat symbol"
    using assms by (simp add: unsigned_ucast_eq take_bit_nat_eq_self)
  have "unat (symbol + 1) = unat symbol + 1" using assms by (simp add: unat_plus_if_size word_size)
  then have v: "unat (ucast (symbol + 1) :: 32 word) = unat symbol + 1"
    using assms by (simp add: unsigned_ucast_eq take_bit_nat_eq_self)
  show w: "unat ((ucast symbol :: 32 word) + 1) = unat symbol + 1"
    using assms u by (simp add: unat_plus_if_size word_size)
  show "(ucast (symbol + 1) :: 32 word) = ucast symbol + 1" by (simp only: word_unat_eq_iff v w)
  show "ucast (ucast symbol :: 32 word) = symbol"
    using widened [of "ucast symbol"] by (simp only: word_unat_eq_iff u)
qed

lemma follows_find:
  assumes "l < h" "h < 65536" "\<And>x. l \<le> x \<Longrightarrow> x < h \<Longrightarrow> f x m = Some ((y, l, h), m)" "follows ahead ops (g y) m z m2"
  shows "follows ahead ((of_nat l, of_nat h, t) # ops) (bind_io (on_stream (dec_get_target t)) (\<lambda>target.
    bind_io (on_model (f (unat target))) (\<lambda>(current_symbol, low_count, high_count).
    bind_io (on_stream (dec_decode (of_nat low_count) (of_nat high_count))) (\<lambda>_. g current_symbol)))) m z m2"
proof (rule range_decoder.follows_op)
  fix x :: "32 word" and d assume x: "of_nat l \<le> x" "x < of_nat h"
  have "unat (of_nat h :: 32 word) = h" "unat (of_nat l :: 32 word) = l"
    using assms(1,2) by (simp_all only: unat_of_nat) simp_all
  with x have "f (unat x) m = Some ((y, l, h), m)" by (intro assms(3)) (simp_all add: word_le_nat_alt word_less_nat_alt)
  then show "bind_io (on_model (f (unat x))) (\<lambda>(current_symbol, low_count, high_count).
    bind_io (on_stream (dec_decode (of_nat low_count) (of_nat high_count))) (\<lambda>_. g current_symbol)) (m, d) =
    bind_io (on_stream (dec_decode (of_nat l) (of_nat h))) (\<lambda>_. g y) (m, d)" by (simp add: on_model_def)
qed (rule assms(4))

lemma follows_equal:
  fixes symbol :: "64 word"
  assumes "unat symbol < 65536" "follows ahead ops (g (ucast symbol)) m z m2"
  shows "follows ahead ((ucast symbol, ucast (symbol + 1), t) # ops) (bind_io (on_stream (dec_get_target t)) (\<lambda>target.
    bind_io (on_stream (dec_decode target (target + 1))) (\<lambda>_. g target))) m z m2"
proof (rule range_decoder.follows_op)
  fix x :: "32 word" and d assume x: "ucast symbol \<le> x" "x < ucast (symbol + 1)"
  then have "x = ucast symbol"
    using assms(1) by (simp add: small_symbol word_le_nat_alt word_less_nat_alt word_unat_eq_iff)
  then show "bind_io (on_stream (dec_decode x (x + 1))) (\<lambda>_. g x) (m, d) =
    bind_io (on_stream (dec_decode (ucast symbol) (ucast (symbol + 1)))) (\<lambda>_. g (ucast symbol)) (m, d)"
    using assms(1) by (simp add: small_symbol)
qed (rule assms(2))

lemma equal_valid: "unat (symbol :: 64 word) < n \<Longrightarrow> n < 65536 \<Longrightarrow> valid_call (ucast symbol, ucast (symbol + 1), of_nat n)"
  by (simp add: valid_call_def small_symbol word_le_nat_alt word_less_nat_alt unat_of_nat)

lemma range_valid: "l < h \<Longrightarrow> h \<le> t \<Longrightarrow> t < 65536 \<Longrightarrow> valid_call (of_nat l, of_nat h, of_nat t)"
  by (simp add: valid_call_def word_le_nat_alt word_less_nat_alt unat_of_nat)

text \<open>The assertion of the classes on the size of the alphabet.\<close>

definition order_m1_sync :: "nat \<Rightarrow> unit \<Rightarrow> unit \<Rightarrow> bool" where "order_m1_sync N m n \<longleftrightarrow> 1 < N \<and> N < 65535"

interpretation m1: symbol_coding "order_m1_encode enc_encode N" "order_m1_decode dec_get_target dec_decode N" "order_m1_sync N" N for N
proof unfold_locales
  fix m n and item :: "64 word"
  assume s: "order_m1_sync N m n" "unat item < N"
  then have i: "unat item < N" "N < 65536" "unat item < 65536" and n: "1 < N" "N < 65535" by (simp_all add: order_m1_sync_def)
  let ?c = "(ucast item, ucast (item + 1), of_nat N) :: call"
  have "performs enc_encode [?c] (order_m1_encode enc_encode N item) m () m"
    unfolding order_m1_encode_def by (rule performs_call)
  moreover have "follows ahead [?c] (order_m1_decode dec_get_target dec_decode N) n item n"
    unfolding order_m1_decode_def
    by (rule follows_equal [OF i(3)]) (use i(3) in \<open>simp add: small_symbol follows_Returned\<close>)
  ultimately show "\<exists>ops m' n'. list_all valid_call ops \<and> performs enc_encode ops (order_m1_encode enc_encode N item) m () m' \<and>
      follows ahead ops (order_m1_decode dec_get_target dec_decode N) n item n' \<and> order_m1_sync N m' n'"
    using equal_valid [OF i(1,2)] by (intro exI [of _ "[?c]"] exI [of _ m] exI [of _ n]) (simp add: order_m1_sync_def n [unfolded One_nat_def])
qed

section \<open>Order 0 over any conditioning class\<close>

context coding_class
begin

lemma count_ok:
  assumes "inv s" "x < A" "0 < amount" "unat amount < 32768"
  shows "\<exists>s'. count_up \<lparr>op_increment = increment_count, op_total = get_total, op_range = get_range, op_symbol = get_symbol\<rparr> x amount s =
    Some ((), s') \<and> inv s'"
  using coded_increment [OF assms] by (auto simp: count_up_def)

text \<open>What the three calls for a symbol with a count agree on.\<close>

lemma ranged:
  fixes x :: nat
  defines "cc \<equiv> \<lparr>op_increment = increment_count, op_total = get_total, op_range = get_range, op_symbol = get_symbol\<rparr>"
  assumes s: "inv s" "x < A" "0 < cnt s x"
  shows "\<exists>c l h t. 0 < c \<and> l < h \<and> h \<le> t \<and> t < 65536 \<and> total_up cc s = Some (t, s) \<and>
    (\<forall>r. look_up cc x r s = Some ((c, l, h, t), s)) \<and> (\<forall>target. l \<le> target \<and> target < h \<longrightarrow> find_up cc target s = Some ((x, l, h), s))"
  using coded_present [OF s] coded_low [OF s] coded_total [OF s(1)] coded_finds [OF s(1,2)] s(3)
  by (intro exI [of _ "cnt s x"] exI [of _ "low s x"] exI [of _ "low s x + cnt s x"] exI [of _ "get_total s"])
    (simp add: cc_def total_up_def look_up_def find_up_def)

lemma missing:
  assumes "inv s" "x < A" "cnt s x = 0"
  shows "\<exists>r'. look_up \<lparr>op_increment = increment_count, op_total = get_total, op_range = get_range, op_symbol = get_symbol\<rparr> x r s =
    Some ((0, r'), s)"
  using coded_absent [OF assms, of r] by (auto simp: look_up_def)

lemma order_0_found:
  fixes symbol :: "64 word"
  defines "cc \<equiv> \<lparr>op_increment = increment_count, op_total = get_total, op_range = get_range, op_symbol = get_symbol\<rparr>"
  assumes s: "inv s" "A = Suc N" "unat symbol < N" "0 < cnt s (unat symbol)"
    and noted: "\<And>s. noted (unat symbol) (xd, s) = Some ((), xd', s)"
  shows "\<exists>ops s'. list_all valid_call ops \<and> inv s' \<and>
    performs enc ops (order_0_encode cc enc N r symbol) (xe, s) () (xe, s') \<and>
    follows ahead ops (order_0_decode cc dec_get_target dec_decode N noted) (xd, s) symbol (xd', s')"
proof -
  let ?y = "unat symbol"
  have y: "?y < A" "?y \<noteq> N" using s(2,3) by simp_all
  from count_ok [OF s(1) y(1), of 2] obtain s' where s': "count_up cc ?y 2 s = Some ((), s')" "inv s'"
    unfolding cc_def by auto
  from ranged [OF s(1) y(1) s(4)] obtain c l h t where c: "0 < c" "l < h" "h \<le> t" "t < 65536"
    and ops: "total_up cc s = Some (t, s)" "\<And>r. look_up cc ?y r s = Some ((c, l, h, t), s)"
      "\<And>target. l \<le> target \<Longrightarrow> target < h \<Longrightarrow> find_up cc target s = Some ((?y, l, h), s)"
    unfolding cc_def by blast
  have "performs enc [(of_nat l, of_nat h, of_nat t)] (order_0_encode cc enc N r symbol) (xe, s) () (xe, s')"
    unfolding order_0_encode_def
    by (rule performs_pure, simp add: behind_def ops, simp add: c(1),
      rule performs_pure, simp add: behind_def s', simp add: encode_range_def, rule performs_call)
  moreover have "follows ahead [(of_nat l, of_nat h, of_nat t)] (order_0_decode cc dec_get_target dec_decode N noted) (xd, s) symbol (xd', s')"
    unfolding order_0_decode_def
    by (rule follows_pure, simp add: behind_def ops, rule follows_find, rule c, use c in simp, simp add: behind_def ops,
      simp add: y, rule follows_pure, rule noted, rule follows_pure, simp add: behind_def s', simp add: follows_Returned)
  ultimately show ?thesis
    using range_valid [OF c(2,3,4)] s' by (intro exI [of _ "[(of_nat l, of_nat h, of_nat t)]"] exI [of _ s']) simp
qed

lemma order_0_escape:
  fixes symbol :: "64 word"
  defines "cc \<equiv> \<lparr>op_increment = increment_count, op_total = get_total, op_range = get_range, op_symbol = get_symbol\<rparr>"
  assumes s: "inv s" "A = Suc N" "unat symbol < N" "cnt s (unat symbol) = 0" "N < 65535"
    and noted: "\<And>s. noted (unat symbol) (xd, s) = Some ((), xd', s)"
  shows "\<exists>ops s'. list_all valid_call ops \<and> inv s' \<and>
    performs enc ops (order_0_encode cc enc N r symbol) (xe, s) () (xe, s') \<and>
    follows ahead ops (order_0_decode cc dec_get_target dec_decode N noted) (xd, s) symbol (xd', s')"
proof -
  let ?y = "unat symbol"
  have y: "?y < A" "?y \<noteq> N" "N < A" "?y < 65536" "N < 65536" using s(2,3,5) by simp_all
  have e: "0 < cnt s N" using coded_escape [OF s(1)] s(2) by simp
  from count_ok [OF s(1) y(3), of 1] obtain s1 where s1: "count_up cc N 1 s = Some ((), s1)" "inv s1"
    unfolding cc_def by auto
  from count_ok [OF s1(2) y(1), of 2] obtain s' where s': "count_up cc ?y 2 s1 = Some ((), s')" "inv s'"
    unfolding cc_def by auto
  from ranged [OF s(1) y(3) e] obtain c l h t where c: "0 < c" "l < h" "h \<le> t" "t < 65536"
    and ops: "total_up cc s = Some (t, s)" "\<And>r. look_up cc N r s = Some ((c, l, h, t), s)"
      "\<And>target. l \<le> target \<Longrightarrow> target < h \<Longrightarrow> find_up cc target s = Some ((N, l, h), s)"
    unfolding cc_def by blast
  from missing [OF s(1) y(1) s(4), of r] obtain r' where r': "look_up cc ?y r s = Some ((0, r'), s)" unfolding cc_def by blast
  let ?ops = "[(of_nat l, of_nat h, of_nat t), (ucast symbol, ucast (symbol + 1), of_nat N)] :: call list"
  have "performs enc ?ops (order_0_encode cc enc N r symbol) (xe, s) () (xe, s')"
    unfolding order_0_encode_def
    by (rule performs_pure, simp add: behind_def r', simp,
      rule performs_pure, simp add: behind_def ops, simp add: encode_range_def, rule performs_op,
      rule performs_pure, simp add: behind_def s1, rule performs_pure, simp add: behind_def s', rule performs_call)
  moreover have "follows ahead ?ops (order_0_decode cc dec_get_target dec_decode N noted) (xd, s) symbol (xd', s')"
    unfolding order_0_decode_def
    by (rule follows_pure, simp add: behind_def ops, rule follows_find, rule c, use c in simp, simp add: behind_def ops, simp,
      rule follows_pure, simp add: behind_def s1, rule follows_equal [OF y(4)], simp add: small_symbol [OF y(4)],
      rule follows_pure, rule noted, rule follows_pure, simp add: behind_def s', simp add: follows_Returned)
  ultimately show ?thesis
    using range_valid [OF c(2,3,4)] equal_valid [OF s(3) y(5)] s' by (intro exI [of _ ?ops] exI [of _ s']) simp
qed

lemma order_0_step:
  fixes symbol :: "64 word"
  defines "cc \<equiv> \<lparr>op_increment = increment_count, op_total = get_total, op_range = get_range, op_symbol = get_symbol\<rparr>"
  assumes s: "inv s" "A = Suc N" "unat symbol < N" "N < 65535"
    and noted: "\<And>s. noted (unat symbol) (xd, s) = Some ((), xd', s)"
  shows "\<exists>ops s'. list_all valid_call ops \<and> inv s' \<and>
    performs enc ops (order_0_encode cc enc N r symbol) (xe, s) () (xe, s') \<and>
    follows ahead ops (order_0_decode cc dec_get_target dec_decode N noted) (xd, s) symbol (xd', s')"
proof (cases "cnt s (unat symbol) = 0")
  case True
  show ?thesis unfolding cc_def by (rule order_0_escape [OF s(1-3) True s(4)]) (rule noted)
next
  case False
  then show ?thesis unfolding cc_def by (intro order_0_found [OF s(1-3)]) (simp_all add: noted)
qed

end

section \<open>Order 1 over any two conditioning classes\<close>

text \<open>The invariant of the contexts does not depend on what they share.\<close>

locale two_classes =
  coding_class A increment_count get_total get_range get_symbol inv cnt low +
  big: coding_class A big_increment_count big_get_total big_get_range big_get_symbol "\<lambda>(b, g). big_inv b" big_cnt big_low
  for A and increment_count :: "nat \<Rightarrow> 16 word \<Rightarrow> 's \<Rightarrow> (bool \<times> 's) option" and get_total get_range get_symbol inv cnt low
    and big_increment_count :: "nat \<Rightarrow> 16 word \<Rightarrow> 'b \<times> 'g \<Rightarrow> (bool \<times> 'b \<times> 'g) option" and big_get_total big_get_range big_get_symbol big_inv big_cnt big_low

definition contexts_ok :: "('b \<Rightarrow> bool) \<Rightarrow> nat \<Rightarrow> ('b, 'g) contexts \<Rightarrow> bool" where
  "contexts_ok good N x \<longleftrightarrow> length (order_1 x) = N \<and> unat (previous_symbol x) < N \<and> (\<forall>b \<in> set (order_1 x). good b)"

definition current :: "('b, 'g) contexts \<Rightarrow> 'b \<times> 'g" where
  "current x = (order_1 x ! unat (previous_symbol x), gsbig x)"

definition put_current :: "'b \<times> 'g \<Rightarrow> ('b, 'g) contexts \<Rightarrow> ('b, 'g) contexts" where
  "put_current = (\<lambda>(b, g) x. x\<lparr>order_1 := (order_1 x)[unat (previous_symbol x) := b], gsbig := g\<rparr>)"

lemma current_ok: "contexts_ok good N x \<Longrightarrow> case current x of (b, g) \<Rightarrow> good b"
  by (simp add: contexts_ok_def current_def)

lemma put_current_ok: "contexts_ok good N x \<Longrightarrow> (case b of (b, g) \<Rightarrow> good b) \<Longrightarrow> contexts_ok good N (put_current b x)"
  by (auto simp: contexts_ok_def put_current_def dest!: set_update_subset_insert [THEN subsetD])

lemma put_current_simps:
  "contexts_ok good N x \<Longrightarrow> current (put_current b x) = b"
  "put_current (current x) x = x"
  "put_current b (put_current b' x) = put_current b x"
  "previous_symbol (put_current b x) = previous_symbol x"
  by (cases x; cases b; cases b'; simp add: contexts_ok_def current_def put_current_def)+

lemma previous_ok: "contexts_ok good N x \<Longrightarrow> unat symbol < N \<Longrightarrow> contexts_ok good N (x\<lparr>previous_symbol := symbol\<rparr>)"
  by (simp add: contexts_ok_def)

lemma in_context_ok:
  "contexts_ok good N x \<Longrightarrow> f (current x) = Some (a, b) \<Longrightarrow> in_context f ((y, x), s) = Some (a, (y, put_current b x), s)"
  by (cases b) (simp add: in_context_def contexts_ok_def current_def put_current_def)

lemma in_context_same:
  "contexts_ok good N x \<Longrightarrow> f (current x) = Some (a, current x) \<Longrightarrow> in_context f ((y, x), s) = Some (a, (y, x), s)"
  using in_context_ok [of good N x f a "current x"] by (simp add: put_current_simps)

context two_classes
begin

lemma order_1_found:
  fixes symbol :: "64 word"
  defines "cc \<equiv> \<lparr>op_increment = increment_count, op_total = get_total, op_range = get_range, op_symbol = get_symbol\<rparr>"
    and "ccbig \<equiv> \<lparr>op_increment = big_increment_count, op_total = big_get_total, op_range = big_get_range, op_symbol = big_get_symbol\<rparr>"
  assumes x: "contexts_ok big_inv N x" and s: "inv s" "A = Suc N" "unat symbol < N" "0 < big_cnt (current x) (unat symbol)"
    and noted: "\<And>x s. noted (unat symbol) ((yd, x), s) = Some ((), (yd', x), s)"
  shows "\<exists>ops x' s'. list_all valid_call ops \<and> contexts_ok big_inv N x' \<and> previous_symbol x' = previous_symbol x \<and> inv s' \<and>
    performs enc ops (order_1_encode ccbig cc enc N r symbol) ((ye, x), s) () ((ye, x'\<lparr>previous_symbol := symbol\<rparr>), s') \<and>
    follows ahead ops (order_1_decode ccbig cc dec_get_target dec_decode N noted) ((yd, x), s) symbol ((yd', x'), s')"
proof -
  let ?y = "unat symbol" and ?b = "current x"
  have y: "?y < A" "?y \<noteq> N" using s(2,3) by simp_all
  note b = current_ok [OF x]
  from big.count_ok [OF b y(1), of 2] obtain b' where b': "count_up ccbig ?y 2 ?b = Some ((), b')" "case b' of (b, g) \<Rightarrow> big_inv b"
    unfolding ccbig_def by auto
  from big.ranged [OF b y(1) s(4)] obtain c l h t where c: "0 < c" "l < h" "h \<le> t" "t < 65536"
    and ops: "total_up ccbig ?b = Some (t, ?b)" "\<And>r. look_up ccbig ?y r ?b = Some ((c, l, h, t), ?b)"
      "\<And>target. l \<le> target \<Longrightarrow> target < h \<Longrightarrow> find_up ccbig target ?b = Some ((?y, l, h), ?b)"
    unfolding ccbig_def by blast
  let ?ops = "[(of_nat l, of_nat h, of_nat t)] :: call list" and ?x = "put_current b' x"
  note same = in_context_same [OF x] and ok = in_context_ok [OF x]
  have "performs enc ?ops (order_1_encode ccbig cc enc N r symbol) ((ye, x), s) () ((ye, ?x\<lparr>previous_symbol := symbol\<rparr>), s)"
    unfolding order_1_encode_def
    by (rule performs_pure, rule same, rule ops, simp add: c(1), rule performs_pure, rule ok, rule b',
      simp add: encode_range_def, rule performs_op, rule performs_on_model, simp add: set_previous_def)
  moreover have "follows ahead ?ops (order_1_decode ccbig cc dec_get_target dec_decode N noted) ((yd, x), s) symbol ((yd', ?x), s)"
    unfolding order_1_decode_def
    by (rule follows_pure, rule same, rule ops, rule follows_find, rule c, use c in simp, rule same, rule ops, assumption+,
      simp add: y, rule follows_pure, rule noted, rule follows_pure, rule ok, rule b', simp add: follows_Returned)
  ultimately show ?thesis
    using range_valid [OF c(2,3,4)] s(1) put_current_ok [OF x b'(2)]
    by (intro exI [of _ ?ops] exI [of _ ?x] exI [of _ s]) (simp add: put_current_simps)
qed

lemma order_1_escape:
  fixes symbol :: "64 word"
  defines "cc \<equiv> \<lparr>op_increment = increment_count, op_total = get_total, op_range = get_range, op_symbol = get_symbol\<rparr>"
    and "ccbig \<equiv> \<lparr>op_increment = big_increment_count, op_total = big_get_total, op_range = big_get_range, op_symbol = big_get_symbol\<rparr>"
  assumes x: "contexts_ok big_inv N x" and s: "inv s" "A = Suc N" "unat symbol < N" "N < 65535" "big_cnt (current x) (unat symbol) = 0"
    and noted: "\<And>x s. noted (unat symbol) ((yd, x), s) = Some ((), (yd', x), s)"
  shows "\<exists>ops x' s'. list_all valid_call ops \<and> contexts_ok big_inv N x' \<and> previous_symbol x' = previous_symbol x \<and> inv s' \<and>
    performs enc ops (order_1_encode ccbig cc enc N r symbol) ((ye, x), s) () ((ye, x'\<lparr>previous_symbol := symbol\<rparr>), s') \<and>
    follows ahead ops (order_1_decode ccbig cc dec_get_target dec_decode N noted) ((yd, x), s) symbol ((yd', x'), s')"
proof -
  let ?y = "unat symbol" and ?b = "current x"
  have y: "?y < A" "N < A" using s(2,3) by simp_all
  note b = current_ok [OF x]
  have pos: "0 < big_cnt ?b N" using big.coded_escape [OF b] s(2) by simp
  from big.count_ok [OF b y(2), of 1] obtain b1 where b1: "count_up ccbig N 1 ?b = Some ((), b1)" "case b1 of (b, g) \<Rightarrow> big_inv b"
    unfolding ccbig_def by auto
  from big.count_ok [OF b1(2) y(1), of 2] obtain b2 where b2: "count_up ccbig ?y 2 b1 = Some ((), b2)" "case b2 of (b, g) \<Rightarrow> big_inv b"
    unfolding ccbig_def by auto
  from big.ranged [OF b y(2) pos] obtain c l h t where c: "0 < c" "l < h" "h \<le> t" "t < 65536"
    and ops: "total_up ccbig ?b = Some (t, ?b)" "\<And>r. look_up ccbig N r ?b = Some ((c, l, h, t), ?b)"
      "\<And>target. l \<le> target \<Longrightarrow> target < h \<Longrightarrow> find_up ccbig target ?b = Some ((N, l, h), ?b)"
    unfolding ccbig_def by blast
  from big.missing [OF b y(1) s(5), of r] obtain r' where r': "look_up ccbig ?y r ?b = Some ((0, r'), ?b)" unfolding ccbig_def by blast
  let ?c = "(of_nat l, of_nat h, of_nat t) :: call" and ?x1 = "put_current b1 x" and ?x2 = "put_current b2 x"
  have x1: "contexts_ok big_inv N ?x1" by (rule put_current_ok [OF x b1(2)])
  note same = in_context_same [OF x] and ok = in_context_ok [OF x]
  have ok2: "in_context (count_up ccbig ?y 2) ((y, ?x1), s) = Some ((), (y, ?x2), s)" for s :: 's and y :: 'y
    using in_context_ok [OF x1, of "count_up ccbig ?y 2" "()" b2 y s] b2(1) by (simp add: put_current_simps(1) [OF x] put_current_simps(3))
  have ok3: "in_context (count_up ccbig ?y 2) ((y, ?x1), s) = Some ((), (y, ?x2), s)" for s :: 's and y :: 'z
    using in_context_ok [OF x1, of "count_up ccbig ?y 2" "()" b2 y s] b2(1) by (simp add: put_current_simps(1) [OF x] put_current_simps(3))
  let ?noted = "\<lambda>symbol. then_do (noted symbol) (in_context (count_up ccbig symbol 2))"
  have n: "?noted ?y ((yd, ?x1), s) = Some ((), (yd', ?x2), s)" for s by (simp add: then_do_def noted ok3)
  from order_0_step [OF s(1-4), of ?noted "(yd, ?x1)" "(yd', ?x2)" enc "(l, h, t)" "(ye, ?x2\<lparr>previous_symbol := symbol\<rparr>)"] n
  obtain ops' s' where step: "list_all valid_call ops'" "inv s'"
    "performs enc ops' (order_0_encode cc enc N (l, h, t) symbol) ((ye, ?x2\<lparr>previous_symbol := symbol\<rparr>), s) () ((ye, ?x2\<lparr>previous_symbol := symbol\<rparr>), s')"
    "follows ahead ops' (order_0_decode cc dec_get_target dec_decode N ?noted) ((yd, ?x1), s) symbol ((yd', ?x2), s')"
    unfolding cc_def by blast
  have "performs enc (?c # ops') (order_1_encode ccbig cc enc N r symbol) ((ye, x), s) () ((ye, ?x2\<lparr>previous_symbol := symbol\<rparr>), s')"
    unfolding order_1_encode_def
    by (rule performs_pure, rule same, rule r', simp,
      rule performs_pure, rule same, rule ops, simp add: encode_range_def, rule performs_op,
      rule performs_pure, rule ok, rule b1, rule performs_pure, rule ok2, rule performs_pure, simp add: set_previous_def, rule step)
  moreover have "follows ahead (?c # ops') (order_1_decode ccbig cc dec_get_target dec_decode N noted) ((yd, x), s) symbol ((yd', ?x2), s')"
    unfolding order_1_decode_def
    by (rule follows_pure, rule same, rule ops, rule follows_find, rule c, use c in simp, rule same, rule ops, assumption+,
      simp, rule follows_pure, rule ok, rule b1, rule step)
  ultimately show ?thesis
    using range_valid [OF c(2,3,4)] step(1,2) put_current_ok [OF x b2(2)]
    by (intro exI [of _ "?c # ops'"] exI [of _ ?x2] exI [of _ s']) (simp add: put_current_simps)
qed

lemma order_1_step:
  fixes symbol :: "64 word"
  defines "cc \<equiv> \<lparr>op_increment = increment_count, op_total = get_total, op_range = get_range, op_symbol = get_symbol\<rparr>"
    and "ccbig \<equiv> \<lparr>op_increment = big_increment_count, op_total = big_get_total, op_range = big_get_range, op_symbol = big_get_symbol\<rparr>"
  assumes x: "contexts_ok big_inv N x" and s: "inv s" "A = Suc N" "unat symbol < N" "N < 65535"
    and noted: "\<And>x s. noted (unat symbol) ((yd, x), s) = Some ((), (yd', x), s)"
  shows "\<exists>ops x' s'. list_all valid_call ops \<and> contexts_ok big_inv N x' \<and> previous_symbol x' = previous_symbol x \<and> inv s' \<and>
    performs enc ops (order_1_encode ccbig cc enc N r symbol) ((ye, x), s) () ((ye, x'\<lparr>previous_symbol := symbol\<rparr>), s') \<and>
    follows ahead ops (order_1_decode ccbig cc dec_get_target dec_decode N noted) ((yd, x), s) symbol ((yd', x'), s')"
proof (cases "big_cnt (current x) (unat symbol) = 0")
  case True
  show ?thesis unfolding cc_def ccbig_def by (rule order_1_escape [OF x s True]) (rule noted)
next
  case False
  then show ?thesis unfolding cc_def ccbig_def by (intro order_1_found [OF x s(1-3)]) (simp_all add: noted)
qed

end

section \<open>The models code symbols\<close>

definition order_0_sync :: "('s \<Rightarrow> bool) \<Rightarrow> nat \<Rightarrow> unit \<times> 's \<Rightarrow> unit \<times> 's \<Rightarrow> bool" where
  "order_0_sync good N m n \<longleftrightarrow> m = n \<and> N < 65535 \<and> good (snd m)"

definition order_1_sync ::
  "('b \<Rightarrow> bool) \<Rightarrow> ('s \<Rightarrow> bool) \<Rightarrow> nat \<Rightarrow> (unit \<times> ('b, 'g) contexts) \<times> 's \<Rightarrow> (unit \<times> ('b, 'g) contexts) \<times> 's \<Rightarrow> bool" where
  "order_1_sync good_big good N m n \<longleftrightarrow> m = n \<and> N < 65535 \<and> contexts_ok good_big N (snd (fst m)) \<and> good (snd m)"

sublocale coding_class \<subseteq> order_0: symbol_coding
  "model_1_encode \<lparr>op_increment = increment_count, op_total = get_total, op_range = get_range, op_symbol = get_symbol\<rparr> enc_encode (A - 1)"
  "model_1_decode \<lparr>op_increment = increment_count, op_total = get_total, op_range = get_range, op_symbol = get_symbol\<rparr> dec_get_target dec_decode (A - 1)"
  "order_0_sync inv (A - 1)" "A - 1"
proof unfold_locales
  fix m n :: "unit \<times> 's" and item :: "64 word"
  assume a: "order_0_sync inv (A - 1) m n" "unat item < A - 1"
  obtain u s where m: "m = (u, s)" by (cases m)
  with a(1) have s: "n = (u, s)" "inv s" "A - 1 < 65535" by (simp_all add: order_0_sync_def)
  from coded_size [OF s(2)] have A: "A = Suc (A - 1)" by simp
  show "\<exists>ops m' n'. list_all valid_call ops \<and>
    performs enc_encode ops (model_1_encode \<lparr>op_increment = increment_count, op_total = get_total, op_range = get_range, op_symbol = get_symbol\<rparr>
      enc_encode (A - 1) item) m () m' \<and>
    follows ahead ops (model_1_decode \<lparr>op_increment = increment_count, op_total = get_total, op_range = get_range, op_symbol = get_symbol\<rparr>
      dec_get_target dec_decode (A - 1)) n item n' \<and> order_0_sync inv (A - 1) m' n'"
    using order_0_step [OF s(2) A a(2) s(3), of "\<lambda>symbol m. Some ((), m)" u u enc_encode "(0, 0, 0)" u] s(3)
    unfolding model_1_encode_def model_1_decode_def order_0_sync_def m s(1) by fastforce
qed

sublocale two_classes \<subseteq> order_1: symbol_coding
  "model_2_encode \<lparr>op_increment = big_increment_count, op_total = big_get_total, op_range = big_get_range, op_symbol = big_get_symbol\<rparr>
    \<lparr>op_increment = increment_count, op_total = get_total, op_range = get_range, op_symbol = get_symbol\<rparr> enc_encode (A - 1)"
  "model_2_decode \<lparr>op_increment = big_increment_count, op_total = big_get_total, op_range = big_get_range, op_symbol = big_get_symbol\<rparr>
    \<lparr>op_increment = increment_count, op_total = get_total, op_range = get_range, op_symbol = get_symbol\<rparr> dec_get_target dec_decode (A - 1)"
  "order_1_sync big_inv inv (A - 1)" "A - 1"
proof unfold_locales
  fix m n :: "(unit \<times> ('b, 'g) contexts) \<times> 's" and item :: "64 word"
  let ?cc = "\<lparr>op_increment = increment_count, op_total = get_total, op_range = get_range, op_symbol = get_symbol\<rparr>"
  let ?big = "\<lparr>op_increment = big_increment_count, op_total = big_get_total, op_range = big_get_range, op_symbol = big_get_symbol\<rparr>"
  assume a: "order_1_sync big_inv inv (A - 1) m n" "unat item < A - 1"
  obtain x s where m: "m = (((), x), s)" by (cases m) auto
  with a(1) have s: "n = (((), x), s)" "contexts_ok big_inv (A - 1) x" "inv s" "A - 1 < 65535" by (simp_all add: order_1_sync_def)
  from coded_size [OF s(3)] have A: "A = Suc (A - 1)" by simp
  from order_1_step [OF s(2,3) A a(2) s(4), of "\<lambda>symbol m. Some ((), m)" "()" "()" enc_encode "(0, 0, 0)" "()"]
  obtain ops x' s' where step: "list_all valid_call ops" "contexts_ok big_inv (A - 1) x'" "inv s'"
    "performs enc_encode ops (model_2_encode ?big ?cc enc_encode (A - 1) item) m () (((), x'\<lparr>previous_symbol := item\<rparr>), s')"
    "follows ahead ops (order_1_decode ?big ?cc dec_get_target dec_decode (A - 1) (\<lambda>symbol m. Some ((), m))) n item (((), x'), s')"
    unfolding model_2_encode_def m s(1) by blast
  have "follows ahead ops (model_2_decode ?big ?cc dec_get_target dec_decode (A - 1)) n item (((), x'\<lparr>previous_symbol := item\<rparr>), s')"
    unfolding model_2_decode_def
    by (rule follows_bind [where ops' = "[]", simplified], rule step, rule follows_pure, simp add: set_previous_def, simp add: follows_Returned)
  then show "\<exists>ops m' n'. list_all valid_call ops \<and> performs enc_encode ops (model_2_encode ?big ?cc enc_encode (A - 1) item) m () m' \<and>
    follows ahead ops (model_2_decode ?big ?cc dec_get_target dec_decode (A - 1)) n item n' \<and> order_1_sync big_inv inv (A - 1) m' n'"
    using step s(4) previous_ok [OF step(2) a(2)]
    by (intro exI [of _ ops] exI [of _ "(((), x'\<lparr>previous_symbol := item\<rparr>), s')"]) (simp add: order_1_sync_def)
qed

definition cc1_ops :: "nat \<Rightarrow> cc1 cc_ops" where
  "cc1_ops A = \<lparr>op_increment = cc1_increment_count A, op_total = cc1_get_total, op_range = cc1_get_range, op_symbol = cc1_get_symbol\<rparr>"

definition cc2_ops :: "nat \<Rightarrow> cc2 cc_ops" where
  "cc2_ops A = \<lparr>op_increment = cc2_increment_count A, op_total = cc2_get_total, op_range = cc2_get_range, op_symbol = cc2_get_symbol\<rparr>"

definition cc3_ops :: "nat \<Rightarrow> cc3 cc_ops" where
  "cc3_ops A = \<lparr>op_increment = cc3_increment_count A, op_total = cc3_get_total, op_range = cc3_get_range, op_symbol = cc3_get_symbol\<rparr>"

definition cc4_ops :: "nat \<Rightarrow> 64 word \<Rightarrow> (cc4 \<times> cc4_global) cc_ops" where
  "cc4_ops A pool_size =
     \<lparr>op_increment = cc4_increment_count A pool_size, op_total = cc4_get_total, op_range = cc4_get_range A, op_symbol = cc4_get_symbol A\<rparr>"

text \<open>The other classes share the number of bytes only, which these operations leave alone.\<close>

definition shared_apart :: "('s \<Rightarrow> (bool \<times> 's) option) \<Rightarrow> 's \<times> 'g \<Rightarrow> (bool \<times> 's \<times> 'g) option" where
  "shared_apart f = (\<lambda>(s, g). case f s of None \<Rightarrow> None | Some (b, s) \<Rightarrow> Some (b, s, g))"

definition sharing :: "'s cc_ops \<Rightarrow> ('s \<times> unit) cc_ops" where
  "sharing cc =
     \<lparr>op_increment = (\<lambda>x amount. shared_apart (op_increment cc x amount)), op_total = (\<lambda>w. op_total cc (fst w)),
      op_range = (\<lambda>x r w. op_range cc x r (fst w)), op_symbol = (\<lambda>target w. op_symbol cc target (fst w))\<rparr>"

context coding_class
begin

lemma apart_laws:
  "coding_class A (\<lambda>x amount. shared_apart (increment_count x amount)) (\<lambda>w. get_total (fst w)) (\<lambda>x r w. get_range x r (fst w))
    (\<lambda>target w. get_symbol target (fst w)) (\<lambda>(s, g). inv s) (\<lambda>w. cnt (fst w)) (\<lambda>w. low (fst w))"
proof unfold_locales
  fix w :: "'s \<times> 'g" and x and amount :: "16 word"
  assume a: "case w of (s, g) \<Rightarrow> inv s" "x < A" "0 < amount" "unat amount < 32768"
  then show "\<exists>b w'. shared_apart (increment_count x amount) w = Some (b, w') \<and> (case w' of (s, g) \<Rightarrow> inv s)"
    using coded_increment [of "fst w" x amount] by (cases w) (auto simp: shared_apart_def)
next
  fix w :: "'s \<times> 'g" and x r
  assume "case w of (s, g) \<Rightarrow> inv s" "x < A" "cnt (fst w) x = 0"
  then show "\<exists>r'. get_range x r (fst w) = Some (0, r')" using coded_absent [of "fst w" x r] by (cases w) auto
qed (auto simp: coded_size coded_total coded_escape [simplified] coded_present coded_low coded_finds)

end

interpretation cc2_apart: coding_class A "\<lambda>x amount. shared_apart (cc2_increment_count A x amount)" "\<lambda>w. cc2_get_total (fst w)"
  "\<lambda>x r w. cc2_get_range x r (fst w)" "\<lambda>target w. cc2_get_symbol target (fst w)" "\<lambda>(s, g). cc2_inv A s" "\<lambda>w. cc2_cnt (fst w)"
  "\<lambda>w. cc2_low A (fst w)" for A
  by (rule cc2.coding.apart_laws)

interpretation trees: two_classes A "cc2_increment_count A" cc2_get_total cc2_get_range cc2_get_symbol "cc2_inv A" cc2_cnt "cc2_low A"
  "\<lambda>x amount. shared_apart (cc2_increment_count A x amount)" "\<lambda>w. cc2_get_total (fst w)" "\<lambda>x r w. cc2_get_range x r (fst w)"
  "\<lambda>target w. cc2_get_symbol target (fst w)" "cc2_inv A" "\<lambda>w. cc2_cnt (fst w)" "\<lambda>w. cc2_low A (fst w)" for A ..

text \<open>The compressors \<open>kernel_1a\<close> and \<open>kernel_1b\<close>: the models \<open>kernel_1b\<close> and \<open>kernel_2b\<close> over 257 symbols.\<close>

definition compress_1a :: "istream \<times> ostream \<Rightarrow> (unit, istream \<times> ostream) io" where
  "compress_1a = compress (model_1_encode (cc2_ops 258) enc_encode 257) ((), cc2_first 258)"

definition decompress_1a :: "byte \<Rightarrow> istream \<times> ostream \<Rightarrow> (unit, istream \<times> ostream) io" where
  "decompress_1a = decompress (model_1_decode (cc2_ops 258) dec_get_target dec_decode 257) ((), cc2_first 258)"

definition compress_1b :: "istream \<times> ostream \<Rightarrow> (unit, istream \<times> ostream) io" where
  "compress_1b = compress (model_2_encode (sharing (cc2_ops 258)) (cc2_ops 258) enc_encode 257)
     (model_2_init (\<lambda>i. cc2_first 258) () (cc2_first 258) 257)"

definition decompress_1b :: "byte \<Rightarrow> istream \<times> ostream \<Rightarrow> (unit, istream \<times> ostream) io" where
  "decompress_1b = decompress (model_2_decode (sharing (cc2_ops 258)) (cc2_ops 258) dec_get_target dec_decode 257)
     (model_2_init (\<lambda>i. cc2_first 258) () (cc2_first 258) 257)"

section \<open>The conditioning classes count alike\<close>

fun run_counts :: "'s cc_ops \<Rightarrow> (nat \<times> 16 word) list \<Rightarrow> 's \<Rightarrow> 's option" where
  "run_counts cc [] s = Some s"
| "run_counts cc ((x, amount) # calls) s =
     (case op_increment cc x amount s of None \<Rightarrow> None | Some (b, s) \<Rightarrow> run_counts cc calls s)"

text \<open>
  The answers for the counts \<open>f\<close>: the total; for each symbol with a count a range of this length within the total, where the
  symbol is found by each of the numbers of the range.
\<close>

definition answers_for :: "nat \<Rightarrow> (nat \<Rightarrow> nat) \<Rightarrow> 's cc_ops \<Rightarrow> 's \<Rightarrow> bool" where
  "answers_for A f cc s \<longleftrightarrow> op_total cc s = (\<Sum>y<A. f y) \<and> (\<forall>x<A. \<forall>r.
     if f x = 0 then op_range cc x r s = Some (0, r)
     else \<exists>l. op_range cc x r s = Some (f x, l, l + f x, op_total cc s) \<and> l + f x \<le> op_total cc s \<and>
       (\<forall>i < f x. op_symbol cc (l + i) s = Some (x, l, l + f x)))"

definition counted_calls :: "nat \<Rightarrow> (nat \<times> 16 word) list \<Rightarrow> nat \<Rightarrow> nat" where
  "counted_calls A calls = fold (\<lambda>(x, amount). incremented A x (unat amount)) calls (first_counts A)"

lemma incremented_cong:
  assumes "\<forall>y<A. f y = g y" "y < A" "x < A" "2 \<le> A"
  shows "incremented A x a f y = incremented A x a g y"
proof -
  have "(\<Sum>y<A. f y) = (\<Sum>y<A. g y)" "f x = g x" "f y = g y" using assms by simp_all
  moreover have "scaled_count A f x = scaled_count A g x" "scaled_count A f y = scaled_count A g y"
    unfolding scaled_count_def \<open>f x = g x\<close> \<open>f y = g y\<close> by (rule refl)+
  ultimately show ?thesis by (simp add: incremented_def Let_def)
qed

context conditioning
begin

lemma run_spec:
  assumes "inv s" "\<forall>y<A. cnt s y = f y" "list_all (\<lambda>(x, amount). x < A \<and> 0 < amount \<and> unat amount < 32768) calls"
  shows "\<exists>s'. run_counts \<lparr>op_increment = increment_count, op_total = get_total, op_range = get_range, op_symbol = get_symbol\<rparr> calls s = Some s' \<and>
    inv s' \<and> (\<forall>y<A. cnt s' y = fold (\<lambda>(x, amount). incremented A x (unat amount)) calls f y)"
  using assms
proof (induction calls arbitrary: s f)
  case (Cons c calls)
  obtain x a where c: "c = (x, a)" by (cases c)
  with Cons.prems(3) have x: "x < A" "0 < a" "unat a < 32768" by simp_all
  from increment [OF Cons.prems(1) x] obtain s1 where s1: "increment_count x a s = Some (True, s1)" "inv s1"
    "\<forall>y<A. cnt s1 y = incremented A x (unat a) (cnt s) y" by blast
  have "\<forall>y<A. cnt s1 y = incremented A x (unat a) f y"
    using s1(3) incremented_cong [OF Cons.prems(2) _ x(1) size [OF Cons.prems(1)]] by simp
  from Cons.IH [OF s1(2) this] Cons.prems(3) show ?case by (simp add: c s1(1))
qed simp

lemma answers_for_ok:
  assumes "inv s" "\<forall>y<A. cnt s y = f y"
  shows "answers_for A f \<lparr>op_increment = increment_count, op_total = get_total, op_range = get_range, op_symbol = get_symbol\<rparr> s"
proof -
  have t: "get_total s = (\<Sum>y<A. f y)" using total(1) [OF assms(1)] assms(2) by (simp cong: sum.cong_simp)
  have "if f x = 0 then get_range x r s = Some (0, r)
     else \<exists>l. get_range x r s = Some (f x, l, l + f x, get_total s) \<and> l + f x \<le> get_total s \<and>
       (\<forall>i < f x. get_symbol (l + i) s = Some (x, l, l + f x))" if x: "x < A" for x r
  proof (cases "f x = 0")
    case False
    with x assms(2) have c: "0 < cnt s x" "cnt s x = f x" by simp_all
    show ?thesis
      using False present [OF assms(1) x c(1)] low [OF assms(1) x c(1)] finds [OF assms(1) x] total(1) [OF assms(1)]
      by (simp add: c(2))
  qed (use absent [OF assms(1) x] assms(2) x in simp)
  with t show ?thesis unfolding answers_for_def cc_ops.select_convs by blast
qed

lemma counts_answer:
  assumes "2 \<le> A" "A < 65536" "list_all (\<lambda>(x, amount). x < A \<and> 0 < amount \<and> unat amount < 32768) calls"
  shows "\<exists>s. run_counts \<lparr>op_increment = increment_count, op_total = get_total, op_range = get_range, op_symbol = get_symbol\<rparr> calls first = Some s \<and>
    answers_for A (counted_calls A calls) \<lparr>op_increment = increment_count, op_total = get_total, op_range = get_range, op_symbol = get_symbol\<rparr> s"
  using run_spec [OF first(1) [OF assms(1,2)], of "first_counts A" calls] first(2) [OF assms(1,2)] assms(3) answers_for_ok
  unfolding counted_calls_def by blast

end

section \<open>Properties\<close>

text \<open>
  C22. The three conditioning classes refine one function on the counts: from the first state, whatever symbols are
  counted by whatever amounts in the bounds, their tables answer alike for the counts of this function,
  with ranges that do not leave the total and in which each number leads back to its symbol. This holds for the array, for the
  tree and for the list whatever its memory held. Each step of the function is what the documentation ensures, in all cases but one: if
  the last symbol is counted, has the count 1, and the counts are halved, its new count is \<open>1 + amount\<close>, which is not
  what the documentation says (\<open>amount\<close>, or 1).
\<close>

theorem conditioning_classes_refine:
  assumes "2 \<le> A" "A < 65536" "list_all (\<lambda>(x, amount). x < A \<and> 0 < amount \<and> unat amount < 32768) calls"
  shows "(\<exists>s. run_counts (cc1_ops A) calls (cc1_first A) = Some s \<and> answers_for A (counted_calls A calls) (cc1_ops A) s) \<and>
    (\<exists>s. run_counts (cc2_ops A) calls (cc2_first A) = Some s \<and> answers_for A (counted_calls A calls) (cc2_ops A) s) \<and>
    (\<exists>s. run_counts (cc3_ops A) calls (cc3_first (cc3_memory memory A) A) = Some s \<and> answers_for A (counted_calls A calls) (cc3_ops A) s) \<and>
    (\<forall>ys x amount zs. calls = ys @ (x, amount) # zs \<longrightarrow>
       (if last_kept A x (unat amount) (counted_calls A ys) then counted_calls A (ys @ [(x, amount)]) x = 1 + unat amount
        else documented A x (unat amount) (counted_calls A ys) (counted_calls A (ys @ [(x, amount)]))))"
proof (intro conjI)
  show "\<exists>s. run_counts (cc1_ops A) calls (cc1_first A) = Some s \<and> answers_for A (counted_calls A calls) (cc1_ops A) s"
    unfolding cc1_ops_def by (rule cc1.counts_answer [OF assms])
  show "\<exists>s. run_counts (cc2_ops A) calls (cc2_first A) = Some s \<and> answers_for A (counted_calls A calls) (cc2_ops A) s"
    unfolding cc2_ops_def by (rule cc2.counts_answer [OF assms])
  show "\<exists>s. run_counts (cc3_ops A) calls (cc3_first (cc3_memory memory A) A) = Some s \<and> answers_for A (counted_calls A calls) (cc3_ops A) s"
    unfolding cc3_ops_def by (rule cc3.counts_answer [OF assms])
  show "\<forall>ys x amount zs. calls = ys @ (x, amount) # zs \<longrightarrow>
       (if last_kept A x (unat amount) (counted_calls A ys) then counted_calls A (ys @ [(x, amount)]) x = 1 + unat amount
        else documented A x (unat amount) (counted_calls A ys) (counted_calls A (ys @ [(x, amount)])))"
  proof (intro allI impI)
    fix ys x and amount :: "16 word" and zs assume "calls = ys @ (x, amount) # zs"
    with assms(3) have "x < A" by simp
    then show "if last_kept A x (unat amount) (counted_calls A ys) then counted_calls A (ys @ [(x, amount)]) x = 1 + unat amount
        else documented A x (unat amount) (counted_calls A ys) (counted_calls A (ys @ [(x, amount)]))"
      by (rule incremented_documented) (simp add: counted_calls_def)
  qed
qed

theorem conditioning_classes_refine_witness:
  "\<forall>memory. (\<exists>s. run_counts (cc1_ops 3) [(0, 2), (2, 1)] (cc1_first 3) = Some s \<and> answers_for 3 (counted_calls 3 [(0, 2), (2, 1)]) (cc1_ops 3) s) \<and>
    (\<exists>s. run_counts (cc2_ops 3) [(0, 2), (2, 1)] (cc2_first 3) = Some s \<and> answers_for 3 (counted_calls 3 [(0, 2), (2, 1)]) (cc2_ops 3) s) \<and>
    (\<exists>s. run_counts (cc3_ops 3) [(0, 2), (2, 1)] (cc3_first (cc3_memory memory 3) 3) = Some s \<and>
      answers_for 3 (counted_calls 3 [(0, 2), (2, 1)]) (cc3_ops 3) s)"
proof
  fix memory
  have calls: "2 \<le> (3 :: nat)" "(3 :: nat) < 65536" "list_all (\<lambda>(x, amount). x < (3 :: nat) \<and> 0 < amount \<and> unat amount < 32768) [(0, 2), (2, 1 :: 16 word)]"
    by simp_all
  note c = conditioning_classes_refine [OF calls, of memory]
  show "(\<exists>s. run_counts (cc1_ops 3) [(0, 2), (2, 1)] (cc1_first 3) = Some s \<and> answers_for 3 (counted_calls 3 [(0, 2), (2, 1)]) (cc1_ops 3) s) \<and>
    (\<exists>s. run_counts (cc2_ops 3) [(0, 2), (2, 1)] (cc2_first 3) = Some s \<and> answers_for 3 (counted_calls 3 [(0, 2), (2, 1)]) (cc2_ops 3) s) \<and>
    (\<exists>s. run_counts (cc3_ops 3) [(0, 2), (2, 1)] (cc3_first (cc3_memory memory 3) 3) = Some s \<and>
      answers_for 3 (counted_calls 3 [(0, 2), (2, 1)]) (cc3_ops 3) s)"
    by (intro conjI c [THEN conjunct1] c [THEN conjunct2, THEN conjunct1] c [THEN conjunct2, THEN conjunct2, THEN conjunct1])
qed

text \<open>
  The compressor \<open>kernel_1b\<close>, with the model of order 1 over the trees of counts: whatever bytes are in
  the stream, the compressed bytes and as much of the four bytes of the range as there is room for are written, or an exception says
  that there is no room for the former, and the decompressor on them, whatever follows, writes the bytes that were compressed, or throws when there is no room.
\<close>

lemma compress_1b_round_trip:
  "\<exists>bs fl. length fl = 4 \<and>
    (\<forall>out. if length bs \<le> room out
       then compress_1b (\<lparr>source = xs, in_bad = bad\<rparr>, out) =
         Returned () (\<lparr>source = [], in_bad = bad\<rparr>, put_bytes (take (room out) (bs @ fl)) out)
       else throws (compress_1b (\<lparr>source = xs, in_bad = bad\<rparr>, out))) \<and>
    (\<forall>rest ch out. if length xs \<le> room out
       then \<exists>i. decompress_1b ch (holding (bs @ fl @ rest), out) = Returned () (i, put_bytes xs out)
       else \<exists>i. decompress_1b ch (holding (bs @ fl @ rest), out) =
         Thrown ''error occurred in compress_stream_kernel_1::decompress'' (i, put_bytes (take (room out) xs) out))"
proof -
  have n: "258 - 1 = (257 :: nat)" "256 < (257 :: nat)" by simp_all
  have "order_1_sync (cc2_inv 258) (cc2_inv 258) 257 (model_2_init (\<lambda>i. cc2_first 258) () (cc2_first 258) 257)
      (model_2_init (\<lambda>i. cc2_first 258) () (cc2_first 258) 257)"
    using cc2.first(1) [of 258] by (simp add: order_1_sync_def contexts_ok_def model_2_init_def)
  from trees.order_1.stream_coding [of 258, unfolded n(1), OF this n(2)] show ?thesis
    unfolding compress_1b_def decompress_1b_def cc2_ops_def sharing_def cc_ops.select_convs .
qed

text \<open>
  The compressor \<open>kernel_1a\<close>, with the model of order 0 over a tree of counts, likewise.
\<close>

lemma compress_1a_round_trip:
  "\<exists>bs fl. length fl = 4 \<and>
    (\<forall>out. if length bs \<le> room out
       then compress_1a (\<lparr>source = xs, in_bad = bad\<rparr>, out) =
         Returned () (\<lparr>source = [], in_bad = bad\<rparr>, put_bytes (take (room out) (bs @ fl)) out)
       else throws (compress_1a (\<lparr>source = xs, in_bad = bad\<rparr>, out))) \<and>
    (\<forall>rest ch out. if length xs \<le> room out
       then \<exists>i. decompress_1a ch (holding (bs @ fl @ rest), out) = Returned () (i, put_bytes xs out)
       else \<exists>i. decompress_1a ch (holding (bs @ fl @ rest), out) =
         Thrown ''error occurred in compress_stream_kernel_1::decompress'' (i, put_bytes (take (room out) xs) out))"
proof -
  have n: "258 - 1 = (257 :: nat)" "256 < (257 :: nat)" by simp_all
  have "order_0_sync (cc2_inv 258) 257 ((), cc2_first 258) ((), cc2_first 258)"
    using cc2.first(1) [of 258] by (simp add: order_0_sync_def)
  from cc2.coding.order_0.stream_coding [of 258, unfolded n(1), OF this n(2)] show ?thesis
    unfolding compress_1a_def decompress_1a_def cc2_ops_def .
qed

end
