(* ===== verification/Order_Two.thy ===== *)
theory Order_Two
  imports Order_Models
begin

text \<open>
  The model of order 2, \<open>entropy_encoder_model_kernel_3.h\<close> and its decoder: contexts of two symbols, which are made when they are
  first needed and share a pool of nodes, in front of the contexts of order 1 and 0.
\<close>

section \<open>The contexts of two symbols\<close>

record ('h, 'k) high_contexts =
  order_2 :: "'h option list"
  gs_high :: 'k
  previous_symbol2 :: "64 word"

type_synonym ('h, 'k, 'b, 'g, 's) model_3 = "(('h, 'k) high_contexts \<times> ('b, 'g) contexts) \<times> 's"

definition model_3_init :: "'k \<Rightarrow> (nat \<Rightarrow> 'b) \<Rightarrow> 'g \<Rightarrow> 's \<Rightarrow> nat \<Rightarrow> ('h, 'k, 'b, 'g, 's) model_3" where
  "model_3_init k b g s N =
     ((\<lparr>order_2 = replicate (N * N) None, gs_high = k, previous_symbol2 = 0\<rparr>,
       \<lparr>order_1 = map b [0..<N], gsbig = g, previous_symbol = 0\<rparr>), s)"

fun destroy_all :: "('h \<times> 'k \<Rightarrow> 'k) \<Rightarrow> 'h option list \<Rightarrow> 'k \<Rightarrow> 'k" where
  "destroy_all destroy [] k = k"
| "destroy_all destroy (None # hs) k = destroy_all destroy hs k"
| "destroy_all destroy (Some h # hs) k = destroy_all destroy hs (destroy (h, k))"

definition model_3_clear ::
  "('h \<times> 'k \<Rightarrow> 'k) \<Rightarrow> ('b \<times> 'g \<Rightarrow> 'b \<times> 'g) \<Rightarrow> ('s \<Rightarrow> 's) \<Rightarrow> ('h, 'k, 'b, 'g, 's) model_3 \<Rightarrow> ('h, 'k, 'b, 'g, 's) model_3" where
  "model_3_clear destroy clear_big clear = (\<lambda>((y, x), s).
     let s = clear s; (bs, g) = clear_contexts clear_big (order_1 x) (gsbig x)
     in ((y\<lparr>previous_symbol2 := 0, gs_high := destroy_all destroy (order_2 y) (gs_high y), order_2 := map (\<lambda>_. None) (order_2 y)\<rparr>,
          x\<lparr>previous_symbol := 0, order_1 := bs, gsbig := g\<rparr>), s))"

text \<open>The index \<open>temp\<close>, which the calls below get, and the shift of the symbols before.\<close>

definition find_position :: "nat \<Rightarrow> ('h, 'k, 'b, 'g, 's) model_3 \<Rightarrow> (nat \<times> ('h, 'k, 'b, 'g, 's) model_3) option" where
  "find_position N = (\<lambda>((y, x), s). Some (unat (previous_symbol x + previous_symbol2 y * of_nat N), ((y, x), s)))"

definition shift_previous :: "('h, 'k, 'b, 'g, 's) model_3 \<Rightarrow> (unit \<times> ('h, 'k, 'b, 'g, 's) model_3) option" where
  "shift_previous = (\<lambda>((y, x), s). Some ((), ((y\<lparr>previous_symbol2 := previous_symbol x\<rparr>, x), s)))"

definition high_exists :: "nat \<Rightarrow> ('h, 'k, 'b, 'g, 's) model_3 \<Rightarrow> (bool \<times> ('h, 'k, 'b, 'g, 's) model_3) option" where
  "high_exists temp = (\<lambda>((y, x), s). if temp < length (order_2 y) then Some (order_2 y ! temp \<noteq> None, ((y, x), s)) else None)"

definition new_high :: "('k \<Rightarrow> 'h \<times> 'k) \<Rightarrow> nat \<Rightarrow> ('h, 'k, 'b, 'g, 's) model_3 \<Rightarrow> (unit \<times> ('h, 'k, 'b, 'g, 's) model_3) option" where
  "new_high construct temp = (\<lambda>((y, x), s).
     if temp < length (order_2 y)
     then let (h, k) = construct (gs_high y) in Some ((), ((y\<lparr>order_2 := (order_2 y)[temp := Some h], gs_high := k\<rparr>, x), s))
     else None)"

definition in_high ::
  "nat \<Rightarrow> ('h \<times> 'k \<Rightarrow> ('a \<times> 'h \<times> 'k) option) \<Rightarrow> ('h, 'k, 'b, 'g, 's) model_3 \<Rightarrow> ('a \<times> ('h, 'k, 'b, 'g, 's) model_3) option" where
  "in_high temp f = (\<lambda>((y, x), s).
     if temp < length (order_2 y)
     then case order_2 y ! temp of
            None \<Rightarrow> None
          | Some h \<Rightarrow>
              (case f (h, gs_high y) of
                 None \<Rightarrow> None
               | Some (a, h, k) \<Rightarrow> Some (a, ((y\<lparr>order_2 := (order_2 y)[temp := Some h], gs_high := k\<rparr>, x), s)))
     else None)"

section \<open>Encoder and decoder\<close>

definition model_3_encode ::
  "('k \<Rightarrow> 'h \<times> 'k) \<Rightarrow> ('h \<times> 'k) cc_ops \<Rightarrow> ('b \<times> 'g) cc_ops \<Rightarrow> 's cc_ops \<Rightarrow> (32 word \<Rightarrow> 32 word \<Rightarrow> 32 word \<Rightarrow> 'c \<Rightarrow> (unit, 'c) io) \<Rightarrow>
     nat \<Rightarrow> 64 word \<Rightarrow> ('h, 'k, 'b, 'g, 's) model_3 \<times> 'c \<Rightarrow> (unit, ('h, 'k, 'b, 'g, 's) model_3 \<times> 'c) io" where
  "model_3_encode construct cc_high cc1 cc enc N symbol =
     bind_io (on_model (find_position N)) (\<lambda>temp.
     bind_io (on_model shift_previous) (\<lambda>_.
     bind_io (on_model (high_exists temp)) (\<lambda>there.
       if there
       then bind_io (on_model (in_high temp (look_up cc_high (unat symbol) (0, 0, 0)))) (\<lambda>(c, r).
            if c \<noteq> 0
            then bind_io (on_model (in_high temp (count_up cc_high (unat symbol) 2))) (\<lambda>_.
                 bind_io (encode_range enc r) (\<lambda>_. on_model (set_previous symbol)))
            else bind_io (on_model (in_high temp (look_up cc_high N r))) (\<lambda>(c, r).
                 bind_io (encode_range enc r) (\<lambda>_.
                 bind_io (on_model (in_high temp (count_up cc_high N 1))) (\<lambda>_.
                 bind_io (on_model (in_high temp (count_up cc_high (unat symbol) 2))) (\<lambda>_.
                 order_1_encode cc1 cc enc N r symbol)))))
       else bind_io (on_model (new_high construct temp)) (\<lambda>_.
            bind_io (on_model (in_high temp (count_up cc_high (unat symbol) 2))) (\<lambda>_.
            order_1_encode cc1 cc enc N (0, 0, 0) symbol)))))"

text \<open>The decoder once it has escaped from the context of two symbols.\<close>

definition model_3_lower ::
  "('h \<times> 'k) cc_ops \<Rightarrow> ('b \<times> 'g) cc_ops \<Rightarrow> 's cc_ops \<Rightarrow> (32 word \<Rightarrow> 'd \<Rightarrow> (32 word, 'd) io) \<Rightarrow>
     (32 word \<Rightarrow> 32 word \<Rightarrow> 'd \<Rightarrow> (unit, 'd) io) \<Rightarrow> nat \<Rightarrow> nat \<Rightarrow>
     ('h, 'k, 'b, 'g, 's) model_3 \<times> 'd \<Rightarrow> (64 word, ('h, 'k, 'b, 'g, 's) model_3 \<times> 'd) io" where
  "model_3_lower cc_high cc1 cc get dec N temp =
     bind_io (order_1_decode cc1 cc get dec N (\<lambda>symbol. in_high temp (count_up cc_high symbol 2))) (\<lambda>symbol.
     bind_io (on_model shift_previous) (\<lambda>_.
     bind_io (on_model (set_previous symbol)) (\<lambda>_. Returned symbol)))"

definition model_3_decode ::
  "('k \<Rightarrow> 'h \<times> 'k) \<Rightarrow> ('h \<times> 'k) cc_ops \<Rightarrow> ('b \<times> 'g) cc_ops \<Rightarrow> 's cc_ops \<Rightarrow> (32 word \<Rightarrow> 'd \<Rightarrow> (32 word, 'd) io) \<Rightarrow>
     (32 word \<Rightarrow> 32 word \<Rightarrow> 'd \<Rightarrow> (unit, 'd) io) \<Rightarrow> nat \<Rightarrow>
     ('h, 'k, 'b, 'g, 's) model_3 \<times> 'd \<Rightarrow> (64 word, ('h, 'k, 'b, 'g, 's) model_3 \<times> 'd) io" where
  "model_3_decode construct cc_high cc1 cc get dec N =
     bind_io (on_model (find_position N)) (\<lambda>temp.
     bind_io (on_model (high_exists temp)) (\<lambda>there.
       if there
       then bind_io (on_model (in_high temp (total_up cc_high))) (\<lambda>tot.
            bind_io (on_stream (get (of_nat tot))) (\<lambda>target.
            bind_io (on_model (in_high temp (find_up cc_high (unat target)))) (\<lambda>(current_symbol, low_count, high_count).
            bind_io (on_stream (dec (of_nat low_count) (of_nat high_count))) (\<lambda>_.
              if current_symbol \<noteq> N
              then bind_io (on_model (in_high temp (count_up cc_high current_symbol 2))) (\<lambda>_.
                   bind_io (on_model shift_previous) (\<lambda>_.
                   bind_io (on_model (set_previous (of_nat current_symbol))) (\<lambda>_. Returned (of_nat current_symbol))))
              else bind_io (on_model (in_high temp (count_up cc_high N 1))) (\<lambda>_.
                   model_3_lower cc_high cc1 cc get dec N temp)))))
       else bind_io (on_model (new_high construct temp)) (\<lambda>_. model_3_lower cc_high cc1 cc get dec N temp)))"

section \<open>The invariant\<close>

locale three_classes =
  two_classes A increment_count get_total get_range get_symbol inv cnt low
    big_increment_count big_get_total big_get_range big_get_symbol big_inv big_cnt big_low +
  high: coding_class A high_increment_count high_get_total high_get_range high_get_symbol "\<lambda>(h, k). high_inv h" high_cnt high_low
  for A and increment_count :: "nat \<Rightarrow> 16 word \<Rightarrow> 's \<Rightarrow> (bool \<times> 's) option" and get_total get_range get_symbol inv cnt low
    and big_increment_count :: "nat \<Rightarrow> 16 word \<Rightarrow> 'b \<times> 'g \<Rightarrow> (bool \<times> 'b \<times> 'g) option" and big_get_total big_get_range big_get_symbol big_inv big_cnt big_low
    and high_increment_count :: "nat \<Rightarrow> 16 word \<Rightarrow> 'h \<times> 'k \<Rightarrow> (bool \<times> 'h \<times> 'k) option" and high_get_total high_get_range high_get_symbol high_inv high_cnt high_low +
  fixes construct :: "'k \<Rightarrow> 'h \<times> 'k"
  assumes constructed: "2 \<le> A \<Longrightarrow> A < 65536 \<Longrightarrow> case construct k of (h, k) \<Rightarrow> high_inv h"

definition highs_ok :: "('h \<Rightarrow> bool) \<Rightarrow> nat \<Rightarrow> ('h, 'k) high_contexts \<Rightarrow> bool" where
  "highs_ok good N y \<longleftrightarrow> length (order_2 y) = N * N \<and> unat (previous_symbol2 y) < N \<and> (\<forall>h. Some h \<in> set (order_2 y) \<longrightarrow> good h)"

definition put_high :: "nat \<Rightarrow> 'h \<times> 'k \<Rightarrow> ('h, 'k) high_contexts \<Rightarrow> ('h, 'k) high_contexts" where
  "put_high temp = (\<lambda>(h, k) y. y\<lparr>order_2 := (order_2 y)[temp := Some h], gs_high := k\<rparr>)"

definition holds_high :: "nat \<Rightarrow> ('h, 'k) high_contexts \<Rightarrow> 'h \<times> 'k \<Rightarrow> bool" where
  "holds_high temp y w \<longleftrightarrow> temp < length (order_2 y) \<and> order_2 y ! temp = Some (fst w) \<and> gs_high y = snd w"

lemma position_ok:
  assumes "contexts_ok good N x" "highs_ok good' N y" "N < 65535"
  shows "find_position N ((y, x), s) = Some (unat (previous_symbol x) + unat (previous_symbol2 y) * N, ((y, x), s))"
    "unat (previous_symbol x) + unat (previous_symbol2 y) * N < length (order_2 y)"
proof -
  let ?p = "unat (previous_symbol x)" and ?q = "unat (previous_symbol2 y)"
  have p: "?p < N" "?q < N" "length (order_2 y) = N * N" using assms(1,2) by (simp_all add: contexts_ok_def highs_ok_def)
  then have "?p + ?q * N < N + ?q * N" by simp
  also have "\<dots> = (?q + 1) * N" by simp
  also have "\<dots> \<le> N * N" using p(2) by (intro mult_right_mono) simp_all
  finally have le: "?p + ?q * N < N * N" .
  also have "\<dots> \<le> 65535 * 65535" using assms(3) by (intro mult_mono) simp_all
  finally have small: "?p + ?q * N < 4294836225" by simp
  have "unat (previous_symbol2 y * of_nat N) = ?q * N"
    using small assms(3) by (simp add: unat_word_ariths(2) unat_of_nat)
  then have "unat (previous_symbol x + previous_symbol2 y * of_nat N) = ?p + ?q * N"
    using small by (simp add: unat_word_ariths(1))
  then show "find_position N ((y, x), s) = Some (?p + ?q * N, ((y, x), s))" by (simp add: find_position_def)
  show "?p + ?q * N < length (order_2 y)" using le p(3) by simp
qed

lemma put_high_ok:
  "highs_ok good N y \<Longrightarrow> (case w of (h, k) \<Rightarrow> good h) \<Longrightarrow> highs_ok good N (put_high temp w y)"
  by (cases w) (auto simp: highs_ok_def put_high_def dest!: set_update_subset_insert [THEN subsetD])

lemma holds_high_good: "highs_ok good N y \<Longrightarrow> holds_high temp y w \<Longrightarrow> case w of (h, k) \<Rightarrow> good h"
  using nth_mem [of temp "order_2 y"] by (cases w) (auto simp: highs_ok_def holds_high_def)

lemma put_high_simps:
  "temp < length (order_2 y) \<Longrightarrow> holds_high temp (put_high temp w y) w"
  "put_high temp w (put_high temp w' y) = put_high temp w y"
  "length (order_2 (put_high temp w y)) = length (order_2 y)"
  "previous_symbol2 (put_high temp w y) = previous_symbol2 y"
  "put_high temp w (y\<lparr>previous_symbol2 := p\<rparr>) = (put_high temp w y)\<lparr>previous_symbol2 := p\<rparr>"
  "holds_high temp (y\<lparr>previous_symbol2 := p\<rparr>) w = holds_high temp y w"
  by (cases y; cases w; cases w'; simp add: holds_high_def put_high_def)+

lemma put_high_same: "holds_high temp y w \<Longrightarrow> put_high temp w y = y"
  using list_update_id [of "order_2 y" temp] by (cases w; cases y) (simp add: holds_high_def put_high_def)

lemma in_high_ok: "holds_high temp y w \<Longrightarrow> f w = Some (a, w') \<Longrightarrow> in_high temp f ((y, x), s) = Some (a, ((put_high temp w' y, x), s))"
  by (cases w; cases w') (simp add: in_high_def holds_high_def put_high_def)

lemma in_high_same: "holds_high temp y w \<Longrightarrow> f w = Some (a, w) \<Longrightarrow> in_high temp f ((y, x), s) = Some (a, ((y, x), s))"
  using in_high_ok [of temp y w f a w] by (simp add: put_high_same)

definition order_2_ok :: "('h \<Rightarrow> bool) \<Rightarrow> ('b \<Rightarrow> bool) \<Rightarrow> ('s \<Rightarrow> bool) \<Rightarrow> nat \<Rightarrow> ('h, 'k, 'b, 'g, 's) model_3 \<Rightarrow> bool" where
  "order_2_ok good_high good_big good N = (\<lambda>((y, x), s). highs_ok good_high N y \<and> contexts_ok good_big N x \<and> good s)"

definition order_2_after :: "nat \<Rightarrow> 'h \<times> 'k \<Rightarrow> 64 word \<Rightarrow> ('h, 'k) high_contexts \<Rightarrow> ('h, 'k) high_contexts" where
  "order_2_after temp w p y = (put_high temp w y)\<lparr>previous_symbol2 := p\<rparr>"

lemma order_2_after_ok:
  "highs_ok good N y \<Longrightarrow> (case w of (h, k) \<Rightarrow> good h) \<Longrightarrow> unat p < N \<Longrightarrow> highs_ok good N (order_2_after temp w p y)"
  using put_high_ok [of good N y w temp] by (simp add: highs_ok_def order_2_after_def)

context three_classes
begin

lemma lower_step:
  fixes symbol :: "64 word"
  defines "cc \<equiv> \<lparr>op_increment = increment_count, op_total = get_total, op_range = get_range, op_symbol = get_symbol\<rparr>"
    and "ccbig \<equiv> \<lparr>op_increment = big_increment_count, op_total = big_get_total, op_range = big_get_range, op_symbol = big_get_symbol\<rparr>"
    and "cch \<equiv> \<lparr>op_increment = high_increment_count, op_total = high_get_total, op_range = high_get_range, op_symbol = high_get_symbol\<rparr>"
  assumes y: "highs_ok high_inv N y" "holds_high temp y w" and x: "contexts_ok big_inv N x"
    and s: "inv s" "A = Suc N" "unat symbol < N" "N < 65535"
  shows "\<exists>ops w' x' s'. list_all valid_call ops \<and> order_2_ok high_inv big_inv inv N ((order_2_after temp w' (previous_symbol x) y, x'), s') \<and>
    count_up cch (unat symbol) 2 w = Some ((), w') \<and>
    performs enc ops (order_1_encode ccbig cc enc N r symbol) ((order_2_after temp w' (previous_symbol x) y, x), s) ()
      ((order_2_after temp w' (previous_symbol x) y, x'), s') \<and>
    follows ahead ops (model_3_lower cch ccbig cc dec_get_target dec_decode N temp) ((y, x), s) symbol
      ((order_2_after temp w' (previous_symbol x) y, x'), s')"
proof -
  have a: "unat symbol < A" using s(2,3) by simp
  from high.count_ok [OF holds_high_good [OF y] a, of 2] obtain w' where
    w': "count_up cch (unat symbol) 2 w = Some ((), w')" "case w' of (h, k) \<Rightarrow> high_inv h" unfolding cch_def by auto
  let ?y = "order_2_after temp w' (previous_symbol x) y" and ?noted = "\<lambda>symbol. in_high temp (count_up cch symbol 2)"
  from order_1_step [OF x s, of ?noted y "put_high temp w' y" enc r ?y] in_high_ok [where f = "count_up cch (unat symbol) 2", OF y(2) w'(1)]
  obtain ops x' s' where step: "list_all valid_call ops" "contexts_ok big_inv N x'" "previous_symbol x' = previous_symbol x" "inv s'"
    "performs enc ops (order_1_encode ccbig cc enc N r symbol) ((?y, x), s) () ((?y, x'\<lparr>previous_symbol := symbol\<rparr>), s')"
    "follows ahead ops (order_1_decode ccbig cc dec_get_target dec_decode N ?noted) ((y, x), s) symbol ((put_high temp w' y, x'), s')"
    unfolding cc_def ccbig_def by blast
  have "follows ahead ops (model_3_lower cch ccbig cc dec_get_target dec_decode N temp) ((y, x), s) symbol
    ((?y, x'\<lparr>previous_symbol := symbol\<rparr>), s')"
    unfolding model_3_lower_def
    by (rule follows_bind [where ops' = "[]", simplified], rule step, rule follows_pure, simp add: shift_previous_def,
      rule follows_pure, simp add: set_previous_def, simp add: follows_Returned step(3) order_2_after_def)
  with step w'(1) previous_ok [OF step(2) s(3)] order_2_after_ok [OF y(1) w'(2), of "previous_symbol x"] x show ?thesis
    by (intro exI [of _ ops] exI [of _ w'] exI [of _ "x'\<lparr>previous_symbol := symbol\<rparr>"] exI [of _ s'])
      (simp add: order_2_ok_def contexts_ok_def)
qed

lemma order_2_found:
  fixes symbol :: "64 word"
  defines "cc \<equiv> \<lparr>op_increment = increment_count, op_total = get_total, op_range = get_range, op_symbol = get_symbol\<rparr>"
    and "ccbig \<equiv> \<lparr>op_increment = big_increment_count, op_total = big_get_total, op_range = big_get_range, op_symbol = big_get_symbol\<rparr>"
    and "cch \<equiv> \<lparr>op_increment = high_increment_count, op_total = high_get_total, op_range = high_get_range, op_symbol = high_get_symbol\<rparr>"
  assumes y: "highs_ok high_inv N y" and x: "contexts_ok big_inv N x" and s: "inv s" "A = Suc N" "unat symbol < N" "N < 65535"
    and there: "order_2 y ! (unat (previous_symbol x) + unat (previous_symbol2 y) * N) = Some h"
    and count: "0 < high_cnt (h, gs_high y) (unat symbol)"
  shows "\<exists>ops m. list_all valid_call ops \<and> order_2_ok high_inv big_inv inv N m \<and>
    performs enc ops (model_3_encode construct cch ccbig cc enc N symbol) ((y, x), s) () m \<and>
    follows ahead ops (model_3_decode construct cch ccbig cc dec_get_target dec_decode N) ((y, x), s) symbol m"
proof -
  let ?a = "unat symbol" and ?p = "previous_symbol x" and ?w = "(h, gs_high y)"
  let ?temp = "unat ?p + unat (previous_symbol2 y) * N" and ?y' = "y\<lparr>previous_symbol2 := ?p\<rparr>"
  have a: "?a < A" "?a \<noteq> N" using s(2,3) by simp_all
  note temp = position_ok [OF x y s(4)]
  have holds: "holds_high ?temp y ?w" using temp(2) there by (simp add: holds_high_def)
  then have holds': "holds_high ?temp ?y' ?w" by (simp add: holds_high_def)
  note good = holds_high_good [OF y holds]
  from high.count_ok [OF good a(1), of 2] obtain w' where
    w': "count_up cch ?a 2 ?w = Some ((), w')" "case w' of (h, k) \<Rightarrow> high_inv h" unfolding cch_def by auto
  from high.ranged [OF good a(1) count] obtain c l i t where c: "0 < c" "l < i" "i \<le> t" "t < 65536"
    and ops: "total_up cch ?w = Some (t, ?w)" "\<And>r. look_up cch ?a r ?w = Some ((c, l, i, t), ?w)"
      "\<And>target. l \<le> target \<Longrightarrow> target < i \<Longrightarrow> find_up cch target ?w = Some ((?a, l, i), ?w)"
    unfolding cch_def by blast
  let ?ops = "[(of_nat l, of_nat i, of_nat t)] :: call list" and ?m = "((order_2_after ?temp w' ?p y, x\<lparr>previous_symbol := symbol\<rparr>), s)"
  have after: "put_high ?temp w' ?y' = order_2_after ?temp w' ?p y" by (simp add: order_2_after_def put_high_simps)
  have "performs enc ?ops (model_3_encode construct cch ccbig cc enc N symbol) ((y, x), s) () ?m"
    unfolding model_3_encode_def
    by (rule performs_pure, rule temp, rule performs_pure, simp add: shift_previous_def,
      rule performs_pure, simp add: high_exists_def there temp(2), simp, rule performs_pure, rule in_high_same, rule holds', rule ops,
      simp add: c(1), rule performs_pure, rule in_high_ok, rule holds', rule w', unfold after,
      simp add: encode_range_def, rule performs_op, rule performs_on_model, simp add: set_previous_def)
  moreover have "follows ahead ?ops (model_3_decode construct cch ccbig cc dec_get_target dec_decode N) ((y, x), s) symbol ?m"
    unfolding model_3_decode_def
    by (rule follows_pure, rule temp, rule follows_pure, simp add: high_exists_def there temp(2), simp,
      rule follows_pure, rule in_high_same, rule holds, rule ops, rule follows_find, rule c, use c in simp,
      rule in_high_same, rule holds, rule ops, assumption+, simp add: a,
      rule follows_pure, rule in_high_ok, rule holds, rule w', rule follows_pure, simp add: shift_previous_def,
      rule follows_pure, simp add: set_previous_def, simp add: follows_Returned order_2_after_def)
  moreover have "order_2_ok high_inv big_inv inv N ?m"
    using order_2_after_ok [OF y w'(2)] previous_ok [OF x s(3)] s(1) x by (simp add: order_2_ok_def contexts_ok_def)
  ultimately show ?thesis
    using range_valid [OF c(2,3,4)] by (intro exI [of _ ?ops] exI [of _ ?m]) simp
qed

lemma order_2_escape:
  fixes symbol :: "64 word"
  defines "cc \<equiv> \<lparr>op_increment = increment_count, op_total = get_total, op_range = get_range, op_symbol = get_symbol\<rparr>"
    and "ccbig \<equiv> \<lparr>op_increment = big_increment_count, op_total = big_get_total, op_range = big_get_range, op_symbol = big_get_symbol\<rparr>"
    and "cch \<equiv> \<lparr>op_increment = high_increment_count, op_total = high_get_total, op_range = high_get_range, op_symbol = high_get_symbol\<rparr>"
  assumes y: "highs_ok high_inv N y" and x: "contexts_ok big_inv N x" and s: "inv s" "A = Suc N" "unat symbol < N" "N < 65535"
    and there: "order_2 y ! (unat (previous_symbol x) + unat (previous_symbol2 y) * N) = Some h"
    and count: "high_cnt (h, gs_high y) (unat symbol) = 0"
  shows "\<exists>ops m. list_all valid_call ops \<and> order_2_ok high_inv big_inv inv N m \<and>
    performs enc ops (model_3_encode construct cch ccbig cc enc N symbol) ((y, x), s) () m \<and>
    follows ahead ops (model_3_decode construct cch ccbig cc dec_get_target dec_decode N) ((y, x), s) symbol m"
proof -
  let ?a = "unat symbol" and ?p = "previous_symbol x" and ?w = "(h, gs_high y)"
  let ?temp = "unat ?p + unat (previous_symbol2 y) * N" and ?y' = "y\<lparr>previous_symbol2 := ?p\<rparr>"
  have a: "?a < A" "N < A" using s(2,3) by simp_all
  note temp = position_ok [OF x y s(4)]
  have holds: "holds_high ?temp y ?w" using temp(2) there by (simp add: holds_high_def)
  then have holds': "holds_high ?temp ?y' ?w" by (simp add: holds_high_def)
  note good = holds_high_good [OF y holds]
  have pos: "0 < high_cnt ?w N" using high.coded_escape [OF good] s(2) by simp
  from high.count_ok [OF good a(2), of 1] obtain w1 where
    w1: "count_up cch N 1 ?w = Some ((), w1)" "case w1 of (h, k) \<Rightarrow> high_inv h" unfolding cch_def by auto
  from high.ranged [OF good a(2) pos] obtain c l i t where c: "0 < c" "l < i" "i \<le> t" "t < 65536"
    and ops: "total_up cch ?w = Some (t, ?w)" "\<And>r. look_up cch N r ?w = Some ((c, l, i, t), ?w)"
      "\<And>target. l \<le> target \<Longrightarrow> target < i \<Longrightarrow> find_up cch target ?w = Some ((N, l, i), ?w)"
    unfolding cch_def by blast
  from high.missing [OF good a(1) count, of "(0, 0, 0)"] obtain r' where
    r': "look_up cch ?a (0, 0, 0) ?w = Some ((0, r'), ?w)" unfolding cch_def by blast
  let ?y1 = "put_high ?temp w1 y" and ?c = "(of_nat l, of_nat i, of_nat t) :: call"
  have y1: "highs_ok high_inv N ?y1" "holds_high ?temp ?y1 w1"
    using put_high_ok [OF y w1(2)] put_high_simps(1) [OF temp(2)] by simp_all
  from lower_step [OF y1 x s, of enc "(l, i, t)"] obtain ops' w' x' s' where
    step: "list_all valid_call ops'" "order_2_ok high_inv big_inv inv N ((order_2_after ?temp w' ?p ?y1, x'), s')"
      "count_up cch ?a 2 w1 = Some ((), w')"
      "performs enc ops' (order_1_encode ccbig cc enc N (l, i, t) symbol) ((order_2_after ?temp w' ?p ?y1, x), s) ()
        ((order_2_after ?temp w' ?p ?y1, x'), s')"
      "follows ahead ops' (model_3_lower cch ccbig cc dec_get_target dec_decode N ?temp) ((?y1, x), s) symbol
        ((order_2_after ?temp w' ?p ?y1, x'), s')"
    unfolding cc_def ccbig_def cch_def by blast
  let ?m = "((order_2_after ?temp w' ?p ?y1, x'), s')"
  have h1: "holds_high ?temp (put_high ?temp w1 ?y') w1" by (rule put_high_simps(1)) (simp add: temp(2))
  have after: "put_high ?temp w' (put_high ?temp w1 ?y') = order_2_after ?temp w' ?p ?y1" by (simp add: order_2_after_def put_high_simps)
  have "performs enc (?c # ops') (model_3_encode construct cch ccbig cc enc N symbol) ((y, x), s) () ?m"
    unfolding model_3_encode_def
    by (rule performs_pure, rule temp, rule performs_pure, simp add: shift_previous_def,
      rule performs_pure, simp add: high_exists_def there temp(2), simp, rule performs_pure, rule in_high_same, rule holds', rule r',
      simp, rule performs_pure, rule in_high_same, rule holds', rule ops, simp add: encode_range_def, rule performs_op,
      rule performs_pure, rule in_high_ok, rule holds', rule w1, rule performs_pure, rule in_high_ok, rule h1, rule step,
      unfold after, rule step)
  moreover have "follows ahead (?c # ops') (model_3_decode construct cch ccbig cc dec_get_target dec_decode N) ((y, x), s) symbol ?m"
    unfolding model_3_decode_def
    by (rule follows_pure, rule temp, rule follows_pure, simp add: high_exists_def there temp(2), simp,
      rule follows_pure, rule in_high_same, rule holds, rule ops, rule follows_find, rule c, use c in simp,
      rule in_high_same, rule holds, rule ops, assumption+, simp, rule follows_pure, rule in_high_ok, rule holds, rule w1, rule step)
  ultimately show ?thesis
    using range_valid [OF c(2,3,4)] step(1,2) by (intro exI [of _ "?c # ops'"] exI [of _ ?m]) simp
qed

lemma order_2_new:
  fixes symbol :: "64 word"
  defines "cc \<equiv> \<lparr>op_increment = increment_count, op_total = get_total, op_range = get_range, op_symbol = get_symbol\<rparr>"
    and "ccbig \<equiv> \<lparr>op_increment = big_increment_count, op_total = big_get_total, op_range = big_get_range, op_symbol = big_get_symbol\<rparr>"
    and "cch \<equiv> \<lparr>op_increment = high_increment_count, op_total = high_get_total, op_range = high_get_range, op_symbol = high_get_symbol\<rparr>"
  assumes y: "highs_ok high_inv N y" and x: "contexts_ok big_inv N x" and s: "inv s" "A = Suc N" "unat symbol < N" "N < 65535"
    and there: "order_2 y ! (unat (previous_symbol x) + unat (previous_symbol2 y) * N) = None"
  shows "\<exists>ops m. list_all valid_call ops \<and> order_2_ok high_inv big_inv inv N m \<and>
    performs enc ops (model_3_encode construct cch ccbig cc enc N symbol) ((y, x), s) () m \<and>
    follows ahead ops (model_3_decode construct cch ccbig cc dec_get_target dec_decode N) ((y, x), s) symbol m"
proof -
  let ?p = "previous_symbol x" and ?w1 = "construct (gs_high y)"
  let ?temp = "unat ?p + unat (previous_symbol2 y) * N" and ?y' = "y\<lparr>previous_symbol2 := ?p\<rparr>"
  let ?y1 = "put_high ?temp ?w1 y"
  note temp = position_ok [OF x y s(4)]
  have A: "2 \<le> A" "A < 65536" using s coded_size by simp_all
  have y1: "highs_ok high_inv N ?y1" "holds_high ?temp ?y1 ?w1"
    using put_high_ok [OF y constructed [OF A]] put_high_simps(1) [OF temp(2)] by simp_all
  from lower_step [OF y1 x s, of enc "(0, 0, 0)"] obtain ops' w' x' s' where
    step: "list_all valid_call ops'" "order_2_ok high_inv big_inv inv N ((order_2_after ?temp w' ?p ?y1, x'), s')"
      "count_up cch (unat symbol) 2 ?w1 = Some ((), w')"
      "performs enc ops' (order_1_encode ccbig cc enc N (0, 0, 0) symbol) ((order_2_after ?temp w' ?p ?y1, x), s) ()
        ((order_2_after ?temp w' ?p ?y1, x'), s')"
      "follows ahead ops' (model_3_lower cch ccbig cc dec_get_target dec_decode N ?temp) ((?y1, x), s) symbol
        ((order_2_after ?temp w' ?p ?y1, x'), s')"
    unfolding cc_def ccbig_def cch_def by blast
  let ?m = "((order_2_after ?temp w' ?p ?y1, x'), s')"
  have new: "new_high construct ?temp ((z, x), s) = Some ((), ((put_high ?temp (construct (gs_high z)) z, x), s))"
    if "length (order_2 z) = length (order_2 y)" for z :: "('h, 'k) high_contexts"
    using temp(2) that by (simp add: new_high_def put_high_def split: prod.split)
  have new': "new_high construct ?temp ((?y', x), s) = Some ((), ((put_high ?temp ?w1 ?y', x), s))" using new [of ?y'] by simp
  have gone: "high_exists ?temp ((z, x), s) = Some (False, ((z, x), s))" if "order_2 z = order_2 y" for z :: "('h, 'k) high_contexts"
    using temp(2) that there by (simp add: high_exists_def)
  have h1: "holds_high ?temp (put_high ?temp ?w1 ?y') ?w1" by (rule put_high_simps(1)) (simp add: temp(2))
  have after: "put_high ?temp w' (put_high ?temp ?w1 ?y') = order_2_after ?temp w' ?p ?y1" by (simp add: order_2_after_def put_high_simps)
  have "performs enc ops' (model_3_encode construct cch ccbig cc enc N symbol) ((y, x), s) () ?m"
    unfolding model_3_encode_def
    by (rule performs_pure, rule temp, rule performs_pure, simp add: shift_previous_def,
      rule performs_pure, rule gone, simp, simp, rule performs_pure, rule new',
      rule performs_pure, rule in_high_ok, rule h1, rule step, unfold after, rule step)
  moreover have "follows ahead ops' (model_3_decode construct cch ccbig cc dec_get_target dec_decode N) ((y, x), s) symbol ?m"
    unfolding model_3_decode_def
    by (rule follows_pure, rule temp, rule follows_pure, rule gone, simp, simp,
      rule follows_pure, simp add: new, rule step)
  ultimately show ?thesis using step(1,2) by (intro exI [of _ ops'] exI [of _ ?m]) simp
qed

lemma order_2_step:
  fixes symbol :: "64 word"
  defines "cc \<equiv> \<lparr>op_increment = increment_count, op_total = get_total, op_range = get_range, op_symbol = get_symbol\<rparr>"
    and "ccbig \<equiv> \<lparr>op_increment = big_increment_count, op_total = big_get_total, op_range = big_get_range, op_symbol = big_get_symbol\<rparr>"
    and "cch \<equiv> \<lparr>op_increment = high_increment_count, op_total = high_get_total, op_range = high_get_range, op_symbol = high_get_symbol\<rparr>"
  assumes y: "highs_ok high_inv N y" and x: "contexts_ok big_inv N x" and s: "inv s" "A = Suc N" "unat symbol < N" "N < 65535"
  shows "\<exists>ops m. list_all valid_call ops \<and> order_2_ok high_inv big_inv inv N m \<and>
    performs enc ops (model_3_encode construct cch ccbig cc enc N symbol) ((y, x), s) () m \<and>
    follows ahead ops (model_3_decode construct cch ccbig cc dec_get_target dec_decode N) ((y, x), s) symbol m"
proof (cases "order_2 y ! (unat (previous_symbol x) + unat (previous_symbol2 y) * N)")
  case None
  show ?thesis unfolding cc_def ccbig_def cch_def by (rule order_2_new [OF y x s None])
next
  case (Some h)
  then show ?thesis unfolding cc_def ccbig_def cch_def
    using order_2_found [OF y x s Some] order_2_escape [OF y x s Some] by (cases "high_cnt (h, gs_high y) (unat symbol) = 0") simp_all
qed

end

definition order_2_sync ::
  "('h \<Rightarrow> bool) \<Rightarrow> ('b \<Rightarrow> bool) \<Rightarrow> ('s \<Rightarrow> bool) \<Rightarrow> nat \<Rightarrow> ('h, 'k, 'b, 'g, 's) model_3 \<Rightarrow> ('h, 'k, 'b, 'g, 's) model_3 \<Rightarrow> bool" where
  "order_2_sync good_high good_big good N m n \<longleftrightarrow> m = n \<and> N < 65535 \<and> order_2_ok good_high good_big good N m"

sublocale three_classes \<subseteq> order_2: symbol_coding
  "model_3_encode construct \<lparr>op_increment = high_increment_count, op_total = high_get_total, op_range = high_get_range, op_symbol = high_get_symbol\<rparr>
    \<lparr>op_increment = big_increment_count, op_total = big_get_total, op_range = big_get_range, op_symbol = big_get_symbol\<rparr>
    \<lparr>op_increment = increment_count, op_total = get_total, op_range = get_range, op_symbol = get_symbol\<rparr> enc_encode (A - 1)"
  "model_3_decode construct \<lparr>op_increment = high_increment_count, op_total = high_get_total, op_range = high_get_range, op_symbol = high_get_symbol\<rparr>
    \<lparr>op_increment = big_increment_count, op_total = big_get_total, op_range = big_get_range, op_symbol = big_get_symbol\<rparr>
    \<lparr>op_increment = increment_count, op_total = get_total, op_range = get_range, op_symbol = get_symbol\<rparr> dec_get_target dec_decode (A - 1)"
  "order_2_sync high_inv big_inv inv (A - 1)" "A - 1"
proof unfold_locales
  fix m n :: "('h, 'k, 'b, 'g, 's) model_3" and item :: "64 word"
  let ?cc = "\<lparr>op_increment = increment_count, op_total = get_total, op_range = get_range, op_symbol = get_symbol\<rparr>"
  let ?big = "\<lparr>op_increment = big_increment_count, op_total = big_get_total, op_range = big_get_range, op_symbol = big_get_symbol\<rparr>"
  let ?high = "\<lparr>op_increment = high_increment_count, op_total = high_get_total, op_range = high_get_range, op_symbol = high_get_symbol\<rparr>"
  assume a: "order_2_sync high_inv big_inv inv (A - 1) m n" "unat item < A - 1"
  obtain y x s where m: "m = ((y, x), s)" by (cases m) auto
  with a(1) have s: "n = ((y, x), s)" "highs_ok high_inv (A - 1) y" "contexts_ok big_inv (A - 1) x" "inv s" "A - 1 < 65535"
    by (simp_all add: order_2_sync_def order_2_ok_def)
  from coded_size [OF s(4)] have A: "A = Suc (A - 1)" by simp
  show "\<exists>ops m' n'. list_all valid_call ops \<and> performs enc_encode ops (model_3_encode construct ?high ?big ?cc enc_encode (A - 1) item) m () m' \<and>
    follows ahead ops (model_3_decode construct ?high ?big ?cc dec_get_target dec_decode (A - 1)) n item n' \<and>
    order_2_sync high_inv big_inv inv (A - 1) m' n'"
    using order_2_step [OF s(2-4) A a(2) s(5), of enc_encode] s(5) unfolding order_2_sync_def m s(1) by blast
qed

section \<open>The compressor\<close>

lemma pool_class: "coding_class A (cc4_increment_count A pool_size) cc4_get_total (cc4_get_range A) (cc4_get_symbol A)
    (\<lambda>(h, k). cc4_ok A h) (cc4_cnt A) (cc4_low A)"
  using cc4.coding_class_axioms [of A pool_size] unfolding cc4_inv_def .

interpretation pools: three_classes A "cc2_increment_count A" cc2_get_total cc2_get_range cc2_get_symbol "cc2_inv A" cc2_cnt "cc2_low A"
  "\<lambda>x amount. shared_apart (cc2_increment_count A x amount)" "\<lambda>w. cc2_get_total (fst w)" "\<lambda>x r w. cc2_get_range x r (fst w)"
  "\<lambda>target w. cc2_get_symbol target (fst w)" "cc2_inv A" "\<lambda>w. cc2_cnt (fst w)" "\<lambda>w. cc2_low A (fst w)"
  "cc4_increment_count A pool_size" cc4_get_total "cc4_get_range A" "cc4_get_symbol A" "cc4_ok A" "cc4_cnt A" "cc4_low A"
  cc4_construct for A pool_size
proof (intro three_classes.intro three_classes_axioms.intro)
  show "case cc4_construct k of (h, k) \<Rightarrow> cc4_ok A h" if "2 \<le> A" "A < 65536" for k
    using cc4_first_ok(1) [OF that] by (simp add: cc4_construct_def)
qed (rule pool_class two_classes.intro cc2.coding.coding_class_axioms cc2.coding.apart_laws)+

text \<open>The compressor \<open>kernel_1c\<close>: the model \<open>kernel_3b\<close>, with trees for the orders 0 and 1 and lists from a pool of 100000 nodes for order 2.\<close>

definition compress_1c :: "istream \<times> ostream \<Rightarrow> (unit, istream \<times> ostream) io" where
  "compress_1c = compress (model_3_encode cc4_construct (cc4_ops 258 100000) (sharing (cc2_ops 258)) (cc2_ops 258) enc_encode 257)
     (model_3_init (cc4_global_init 100000) (\<lambda>i. cc2_first 258) () (cc2_first 258) 257)"

definition decompress_1c :: "byte \<Rightarrow> istream \<times> ostream \<Rightarrow> (unit, istream \<times> ostream) io" where
  "decompress_1c = decompress (model_3_decode cc4_construct (cc4_ops 258 100000) (sharing (cc2_ops 258)) (cc2_ops 258) dec_get_target dec_decode 257)
     (model_3_init (cc4_global_init 100000) (\<lambda>i. cc2_first 258) () (cc2_first 258) 257)"

text \<open>
  C23. The compressor \<open>kernel_1c\<close>, with contexts of two symbols that are made on demand and share a pool of nodes:
  whatever bytes are in the stream, also when the pool runs out, it writes some bytes and the four bytes of the range, or throws when the
  stream has no room for the former; if there is room for these but not for the last four, it returns, and the end
  is missing. The decompressor on the whole of them, whatever follows, writes the bytes that were compressed, or throws
  when there is no room.
\<close>

theorem compress_1c_round_trip:
  "\<exists>bs fl. length fl = 4 \<and>
    (\<forall>out. if length bs \<le> room out
       then compress_1c (\<lparr>source = xs, in_bad = bad\<rparr>, out) =
         Returned () (\<lparr>source = [], in_bad = bad\<rparr>, put_bytes (take (room out) (bs @ fl)) out)
       else throws (compress_1c (\<lparr>source = xs, in_bad = bad\<rparr>, out))) \<and>
    (\<forall>rest ch out. if length xs \<le> room out
       then \<exists>i. decompress_1c ch (holding (bs @ fl @ rest), out) = Returned () (i, put_bytes xs out)
       else \<exists>i. decompress_1c ch (holding (bs @ fl @ rest), out) =
         Thrown ''error occurred in compress_stream_kernel_1::decompress'' (i, put_bytes (take (room out) xs) out))"
proof -
  let ?m = "model_3_init (cc4_global_init 100000) (\<lambda>i. cc2_first 258) () (cc2_first 258) 257"
  have n: "258 - 1 = (257 :: nat)" "256 < (257 :: nat)" by simp_all
  have "contexts_ok (cc2_inv 258) 257 \<lparr>order_1 = map (\<lambda>i. cc2_first 258) [0..<257], gsbig = (), previous_symbol = 0\<rparr>"
    using cc2.first(1) [of 258] by (simp add: contexts_ok_def)
  then have "order_2_sync (cc4_ok 258) (cc2_inv 258) (cc2_inv 258) 257 ?m ?m"
    using cc2.first(1) [of 258] by (simp add: order_2_sync_def order_2_ok_def highs_ok_def model_3_init_def)
  from pools.order_2.stream_coding [where A = 258 and pool_size = 100000, unfolded n(1), OF this n(2)] show ?thesis
    unfolding compress_1c_def decompress_1c_def cc2_ops_def cc4_ops_def sharing_def cc_ops.select_convs .
qed

end
