(* ===== verification/User_Compass.thy ===== *)
theory User_Compass
  imports Robot_Control
begin

text \<open>
  The sketch of the compass that the user carries, \<open>user/sketch_mar09a/sketch_mar09a.ino\<close>, and what the robot reads of its
  headings. The library functions of its board are those of the robot's board; the conversion of
  the two axes into an angle is a parameter of it, as for the robot.
\<close>

section \<open>The sketch\<close>

datatype user_action =
  Serial_Begin nat
  | My_Serial_Begin nat
  | Wait nat
  | Wire_Begin
  | Wire_Begin_Transmission byte
  | Wire_Write byte
  | Wire_End_Transmission
  | Wire_Request_From byte nat
  | My_Serial_Print string

record 'w user =
  user_world :: 'w
  user_acts :: "user_action list"

definition user_act :: "user_action \<Rightarrow> 'w user \<Rightarrow> 'w user" where
  "user_act a s = s\<lparr>user_acts := user_acts s @ [a]\<rparr>"

definition compass_addr :: byte where "compass_addr = 0x1E"

definition user_setup :: "'w user \<Rightarrow> 'w user" where
  "user_setup s =
     user_act Wire_End_Transmission (user_act (Wire_Write 0x00) (user_act (Wire_Write 0x02)
       (user_act (Wire_Begin_Transmission compass_addr) (user_act Wire_Begin
       (user_act (Wait 100) (user_act (My_Serial_Begin 9600) (user_act (Serial_Begin 9600) s)))))))"

definition user_axis :: "'w board \<Rightarrow> 'w user \<Rightarrow> 'w user \<times> int" where
  "user_axis b s =
     (let (w, h) = wire_read b (user_world s);
          (w, l) = wire_read b w
      in (s\<lparr>user_world := w\<rparr>, to_int b (word_cat h l)))"

text \<open>\<open>requestFrom\<close> delivers at most the six bytes that it asks for, so that the bytes are read in every call.\<close>

definition user_compass_direction :: "'w board \<Rightarrow> 'w user \<Rightarrow> 'w user \<times> int" where
  "user_compass_direction b s =
     (let s = user_act (Wire_Request_From compass_addr 6) (user_act Wire_End_Transmission
                (user_act (Wire_Write 0x03) (user_act (Wire_Begin_Transmission compass_addr) s)));
          (s, x) = user_axis b s;
          (s, z) = user_axis b s;
          (s, y) = user_axis b s
      in (user_act (Wait 100) s, heading_of b y x))"

text \<open>\<open>String(angle)\<close> of the board's library.\<close>

fun nat_string :: "nat \<Rightarrow> string" where
  "nat_string n = (if n < 10 then [char_of (48 + n)] else nat_string (n div 10) @ [char_of (48 + n mod 10)])"

declare nat_string.simps [simp del]

definition int_string :: "int \<Rightarrow> string" where
  "int_string x = (if x < 0 then ''-'' @ nat_string (nat (- x)) else nat_string (nat x))"

definition heading_string :: "int \<Rightarrow> string" where
  "heading_string angle =
     (if angle < 10 then ''00'' @ int_string angle
      else if angle < 100 then ''0'' @ int_string angle
      else int_string angle)"

definition user_loop :: "'w board \<Rightarrow> 'w user \<Rightarrow> 'w user" where
  "user_loop b s = (let (s, angle) = user_compass_direction b s in user_act (My_Serial_Print (heading_string angle)) s)"

section \<open>The text of a heading\<close>

text \<open>The characters that the sketch has sent.\<close>

definition sent :: "'w user \<Rightarrow> string" where
  "sent s = concat (map (\<lambda>a. case a of My_Serial_Print str \<Rightarrow> str | _ \<Rightarrow> []) (user_acts s))"

text \<open>What \<open>compassDirection\<close> returns when \<open>loop\<close> is called next.\<close>

definition heading :: "'w board \<Rightarrow> 'w user \<Rightarrow> int" where
  "heading b s = snd (user_compass_direction b s)"

definition digit :: "int \<Rightarrow> char" where
  "digit n = char_of (48 + nat n)"

lemma of_digit: "0 \<le> n \<Longrightarrow> n < 10 \<Longrightarrow> of_char (digit n) = (48 + n :: int)"
proof -
  assume n: "0 \<le> n" "n < 10"
  then have "of_char (digit n) = (48 + nat n :: nat)" by (simp add: digit_def)
  then have "int (of_char (digit n)) = 48 + n" using n by linarith
  then show ?thesis by (simp only: of_nat_of_char)
qed

lemma nat_digit: "0 \<le> n \<Longrightarrow> n < 10 \<Longrightarrow> of_char (digit n) = 48 + nat n"
  by (simp add: digit_def)

lemma digit_kind:
  assumes "0 \<le> n" "n < 10"
  shows "is_digit (digit n)" "\<not> is_space (digit n)" "digit n \<noteq> CHR ''-''" "digit n \<noteq> CHR ''+''"
proof -
  note d = nat_digit [OF assms]
  show "is_digit (digit n)" "\<not> is_space (digit n)" using assms by (simp_all add: is_digit_def is_space_def d)
  have "of_char (CHR ''-'') = (45 :: nat)" "of_char (CHR ''+'') = (43 :: nat)" by simp_all
  then show "digit n \<noteq> CHR ''-''" "digit n \<noteq> CHR ''+''" using d by auto
qed

lemma three_digits:
  assumes "0 \<le> a" "a < 10" "0 \<le> b" "b < 10" "0 \<le> c" "c < 10"
  shows "to_int_string [digit a, digit b, digit c] = 100 * a + 10 * b + c"
  using assms by (simp add: to_int_string_def digit_kind of_digit)

lemma heading_digits:
  assumes "0 \<le> a" "a < 1000"
  shows "heading_string a = [digit (a div 100), digit (a div 10 mod 10), digit (a mod 10)]"
proof -
  obtain n where a: "a = int n" using assms(1) by (metis nonneg_int_cases)
  have n: "n < 1000" using assms(2) a by simp
  have one: "nat_string k = [char_of (48 + k)]" if "k < 10" for k using that by (subst nat_string.simps) simp
  have two: "nat_string k = [char_of (48 + k div 10), char_of (48 + k mod 10)]" if "\<not> k < 10" "k < 100" for k
    using that by (subst nat_string.simps) (simp add: one)
  have three: "nat_string k = [char_of (48 + k div 100), char_of (48 + k div 10 mod 10), char_of (48 + k mod 10)]"
    if "\<not> k < 100" "k < 1000" for k
    using that by (subst nat_string.simps) (simp add: two div_mult2_eq [symmetric])
  have d: "digit (int k) = char_of (48 + k)" for k by (simp add: digit_def)
  have e: "int n div 100 = int (n div 100)" "int n div 10 mod 10 = int (n div 10 mod 10)" "int n mod 10 = int (n mod 10)"
    by (simp_all add: zdiv_int zmod_int)
  have z: "CHR ''0'' = char_of (48 :: nat)" by (simp add: char_of_def bit_numeral_rec bit_0)
  consider "n < 10" | "\<not> n < 10" "n < 100" | "\<not> n < 100" "n < 1000" using n by linarith
  then show ?thesis unfolding a e d
    by cases (simp_all add: heading_string_def int_string_def one two three z)
qed

lemma heading_length: "0 \<le> a \<Longrightarrow> a < 1000 \<Longrightarrow> length (heading_string a) = 3"
  by (simp add: heading_digits)

lemma split_digits: "100 * (x div 100) + 10 * (x div 10 mod 10) = 10 * (x div 10)" "10 * (x div 10) + x mod 10 = (x :: int)"
  "10 * (x div 100) + x div 10 mod 10 = x div 10" "x mod 100 = 10 * (x div 10 mod 10) + x mod 10"
proof -
  have e: "x div 100 = x div 10 div 10" by (simp add: zdiv_zmult2_eq [symmetric])
  have d: "10 * (x div 10 div 10) + x div 10 mod 10 = x div 10" "10 * (x div 10) + x mod 10 = x" by simp_all
  then show "100 * (x div 100) + 10 * (x div 10 mod 10) = 10 * (x div 10)" "10 * (x div 10) + x mod 10 = x"
    "10 * (x div 100) + x div 10 mod 10 = x div 10" unfolding e by linarith+
  have "x mod 100 = x - 100 * (x div 100)" by (simp add: minus_mult_div_eq_mod)
  with d show "x mod 100 = 10 * (x div 10 mod 10) + x mod 10" unfolding e by linarith
qed

lemma heading_value:
  assumes "0 \<le> a" "a < 1000"
  shows "to_int_string (heading_string a) = a"
  unfolding heading_digits [OF assms] using assms split_digits [of a] by (subst three_digits) (simp_all only: pos_mod_bound pos_mod_sign zero_less_numeral, auto)

lemma axis_acts: "user_acts (fst (user_axis b s)) = user_acts s"
  by (simp add: user_axis_def Let_def case_prod_unfold)

lemma compass_acts: "sent (fst (user_compass_direction b s)) = sent s"
  by (simp add: user_compass_direction_def Let_def case_prod_unfold user_act_def sent_def axis_acts)

lemma sent_loop: "sent (user_loop b s) = sent s @ heading_string (heading b s)"
proof -
  have "sent (user_act (My_Serial_Print str) t) = sent t @ str" for str and t :: "'a user"
    by (simp add: sent_def user_act_def)
  then show ?thesis by (simp add: user_loop_def heading_def case_prod_unfold Let_def compass_acts)
qed

lemma sent_loops:
  assumes "\<And>t. 0 \<le> heading b t \<and> heading b t < 1000"
  shows "length (sent ((user_loop b ^^ k) s)) = length (sent s) + 3 * k"
  by (induction k) (simp_all add: sent_loop heading_length assms)

text \<open>What the robot makes of the characters.\<close>

lemma last_heading:
  assumes "0 \<le> h" "h < 1000"
  shows "angle_of_message (m @ heading_string h) = h"
  by (simp add: angle_of_message_def heading_length [OF assms] heading_value [OF assms])

lemma torn_heading:
  assumes g: "0 \<le> g" "g < 1000" and h: "0 \<le> h" "h < 1000"
  shows "angle_of_message (m @ heading_string g @ take 2 (heading_string h)) = 100 * (g mod 10) + h div 10"
    "angle_of_message (m @ heading_string g @ take 1 (heading_string h)) = 10 * (g mod 100) + h div 100"
proof -
  have b: "0 \<le> h div 100" "h div 100 < 10" "0 \<le> h div 10 mod 10" "h div 10 mod 10 < 10" "0 \<le> g mod 10" "g mod 10 < 10"
    "0 \<le> g div 10 mod 10" "g div 10 mod 10 < 10" using h by auto
  have "angle_of_message (m @ heading_string g @ take 2 (heading_string h)) =
      to_int_string [digit (g mod 10), digit (h div 100), digit (h div 10 mod 10)]"
    by (simp add: angle_of_message_def heading_digits [OF g] heading_digits [OF h] numeral_eq_Suc)
  also have "\<dots> = 100 * (g mod 10) + 10 * (h div 100) + h div 10 mod 10" by (rule three_digits) (use b in auto)
  finally show "angle_of_message (m @ heading_string g @ take 2 (heading_string h)) = 100 * (g mod 10) + h div 10" using split_digits(3) [of h] by linarith
  have "angle_of_message (m @ heading_string g @ take 1 (heading_string h)) =
      to_int_string [digit (g div 10 mod 10), digit (g mod 10), digit (h div 100)]"
    by (simp add: angle_of_message_def heading_digits [OF g] heading_digits [OF h] numeral_eq_Suc)
  also have "\<dots> = 100 * (g div 10 mod 10) + 10 * (g mod 10) + h div 100" by (rule three_digits) (use b in auto)
  finally show "angle_of_message (m @ heading_string g @ take 1 (heading_string h)) = 10 * (g mod 100) + h div 100" using split_digits(4) [of g] by linarith
qed

section \<open>Properties\<close>

definition user_board :: "unit board" where
  "user_board = \<lparr>ranging = (\<lambda>i w. (w, 1, 20)), to_int = uint, get_recognition = (\<lambda>w. (w, 0, 0)),
     millis = (\<lambda>w. (w, 0)), analog_read = (\<lambda>p w. (w, 900)), serial1_available = (\<lambda>w. False),
     serial1_read = (\<lambda>w. (w, CHR ''F'')), wire_read = (\<lambda>w. (w, 0)), heading_of = (\<lambda>y x. 47)\<rparr>"

text \<open>
  C21. A heading travels from the user's sketch to the robot's: when the robot's buffer holds what the sketch has sent in some
  turns of its \<open>loop\<close>, \<open>manualBle\<close> returns the heading of the last of the turns, whatever was sent before. The headings are
  those of a compass, from 0 up to less than 1000.
\<close>

theorem heading_reaches_robot:
  assumes "\<And>t. 0 \<le> heading u t \<and> heading u t < 1000"
    and "serial1_available b (world s)" "drains b n (world s)" "idle s" "n < 2 ^ 31"
    and "message b n (world s) = sent ((user_loop u ^^ Suc k) t)"
  shows "\<exists>s'. manual_ble b n s = Some (s', heading u ((user_loop u ^^ k) t)) \<and> idle s' \<and> wheels s' = wheels s"
  using manual_ble_message [OF assms(2-5)] last_heading assms(1) unfolding assms(6)
  by (auto simp: sent_loop still_def)

theorem heading_reaches_robot_witness:
  "\<exists>s'. manual_ble message_board 7 (message_robot ''047047'') = Some (s', 47) \<and> idle s' \<and>
    wheels s' = wheels (message_robot ''047047'')"
proof -
  let ?t = "\<lparr>user_world = (), user_acts = []\<rparr>"
  have h: "heading user_board t = 47" for t
    by (simp add: heading_def user_compass_direction_def case_prod_unfold Let_def user_board_def)
  have d: "drains message_board 7 ''047047''" "message message_board 7 ''047047'' = ''047047''"
    by (simp_all add: message_board_def numeral_eq_Suc)
  have "heading_string 47 = ''047''" by (simp add: heading_string_def int_string_def nat_string.simps char_of_def bit_numeral_rec bit_0)
  then have "message message_board 7 (world (message_robot ''047047'')) = sent ((user_loop user_board ^^ Suc 1) ?t)"
    by (simp add: sent_loop h d(2) message_robot_def) (simp add: sent_def)
  moreover have "serial1_available message_board (world (message_robot ''047047''))" "idle (message_robot ''047047'')"
    "drains message_board 7 (world (message_robot ''047047''))"
    using d(1) by (simp_all add: message_robot_def idle_def) (simp add: message_board_def)
  ultimately show ?thesis
    using heading_reaches_robot [of user_board message_board "message_robot ''047047''" 7 1 ?t] by (simp only: h) simp
qed

text \<open>
  C40. The text has no marks between the headings: when the last heading has come in half, with one or two of its three
  characters, \<open>manualBle\<close> returns a number made of the end of one heading and the start of the next.
\<close>

theorem torn_heading_misread:
  assumes "0 \<le> g" "g < 1000" "0 \<le> h" "h < 1000"
    and "serial1_available b (world s)" "drains b n (world s)" "idle s" "n < 2 ^ 31"
    and "message b n (world s) = m @ heading_string g @ take (Suc k) (heading_string h)" "k < 2"
  shows "\<exists>s'. manual_ble b n s = Some (s', if k = 0 then 10 * (g mod 100) + h div 100 else 100 * (g mod 10) + h div 10)"
proof -
  have "k = 0 \<or> k = 1" using assms(10) by auto
  then show ?thesis
    using manual_ble_message [OF assms(5-8)] torn_heading [OF assms(1-4), of m] unfolding assms(9)
    by (auto simp: numeral_2_eq_2)
qed

theorem torn_heading_misread_witness:
  "\<exists>s'. manual_ble message_board 6 (message_robot ''12304'') = Some (s', 304)"
proof -
  have d: "drains message_board 6 ''12304''" "message message_board 6 ''12304'' = ''12304''"
    by (simp_all add: message_board_def numeral_eq_Suc)
  have "heading_string 123 = ''123''" "heading_string 45 = ''045''"
    by (simp_all add: heading_string_def int_string_def nat_string.simps char_of_def bit_numeral_rec bit_0)
  then show ?thesis
    using torn_heading_misread [of 123 45 message_board "message_robot ''12304''" 6 "[]" 1] d
    by (simp add: message_robot_def idle_def message_board_def)
qed

end
