(* ===== verification/Spec2Isabelle.thy ===== *)
theory Spec2Isabelle
  imports Set_Clients Checked_Containers Serialize_Containers Serialize_Detector Face_Detected H264_Img_Process Robot_Control Base64 Frontal_Face Order_Two User_Compass
begin

text \<open>
  \<^bold>\<open>A verification development of the robot project.\<close>

  The repository holds a robot that follows a person. A sketch on the robot's board
  (\<open>src/Arduino/robot\<close>) drives the motors from a heading that the person's phone and a second board
  (\<open>src/Arduino/user\<close>) send, and dodges obstacles with eight sonars. A host program
  (\<open>src/python_ffmpeg_interface\<close>) exchanges H.264 video with the phone through FFmpeg
  (\<open>H264Encoder\<close>, \<open>H264Decoder\<close>, \<open>H264ImgProcess\<close>) and recognises faces (\<open>FaceDetected\<close>) with the
  library dlib, whose sources the repository contains: a sliding window detector finds the faces, a
  network describes them, and the distance of two descriptors tells whether they show the same person.
  The bulk of the repository is dlib; of it, the development models the code the program's own
  classes rest on and the container classes, the library's core of component-based design.

  \<^bold>\<open>Theories and the code they model\<close> (paths below \<open>src/python_ffmpeg_interface/dlib\<close> unless
  they start with \<open>src\<close>)

  \<^item> \<open>Prelude\<close>: C integer conversions, the collection \<open>model_defs\<close>, lemmas on lists and multisets.
  \<^item> \<open>Checked_Assert\<close>: \<open>DLIB_CASSERT\<close> of \<open>assert.h\<close> and the outcome of a checked call: an exception,
    no defined behaviour, or a result.
  \<^item> \<open>Pair_Container\<close>: the contract of a container of (key, value) pairs, the template argument
    \<open>bst_base\<close> and \<open>hash_table\<close> of the sets and maps, as a record of operations and the locales
    \<open>pair_container\<close> and \<open>asc_pair_container\<close>.
  \<^item> \<open>Bst_Kernel_1\<close>, \<open>Bst_Object\<close>, \<open>Bst_Enum\<close>, \<open>Bst_Correct\<close>, \<open>Bst_Current\<close>:
    \<open>binary_search_tree/binary_search_tree_kernel_1.h\<close>. The recursive routines on nodes; the object
    with its enumerator, whose state is a pointer and a stack of fifty pointers; the enumerator as a
    zipper; the operations against the contract; removal of the element the enumerator is at.
  \<^item> \<open>Hash_Table_Kernel_1\<close>: \<open>hash_table/hash_table_kernel_1.h\<close>, against the same contract.
  \<^item> \<open>Checked_Containers\<close>: \<open>binary_search_tree_kernel_c.h\<close>, \<open>hash_table_kernel_c.h\<close>.
  \<^item> \<open>Set_Container\<close>, \<open>Set_Kernel_1\<close>: \<open>set/set_kernel_c.h\<close>, \<open>set/set_compare_1.h\<close>, \<open>set/set_kernel_1.h\<close>.
  \<^item> \<open>Map_Container\<close>, \<open>Map_Kernel_1\<close>: \<open>map/map_kernel_c.h\<close>, \<open>map/map_kernel_1.h\<close>.
  \<^item> \<open>Hash_Containers\<close>, \<open>Set_Clients\<close>: \<open>hash_set/\<close>, \<open>hash_map/\<close>; a client cannot tell the two
    implementations of a set apart.
  \<^item> \<open>Rectangle\<close>, \<open>Box_Overlap\<close>, \<open>Object_Detector\<close>: \<open>geometry/rectangle.h\<close>, \<open>geometry/drectangle.h\<close>,
    \<open>image_processing/box_overlap_testing.h\<close>, \<open>image_processing/object_detector.h\<close>.
  \<^item> \<open>Stream_Io\<close>: input and output streams, and the monad of calls that return, throw or have no
    defined behaviour; the locales \<open>serializer\<close> and \<open>checked_serializer\<close>, the contract of a pair
    \<open>serialize\<close>, \<open>deserialize\<close>: what is written is read back, and a stream that ends early is reported.
  \<^item> \<open>Serialize_Int\<close>, \<open>Float_Details\<close>, \<open>Serialize_Std\<close>: \<open>serialize.h\<close> and \<open>float_details.h\<close>: integers at
    their width, bytes, floating point numbers, the types of the standard library, the file proxies.
  \<^item> \<open>Serialize_Containers\<close>: \<open>serialize\<close> of \<open>enumerable\<close> and \<open>deserialize\<close> of the six container classes.
  \<^item> \<open>Serialize_Detector\<close>: the same of rectangles, \<open>matrix/matrix.h\<close>, the overlap tester and the
    object detector.
  \<^item> \<open>Base64\<close>: \<open>base64/base64_kernel_1.cpp\<close>, against the text of RFC 4648 (\<open>rfc_text\<close>).
  \<^item> \<open>Entropy_Coder\<close>: the range coder, \<open>entropy_encoder/entropy_encoder_kernel_2.cpp\<close> and
    \<open>entropy_decoder/entropy_decoder_kernel_2.cpp\<close>; the locale \<open>entropy_coding\<close> is what a decoder promises.
  \<^item> \<open>Ppm_Model\<close>, \<open>Ppm_Search\<close>, \<open>Ppm_Shape\<close>, \<open>Ppm_Lockstep\<close>: the model of order n,
    \<open>entropy_encoder_model_kernel_5.h\<close> and its decoder. The code; how a context is searched and what is excluded; the shape of the
    tree of contexts and the sums of the counts; encoder and decoder take the same steps.
  \<^item> \<open>Crc32\<close>, \<open>Compress_Stream\<close>: \<open>crc32/crc32_kernel_1.h\<close> and \<open>compress_stream/compress_stream_kernel_1.h\<close>; the locale
    \<open>symbol_coding\<close> is what the compressor asks of a pair of models.
  \<^item> \<open>Conditioning_Class\<close>, \<open>Conditioning_Tree\<close>, \<open>Conditioning_List\<close>, \<open>Conditioning_Pool\<close>: \<open>conditioning_class/\<close>, the counts of
    one context as an array, a tree and a list, against the locale \<open>conditioning\<close>, and as a list in a pool of nodes that may be
    empty, against the weaker \<open>coding_class\<close>.
  \<^item> \<open>Order_Models\<close>: the models of the orders -1, 0 and 1 (\<open>entropy_encoder_model_kernel_6.h\<close>, \<open>_1.h\<close>, \<open>_2.h\<close> and the decoders)
    over any conditioning class, which fulfil \<open>symbol_coding\<close>.
  \<^item> \<open>Order_Two\<close>: the model of order 2 (\<open>entropy_encoder_model_kernel_3.h\<close> and the decoder), whose contexts share a pool.
  \<^item> \<open>Frontal_Face\<close>: \<open>image_processing/frontal_face_detector.h\<close>, how the program gets its detector: base64, decompression,
    \<open>deserialize\<close>.
  \<^item> \<open>Face_Net\<close>: the type \<open>anet_type\<close> of \<open>src/python_ffmpeg_interface/include/FaceDetected.h\<close> and
    the tensor sizes of the layers it names (\<open>dnn/layers.h\<close>, \<open>dnn/core.h\<close>, \<open>dnn/cpu_dlib.cpp\<close>, \<open>dnn/loss.h\<close>).
  \<^item> \<open>Face_Detected\<close>: \<open>src/python_ffmpeg_interface/src/FaceDetected.cpp\<close> and \<open>FaceDetected_python.cpp\<close>.
  \<^item> \<open>H264_Coding\<close>, \<open>H264_Img_Process\<close>: \<open>H264Encoder.cpp\<close>, \<open>H264Decoder.cpp\<close>, \<open>H264ImgProcess.cpp\<close>
    of \<open>src/python_ffmpeg_interface/src\<close>, the last also with the steps of its threads.
  \<^item> \<open>Robot_Motion\<close>, \<open>Robot_Control\<close>: the sketch \<open>src/Arduino/robot\<close>: motors, sonars and
    manoeuvres; voice, phone, compass, steering and the main loop.
  \<^item> \<open>User_Compass\<close>: the sketch \<open>src/Arduino/user\<close>, whose headings the robot receives.

  \<^bold>\<open>How state and operations correspond.\<close>
  A C++ class is a record of its data members, a method a function from the record to the record
  and the result. A null dereference or a read past an array is \<open>None\<close> (\<open>Undefined\<close> in a checked
  call). A node pointer of the tree is an address, and the memory reachable from it a value of the
  datatype \<open>node\<close>; \<open>exchange(a, b)\<close> is the passing of the values. A template argument is a
  record of operations with a locale for its contract; every locale is interpreted on the classes
  that implement it. Machine integers that wrap are words or reduced modulo a power of two; where
  signed overflow would be undefined a hypothesis gives the range. \<open>double\<close> is modelled as \<open>real\<close>, and where its bits are
  written to a stream as \<open>floating\<close>, which also has the negative zero, the infinities and one NaN. Sizes of containers are \<open>nat\<close>:
  the memory ends before \<open>unsigned long\<close> does.

  \<^bold>\<open>What the lemmas show.\<close>
  For the containers: the convention of each class is an invariant (insertion and enumeration of the tree are a stable sort, \<open>bst_sorts\<close>), every operation meets its
  requires/ensures clause (functional theorems on a multiset of pairs, a set, or a map), nothing is
  undefined when the requires clause holds, the checked class throws exactly when it does not.
  For the serialization: each pair of functions meets the contract of its locale, composed from the
  parts of the type, so that the round trips of whole containers and detectors follow; where the
  code does not meet it (a length of zero, a truncated \<open>vector<char>\<close>, a set with repeated elements in
  the stream, the sign of a negative zero) a theorem says what happens instead.
  For the compression: the range coder decodes what it coded, for any calls in bounds; a model and its decoder stay in the same state
  and make the same calls (\<open>in_step\<close>), so that a compressed stream is decompressed to what it was, with the room of
  the streams and the exceptions accounted for; the conditioning classes agree on their counts, which are those of their documentation but for one case,
  or, in a pool that is empty, refuse to count; encoder and decoder then refuse alike;
  the table of the checksum is the division by the polynomial. Together: the detector that is stored in the code as a text is the
  one that was saved.
  For the geometry: the lattice of rectangles, areas, overlap measures and the guarantees of
  non-maximum suppression. For the network: that no assertion of a layer fails, on the call that sets it up and on later ones, and the only sizes it produces. For the video classes:
  increasing time stamps, when the decoder's loop ends, lock discipline, order of the images and
  freedom of deadlock. For the robot: each step of the loop, its invariants, and that it stops when the
  phone is silent; a heading sent by the user's board is the one the robot reads, unless it has come in half. Properties that need an assumption have a witness at concrete data.

  \<^bold>\<open>Bounds and fuel.\<close>
  The tree's enumerator has a stack of 50 pointers: a tree of height 50 or more needs more than
  \<open>2 ^ 36\<close> elements (\<open>bst_height_bound\<close>), so the theorems ask for fewer. An enumeration loop gets one
  round more than there are elements. The decoder's loops and the loops of the sketch that wait for
  hardware take fuel; the termination theorems give the fuel that suffices from an assumption on
  the device (the parser is idle for boundedly many calls in a row, the sonars settle, the serial buffer drains).
  The loops of the range coder get sixteen rounds per call (\<open>rounds\<close>), of which eight suffice (\<open>shifts_8\<close>). The search of the model of order n visits
  at most \<open>order + 3\<close> contexts, which is the fuel of its loop and is proved enough (\<open>contexts_lockstep\<close>); the loop that halves the counts of
  a context runs at most 17 times for the alphabets of the predicate \<open>sized\<close>. The loops of the compressor and the decompressor end with the
  input and with the room of the output.

  \<^bold>\<open>Not modelled.\<close>
  Console output, what the constructors of \<open>FaceDetected\<close> read from the model files, protocol buffers and \<open>long double\<close> in \<open>serialize.h\<close>, the values of the
  network, and the Python bindings. FFmpeg, OpenCV, the image scanner, \<open>general_hash\<close>, \<open>std::sort\<close> and
  the board's hardware are parameters, as are the string literals of the detector. The file of the network is taken to hold parameters of the
  sizes that \<open>setup\<close> gives (\<open>anet_details\<close>). In the steps of the threads (\<open>thread_step\<close>) a call of the decoder under the lock, and the read of the size outside of
  it, are one step, and no exception is thrown under the lock. Not modelled of the classes above: the model of
  \<open>entropy_encoder_model_kernel_4.h\<close>, and the compressors that find repetitions. Of dlib: the parts the program does not use (GUI, networking,
  linear algebra, optimisation, learning algorithms, image formats), and \<open>dlib/external\<close>, which
  are third-party C libraries.
\<close>

end
